(* ===== verification/Prelude.thy ===== *)
theory Prelude
  imports Main "HOL-Library.Multiset" "HOL-Library.Char_ord" "HOL-Library.List_Lexorder"
begin

text \<open>
  What every component shares: the errors a TypeScript function throws and the result type
  of a function that may throw, sequencing of such functions, and the facts on lists, sorting
  and association lists that the parsers of the protocol objects rest on.

  A throwing function is modelled by a value of \<open>js_error + 'a\<close>: \<open>Inl\<close> is the exception
  (its class and message), \<open>Inr\<close> the returned value. \<open>ebind\<close> is the sequencing of two
  statements, the second of which runs only if the first did not throw.
\<close>

section \<open>Exceptions as values\<close>

datatype js_error =
    TypeError string
  | RangeError string
  | SyntaxError string
  | PlainError string

type_synonym 'a result = "js_error + 'a"

definition ebind :: "'a result \<Rightarrow> ('a \<Rightarrow> 'b result) \<Rightarrow> 'b result" where
  "ebind m f = (case m of Inl e \<Rightarrow> Inl e | Inr x \<Rightarrow> f x)"

text \<open>\<open>throw_if c e\<close> is the statement \<^verbatim>\<open>if (c) throw e;\<close>.\<close>

definition throw_if :: "bool \<Rightarrow> js_error \<Rightarrow> unit result" where
  "throw_if c e = (if c then Inl e else Inr ())"

named_theorems result_simps \<open>how a sequence of throwing statements can return\<close>

lemma ebind_Inl [simp]: "ebind (Inl e) f = Inl e"
  by (simp add: ebind_def)

lemma ebind_Inr [simp]: "ebind (Inr x) f = f x"
  by (simp add: ebind_def)

lemma ebind_eq_Inr [result_simps]: "ebind m f = Inr y \<longleftrightarrow> (\<exists>x. m = Inr x \<and> f x = Inr y)"
  by (cases m) simp_all

lemma ebind_eq_Inl: "ebind m f = Inl e \<longleftrightarrow> m = Inl e \<or> (\<exists>x. m = Inr x \<and> f x = Inl e)"
  by (cases m) simp_all

lemma throw_if_eq_Inr [result_simps]: "throw_if c e = Inr u \<longleftrightarrow> \<not> c"
  by (simp add: throw_if_def)

lemma throw_if_eq_Inl [result_simps]: "throw_if c e = Inl e' \<longleftrightarrow> c \<and> e' = e"
  by (auto simp: throw_if_def)

lemma throw_if_False [simp]: "throw_if False e = Inr ()"
  by (simp add: throw_if_def)

lemma throw_if_True [simp]: "throw_if True e = Inl e"
  by (simp add: throw_if_def)

lemma ebind_cong [fundef_cong]:
  "m = m' \<Longrightarrow> (\<And>x. m' = Inr x \<Longrightarrow> f x = f' x) \<Longrightarrow> ebind m f = ebind m' f'"
  by (cases m') simp_all

text \<open>A loop or \<^verbatim>\<open>map\<close> whose body may throw: the first exception ends it.\<close>

fun emap :: "('a \<Rightarrow> 'b result) \<Rightarrow> 'a list \<Rightarrow> 'b list result" where
  "emap f [] = Inr []"
| "emap f (x # xs) = ebind (f x) (\<lambda>y. ebind (emap f xs) (\<lambda>ys. Inr (y # ys)))"

lemma emap_eq_Inr: "emap f xs = Inr ys \<longleftrightarrow> list_all2 (\<lambda>x y. f x = Inr y) xs ys"
  by (induction xs arbitrary: ys) (auto simp: result_simps list_all2_Cons1)

text \<open>A condition on a value that may be absent.\<close>

definition if_present :: "('a \<Rightarrow> bool) \<Rightarrow> 'a option \<Rightarrow> bool" where
  "if_present P x = (case x of None \<Rightarrow> True | Some y \<Rightarrow> P y)"

lemma if_present_simps [simp]: "if_present P None" "if_present P (Some y) = P y"
  by (simp_all add: if_present_def)

section \<open>Sorting and association lists\<close>

lemma sort_eq_iff_mset: "sort xs = sort ys \<longleftrightarrow> mset xs = mset (ys :: 'a :: linorder list)"
  by (metis mset_sort properties_for_sort sorted_sort)

text \<open>\<^verbatim>\<open>a.length !== b.length || a.some((x, i) => x !== b[i])\<close>, the source's array inequality.\<close>

definition arrays_differ :: "'a list \<Rightarrow> 'a list \<Rightarrow> bool" where
  "arrays_differ xs ys \<longleftrightarrow>
     length xs \<noteq> length ys \<or> list_ex (\<lambda>(x, y). x \<noteq> y) (zip xs ys)"

lemma arrays_differ_iff [simp]: "arrays_differ xs ys \<longleftrightarrow> xs \<noteq> ys"
proof (cases "length xs = length ys")
  case True
  then have "list_ex (\<lambda>(x, y). x \<noteq> y) (zip xs ys) \<longleftrightarrow> xs \<noteq> ys"
    by (induction xs ys rule: list_induct2) auto
  then show ?thesis using True by (simp add: arrays_differ_def)
qed (auto simp: arrays_differ_def)

lemma map_of_mset_eq:
  assumes "mset xs = mset ys" "distinct (map fst ys)"
  shows "map_of xs k = map_of ys k"
proof -
  have "mset (map fst xs) = mset (map fst ys)"
    using assms(1) by simp
  then have "distinct (map fst xs)"
    using assms(2) by (metis mset_eq_imp_distinct_iff)
  moreover have "set xs = set ys"
    using assms(1) by (metis set_mset_mset)
  ultimately show ?thesis
    using assms(2) by (metis map_of_eqI map_of_eq_Some_iff not_Some_eq set_map)
qed

lemma mset_eq_of_map_of:
  assumes keys: "mset (map fst xs) = mset (map fst ys)"
    and dist: "distinct (map fst ys)"
    and vals: "\<And>k v. (k, v) \<in> set ys \<Longrightarrow> map_of xs k = Some v"
  shows "mset xs = mset ys"
proof -
  have dx: "distinct (map fst xs)"
    using keys dist by (metis mset_eq_imp_distinct_iff)
  have "set ys \<subseteq> set xs"
    using vals map_of_SomeD by fast
  moreover have "card (set xs) = card (set ys)"
    using dx dist keys by (metis distinct_card distinct_map length_map mset_eq_length)
  ultimately have "set ys = set xs"
    by (simp add: card_subset_eq)
  moreover have "distinct xs" "distinct ys"
    using dx dist by (simp_all add: distinct_map)
  ultimately show ?thesis by (metis set_eq_iff_mset_eq_distinct)
qed

text \<open>\<^verbatim>\<open>set.add(x)\<close> of a \<^verbatim>\<open>Set\<close>, whose elements are listed in the order they were added.\<close>

definition set_add :: "'a \<Rightarrow> 'a list \<Rightarrow> 'a list" where
  "set_add x xs = (if x \<in> set xs then xs else xs @ [x])"

lemma set_set_add [simp]: "set (set_add x xs) = insert x (set xs)"
  by (auto simp: set_add_def)

lemma distinct_set_add [simp]: "distinct (set_add x xs) = distinct xs"
  by (auto simp: set_add_def)

lemma set_fold_set_add [simp]: "set (fold set_add ys xs) = set ys \<union> set xs"
  by (induction ys arbitrary: xs) auto

lemma distinct_fold_set_add [simp]: "distinct (fold set_add ys xs) = distinct xs"
  by (induction ys arbitrary: xs) auto

lemma find_SomeD: "find P xs = Some x \<Longrightarrow> x \<in> set xs \<and> P x"
  by (auto simp: find_Some_iff)

lemma list_all2_same_length: "list_all2 P xs ys \<Longrightarrow> length xs = length ys"
  by (rule list_all2_lengthD)

end
