(* ===== verification/Step_Machines.thy ===== *)
theory Step_Machines
  imports Prelude
begin

text \<open>
  The contracts the state machines of the program are proved against: \<open>progress_machine\<close>, a step
  relation along which a rank never falls and stays put only on a self-loop, \<open>invariant_machine\<close>, a
  step relation with an invariant every step keeps, and \<open>guarded_machine\<close>, a deterministic event
  handler, which gives an invariant machine. The components interpret them on their own steps and
  handlers.
\<close>

section \<open>Machines that only move forward\<close>

locale progress_machine =
  fixes step :: "'s \<Rightarrow> 's \<Rightarrow> bool"
    and rank :: "'s \<Rightarrow> nat"
  assumes rank_mono: "step s t \<Longrightarrow> rank s \<le> rank t"
    and rank_same: "step s t \<Longrightarrow> rank s = rank t \<Longrightarrow> s = t"
begin

lemma rank_reach: "step\<^sup>*\<^sup>* s t \<Longrightarrow> rank s \<le> rank t"
  by (induction rule: rtranclp_induct) (auto dest: rank_mono)

text \<open>A state that has been left is never entered again.\<close>

lemma no_return: "step\<^sup>*\<^sup>* s t \<Longrightarrow> step\<^sup>*\<^sup>* t s \<Longrightarrow> s = t"
proof (induction rule: rtranclp_induct)
  case (step y z)
  have "rank z \<le> rank s" "rank s \<le> rank y" "rank y \<le> rank z"
    using step rank_reach rank_mono by auto
  then have "y = z" using step(2) rank_same by simp
  then show ?case using step by blast
qed simp

text \<open>Along a path, the number of moves to another state is bounded by the gain in rank.\<close>

fun moves :: "'s list \<Rightarrow> nat" where
  "moves (s # t # path) = (if s = t then 0 else 1) + moves (t # path)"
| "moves _ = 0"

fun is_path :: "'s list \<Rightarrow> bool" where
  "is_path (s # t # path) \<longleftrightarrow> step s t \<and> is_path (t # path)"
| "is_path _ \<longleftrightarrow> True"

lemma moves_bounded: "is_path (s # path) \<Longrightarrow> moves (s # path) + rank s \<le> rank (last (s # path))"
proof (induction path arbitrary: s)
  case (Cons t path)
  then have IH: "moves (t # path) + rank t \<le> rank (last (t # path))" and st: "step s t" by auto
  have "rank s + (if s = t then 0 else 1) \<le> rank t"
    using rank_mono[OF st] rank_same[OF st] by fastforce
  then show ?case using IH by auto
qed simp

end

section \<open>Steps that keep an invariant\<close>

locale invariant_machine =
  fixes step :: "'s \<Rightarrow> 's \<Rightarrow> bool"
    and initial :: "'s \<Rightarrow> bool"
    and inv :: "'s \<Rightarrow> bool"
  assumes initial_inv: "initial s \<Longrightarrow> inv s"
    and step_inv: "step s t \<Longrightarrow> inv s \<Longrightarrow> inv t"
begin

lemma steps_inv: "step\<^sup>*\<^sup>* s t \<Longrightarrow> inv s \<Longrightarrow> inv t"
  by (induction rule: rtranclp_induct) (auto dest: step_inv)

lemma reach_inv: "initial s \<Longrightarrow> step\<^sup>*\<^sup>* s t \<Longrightarrow> inv t"
  using steps_inv initial_inv by blast

end

section \<open>Handlers that keep an invariant\<close>

locale guarded_machine =
  fixes handle :: "'e \<Rightarrow> 's \<Rightarrow> 's"
    and initial :: "'s \<Rightarrow> bool"
    and inv :: "'s \<Rightarrow> bool"
  assumes start_inv: "initial s \<Longrightarrow> inv s"
    and handle_inv: "inv s \<Longrightarrow> inv (handle e s)"

sublocale guarded_machine \<subseteq> invariant_machine "\<lambda>s t. \<exists>e. t = handle e s" initial inv
  by unfold_locales (auto intro: start_inv handle_inv)

context guarded_machine
begin

text \<open>The invariant holds after every sequence of events, in any order.\<close>

lemma run_reach: "(\<lambda>s t. \<exists>e. t = handle e s)\<^sup>*\<^sup>* s (fold handle es s)"
proof (induction es arbitrary: s)
  case (Cons e es)
  then show ?case by (auto intro: converse_rtranclp_into_rtranclp)
qed simp

lemma run_inv: "initial s \<Longrightarrow> inv (fold handle es s)"
  using reach_inv run_reach by blast

lemma run_prefix_inv: "initial s \<Longrightarrow> inv (fold handle (take n es) s)"
  by (rule run_inv)

end

end
