(* ===== verification/Handoff_State.thy ===== *)
theory Handoff_State
  imports Step_Machines
begin

text \<open>
  The states of a handoff and the transitions
  \<^verbatim>\<open>assertManagedConversationHandoffTransition\<close> of
  \<^verbatim>\<open>packages/shared/src/managed-conversation-transfer.ts\<close> lets pass, with the step relation it
  induces and the shape of every run of it.
\<close>

datatype handoff_state =
    Quiesce_requested | Provider_stopped | Source_sealed | Workspace_prepared | Target_verified
  | Lease_transferred | Restoring | Identity_verified | Running | Failed | Quarantined

definition handoff_states :: "handoff_state list" where
  "handoff_states =
     [Quiesce_requested, Provider_stopped, Source_sealed, Workspace_prepared, Target_verified,
      Lease_transferred, Restoring, Identity_verified, Running, Failed, Quarantined]"

definition handoff_state_name :: "handoff_state \<Rightarrow> string" where
  "handoff_state_name s =
     (case s of
        Quiesce_requested \<Rightarrow> ''quiesce_requested''
      | Provider_stopped \<Rightarrow> ''provider_stopped''
      | Source_sealed \<Rightarrow> ''source_sealed''
      | Workspace_prepared \<Rightarrow> ''workspace_prepared''
      | Target_verified \<Rightarrow> ''target_verified''
      | Lease_transferred \<Rightarrow> ''lease_transferred''
      | Restoring \<Rightarrow> ''restoring''
      | Identity_verified \<Rightarrow> ''identity_verified''
      | Running \<Rightarrow> ''running''
      | Failed \<Rightarrow> ''failed''
      | Quarantined \<Rightarrow> ''quarantined'')"

text \<open>\<^verbatim>\<open>transitionMap\<close>\<close>

definition handoff_transitions :: "handoff_state \<Rightarrow> handoff_state list" where
  "handoff_transitions s =
     (case s of
        Quiesce_requested \<Rightarrow> [Provider_stopped, Failed]
      | Provider_stopped \<Rightarrow> [Source_sealed, Failed]
      | Source_sealed \<Rightarrow> [Workspace_prepared, Failed]
      | Workspace_prepared \<Rightarrow> [Target_verified, Failed]
      | Target_verified \<Rightarrow> [Target_verified, Lease_transferred, Failed]
      | Lease_transferred \<Rightarrow> [Restoring, Failed, Quarantined]
      | Restoring \<Rightarrow> [Identity_verified, Failed, Quarantined]
      | Identity_verified \<Rightarrow> [Running, Quarantined]
      | Running \<Rightarrow> []
      | Failed \<Rightarrow> []
      | Quarantined \<Rightarrow> [])"

definition assert_handoff_transition :: "handoff_state \<Rightarrow> handoff_state \<Rightarrow> unit result" where
  "assert_handoff_transition s t =
     throw_if (t \<notin> set (handoff_transitions s))
       (PlainError (''Invalid Managed Conversation handoff transition: '' @ handoff_state_name s @
          '' -> '' @ handoff_state_name t))"

text \<open>A handoff moves from one state to the next when the assertion returns.\<close>

inductive handoff_step :: "handoff_state \<Rightarrow> handoff_state \<Rightarrow> bool" where
  "assert_handoff_transition s t = Inr () \<Longrightarrow> handoff_step s t"

code_pred handoff_step .

lemma handoff_step_iff: "handoff_step s t \<longleftrightarrow> t \<in> set (handoff_transitions s)"
  by (auto simp: handoff_step.simps assert_handoff_transition_def result_simps)

inductive_cases handoff_stepE: "handoff_step s t"

inductive_simps handoff_step_simps: "handoff_step s t"

definition handoff_rank :: "handoff_state \<Rightarrow> nat" where
  "handoff_rank s =
     (case s of
        Quiesce_requested \<Rightarrow> 0 | Provider_stopped \<Rightarrow> 1 | Source_sealed \<Rightarrow> 2
      | Workspace_prepared \<Rightarrow> 3 | Target_verified \<Rightarrow> 4 | Lease_transferred \<Rightarrow> 5 | Restoring \<Rightarrow> 6
      | Identity_verified \<Rightarrow> 7 | Running \<Rightarrow> 8 | Failed \<Rightarrow> 8 | Quarantined \<Rightarrow> 8)"

interpretation handoff_machine: progress_machine handoff_step handoff_rank
  by unfold_locales
    (auto simp: handoff_step_iff handoff_transitions_def handoff_rank_def
      split: handoff_state.splits)

text \<open>A run: consecutive states are steps.\<close>

fun handoff_run :: "handoff_state list \<Rightarrow> bool" where
  "handoff_run (s # t # path) \<longleftrightarrow> handoff_step s t \<and> handoff_run (t # path)"
| "handoff_run _ \<longleftrightarrow> True"

fun_cases handoff_runE: "handoff_run (s # t # path)"

lemma handoff_run_is_path: "handoff_run path = handoff_machine.is_path path"
  by (induction path rule: handoff_run.induct) simp_all

text \<open>What can follow in a run that ends in \<^verbatim>\<open>running\<close>, state by state.\<close>

lemma run_dead: "handoff_run (s # path) \<Longrightarrow> handoff_transitions s = [] \<Longrightarrow> path = []"
  by (cases path) (simp_all add: handoff_step_iff)

lemma run_to_running_step:
  assumes run: "handoff_run (s # path)" and end': "last (s # path) = Running" and "s \<noteq> Running"
  shows "\<exists>t \<in> set (handoff_transitions s) - {Failed, Quarantined}.
    \<exists>p. path = t # p \<and> handoff_run (t # p) \<and> last (t # p) = Running"
proof (cases path)
  case (Cons t p)
  then have t: "t \<in> set (handoff_transitions s)" "handoff_run (t # p)" "last (t # p) = Running"
    using run end' by (simp_all add: handoff_step_iff)
  moreover have "t \<noteq> Failed" "t \<noteq> Quarantined"
    using run_dead[OF t(2)] t(3) by (auto simp: handoff_transitions_def)
  ultimately show ?thesis using Cons by blast
qed (use assms in simp)

lemma run_to_running_next:
  assumes "set (handoff_transitions s) - {Failed, Quarantined} = {t}"
    and "handoff_run (s # path)" "last (s # path) = Running" "s \<noteq> Running"
  obtains p where "path = t # p" "handoff_run (t # p)" "last (t # p) = Running"
  using run_to_running_step[OF assms(2-4)] unfolding assms(1) by blast

lemma handoff_next:
  "set (handoff_transitions Quiesce_requested) - {Failed, Quarantined} = {Provider_stopped}"
  "set (handoff_transitions Provider_stopped) - {Failed, Quarantined} = {Source_sealed}"
  "set (handoff_transitions Source_sealed) - {Failed, Quarantined} = {Workspace_prepared}"
  "set (handoff_transitions Workspace_prepared) - {Failed, Quarantined} = {Target_verified}"
  "set (handoff_transitions Lease_transferred) - {Failed, Quarantined} = {Restoring}"
  "set (handoff_transitions Restoring) - {Failed, Quarantined} = {Identity_verified}"
  "set (handoff_transitions Identity_verified) - {Failed, Quarantined} = {Running}"
  "set (handoff_transitions Target_verified) - {Failed, Quarantined} =
     {Target_verified, Lease_transferred}"
  by (auto simp: handoff_transitions_def)

definition after_lease :: "handoff_state list" where
  "after_lease = [Lease_transferred, Restoring, Identity_verified, Running]"

lemma run_from_lease:
  assumes "handoff_run (Lease_transferred # path)" "last (Lease_transferred # path) = Running"
  shows "Lease_transferred # path = after_lease"
proof -
  obtain p1 where 1: "path = Restoring # p1" "handoff_run (Restoring # p1)"
    "last (Restoring # p1) = Running"
    by (rule run_to_running_next[OF handoff_next(5) assms]) simp_all
  obtain p2 where 2: "p1 = Identity_verified # p2" "handoff_run (Identity_verified # p2)"
    "last (Identity_verified # p2) = Running"
    by (rule run_to_running_next[OF handoff_next(6) 1(2,3)]) simp_all
  obtain p3 where 3: "p2 = Running # p3" "handoff_run (Running # p3)"
    by (rule run_to_running_next[OF handoff_next(7) 2(2,3)]) simp_all
  have "p3 = []"
    using run_dead[OF 3(2)] by (simp add: handoff_transitions_def)
  then show ?thesis using 1 2 3 by (simp add: after_lease_def)
qed

lemma run_from_verified:
  assumes "handoff_run (Target_verified # path)" "last (Target_verified # path) = Running"
  shows "\<exists>n. Target_verified # path = replicate (Suc n) Target_verified @ after_lease"
  using assms
proof (induction path)
  case (Cons t path)
  have t: "t = Target_verified \<or> t = Lease_transferred" "handoff_run (t # path)"
    "last (t # path) = Running"
    using run_to_running_step[OF Cons.prems] unfolding handoff_next(8) by auto
  show ?case
  proof (cases "t = Target_verified")
    case True
    then obtain n where "t # path = replicate (Suc n) Target_verified @ after_lease"
      using Cons.IH t(2,3) by blast
    then show ?thesis by (intro exI[of _ "Suc n"]) simp
  next
    case False
    then have "t # path = after_lease"
      using t run_from_lease by blast
    then show ?thesis by (intro exI[of _ 0]) simp
  qed
qed simp

lemma run_before_verified:
  assumes "handoff_run (Quiesce_requested # path)" "last (Quiesce_requested # path) = Running"
  obtains p where "Quiesce_requested # path =
      [Quiesce_requested, Provider_stopped, Source_sealed, Workspace_prepared] @ Target_verified # p"
    "handoff_run (Target_verified # p)" "last (Target_verified # p) = Running"
proof -
  obtain p1 where 1: "path = Provider_stopped # p1" "handoff_run (Provider_stopped # p1)"
    "last (Provider_stopped # p1) = Running"
    by (rule run_to_running_next[OF handoff_next(1) assms]) simp_all
  obtain p2 where 2: "p1 = Source_sealed # p2" "handoff_run (Source_sealed # p2)"
    "last (Source_sealed # p2) = Running"
    by (rule run_to_running_next[OF handoff_next(2) 1(2,3)]) simp_all
  obtain p3 where 3: "p2 = Workspace_prepared # p3" "handoff_run (Workspace_prepared # p3)"
    "last (Workspace_prepared # p3) = Running"
    by (rule run_to_running_next[OF handoff_next(3) 2(2,3)]) simp_all
  obtain p4 where 4: "p3 = Target_verified # p4" "handoff_run (Target_verified # p4)"
    "last (Target_verified # p4) = Running"
    by (rule run_to_running_next[OF handoff_next(4) 3(2,3)]) simp_all
  show thesis using that[of p4] 1 2 3 4 by simp
qed

lemma handoff_run_verified_loop:
  "handoff_run (replicate (Suc n) Target_verified @ after_lease)"
proof (induction n)
  case (Suc n)
  then show ?case by (simp add: handoff_step_iff handoff_transitions_def)
qed (simp add: after_lease_def handoff_step_iff handoff_transitions_def)

lemma handoff_run_happy:
  "handoff_run ([Quiesce_requested, Provider_stopped, Source_sealed, Workspace_prepared] @
     replicate (Suc n) Target_verified @ after_lease)"
  using handoff_run_verified_loop[of n] by (simp add: handoff_step_iff handoff_transitions_def)

text \<open>A handoff is over in \<^verbatim>\<open>running\<close>, \<^verbatim>\<open>failed\<close> and \<^verbatim>\<open>quarantined\<close>.\<close>

definition handoff_terminal :: "handoff_state \<Rightarrow> bool" where
  "handoff_terminal s \<longleftrightarrow> s \<in> {Running, Failed, Quarantined}"

lemma handoff_terminal_iff: "handoff_terminal s \<longleftrightarrow> (\<forall>t. \<not> handoff_step s t)"
  by (cases s) (auto simp: handoff_terminal_def handoff_step_iff handoff_transitions_def)

end
