(* ===== verification/Js_Text.thy ===== *)
theory Js_Text
  imports Prelude
begin

text \<open>
  The text operations of JavaScript and Node that the protocol code uses, on \<open>string\<close>.

  A JavaScript string is modelled by the bytes of its UTF-8 encoding, one \<open>char\<close> per byte (a
  lone surrogate, which UTF-8 proper cannot encode, takes the three bytes its code unit would
  take). The same type stands for a \<^verbatim>\<open>Uint8Array\<close> or \<^verbatim>\<open>Buffer\<close>, so \<^verbatim>\<open>TextEncoder\<close> is the
  identity on well-formed text. \<^verbatim>\<open>length\<close> counts UTF-16 code units and is \<open>js_length\<close>. The
  anchored regular expressions of the source use ASCII character classes only, so they are
  tests of the bytes.
\<close>

section \<open>Character classes and anchored patterns\<close>

definition is_digit :: "char \<Rightarrow> bool" where
  "is_digit c \<longleftrightarrow> CHR ''0'' \<le> c \<and> c \<le> CHR ''9''"

definition is_lower :: "char \<Rightarrow> bool" where
  "is_lower c \<longleftrightarrow> CHR ''a'' \<le> c \<and> c \<le> CHR ''z''"

definition is_upper :: "char \<Rightarrow> bool" where
  "is_upper c \<longleftrightarrow> CHR ''A'' \<le> c \<and> c \<le> CHR ''Z''"

definition is_hex_lower :: "char \<Rightarrow> bool" where
  "is_hex_lower c \<longleftrightarrow> is_digit c \<or> (CHR ''a'' \<le> c \<and> c \<le> CHR ''f'')"

definition is_lower_alnum :: "char \<Rightarrow> bool" where
  "is_lower_alnum c \<longleftrightarrow> is_lower c \<or> is_digit c"

definition is_base64url_char :: "char \<Rightarrow> bool" where
  "is_base64url_char c \<longleftrightarrow>
     is_upper c \<or> is_lower c \<or> is_digit c \<or> c = CHR ''_'' \<or> c = CHR ''-''"

text \<open>A fixed-length anchored pattern is the list of its classes.\<close>

definition matches :: "(char \<Rightarrow> bool) list \<Rightarrow> string \<Rightarrow> bool" where
  "matches classes s \<longleftrightarrow> list_all2 (\<lambda>p c. p c) classes s"

lemma matches_length: "matches ps s \<Longrightarrow> length s = length ps"
  by (simp add: matches_def list_all2_lengthD)

section \<open>Lengths, trimming, splitting\<close>

text \<open>\<^verbatim>\<open>s.length\<close>: a continuation byte adds no code unit, a four-byte lead adds two.\<close>

definition code_units :: "char \<Rightarrow> nat" where
  "code_units c =
     (let b = of_char c :: nat in
      if 128 \<le> b \<and> b < 192 then 0 else if 240 \<le> b then 2 else 1)"

definition js_length :: "string \<Rightarrow> nat" where
  "js_length s = sum_list (map code_units s)"

lemma js_length_Nil [simp]: "js_length [] = 0"
  by (simp add: js_length_def)

lemma js_length_Cons [simp]: "js_length (c # s) = code_units c + js_length s"
  by (simp add: js_length_def)

lemma js_length_append [simp]: "js_length (s @ t) = js_length s + js_length t"
  by (simp add: js_length_def)

text \<open>
  White space and line terminators, the characters \<^verbatim>\<open>trim\<close> removes: \<open>ws_prefix ws s\<close> is the
  number of bytes of the character of \<open>ws\<close> that \<open>s\<close> starts with, 0 if there is none.
\<close>

definition ws_chars :: "string list" where
  "ws_chars =
   [[CHR 0x09], [CHR 0x0A], [CHR 0x0B], [CHR 0x0C], [CHR 0x0D], [CHR 0x20],
     [CHR 0xC2, CHR 0xA0], [CHR 0xE1, CHR 0x9A, CHR 0x80], [CHR 0xE2, CHR 0x80, CHR 0x80],
     [CHR 0xE2, CHR 0x80, CHR 0x81], [CHR 0xE2, CHR 0x80, CHR 0x82],
     [CHR 0xE2, CHR 0x80, CHR 0x83], [CHR 0xE2, CHR 0x80, CHR 0x84],
     [CHR 0xE2, CHR 0x80, CHR 0x85], [CHR 0xE2, CHR 0x80, CHR 0x86],
     [CHR 0xE2, CHR 0x80, CHR 0x87], [CHR 0xE2, CHR 0x80, CHR 0x88],
     [CHR 0xE2, CHR 0x80, CHR 0x89], [CHR 0xE2, CHR 0x80, CHR 0x8A],
     [CHR 0xE2, CHR 0x80, CHR 0xA8], [CHR 0xE2, CHR 0x80, CHR 0xA9],
     [CHR 0xE2, CHR 0x80, CHR 0xAF], [CHR 0xE2, CHR 0x81, CHR 0x9F],
     [CHR 0xE3, CHR 0x80, CHR 0x80], [CHR 0xEF, CHR 0xBB, CHR 0xBF]]"

definition ws_prefix :: "string list \<Rightarrow> string \<Rightarrow> nat" where
  "ws_prefix ws s =
     (case filter (\<lambda>w. take (length w) s = w) ws of [] \<Rightarrow> 0 | w # _ \<Rightarrow> length w)"

text \<open>\<open>trim_from ws n s\<close> drops \<open>n\<close> bytes and then every character of \<open>ws\<close> in front.\<close>

fun trim_from :: "string list \<Rightarrow> nat \<Rightarrow> string \<Rightarrow> string" where
  "trim_from ws n [] = []"
| "trim_from ws (Suc n) (c # s) = trim_from ws n s"
| "trim_from ws 0 (c # s) =
     (case ws_prefix ws (c # s) of 0 \<Rightarrow> c # s | Suc k \<Rightarrow> trim_from ws k s)"

definition js_trim :: "string \<Rightarrow> string" where
  "js_trim s = rev (trim_from (map rev ws_chars) 0 (rev (trim_from ws_chars 0 s)))"

lemma trim_from_suffix: "\<exists>t. s = t @ trim_from ws n s"
proof (induction ws n s rule: trim_from.induct)
  case (2 ws n c s)
  then show ?case by (metis append_Cons trim_from.simps(2))
next
  case (3 ws c s)
  show ?case
  proof (cases "ws_prefix ws (c # s)")
    case (Suc k)
    with 3 obtain t where "s = t @ trim_from ws k s" by blast
    then show ?thesis using Suc by (metis append_Cons nat.simps(5) trim_from.simps(3))
  qed simp
qed simp

lemma length_trim_from: "length (trim_from ws n s) \<le> length s"
  by (metis trim_from_suffix le_add2 length_append)

lemma length_js_trim: "length (js_trim s) \<le> length s"
  unfolding js_trim_def using length_trim_from by (metis le_trans length_rev)

text \<open>Trimming is idempotent and never lengthens.\<close>

lemma ws_prefix_prefix:
  assumes "ws_prefix ws (u @ t) = 0" "[] \<notin> set ws"
  shows "ws_prefix ws u = 0"
proof -
  have none: "filter (\<lambda>w. take (length w) (u @ t) = w) ws = []"
    using assms by (cases "filter (\<lambda>w. take (length w) (u @ t) = w) ws")
      (auto simp: ws_prefix_def filter_eq_Cons_iff)
  have "take (length w) (u @ t) = w" if "take (length w) u = w" for w
  proof -
    have "length w \<le> length u" using that by (metis length_take min.cobounded1)
    then show ?thesis using that by simp
  qed
  then have "filter (\<lambda>w. take (length w) u = w) ws = []"
    using none by (auto simp: filter_empty_conv)
  then show ?thesis by (simp add: ws_prefix_def)
qed

lemma trim_from_stops: "trim_from ws n s = [] \<or> ws_prefix ws (trim_from ws n s) = 0"
  by (induction ws n s rule: trim_from.induct) (auto split: nat.splits)

lemma trim_from_fixed: "ws_prefix ws s = 0 \<Longrightarrow> trim_from ws 0 s = s"
  by (cases s) simp_all

lemma ws_chars_nonempty: "[] \<notin> set ws_chars" "[] \<notin> set (map rev ws_chars)"
  by (simp_all add: ws_chars_def)

lemma js_trim_idem [simp]: "js_trim (js_trim s) = js_trim s"
proof -
  let ?t = "trim_from ws_chars 0 s" and ?r = "js_trim s"
  obtain b where b: "rev ?t = b @ rev ?r"
    using trim_from_suffix[of "rev ?t" "map rev ws_chars" 0] by (auto simp: js_trim_def)
  then have t: "?t = ?r @ rev b"
    by (metis rev_append rev_rev_ident)
  have front: "trim_from ws_chars 0 ?r = ?r"
    using trim_from_stops[of ws_chars 0 s]
  proof
    assume "?t = []"
    then have "?r = []" using t by (metis append_is_Nil_conv)
    then show ?thesis by (simp only: trim_from.simps)
  next
    assume "ws_prefix ws_chars ?t = 0"
    then have "ws_prefix ws_chars (?r @ rev b) = 0" unfolding t .
    then show ?thesis
      by (rule trim_from_fixed[OF ws_prefix_prefix[OF _ ws_chars_nonempty(1)]])
  qed
  have "rev ?r = [] \<or> ws_prefix (map rev ws_chars) (rev ?r) = 0"
    unfolding js_trim_def rev_rev_ident by (rule trim_from_stops)
  then have "trim_from (map rev ws_chars) 0 (rev ?r) = rev ?r"
    by (metis trim_from_fixed trim_from.simps(1))
  then show ?thesis
    unfolding js_trim_def[of ?r] front by (simp only: rev_rev_ident)
qed

lemma js_length_js_trim: "js_length (js_trim s) \<le> js_length s"
proof -
  let ?t = "trim_from ws_chars 0 s"
  obtain a where "s = a @ ?t" using trim_from_suffix by blast
  then have 1: "js_length ?t \<le> js_length s" by (metis js_length_append le_add2)
  obtain b where "rev ?t = b @ rev (js_trim s)"
    using trim_from_suffix[of "rev ?t" "map rev ws_chars" 0] by (auto simp: js_trim_def)
  then have "?t = js_trim s @ rev b" by (metis rev_append rev_rev_ident)
  then have "js_length (js_trim s) \<le> js_length ?t" by (metis js_length_append le_add1)
  then show ?thesis using 1 by simp
qed

text \<open>\<^verbatim>\<open>s.split(c)\<close> for a one-character separator: always at least one part.\<close>

fun split_on :: "char \<Rightarrow> string \<Rightarrow> string list" where
  "split_on c [] = [[]]"
| "split_on c (x # xs) =
     (if x = c then [] # split_on c xs
      else (case split_on c xs of [] \<Rightarrow> [[x]] | p # ps \<Rightarrow> (x # p) # ps))"

lemma split_on_nonempty [simp]: "split_on c s \<noteq> []"
  by (induction s) (auto split: list.splits)

fun join_with :: "char \<Rightarrow> string list \<Rightarrow> string" where
  "join_with c [] = []"
| "join_with c [p] = p"
| "join_with c (p # q # ps) = p @ c # join_with c (q # ps)"

lemma join_with_Cons_nonempty:
  "ps \<noteq> [] \<Longrightarrow> join_with c (p # ps) = p @ c # join_with c ps"
  by (cases ps) simp_all

lemma join_split_on: "join_with c (split_on c s) = s"
proof (induction s)
  case (Cons x xs)
  then show ?case
    by (cases "split_on c xs") (auto simp: join_with_Cons_nonempty neq_Nil_conv,
        (metis append_Cons join_with.simps(2) join_with.simps(3) neq_Nil_conv)+)
qed simp

lemma split_on_parts: "p \<in> set (split_on c s) \<Longrightarrow> c \<notin> set p"
proof (induction s arbitrary: p)
  case (Cons x xs)
  then show ?case by (cases "split_on c xs") (auto split: if_splits)
qed simp

section \<open>base64url\<close>

text \<open>\<^verbatim>\<open>Buffer.from(s, "base64url")\<close> and \<^verbatim>\<open>toString("base64url")\<close>, on text of the base64url
  alphabet (the source tests the alphabet first). A lone last character carries six bits and is
  dropped, surplus low bits of the last character are dropped, and no padding is written.\<close>

definition b64_value :: "char \<Rightarrow> nat" where
  "b64_value c =
     (if is_upper c then of_char c - 65
      else if is_lower c then of_char c - 71
      else if is_digit c then of_char c + 4
      else if c = CHR ''-'' then 62 else 63)"

definition b64_char :: "nat \<Rightarrow> char" where
  "b64_char n =
     (if n < 26 then char_of (n + 65)
      else if n < 52 then char_of (n + 71)
      else if n < 62 then char_of (n - 4)
      else if n = 62 then CHR ''-'' else CHR ''_'')"

fun b64_decode :: "string \<Rightarrow> string" where
  "b64_decode (p # q # r # s # rest) =
     (let a = b64_value p; b = b64_value q; c = b64_value r; d = b64_value s in
      char_of (a * 4 + b div 16) # char_of ((b mod 16) * 16 + c div 4)
      # char_of ((c mod 4) * 64 + d) # b64_decode rest)"
| "b64_decode [p, q, r] =
     (let a = b64_value p; b = b64_value q; c = b64_value r in
      [char_of (a * 4 + b div 16), char_of ((b mod 16) * 16 + c div 4)])"
| "b64_decode [p, q] =
     (let a = b64_value p; b = b64_value q in [char_of (a * 4 + b div 16)])"
| "b64_decode _ = []"

fun b64_encode :: "string \<Rightarrow> string" where
  "b64_encode (x # y # z # rest) =
     (let a = of_char x; b = of_char y; c = of_char z in
      b64_char (a div 4) # b64_char ((a mod 4) * 16 + b div 16)
      # b64_char ((b mod 16) * 4 + c div 64) # b64_char (c mod 64) # b64_encode rest)"
| "b64_encode [x, y] =
     (let a = of_char x; b = of_char y in
      [b64_char (a div 4), b64_char ((a mod 4) * 16 + b div 16), b64_char ((b mod 16) * 4)])"
| "b64_encode [x] =
     (let a = of_char x in [b64_char (a div 4), b64_char ((a mod 4) * 16)])"
| "b64_encode [] = []"

lemma b64_value_char: "n < 64 \<Longrightarrow> b64_value (b64_char n) = n"
  unfolding b64_value_def b64_char_def is_upper_def is_lower_def is_digit_def less_eq_char_def
  by auto

lemma b64_char_alphabet: "is_base64url_char (b64_char n)"
  unfolding b64_char_def is_base64url_char_def is_upper_def is_lower_def is_digit_def
    less_eq_char_def
  by auto

text \<open>Packing two bit fields into one number and reading them back.\<close>

lemma unpack_fields:
  fixes q r k :: nat
  assumes "r < k"
  shows "(q * k + r) div k = q" "(q * k + r) mod k = r"
  using assms by simp_all

lemma six_bit_fields:
  fixes a b c :: nat
  assumes "a < 256" "b < 256" "c < 256"
  shows "a div 4 < 64" "b div 16 < 16" "c div 64 < 4" "c mod 64 < 64"
    "(a mod 4) * 16 + b div 16 < 64" "(b mod 16) * 4 + c div 64 < 64"
    "(a mod 4) * 16 < 64" "(b mod 16) * 4 < 64"
proof -
  have "a mod 4 < 4" "b mod 16 < 16" by simp_all
  moreover show "a div 4 < 64" "b div 16 < 16" "c div 64 < 4" "c mod 64 < 64"
    using assms by simp_all
  ultimately show "(a mod 4) * 16 + b div 16 < 64" "(b mod 16) * 4 + c div 64 < 64"
    "(a mod 4) * 16 < 64" "(b mod 16) * 4 < 64"
    by linarith+
qed

lemma b64_group:
  fixes a b c :: nat
  assumes "a < 256" "b < 256" "c < 256"
  shows "b64_value (b64_char (a div 4)) * 4
      + b64_value (b64_char ((a mod 4) * 16 + b div 16)) div 16 = a"
    "b64_value (b64_char ((a mod 4) * 16 + b div 16)) mod 16 * 16
      + b64_value (b64_char ((b mod 16) * 4 + c div 64)) div 4 = b"
    "b64_value (b64_char ((b mod 16) * 4 + c div 64)) mod 4 * 64
      + b64_value (b64_char (c mod 64)) = c"
    "b64_value (b64_char (a div 4)) * 4 + b64_value (b64_char ((a mod 4) * 16)) div 16 = a"
    "b64_value (b64_char ((a mod 4) * 16 + b div 16)) mod 16 * 16
      + b64_value (b64_char ((b mod 16) * 4)) div 4 = b"
proof -
  note f = six_bit_fields[OF assms]
  show "b64_value (b64_char (a div 4)) * 4
      + b64_value (b64_char ((a mod 4) * 16 + b div 16)) div 16 = a"
    by (simp only: b64_value_char f unpack_fields div_mult_mod_eq)
  show "b64_value (b64_char ((a mod 4) * 16 + b div 16)) mod 16 * 16
      + b64_value (b64_char ((b mod 16) * 4 + c div 64)) div 4 = b"
    by (simp only: b64_value_char f unpack_fields div_mult_mod_eq)
  show "b64_value (b64_char ((b mod 16) * 4 + c div 64)) mod 4 * 64
      + b64_value (b64_char (c mod 64)) = c"
    by (simp only: b64_value_char f unpack_fields div_mult_mod_eq)
  show "b64_value (b64_char (a div 4)) * 4 + b64_value (b64_char ((a mod 4) * 16)) div 16 = a"
    by (simp only: b64_value_char f nonzero_mult_div_cancel_right div_mult_mod_eq)
  show "b64_value (b64_char ((a mod 4) * 16 + b div 16)) mod 16 * 16
      + b64_value (b64_char ((b mod 16) * 4)) div 4 = b"
    by (simp only: b64_value_char f unpack_fields nonzero_mult_div_cancel_right) simp
qed

lemma b64_decode_encode: "b64_decode (b64_encode bs) = bs"
proof (induction bs rule: b64_encode.induct)
  case (1 x y z rest)
  then show ?case
    by (simp only: b64_encode.simps b64_decode.simps Let_def
        b64_group[OF nat_of_char_less_256 nat_of_char_less_256 nat_of_char_less_256]
        char_of_char)
next
  case (2 x y)
  then show ?case
    by (simp only: b64_encode.simps b64_decode.simps Let_def
        b64_group[OF nat_of_char_less_256 nat_of_char_less_256 nat_of_char_less_256]
        char_of_char)
next
  case (3 x)
  then show ?case
    by (simp only: b64_encode.simps b64_decode.simps Let_def
        b64_group[OF nat_of_char_less_256 nat_of_char_less_256 nat_of_char_less_256]
        char_of_char)
qed simp

lemma b64_encode_inj [simp]: "b64_encode a = b64_encode b \<longleftrightarrow> a = b"
  by (metis b64_decode_encode)

lemma b64_encode_alphabet: "list_all is_base64url_char (b64_encode bs)"
  by (induction bs rule: b64_encode.induct) (simp_all add: Let_def b64_char_alphabet)

text \<open>The canonical base64url text of \<open>n\<close> bytes: what re-encoding the decoded bytes gives
  back.\<close>

definition canonical_base64url :: "nat \<Rightarrow> string \<Rightarrow> bool" where
  "canonical_base64url n s \<longleftrightarrow>
     s \<noteq> [] \<and> list_all is_base64url_char s \<and> length (b64_decode s) = n \<and>
     b64_encode (b64_decode s) = s"

lemma canonical_base64url_iff:
  assumes "0 < n"
  shows "canonical_base64url n s \<longleftrightarrow> (\<exists>bs. length bs = n \<and> s = b64_encode bs)"
proof
  assume "\<exists>bs. length bs = n \<and> s = b64_encode bs"
  then obtain bs where bs: "length bs = n" "s = b64_encode bs" by blast
  then have "s \<noteq> []"
    using assms by (metis b64_decode.simps(4) b64_decode_encode length_greater_0_conv)
  then show "canonical_base64url n s"
    using bs by (simp add: canonical_base64url_def b64_decode_encode b64_encode_alphabet)
next
  assume "canonical_base64url n s"
  then show "\<exists>bs. length bs = n \<and> s = b64_encode bs"
    by (metis canonical_base64url_def)
qed

lemma canonical_base64url_inj:
  "canonical_base64url n s \<Longrightarrow> canonical_base64url n t \<Longrightarrow> b64_decode s = b64_decode t \<Longrightarrow> s = t"
  by (metis canonical_base64url_def)

section \<open>The order of strings\<close>

text \<open>The UTF-16 code units of a string, by which \<^verbatim>\<open><\<close> and \<^verbatim>\<open>Array.prototype.sort\<close> compare
  strings. It is not the order of the bytes: a character beyond U+FFFF counts as its surrogates.\<close>

function utf16_units :: "string \<Rightarrow> nat list" where
  "utf16_units [] = []"
| "utf16_units (c # s) =
     (let b = (\<lambda>i. if i < length s then of_char (s ! i) mod 64 else 0); a = (of_char c :: nat) in
      if a < 192 then a # utf16_units s
      else if a < 224 then (a mod 32 * 64 + b 0) # utf16_units (drop 1 s)
      else if a < 240 then (a mod 16 * 4096 + b 0 * 64 + b 1) # utf16_units (drop 2 s)
      else
        (let p = a mod 8 * 262144 + b 0 * 4096 + b 1 * 64 + b 2 - 65536 in
         (55296 + p div 1024) # (56320 + p mod 1024) # utf16_units (drop 3 s)))"
  by pat_completeness auto
termination
  by (relation "measure length") auto

lemma utf16_units_ascii: "list_all (\<lambda>c. of_char c < (128 :: nat)) s \<Longrightarrow> utf16_units s = map of_char s"
  by (induction s) (simp_all add: Let_def)

lemma utf16_units_ascii_inj:
  assumes "list_all (\<lambda>c. of_char c < (128 :: nat)) s" "list_all (\<lambda>c. of_char c < (128 :: nat)) t"
    "utf16_units s = utf16_units t"
  shows "s = t"
proof -
  have "map of_char s = (map of_char t :: nat list)" using assms by (simp add: utf16_units_ascii)
  then show ?thesis by (rule map_injective) (simp add: inj_on_def)
qed

definition js_sort :: "string list \<Rightarrow> string list" where
  "js_sort ss = sort_key utf16_units ss"

lemma set_js_sort [simp]: "set (js_sort ss) = set ss"
  by (simp add: js_sort_def)

lemma mset_js_sort [simp]: "mset (js_sort ss) = mset ss"
  by (simp add: js_sort_def)

lemma distinct_js_sort [simp]: "distinct (js_sort ss) = distinct ss"
  by (simp add: js_sort_def)

lemma js_sort_unique:
  assumes "mset ss = mset ts" "\<forall>s \<in> set ss. list_all (\<lambda>c. of_char c < (128 :: nat)) s"
  shows "js_sort ss = js_sort ts"
proof -
  have "inj_on utf16_units (set ss)"
    using assms(2) utf16_units_ascii_inj by (auto simp: inj_on_def)
  then show ?thesis
    unfolding js_sort_def using assms(1) by (intro sort_key_inj_key_eq) simp_all
qed

section \<open>Timestamps\<close>

text \<open>Dates of the proleptic Gregorian calendar as days since 1970-01-01, and back
  (ECMAScript's \<^verbatim>\<open>MakeDay\<close>, \<^verbatim>\<open>YearFromTime\<close>, \<^verbatim>\<open>MonthFromTime\<close> and \<^verbatim>\<open>DateFromTime\<close>); years
  are counted from March so that the leap day is the last of its year.\<close>

definition days_from_civil :: "int \<Rightarrow> int \<Rightarrow> int \<Rightarrow> int" where
  "days_from_civil y m d =
     (let y' = (if m \<le> 2 then y - 1 else y);
          era = y' div 400;
          yoe = y' mod 400;
          mp = (if m > 2 then m - 3 else m + 9);
          doy = (153 * mp + 2) div 5 + d - 1;
          doe = yoe * 365 + yoe div 4 - yoe div 100 + doy
      in era * 146097 + doe - 719468)"

definition civil_from_days :: "int \<Rightarrow> int \<times> int \<times> int" where
  "civil_from_days days =
     (let z = days + 719468;
          era = z div 146097;
          doe = z mod 146097;
          yoe = (doe - doe div 1460 + doe div 36524 - doe div 146096) div 365;
          doy = doe - (365 * yoe + yoe div 4 - yoe div 100);
          mp = (5 * doy + 2) div 153;
          d = doy - (153 * mp + 2) div 5 + 1;
          m = (if mp < 10 then mp + 3 else mp - 9)
      in (yoe + era * 400 + (if m \<le> 2 then 1 else 0), m, d))"

definition digit_value :: "char \<Rightarrow> int" where
  "digit_value c = of_char c - 48"

definition digits_value :: "string \<Rightarrow> int" where
  "digits_value s = foldl (\<lambda>n c. 10 * n + digit_value c) 0 s"

text \<open>\<^verbatim>\<open>String(n)\<close> for a nonnegative integer; the first argument of \<open>decimal_digits\<close> bounds the digits, and the
  number itself is enough.\<close>

fun decimal_digits :: "nat \<Rightarrow> nat \<Rightarrow> string" where
  "decimal_digits 0 n = []"
| "decimal_digits (Suc k) n =
     (if n < 10 then [] else decimal_digits k (n div 10)) @ [char_of (n mod 10 + 48)]"

definition decimal :: "nat \<Rightarrow> string" where
  "decimal n = decimal_digits (Suc n) n"

definition is_decimal :: "string \<Rightarrow> bool" where
  "is_decimal s \<longleftrightarrow> s \<noteq> [] \<and> list_all is_digit s \<and> (1 < length s \<longrightarrow> hd s \<noteq> CHR ''0'')"

lemma digits_value_snoc: "digits_value (s @ [c]) = 10 * digits_value s + digit_value c"
  by (simp add: digits_value_def)

lemma digit_char:
  assumes "n < (10 :: nat)"
  shows "is_digit (char_of (n + 48))" "digit_value (char_of (n + 48)) = int n"
    "char_of (n + 48) = CHR ''0'' \<longleftrightarrow> n = 0"
proof -
  have "n = 0 \<or> n = 1 \<or> n = 2 \<or> n = 3 \<or> n = 4 \<or> n = 5 \<or> n = 6 \<or> n = 7 \<or> n = 8 \<or> n = 9"
    using assms by presburger
  then show "is_digit (char_of (n + 48))" "digit_value (char_of (n + 48)) = int n"
    "char_of (n + 48) = CHR ''0'' \<longleftrightarrow> n = 0"
    by (elim disjE; hypsubst; code_simp)+
qed

lemma decimal_digits_value:
  "n < k \<Longrightarrow> digits_value (decimal_digits k n) = int n \<and> list_all is_digit (decimal_digits k n) \<and>
     decimal_digits k n \<noteq> [] \<and> (hd (decimal_digits k n) = CHR ''0'' \<longrightarrow> n = 0 \<and> length (decimal_digits k n) = 1)"
proof (induction k n rule: decimal_digits.induct)
  case (2 k n)
  note d = digit_char[of "n mod 10"]
  show ?case
  proof (cases "n < 10")
    case True
    then show ?thesis using d by (simp add: digits_value_def)
  next
    case False
    then have "n div 10 < k" "n div 10 \<noteq> 0" using 2(2) by auto
    then have IH: "digits_value (decimal_digits k (n div 10)) = int (n div 10)"
      "list_all is_digit (decimal_digits k (n div 10))" "decimal_digits k (n div 10) \<noteq> []"
      "hd (decimal_digits k (n div 10)) \<noteq> CHR ''0''"
      using 2(1)[OF False] by auto
    have "10 * (n div 10) + n mod 10 = n" by simp
    then have "10 * int (n div 10) + int (n mod 10) = int n" by (metis of_nat_add of_nat_mult of_nat_numeral)
    then show ?thesis using False IH d by (simp add: digits_value_snoc)
  qed
qed simp

lemma decimal_value: "digits_value (decimal n) = int n" "is_decimal (decimal n)"
  using decimal_digits_value[of n "Suc n"] by (auto simp: decimal_def is_decimal_def simp del: decimal_digits.simps)

lemma decimal_digits_enough: "n < k \<Longrightarrow> n < l \<Longrightarrow> decimal_digits k n = decimal_digits l n"
proof (induction k n arbitrary: l rule: decimal_digits.induct)
  case (2 k n)
  then obtain j where "l = Suc j" by (cases l) auto
  then show ?case using 2 by (auto simp: less_Suc_eq_le)
qed simp

lemma decimal_unfold:
  "n < 10 \<Longrightarrow> decimal n = [char_of (n + 48)]"
  "10 \<le> n \<Longrightarrow> decimal n = decimal (n div 10) @ [char_of (n mod 10 + 48)]"
  using decimal_digits_enough[of "n div 10" n "Suc (n div 10)"] by (auto simp: decimal_def)

lemma digit_of_value:
  assumes "is_digit c"
  shows "0 \<le> digit_value c" "digit_value c < 10" "char_of (nat (digit_value c) + 48) = c"
    "digit_value c = 0 \<longleftrightarrow> c = CHR ''0''"
proof -
  have c: "48 \<le> (of_char c :: nat)" "(of_char c :: nat) \<le> 57"
    using assms by (simp_all add: is_digit_def less_eq_char_def)
  have i: "(of_char c :: int) = int (of_char c)" by (simp add: of_nat_of_char)
  show b: "0 \<le> digit_value c" "digit_value c < 10" using c by (simp_all add: digit_value_def i del: of_nat_of_char)
  have "nat (digit_value c) + 48 = of_char c" using c by (simp add: digit_value_def i del: of_nat_of_char)
  then show r: "char_of (nat (digit_value c) + 48) = c" by simp
  have "nat (digit_value c) < 10" using b by simp
  from digit_char(3)[OF this] show "digit_value c = 0 \<longleftrightarrow> c = CHR ''0''" using b r by simp
qed

lemma decimal_of_value: "is_decimal s \<Longrightarrow> decimal (nat (digits_value s)) = s"
proof -
  have "is_decimal s \<longrightarrow> decimal (nat (digits_value s)) = s \<and> 0 \<le> digits_value s \<and>
      (hd s \<noteq> CHR ''0'' \<longrightarrow> 1 \<le> digits_value s)"
  proof (induction s rule: rev_induct)
    case (snoc c s)
    show ?case
    proof
      assume d: "is_decimal (s @ [c])"
      then have c: "is_digit c" by (simp add: is_decimal_def)
      note v = digit_of_value[OF c]
      show "decimal (nat (digits_value (s @ [c]))) = s @ [c] \<and> 0 \<le> digits_value (s @ [c]) \<and>
          (hd (s @ [c]) \<noteq> CHR ''0'' \<longrightarrow> 1 \<le> digits_value (s @ [c]))"
      proof (cases "s = []")
        case True
        then show ?thesis using v by (auto simp: digits_value_def decimal_unfold)
      next
        case False
        then have s: "is_decimal s" "hd s \<noteq> CHR ''0''" using d by (auto simp: is_decimal_def)
        then have IH: "decimal (nat (digits_value s)) = s" "1 \<le> digits_value s" using snoc by auto
        let ?n = "nat (digits_value s)" and ?k = "nat (digit_value c)"
        have n: "nat (digits_value (s @ [c])) = 10 * ?n + ?k"
          using v IH by (simp add: digits_value_snoc nat_add_distrib nat_mult_distrib)
        have "decimal (10 * ?n + ?k) = decimal ((10 * ?n + ?k) div 10) @ [char_of ((10 * ?n + ?k) mod 10 + 48)]"
          using IH by (intro decimal_unfold(2)) simp
        also have "\<dots> = s @ [c]" using v IH(1) by simp
        finally show ?thesis using n v IH by (simp add: digits_value_snoc)
      qed
    qed
  qed (simp add: is_decimal_def)
  then show "is_decimal s \<Longrightarrow> ?thesis" by blast
qed
text \<open>\<^verbatim>\<open>/^\d{4}-\d{2}-\d{2}T\d{2}:\d{2}:\d{2}\.\d{3}Z$/\<close>\<close>

definition iso_pattern :: "(char \<Rightarrow> bool) list" where
  "iso_pattern =
     replicate 4 is_digit @ [(=) CHR ''-''] @ replicate 2 is_digit @ [(=) CHR ''-''] @
     replicate 2 is_digit @ [(=) CHR ''T''] @ replicate 2 is_digit @ [(=) CHR '':''] @
     replicate 2 is_digit @ [(=) CHR '':''] @ replicate 2 is_digit @ [(=) CHR ''.''] @
     replicate 3 is_digit @ [(=) CHR ''Z'']"

text \<open>
  \<^verbatim>\<open>Date.parse\<close> on the one form the protocols write. \<open>None\<close> is NaN: a month, day of month,
  hour, minute or second outside its range (an hour of 24 only at midnight). A day beyond the
  end of its month, 31 at most, runs over into the next month.
\<close>

definition date_parse :: "string \<Rightarrow> int option" where
  "date_parse s =
     (if \<not> matches iso_pattern s then None
      else
        (let y = digits_value (take 4 s);
             mo = digits_value (take 2 (drop 5 s));
             d = digits_value (take 2 (drop 8 s));
             h = digits_value (take 2 (drop 11 s));
             mi = digits_value (take 2 (drop 14 s));
             sec = digits_value (take 2 (drop 17 s));
             ms = digits_value (take 3 (drop 20 s))
         in if 1 \<le> mo \<and> mo \<le> 12 \<and> 1 \<le> d \<and> d \<le> 31 \<and> mi \<le> 59 \<and> sec \<le> 59 \<and>
               (h \<le> 23 \<or> h = 24 \<and> mi = 0 \<and> sec = 0 \<and> ms = 0)
            then Some (((days_from_civil y mo d * 24 + h) * 60 + mi) * 60000 + sec * 1000 + ms)
            else None))"

fun pad_digits :: "nat \<Rightarrow> int \<Rightarrow> string" where
  "pad_digits 0 n = []"
| "pad_digits (Suc k) n = pad_digits k (n div 10) @ [char_of (nat (n mod 10) + 48)]"

text \<open>\<^verbatim>\<open>new Date(t).toISOString()\<close>; an invalid date throws.\<close>

definition to_iso_string :: "int option \<Rightarrow> string result" where
  "to_iso_string t =
     (case t of
        None \<Rightarrow> Inl (RangeError ''Invalid time value'')
      | Some ms \<Rightarrow>
          if \<bar>ms\<bar> > 8640000000000000 then Inl (RangeError ''Invalid time value'')
          else
            (let (y, mo, d) = civil_from_days (ms div 86400000);
                 r = ms mod 86400000
             in Inr ((if 0 \<le> y \<and> y \<le> 9999 then pad_digits 4 y
                      else (if y < 0 then ''-'' else ''+'') @ pad_digits 6 \<bar>y\<bar>) @ ''-'' @
                     pad_digits 2 mo @ ''-'' @ pad_digits 2 d @ ''T'' @
                     pad_digits 2 (r div 3600000) @ '':'' @
                     pad_digits 2 (r div 60000 mod 60) @ '':'' @
                     pad_digits 2 (r div 1000 mod 60) @ ''.'' @
                     pad_digits 3 (r mod 1000) @ ''Z'')))"

text \<open>A canonical timestamp: matches the pattern and is what \<^verbatim>\<open>toISOString\<close> writes for it.\<close>

definition canonical_timestamp :: "string \<Rightarrow> bool" where
  "canonical_timestamp s \<longleftrightarrow>
     matches iso_pattern s \<and> to_iso_string (date_parse s) = Inr s"

text \<open>The milliseconds of a timestamp that has been checked to be canonical.\<close>

definition timestamp_ms :: "string \<Rightarrow> int" where
  "timestamp_ms s = (case date_parse s of None \<Rightarrow> 0 | Some t \<Rightarrow> t)"

lemma canonical_timestamp_parses: "canonical_timestamp s \<Longrightarrow> date_parse s = Some (timestamp_ms s)"
  by (auto simp: canonical_timestamp_def timestamp_ms_def to_iso_string_def split: option.splits)

text \<open>Canonical timestamps are written in one way only, so equal instants are equal text.\<close>

lemma canonical_timestamp_inj:
  assumes "canonical_timestamp s" "canonical_timestamp t" "timestamp_ms s = timestamp_ms t"
  shows "s = t"
proof -
  have "to_iso_string (date_parse s) = to_iso_string (date_parse t)"
    using assms by (simp add: canonical_timestamp_parses)
  then show ?thesis
    using assms(1,2) by (simp add: canonical_timestamp_def)
qed

end
