(* ===== verification/Js_Value.thy ===== *)
theory Js_Value
  imports Js_Text
begin

text \<open>
  Values of TypeScript's type \<^verbatim>\<open>unknown\<close>, as the parsers of the protocol objects see them: the
  JSON values, \<^verbatim>\<open>undefined\<close>, and everything else. An object is the list of its own members in
  insertion order.

  The last part is the interface a parser of protocol objects offers its clients, the locales
  \<open>field_codec\<close> (one field) and \<open>object_codec\<close> (an object with an exact set of fields): which
  values are accepted, and that parsing what was parsed changes nothing.
\<close>

section \<open>Values\<close>

text \<open>A number with an integral value, another finite number (a fraction in lowest terms), or NaN and the infinities.
  Negative zero is \<open>Whole 0\<close>: the parsers never tell the two zeros apart, and \<^verbatim>\<open>JSON.stringify\<close> writes both as 0.\<close>

datatype js_number = Whole int | Fraction int int | Not_finite

datatype js_value =
    JUndefined
  | JNull
  | JBool bool
  | JNum js_number
  | JStr string
  | JArr "js_value list"
  | JObj "(string \<times> js_value) list"
  | JOther \<comment> \<open>a function, symbol, bigint or an object with another prototype\<close>

type_synonym members = "(string \<times> js_value) list"

text \<open>\<^verbatim>\<open>o.k\<close>, \<^verbatim>\<open>undefined\<close> when there is no such member.\<close>

definition fld :: "members \<Rightarrow> string \<Rightarrow> js_value" where
  "fld kvs k = (case map_of kvs k of None \<Rightarrow> JUndefined | Some v \<Rightarrow> v)"

definition max_safe_integer :: int where
  "max_safe_integer = 9007199254740991"

text \<open>\<^verbatim>\<open>Number.isSafeInteger(v) && v >= minimum\<close>, with the integer.\<close>

definition safe_integer :: "int \<Rightarrow> js_value \<Rightarrow> int option" where
  "safe_integer minimum v =
     (case v of
        JNum (Whole n) \<Rightarrow> if \<bar>n\<bar> \<le> max_safe_integer \<and> minimum \<le> n then Some n else None
      | _ \<Rightarrow> None)"

lemma safe_integer_eq_Some:
  "safe_integer m v = Some n \<longleftrightarrow> v = JNum (Whole n) \<and> \<bar>n\<bar> \<le> max_safe_integer \<and> m \<le> n"
  by (auto simp: safe_integer_def split: js_value.splits js_number.splits if_splits)

definition js_int :: "int \<Rightarrow> js_value" where
  "js_int n = JNum (Whole n)"

definition js_null_or :: "string option \<Rightarrow> js_value" where
  "js_null_or s = (case s of None \<Rightarrow> JNull | Some t \<Rightarrow> JStr t)"

lemma js_null_or_simps [simp]: "js_null_or None = JNull" "js_null_or (Some s) = JStr s"
  by (simp_all add: js_null_or_def)

lemma js_null_or_inj [simp]: "js_null_or a = js_null_or b \<longleftrightarrow> a = b"
  by (cases a; cases b) simp_all

lemma js_int_inj [simp]: "js_int a = js_int b \<longleftrightarrow> a = b"
  by (simp add: js_int_def)

lemma js_int_not [simp]: "js_int n \<noteq> JUndefined" "js_int n \<noteq> JNull" "js_int n \<noteq> JStr s"
    "JUndefined \<noteq> js_int n" "JNull \<noteq> js_int n" "JStr s \<noteq> js_int n"
  by (simp_all add: js_int_def)

lemma js_null_or_not [simp]: "js_null_or a \<noteq> JUndefined" "js_null_or a \<noteq> JObj kvs"
    "js_null_or a \<noteq> js_int n"
  by (simp_all add: js_null_or_def js_int_def split: option.splits)

lemma js_null_or_eq_JStr [simp]: "js_null_or a = JStr s \<longleftrightarrow> a = Some s"
  by (cases a) simp_all

lemma js_null_or_eq_JNull [simp]: "js_null_or a = JNull \<longleftrightarrow> a = None"
  by (cases a) simp_all

lemma fld_eq: "fld kvs k = v \<Longrightarrow> v \<noteq> JUndefined \<Longrightarrow> map_of kvs k = Some v"
  by (auto simp: fld_def split: option.splits)

lemma fld_mset:
  "mset kvs = mset fs \<Longrightarrow> distinct (map fst fs) \<Longrightarrow> fld kvs k = fld fs k"
  by (simp only: fld_def map_of_mset_eq[of kvs fs])

lemma fld_member: "distinct (map fst kvs) \<Longrightarrow> (k, v) \<in> set kvs \<Longrightarrow> fld kvs k = v"
  by (simp add: fld_def)

lemma fld_Cons: "fld ((k, v) # kvs) k' = (if k = k' then v else fld kvs k')"
  by (auto simp: fld_def)

lemma fld_Nil: "fld [] k = JUndefined"
  by (simp add: fld_def)

section \<open>The same value up to the order of members\<close>

text \<open>\<open>js_norm\<close> sorts the members of every object by key; two values are the same when that makes
  them equal.\<close>

primrec js_norm :: "js_value \<Rightarrow> js_value" where
  "js_norm JUndefined = JUndefined"
| "js_norm JNull = JNull"
| "js_norm (JBool b) = JBool b"
| "js_norm (JNum n) = JNum n"
| "js_norm (JStr s) = JStr s"
| "js_norm (JArr vs) = JArr (map js_norm vs)"
| "js_norm (JObj kvs) = JObj (sort_key fst (map (map_prod id js_norm) kvs))"
| "js_norm JOther = JOther"

definition js_same :: "js_value \<Rightarrow> js_value \<Rightarrow> bool" where
  "js_same v w \<longleftrightarrow> js_norm v = js_norm w"

lemma js_same_refl [simp]: "js_same v v"
  by (simp add: js_same_def)

lemma js_same_sym: "js_same v w \<Longrightarrow> js_same w v"
  by (simp add: js_same_def)

lemma js_same_trans: "js_same u v \<Longrightarrow> js_same v w \<Longrightarrow> js_same u w"
  by (simp add: js_same_def)

lemma js_same_leaf [simp]:
  "js_same v JUndefined \<longleftrightarrow> v = JUndefined"
  "js_same v JNull \<longleftrightarrow> v = JNull"
  "js_same v (JBool b) \<longleftrightarrow> v = JBool b"
  "js_same v (JNum n) \<longleftrightarrow> v = JNum n"
  "js_same v (JStr s) \<longleftrightarrow> v = JStr s"
  "js_same v (js_int i) \<longleftrightarrow> v = js_int i"
  by (cases v; simp add: js_same_def js_int_def)+

lemma js_same_null_or [simp]: "js_same v (js_null_or a) \<longleftrightarrow> v = js_null_or a"
  by (cases a) simp_all

lemma js_same_arr: "js_same v (JArr ws) \<longleftrightarrow> (\<exists>vs. v = JArr vs \<and> list_all2 js_same vs ws)"
  by (cases v) (auto simp: js_same_def list_all2_map1 list_all2_map2 list_all2_eq[symmetric]
      list.rel_eq[symmetric] list_all2_conv_all_nth map_equality_iff)

lemma sort_key_eq_iff_mset:
  assumes "distinct (map fst ys)"
  shows "sort_key fst xs = sort_key fst ys \<longleftrightarrow> mset xs = mset (ys :: (string \<times> 'b) list)"
proof
  assume "sort_key fst xs = sort_key fst ys"
  then show "mset xs = mset ys" by (metis mset_sort)
next
  assume m: "mset xs = mset ys"
  then have "set xs = set ys" by (rule mset_eq_setD)
  then have "inj_on fst (set xs)"
    using assms by (simp add: distinct_map)
  then show "sort_key fst xs = sort_key fst ys"
    using m by (intro sort_key_inj_key_eq) simp_all
qed

lemma fld_norm: "fld (map (map_prod id js_norm) kvs) k = js_norm (fld kvs k)"
  by (induction kvs) (auto simp: fld_def split: option.splits)

text \<open>The members of an object with exactly the keys of \<open>fs\<close> and the values of \<open>fs\<close> are a
  permutation of \<open>fs\<close>.\<close>

lemma map_of_key: "k \<in> fst ` set kvs \<Longrightarrow> map_of kvs k = Some (fld kvs k)"
  by (metis fld_def map_of_eq_None_iff not_None_eq option.simps(5))

lemma members_iff:
  assumes dist: "distinct (map fst fs)"
  shows "mset kvs = mset fs \<longleftrightarrow>
     mset (map fst kvs) = mset (map fst fs) \<and> list_all (\<lambda>(k, v). fld kvs k = v) fs"
proof
  assume m: "mset kvs = mset fs"
  have "fld fs k = v" if "(k, v) \<in> set fs" for k v
    using fld_member[OF dist that] .
  moreover have "mset (map fst kvs) = mset (map fst fs)"
    unfolding mset_map m ..
  ultimately show "mset (map fst kvs) = mset (map fst fs) \<and> list_all (\<lambda>(k, v). fld kvs k = v) fs"
    by (auto simp only: list_all_iff fld_mset[OF m dist] split: prod.splits)
next
  assume R: "mset (map fst kvs) = mset (map fst fs) \<and> list_all (\<lambda>(k, v). fld kvs k = v) fs"
  show "mset kvs = mset fs"
  proof (rule mset_eq_of_map_of)
    fix k v
    assume kv: "(k, v) \<in> set fs"
    then have "k \<in> set (map fst kvs)"
      using R by (metis fst_conv image_eqI list.set_map mset_eq_setD)
    then show "map_of kvs k = Some v"
      using R kv map_of_key[of k kvs] by (auto simp: list_all_iff)
  qed (use R dist in auto)
qed

lemma js_same_obj:
  assumes "distinct (map fst fs)"
  shows "js_same v (JObj fs) \<longleftrightarrow>
     (\<exists>kvs. v = JObj kvs \<and> mset (map fst kvs) = mset (map fst fs) \<and>
            list_all (\<lambda>(k, w). js_same (fld kvs k) w) fs)"
proof -
  let ?n = "map (map_prod id js_norm) :: members \<Rightarrow> members"
  have keys: "map fst (?n kvs) = map fst kvs" for kvs
    by (induction kvs) auto
  have vals: "list_all (\<lambda>(k, w). fld (?n kvs) k = w) (?n fs) \<longleftrightarrow>
      list_all (\<lambda>(k, w). js_same (fld kvs k) w) fs" for kvs
    by (auto simp: list_all_iff fld_norm js_same_def)
  have "js_same (JObj kvs) (JObj fs) \<longleftrightarrow> mset (?n kvs) = mset (?n fs)" for kvs
    using sort_key_eq_iff_mset[of "?n fs" "?n kvs"] assms
    by (simp only: js_same_def js_norm.simps js_value.inject keys)
  then have "js_same (JObj kvs) (JObj fs) \<longleftrightarrow>
      mset (map fst kvs) = mset (map fst fs) \<and> list_all (\<lambda>(k, w). js_same (fld kvs k) w) fs" for kvs
    using members_iff[of "?n fs" "?n kvs"] assms by (simp only: keys vals)
  moreover have "\<exists>kvs. v = JObj kvs" if "js_same v (JObj fs)"
    using that by (cases v) (simp_all add: js_same_def)
  ultimately show ?thesis by blast
qed

text \<open>For an object without inner objects or arrays the order of the members is all that can
  differ.\<close>

definition js_leaf :: "js_value \<Rightarrow> bool" where
  "js_leaf v = (case v of JArr _ \<Rightarrow> False | JObj _ \<Rightarrow> False | JOther \<Rightarrow> False | _ \<Rightarrow> True)"

lemma js_leaf_simps [simp]:
  "js_leaf (JStr s)" "js_leaf (js_int i)" "js_leaf (js_null_or a)" "js_leaf JNull" "js_leaf (JBool b)"
  by (cases a; simp add: js_leaf_def js_int_def)+

lemma js_same_flat:
  assumes "distinct (map fst fs)" "list_all (\<lambda>(k, v). js_leaf v) fs"
  shows "js_same v (JObj fs) \<longleftrightarrow> (\<exists>kvs. v = JObj kvs \<and> mset kvs = mset fs)"
proof -
  have "js_same w u \<longleftrightarrow> w = u" if "js_leaf u" for w u
    using that by (cases u) (auto simp: js_leaf_def)
  then have "js_same (fld kvs k) w \<longleftrightarrow> fld kvs k = w" if "(k, w) \<in> set fs" for k w kvs
    using that assms(2) by (auto simp: list_all_iff)
  then have "list_all (\<lambda>(k, w). js_same (fld kvs k) w) fs \<longleftrightarrow> list_all (\<lambda>(k, w). fld kvs k = w) fs" for kvs
    by (auto simp: list_all_iff)
  then show ?thesis
    by (simp only: js_same_obj[OF assms(1)] members_iff[OF assms(1)])
qed

section \<open>Plain objects with an exact set of keys\<close>

text \<open>\<^verbatim>\<open>Object.keys(value).sort()\<close> compared with the sorted expected keys.\<close>

definition keys_differ :: "members \<Rightarrow> string list \<Rightarrow> bool" where
  "keys_differ kvs expected = arrays_differ (sort (map fst kvs)) (sort expected)"

lemma keys_differ_iff: "keys_differ kvs ks \<longleftrightarrow> mset (map fst kvs) \<noteq> mset ks"
  by (simp add: keys_differ_def sort_eq_iff_mset)

section \<open>What a parser of one field promises\<close>

text \<open>
  \<open>check v label\<close> is the field's parser (the label names the field in its error message),
  \<open>put a\<close> the value a field with content \<open>a\<close> has in an object, and \<open>valid\<close> the contents the
  field admits.
\<close>

locale field_codec =
  fixes check :: "js_value \<Rightarrow> string \<Rightarrow> 'a result"
    and put :: "'a \<Rightarrow> js_value"
    and valid :: "'a \<Rightarrow> bool"
  assumes check_iff: "check v label = Inr a \<longleftrightarrow> v = put a \<and> valid a"
begin

lemma check_put: "valid a \<Longrightarrow> check (put a) label = Inr a"
  by (simp add: check_iff)

lemma put_inj: "valid a \<Longrightarrow> valid b \<Longrightarrow> put a = put b \<Longrightarrow> a = b"
  using check_iff[of "put a" "[]" a] check_iff[of "put a" "[]" b] by simp

lemma label_irrelevant: "check v l = Inr a \<Longrightarrow> check v l' = Inr a"
  by (simp add: check_iff)

lemma rejects: "(\<nexists>a. valid a \<and> v = put a) \<Longrightarrow> \<exists>e. check v label = Inl e"
  by (cases "check v label") (auto simp: check_iff)

end

section \<open>What a parser of an object promises\<close>

text \<open>
  \<open>fields m\<close> lists the members of the object that carries \<open>m\<close>. A parser that normalises what it
  reads (trims a label, fills in a default) returns acceptable contents only, and leaves them as
  they are when it reads them again.
\<close>

locale normalizing_codec =
  fixes parse :: "js_value \<Rightarrow> 'm result"
    and fields :: "'m \<Rightarrow> members"
    and ok :: "'m \<Rightarrow> bool"
  assumes sound: "parse v = Inr m \<Longrightarrow> ok m"
    and parse_fields: "ok m \<Longrightarrow> parse (JObj (fields m)) = Inr m"
begin

lemma reparse: "parse v = Inr m \<Longrightarrow> parse (JObj (fields m)) = Inr m"
  by (rule parse_fields[OF sound])

lemma range_iff: "(\<exists>v. parse v = Inr m) \<longleftrightarrow> ok m"
  using sound parse_fields by blast

lemma fields_injective: "ok m \<Longrightarrow> ok m' \<Longrightarrow> fields m = fields m' \<Longrightarrow> m = m'"
  by (metis parse_fields sum.inject(2))

end

text \<open>
  A parser with the next contract accepts exactly the plain objects that have the members of
  acceptable contents, in any order, and no others.
\<close>

locale object_codec =
  fixes parse :: "js_value \<Rightarrow> 'm result"
    and fields :: "'m \<Rightarrow> members"
    and ok :: "'m \<Rightarrow> bool"
  assumes parse_iff: "parse v = Inr m \<longleftrightarrow> ok m \<and> js_same v (JObj (fields m))"
begin

lemma order_irrelevant: "js_same v w \<Longrightarrow> parse v = Inr m \<longleftrightarrow> parse w = Inr m"
  by (simp add: parse_iff js_same_def)

lemma accepted_same: "parse v = Inr m \<Longrightarrow> parse w = Inr m \<Longrightarrow> js_same v w"
  by (simp add: parse_iff js_same_def)

lemma only_objects: "parse v = Inr m \<Longrightarrow> \<exists>kvs. v = JObj kvs"
  by (cases v) (auto simp: parse_iff js_same_def)

lemma keys_exact:
  assumes "parse (JObj kvs) = Inr m" and "distinct (map fst (fields m))"
  shows "mset (map fst kvs) = mset (map fst (fields m))"
  using assms by (auto simp: parse_iff js_same_obj)

text \<open>One member more, and the object is no longer accepted.\<close>

lemma unknown_member_rejected:
  assumes m: "parse (JObj kvs) = Inr m" and "distinct (map fst (fields m))"
    and "parse (JObj ((k, x) # kvs)) = Inr m'" and "mset (map fst (fields m')) = mset (map fst (fields m))"
    and "distinct (map fst (fields m'))"
  shows False
proof -
  have "length (map fst kvs) = length (map fst (fields m))"
    by (rule mset_eq_length[OF keys_exact[OF assms(1,2)]])
  moreover have "length (map fst ((k, x) # kvs)) = length (map fst (fields m'))"
    by (rule mset_eq_length[OF keys_exact[OF assms(3,5)]])
  moreover have "length (map fst (fields m')) = length (map fst (fields m))"
    by (rule mset_eq_length[OF assms(4)])
  ultimately show False by simp
qed

lemma fields_inj: "ok m \<Longrightarrow> ok m' \<Longrightarrow> js_same (JObj (fields m)) (JObj (fields m')) \<Longrightarrow> m = m'"
  using parse_iff[of "JObj (fields m)" m] parse_iff[of "JObj (fields m)" m'] by simp

end

sublocale object_codec \<subseteq> normalizing_codec
  by unfold_locales (simp_all add: parse_iff)

text \<open>How the contract is shown for a parser that reads the members one by one.\<close>

lemma object_codecI:
  assumes obj: "\<And>v m. parse v = Inr m \<Longrightarrow> \<exists>kvs. v = JObj kvs"
    and dist: "\<And>m. distinct (map fst (fields m))"
    and accepts: "\<And>kvs m. parse (JObj kvs) = Inr m \<Longrightarrow>
      ok m \<and> mset (map fst kvs) = mset (map fst (fields m)) \<and>
      list_all (\<lambda>(k, v). js_same (fld kvs k) v) (fields m)"
    and complete: "\<And>kvs m. ok m \<Longrightarrow> mset (map fst kvs) = mset (map fst (fields m)) \<Longrightarrow>
      list_all (\<lambda>(k, v). js_same (fld kvs k) v) (fields m) \<Longrightarrow> parse (JObj kvs) = Inr m"
  shows "object_codec parse fields ok"
proof
  fix v m
  show "parse v = Inr m \<longleftrightarrow> ok m \<and> js_same v (JObj (fields m))"
    unfolding js_same_obj[OF dist]
    using obj[of v m] accepts[of _ m] complete[of m] by blast
qed

end
