(* ===== verification/Protocol_Fields.thy ===== *)
theory Protocol_Fields
  imports Js_Value
begin

text \<open>
  What the protocol objects of \<^verbatim>\<open>packages/shared\<close> have in common: the patterns of their text
  fields (UUIDs, digests, client identifiers, relative paths), the cryptographic operations
  their attestations use, and the import of raw public keys.

  Signatures, hashes, key objects and the canonical JSON form come from \<^verbatim>\<open>node:crypto\<close> and
  \<^verbatim>\<open>json-canonicalize\<close>; they are the fields of a record that every operation using them takes
  as an argument.
\<close>

section \<open>Patterns\<close>

text \<open>\<^verbatim>\<open>UUID\<close> and \<^verbatim>\<open>SHA256\<close>.\<close>

definition uuid_pattern :: "(char \<Rightarrow> bool) list" where
  "uuid_pattern =
     replicate 8 is_hex_lower @ [(=) CHR ''-''] @ replicate 4 is_hex_lower @ [(=) CHR ''-''] @
     (\<lambda>c. CHR ''1'' \<le> c \<and> c \<le> CHR ''8'') # replicate 3 is_hex_lower @ [(=) CHR ''-''] @
     (\<lambda>c. c = CHR ''8'' \<or> c = CHR ''9'' \<or> c = CHR ''a'' \<or> c = CHR ''b'') #
       replicate 3 is_hex_lower @ [(=) CHR ''-''] @ replicate 12 is_hex_lower"

definition is_uuid :: "string \<Rightarrow> bool" where
  "is_uuid s = matches uuid_pattern s"

definition is_sha256 :: "string \<Rightarrow> bool" where
  "is_sha256 s = matches (replicate 64 is_hex_lower) s"

lemma is_sha256_iff: "is_sha256 s \<longleftrightarrow> length s = 64 \<and> list_all is_hex_lower s"
  by (auto simp: is_sha256_def matches_def list_all2_conv_all_nth list_all_length)

lemma is_uuid_length: "is_uuid s \<Longrightarrow> length s = 36"
  by (drule matches_length[OF iffD1[OF is_uuid_def]]) (simp add: uuid_pattern_def)

text \<open>
  \<^verbatim>\<open>aiClientIdentifierPattern\<close>, \<^verbatim>\<open>/^[a-z][a-z0-9]*(?:[._-][a-z0-9]+){0,7}$/\<close>: \<open>identifier_rest k
  need s\<close> says that \<open>s\<close> can follow when \<open>k\<close> more separated parts may start and, if \<open>need\<close>, the
  current part still lacks its first character.
\<close>

fun identifier_rest :: "nat \<Rightarrow> bool \<Rightarrow> string \<Rightarrow> bool" where
  "identifier_rest k need [] = (\<not> need)"
| "identifier_rest k need (c # s) =
     (if is_lower_alnum c then identifier_rest k False s
      else if (c = CHR ''.'' \<or> c = CHR ''_'' \<or> c = CHR ''-'') \<and> \<not> need
        then (case k of 0 \<Rightarrow> False | Suc j \<Rightarrow> identifier_rest j True s)
      else False)"

definition ai_client_identifier :: "string \<Rightarrow> bool" where
  "ai_client_identifier s =
     (case s of [] \<Rightarrow> False | c # rest \<Rightarrow> is_lower c \<and> identifier_rest 7 False rest)"

text \<open>The expression in words: at most eight parts of lower-case letters and digits, none empty,
  separated by single dots, underscores or hyphens.\<close>

lemma identifier_rest_parts:
  "identifier_rest k need s \<longleftrightarrow>
     (\<exists>p qs. s = p @ concat (map (\<lambda>(x, q). x # q) qs) \<and> (need \<longrightarrow> p \<noteq> []) \<and>
        list_all is_lower_alnum p \<and> length qs \<le> k \<and>
        list_all (\<lambda>(x, q). (x = CHR ''.'' \<or> x = CHR ''_'' \<or> x = CHR ''-'') \<and> q \<noteq> [] \<and>
                           list_all is_lower_alnum q) qs)"
  (is "_ \<longleftrightarrow> (\<exists>p qs. ?P k need s p qs)")
proof (induction k need s rule: identifier_rest.induct)
  case (1 k need)
  show ?case by (auto simp: neq_Nil_conv intro: exI[of _ "[]"])
next
  case (2 k need c s)
  have sep: "\<not> is_lower_alnum x" if "x = CHR ''.'' \<or> x = CHR ''_'' \<or> x = CHR ''-''" for x
    using that by (auto simp: is_lower_alnum_def is_lower_def is_digit_def less_eq_char_def)
  show ?case
  proof
    assume L: "identifier_rest k need (c # s)"
    show "\<exists>p qs. ?P k need (c # s) p qs"
    proof (cases "is_lower_alnum c")
      case True
      then have "identifier_rest k False s" using L by simp
      then obtain p qs where "?P k False s p qs" using 2(1)[OF True] by blast
      then have "?P k need (c # s) (c # p) qs" using True by auto
      then show ?thesis by blast
    next
      case False
      with L obtain j where c: "c = CHR ''.'' \<or> c = CHR ''_'' \<or> c = CHR ''-''" "\<not> need"
        and k: "k = Suc j" and r: "identifier_rest j True s"
        by (auto split: if_splits nat.splits)
      then obtain p qs where "?P j True s p qs" using 2(2)[OF False] by blast
      then have "?P k need (c # s) [] ((c, p) # qs)" using c k by auto
      then show ?thesis by blast
    qed
  next
    assume "\<exists>p qs. ?P k need (c # s) p qs"
    then obtain p qs where P: "?P k need (c # s) p qs" by blast
    show "identifier_rest k need (c # s)"
    proof (cases p)
      case (Cons x p')
      then have "is_lower_alnum c" "?P k False s p' qs" using P by auto
      then show ?thesis using 2(1) by auto
    next
      case Nil
      then obtain q qs' where q: "qs = (c, q) # qs'" "s = q @ concat (map (\<lambda>(x, q). x # q) qs')"
        using P by (cases qs) auto
      then have c: "c = CHR ''.'' \<or> c = CHR ''_'' \<or> c = CHR ''-''" "\<not> need"
        using P Nil by auto
      obtain j where k: "k = Suc j" using P q by (cases k) auto
      have "?P j True s q qs'" using P q k by auto
      then have "identifier_rest j True s"
        using 2(2)[OF _ _ k] sep[OF c(1)] c by blast
      then show ?thesis using c k sep[OF c(1)] by simp
    qed
  qed
qed

text \<open>A path an artifact may have: relative, POSIX separators only, no empty, \<^verbatim>\<open>.\<close> or \<^verbatim>\<open>..\<close> part.\<close>

definition relative_path_ok :: "string \<Rightarrow> bool" where
  "relative_path_ok s \<longleftrightarrow>
     s \<noteq> [] \<and> js_length s \<le> 1024 \<and> take 1 s \<noteq> ''/'' \<and>
     CHR 0x5C \<notin> set s \<and> CHR 0x00 \<notin> set s \<and>
     \<not> list_ex (\<lambda>part. part = [] \<or> part = ''.'' \<or> part = ''..'') (split_on CHR ''/'' s)"

text \<open>How a POSIX file system resolves a path below a directory (a list of names).\<close>

fun resolve_parts :: "string list \<Rightarrow> string list \<Rightarrow> string list" where
  "resolve_parts dir [] = dir"
| "resolve_parts dir (p # ps) =
     resolve_parts (if p = [] \<or> p = ''.'' then dir else if p = ''..'' then butlast dir else dir @ [p]) ps"

definition resolve_path :: "string list \<Rightarrow> string \<Rightarrow> string list" where
  "resolve_path root s =
     (if take 1 s = ''/'' then resolve_parts [] (split_on CHR ''/'' s)
      else resolve_parts root (split_on CHR ''/'' s))"

lemma resolve_parts_plain:
  "\<not> list_ex (\<lambda>p. p = [] \<or> p = ''.'' \<or> p = ''..'') ps \<Longrightarrow> resolve_parts dir ps = dir @ ps"
  by (induction ps arbitrary: dir) auto

lemma relative_path_resolves:
  "relative_path_ok s \<Longrightarrow> resolve_path root s = root @ split_on CHR ''/'' s"
  by (simp add: relative_path_ok_def resolve_path_def resolve_parts_plain)

lemma relative_path_inj:
  "relative_path_ok s \<Longrightarrow> relative_path_ok t \<Longrightarrow> resolve_path root s = resolve_path root t \<Longrightarrow> s = t"
  by (metis join_split_on relative_path_resolves same_append_eq)

text \<open>The string of a value that has been checked to be one.\<close>

definition js_string :: "js_value \<Rightarrow> string" where
  "js_string v = (case v of JStr s \<Rightarrow> s | _ \<Rightarrow> [])"

lemma js_string_JStr [simp]: "js_string (JStr s) = s"
  by (simp add: js_string_def)

text \<open>The integers, texts and identifiers the manifests admit.\<close>

definition int_in :: "int \<Rightarrow> int \<Rightarrow> bool" where
  "int_in minimum n \<longleftrightarrow> \<bar>n\<bar> \<le> max_safe_integer \<and> minimum \<le> n"

definition identifier_text :: "nat \<Rightarrow> string \<Rightarrow> bool" where
  "identifier_text maximum s \<longleftrightarrow> js_length s \<le> maximum \<and> ai_client_identifier s"

definition identifier_ok :: "nat \<Rightarrow> js_value \<Rightarrow> bool" where
  "identifier_ok maximum v = (case v of JStr s \<Rightarrow> identifier_text maximum s | _ \<Rightarrow> False)"

definition cli_version_text :: "string \<Rightarrow> bool" where
  "cli_version_text s \<longleftrightarrow> js_trim s \<noteq> [] \<and> js_length s \<le> 120"

definition cli_version_ok :: "js_value \<Rightarrow> bool" where
  "cli_version_ok v = (case v of JStr s \<Rightarrow> cli_version_text s | _ \<Rightarrow> False)"

lemma identifier_ok_iff: "identifier_ok n v \<longleftrightarrow> (\<exists>s. v = JStr s \<and> identifier_text n s)"
  by (cases v) (simp_all add: identifier_ok_def)

lemma cli_version_ok_iff: "cli_version_ok v \<longleftrightarrow> (\<exists>s. v = JStr s \<and> cli_version_text s)"
  by (cases v) (simp_all add: cli_version_ok_def)

lemma relative_path_js_string:
  "relative_path_ok (js_string v) \<longleftrightarrow> (\<exists>s. v = JStr s \<and> relative_path_ok s)"
  by (cases v) (simp_all add: js_string_def relative_path_ok_def)

lemmas text_field_iffs = identifier_ok_iff cli_version_ok_iff relative_path_js_string

section \<open>Signatures, hashes, canonical JSON\<close>

text \<open>
  \<open>canonicalize\<close> is RFC 8785 canonical JSON, \<open>sha256_hex\<close> the lower-case hexadecimal SHA-256 of
  some bytes, \<open>ed_public_key\<close> turns 32 raw bytes into a key object (\<^verbatim>\<open>createPublicKey\<close>),
  \<open>ed_private_key\<close> the raw public key and the seed (\<^verbatim>\<open>createPrivateKey\<close>),
  \<open>ed_verify payload key signature\<close> and \<open>ed_sign payload key\<close> are Ed25519, \<open>key_type\<close> and
  \<open>key_algorithm\<close> the \<^verbatim>\<open>type\<close> and \<^verbatim>\<open>asymmetricKeyType\<close> of a key object.
\<close>

record 'k crypto =
  canonicalize :: "js_value \<Rightarrow> string"
  sha256_hex :: "string \<Rightarrow> string"
  ed_public_key :: "string \<Rightarrow> 'k result"
  ed_private_key :: "string \<Rightarrow> string \<Rightarrow> 'k result"
  ed_verify :: "string \<Rightarrow> 'k \<Rightarrow> string \<Rightarrow> bool"
  ed_sign :: "string \<Rightarrow> 'k \<Rightarrow> string"
  key_type :: "'k \<Rightarrow> string"
  key_algorithm :: "'k \<Rightarrow> string"

text \<open>What a key pair of this scheme does: the documented correctness of Ed25519.\<close>

definition key_pair :: "'k crypto \<Rightarrow> 'k \<Rightarrow> 'k \<Rightarrow> bool" where
  "key_pair cr private public \<longleftrightarrow>
     (\<forall>payload. length (ed_sign cr payload private) = 64 \<and>
        ed_verify cr payload public (ed_sign cr payload private)) \<and>
     key_type cr private = ''private'' \<and> key_type cr public = ''public'' \<and>
     key_algorithm cr private = ''ed25519'' \<and> key_algorithm cr public = ''ed25519''"

lemma key_pairD:
  assumes "key_pair cr private public"
  shows "length (ed_sign cr payload private) = 64"
    and "ed_verify cr payload public (ed_sign cr payload private)"
  using assms by (simp_all add: key_pair_def)

text \<open>\<^verbatim>\<open>decodePdsBase64url(value, length)\<close> for the length 32, and \<^verbatim>\<open>pdsEd25519PublicKey\<close>.\<close>

definition pds_binary_error :: js_error where
  "pds_binary_error = TypeError ''PDS binary value has invalid base64url length or encoding''"

definition decode_pds_base64url :: "string \<Rightarrow> nat \<Rightarrow> string result" where
  "decode_pds_base64url value n =
     ebind (throw_if (\<not> list_all is_base64url_char value \<or> CHR ''='' \<in> set value \<or>
                      js_length value \<noteq> (n * 4 + 2) div 3) pds_binary_error) (\<lambda>_.
     let bytes = b64_decode value in
     ebind (throw_if (b64_encode bytes \<noteq> value \<or> length bytes \<noteq> n) pds_binary_error) (\<lambda>_.
     Inr bytes))"

definition raw_okp :: "'k crypto \<Rightarrow> string \<Rightarrow> string option \<Rightarrow> 'k result" where
  "raw_okp cr publicKey seed =
     ebind (throw_if (length publicKey \<noteq> 32 \<or>
                      (case seed of None \<Rightarrow> False | Some s \<Rightarrow> length s \<noteq> 32))
              (TypeError ''PDS OKP key length is invalid'')) (\<lambda>_.
     case seed of
       Some s \<Rightarrow> ed_private_key cr publicKey s
     | None \<Rightarrow> ed_public_key cr publicKey)"

text \<open>A raw key is base64url text or a buffer (\<^verbatim>\<open>string | Buffer\<close>).\<close>

datatype raw_key = Encoded string | Raw_bytes string

definition raw_key_bytes :: "raw_key \<Rightarrow> string result" where
  "raw_key_bytes k = (case k of Encoded t \<Rightarrow> decode_pds_base64url t 32 | Raw_bytes bs \<Rightarrow> Inr bs)"

definition pds_ed25519_public_key :: "'k crypto \<Rightarrow> raw_key \<Rightarrow> 'k result" where
  "pds_ed25519_public_key cr raw = ebind (raw_key_bytes raw) (\<lambda>bytes. raw_okp cr bytes None)"

definition pds_ed25519_private_key :: "'k crypto \<Rightarrow> raw_key \<Rightarrow> raw_key \<Rightarrow> 'k result" where
  "pds_ed25519_private_key cr seed publicKey =
     ebind (raw_key_bytes publicKey) (\<lambda>p.
     ebind (raw_key_bytes seed) (\<lambda>s. raw_okp cr p (Some s)))"

text \<open>A key argument is a raw key in base64url or a key object (\<^verbatim>\<open>string | KeyObject\<close>).\<close>

datatype 'k key_input = Key_text string | Key_object 'k

definition import_key :: "'k crypto \<Rightarrow> 'k key_input \<Rightarrow> 'k result" where
  "import_key cr k = (case k of Key_text t \<Rightarrow> pds_ed25519_public_key cr (Encoded t) | Key_object o' \<Rightarrow> Inr o')"

lemma import_key_object [simp]: "import_key cr (Key_object k) = Inr k"
  by (simp add: import_key_def)

lemma js_length_base64url: "list_all is_base64url_char s \<Longrightarrow> js_length s = length s"
  by (induction s)
    (auto simp: code_units_def is_base64url_char_def is_upper_def is_lower_def is_digit_def
        less_eq_char_def Let_def)

lemma length_b64_encode: "length (b64_encode bs) = (length bs * 4 + 2) div 3"
  by (induction bs rule: b64_encode.induct) (simp_all add: Let_def)

text \<open>A raw key is accepted exactly when it is the base64url text of its 32 bytes.\<close>

lemma decode_pds_base64url_iff:
  "decode_pds_base64url s n = Inr bs \<longleftrightarrow> s = b64_encode bs \<and> length bs = n"
proof -
  have [simp]: "CHR ''='' \<notin> set (b64_encode bs)" for bs
  proof -
    have "\<not> is_base64url_char CHR ''=''"
      by (simp add: is_base64url_char_def is_upper_def is_lower_def is_digit_def less_eq_char_def)
    then show ?thesis using b64_encode_alphabet[of bs] by (auto simp: list_all_iff)
  qed
  show ?thesis
    by (auto simp: decode_pds_base64url_def result_simps Let_def b64_decode_encode
        b64_encode_alphabet js_length_base64url length_b64_encode)
qed

end
