(* ===== verification/Handoff.thy ===== *)
theory Handoff
  imports Protocol_Fields
begin

text \<open>
  The exclusive handoff of a managed conversation from one device to another,
  \<^verbatim>\<open>packages/shared/src/managed-conversation-transfer.ts\<close>: the validators of its fields, the
  handoff manifest in both protocol versions and the state machine of a handoff.
  \<open>Handoff_Certificate\<close> and \<open>Handoff_Readiness\<close> continue with the signed certificate and the
  readiness evidence of the target.
\<close>

section \<open>Field validators\<close>

definition handoff_record :: "js_value \<Rightarrow> string \<Rightarrow> members result" where
  "handoff_record value label =
     (case value of
        JObj kvs \<Rightarrow> Inr kvs
      | _ \<Rightarrow> Inl (TypeError (label @ '' must be a plain object'')))"

definition handoff_exact_keys :: "members \<Rightarrow> string list \<Rightarrow> string \<Rightarrow> unit result" where
  "handoff_exact_keys value ks label =
     throw_if (keys_differ value ks) (TypeError (label @ '' has unknown or missing fields''))"

definition handoff_uuid :: "js_value \<Rightarrow> string \<Rightarrow> string result" where
  "handoff_uuid value label =
     (case value of
        JStr s \<Rightarrow> ebind (throw_if (\<not> is_uuid s) (TypeError (label @ '' must be a UUID''))) (\<lambda>_. Inr s)
      | _ \<Rightarrow> Inl (TypeError (label @ '' must be a UUID'')))"

definition handoff_digest :: "js_value \<Rightarrow> string \<Rightarrow> string result" where
  "handoff_digest value label =
     (case value of
        JStr s \<Rightarrow>
          ebind (throw_if (\<not> is_sha256 s) (TypeError (label @ '' must be a SHA-256 digest''))) (\<lambda>_.
          Inr s)
      | _ \<Rightarrow> Inl (TypeError (label @ '' must be a SHA-256 digest'')))"

definition handoff_integer :: "int \<Rightarrow> js_value \<Rightarrow> string \<Rightarrow> int result" where
  "handoff_integer minimum value label =
     (case safe_integer minimum value of
        None \<Rightarrow> Inl (TypeError (label @ '' must be a safe integer''))
      | Some n \<Rightarrow> Inr n)"

definition handoff_timestamp :: "js_value \<Rightarrow> string \<Rightarrow> string result" where
  "handoff_timestamp value label =
     (case value of
        JStr s \<Rightarrow>
          ebind (throw_if (\<not> matches iso_pattern s)
                   (TypeError (label @ '' must be an RFC3339 UTC timestamp''))) (\<lambda>_.
          ebind (to_iso_string (date_parse s)) (\<lambda>iso.
          ebind (throw_if (iso \<noteq> s)
                   (TypeError (label @ '' must be an RFC3339 UTC timestamp''))) (\<lambda>_.
          Inr s)))
      | _ \<Rightarrow> Inl (TypeError (label @ '' must be an RFC3339 UTC timestamp'')))"

definition handoff_base64url :: "nat \<Rightarrow> js_value \<Rightarrow> string \<Rightarrow> string result" where
  "handoff_base64url byteLength value label =
     (case value of
        JStr s \<Rightarrow>
          ebind (throw_if (s = [] \<or> \<not> list_all is_base64url_char s \<or>
                           length (b64_decode s) \<noteq> byteLength \<or> b64_encode (b64_decode s) \<noteq> s)
                   (TypeError (label @ '' must be canonical base64url''))) (\<lambda>_.
          Inr s)
      | _ \<Rightarrow> Inl (TypeError (label @ '' must be canonical base64url'')))"

text \<open>\<^verbatim>\<open>input.x === null ? null : digest(input.x, label)\<close>\<close>

definition handoff_digest_or_null :: "js_value \<Rightarrow> string \<Rightarrow> string option result" where
  "handoff_digest_or_null value label =
     (case value of
        JNull \<Rightarrow> Inr None
      | _ \<Rightarrow> ebind (handoff_digest value label) (\<lambda>d. Inr (Some d)))"

text \<open>Each validator accepts exactly the values of its kind.\<close>

lemma handoff_record_iff: "handoff_record v label = Inr kvs \<longleftrightarrow> v = JObj kvs"
  by (cases v) (simp_all add: handoff_record_def)

lemma handoff_exact_keys_iff:
  "handoff_exact_keys kvs ks label = Inr u \<longleftrightarrow> mset (map fst kvs) = mset ks"
  by (simp add: handoff_exact_keys_def keys_differ_iff result_simps)

interpretation handoff_uuid: field_codec handoff_uuid JStr is_uuid
  by unfold_locales (auto simp: handoff_uuid_def result_simps split: js_value.splits)

interpretation handoff_digest: field_codec handoff_digest JStr is_sha256
  by unfold_locales (auto simp: handoff_digest_def result_simps split: js_value.splits)

interpretation handoff_integer: field_codec "handoff_integer m" js_int "int_in m" for m
  by unfold_locales
    (auto simp: handoff_integer_def js_int_def int_in_def safe_integer_def
       split: js_value.splits js_number.splits option.splits)

interpretation handoff_timestamp: field_codec handoff_timestamp JStr canonical_timestamp
  by unfold_locales
    (auto simp: handoff_timestamp_def canonical_timestamp_def result_simps split: js_value.splits)

interpretation handoff_base64url: field_codec "handoff_base64url n" JStr "canonical_base64url n" for n
  by unfold_locales
    (auto simp: handoff_base64url_def canonical_base64url_def result_simps split: js_value.splits)

interpretation handoff_digest_or_null: field_codec handoff_digest_or_null js_null_or "if_present is_sha256"
proof unfold_locales
  fix v label a
  show "handoff_digest_or_null v label = Inr a \<longleftrightarrow> v = js_null_or a \<and> if_present is_sha256 a"
    by (cases v; cases a)
      (auto simp: handoff_digest_or_null_def result_simps handoff_digest.check_iff)
qed

lemmas handoff_checks =
  handoff_record_iff handoff_exact_keys_iff handoff_uuid.check_iff handoff_digest.check_iff
  handoff_integer.check_iff handoff_timestamp.check_iff handoff_base64url.check_iff
  handoff_digest_or_null.check_iff

section \<open>The handoff manifest\<close>

datatype transfer_protocol = Transfer_v1 | Transfer_v2

definition transfer_protocol_text :: "transfer_protocol \<Rightarrow> string" where
  "transfer_protocol_text p =
     (case p of
        Transfer_v1 \<Rightarrow> ''koed.managed-conversation-transfer/v1''
      | Transfer_v2 \<Rightarrow> ''koed.managed-conversation-transfer/v2'')"

record handoff_manifest =
  hm_protocol :: transfer_protocol
  hm_operationId :: string
  hm_ownerUserId :: string
  hm_executionId :: string
  hm_sourceExecutionGeneration :: int
  hm_nextExecutionGeneration :: int
  hm_logicalSourceId :: string
  hm_sourceGenerationId :: string
  hm_nextSourceGenerationId :: string
  hm_targetOriginKeyId :: string
  hm_sourceClosureHash :: string
  hm_sourceEndByteCursor :: int
  hm_sourceEndItemCursor :: int
  hm_provider :: string
  hm_aiClientInstanceId :: "string option"
  hm_providerThreadId :: string
  hm_providerArtifactRelativePath :: string
  hm_providerCliVersion :: string
  hm_workspaceSnapshotId :: string
  hm_workspaceManifestDigest :: string
  hm_sourceDeploymentId :: string
  hm_sourceDeviceId :: string
  hm_targetDeploymentId :: string
  hm_targetDeviceId :: string
  hm_authoritySequence :: int
  hm_priorAuthorityLogHead :: "string option"
  hm_nonce :: string
  hm_createdAt :: string
  hm_expiresAt :: string

definition handoff_base_keys :: "string list" where
  "handoff_base_keys =
     [''protocol'', ''operationId'', ''ownerUserId'', ''executionId'',
      ''sourceExecutionGeneration'', ''nextExecutionGeneration'', ''logicalSourceId'',
      ''sourceGenerationId'', ''nextSourceGenerationId'', ''targetOriginKeyId'',
      ''sourceClosureHash'', ''sourceEndByteCursor'', ''sourceEndItemCursor'', ''provider'',
      ''providerThreadId'', ''providerArtifactRelativePath'', ''providerCliVersion'',
      ''workspaceSnapshotId'', ''workspaceManifestDigest'', ''sourceDeploymentId'',
      ''sourceDeviceId'', ''targetDeploymentId'', ''targetDeviceId'', ''authoritySequence'',
      ''priorAuthorityLogHead'', ''nonce'', ''createdAt'', ''expiresAt'']"

text \<open>\<^verbatim>\<open>parseManagedConversationHandoffManifest\<close>\<close>

definition parse_handoff_manifest :: "js_value \<Rightarrow> handoff_manifest result" where
  "parse_handoff_manifest value =
     ebind (handoff_record value ''Managed Conversation handoff manifest'') (\<lambda>input.
     ebind (throw_if (fld input ''protocol'' \<noteq> JStr (transfer_protocol_text Transfer_v1) \<and>
                      fld input ''protocol'' \<noteq> JStr (transfer_protocol_text Transfer_v2))
              (TypeError ''Managed Conversation transfer protocol is invalid'')) (\<lambda>_.
     let v2 = (fld input ''protocol'' = JStr (transfer_protocol_text Transfer_v2)) in
     ebind (handoff_exact_keys input
              (if v2 then handoff_base_keys @ [''aiClientInstanceId''] else handoff_base_keys)
              ''Managed Conversation handoff manifest'') (\<lambda>_.
     ebind (throw_if (\<not> identifier_ok 96 (fld input ''provider'') \<or>
                      v2 \<and> \<not> identifier_ok 128 (fld input ''aiClientInstanceId''))
              (TypeError ''Managed Conversation provider is invalid'')) (\<lambda>_.
     let providerArtifactRelativePath = js_string (fld input ''providerArtifactRelativePath'') in
     ebind (throw_if (\<not> relative_path_ok providerArtifactRelativePath)
              (TypeError ''providerArtifactRelativePath is invalid'')) (\<lambda>_.
     ebind (throw_if (\<not> cli_version_ok (fld input ''providerCliVersion''))
              (TypeError ''providerCliVersion is invalid'')) (\<lambda>_.
     ebind (handoff_uuid (fld input ''operationId'') ''operationId'') (\<lambda>operationId.
     ebind (handoff_uuid (fld input ''ownerUserId'') ''ownerUserId'') (\<lambda>ownerUserId.
     ebind (handoff_uuid (fld input ''executionId'') ''executionId'') (\<lambda>executionId.
     ebind (handoff_integer 1 (fld input ''sourceExecutionGeneration'') ''sourceExecutionGeneration'') (\<lambda>sourceExecutionGeneration.
     ebind (handoff_integer 2 (fld input ''nextExecutionGeneration'') ''nextExecutionGeneration'') (\<lambda>nextExecutionGeneration.
     ebind (handoff_uuid (fld input ''logicalSourceId'') ''logicalSourceId'') (\<lambda>logicalSourceId.
     ebind (handoff_uuid (fld input ''sourceGenerationId'') ''sourceGenerationId'') (\<lambda>sourceGenerationId.
     ebind (handoff_uuid (fld input ''nextSourceGenerationId'') ''nextSourceGenerationId'') (\<lambda>nextSourceGenerationId.
     ebind (handoff_uuid (fld input ''targetOriginKeyId'') ''targetOriginKeyId'') (\<lambda>targetOriginKeyId.
     ebind (handoff_digest (fld input ''sourceClosureHash'') ''sourceClosureHash'') (\<lambda>sourceClosureHash.
     ebind (handoff_integer 0 (fld input ''sourceEndByteCursor'') ''sourceEndByteCursor'') (\<lambda>sourceEndByteCursor.
     ebind (handoff_integer 0 (fld input ''sourceEndItemCursor'') ''sourceEndItemCursor'') (\<lambda>sourceEndItemCursor.
     ebind (handoff_uuid (fld input ''providerThreadId'') ''providerThreadId'') (\<lambda>providerThreadId.
     ebind (handoff_uuid (fld input ''workspaceSnapshotId'') ''workspaceSnapshotId'') (\<lambda>workspaceSnapshotId.
     ebind (handoff_digest (fld input ''workspaceManifestDigest'') ''workspaceManifestDigest'') (\<lambda>workspaceManifestDigest.
     ebind (handoff_uuid (fld input ''sourceDeploymentId'') ''sourceDeploymentId'') (\<lambda>sourceDeploymentId.
     ebind (handoff_uuid (fld input ''sourceDeviceId'') ''sourceDeviceId'') (\<lambda>sourceDeviceId.
     ebind (handoff_uuid (fld input ''targetDeploymentId'') ''targetDeploymentId'') (\<lambda>targetDeploymentId.
     ebind (handoff_uuid (fld input ''targetDeviceId'') ''targetDeviceId'') (\<lambda>targetDeviceId.
     ebind (handoff_integer 1 (fld input ''authoritySequence'') ''authoritySequence'') (\<lambda>authoritySequence.
     ebind (handoff_digest_or_null (fld input ''priorAuthorityLogHead'') ''priorAuthorityLogHead'') (\<lambda>priorAuthorityLogHead.
     ebind (handoff_base64url 32 (fld input ''nonce'') ''nonce'') (\<lambda>nonce.
     ebind (handoff_timestamp (fld input ''createdAt'') ''createdAt'') (\<lambda>createdAt.
     ebind (handoff_timestamp (fld input ''expiresAt'') ''expiresAt'') (\<lambda>expiresAt.
     let parsed =
       \<lparr> hm_protocol = (if v2 then Transfer_v2 else Transfer_v1),
         hm_operationId = operationId,
         hm_ownerUserId = ownerUserId,
         hm_executionId = executionId,
         hm_sourceExecutionGeneration = sourceExecutionGeneration,
         hm_nextExecutionGeneration = nextExecutionGeneration,
         hm_logicalSourceId = logicalSourceId,
         hm_sourceGenerationId = sourceGenerationId,
         hm_nextSourceGenerationId = nextSourceGenerationId,
         hm_targetOriginKeyId = targetOriginKeyId,
         hm_sourceClosureHash = sourceClosureHash,
         hm_sourceEndByteCursor = sourceEndByteCursor,
         hm_sourceEndItemCursor = sourceEndItemCursor,
         hm_provider = js_string (fld input ''provider''),
         hm_aiClientInstanceId = (if v2 then Some (js_string (fld input ''aiClientInstanceId'')) else None),
         hm_providerThreadId = providerThreadId,
         hm_providerArtifactRelativePath = providerArtifactRelativePath,
         hm_providerCliVersion = js_string (fld input ''providerCliVersion''),
         hm_workspaceSnapshotId = workspaceSnapshotId,
         hm_workspaceManifestDigest = workspaceManifestDigest,
         hm_sourceDeploymentId = sourceDeploymentId,
         hm_sourceDeviceId = sourceDeviceId,
         hm_targetDeploymentId = targetDeploymentId,
         hm_targetDeviceId = targetDeviceId,
         hm_authoritySequence = authoritySequence,
         hm_priorAuthorityLogHead = priorAuthorityLogHead,
         hm_nonce = nonce,
         hm_createdAt = createdAt,
         hm_expiresAt = expiresAt \<rparr>
     in
     ebind (throw_if (hm_nextExecutionGeneration parsed \<noteq> hm_sourceExecutionGeneration parsed + 1)
              (TypeError ''Handoff execution generations are not contiguous'')) (\<lambda>_.
     ebind (throw_if (hm_nextSourceGenerationId parsed = hm_sourceGenerationId parsed)
              (TypeError ''Handoff source generations must differ'')) (\<lambda>_.
     ebind (throw_if (timestamp_ms (hm_expiresAt parsed) \<le> timestamp_ms (hm_createdAt parsed))
              (TypeError ''Handoff certificate expiry is invalid'')) (\<lambda>_.
     ebind (throw_if (hm_sourceDeviceId parsed = hm_targetDeviceId parsed)
              (TypeError ''Handoff target must be a different device'')) (\<lambda>_.
     Inr parsed))))))))))))))))))))))))))))))))))"

text \<open>The members of the parsed object, in the order of its literal in the source.\<close>

definition handoff_fields :: "handoff_manifest \<Rightarrow> members" where
  "handoff_fields m =
     [(''protocol'', JStr (transfer_protocol_text (hm_protocol m))),
      (''operationId'', JStr (hm_operationId m)),
      (''ownerUserId'', JStr (hm_ownerUserId m)),
      (''executionId'', JStr (hm_executionId m)),
      (''sourceExecutionGeneration'', js_int (hm_sourceExecutionGeneration m)),
      (''nextExecutionGeneration'', js_int (hm_nextExecutionGeneration m)),
      (''logicalSourceId'', JStr (hm_logicalSourceId m)),
      (''sourceGenerationId'', JStr (hm_sourceGenerationId m)),
      (''nextSourceGenerationId'', JStr (hm_nextSourceGenerationId m)),
      (''targetOriginKeyId'', JStr (hm_targetOriginKeyId m)),
      (''sourceClosureHash'', JStr (hm_sourceClosureHash m)),
      (''sourceEndByteCursor'', js_int (hm_sourceEndByteCursor m)),
      (''sourceEndItemCursor'', js_int (hm_sourceEndItemCursor m)),
      (''provider'', JStr (hm_provider m))] @
     (if hm_protocol m = Transfer_v2
      then [(''aiClientInstanceId'', JStr (the (hm_aiClientInstanceId m)))] else []) @
     [(''providerThreadId'', JStr (hm_providerThreadId m)),
      (''providerArtifactRelativePath'', JStr (hm_providerArtifactRelativePath m)),
      (''providerCliVersion'', JStr (hm_providerCliVersion m)),
      (''workspaceSnapshotId'', JStr (hm_workspaceSnapshotId m)),
      (''workspaceManifestDigest'', JStr (hm_workspaceManifestDigest m)),
      (''sourceDeploymentId'', JStr (hm_sourceDeploymentId m)),
      (''sourceDeviceId'', JStr (hm_sourceDeviceId m)),
      (''targetDeploymentId'', JStr (hm_targetDeploymentId m)),
      (''targetDeviceId'', JStr (hm_targetDeviceId m)),
      (''authoritySequence'', js_int (hm_authoritySequence m)),
      (''priorAuthorityLogHead'', js_null_or (hm_priorAuthorityLogHead m)),
      (''nonce'', JStr (hm_nonce m)),
      (''createdAt'', JStr (hm_createdAt m)),
      (''expiresAt'', JStr (hm_expiresAt m))]"

text \<open>What a handoff manifest promises.\<close>

definition handoff_manifest_wf :: "handoff_manifest \<Rightarrow> bool" where
  "handoff_manifest_wf m \<longleftrightarrow>
     is_uuid (hm_operationId m) \<and>
     is_uuid (hm_ownerUserId m) \<and>
     is_uuid (hm_executionId m) \<and>
     int_in 1 (hm_sourceExecutionGeneration m) \<and>
     int_in 2 (hm_nextExecutionGeneration m) \<and>
     is_uuid (hm_logicalSourceId m) \<and>
     is_uuid (hm_sourceGenerationId m) \<and>
     is_uuid (hm_nextSourceGenerationId m) \<and>
     is_uuid (hm_targetOriginKeyId m) \<and>
     is_sha256 (hm_sourceClosureHash m) \<and>
     int_in 0 (hm_sourceEndByteCursor m) \<and>
     int_in 0 (hm_sourceEndItemCursor m) \<and>
     identifier_text 96 (hm_provider m) \<and>
     is_uuid (hm_providerThreadId m) \<and>
     relative_path_ok (hm_providerArtifactRelativePath m) \<and>
     cli_version_text (hm_providerCliVersion m) \<and>
     is_uuid (hm_workspaceSnapshotId m) \<and>
     is_sha256 (hm_workspaceManifestDigest m) \<and>
     is_uuid (hm_sourceDeploymentId m) \<and>
     is_uuid (hm_sourceDeviceId m) \<and>
     is_uuid (hm_targetDeploymentId m) \<and>
     is_uuid (hm_targetDeviceId m) \<and>
     int_in 1 (hm_authoritySequence m) \<and>
     if_present is_sha256 (hm_priorAuthorityLogHead m) \<and>
     canonical_base64url 32 (hm_nonce m) \<and>
     canonical_timestamp (hm_createdAt m) \<and>
     canonical_timestamp (hm_expiresAt m) \<and>
     (case hm_protocol m of
        Transfer_v1 \<Rightarrow> hm_aiClientInstanceId m = None
      | Transfer_v2 \<Rightarrow>
          (case hm_aiClientInstanceId m of None \<Rightarrow> False | Some i \<Rightarrow> identifier_text 128 i)) \<and>
     hm_nextExecutionGeneration m = hm_sourceExecutionGeneration m + 1 \<and>
     hm_nextSourceGenerationId m \<noteq> hm_sourceGenerationId m \<and>
     timestamp_ms (hm_createdAt m) < timestamp_ms (hm_expiresAt m) \<and>
     hm_sourceDeviceId m \<noteq> hm_targetDeviceId m"

lemma handoff_fields_proper:
  "distinct (map fst (handoff_fields m))" "list_all (\<lambda>(k, v). js_leaf v) (handoff_fields m)"
  by (simp_all add: handoff_fields_def)

lemma handoff_fields_keys:
  "mset (map fst (handoff_fields m)) =
     mset (if hm_protocol m = Transfer_v2 then handoff_base_keys @ [''aiClientInstanceId'']
           else handoff_base_keys)"
  by (simp add: handoff_fields_def handoff_base_keys_def)

lemma transfer_protocol_text_inj [simp]:
  "transfer_protocol_text a = transfer_protocol_text b \<longleftrightarrow> a = b"
  by (simp add: transfer_protocol_text_def split: transfer_protocol.splits)

lemma parse_handoff_manifest_accepts:
  "parse_handoff_manifest (JObj kvs) = Inr m \<Longrightarrow>
     handoff_manifest_wf m \<and> mset (map fst kvs) = mset (map fst (handoff_fields m)) \<and>
     list_all (\<lambda>(k, v). js_same (fld kvs k) v) (handoff_fields m)"
  unfolding parse_handoff_manifest_def handoff_manifest_wf_def handoff_fields_keys
  by (clarsimp simp: Let_def result_simps handoff_checks handoff_fields_def text_field_iffs
      split: if_splits)

lemma parse_handoff_manifest_complete:
  "handoff_manifest_wf m \<Longrightarrow> mset (map fst kvs) = mset (map fst (handoff_fields m)) \<Longrightarrow>
     list_all (\<lambda>(k, v). js_same (fld kvs k) v) (handoff_fields m) \<Longrightarrow>
     parse_handoff_manifest (JObj kvs) = Inr m"
  unfolding parse_handoff_manifest_def handoff_manifest_wf_def handoff_fields_keys
  by (cases m; cases "hm_protocol m"; cases "hm_aiClientInstanceId m")
    (simp_all add: Let_def result_simps handoff_checks handoff_fields_def text_field_iffs)

interpretation handoff: object_codec parse_handoff_manifest handoff_fields handoff_manifest_wf
proof (rule object_codecI)
  show "\<exists>kvs. v = JObj kvs" if "parse_handoff_manifest v = Inr m" for v m
    using that by (auto simp: parse_handoff_manifest_def result_simps handoff_record_iff)
qed (fact handoff_fields_proper(1) parse_handoff_manifest_accepts parse_handoff_manifest_complete)+

end
