(* ===== verification/Handoff_Certificate.thy ===== *)
theory Handoff_Certificate
  imports Handoff
begin

text \<open>
  The handoff certificate of \<^verbatim>\<open>packages/shared/src/managed-conversation-transfer.ts\<close>: the source
  device signs the manifest, the authority signs the manifest together with that signature.
  Functions of the source whose argument is a manifest or a certificate parse it again, so here
  they take the value.
\<close>

section \<open>Canonical form and the client instance\<close>

text \<open>\<^verbatim>\<open>canonicalManagedConversationHandoffManifest\<close>\<close>

definition canonical_handoff_manifest :: "'k crypto \<Rightarrow> js_value \<Rightarrow> string result" where
  "canonical_handoff_manifest cr manifest =
     ebind (parse_handoff_manifest manifest) (\<lambda>m. Inr (canonicalize cr (JObj (handoff_fields m))))"

text \<open>\<^verbatim>\<open>managedConversationAiClientInstanceIdAfterVerification\<close>\<close>

definition handoff_instance_after_verification :: "js_value \<Rightarrow> bool \<Rightarrow> string result" where
  "handoff_instance_after_verification manifest verified =
     ebind (throw_if (\<not> verified) (PlainError ''Managed Conversation manifest is not verified''))
       (\<lambda>_.
     ebind (parse_handoff_manifest manifest) (\<lambda>m.
     Inr (case hm_protocol m of
            Transfer_v1 \<Rightarrow> hm_provider m @ ''.default''
          | Transfer_v2 \<Rightarrow> the (hm_aiClientInstanceId m))))"

section \<open>Attestations and certificates\<close>

record attestation =
  at_keyId :: string
  at_signature :: string

record handoff_certificate =
  hc_manifest :: handoff_manifest
  hc_source :: attestation
  hc_authority :: attestation

definition attestation_value :: "attestation \<Rightarrow> js_value" where
  "attestation_value a = JObj [(''keyId'', JStr (at_keyId a)), (''signature'', JStr (at_signature a))]"

definition certificate_fields :: "handoff_certificate \<Rightarrow> members" where
  "certificate_fields c =
     [(''manifest'', JObj (handoff_fields (hc_manifest c))),
      (''source'', attestation_value (hc_source c)),
      (''authority'', attestation_value (hc_authority c))]"

text \<open>\<^verbatim>\<open>parseManagedConversationHandoffCertificate\<close>\<close>

definition parse_handoff_certificate :: "js_value \<Rightarrow> handoff_certificate result" where
  "parse_handoff_certificate value =
     ebind (handoff_record value ''Managed Conversation handoff certificate'') (\<lambda>input.
     ebind (handoff_exact_keys input [''manifest'', ''source'', ''authority'']
              ''Managed Conversation handoff certificate'') (\<lambda>_.
     ebind (handoff_record (fld input ''source'') ''Handoff source signature'') (\<lambda>source.
     ebind (handoff_record (fld input ''authority'') ''Handoff authority signature'') (\<lambda>authority.
     ebind (handoff_exact_keys source [''keyId'', ''signature''] ''Handoff source signature'') (\<lambda>_.
     ebind (handoff_exact_keys authority [''keyId'', ''signature''] ''Handoff authority signature'')
       (\<lambda>_.
     ebind (parse_handoff_manifest (fld input ''manifest'')) (\<lambda>manifest.
     ebind (handoff_uuid (fld source ''keyId'') ''source keyId'') (\<lambda>sourceKeyId.
     ebind (handoff_base64url 64 (fld source ''signature'') ''source signature'') (\<lambda>sourceSignature.
     ebind (handoff_uuid (fld authority ''keyId'') ''authority keyId'') (\<lambda>authorityKeyId.
     ebind (handoff_base64url 64 (fld authority ''signature'') ''authority signature'')
       (\<lambda>authoritySignature.
     Inr \<lparr> hc_manifest = manifest,
           hc_source = \<lparr> at_keyId = sourceKeyId, at_signature = sourceSignature \<rparr>,
           hc_authority = \<lparr> at_keyId = authorityKeyId, at_signature = authoritySignature \<rparr> \<rparr>
     )))))))))))"

text \<open>\<^verbatim>\<open>sourceAttestation\<close>: what the authority signs.\<close>

definition source_attestation :: "'k crypto \<Rightarrow> js_value \<Rightarrow> attestation \<Rightarrow> string result" where
  "source_attestation cr manifest source =
     ebind (parse_handoff_manifest manifest) (\<lambda>m.
     Inr (canonicalize cr
       (JObj [(''manifest'', JObj (handoff_fields m)), (''source'', attestation_value source)])))"

text \<open>\<^verbatim>\<open>verifyManagedConversationHandoffSourceAttestation\<close>; the signature is checked before the
  key is imported, and a malformed one is not an error but a refusal.\<close>

definition verify_source_attestation ::
  "'k crypto \<Rightarrow> js_value \<Rightarrow> attestation \<Rightarrow> 'k key_input \<Rightarrow> bool result" where
  "verify_source_attestation cr manifest source sourcePublicKey =
     ebind (parse_handoff_manifest manifest) (\<lambda>m.
     case ebind (handoff_uuid (JStr (at_keyId source)) ''source keyId'') (\<lambda>_.
          handoff_base64url 64 (JStr (at_signature source)) ''source signature'') of
       Inl _ \<Rightarrow> Inr False
     | Inr _ \<Rightarrow>
         ebind (import_key cr sourcePublicKey) (\<lambda>sourceKey.
         Inr (ed_verify cr (canonicalize cr (JObj (handoff_fields m))) sourceKey
                (b64_decode (at_signature source)))))"

text \<open>\<^verbatim>\<open>signManagedConversationHandoffCertificate\<close>; the source's signer may throw.\<close>

definition sign_handoff_certificate ::
  "'k crypto \<Rightarrow> js_value \<Rightarrow> string \<Rightarrow> (string \<Rightarrow> string result) \<Rightarrow> string \<Rightarrow> 'k \<Rightarrow>
   handoff_certificate result" where
  "sign_handoff_certificate cr manifestValue sourceSignerKeyId sourceSign authorityKeyId
      authorityPrivateKey =
     ebind (parse_handoff_manifest manifestValue) (\<lambda>manifest.
     let value = JObj (handoff_fields manifest) in
     ebind (handoff_uuid (JStr sourceSignerKeyId) ''source keyId'') (\<lambda>keyId.
     ebind (sourceSign (canonicalize cr value)) (\<lambda>signature.
     let source = \<lparr> at_keyId = keyId, at_signature = signature \<rparr> in
     ebind (handoff_base64url 64 (JStr (at_signature source)) ''source signature'') (\<lambda>_.
     ebind (handoff_uuid (JStr authorityKeyId) ''authority keyId'') (\<lambda>aKeyId.
     ebind (source_attestation cr value source) (\<lambda>payload.
     let authority =
       \<lparr> at_keyId = aKeyId, at_signature = b64_encode (ed_sign cr payload authorityPrivateKey) \<rparr>
     in
     parse_handoff_certificate
       (JObj [(''manifest'', value), (''source'', attestation_value source),
              (''authority'', attestation_value authority)])))))))"

text \<open>\<^verbatim>\<open>countersignManagedConversationHandoffCertificate\<close>\<close>

definition countersign_handoff_certificate ::
  "'k crypto \<Rightarrow> js_value \<Rightarrow> attestation \<Rightarrow> string \<Rightarrow> 'k \<Rightarrow> handoff_certificate result" where
  "countersign_handoff_certificate cr manifestValue inputSource authorityKeyId
      authorityPrivateKey =
     ebind (parse_handoff_manifest manifestValue) (\<lambda>manifest.
     let value = JObj (handoff_fields manifest) in
     ebind (handoff_uuid (JStr (at_keyId inputSource)) ''source keyId'') (\<lambda>keyId.
     ebind (handoff_base64url 64 (JStr (at_signature inputSource)) ''source signature'')
       (\<lambda>signature.
     let source = \<lparr> at_keyId = keyId, at_signature = signature \<rparr> in
     ebind (handoff_uuid (JStr authorityKeyId) ''authority keyId'') (\<lambda>aKeyId.
     ebind (source_attestation cr value source) (\<lambda>payload.
     let authority =
       \<lparr> at_keyId = aKeyId, at_signature = b64_encode (ed_sign cr payload authorityPrivateKey) \<rparr>
     in
     parse_handoff_certificate
       (JObj [(''manifest'', value), (''source'', attestation_value source),
              (''authority'', attestation_value authority)]))))))"

text \<open>The options of \<^verbatim>\<open>verifyManagedConversationHandoffCertificate\<close>; an absent one is \<open>None\<close>.
  \<open>clock\<close> is what \<^verbatim>\<open>new Date()\<close> would read.\<close>

record verify_options =
  vo_now :: "int option"
  vo_expectedTargetDeviceId :: "string option"
  vo_minimumAuthoritySequence :: "int option"
  vo_expectedPriorAuthorityLogHead :: "string option option"
  vo_enforceExpiry :: "bool option"

definition option_or :: "'a option \<Rightarrow> 'a \<Rightarrow> 'a" where
  "option_or x d = (case x of None \<Rightarrow> d | Some y \<Rightarrow> y)"

definition certificate_refused :: "int \<Rightarrow> verify_options \<Rightarrow> handoff_manifest \<Rightarrow> bool" where
  "certificate_refused clock opts m \<longleftrightarrow>
     option_or (vo_enforceExpiry opts) True \<and>
       timestamp_ms (hm_expiresAt m) \<le> option_or (vo_now opts) clock \<or>
     (case vo_expectedTargetDeviceId opts of
        None \<Rightarrow> False | Some d \<Rightarrow> hm_targetDeviceId m \<noteq> d) \<or>
     (case vo_minimumAuthoritySequence opts of
        None \<Rightarrow> False | Some n \<Rightarrow> hm_authoritySequence m < n) \<or>
     (case vo_expectedPriorAuthorityLogHead opts of
        None \<Rightarrow> False | Some h \<Rightarrow> hm_priorAuthorityLogHead m \<noteq> h)"

definition verify_handoff_certificate ::
  "'k crypto \<Rightarrow> int \<Rightarrow> js_value \<Rightarrow> 'k key_input \<Rightarrow> 'k key_input \<Rightarrow> verify_options \<Rightarrow> bool result" where
  "verify_handoff_certificate cr clock value sourcePublicKey authorityPublicKey opts =
     ebind (parse_handoff_certificate value) (\<lambda>certificate.
     if certificate_refused clock opts (hc_manifest certificate) then Inr False
     else
       ebind (import_key cr sourcePublicKey) (\<lambda>sourceKey.
       ebind (import_key cr authorityPublicKey) (\<lambda>authorityKey.
       let manifest = JObj (handoff_fields (hc_manifest certificate)) in
       ebind (verify_source_attestation cr manifest (hc_source certificate) (Key_object sourceKey))
         (\<lambda>sourceOk.
       if \<not> sourceOk then Inr False
       else
         ebind (source_attestation cr manifest (hc_source certificate)) (\<lambda>payload.
         Inr (ed_verify cr payload authorityKey
                (b64_decode (at_signature (hc_authority certificate)))))))))"

text \<open>\<^verbatim>\<open>managedConversationHandoffCertificateDigest\<close> and \<^verbatim>\<open>managedConversationAuthorityLogHead\<close>\<close>

definition handoff_certificate_digest :: "'k crypto \<Rightarrow> js_value \<Rightarrow> string result" where
  "handoff_certificate_digest cr value =
     ebind (parse_handoff_certificate value) (\<lambda>c.
     Inr (sha256_hex cr (canonicalize cr (JObj (certificate_fields c)))))"

definition authority_log_head ::
  "'k crypto \<Rightarrow> js_value \<Rightarrow> js_value \<Rightarrow> js_value \<Rightarrow> string result" where
  "authority_log_head cr priorHead sequence certificateDigest =
     ebind (handoff_digest_or_null priorHead ''priorHead'') (\<lambda>prior.
     ebind (handoff_integer 1 sequence ''sequence'') (\<lambda>n.
     ebind (handoff_digest certificateDigest ''certificateDigest'') (\<lambda>d.
     Inr (sha256_hex cr (canonicalize cr
       (JObj [(''priorHead'', js_null_or prior), (''sequence'', js_int n),
              (''certificateDigest'', JStr d)]))))))"

text \<open>\<^verbatim>\<open>createManagedConversationAuthorityPrivateKey\<close>\<close>

definition create_authority_private_key :: "'k crypto \<Rightarrow> raw_key \<Rightarrow> raw_key \<Rightarrow> 'k result" where
  "create_authority_private_key cr privateSeed publicKey =
     pds_ed25519_private_key cr privateSeed publicKey"

section \<open>What is a well-formed certificate\<close>

definition attestation_ok :: "attestation \<Rightarrow> bool" where
  "attestation_ok a \<longleftrightarrow> is_uuid (at_keyId a) \<and> canonical_base64url 64 (at_signature a)"

definition handoff_certificate_wf :: "handoff_certificate \<Rightarrow> bool" where
  "handoff_certificate_wf c \<longleftrightarrow>
     handoff_manifest_wf (hc_manifest c) \<and> attestation_ok (hc_source c) \<and>
     attestation_ok (hc_authority c)"

lemma js_same_attestation:
  "js_same v (attestation_value a) \<longleftrightarrow>
     (\<exists>kvs. v = JObj kvs \<and> mset (map fst kvs) = mset [''keyId'', ''signature''] \<and>
        fld kvs ''keyId'' = JStr (at_keyId a) \<and> fld kvs ''signature'' = JStr (at_signature a))"
  unfolding attestation_value_def by (subst js_same_obj) simp_all

interpretation handoff_certificate:
  object_codec parse_handoff_certificate certificate_fields handoff_certificate_wf
proof (rule object_codecI)
  show "\<exists>kvs. v = JObj kvs" if "parse_handoff_certificate v = Inr c" for v c
    using that by (auto simp: parse_handoff_certificate_def result_simps handoff_record_iff)
next
  show "distinct (map fst (certificate_fields c))" for c
    by (simp add: certificate_fields_def)
next
  fix kvs c
  assume "parse_handoff_certificate (JObj kvs) = Inr c"
  then show "handoff_certificate_wf c \<and> mset (map fst kvs) = mset (map fst (certificate_fields c)) \<and>
      list_all (\<lambda>(k, v). js_same (fld kvs k) v) (certificate_fields c)"
    by (clarsimp simp: parse_handoff_certificate_def result_simps handoff_checks handoff.parse_iff
        handoff_certificate_wf_def attestation_ok_def certificate_fields_def js_same_attestation)
next
  fix kvs c
  assume "handoff_certificate_wf c" "mset (map fst kvs) = mset (map fst (certificate_fields c))"
    "list_all (\<lambda>(k, v). js_same (fld kvs k) v) (certificate_fields c)"
  then show "parse_handoff_certificate (JObj kvs) = Inr c"
    by (cases c, cases "hc_source c", cases "hc_authority c")
      (clarsimp simp: parse_handoff_certificate_def result_simps handoff_checks handoff.parse_iff
        handoff_certificate_wf_def attestation_ok_def certificate_fields_def js_same_attestation)
qed

lemma parse_certificate_parts:
  "handoff_manifest_wf m \<Longrightarrow> attestation_ok s \<Longrightarrow> attestation_ok a \<Longrightarrow>
   parse_handoff_certificate
     (JObj [(''manifest'', JObj (handoff_fields m)), (''source'', attestation_value s),
            (''authority'', attestation_value a)]) =
   Inr \<lparr> hc_manifest = m, hc_source = s, hc_authority = a \<rparr>"
  using handoff_certificate.parse_fields[of "\<lparr> hc_manifest = m, hc_source = s, hc_authority = a \<rparr>"]
  by (simp add: certificate_fields_def handoff_certificate_wf_def)

section \<open>Signing and verifying\<close>

definition manifest_payload :: "'k crypto \<Rightarrow> handoff_manifest \<Rightarrow> string" where
  "manifest_payload cr m = canonicalize cr (JObj (handoff_fields m))"

definition authority_payload :: "'k crypto \<Rightarrow> handoff_manifest \<Rightarrow> attestation \<Rightarrow> string" where
  "authority_payload cr m s =
     canonicalize cr (JObj [(''manifest'', JObj (handoff_fields m)), (''source'', attestation_value s)])"

lemma source_attestation_fields [simp]:
  "handoff_manifest_wf m \<Longrightarrow>
   source_attestation cr (JObj (handoff_fields m)) s = Inr (authority_payload cr m s)"
  by (simp add: source_attestation_def handoff.parse_fields authority_payload_def)

lemma verify_source_attestation_fields:
  "handoff_manifest_wf m \<Longrightarrow> attestation_ok s \<Longrightarrow>
   verify_source_attestation cr (JObj (handoff_fields m)) s (Key_object k) =
     Inr (ed_verify cr (manifest_payload cr m) k (b64_decode (at_signature s)))"
  by (simp add: verify_source_attestation_def handoff.parse_fields manifest_payload_def
      attestation_ok_def handoff_uuid.check_put handoff_base64url.check_put)

text \<open>What the verification of a well-formed certificate comes to.\<close>

lemma verify_handoff_certificate_eq:
  assumes "parse_handoff_certificate v = Inr c"
  shows "verify_handoff_certificate cr clock v sk ak opts =
    (if certificate_refused clock opts (hc_manifest c) then Inr False
     else ebind (import_key cr sk) (\<lambda>sourceKey. ebind (import_key cr ak) (\<lambda>authorityKey.
       Inr (ed_verify cr (manifest_payload cr (hc_manifest c)) sourceKey
              (b64_decode (at_signature (hc_source c))) \<and>
            ed_verify cr (authority_payload cr (hc_manifest c) (hc_source c)) authorityKey
              (b64_decode (at_signature (hc_authority c)))))))"
proof -
  have "handoff_manifest_wf (hc_manifest c)" "attestation_ok (hc_source c)"
    using handoff_certificate.sound[OF assms] by (simp_all add: handoff_certificate_wf_def)
  then show ?thesis
    by (cases "import_key cr sk"; cases "import_key cr ak")
      (auto simp: verify_handoff_certificate_def assms Let_def verify_source_attestation_fields)
qed

lemma signature_ok: "length bs = 64 \<Longrightarrow> canonical_base64url 64 (b64_encode bs)"
  by (auto simp: canonical_base64url_iff)

lemma countersign_eq:
  assumes "parse_handoff_manifest v = Inr m" "attestation_ok s" "is_uuid aid"
    and "length (ed_sign cr (authority_payload cr m s) ak) = 64"
  shows "countersign_handoff_certificate cr v s aid ak =
    Inr \<lparr> hc_manifest = m, hc_source = s,
          hc_authority = \<lparr> at_keyId = aid,
            at_signature = b64_encode (ed_sign cr (authority_payload cr m s) ak) \<rparr> \<rparr>"
proof -
  have "handoff_manifest_wf m" using assms(1) by (rule handoff.sound)
  then show ?thesis
    using assms
    by (cases s) (simp add: countersign_handoff_certificate_def Let_def attestation_ok_def
        handoff_uuid.check_put handoff_base64url.check_put parse_certificate_parts signature_ok)
qed

lemma sign_eq:
  assumes "parse_handoff_manifest v = Inr m" "is_uuid sid" "is_uuid aid"
    and "sourceSign (manifest_payload cr m) = Inr sig" "canonical_base64url 64 sig"
    and "length (ed_sign cr (authority_payload cr m \<lparr> at_keyId = sid, at_signature = sig \<rparr>) ak) = 64"
  shows "sign_handoff_certificate cr v sid sourceSign aid ak =
    countersign_handoff_certificate cr v \<lparr> at_keyId = sid, at_signature = sig \<rparr> aid ak"
proof -
  have "handoff_manifest_wf m" using assms(1) by (rule handoff.sound)
  then show ?thesis
    using assms
    by (simp add: countersign_handoff_certificate_def sign_handoff_certificate_def Let_def
        manifest_payload_def handoff_uuid.check_put handoff_base64url.check_put)
qed

end
