(* ===== verification/Handoff_Readiness.thy ===== *)
theory Handoff_Readiness
  imports Handoff
begin

text \<open>
  The readiness evidence a handoff's target produces before the lease moves
  (\<^verbatim>\<open>packages/shared/src/managed-conversation-transfer.ts\<close>): six dimensions, each with a
  verified proof that is valid for a span of time.
\<close>

datatype readiness_dimension =
    Snapshot_integrity | Object_closure | Filesystem_fidelity | Environment_availability
  | Provider_compatibility | Execution_boundary

definition readiness_dimensions :: "readiness_dimension list" where
  "readiness_dimensions =
     [Snapshot_integrity, Object_closure, Filesystem_fidelity, Environment_availability,
      Provider_compatibility, Execution_boundary]"

definition dimension_name :: "readiness_dimension \<Rightarrow> string" where
  "dimension_name d =
     (case d of
        Snapshot_integrity \<Rightarrow> ''snapshotIntegrity''
      | Object_closure \<Rightarrow> ''objectClosure''
      | Filesystem_fidelity \<Rightarrow> ''filesystemFidelity''
      | Environment_availability \<Rightarrow> ''environmentAvailability''
      | Provider_compatibility \<Rightarrow> ''providerCompatibility''
      | Execution_boundary \<Rightarrow> ''executionBoundary'')"

text \<open>The status of a parsed proof is the constant \<^verbatim>\<open>verified\<close>.\<close>

record readiness_proof =
  rp_evidenceDigest :: string
  rp_checkedAt :: string
  rp_expiresAt :: string

definition readiness_proof_fields :: "readiness_proof \<Rightarrow> members" where
  "readiness_proof_fields p =
     [(''status'', JStr ''verified''), (''evidenceDigest'', JStr (rp_evidenceDigest p)),
      (''checkedAt'', JStr (rp_checkedAt p)), (''expiresAt'', JStr (rp_expiresAt p))]"

definition readiness_proof_wf :: "readiness_proof \<Rightarrow> bool" where
  "readiness_proof_wf p \<longleftrightarrow>
     is_sha256 (rp_evidenceDigest p) \<and> canonical_timestamp (rp_checkedAt p) \<and>
     canonical_timestamp (rp_expiresAt p) \<and>
     timestamp_ms (rp_checkedAt p) < timestamp_ms (rp_expiresAt p)"

definition parse_readiness_proof :: "string \<Rightarrow> js_value \<Rightarrow> readiness_proof result" where
  "parse_readiness_proof label value =
     ebind (handoff_record value label) (\<lambda>input.
     ebind (handoff_exact_keys input [''status'', ''evidenceDigest'', ''checkedAt'', ''expiresAt'']
              label) (\<lambda>_.
     ebind (throw_if (fld input ''status'' \<noteq> JStr ''verified'')
              (TypeError (label @ '' status must be verified''))) (\<lambda>_.
     ebind (handoff_timestamp (fld input ''checkedAt'') (label @ '' checkedAt'')) (\<lambda>checkedAt.
     ebind (handoff_timestamp (fld input ''expiresAt'') (label @ '' expiresAt'')) (\<lambda>expiresAt.
     ebind (throw_if (timestamp_ms expiresAt \<le> timestamp_ms checkedAt)
              (TypeError (label @ '' expiry is invalid''))) (\<lambda>_.
     ebind (handoff_digest (fld input ''evidenceDigest'') (label @ '' evidenceDigest''))
       (\<lambda>evidenceDigest.
     Inr \<lparr> rp_evidenceDigest = evidenceDigest, rp_checkedAt = checkedAt,
           rp_expiresAt = expiresAt \<rparr>)))))))"

lemma readiness_proof_fields_proper:
  "distinct (map fst (readiness_proof_fields p))"
  "list_all (\<lambda>(k, v). js_leaf v) (readiness_proof_fields p)"
  by (simp_all add: readiness_proof_fields_def)

interpretation readiness_proof:
  object_codec "parse_readiness_proof label" readiness_proof_fields readiness_proof_wf for label
proof (rule object_codecI)
  show "\<exists>kvs. v = JObj kvs" if "parse_readiness_proof label v = Inr p" for v p
    using that by (auto simp: parse_readiness_proof_def result_simps handoff_record_iff)
next
  fix kvs p
  assume "parse_readiness_proof label (JObj kvs) = Inr p"
  then show "readiness_proof_wf p \<and>
      mset (map fst kvs) = mset (map fst (readiness_proof_fields p)) \<and>
      list_all (\<lambda>(k, v). js_same (fld kvs k) v) (readiness_proof_fields p)"
    by (clarsimp simp: parse_readiness_proof_def result_simps handoff_checks
        readiness_proof_wf_def readiness_proof_fields_def)
next
  fix kvs p
  assume "readiness_proof_wf p"
    "mset (map fst kvs) = mset (map fst (readiness_proof_fields p))"
    "list_all (\<lambda>(k, v). js_same (fld kvs k) v) (readiness_proof_fields p)"
  then show "parse_readiness_proof label (JObj kvs) = Inr p"
    by (cases p) (simp add: parse_readiness_proof_def result_simps handoff_checks
        readiness_proof_wf_def readiness_proof_fields_def)
qed (fact readiness_proof_fields_proper(1))

section \<open>The evidence\<close>

text \<open>The proofs are the parsed \<^verbatim>\<open>dimensions\<close>, in the order of \<open>readiness_dimensions\<close>.\<close>

record readiness_evidence =
  re_operationId :: string
  re_executionId :: string
  re_snapshotId :: string
  re_sourceGenerationId :: string
  re_targetDeploymentId :: string
  re_targetDeviceId :: string
  re_dimensions :: "(readiness_dimension \<times> readiness_proof) list"

definition readiness_protocol :: string where
  "readiness_protocol = ''koed.managed-conversation-target-readiness/v1''"

definition dimension_label :: "readiness_dimension \<Rightarrow> string" where
  "dimension_label d = ''Managed Conversation readiness '' @ dimension_name d"

definition parse_dimension ::
  "members \<Rightarrow> readiness_dimension \<Rightarrow> (readiness_dimension \<times> readiness_proof) result" where
  "parse_dimension dimensions d =
     ebind (parse_readiness_proof (dimension_label d) (fld dimensions (dimension_name d))) (\<lambda>p.
     Inr (d, p))"

definition parse_readiness_evidence :: "js_value \<Rightarrow> readiness_evidence result" where
  "parse_readiness_evidence value =
     ebind (handoff_record value ''Managed Conversation target readiness'') (\<lambda>input.
     ebind (handoff_exact_keys input
              [''protocol'', ''operationId'', ''executionId'', ''snapshotId'',
               ''sourceGenerationId'', ''targetDeploymentId'', ''targetDeviceId'', ''dimensions'']
              ''Managed Conversation target readiness'') (\<lambda>_.
     ebind (throw_if (fld input ''protocol'' \<noteq> JStr readiness_protocol)
              (TypeError ''Managed Conversation readiness protocol is invalid'')) (\<lambda>_.
     ebind (handoff_record (fld input ''dimensions'') ''Managed Conversation readiness dimensions'')
       (\<lambda>dimensions.
     ebind (handoff_exact_keys dimensions (map dimension_name readiness_dimensions)
              ''Managed Conversation readiness dimensions'') (\<lambda>_.
     ebind (handoff_uuid (fld input ''operationId'') ''operationId'') (\<lambda>operationId.
     ebind (handoff_uuid (fld input ''executionId'') ''executionId'') (\<lambda>executionId.
     ebind (handoff_uuid (fld input ''snapshotId'') ''snapshotId'') (\<lambda>snapshotId.
     ebind (handoff_uuid (fld input ''sourceGenerationId'') ''sourceGenerationId'')
       (\<lambda>sourceGenerationId.
     ebind (handoff_uuid (fld input ''targetDeploymentId'') ''targetDeploymentId'')
       (\<lambda>targetDeploymentId.
     ebind (handoff_uuid (fld input ''targetDeviceId'') ''targetDeviceId'') (\<lambda>targetDeviceId.
     ebind (emap (parse_dimension dimensions) readiness_dimensions) (\<lambda>proofs.
     Inr \<lparr> re_operationId = operationId, re_executionId = executionId, re_snapshotId = snapshotId,
           re_sourceGenerationId = sourceGenerationId,
           re_targetDeploymentId = targetDeploymentId, re_targetDeviceId = targetDeviceId,
           re_dimensions = proofs \<rparr>))))))))))))"

text \<open>\<^verbatim>\<open>managedConversationTargetReadinessIsFresh\<close>, \<open>now\<close> in milliseconds.\<close>

definition proof_covers :: "int \<Rightarrow> readiness_proof \<Rightarrow> bool" where
  "proof_covers now p \<longleftrightarrow>
     timestamp_ms (rp_checkedAt p) \<le> now \<and> now < timestamp_ms (rp_expiresAt p)"

definition readiness_is_fresh :: "js_value \<Rightarrow> int \<Rightarrow> bool result" where
  "readiness_is_fresh evidence now =
     ebind (parse_readiness_evidence evidence) (\<lambda>parsed.
     Inr (list_all (\<lambda>d. case map_of (re_dimensions parsed) d of
                          None \<Rightarrow> False | Some p \<Rightarrow> proof_covers now p)
            readiness_dimensions))"

text \<open>\<^verbatim>\<open>canonicalManagedConversationTargetReadinessEvidence\<close> and its digest.\<close>

definition dimension_members :: "(readiness_dimension \<times> readiness_proof) list \<Rightarrow> members" where
  "dimension_members ps = map (\<lambda>(d, p). (dimension_name d, JObj (readiness_proof_fields p))) ps"

definition readiness_evidence_value :: "readiness_evidence \<Rightarrow> js_value" where
  "readiness_evidence_value e =
     JObj [(''protocol'', JStr readiness_protocol), (''operationId'', JStr (re_operationId e)),
       (''executionId'', JStr (re_executionId e)), (''snapshotId'', JStr (re_snapshotId e)),
       (''sourceGenerationId'', JStr (re_sourceGenerationId e)),
       (''targetDeploymentId'', JStr (re_targetDeploymentId e)),
       (''targetDeviceId'', JStr (re_targetDeviceId e)),
       (''dimensions'', JObj (dimension_members (re_dimensions e)))]"

definition canonical_readiness_evidence :: "'k crypto \<Rightarrow> js_value \<Rightarrow> string result" where
  "canonical_readiness_evidence cr evidence =
     ebind (parse_readiness_evidence evidence) (\<lambda>e.
     Inr (canonicalize cr (readiness_evidence_value e)))"

definition readiness_evidence_digest :: "'k crypto \<Rightarrow> js_value \<Rightarrow> string result" where
  "readiness_evidence_digest cr evidence =
     ebind (canonical_readiness_evidence cr evidence) (\<lambda>text. Inr (sha256_hex cr text))"

definition readiness_evidence_wf :: "readiness_evidence \<Rightarrow> bool" where
  "readiness_evidence_wf e \<longleftrightarrow>
     is_uuid (re_operationId e) \<and> is_uuid (re_executionId e) \<and> is_uuid (re_snapshotId e) \<and>
     is_uuid (re_sourceGenerationId e) \<and> is_uuid (re_targetDeploymentId e) \<and>
     is_uuid (re_targetDeviceId e) \<and> map fst (re_dimensions e) = readiness_dimensions \<and>
     list_all (readiness_proof_wf \<circ> snd) (re_dimensions e)"

lemma parse_dimension_iff:
  "parse_dimension ds d = Inr (d', p) \<longleftrightarrow>
     d' = d \<and> parse_readiness_proof (dimension_label d) (fld ds (dimension_name d)) = Inr p"
  by (auto simp: parse_dimension_def result_simps)

lemma emap_dimensions:
  "emap (parse_dimension ds) dims = Inr ps \<Longrightarrow>
     map fst ps = dims \<and> list_all (readiness_proof_wf \<circ> snd) ps"
proof (induction dims arbitrary: ps)
  case (Cons d dims)
  then obtain p qs where "parse_dimension ds d = Inr p" "emap (parse_dimension ds) dims = Inr qs"
    "ps = p # qs"
    by (auto simp: result_simps)
  with Cons.IH[of qs] show ?case
    by (cases p) (auto simp: parse_dimension_iff dest: readiness_proof.sound)
qed simp

lemma parse_readiness_evidence_sound:
  "parse_readiness_evidence v = Inr e \<Longrightarrow> readiness_evidence_wf e"
  using emap_dimensions
  by (clarsimp simp: parse_readiness_evidence_def result_simps handoff_checks
      readiness_evidence_wf_def)

lemma emap_dimensions_value:
  assumes "list_all (readiness_proof_wf \<circ> snd) ps"
    and "list_all (\<lambda>(d, p). fld ds (dimension_name d) = JObj (readiness_proof_fields p)) ps"
  shows "emap (parse_dimension ds) (map fst ps) = Inr ps"
  using assms
  by (induction ps) (auto simp: parse_dimension_def readiness_proof.parse_fields)

lemma dimension_name_inj: "dimension_name a = dimension_name b \<longleftrightarrow> a = b"
  by (cases a; cases b) (simp_all add: dimension_name_def)

lemma distinct_dimension_names: "distinct ds \<Longrightarrow> distinct (map dimension_name ds)"
  by (simp add: distinct_map inj_on_def dimension_name_inj)

lemma distinct_readiness_dimensions: "distinct readiness_dimensions"
  by (simp add: readiness_dimensions_def)

text \<open>Parsing what was parsed gives it back, with its members in the order of the source.\<close>

lemma parse_readiness_evidence_value:
  assumes ok: "readiness_evidence_wf e"
  shows "parse_readiness_evidence (readiness_evidence_value e) = Inr e"
proof -
  let ?ds = "dimension_members (re_dimensions e)"
  have dims: "map fst (re_dimensions e) = readiness_dimensions"
    using ok by (simp add: readiness_evidence_wf_def)
  have names: "map fst ?ds = map dimension_name readiness_dimensions"
    unfolding dims[symmetric] dimension_members_def by (simp add: case_prod_beta comp_def)
  have "distinct (map fst ?ds)"
    unfolding names by (intro distinct_dimension_names distinct_readiness_dimensions)
  then have "fld ?ds (dimension_name d) = JObj (readiness_proof_fields p)"
    if "(d, p) \<in> set (re_dimensions e)" for d p
    using imageI[OF that, of "\<lambda>(d, p). (dimension_name d, JObj (readiness_proof_fields p))"]
    by (intro fld_member) (simp_all add: dimension_members_def)
  then have "list_all (\<lambda>(d, p). fld ?ds (dimension_name d) = JObj (readiness_proof_fields p))
      (re_dimensions e)"
    by (auto simp: list_all_iff)
  then have proofs: "emap (parse_dimension ?ds) readiness_dimensions = Inr (re_dimensions e)"
    using ok emap_dimensions_value[of "re_dimensions e" ?ds] dims
    by (simp add: readiness_evidence_wf_def)
  have keys: "handoff_exact_keys ?ds (map dimension_name readiness_dimensions) l = Inr ()" for l
    by (simp only: handoff_exact_keys_iff names)
  have "handoff_exact_keys
      [(''protocol'', a), (''operationId'', b), (''executionId'', c), (''snapshotId'', d),
       (''sourceGenerationId'', f), (''targetDeploymentId'', g), (''targetDeviceId'', h),
       (''dimensions'', i)]
      [''protocol'', ''operationId'', ''executionId'', ''snapshotId'', ''sourceGenerationId'',
       ''targetDeploymentId'', ''targetDeviceId'', ''dimensions''] l = Inr ()"
    for a b c d f g h i l
    by (simp add: handoff_exact_keys_iff)
  then show ?thesis
    using ok proofs keys
    by (simp add: parse_readiness_evidence_def readiness_evidence_value_def handoff_record_def
        fld_Cons readiness_evidence_wf_def handoff_uuid.check_put)
qed

definition readiness_evidence_fields :: "readiness_evidence \<Rightarrow> members" where
  "readiness_evidence_fields e =
     (case readiness_evidence_value e of JObj kvs \<Rightarrow> kvs | _ \<Rightarrow> [])"

interpretation readiness_evidence:
  normalizing_codec parse_readiness_evidence readiness_evidence_fields readiness_evidence_wf
  using parse_readiness_evidence_sound parse_readiness_evidence_value
  by unfold_locales (simp_all add: readiness_evidence_fields_def readiness_evidence_value_def)

text \<open>Freshness is a span of time: it ends with the earliest expiry and begins with the latest
  check.\<close>

lemma readiness_is_fresh_iff:
  assumes "parse_readiness_evidence v = Inr e"
  shows "readiness_is_fresh v now = Inr (list_all (proof_covers now \<circ> snd) (re_dimensions e))"
proof -
  have dims: "map fst (re_dimensions e) = readiness_dimensions"
    using parse_readiness_evidence_sound[OF assms] by (simp add: readiness_evidence_wf_def)
  then have "distinct (map fst (re_dimensions e))"
    by (simp add: distinct_readiness_dimensions)
  then show ?thesis
    unfolding readiness_is_fresh_def assms ebind_Inr dims[symmetric]
    by (auto simp: list_all_iff)
qed

end
