(* ===== verification/Fork.thy ===== *)
theory Fork
  imports Protocol_Fields
begin

text \<open>
  Forking a managed conversation onto another device,
  \<^verbatim>\<open>packages/shared/src/managed-conversation-fork.ts\<close>: the fork manifest in both protocol
  versions, its attestation by the source device, and the verification. The module has its own
  copies of the field validators.
\<close>

section \<open>Field validators\<close>

definition fork_record :: "js_value \<Rightarrow> string \<Rightarrow> members result" where
  "fork_record value label =
     (case value of
        JObj kvs \<Rightarrow> Inr kvs
      | _ \<Rightarrow> Inl (TypeError (label @ '' must be a plain object'')))"

definition fork_exact_keys :: "members \<Rightarrow> string list \<Rightarrow> string \<Rightarrow> unit result" where
  "fork_exact_keys value expected label =
     throw_if (keys_differ value expected) (TypeError (label @ '' has unknown or missing fields''))"

definition fork_uuid :: "js_value \<Rightarrow> string \<Rightarrow> string result" where
  "fork_uuid value label =
     (case value of
        JStr s \<Rightarrow> ebind (throw_if (\<not> is_uuid s) (TypeError (label @ '' must be a UUID''))) (\<lambda>_. Inr s)
      | _ \<Rightarrow> Inl (TypeError (label @ '' must be a UUID'')))"

definition fork_digest :: "js_value \<Rightarrow> string \<Rightarrow> string result" where
  "fork_digest value label =
     (case value of
        JStr s \<Rightarrow>
          ebind (throw_if (\<not> is_sha256 s) (TypeError (label @ '' must be a SHA-256 digest''))) (\<lambda>_.
          Inr s)
      | _ \<Rightarrow> Inl (TypeError (label @ '' must be a SHA-256 digest'')))"

definition fork_positive_integer :: "js_value \<Rightarrow> string \<Rightarrow> int result" where
  "fork_positive_integer value label =
     (case safe_integer 1 value of
        None \<Rightarrow> Inl (TypeError (label @ '' must be a positive safe integer''))
      | Some n \<Rightarrow> Inr n)"

definition fork_nonnegative_integer :: "js_value \<Rightarrow> string \<Rightarrow> int result" where
  "fork_nonnegative_integer value label =
     (case safe_integer 0 value of
        None \<Rightarrow> Inl (TypeError (label @ '' must be a nonnegative safe integer''))
      | Some n \<Rightarrow> Inr n)"

definition fork_timestamp :: "js_value \<Rightarrow> string \<Rightarrow> string result" where
  "fork_timestamp value label =
     (case value of
        JStr s \<Rightarrow>
          ebind (throw_if (\<not> matches iso_pattern s)
                   (TypeError (label @ '' must be an RFC3339 UTC timestamp''))) (\<lambda>_.
          ebind (to_iso_string (date_parse s)) (\<lambda>iso.
          ebind (throw_if (iso \<noteq> s)
                   (TypeError (label @ '' must be an RFC3339 UTC timestamp''))) (\<lambda>_.
          Inr s)))
      | _ \<Rightarrow> Inl (TypeError (label @ '' must be an RFC3339 UTC timestamp'')))"

definition fork_base64url :: "nat \<Rightarrow> js_value \<Rightarrow> string \<Rightarrow> string result" where
  "fork_base64url byteLength value label =
     (case value of
        JStr s \<Rightarrow>
          ebind (throw_if (s = [] \<or> \<not> list_all is_base64url_char s \<or>
                           length (b64_decode s) \<noteq> byteLength \<or> b64_encode (b64_decode s) \<noteq> s)
                   (TypeError (label @ '' must be canonical base64url''))) (\<lambda>_.
          Inr s)
      | _ \<Rightarrow> Inl (TypeError (label @ '' must be canonical base64url'')))"

text \<open>The path takes no label; the argument is there for the common contract.\<close>

definition relative_provider_path :: "js_value \<Rightarrow> string \<Rightarrow> string result" where
  "relative_provider_path value label =
     (case value of
        JStr s \<Rightarrow>
          ebind (throw_if (\<not> relative_path_ok s) (TypeError ''providerArtifactRelativePath is invalid''))
            (\<lambda>_. Inr s)
      | _ \<Rightarrow> Inl (TypeError ''providerArtifactRelativePath is invalid''))"

lemma fork_record_iff: "fork_record v label = Inr kvs \<longleftrightarrow> v = JObj kvs"
  by (cases v) (simp_all add: fork_record_def)

lemma fork_exact_keys_iff:
  "fork_exact_keys kvs ks label = Inr u \<longleftrightarrow> mset (map fst kvs) = mset ks"
  by (simp add: fork_exact_keys_def keys_differ_iff result_simps)

interpretation fork_uuid: field_codec fork_uuid JStr is_uuid
  by unfold_locales (auto simp: fork_uuid_def result_simps split: js_value.splits)

interpretation fork_digest: field_codec fork_digest JStr is_sha256
  by unfold_locales (auto simp: fork_digest_def result_simps split: js_value.splits)

interpretation fork_positive_integer: field_codec fork_positive_integer js_int "int_in 1"
  by unfold_locales
    (auto simp: fork_positive_integer_def js_int_def int_in_def safe_integer_def
       split: js_value.splits js_number.splits option.splits)

interpretation fork_nonnegative_integer: field_codec fork_nonnegative_integer js_int "int_in 0"
  by unfold_locales
    (auto simp: fork_nonnegative_integer_def js_int_def int_in_def safe_integer_def
       split: js_value.splits js_number.splits option.splits)

interpretation fork_timestamp: field_codec fork_timestamp JStr canonical_timestamp
  by unfold_locales
    (auto simp: fork_timestamp_def canonical_timestamp_def result_simps split: js_value.splits)

interpretation fork_base64url: field_codec "fork_base64url n" JStr "canonical_base64url n" for n
  by unfold_locales
    (auto simp: fork_base64url_def canonical_base64url_def result_simps split: js_value.splits)

interpretation relative_provider_path: field_codec relative_provider_path JStr relative_path_ok
  by unfold_locales (auto simp: relative_provider_path_def result_simps split: js_value.splits)

lemmas fork_checks =
  fork_record_iff fork_exact_keys_iff fork_uuid.check_iff fork_digest.check_iff
  fork_positive_integer.check_iff fork_nonnegative_integer.check_iff fork_timestamp.check_iff
  fork_base64url.check_iff relative_provider_path.check_iff

section \<open>The fork manifest\<close>

datatype fork_protocol = Fork_v1 | Fork_v2

definition fork_protocol_text :: "fork_protocol \<Rightarrow> string" where
  "fork_protocol_text p =
     (case p of
        Fork_v1 \<Rightarrow> ''koed.managed-conversation-fork/v1''
      | Fork_v2 \<Rightarrow> ''koed.managed-conversation-fork/v2'')"

record fork_manifest =
  fm_protocol :: fork_protocol
  fm_operationId :: string
  fm_requestDigest :: string
  fm_ownerUserId :: string
  fm_parentExecutionId :: string
  fm_parentExecutionGeneration :: int
  fm_parentLogicalSessionId :: string
  fm_logicalSourceId :: string
  fm_sourceGenerationId :: string
  fm_parentNextSourceGenerationId :: string
  fm_parentNextOriginKeyId :: string
  fm_sourceClosureHash :: string
  fm_sourceEndByteCursor :: int
  fm_sourceEndItemCursor :: int
  fm_provider :: string
  fm_aiClientInstanceId :: "string option"
  fm_providerThreadId :: string
  fm_providerArtifactRelativePath :: string
  fm_providerCliVersion :: string
  fm_workspaceSnapshotId :: string
  fm_workspaceManifestDigest :: string
  fm_sourceDeploymentId :: string
  fm_sourceDeviceId :: string
  fm_targetDeploymentId :: string
  fm_targetDeviceId :: string
  fm_nonce :: string
  fm_createdAt :: string
  fm_expiresAt :: string

definition fork_base_keys :: "string list" where
  "fork_base_keys =
     [''protocol'', ''operationId'', ''requestDigest'', ''ownerUserId'',
      ''parentExecutionId'', ''parentExecutionGeneration'', ''parentLogicalSessionId'',
      ''logicalSourceId'', ''sourceGenerationId'', ''parentNextSourceGenerationId'',
      ''parentNextOriginKeyId'', ''sourceClosureHash'', ''sourceEndByteCursor'',
      ''sourceEndItemCursor'', ''provider'', ''providerThreadId'',
      ''providerArtifactRelativePath'', ''providerCliVersion'', ''workspaceSnapshotId'',
      ''workspaceManifestDigest'', ''sourceDeploymentId'', ''sourceDeviceId'',
      ''targetDeploymentId'', ''targetDeviceId'', ''nonce'', ''createdAt'', ''expiresAt'']"

text \<open>\<^verbatim>\<open>parseManagedConversationForkManifest\<close>\<close>

definition parse_fork_manifest :: "js_value \<Rightarrow> fork_manifest result" where
  "parse_fork_manifest value =
     ebind (fork_record value ''Managed Conversation fork manifest'') (\<lambda>input.
     ebind (throw_if (fld input ''protocol'' \<noteq> JStr (fork_protocol_text Fork_v1) \<and>
                      fld input ''protocol'' \<noteq> JStr (fork_protocol_text Fork_v2))
              (TypeError ''Managed Conversation fork protocol is invalid'')) (\<lambda>_.
     let v2 = (fld input ''protocol'' = JStr (fork_protocol_text Fork_v2)) in
     ebind (fork_exact_keys input
              (if v2 then fork_base_keys @ [''aiClientInstanceId''] else fork_base_keys)
              ''Managed Conversation fork manifest'') (\<lambda>_.
     ebind (throw_if (\<not> identifier_ok 96 (fld input ''provider'') \<or>
                      v2 \<and> \<not> identifier_ok 128 (fld input ''aiClientInstanceId''))
              (TypeError ''Managed Conversation fork protocol is invalid'')) (\<lambda>_.
     ebind (throw_if (\<not> cli_version_ok (fld input ''providerCliVersion''))
              (TypeError ''providerCliVersion is invalid'')) (\<lambda>_.
     ebind (fork_uuid (fld input ''operationId'') ''operationId'') (\<lambda>operationId.
     ebind (fork_digest (fld input ''requestDigest'') ''requestDigest'') (\<lambda>requestDigest.
     ebind (fork_uuid (fld input ''ownerUserId'') ''ownerUserId'') (\<lambda>ownerUserId.
     ebind (fork_uuid (fld input ''parentExecutionId'') ''parentExecutionId'') (\<lambda>parentExecutionId.
     ebind (fork_positive_integer (fld input ''parentExecutionGeneration'') ''parentExecutionGeneration'') (\<lambda>parentExecutionGeneration.
     ebind (fork_uuid (fld input ''parentLogicalSessionId'') ''parentLogicalSessionId'') (\<lambda>parentLogicalSessionId.
     ebind (fork_uuid (fld input ''logicalSourceId'') ''logicalSourceId'') (\<lambda>logicalSourceId.
     ebind (fork_uuid (fld input ''sourceGenerationId'') ''sourceGenerationId'') (\<lambda>sourceGenerationId.
     ebind (fork_uuid (fld input ''parentNextSourceGenerationId'') ''parentNextSourceGenerationId'') (\<lambda>parentNextSourceGenerationId.
     ebind (fork_uuid (fld input ''parentNextOriginKeyId'') ''parentNextOriginKeyId'') (\<lambda>parentNextOriginKeyId.
     ebind (fork_digest (fld input ''sourceClosureHash'') ''sourceClosureHash'') (\<lambda>sourceClosureHash.
     ebind (fork_nonnegative_integer (fld input ''sourceEndByteCursor'') ''sourceEndByteCursor'') (\<lambda>sourceEndByteCursor.
     ebind (fork_nonnegative_integer (fld input ''sourceEndItemCursor'') ''sourceEndItemCursor'') (\<lambda>sourceEndItemCursor.
     ebind (fork_uuid (fld input ''providerThreadId'') ''providerThreadId'') (\<lambda>providerThreadId.
     ebind (relative_provider_path (fld input ''providerArtifactRelativePath'') ''providerArtifactRelativePath'') (\<lambda>providerArtifactRelativePath.
     ebind (fork_uuid (fld input ''workspaceSnapshotId'') ''workspaceSnapshotId'') (\<lambda>workspaceSnapshotId.
     ebind (fork_digest (fld input ''workspaceManifestDigest'') ''workspaceManifestDigest'') (\<lambda>workspaceManifestDigest.
     ebind (fork_uuid (fld input ''sourceDeploymentId'') ''sourceDeploymentId'') (\<lambda>sourceDeploymentId.
     ebind (fork_uuid (fld input ''sourceDeviceId'') ''sourceDeviceId'') (\<lambda>sourceDeviceId.
     ebind (fork_uuid (fld input ''targetDeploymentId'') ''targetDeploymentId'') (\<lambda>targetDeploymentId.
     ebind (fork_uuid (fld input ''targetDeviceId'') ''targetDeviceId'') (\<lambda>targetDeviceId.
     ebind (fork_base64url 32 (fld input ''nonce'') ''nonce'') (\<lambda>nonce.
     ebind (fork_timestamp (fld input ''createdAt'') ''createdAt'') (\<lambda>createdAt.
     ebind (fork_timestamp (fld input ''expiresAt'') ''expiresAt'') (\<lambda>expiresAt.
     let parsed =
       \<lparr> fm_protocol = (if v2 then Fork_v2 else Fork_v1),
         fm_operationId = operationId,
         fm_requestDigest = requestDigest,
         fm_ownerUserId = ownerUserId,
         fm_parentExecutionId = parentExecutionId,
         fm_parentExecutionGeneration = parentExecutionGeneration,
         fm_parentLogicalSessionId = parentLogicalSessionId,
         fm_logicalSourceId = logicalSourceId,
         fm_sourceGenerationId = sourceGenerationId,
         fm_parentNextSourceGenerationId = parentNextSourceGenerationId,
         fm_parentNextOriginKeyId = parentNextOriginKeyId,
         fm_sourceClosureHash = sourceClosureHash,
         fm_sourceEndByteCursor = sourceEndByteCursor,
         fm_sourceEndItemCursor = sourceEndItemCursor,
         fm_provider = js_string (fld input ''provider''),
         fm_aiClientInstanceId = (if v2 then Some (js_string (fld input ''aiClientInstanceId'')) else None),
         fm_providerThreadId = providerThreadId,
         fm_providerArtifactRelativePath = providerArtifactRelativePath,
         fm_providerCliVersion = js_string (fld input ''providerCliVersion''),
         fm_workspaceSnapshotId = workspaceSnapshotId,
         fm_workspaceManifestDigest = workspaceManifestDigest,
         fm_sourceDeploymentId = sourceDeploymentId,
         fm_sourceDeviceId = sourceDeviceId,
         fm_targetDeploymentId = targetDeploymentId,
         fm_targetDeviceId = targetDeviceId,
         fm_nonce = nonce,
         fm_createdAt = createdAt,
         fm_expiresAt = expiresAt \<rparr>
     in
     ebind (throw_if (timestamp_ms (fm_expiresAt parsed) \<le> timestamp_ms (fm_createdAt parsed))
              (TypeError ''Fork manifest expiry is invalid'')) (\<lambda>_.
     Inr parsed))))))))))))))))))))))))))))))"

text \<open>The members of the parsed object, in the order of its literal in the source.\<close>

definition fork_fields :: "fork_manifest \<Rightarrow> members" where
  "fork_fields m =
     [(''protocol'', JStr (fork_protocol_text (fm_protocol m))),
      (''operationId'', JStr (fm_operationId m)),
      (''requestDigest'', JStr (fm_requestDigest m)),
      (''ownerUserId'', JStr (fm_ownerUserId m)),
      (''parentExecutionId'', JStr (fm_parentExecutionId m)),
      (''parentExecutionGeneration'', js_int (fm_parentExecutionGeneration m)),
      (''parentLogicalSessionId'', JStr (fm_parentLogicalSessionId m)),
      (''logicalSourceId'', JStr (fm_logicalSourceId m)),
      (''sourceGenerationId'', JStr (fm_sourceGenerationId m)),
      (''parentNextSourceGenerationId'', JStr (fm_parentNextSourceGenerationId m)),
      (''parentNextOriginKeyId'', JStr (fm_parentNextOriginKeyId m)),
      (''sourceClosureHash'', JStr (fm_sourceClosureHash m)),
      (''sourceEndByteCursor'', js_int (fm_sourceEndByteCursor m)),
      (''sourceEndItemCursor'', js_int (fm_sourceEndItemCursor m)),
      (''provider'', JStr (fm_provider m))] @
     (if fm_protocol m = Fork_v2
      then [(''aiClientInstanceId'', JStr (the (fm_aiClientInstanceId m)))] else []) @
     [(''providerThreadId'', JStr (fm_providerThreadId m)),
      (''providerArtifactRelativePath'', JStr (fm_providerArtifactRelativePath m)),
      (''providerCliVersion'', JStr (fm_providerCliVersion m)),
      (''workspaceSnapshotId'', JStr (fm_workspaceSnapshotId m)),
      (''workspaceManifestDigest'', JStr (fm_workspaceManifestDigest m)),
      (''sourceDeploymentId'', JStr (fm_sourceDeploymentId m)),
      (''sourceDeviceId'', JStr (fm_sourceDeviceId m)),
      (''targetDeploymentId'', JStr (fm_targetDeploymentId m)),
      (''targetDeviceId'', JStr (fm_targetDeviceId m)),
      (''nonce'', JStr (fm_nonce m)),
      (''createdAt'', JStr (fm_createdAt m)),
      (''expiresAt'', JStr (fm_expiresAt m))]"

definition fork_manifest_wf :: "fork_manifest \<Rightarrow> bool" where
  "fork_manifest_wf m \<longleftrightarrow>
     is_uuid (fm_operationId m) \<and>
     is_sha256 (fm_requestDigest m) \<and>
     is_uuid (fm_ownerUserId m) \<and>
     is_uuid (fm_parentExecutionId m) \<and>
     int_in 1 (fm_parentExecutionGeneration m) \<and>
     is_uuid (fm_parentLogicalSessionId m) \<and>
     is_uuid (fm_logicalSourceId m) \<and>
     is_uuid (fm_sourceGenerationId m) \<and>
     is_uuid (fm_parentNextSourceGenerationId m) \<and>
     is_uuid (fm_parentNextOriginKeyId m) \<and>
     is_sha256 (fm_sourceClosureHash m) \<and>
     int_in 0 (fm_sourceEndByteCursor m) \<and>
     int_in 0 (fm_sourceEndItemCursor m) \<and>
     identifier_text 96 (fm_provider m) \<and>
     is_uuid (fm_providerThreadId m) \<and>
     relative_path_ok (fm_providerArtifactRelativePath m) \<and>
     cli_version_text (fm_providerCliVersion m) \<and>
     is_uuid (fm_workspaceSnapshotId m) \<and>
     is_sha256 (fm_workspaceManifestDigest m) \<and>
     is_uuid (fm_sourceDeploymentId m) \<and>
     is_uuid (fm_sourceDeviceId m) \<and>
     is_uuid (fm_targetDeploymentId m) \<and>
     is_uuid (fm_targetDeviceId m) \<and>
     canonical_base64url 32 (fm_nonce m) \<and>
     canonical_timestamp (fm_createdAt m) \<and>
     canonical_timestamp (fm_expiresAt m) \<and>
     (case fm_protocol m of
        Fork_v1 \<Rightarrow> fm_aiClientInstanceId m = None
      | Fork_v2 \<Rightarrow>
          (case fm_aiClientInstanceId m of None \<Rightarrow> False | Some i \<Rightarrow> identifier_text 128 i)) \<and>
     timestamp_ms (fm_createdAt m) < timestamp_ms (fm_expiresAt m)"

lemma fork_fields_proper:
  "distinct (map fst (fork_fields m))" "list_all (\<lambda>(k, v). js_leaf v) (fork_fields m)"
  by (simp_all add: fork_fields_def)

lemma fork_fields_keys:
  "mset (map fst (fork_fields m)) =
     mset (if fm_protocol m = Fork_v2 then fork_base_keys @ [''aiClientInstanceId'']
           else fork_base_keys)"
  by (simp add: fork_fields_def fork_base_keys_def)

lemma fork_protocol_text_inj [simp]: "fork_protocol_text a = fork_protocol_text b \<longleftrightarrow> a = b"
  by (simp add: fork_protocol_text_def split: fork_protocol.splits)

lemma parse_fork_manifest_accepts:
  "parse_fork_manifest (JObj kvs) = Inr m \<Longrightarrow>
     fork_manifest_wf m \<and> mset (map fst kvs) = mset (map fst (fork_fields m)) \<and>
     list_all (\<lambda>(k, v). js_same (fld kvs k) v) (fork_fields m)"
  unfolding parse_fork_manifest_def fork_manifest_wf_def fork_fields_keys
  by (clarsimp simp: Let_def result_simps fork_checks fork_fields_def text_field_iffs
      split: if_splits)

lemma parse_fork_manifest_complete:
  "fork_manifest_wf m \<Longrightarrow> mset (map fst kvs) = mset (map fst (fork_fields m)) \<Longrightarrow>
     list_all (\<lambda>(k, v). js_same (fld kvs k) v) (fork_fields m) \<Longrightarrow>
     parse_fork_manifest (JObj kvs) = Inr m"
  unfolding parse_fork_manifest_def fork_manifest_wf_def fork_fields_keys
  by (cases m; cases "fm_protocol m"; cases "fm_aiClientInstanceId m")
    (simp_all add: Let_def result_simps fork_checks fork_fields_def text_field_iffs)

interpretation fork: object_codec parse_fork_manifest fork_fields fork_manifest_wf
proof (rule object_codecI)
  show "\<exists>kvs. v = JObj kvs" if "parse_fork_manifest v = Inr m" for v m
    using that by (auto simp: parse_fork_manifest_def result_simps fork_record_iff)
qed (fact fork_fields_proper(1) parse_fork_manifest_accepts parse_fork_manifest_complete)+

text \<open>\<^verbatim>\<open>canonicalManagedConversationForkManifest\<close> and
  \<^verbatim>\<open>managedConversationForkAiClientInstanceIdAfterVerification\<close>\<close>

definition canonical_fork_manifest :: "'k crypto \<Rightarrow> js_value \<Rightarrow> string result" where
  "canonical_fork_manifest cr manifest =
     ebind (parse_fork_manifest manifest) (\<lambda>m. Inr (canonicalize cr (JObj (fork_fields m))))"

definition fork_instance_after_verification :: "js_value \<Rightarrow> bool \<Rightarrow> string result" where
  "fork_instance_after_verification manifest verified =
     ebind (throw_if (\<not> verified)
              (PlainError ''Managed Conversation fork manifest is not verified'')) (\<lambda>_.
     ebind (parse_fork_manifest manifest) (\<lambda>m.
     Inr (case fm_protocol m of
            Fork_v1 \<Rightarrow> fm_provider m @ ''.default''
          | Fork_v2 \<Rightarrow> the (fm_aiClientInstanceId m))))"

section \<open>The signed manifest\<close>

record signed_fork =
  sf_manifest :: fork_manifest
  sf_keyId :: string
  sf_signature :: string

definition parse_signed_fork :: "js_value \<Rightarrow> signed_fork result" where
  "parse_signed_fork value =
     ebind (fork_record value ''Signed Managed Conversation fork manifest'') (\<lambda>input.
     ebind (fork_exact_keys input [''manifest'', ''source'']
              ''Signed Managed Conversation fork manifest'') (\<lambda>_.
     ebind (fork_record (fld input ''source'') ''Fork source attestation'') (\<lambda>source.
     ebind (fork_exact_keys source [''keyId'', ''signature''] ''Fork source attestation'') (\<lambda>_.
     ebind (parse_fork_manifest (fld input ''manifest'')) (\<lambda>manifest.
     ebind (fork_uuid (fld source ''keyId'') ''source keyId'') (\<lambda>keyId.
     ebind (fork_base64url 64 (fld source ''signature'') ''source signature'') (\<lambda>signature.
     Inr \<lparr> sf_manifest = manifest, sf_keyId = keyId, sf_signature = signature \<rparr>)))))))"

definition signed_fork_value :: "signed_fork \<Rightarrow> js_value" where
  "signed_fork_value s =
     JObj [(''manifest'', JObj (fork_fields (sf_manifest s))),
           (''source'', JObj [(''keyId'', JStr (sf_keyId s)), (''signature'', JStr (sf_signature s))])]"

text \<open>
  \<^verbatim>\<open>verifyManagedConversationForkManifest\<close>; \<open>clock\<close> is \<^verbatim>\<open>Date.now()\<close>, an absent option is
  \<open>None\<close>. An empty \<^verbatim>\<open>expectedTargetDeviceId\<close> is falsy and expects nothing.
\<close>

definition verify_fork_manifest ::
  "'k crypto \<Rightarrow> int \<Rightarrow> js_value \<Rightarrow> 'k key_input \<Rightarrow> string option \<Rightarrow> bool option \<Rightarrow> bool result" where
  "verify_fork_manifest cr clock value sourcePublicKey expectedTargetDeviceId enforceExpiry =
     (case parse_signed_fork value of
        Inl _ \<Rightarrow> Inr False
      | Inr signed \<Rightarrow>
          if (case expectedTargetDeviceId of
                None \<Rightarrow> False
              | Some d \<Rightarrow> d \<noteq> [] \<and> fm_targetDeviceId (sf_manifest signed) \<noteq> d) then Inr False
          else if enforceExpiry \<noteq> Some False \<and>
                  timestamp_ms (fm_expiresAt (sf_manifest signed)) \<le> clock then Inr False
          else
            ebind (import_key cr sourcePublicKey) (\<lambda>key.
            ebind (canonical_fork_manifest cr (JObj (fork_fields (sf_manifest signed)))) (\<lambda>payload.
            Inr (ed_verify cr payload key (b64_decode (sf_signature signed))))))"

text \<open>\<^verbatim>\<open>managedConversationForkManifestDigest\<close>\<close>

definition fork_manifest_digest :: "'k crypto \<Rightarrow> js_value \<Rightarrow> string result" where
  "fork_manifest_digest cr value =
     ebind (parse_signed_fork value) (\<lambda>s. Inr (sha256_hex cr (canonicalize cr (signed_fork_value s))))"

definition signed_fork_wf :: "signed_fork \<Rightarrow> bool" where
  "signed_fork_wf s \<longleftrightarrow>
     fork_manifest_wf (sf_manifest s) \<and> is_uuid (sf_keyId s) \<and>
     canonical_base64url 64 (sf_signature s)"

lemma parse_signed_fork_sound: "parse_signed_fork v = Inr s \<Longrightarrow> signed_fork_wf s"
  by (auto simp: parse_signed_fork_def result_simps fork_checks signed_fork_wf_def
      dest: fork.sound)

lemma parse_signed_fork_value: "signed_fork_wf s \<Longrightarrow> parse_signed_fork (signed_fork_value s) = Inr s"
  by (cases s)
    (simp add: parse_signed_fork_def signed_fork_value_def result_simps fork_checks fld_Cons
      signed_fork_wf_def fork.parse_fields)

text \<open>The verification decides; only a raw key that is not one makes it throw.\<close>

lemma verify_fork_manifest_cases:
  "verify_fork_manifest cr clock v key dev expiry =
    (case parse_signed_fork v of
       Inl _ \<Rightarrow> Inr False
     | Inr s \<Rightarrow>
         if (\<exists>d. dev = Some d \<and> d \<noteq> [] \<and> fm_targetDeviceId (sf_manifest s) \<noteq> d) \<or>
            (expiry \<noteq> Some False \<and> timestamp_ms (fm_expiresAt (sf_manifest s)) \<le> clock)
         then Inr False
         else ebind (import_key cr key) (\<lambda>k.
           Inr (ed_verify cr (canonicalize cr (JObj (fork_fields (sf_manifest s)))) k
                  (b64_decode (sf_signature s)))))"
  by (cases dev; cases "parse_signed_fork v")
    (auto simp: verify_fork_manifest_def canonical_fork_manifest_def fork.parse_fields
      signed_fork_wf_def dest!: parse_signed_fork_sound)

end
