(* ===== verification/Handoff_Properties.thy ===== *)
theory Handoff_Properties
  imports Handoff_State Handoff_Certificate Handoff_Readiness Fork
begin

text \<open>
  What the handoff and fork protocols guarantee, from the lemmas of \<open>Handoff\<close>,
  \<open>Handoff_State\<close>, \<open>Handoff_Certificate\<close>, \<open>Handoff_Readiness\<close> and \<open>Fork\<close>, with concrete
  manifests and keys at which the theorems apply.
\<close>

section \<open>Concrete manifests and keys\<close>

definition sample_uuid :: "char \<Rightarrow> string" where
  "sample_uuid c = c # ''0000000-0000-4000-8000-000000000000''"

definition sample_handoff :: handoff_manifest where
  "sample_handoff =
     \<lparr> hm_protocol = Transfer_v2, hm_operationId = sample_uuid CHR ''1'',
       hm_ownerUserId = sample_uuid CHR ''2'', hm_executionId = sample_uuid CHR ''3'',
       hm_sourceExecutionGeneration = 1, hm_nextExecutionGeneration = 2,
       hm_logicalSourceId = sample_uuid CHR ''4'', hm_sourceGenerationId = sample_uuid CHR ''5'',
       hm_nextSourceGenerationId = sample_uuid CHR ''6'', hm_targetOriginKeyId = sample_uuid CHR ''7'',
       hm_sourceClosureHash = replicate 64 CHR ''a'', hm_sourceEndByteCursor = 10,
       hm_sourceEndItemCursor = 1, hm_provider = ''codex'',
       hm_aiClientInstanceId = Some ''codex.default'', hm_providerThreadId = sample_uuid CHR ''8'',
       hm_providerArtifactRelativePath = ''sessions/rollout.jsonl'',
       hm_providerCliVersion = ''1.0'', hm_workspaceSnapshotId = sample_uuid CHR ''9'',
       hm_workspaceManifestDigest = replicate 64 CHR ''b'',
       hm_sourceDeploymentId = sample_uuid CHR ''a'', hm_sourceDeviceId = sample_uuid CHR ''b'',
       hm_targetDeploymentId = sample_uuid CHR ''c'', hm_targetDeviceId = sample_uuid CHR ''d'',
       hm_authoritySequence = 1, hm_priorAuthorityLogHead = None,
       hm_nonce = replicate 43 CHR ''A'', hm_createdAt = ''2026-01-01T00:00:00.000Z'',
       hm_expiresAt = ''2026-01-01T00:10:00.000Z'' \<rparr>"

text \<open>Keys are texts: the first character tells a private key from its public key.\<close>

definition sample_crypto :: "string crypto" where
  "sample_crypto =
     \<lparr> canonicalize = (\<lambda>v. case v of JObj kvs \<Rightarrow> concat (map fst kvs) | _ \<Rightarrow> []),
       sha256_hex = (\<lambda>s. replicate 64 CHR ''0''),
       ed_public_key = (\<lambda>bytes. Inr (CHR ''p'' # bytes)),
       ed_private_key = (\<lambda>public seed. Inr (CHR ''s'' # public)),
       ed_verify = (\<lambda>payload key sig. sig = take 64 (payload @ tl key @ replicate 64 CHR ''0'')),
       ed_sign = (\<lambda>payload key. take 64 (payload @ tl key @ replicate 64 CHR ''0'')),
       key_type = (\<lambda>key. if take 1 key = ''s'' then ''private'' else ''public''),
       key_algorithm = (\<lambda>key. ''ed25519'') \<rparr>"

lemma sample_handoff_wf: "handoff_manifest_wf sample_handoff"
  by code_simp

lemma sample_key_pair: "key_pair sample_crypto (CHR ''s'' # k) (CHR ''p'' # k)"
  by (auto simp: key_pair_def sample_crypto_def min_def)

lemma sample_handoff_parses: "parse_handoff_manifest (JObj (handoff_fields sample_handoff)) = Inr sample_handoff"
  by (rule handoff.parse_fields[OF sample_handoff_wf])

section \<open>Handoff\<close>

text \<open>C1. A value is a handoff manifest exactly when it is a plain object whose members are those of
  a well-formed manifest, each once and in any order; the result is that manifest. So unknown,
  missing or ill-typed members, non-contiguous generations, an unchanged source generation, an
  expiry that is not after the creation and a target that is the source are all rejected.\<close>

theorem handoff_manifest_exact:
  "parse_handoff_manifest v = Inr m \<longleftrightarrow>
     handoff_manifest_wf m \<and> (\<exists>kvs. v = JObj kvs \<and> mset kvs = mset (handoff_fields m))"
  unfolding handoff.parse_iff js_same_flat[OF handoff_fields_proper] ..

text \<open>C2. A handoff certificate verifies exactly when it parses, nothing the verifier expects of it
  is violated (expiry, target device, authority sequence, prior log head), both keys are usable,
  the source signed the canonical manifest and the authority signed the canonical manifest
  together with the source's signature.\<close>

theorem handoff_certificate_verified_iff:
  "verify_handoff_certificate cr clock v sk ak opts = Inr True \<longleftrightarrow>
     (\<exists>c sourceKey authorityKey.
        parse_handoff_certificate v = Inr c \<and> \<not> certificate_refused clock opts (hc_manifest c) \<and>
        import_key cr sk = Inr sourceKey \<and> import_key cr ak = Inr authorityKey \<and>
        ed_verify cr (manifest_payload cr (hc_manifest c)) sourceKey
          (b64_decode (at_signature (hc_source c))) \<and>
        ed_verify cr (authority_payload cr (hc_manifest c) (hc_source c)) authorityKey
          (b64_decode (at_signature (hc_authority c))))"
proof (cases "parse_handoff_certificate v")
  case (Inl e)
  then show ?thesis by (simp add: verify_handoff_certificate_def)
next
  case (Inr c)
  show ?thesis
    unfolding verify_handoff_certificate_eq[OF Inr] by (auto simp: Inr result_simps)
qed

text \<open>C3. A certificate made with the private keys verifies under the public keys, for every
  verifier whose expectations its manifest meets, and carries the manifest it was made for.\<close>

theorem handoff_sign_then_verify:
  assumes "parse_handoff_manifest v = Inr m" and "is_uuid sid" and "is_uuid aid"
    and "key_pair cr sPriv sPub" and "key_pair cr aPriv aPub"
  shows "\<exists>c. sign_handoff_certificate cr v sid (\<lambda>p. Inr (b64_encode (ed_sign cr p sPriv))) aid aPriv
               = Inr c \<and> hc_manifest c = m \<and>
             verify_handoff_certificate cr clock (JObj (certificate_fields c)) (Key_object sPub)
               (Key_object aPub) opts = Inr (\<not> certificate_refused clock opts m)"
proof -
  let ?sig = "b64_encode (ed_sign cr (manifest_payload cr m) sPriv)"
  let ?s = "\<lparr> at_keyId = sid, at_signature = ?sig \<rparr>"
  have s: "attestation_ok ?s" and sig: "canonical_base64url 64 ?sig"
    using assms by (simp_all add: attestation_ok_def signature_ok key_pair_def)
  let ?a = "\<lparr> at_keyId = aid, at_signature = b64_encode (ed_sign cr (authority_payload cr m ?s) aPriv) \<rparr>"
  let ?c = "\<lparr> hc_manifest = m, hc_source = ?s, hc_authority = ?a \<rparr>"
  have "sign_handoff_certificate cr v sid (\<lambda>p. Inr (b64_encode (ed_sign cr p sPriv))) aid aPriv = Inr ?c"
    using assms s sig by (simp add: sign_eq countersign_eq key_pair_def)
  moreover have "handoff_certificate_wf ?c"
    using assms s handoff.sound
    by (simp add: handoff_certificate_wf_def attestation_ok_def signature_ok key_pair_def)
  then have "parse_handoff_certificate (JObj (certificate_fields ?c)) = Inr ?c"
    by (rule handoff_certificate.parse_fields)
  then have "verify_handoff_certificate cr clock (JObj (certificate_fields ?c)) (Key_object sPub)
      (Key_object aPub) opts = Inr (\<not> certificate_refused clock opts m)"
    using assms by (simp add: verify_handoff_certificate_eq b64_decode_encode key_pair_def)
  ultimately show ?thesis by auto
qed

theorem handoff_sign_then_verify_witness:
  "\<exists>c. sign_handoff_certificate sample_crypto (JObj (handoff_fields sample_handoff))
         (sample_uuid CHR ''1'') (\<lambda>p. Inr (b64_encode (ed_sign sample_crypto p ''s1'')))
         (sample_uuid CHR ''2'') ''s2'' = Inr c \<and> hc_manifest c = sample_handoff \<and>
       verify_handoff_certificate sample_crypto 0 (JObj (certificate_fields c)) (Key_object ''p1'')
         (Key_object ''p2'')
         \<lparr> vo_now = None, vo_expectedTargetDeviceId = Some (sample_uuid CHR ''d''),
           vo_minimumAuthoritySequence = Some 1, vo_expectedPriorAuthorityLogHead = Some None,
           vo_enforceExpiry = None \<rparr> = Inr True"
proof -
  have u: "is_uuid (sample_uuid CHR ''1'')" "is_uuid (sample_uuid CHR ''2'')"
    by code_simp+
  have "\<not> certificate_refused 0
     \<lparr> vo_now = None, vo_expectedTargetDeviceId = Some (sample_uuid CHR ''d''),
       vo_minimumAuthoritySequence = Some 1, vo_expectedPriorAuthorityLogHead = Some None,
       vo_enforceExpiry = None \<rparr> sample_handoff"
    by code_simp
  then show ?thesis
    using handoff_sign_then_verify[OF sample_handoff_parses u sample_key_pair sample_key_pair,
      of "''1''" "''2''" 0 "\<lparr> vo_now = None, vo_expectedTargetDeviceId = Some (sample_uuid CHR ''d''),
       vo_minimumAuthoritySequence = Some 1, vo_expectedPriorAuthorityLogHead = Some None,
       vo_enforceExpiry = None \<rparr>"]
    by simp
qed

text \<open>The artifact path of an accepted manifest names a place strictly below whatever directory
  it is resolved in: resolution only appends the path's parts, none of which steps up.\<close>

theorem handoff_artifact_stays_in_root:
  assumes "parse_handoff_manifest v = Inr m"
  shows "resolve_path root (hm_providerArtifactRelativePath m) =
           root @ split_on CHR ''/'' (hm_providerArtifactRelativePath m) \<and>
         ''..'' \<notin> set (split_on CHR ''/'' (hm_providerArtifactRelativePath m)) \<and>
         root \<noteq> resolve_path root (hm_providerArtifactRelativePath m)"
proof -
  have "relative_path_ok (hm_providerArtifactRelativePath m)"
    using handoff.sound[OF assms] by (simp add: handoff_manifest_wf_def)
  then show ?thesis
    by (auto simp: relative_path_resolves relative_path_ok_def list_ex_iff)
qed

theorem handoff_artifact_stays_in_root_witness:
  "resolve_path [''home''] (hm_providerArtifactRelativePath sample_handoff) =
     [''home'', ''sessions'', ''rollout.jsonl'']"
proof -
  have "split_on CHR ''/'' (hm_providerArtifactRelativePath sample_handoff) =
      [''sessions'', ''rollout.jsonl'']"
    by code_simp
  then show ?thesis
    using handoff_artifact_stays_in_root[OF sample_handoff_parses, of "[''home'']"] by simp
qed

text \<open>C4. The runs of a handoff that end in \<^verbatim>\<open>running\<close> are exactly these: quiesce, stop the provider,
  seal the source, prepare the workspace, verify the target one or more times, transfer the
  lease, restore, verify the identity. No step can be skipped or taken twice, and nothing runs
  before the lease is transferred.\<close>

theorem handoff_runs_to_running:
  "handoff_run (Quiesce_requested # path) \<and> last (Quiesce_requested # path) = Running \<longleftrightarrow>
     (\<exists>n. Quiesce_requested # path =
        [Quiesce_requested, Provider_stopped, Source_sealed, Workspace_prepared] @
        replicate (Suc n) Target_verified @
        [Lease_transferred, Restoring, Identity_verified, Running])"
  (is "?L \<longleftrightarrow> ?R")
proof
  assume ?L
  then obtain p where p: "Quiesce_requested # path =
      [Quiesce_requested, Provider_stopped, Source_sealed, Workspace_prepared] @ Target_verified # p"
    "handoff_run (Target_verified # p)" "last (Target_verified # p) = Running"
    using run_before_verified by blast
  then show ?R using run_from_verified[OF p(2,3)] by (auto simp: after_lease_def)
next
  assume ?R
  then obtain n where n: "Quiesce_requested # path =
      [Quiesce_requested, Provider_stopped, Source_sealed, Workspace_prepared] @
      replicate (Suc n) Target_verified @ after_lease"
    by (auto simp: after_lease_def)
  show ?L
    unfolding n using handoff_run_happy[of n] by (simp add: after_lease_def)
qed

text \<open>C5. A handoff only moves forward: a state that was left is never entered again, whatever the
  path, and a run leaves a state for another at most eight times.\<close>

theorem handoff_moves_forward:
  assumes "handoff_run (s # path)"
  shows "handoff_machine.moves (s # path) \<le> 8 \<and>
         (handoff_step\<^sup>*\<^sup>* s t \<and> handoff_step\<^sup>*\<^sup>* t s \<longleftrightarrow> s = t)"
proof -
  have "handoff_rank x \<le> 8" for x
    by (simp add: handoff_rank_def split: handoff_state.split)
  from this[of "last (s # path)"] have "handoff_machine.moves (s # path) \<le> 8"
    using handoff_machine.moves_bounded[of s path] assms
    unfolding handoff_run_is_path by linarith
  then show ?thesis using handoff_machine.no_return by blast
qed

theorem handoff_moves_forward_witness:
  "handoff_machine.moves [Target_verified, Target_verified, Lease_transferred, Quarantined] \<le> 8"
proof -
  have "handoff_run [Target_verified, Target_verified, Lease_transferred, Quarantined]"
    by (simp add: handoff_step_iff handoff_transitions_def)
  then show ?thesis
    using handoff_moves_forward[of Target_verified
        "[Target_verified, Lease_transferred, Quarantined]" Target_verified] by blast
qed

text \<open>Readiness evidence is fresh exactly between the latest check and the earliest expiry of its
  six proofs, the expiry excluded.\<close>

theorem readiness_fresh_iff:
  "readiness_is_fresh v now = Inr True \<longleftrightarrow>
     (\<exists>e. parse_readiness_evidence v = Inr e \<and>
        Max ((\<lambda>(d, p). timestamp_ms (rp_checkedAt p)) ` set (re_dimensions e)) \<le> now \<and>
        now < Min ((\<lambda>(d, p). timestamp_ms (rp_expiresAt p)) ` set (re_dimensions e)))"
proof (cases "parse_readiness_evidence v")
  case (Inl e)
  then show ?thesis by (simp add: readiness_is_fresh_def)
next
  case (Inr e)
  have "map fst (re_dimensions e) = readiness_dimensions"
    using parse_readiness_evidence_sound[OF Inr] by (simp add: readiness_evidence_wf_def)
  then have "re_dimensions e \<noteq> []"
    by (auto simp: readiness_dimensions_def)
  then show ?thesis
    unfolding readiness_is_fresh_iff[OF Inr]
    by (auto simp: Inr list_all_iff proof_covers_def)
qed

section \<open>Fork\<close>

text \<open>A value is a fork manifest exactly when it is a plain object whose members are those of a
  well-formed manifest, each once and in any order; the result is that manifest.\<close>

theorem fork_manifest_exact:
  "parse_fork_manifest v = Inr m \<longleftrightarrow>
     fork_manifest_wf m \<and> (\<exists>kvs. v = JObj kvs \<and> mset kvs = mset (fork_fields m))"
  unfolding fork.parse_iff js_same_flat[OF fork_fields_proper] ..

text \<open>The verification of a signed fork manifest decides every value, malformed ones included,
  when it is given a key object; it accepts exactly the parsed manifests for the expected device
  (a non-empty expectation), not yet expired unless expiry is switched off, whose canonical form
  the key signed.\<close>

theorem fork_verification_decides:
  "verify_fork_manifest cr clock v (Key_object key) device expiry =
     Inr (case parse_signed_fork v of
            Inl _ \<Rightarrow> False
          | Inr s \<Rightarrow>
              device \<in> {None, Some [], Some (fm_targetDeviceId (sf_manifest s))} \<and>
              (expiry = Some False \<or> clock < timestamp_ms (fm_expiresAt (sf_manifest s))) \<and>
              ed_verify cr (canonicalize cr (JObj (fork_fields (sf_manifest s)))) key
                (b64_decode (sf_signature s)))"
  by (cases "parse_signed_fork v"; cases device) (auto simp: verify_fork_manifest_cases)

end
