(* ===== verification/Replication.thy ===== *)
theory Replication
  imports Protocol_Fields
begin

text \<open>
  The signed replication of conversation sources,
  \<^verbatim>\<open>packages/shared/src/conversation-source-replication.ts\<close>: the validators of its fields, the
  identity of a source component, the manifest of a segment and the manifest that closes a
  generation, the rewritten generation id and the bound on rewrite proofs.
\<close>

section \<open>Rewrites\<close>

text \<open>\<^verbatim>\<open>s.slice(a, b)\<close> for text of one-byte characters.\<close>

definition slice :: "nat \<Rightarrow> nat \<Rightarrow> string \<Rightarrow> string" where
  "slice a b s = take (b - a) (drop a s)"

text \<open>\<^verbatim>\<open>conversationSourceRewriteGenerationId\<close>\<close>

definition rewrite_generation_id :: "'k crypto \<Rightarrow> string \<Rightarrow> string \<Rightarrow> string" where
  "rewrite_generation_id cr parentGenerationId prefixDigest =
     (let hash = sha256_hex cr
        (''koed.conversation-source-rewrite/v1:'' @ parentGenerationId @ '':'' @ prefixDigest)
      in slice 0 8 hash @ ''-'' @ slice 8 12 hash @ ''-8'' @ slice 13 16 hash @ ''-a'' @
         slice 17 20 hash @ ''-'' @ slice 20 32 hash)"

text \<open>
  \<^verbatim>\<open>conversationSourceRewriteProofWithinLimit\<close>. The lengths are the numbers the iterable yields.
  Adding to a safe integer another one gives an integer below \<open>2 ^ 54\<close>, which the rounding of a
  double can move by one, but never below \<open>2 ^ 53\<close>: whether the sum is safe is decided exactly.
\<close>

definition max_segment_bytes :: int where
  "max_segment_bytes = 16 * 1024 * 1024"

definition max_proof_bytes :: int where
  "max_proof_bytes = 64 * 1024 * 1024"

fun proof_within_limit_from :: "int \<Rightarrow> int \<Rightarrow> js_number list \<Rightarrow> bool" where
  "proof_within_limit_from acc maximumBytes [] = True"
| "proof_within_limit_from acc maximumBytes (len # rest) =
     (case safe_integer 0 (JNum len) of
        None \<Rightarrow> False
      | Some n \<Rightarrow>
          (case max_safe_integer < acc + n \<or> maximumBytes < acc + n of
             True \<Rightarrow> False
           | False \<Rightarrow> proof_within_limit_from (acc + n) maximumBytes rest))"

definition rewrite_proof_within_limit :: "js_number list \<Rightarrow> int \<Rightarrow> bool" where
  "rewrite_proof_within_limit byteLengths maximumBytes =
     proof_within_limit_from 0 maximumBytes byteLengths"

section \<open>Field validators\<close>

definition replication_protocol :: string where
  "replication_protocol = ''koed.conversation-source-replication/v1''"

definition own_record :: "js_value \<Rightarrow> string \<Rightarrow> members result" where
  "own_record value label =
     (case value of
        JObj kvs \<Rightarrow> Inr kvs
      | _ \<Rightarrow> Inl (TypeError (label @ '' must be a plain object'')))"

definition require_exact_keys :: "members \<Rightarrow> string list \<Rightarrow> string \<Rightarrow> unit result" where
  "require_exact_keys value expectedKeys label =
     throw_if (keys_differ value expectedKeys)
       (TypeError (label @ '' has unknown or missing fields''))"

definition require_protocol :: "js_value \<Rightarrow> string result" where
  "require_protocol value =
     ebind (throw_if (value \<noteq> JStr replication_protocol)
              (TypeError ''Conversation source replication protocol is invalid'')) (\<lambda>_.
     Inr replication_protocol)"

definition require_uuid :: "js_value \<Rightarrow> string \<Rightarrow> string result" where
  "require_uuid value label =
     (case value of
        JStr s \<Rightarrow> ebind (throw_if (\<not> is_uuid s) (TypeError (label @ '' must be a UUID''))) (\<lambda>_. Inr s)
      | _ \<Rightarrow> Inl (TypeError (label @ '' must be a UUID'')))"

definition require_digest :: "js_value \<Rightarrow> string \<Rightarrow> string result" where
  "require_digest value label =
     (case value of
        JStr s \<Rightarrow>
          ebind (throw_if (\<not> is_sha256 s)
                   (TypeError (label @ '' must be a lowercase SHA-256 hex digest''))) (\<lambda>_. Inr s)
      | _ \<Rightarrow> Inl (TypeError (label @ '' must be a lowercase SHA-256 hex digest'')))"

definition require_nullable_digest :: "js_value \<Rightarrow> string \<Rightarrow> string option result" where
  "require_nullable_digest value label =
     (case value of
        JNull \<Rightarrow> Inr None
      | _ \<Rightarrow> ebind (require_digest value label) (\<lambda>d. Inr (Some d)))"

definition require_cursor :: "js_value \<Rightarrow> string \<Rightarrow> int result" where
  "require_cursor value label =
     (case safe_integer 0 value of
        None \<Rightarrow> Inl (TypeError (label @ '' must be a nonnegative safe integer''))
      | Some n \<Rightarrow> Inr n)"

definition require_iso_timestamp :: "js_value \<Rightarrow> string \<Rightarrow> string result" where
  "require_iso_timestamp value label =
     (let err = TypeError (label @ '' must be an RFC3339 UTC millisecond timestamp'') in
      case value of
        JStr s \<Rightarrow>
          ebind (throw_if (\<not> matches iso_pattern s \<or> date_parse s = None) err) (\<lambda>_.
          ebind (to_iso_string (date_parse s)) (\<lambda>iso.
          ebind (throw_if (iso \<noteq> s) err) (\<lambda>_. Inr s)))
      | _ \<Rightarrow> Inl err)"

definition printable_ascii :: "char \<Rightarrow> bool" where
  "printable_ascii c \<longleftrightarrow> CHR 0x20 \<le> c \<and> c \<le> CHR 0x7E"

definition ascii_metadata :: "string \<Rightarrow> bool" where
  "ascii_metadata s \<longleftrightarrow> js_length s \<le> 128 \<and> s \<noteq> [] \<and> list_all printable_ascii s"

definition require_ascii_metadata :: "js_value \<Rightarrow> string \<Rightarrow> string result" where
  "require_ascii_metadata value label =
     (case value of
        JStr s \<Rightarrow>
          ebind (throw_if (\<not> ascii_metadata s)
                   (TypeError (label @ '' must be 1-128 printable ASCII characters''))) (\<lambda>_. Inr s)
      | _ \<Rightarrow> Inl (TypeError (label @ '' must be 1-128 printable ASCII characters'')))"

text \<open>\<^verbatim>\<open>SOURCE_COMPONENT_ID_PATTERN\<close> is the expression of \<open>ai_client_identifier\<close>.\<close>

definition require_source_component_id :: "js_value \<Rightarrow> string \<Rightarrow> string result" where
  "require_source_component_id value label =
     (case value of
        JStr s \<Rightarrow>
          ebind (throw_if (\<not> ai_client_identifier s)
                   (TypeError (label @ '' sourceComponentId is invalid''))) (\<lambda>_. Inr s)
      | _ \<Rightarrow> Inl (TypeError (label @ '' sourceComponentId is invalid'')))"

text \<open>\<^verbatim>\<open>decodeBase64url\<close>; without an expected length any number of bytes is accepted.\<close>

definition decode_base64url :: "js_value \<Rightarrow> string \<Rightarrow> nat option \<Rightarrow> string result" where
  "decode_base64url value label expectedLength =
     (let err = TypeError (label @ '' must be canonical base64url'') in
      case value of
        JStr s \<Rightarrow>
          ebind (throw_if (\<not> list_all is_base64url_char s \<or> CHR ''='' \<in> set s) err) (\<lambda>_.
          let decoded = b64_decode s in
          ebind (throw_if (b64_encode decoded \<noteq> s \<or>
                           (case expectedLength of None \<Rightarrow> False | Some n \<Rightarrow> length decoded \<noteq> n))
                   err) (\<lambda>_.
          Inr decoded))
      | _ \<Rightarrow> Inl err)"

lemma own_record_iff: "own_record v label = Inr kvs \<longleftrightarrow> v = JObj kvs"
  by (cases v) (simp_all add: own_record_def)

lemma require_exact_keys_iff:
  "require_exact_keys kvs ks label = Inr u \<longleftrightarrow> mset (map fst kvs) = mset ks"
  by (simp add: require_exact_keys_def keys_differ_iff result_simps)

lemma require_protocol_iff:
  "require_protocol v = Inr p \<longleftrightarrow> v = JStr replication_protocol \<and> p = replication_protocol"
  by (auto simp: require_protocol_def result_simps)

interpretation require_uuid: field_codec require_uuid JStr is_uuid
  by unfold_locales (auto simp: require_uuid_def result_simps split: js_value.splits)

interpretation require_digest: field_codec require_digest JStr is_sha256
  by unfold_locales (auto simp: require_digest_def result_simps split: js_value.splits)

interpretation require_nullable_digest:
  field_codec require_nullable_digest js_null_or "if_present is_sha256"
proof unfold_locales
  fix v label a
  show "require_nullable_digest v label = Inr a \<longleftrightarrow> v = js_null_or a \<and> if_present is_sha256 a"
    by (cases v; cases a)
      (auto simp: require_nullable_digest_def result_simps require_digest.check_iff)
qed

interpretation require_cursor: field_codec require_cursor js_int "int_in 0"
  by unfold_locales
    (auto simp: require_cursor_def js_int_def int_in_def safe_integer_def
       split: js_value.splits js_number.splits option.splits)

interpretation require_iso_timestamp: field_codec require_iso_timestamp JStr canonical_timestamp
  by unfold_locales
    (auto simp: require_iso_timestamp_def canonical_timestamp_def result_simps to_iso_string_def Let_def
      split: js_value.splits option.splits)

interpretation require_ascii_metadata: field_codec require_ascii_metadata JStr ascii_metadata
  by unfold_locales (auto simp: require_ascii_metadata_def result_simps split: js_value.splits)

interpretation require_source_component_id:
  field_codec require_source_component_id JStr ai_client_identifier
  by unfold_locales
    (auto simp: require_source_component_id_def result_simps split: js_value.splits)

lemma equals_not_base64url: "list_all is_base64url_char s \<Longrightarrow> CHR ''='' \<notin> set s"
  by (auto simp: list_all_iff is_base64url_char_def is_upper_def is_lower_def is_digit_def
      less_eq_char_def)

lemma decode_base64url_iff:
  "decode_base64url v label n = Inr bs \<longleftrightarrow> v = JStr (b64_encode bs) \<and> if_present ((=) (length bs)) n"
  by (cases v; cases n)
    (auto simp: decode_base64url_def result_simps Let_def b64_decode_encode b64_encode_alphabet
      equals_not_base64url)

lemmas replication_checks =
  own_record_iff require_exact_keys_iff require_protocol_iff require_uuid.check_iff
  require_digest.check_iff require_nullable_digest.check_iff require_cursor.check_iff
  require_iso_timestamp.check_iff require_ascii_metadata.check_iff
  require_source_component_id.check_iff decode_base64url_iff

section \<open>The identity of a source component\<close>

datatype component_role = Primary | Auxiliary

datatype content_framing = Jsonl | Immutable_blob

definition component_role_text :: "component_role \<Rightarrow> string" where
  "component_role_text r = (case r of Primary \<Rightarrow> ''primary'' | Auxiliary \<Rightarrow> ''auxiliary'')"

definition content_framing_text :: "content_framing \<Rightarrow> string" where
  "content_framing_text f = (case f of Jsonl \<Rightarrow> ''jsonl'' | Immutable_blob \<Rightarrow> ''immutable_blob'')"

record component_identity =
  ci_id :: string
  ci_role :: component_role
  ci_parent :: "string option"
  ci_framing :: content_framing

text \<open>\<^verbatim>\<open>parseSourceComponentIdentity\<close>; the parent is null or another component's id.\<close>

definition parse_component_parent :: "js_value \<Rightarrow> string \<Rightarrow> string \<Rightarrow> string option result" where
  "parse_component_parent parent i label =
     (case parent of
        JNull \<Rightarrow> Inr None
      | JStr p \<Rightarrow>
          ebind (throw_if (\<not> ai_client_identifier p \<or> p = i)
                   (TypeError (label @ '' parentSourceComponentId is invalid''))) (\<lambda>_.
          Inr (Some p))
      | _ \<Rightarrow> Inl (TypeError (label @ '' parentSourceComponentId is invalid'')))"

lemma parse_component_parent_iff:
  "parse_component_parent v i label = Inr q \<longleftrightarrow>
     v = js_null_or q \<and> if_present (\<lambda>p. ai_client_identifier p \<and> p \<noteq> i) q"
  by (cases v; cases q) (auto simp: parse_component_parent_def result_simps)

definition parse_component_identity :: "members \<Rightarrow> string \<Rightarrow> component_identity result" where
  "parse_component_identity value label =
     ebind (throw_if (fld value ''sourceComponentSchemaVersion'' \<noteq> js_int 1)
              (TypeError (label @ '' component schema version is invalid''))) (\<lambda>_.
     ebind (require_source_component_id (fld value ''sourceComponentId'') label) (\<lambda>i.
     let role = fld value ''sourceComponentRole'' in
     ebind (throw_if (role \<noteq> JStr (component_role_text Primary) \<and>
                      role \<noteq> JStr (component_role_text Auxiliary))
              (TypeError (label @ '' sourceComponentRole is invalid''))) (\<lambda>_.
     let primary = (role = JStr (component_role_text Primary)) in
     ebind (parse_component_parent (fld value ''parentSourceComponentId'') i label) (\<lambda>parent.
     ebind (throw_if (primary \<and> parent \<noteq> None \<or> \<not> primary \<and> parent = None)
              (TypeError (label @ '' component relationship is invalid''))) (\<lambda>_.
     let framing = fld value ''contentFraming'' in
     ebind (throw_if (framing \<noteq> JStr (content_framing_text Jsonl) \<and>
                      framing \<noteq> JStr (content_framing_text Immutable_blob))
              (TypeError (label @ '' contentFraming is invalid''))) (\<lambda>_.
     Inr \<lparr> ci_id = i, ci_role = (if primary then Primary else Auxiliary), ci_parent = parent,
           ci_framing = (if framing = JStr (content_framing_text Jsonl) then Jsonl
                         else Immutable_blob) \<rparr>))))))"

text \<open>The members of a component, without and with the schema version.\<close>

definition component_members :: "component_identity \<Rightarrow> members" where
  "component_members c =
     [(''sourceComponentId'', JStr (ci_id c)),
      (''sourceComponentRole'', JStr (component_role_text (ci_role c))),
      (''parentSourceComponentId'', js_null_or (ci_parent c)),
      (''contentFraming'', JStr (content_framing_text (ci_framing c)))]"

definition component_fields :: "component_identity \<Rightarrow> members" where
  "component_fields c = (''sourceComponentSchemaVersion'', js_int 1) # component_members c"

definition component_wf :: "component_identity \<Rightarrow> bool" where
  "component_wf c \<longleftrightarrow>
     ai_client_identifier (ci_id c) \<and>
     (case ci_parent c of
        None \<Rightarrow> ci_role c = Primary
      | Some p \<Rightarrow> ci_role c = Auxiliary \<and> ai_client_identifier p \<and> p \<noteq> ci_id c)"

lemma component_role_text_inj [simp]: "component_role_text a = component_role_text b \<longleftrightarrow> a = b"
  by (simp add: component_role_text_def split: component_role.splits)

lemma content_framing_text_inj [simp]: "content_framing_text a = content_framing_text b \<longleftrightarrow> a = b"
  by (simp add: content_framing_text_def split: content_framing.splits)

lemma parse_component_identity_iff:
  "parse_component_identity kvs label = Inr c \<longleftrightarrow>
     component_wf c \<and> list_all (\<lambda>(k, v). fld kvs k = v) (component_fields c)"
proof
  assume "parse_component_identity kvs label = Inr c"
  then show "component_wf c \<and> list_all (\<lambda>(k, v). fld kvs k = v) (component_fields c)"
    unfolding parse_component_identity_def
    by (clarsimp simp: component_wf_def component_fields_def component_members_def result_simps
        Let_def replication_checks parse_component_parent_iff split: if_splits)
next
  assume "component_wf c \<and> list_all (\<lambda>(k, v). fld kvs k = v) (component_fields c)"
  then show "parse_component_identity kvs label = Inr c"
    by (cases c; cases "ci_role c"; cases "ci_parent c"; cases "ci_framing c")
      (simp_all add: parse_component_identity_def component_wf_def component_fields_def
        component_members_def result_simps Let_def replication_checks parse_component_parent_iff)
qed

section \<open>The closure of the prior generation\<close>

record prior_closure =
  pc_sourceGenerationId :: string
  pc_contentDigest :: string
  pc_closedAt :: string

definition prior_closure_fields :: "prior_closure \<Rightarrow> members" where
  "prior_closure_fields c =
     [(''sourceGenerationId'', JStr (pc_sourceGenerationId c)),
      (''contentDigest'', JStr (pc_contentDigest c)), (''closedAt'', JStr (pc_closedAt c))]"

definition prior_closure_value :: "prior_closure option \<Rightarrow> js_value" where
  "prior_closure_value c =
     (case c of None \<Rightarrow> JNull | Some p \<Rightarrow> JObj (prior_closure_fields p))"

definition prior_closure_wf :: "prior_closure \<Rightarrow> bool" where
  "prior_closure_wf c \<longleftrightarrow>
     is_uuid (pc_sourceGenerationId c) \<and> is_sha256 (pc_contentDigest c) \<and>
     canonical_timestamp (pc_closedAt c)"

definition parse_prior_closure :: "js_value \<Rightarrow> prior_closure option result" where
  "parse_prior_closure value =
     (case value of
        JNull \<Rightarrow> Inr None
      | _ \<Rightarrow>
        ebind (own_record value ''Prior generation closure'') (\<lambda>closure.
        ebind (require_exact_keys closure [''sourceGenerationId'', ''contentDigest'', ''closedAt'']
                 ''Prior generation closure'') (\<lambda>_.
        ebind (require_uuid (fld closure ''sourceGenerationId'')
                 ''Prior generation sourceGenerationId'') (\<lambda>g.
        ebind (require_digest (fld closure ''contentDigest'') ''Prior generation contentDigest'') (\<lambda>d.
        ebind (require_iso_timestamp (fld closure ''closedAt'') ''Prior generation closedAt'') (\<lambda>t.
        Inr (Some \<lparr> pc_sourceGenerationId = g, pc_contentDigest = d, pc_closedAt = t \<rparr>)))))))"

text \<open>\<^verbatim>\<open>closure?.sourceGenerationId === generation\<close>\<close>

definition closes_generation :: "prior_closure option \<Rightarrow> string \<Rightarrow> bool" where
  "closes_generation c generation =
     (case c of None \<Rightarrow> False | Some p \<Rightarrow> pc_sourceGenerationId p = generation)"

lemma prior_closure_same:
  "js_same v (JObj (prior_closure_fields c)) \<longleftrightarrow>
     (\<exists>kvs. v = JObj kvs \<and>
        mset (map fst kvs) = mset [''sourceGenerationId'', ''contentDigest'', ''closedAt''] \<and>
        fld kvs ''sourceGenerationId'' = JStr (pc_sourceGenerationId c) \<and>
        fld kvs ''contentDigest'' = JStr (pc_contentDigest c) \<and>
        fld kvs ''closedAt'' = JStr (pc_closedAt c))"
  unfolding prior_closure_fields_def by (subst js_same_obj) simp_all

lemma parse_prior_closure_iff:
  "parse_prior_closure v = Inr c \<longleftrightarrow> if_present prior_closure_wf c \<and> js_same v (prior_closure_value c)"
proof (cases "v = JNull")
  case True
  then show ?thesis
    by (cases c) (auto simp: parse_prior_closure_def prior_closure_value_def prior_closure_same)
next
  case False
  then have "parse_prior_closure v =
     ebind (own_record v ''Prior generation closure'') (\<lambda>closure.
     ebind (require_exact_keys closure [''sourceGenerationId'', ''contentDigest'', ''closedAt'']
              ''Prior generation closure'') (\<lambda>_.
     ebind (require_uuid (fld closure ''sourceGenerationId'')
              ''Prior generation sourceGenerationId'') (\<lambda>g.
     ebind (require_digest (fld closure ''contentDigest'') ''Prior generation contentDigest'') (\<lambda>d.
     ebind (require_iso_timestamp (fld closure ''closedAt'') ''Prior generation closedAt'') (\<lambda>t.
     Inr (Some \<lparr> pc_sourceGenerationId = g, pc_contentDigest = d, pc_closedAt = t \<rparr>))))))"
    by (cases v) (simp_all add: parse_prior_closure_def)
  then show ?thesis
    using False
    by (cases c; cases "the c")
      (auto simp: result_simps replication_checks prior_closure_value_def prior_closure_same
        prior_closure_wf_def)
qed

section \<open>The manifest of a segment\<close>

record replication_manifest =
  rm_component :: component_identity
  rm_logicalSourceId :: string
  rm_sourceGenerationId :: string
  rm_originKeyId :: string
  rm_segmentIndex :: int
  rm_startByteCursor :: int
  rm_endByteCursor :: int
  rm_startItemCursor :: int
  rm_endItemCursor :: int
  rm_previousContentDigest :: "string option"
  rm_plaintextDigest :: string
  rm_sourceFormat :: string
  rm_adapterVersion :: string
  rm_sourceCreatedAt :: string
  rm_priorGenerationClosure :: "prior_closure option"

definition replication_keys :: "string list" where
  "replication_keys =
     [''protocol'', ''sourceComponentSchemaVersion'', ''sourceComponentId'', ''sourceComponentRole'',
      ''parentSourceComponentId'', ''contentFraming'',
      ''logicalSourceId'', ''sourceGenerationId'', ''originKeyId'', ''segmentIndex'',
      ''startByteCursor'', ''endByteCursor'', ''startItemCursor'', ''endItemCursor'',
      ''previousContentDigest'', ''plaintextDigest'', ''sourceFormat'', ''adapterVersion'',
      ''sourceCreatedAt'', ''priorGenerationClosure'']"

text \<open>\<^verbatim>\<open>parseConversationSourceReplicationManifest\<close>\<close>

definition parse_replication_manifest :: "js_value \<Rightarrow> replication_manifest result" where
  "parse_replication_manifest value =
     ebind (own_record value ''Conversation source replication manifest'') (\<lambda>input.
     ebind (require_exact_keys input replication_keys ''Conversation source replication manifest'') (\<lambda>_.
     ebind (parse_component_identity input ''Manifest'') (\<lambda>component.
     ebind (require_protocol (fld input ''protocol'')) (\<lambda>_.
     ebind (require_uuid (fld input ''logicalSourceId'') ''Manifest logicalSourceId'') (\<lambda>logicalSourceId.
     ebind (require_uuid (fld input ''sourceGenerationId'') ''Manifest sourceGenerationId'') (\<lambda>sourceGenerationId.
     ebind (require_uuid (fld input ''originKeyId'') ''Manifest originKeyId'') (\<lambda>originKeyId.
     ebind (require_cursor (fld input ''segmentIndex'') ''Manifest segmentIndex'') (\<lambda>segmentIndex.
     ebind (require_cursor (fld input ''startByteCursor'') ''Manifest startByteCursor'') (\<lambda>startByteCursor.
     ebind (require_cursor (fld input ''endByteCursor'') ''Manifest endByteCursor'') (\<lambda>endByteCursor.
     ebind (require_cursor (fld input ''startItemCursor'') ''Manifest startItemCursor'') (\<lambda>startItemCursor.
     ebind (require_cursor (fld input ''endItemCursor'') ''Manifest endItemCursor'') (\<lambda>endItemCursor.
     ebind (require_nullable_digest (fld input ''previousContentDigest'') ''Manifest previousContentDigest'') (\<lambda>previousContentDigest.
     ebind (require_digest (fld input ''plaintextDigest'') ''Manifest plaintextDigest'') (\<lambda>plaintextDigest.
     ebind (require_ascii_metadata (fld input ''sourceFormat'') ''Manifest sourceFormat'') (\<lambda>sourceFormat.
     ebind (require_ascii_metadata (fld input ''adapterVersion'') ''Manifest adapterVersion'') (\<lambda>adapterVersion.
     ebind (require_iso_timestamp (fld input ''sourceCreatedAt'') ''Manifest sourceCreatedAt'') (\<lambda>sourceCreatedAt.
     ebind (parse_prior_closure (fld input ''priorGenerationClosure'')) (\<lambda>priorGenerationClosure.
     let parsed = \<lparr> rm_component = component,
       rm_logicalSourceId = logicalSourceId,
       rm_sourceGenerationId = sourceGenerationId,
       rm_originKeyId = originKeyId,
       rm_segmentIndex = segmentIndex,
       rm_startByteCursor = startByteCursor,
       rm_endByteCursor = endByteCursor,
       rm_startItemCursor = startItemCursor,
       rm_endItemCursor = endItemCursor,
       rm_previousContentDigest = previousContentDigest,
       rm_plaintextDigest = plaintextDigest,
       rm_sourceFormat = sourceFormat,
       rm_adapterVersion = adapterVersion,
       rm_sourceCreatedAt = sourceCreatedAt,
       rm_priorGenerationClosure = priorGenerationClosure \<rparr> in
     ebind (throw_if (rm_endByteCursor parsed < rm_startByteCursor parsed)
              (TypeError ''Manifest endByteCursor must not precede startByteCursor'')) (\<lambda>_.
     ebind (throw_if (rm_endItemCursor parsed < rm_startItemCursor parsed)
              (TypeError ''Manifest endItemCursor must not precede startItemCursor'')) (\<lambda>_.
     ebind (throw_if (rm_segmentIndex parsed = 0 \<and> rm_previousContentDigest parsed \<noteq> None)
              (TypeError ''Manifest segment zero must have a null previousContentDigest'')) (\<lambda>_.
     ebind (throw_if (0 < rm_segmentIndex parsed \<and> rm_previousContentDigest parsed = None)
              (TypeError ''Manifest nonzero segment must have a previousContentDigest'')) (\<lambda>_.
     ebind (throw_if (closes_generation (rm_priorGenerationClosure parsed) (rm_sourceGenerationId parsed))
              (TypeError ''Prior generation closure must name a different source generation'')) (\<lambda>_.
     Inr parsed)))))))))))))))))))))))"

definition replication_fields :: "replication_manifest \<Rightarrow> members" where
  "replication_fields m =
     component_fields (rm_component m) @
     [(''protocol'', JStr replication_protocol),
      (''logicalSourceId'', JStr (rm_logicalSourceId m)),
      (''sourceGenerationId'', JStr (rm_sourceGenerationId m)),
      (''originKeyId'', JStr (rm_originKeyId m)),
      (''segmentIndex'', js_int (rm_segmentIndex m)),
      (''startByteCursor'', js_int (rm_startByteCursor m)),
      (''endByteCursor'', js_int (rm_endByteCursor m)),
      (''startItemCursor'', js_int (rm_startItemCursor m)),
      (''endItemCursor'', js_int (rm_endItemCursor m)),
      (''previousContentDigest'', js_null_or (rm_previousContentDigest m)),
      (''plaintextDigest'', JStr (rm_plaintextDigest m)),
      (''sourceFormat'', JStr (rm_sourceFormat m)),
      (''adapterVersion'', JStr (rm_adapterVersion m)),
      (''sourceCreatedAt'', JStr (rm_sourceCreatedAt m)),
      (''priorGenerationClosure'', prior_closure_value (rm_priorGenerationClosure m))]"

definition replication_manifest_wf :: "replication_manifest \<Rightarrow> bool" where
  "replication_manifest_wf m \<longleftrightarrow>
     component_wf (rm_component m) \<and>
     is_uuid (rm_logicalSourceId m) \<and>
     is_uuid (rm_sourceGenerationId m) \<and>
     is_uuid (rm_originKeyId m) \<and>
     int_in 0 (rm_segmentIndex m) \<and>
     int_in 0 (rm_startByteCursor m) \<and>
     int_in 0 (rm_endByteCursor m) \<and>
     int_in 0 (rm_startItemCursor m) \<and>
     int_in 0 (rm_endItemCursor m) \<and>
     if_present is_sha256 (rm_previousContentDigest m) \<and>
     is_sha256 (rm_plaintextDigest m) \<and>
     ascii_metadata (rm_sourceFormat m) \<and>
     ascii_metadata (rm_adapterVersion m) \<and>
     canonical_timestamp (rm_sourceCreatedAt m) \<and>
     if_present prior_closure_wf (rm_priorGenerationClosure m) \<and>
     rm_startByteCursor m \<le> rm_endByteCursor m \<and>
     rm_startItemCursor m \<le> rm_endItemCursor m \<and>
     (rm_segmentIndex m = 0 \<longleftrightarrow> rm_previousContentDigest m = None) \<and>
     \<not> closes_generation (rm_priorGenerationClosure m) (rm_sourceGenerationId m)"

section \<open>The manifest that closes a generation\<close>

record closure_manifest =
  cm_component :: component_identity
  cm_logicalSourceId :: string
  cm_sourceGenerationId :: string
  cm_originKeyId :: string
  cm_segmentCount :: int
  cm_endByteCursor :: int
  cm_endItemCursor :: int
  cm_chainHeadDigest :: "string option"
  cm_sourceRootDigest :: string
  cm_sourceCreatedAt :: string
  cm_closedAt :: string
  cm_priorGenerationClosure :: "prior_closure option"

definition closure_keys :: "string list" where
  "closure_keys =
     [''protocol'', ''sourceComponentSchemaVersion'', ''sourceComponentId'', ''sourceComponentRole'',
      ''parentSourceComponentId'', ''contentFraming'',
      ''logicalSourceId'', ''sourceGenerationId'', ''originKeyId'', ''segmentCount'',
      ''endByteCursor'', ''endItemCursor'', ''chainHeadDigest'', ''sourceRootDigest'',
      ''sourceCreatedAt'', ''closedAt'', ''priorGenerationClosure'']"

text \<open>\<^verbatim>\<open>parseConversationSourceClosureManifest\<close>\<close>

definition parse_closure_manifest :: "js_value \<Rightarrow> closure_manifest result" where
  "parse_closure_manifest value =
     ebind (own_record value ''Conversation source closure manifest'') (\<lambda>input.
     ebind (require_exact_keys input closure_keys ''Conversation source closure manifest'') (\<lambda>_.
     ebind (parse_component_identity input ''Closure'') (\<lambda>component.
     ebind (require_protocol (fld input ''protocol'')) (\<lambda>_.
     ebind (require_uuid (fld input ''logicalSourceId'') ''Closure logicalSourceId'') (\<lambda>logicalSourceId.
     ebind (require_uuid (fld input ''sourceGenerationId'') ''Closure sourceGenerationId'') (\<lambda>sourceGenerationId.
     ebind (require_uuid (fld input ''originKeyId'') ''Closure originKeyId'') (\<lambda>originKeyId.
     ebind (require_cursor (fld input ''segmentCount'') ''Closure segmentCount'') (\<lambda>segmentCount.
     ebind (require_cursor (fld input ''endByteCursor'') ''Closure endByteCursor'') (\<lambda>endByteCursor.
     ebind (require_cursor (fld input ''endItemCursor'') ''Closure endItemCursor'') (\<lambda>endItemCursor.
     ebind (require_nullable_digest (fld input ''chainHeadDigest'') ''Closure chainHeadDigest'') (\<lambda>chainHeadDigest.
     ebind (require_digest (fld input ''sourceRootDigest'') ''Closure sourceRootDigest'') (\<lambda>sourceRootDigest.
     ebind (require_iso_timestamp (fld input ''sourceCreatedAt'') ''Closure sourceCreatedAt'') (\<lambda>sourceCreatedAt.
     ebind (require_iso_timestamp (fld input ''closedAt'') ''Closure closedAt'') (\<lambda>closedAt.
     ebind (parse_prior_closure (fld input ''priorGenerationClosure'')) (\<lambda>priorGenerationClosure.
     let parsed = \<lparr> cm_component = component,
       cm_logicalSourceId = logicalSourceId,
       cm_sourceGenerationId = sourceGenerationId,
       cm_originKeyId = originKeyId,
       cm_segmentCount = segmentCount,
       cm_endByteCursor = endByteCursor,
       cm_endItemCursor = endItemCursor,
       cm_chainHeadDigest = chainHeadDigest,
       cm_sourceRootDigest = sourceRootDigest,
       cm_sourceCreatedAt = sourceCreatedAt,
       cm_closedAt = closedAt,
       cm_priorGenerationClosure = priorGenerationClosure \<rparr> in
     ebind (throw_if (cm_segmentCount parsed = 0 \<and> cm_chainHeadDigest parsed \<noteq> None \<or>
                      0 < cm_segmentCount parsed \<and> cm_chainHeadDigest parsed = None)
              (TypeError ''Closure segment count and chain head digest are inconsistent'')) (\<lambda>_.
     ebind (throw_if (closes_generation (cm_priorGenerationClosure parsed) (cm_sourceGenerationId parsed))
              (TypeError ''Prior generation closure must name a different source generation'')) (\<lambda>_.
     ebind (throw_if (timestamp_ms (cm_closedAt parsed) < timestamp_ms (cm_sourceCreatedAt parsed))
              (TypeError ''Closure cannot predate source creation'')) (\<lambda>_.
     Inr parsed))))))))))))))))))"

definition closure_fields :: "closure_manifest \<Rightarrow> members" where
  "closure_fields m =
     component_fields (cm_component m) @
     [(''protocol'', JStr replication_protocol),
      (''logicalSourceId'', JStr (cm_logicalSourceId m)),
      (''sourceGenerationId'', JStr (cm_sourceGenerationId m)),
      (''originKeyId'', JStr (cm_originKeyId m)),
      (''segmentCount'', js_int (cm_segmentCount m)),
      (''endByteCursor'', js_int (cm_endByteCursor m)),
      (''endItemCursor'', js_int (cm_endItemCursor m)),
      (''chainHeadDigest'', js_null_or (cm_chainHeadDigest m)),
      (''sourceRootDigest'', JStr (cm_sourceRootDigest m)),
      (''sourceCreatedAt'', JStr (cm_sourceCreatedAt m)),
      (''closedAt'', JStr (cm_closedAt m)),
      (''priorGenerationClosure'', prior_closure_value (cm_priorGenerationClosure m))]"

definition closure_manifest_wf :: "closure_manifest \<Rightarrow> bool" where
  "closure_manifest_wf m \<longleftrightarrow>
     component_wf (cm_component m) \<and>
     is_uuid (cm_logicalSourceId m) \<and>
     is_uuid (cm_sourceGenerationId m) \<and>
     is_uuid (cm_originKeyId m) \<and>
     int_in 0 (cm_segmentCount m) \<and>
     int_in 0 (cm_endByteCursor m) \<and>
     int_in 0 (cm_endItemCursor m) \<and>
     if_present is_sha256 (cm_chainHeadDigest m) \<and>
     is_sha256 (cm_sourceRootDigest m) \<and>
     canonical_timestamp (cm_sourceCreatedAt m) \<and>
     canonical_timestamp (cm_closedAt m) \<and>
     if_present prior_closure_wf (cm_priorGenerationClosure m) \<and>
     (cm_segmentCount m = 0 \<longleftrightarrow> cm_chainHeadDigest m = None) \<and>
     \<not> closes_generation (cm_priorGenerationClosure m) (cm_sourceGenerationId m) \<and>
     timestamp_ms (cm_sourceCreatedAt m) \<le> timestamp_ms (cm_closedAt m)"

lemma replication_fields_distinct: "distinct (map fst (replication_fields m))"
  by (simp add: replication_fields_def component_fields_def component_members_def)

lemma replication_fields_keys: "mset (map fst (replication_fields m)) = mset replication_keys"
  by (simp add: replication_fields_def component_fields_def component_members_def replication_keys_def)

lemma parse_replication_manifest_accepts:
  "parse_replication_manifest (JObj kvs) = Inr m \<Longrightarrow>
     replication_manifest_wf m \<and> mset (map fst kvs) = mset (map fst (replication_fields m)) \<and>
     list_all (\<lambda>(k, v). js_same (fld kvs k) v) (replication_fields m)"
  unfolding parse_replication_manifest_def replication_manifest_wf_def replication_fields_keys
  by (clarsimp simp: Let_def result_simps replication_checks parse_component_identity_iff
      parse_prior_closure_iff replication_fields_def component_fields_def component_members_def)
    (auto simp: int_in_def)

lemma parse_replication_manifest_complete:
  "replication_manifest_wf m \<Longrightarrow> mset (map fst kvs) = mset (map fst (replication_fields m)) \<Longrightarrow>
     list_all (\<lambda>(k, v). js_same (fld kvs k) v) (replication_fields m) \<Longrightarrow>
     parse_replication_manifest (JObj kvs) = Inr m"
  unfolding parse_replication_manifest_def replication_manifest_wf_def replication_fields_keys
  by (cases m; cases "rm_priorGenerationClosure m"; cases "rm_previousContentDigest m")
    (simp_all add: linorder_not_less Let_def result_simps replication_checks parse_component_identity_iff
      parse_prior_closure_iff replication_fields_def component_fields_def component_members_def)

interpretation replication: object_codec parse_replication_manifest replication_fields replication_manifest_wf
proof (rule object_codecI)
  show "\<exists>kvs. v = JObj kvs" if "parse_replication_manifest v = Inr m" for v m
    using that by (auto simp: parse_replication_manifest_def result_simps own_record_iff)
qed (fact replication_fields_distinct parse_replication_manifest_accepts parse_replication_manifest_complete)+

lemma closure_fields_distinct: "distinct (map fst (closure_fields m))"
  by (simp add: closure_fields_def component_fields_def component_members_def)

lemma closure_fields_keys: "mset (map fst (closure_fields m)) = mset closure_keys"
  by (simp add: closure_fields_def component_fields_def component_members_def closure_keys_def)

lemma parse_closure_manifest_accepts:
  "parse_closure_manifest (JObj kvs) = Inr m \<Longrightarrow>
     closure_manifest_wf m \<and> mset (map fst kvs) = mset (map fst (closure_fields m)) \<and>
     list_all (\<lambda>(k, v). js_same (fld kvs k) v) (closure_fields m)"
  unfolding parse_closure_manifest_def closure_manifest_wf_def closure_fields_keys
  by (clarsimp simp: Let_def result_simps replication_checks parse_component_identity_iff
      parse_prior_closure_iff closure_fields_def component_fields_def component_members_def)
    (auto simp: int_in_def)

lemma parse_closure_manifest_complete:
  "closure_manifest_wf m \<Longrightarrow> mset (map fst kvs) = mset (map fst (closure_fields m)) \<Longrightarrow>
     list_all (\<lambda>(k, v). js_same (fld kvs k) v) (closure_fields m) \<Longrightarrow>
     parse_closure_manifest (JObj kvs) = Inr m"
  unfolding parse_closure_manifest_def closure_manifest_wf_def closure_fields_keys
  by (cases m; cases "cm_priorGenerationClosure m"; cases "cm_chainHeadDigest m")
    (simp_all add: linorder_not_less Let_def result_simps replication_checks parse_component_identity_iff
      parse_prior_closure_iff closure_fields_def component_fields_def component_members_def)

interpretation closure: object_codec parse_closure_manifest closure_fields closure_manifest_wf
proof (rule object_codecI)
  show "\<exists>kvs. v = JObj kvs" if "parse_closure_manifest v = Inr m" for v m
    using that by (auto simp: parse_closure_manifest_def result_simps own_record_iff)
qed (fact closure_fields_distinct parse_closure_manifest_accepts parse_closure_manifest_complete)+

end
