(* ===== verification/Replication_Set.thy ===== *)
theory Replication_Set
  imports Replication
begin

text \<open>
  The closure of a whole source set,
  \<^verbatim>\<open>packages/shared/src/conversation-source-replication.ts\<close>: the list of components, which must
  be a tree rooted at \<^verbatim>\<open>main\<close> and is checked by walking every component's ancestry, and the
  manifest that carries it with its digest.
\<close>

section \<open>Members\<close>

text \<open>A member has the identity of a component, without the schema version, and a digest.\<close>

record set_member =
  sm_component :: component_identity
  sm_digest :: string

abbreviation sm_id :: "set_member \<Rightarrow> string" where
  "sm_id m \<equiv> ci_id (sm_component m)"

abbreviation sm_parent :: "set_member \<Rightarrow> string option" where
  "sm_parent m \<equiv> ci_parent (sm_component m)"

definition set_member_fields :: "set_member \<Rightarrow> members" where
  "set_member_fields m =
     component_members (sm_component m) @ [(''artifactClosureDigest'', JStr (sm_digest m))]"

definition set_member_keys :: "string list" where
  "set_member_keys =
     [''sourceComponentId'', ''sourceComponentRole'', ''parentSourceComponentId'',
      ''contentFraming'', ''artifactClosureDigest'']"

definition set_member_wf :: "set_member \<Rightarrow> bool" where
  "set_member_wf m \<longleftrightarrow> component_wf (sm_component m) \<and> is_sha256 (sm_digest m)"

definition member_label :: "nat \<Rightarrow> string" where
  "member_label index = ''Source-set closure component '' @ decimal index"

text \<open>The body of \<^verbatim>\<open>value.map(...)\<close>; \<open>label\<close> is \<^verbatim>\<open>`Source-set closure component ${index}`\<close>.\<close>

definition parse_set_member :: "string \<Rightarrow> js_value \<Rightarrow> set_member result" where
  "parse_set_member label candidate =
     ebind (own_record candidate label) (\<lambda>member.
     ebind (require_exact_keys member set_member_keys label) (\<lambda>_.
     ebind (parse_component_identity ((''sourceComponentSchemaVersion'', js_int 1) # member) label)
       (\<lambda>identity.
     ebind (require_digest (fld member ''artifactClosureDigest'')
              (label @ '' artifactClosureDigest'')) (\<lambda>d.
     Inr \<lparr> sm_component = identity, sm_digest = d \<rparr>))))"

section \<open>The tree of components\<close>

text \<open>\<^verbatim>\<open>members.find(c => c.sourceComponentId === id)?.parentSourceComponentId ?? null\<close>\<close>

definition parent_of :: "set_member list \<Rightarrow> string \<Rightarrow> string option" where
  "parent_of ms i =
     (case find (\<lambda>c. sm_id c = i) ms of None \<Rightarrow> None | Some c \<Rightarrow> sm_parent c)"

lemma parent_of_known: "parent_of ms p = Some q \<Longrightarrow> p \<in> sm_id ` set ms"
  by (auto simp: parent_of_def find_Some_iff intro!: imageI nth_mem split: option.splits)

text \<open>The \<^verbatim>\<open>while\<close> loop over the ancestors: the visited ids, or the exception for a cycle.\<close>

function ancestry :: "set_member list \<Rightarrow> string list \<Rightarrow> string option \<Rightarrow> string list result" where
  "ancestry ms visited None = Inr visited"
| "ancestry ms visited (Some p) =
     (case p \<in> set visited of
        True \<Rightarrow> Inl (TypeError ''Source-set closure component ancestry is cyclic'')
      | False \<Rightarrow> ancestry ms (p # visited) (parent_of ms p))"
  by pat_completeness auto
termination
proof (relation "measure (\<lambda>(ms, visited, next').
    (case next' of None \<Rightarrow> 0 | Some p \<Rightarrow> Suc (card (sm_id ` set ms - set visited))))")
  fix ms :: "set_member list" and visited :: "string list" and p
  assume new: "(p \<in> set visited) = False"
  show "((ms, p # visited, parent_of ms p), (ms, visited, Some p)) \<in>
    measure (\<lambda>(ms, visited, next').
      (case next' of None \<Rightarrow> 0 | Some p \<Rightarrow> Suc (card (sm_id ` set ms - set visited))))"
  proof (cases "parent_of ms p")
    case (Some q)
    have "p \<in> sm_id ` set ms - set visited"
      using new parent_of_known[OF Some] by simp
    then have "card (sm_id ` set ms - set (p # visited)) < card (sm_id ` set ms - set visited)"
      by (intro psubset_card_mono) auto
    then show ?thesis using Some by simp
  qed simp
qed simp

text \<open>The body of the loop over the members.\<close>

definition check_ancestry :: "set_member list \<Rightarrow> set_member \<Rightarrow> unit result" where
  "check_ancestry ms member' =
     ebind (throw_if (case sm_parent member' of None \<Rightarrow> False | Some p \<Rightarrow> p \<notin> set (map sm_id ms))
              (TypeError ''Source-set closure component parent is not a member'')) (\<lambda>_.
     ebind (ancestry ms [sm_id member'] (sm_parent member')) (\<lambda>visited.
     throw_if (''main'' \<notin> set visited)
       (TypeError ''Source-set closure component is not rooted at main'')))"

definition parse_set_members :: "js_value \<Rightarrow> set_member list result" where
  "parse_set_members value =
     (case value of
        JArr vs \<Rightarrow>
          ebind (throw_if (vs = [] \<or> 256 < length vs)
                   (TypeError ''Source-set closure components are invalid'')) (\<lambda>_.
          ebind (emap (\<lambda>(index, v). parse_set_member (member_label index) v) (enumerate 0 vs))
            (\<lambda>ms.
          let ids = map sm_id ms in
          ebind (throw_if (list_ex (\<lambda>(i, s). i \<noteq> s) (zip ids (sort ids)) \<or> \<not> distinct ids)
                   (TypeError ''Source-set closure components must be unique and canonically ordered''))
            (\<lambda>_.
          let primaries = filter (\<lambda>m. ci_role (sm_component m) = Primary) ms in
          ebind (throw_if (length primaries \<noteq> 1 \<or> map sm_id (take 1 primaries) \<noteq> [''main''])
                   (TypeError ''Source-set closure must contain main as its sole primary component''))
            (\<lambda>_.
          ebind (emap (check_ancestry ms) ms) (\<lambda>_. Inr ms)))))
      | _ \<Rightarrow> Inl (TypeError ''Source-set closure components are invalid''))"

section \<open>What the walk decides\<close>

text \<open>\<open>at_depth ms i n\<close>: following \<open>n\<close> parents from \<open>i\<close> leads to \<^verbatim>\<open>main\<close>.\<close>

inductive at_depth :: "set_member list \<Rightarrow> string \<Rightarrow> nat \<Rightarrow> bool" for ms where
  root: "at_depth ms ''main'' 0"
| step: "parent_of ms i = Some p \<Longrightarrow> at_depth ms p n \<Longrightarrow> at_depth ms i (Suc n)"

inductive_cases at_depthE: "at_depth ms i n"

lemma at_depth_unique:
  assumes main: "parent_of ms ''main'' = None"
  shows "at_depth ms i n \<Longrightarrow> at_depth ms i k \<Longrightarrow> n = k"
proof (induction arbitrary: k rule: at_depth.induct)
  case root
  then show ?case
    by (rule at_depthE) (use main in auto)
next
  case (step i p n)
  from step.prems show ?case
  proof (rule at_depthE)
    fix q l
    assume "k = Suc l" "parent_of ms i = Some q" "at_depth ms q l"
    then show "Suc n = k" using step.hyps(1) step.IH by simp
  qed (use main step.hyps(1) in auto)
qed

text \<open>The walk from \<open>p\<close> returns when \<open>p\<close> is above everything visited, and then it has met
  \<^verbatim>\<open>main\<close>.\<close>

lemma ancestry_returns:
  assumes main: "parent_of ms ''main'' = None"
  shows "at_depth ms p n \<Longrightarrow> (\<forall>i \<in> set visited. \<exists>k > n. at_depth ms i k) \<Longrightarrow>
    \<exists>vs. ancestry ms visited (Some p) = Inr vs \<and> ''main'' \<in> set vs"
proof (induction arbitrary: visited rule: at_depth.induct)
  case root
  then have "''main'' \<notin> set visited"
    using at_depth_unique[OF main at_depth.root] by blast
  then show ?case using main by simp
next
  case (step i p n)
  have i: "at_depth ms i (Suc n)" by (rule at_depth.step) fact+
  have new: "i \<notin> set visited"
    using step.prems at_depth_unique[OF main i] by (auto)
  have "\<forall>j \<in> set (i # visited). \<exists>k > n. at_depth ms j k"
    using step.prems i by (auto intro: Suc_lessD)
  from step.IH[OF this] show ?case using new step.hyps(1) by simp
qed

text \<open>A walk that meets \<^verbatim>\<open>main\<close> without having started there has come from below it.\<close>

lemma ancestry_below:
  "ancestry ms visited next' = Inr vs \<Longrightarrow> ''main'' \<in> set vs \<Longrightarrow> ''main'' \<notin> set visited \<Longrightarrow>
    \<exists>p n. next' = Some p \<and> at_depth ms p n"
proof (induction ms visited next' rule: ancestry.induct)
  case (2 ms visited p)
  show ?case
  proof (cases "p = ''main''")
    case True
    then show ?thesis using at_depth.root by blast
  next
    case False
    then obtain q n where "parent_of ms p = Some q" "at_depth ms q n"
      using 2 by (auto split: bool.splits)
    then show ?thesis using at_depth.step by blast
  qed
qed simp

definition rooted_tree :: "set_member list \<Rightarrow> bool" where
  "rooted_tree ms \<longleftrightarrow> (\<forall>m \<in> set ms. \<exists>n. at_depth ms (sm_id m) n)"

lemma parent_of_member:
  assumes "distinct (map sm_id ms)" "m \<in> set ms"
  shows "parent_of ms (sm_id m) = sm_parent m"
proof -
  obtain c where c: "find (\<lambda>c. sm_id c = sm_id m) ms = Some c" "c \<in> set ms" "sm_id c = sm_id m"
    using assms(2)
    by (cases "find (\<lambda>c. sm_id c = sm_id m) ms") (auto simp: find_None_iff find_Some_iff)
  then have "c = m"
    using assms by (meson distinct_map inj_on_eq_iff)
  then show ?thesis using c by (simp add: parent_of_def)
qed

lemma check_ancestry_iff:
  assumes dist: "distinct (map sm_id ms)" and main: "parent_of ms ''main'' = None"
    and mem: "''main'' \<in> sm_id ` set ms" and m: "m \<in> set ms"
  shows "check_ancestry ms m = Inr () \<longleftrightarrow> (\<exists>n. at_depth ms (sm_id m) n)"
proof
  assume "check_ancestry ms m = Inr ()"
  then obtain vs where vs: "ancestry ms [sm_id m] (sm_parent m) = Inr vs" "''main'' \<in> set vs"
    by (auto simp: check_ancestry_def result_simps)
  show "\<exists>n. at_depth ms (sm_id m) n"
  proof (cases "sm_id m = ''main''")
    case False
    then obtain p n where "sm_parent m = Some p" "at_depth ms p n"
      using ancestry_below[OF vs] by auto
    then show ?thesis using parent_of_member[OF dist m] at_depth.step by metis
  qed (auto intro: at_depth.root)
next
  assume "\<exists>n. at_depth ms (sm_id m) n"
  then obtain n where n: "at_depth ms (sm_id m) n" ..
  show "check_ancestry ms m = Inr ()"
  proof (cases "sm_parent m")
    case None
    then have "sm_id m = ''main''"
      using n parent_of_member[OF dist m] by (auto elim: at_depthE)
    then show ?thesis using None by (simp add: check_ancestry_def)
  next
    case (Some p)
    then have par: "parent_of ms (sm_id m) = Some p"
      using parent_of_member[OF dist m] by simp
    then have "sm_id m \<noteq> ''main''" using main by auto
    then obtain k where k: "n = Suc k" "at_depth ms p k"
      using n par by (auto elim: at_depthE)
    have "p \<in> sm_id ` set ms"
      using k(2) mem parent_of_known[of ms p] by (auto elim: at_depthE)
    moreover have "\<exists>vs. ancestry ms [sm_id m] (Some p) = Inr vs \<and> ''main'' \<in> set vs"
      using n k by (intro ancestry_returns[OF main k(2)]) auto
    ultimately show ?thesis
      using Some by (auto simp: check_ancestry_def result_simps)
  qed
qed

lemma emap_unit_iff: "emap f xs = Inr us \<longleftrightarrow> us = replicate (length xs) () \<and> (\<forall>x \<in> set xs. f x = Inr ())"
  by (induction xs arbitrary: us) (auto simp: result_simps)

section \<open>The accepted lists\<close>

lemma set_member_fields_keys:
  "distinct (map fst (set_member_fields m))" "mset (map fst (set_member_fields m)) = mset set_member_keys"
  by (simp_all add: set_member_fields_def component_members_def set_member_keys_def)

interpretation set_member: object_codec "parse_set_member label" set_member_fields set_member_wf for label
proof (rule object_codecI)
  show "\<exists>kvs. v = JObj kvs" if "parse_set_member label v = Inr m" for v m
    using that by (auto simp: parse_set_member_def result_simps own_record_iff)
next
  fix kvs m
  assume "parse_set_member label (JObj kvs) = Inr m"
  then show "set_member_wf m \<and> mset (map fst kvs) = mset (map fst (set_member_fields m)) \<and>
      list_all (\<lambda>(k, v). js_same (fld kvs k) v) (set_member_fields m)"
    unfolding set_member_fields_keys(2)
    by (clarsimp simp: parse_set_member_def result_simps replication_checks fld_Cons
        parse_component_identity_iff set_member_wf_def set_member_fields_def component_fields_def
        component_members_def)
next
  fix kvs m
  assume "set_member_wf m" "mset (map fst kvs) = mset (map fst (set_member_fields m))"
    "list_all (\<lambda>(k, v). js_same (fld kvs k) v) (set_member_fields m)"
  then show "parse_set_member label (JObj kvs) = Inr m"
    unfolding set_member_fields_keys(2)
    by (cases m) (simp add: parse_set_member_def result_simps replication_checks fld_Cons
        parse_component_identity_iff set_member_wf_def set_member_fields_def component_fields_def
        component_members_def)
qed (fact set_member_fields_keys(1))

definition set_members_value :: "set_member list \<Rightarrow> js_value" where
  "set_members_value ms = JArr (map (\<lambda>m. JObj (set_member_fields m)) ms)"

definition set_members_wf :: "set_member list \<Rightarrow> bool" where
  "set_members_wf ms \<longleftrightarrow>
     ms \<noteq> [] \<and> length ms \<le> 256 \<and> list_all set_member_wf ms \<and>
     sorted_wrt (<) (map sm_id ms) \<and>
     map sm_id (filter (\<lambda>m. ci_role (sm_component m) = Primary) ms) = [''main''] \<and>
     rooted_tree ms"

lemma emap_enumerate:
  assumes "\<And>i v m. f (i, v) = Inr m \<longleftrightarrow> P v m"
  shows "emap f (enumerate k vs) = Inr ms \<longleftrightarrow> list_all2 P vs ms"
  by (simp add: emap_eq_Inr list_all2_conv_all_nth nth_enumerate_eq assms)

lemma members_parsed_iff:
  "emap (\<lambda>(index, v). parse_set_member (member_label index) v) (enumerate 0 vs) = Inr ms \<longleftrightarrow>
     list_all set_member_wf ms \<and> js_same (JArr vs) (set_members_value ms)"
proof -
  have "emap (\<lambda>(index, v). parse_set_member (member_label index) v) (enumerate 0 vs) = Inr ms \<longleftrightarrow>
      list_all2 (\<lambda>v m. set_member_wf m \<and> js_same v (JObj (set_member_fields m))) vs ms"
    by (rule emap_enumerate) (simp add: set_member.parse_iff)
  also have "\<dots> \<longleftrightarrow> list_all set_member_wf ms \<and> js_same (JArr vs) (set_members_value ms)"
    by (auto simp: set_members_value_def js_same_arr list_all2_conv_all_nth list_all_length)
  finally show ?thesis .
qed

lemma canonical_order_iff:
  "\<not> (list_ex (\<lambda>(i, s). i \<noteq> s) (zip ids (sort ids)) \<or> \<not> distinct ids) \<longleftrightarrow>
     sorted_wrt (<) (ids :: string list)"
proof -
  have "list_ex (\<lambda>(i, s). i \<noteq> s) (zip ids (sort ids)) \<longleftrightarrow> ids \<noteq> sort ids"
    using arrays_differ_iff[of ids "sort ids", unfolded arrays_differ_def] by simp
  moreover have "ids = sort ids \<longleftrightarrow> sorted ids"
    by (metis sorted_sort sorted_sort_id)
  ultimately show ?thesis by (auto simp: strict_sorted_iff)
qed

lemma sole_primary_iff:
  "\<not> (length ps \<noteq> 1 \<or> map f (take 1 ps) \<noteq> [x]) \<longleftrightarrow> map f ps = [x]"
  by (cases ps) auto

text \<open>In such a list \<^verbatim>\<open>main\<close> is a member without a parent.\<close>

lemma primary_main:
  assumes "list_all set_member_wf ms" "distinct (map sm_id ms)"
    and "map sm_id (filter (\<lambda>m. ci_role (sm_component m) = Primary) ms) = [''main'']"
  shows "''main'' \<in> sm_id ` set ms" "parent_of ms ''main'' = None"
proof -
  obtain c where f: "filter (\<lambda>m. ci_role (sm_component m) = Primary) ms = [c]" "sm_id c = ''main''"
    using assms(3) by auto
  then have "c \<in> set (filter (\<lambda>m. ci_role (sm_component m) = Primary) ms)" by simp
  then have c: "c \<in> set ms" "ci_role (sm_component c) = Primary" "sm_id c = ''main''"
    using f(2) by simp_all
  then show "''main'' \<in> sm_id ` set ms" by force
  have "set_member_wf c" using assms(1) c(1) by (auto simp: list_all_iff)
  then have "sm_parent c = None"
    using c(2) by (auto simp: set_member_wf_def component_wf_def split: option.splits)
  then show "parent_of ms ''main'' = None"
    using parent_of_member[OF assms(2) c(1)] c(3) by simp
qed

lemma parse_set_members_iff:
  "parse_set_members v = Inr ms \<longleftrightarrow> set_members_wf ms \<and> js_same v (set_members_value ms)"
proof (cases "\<exists>vs. v = JArr vs")
  case False
  then have "parse_set_members v \<noteq> Inr ms"
    by (auto simp: parse_set_members_def split: js_value.splits)
  moreover have "\<not> js_same v (set_members_value ms)"
    using False by (auto simp: set_members_value_def js_same_arr)
  ultimately show ?thesis by blast
next
  case True
  then obtain vs where v: "v = JArr vs" ..
  have "length vs = length ms" if "js_same (JArr vs) (set_members_value ms)"
    using that by (auto simp: set_members_value_def js_same_arr dest: list_all2_lengthD)
  then have len: "js_same (JArr vs) (set_members_value ms) \<Longrightarrow>
      (vs \<noteq> []) = (ms \<noteq> []) \<and> (length vs \<le> 256) = (length ms \<le> 256)"
    by auto
  have walk: "(\<exists>us. emap (check_ancestry ms) ms = Inr us) \<longleftrightarrow> rooted_tree ms"
    if "list_all set_member_wf ms" "sorted_wrt (<) (map sm_id ms)"
      "map sm_id (filter (\<lambda>m. ci_role (sm_component m) = Primary) ms) = [''main'']"
    using check_ancestry_iff[OF _ primary_main(2,1)[OF that(1) _ that(3)]] that(2)
    by (auto simp: emap_unit_iff rooted_tree_def strict_sorted_iff)
  have regroup: "(v \<and> l \<and> (A \<and> J) \<and> B \<and> C \<and> X) = ((m \<and> k \<and> A \<and> B \<and> C \<and> R) \<and> J)"
    if "A \<Longrightarrow> B \<Longrightarrow> C \<Longrightarrow> X = R" "J \<Longrightarrow> v = m \<and> l = k" for A B C J X R v m l k
    using that by blast
  have "parse_set_members v = Inr ms \<longleftrightarrow>
      vs \<noteq> [] \<and> length vs \<le> 256 \<and>
      emap (\<lambda>(index, v). parse_set_member (member_label index) v) (enumerate 0 vs) = Inr ms \<and>
      sorted_wrt (<) (map sm_id ms) \<and>
      map sm_id (filter (\<lambda>m. ci_role (sm_component m) = Primary) ms) = [''main''] \<and>
      (\<exists>us. emap (check_ancestry ms) ms = Inr us)"
    unfolding v parse_set_members_def Let_def js_value.case ebind_eq_Inr throw_if_eq_Inr
      canonical_order_iff sole_primary_iff
    by auto
  also have "\<dots> \<longleftrightarrow> set_members_wf ms \<and> js_same v (set_members_value ms)"
    unfolding members_parsed_iff set_members_wf_def v by (rule regroup[OF walk len])
  finally show ?thesis .
qed

end
