(* ===== verification/Replication_Keys.thy ===== *)
theory Replication_Keys
  imports Replication_Set
begin

text \<open>
  Keys, signatures and acceptance of replicated conversation sources,
  \<^verbatim>\<open>packages/shared/src/conversation-source-replication.ts\<close>: signing, parsing and verifying the
  three kinds of signed manifests, the registration of an origin key with its lifecycle, the
  acceptance of a segment under a registration, the segment envelope and the digests that name
  operations and scopes.

  The three kinds are signed alike; \<open>signed_codec\<close> is the contract they share.
\<close>

section \<open>Digests of manifests\<close>

definition canonical_replication_manifest :: "'k crypto \<Rightarrow> js_value \<Rightarrow> string result" where
  "canonical_replication_manifest cr v =
     ebind (parse_replication_manifest v) (\<lambda>m. Inr (canonicalize cr (JObj (replication_fields m))))"

definition replication_manifest_digest :: "'k crypto \<Rightarrow> js_value \<Rightarrow> string result" where
  "replication_manifest_digest cr v =
     ebind (canonical_replication_manifest cr v) (\<lambda>text. Inr (sha256_hex cr text))"

definition canonical_closure_manifest :: "'k crypto \<Rightarrow> js_value \<Rightarrow> string result" where
  "canonical_closure_manifest cr v =
     ebind (parse_closure_manifest v) (\<lambda>m. Inr (canonicalize cr (JObj (closure_fields m))))"

definition source_root_digest :: "'k crypto \<Rightarrow> js_value list \<Rightarrow> string result" where
  "source_root_digest cr contentDigests =
     ebind (emap (\<lambda>(index, d). require_digest d (''Source content digest '' @ decimal index))
              (enumerate 0 contentDigests)) (\<lambda>parsed.
     Inr (sha256_hex cr (canonicalize cr (JArr (map JStr parsed)))))"

definition component_set_digest :: "'k crypto \<Rightarrow> js_value \<Rightarrow> string result" where
  "component_set_digest cr components =
     ebind (parse_set_members components) (\<lambda>ms.
     Inr (sha256_hex cr (canonicalize cr (set_members_value ms))))"

section \<open>The manifest of a source-set closure\<close>

record set_closure =
  sc_logicalSourceId :: string
  sc_sourceGenerationId :: string
  sc_originKeyId :: string
  sc_components :: "set_member list"
  sc_componentSetDigest :: string
  sc_closedAt :: string

definition set_closure_keys :: "string list" where
  "set_closure_keys =
     [''protocol'', ''sourceSetClosureVersion'', ''sourceComponentSchemaVersion'',
      ''logicalSourceId'', ''sourceGenerationId'', ''signingComponentId'', ''originKeyId'',
      ''components'', ''componentSetDigest'', ''closedAt'']"

definition parse_set_closure :: "'k crypto \<Rightarrow> js_value \<Rightarrow> set_closure result" where
  "parse_set_closure cr value =
     ebind (own_record value ''Conversation source-set closure manifest'') (\<lambda>input.
     ebind (require_exact_keys input set_closure_keys ''Conversation source-set closure manifest'')
       (\<lambda>_.
     ebind (throw_if (fld input ''sourceSetClosureVersion'' \<noteq> js_int 1 \<or>
                      fld input ''sourceComponentSchemaVersion'' \<noteq> js_int 1)
              (TypeError ''Conversation source-set closure version is invalid'')) (\<lambda>_.
     ebind (parse_set_members (fld input ''components'')) (\<lambda>components.
     ebind (require_digest (fld input ''componentSetDigest'')
              ''Source-set closure componentSetDigest'') (\<lambda>componentSetDigest.
     ebind (component_set_digest cr (set_members_value components)) (\<lambda>d.
     ebind (throw_if (componentSetDigest \<noteq> d)
              (TypeError ''Source-set closure component digest is invalid'')) (\<lambda>_.
     ebind (throw_if (fld input ''signingComponentId'' \<noteq> JStr ''main'')
              (TypeError ''Source-set closure signing component is invalid'')) (\<lambda>_.
     ebind (require_protocol (fld input ''protocol'')) (\<lambda>_.
     ebind (require_uuid (fld input ''logicalSourceId'') ''Source-set closure logicalSourceId'')
       (\<lambda>logicalSourceId.
     ebind (require_uuid (fld input ''sourceGenerationId'') ''Source-set closure sourceGenerationId'')
       (\<lambda>sourceGenerationId.
     ebind (require_uuid (fld input ''originKeyId'') ''Source-set closure originKeyId'') (\<lambda>originKeyId.
     ebind (require_iso_timestamp (fld input ''closedAt'') ''Source-set closure closedAt'') (\<lambda>closedAt.
     Inr \<lparr> sc_logicalSourceId = logicalSourceId, sc_sourceGenerationId = sourceGenerationId,
           sc_originKeyId = originKeyId, sc_components = components,
           sc_componentSetDigest = componentSetDigest, sc_closedAt = closedAt \<rparr>)))))))))))))"

definition set_closure_fields :: "set_closure \<Rightarrow> members" where
  "set_closure_fields m =
     [(''protocol'', JStr replication_protocol), (''sourceSetClosureVersion'', js_int 1),
      (''sourceComponentSchemaVersion'', js_int 1),
      (''logicalSourceId'', JStr (sc_logicalSourceId m)),
      (''sourceGenerationId'', JStr (sc_sourceGenerationId m)),
      (''signingComponentId'', JStr ''main''), (''originKeyId'', JStr (sc_originKeyId m)),
      (''components'', set_members_value (sc_components m)),
      (''componentSetDigest'', JStr (sc_componentSetDigest m)),
      (''closedAt'', JStr (sc_closedAt m))]"

definition set_closure_wf :: "'k crypto \<Rightarrow> set_closure \<Rightarrow> bool" where
  "set_closure_wf cr m \<longleftrightarrow>
     is_uuid (sc_logicalSourceId m) \<and> is_uuid (sc_sourceGenerationId m) \<and>
     is_uuid (sc_originKeyId m) \<and> set_members_wf (sc_components m) \<and>
     is_sha256 (sc_componentSetDigest m) \<and>
     sc_componentSetDigest m = sha256_hex cr (canonicalize cr (set_members_value (sc_components m))) \<and>
     canonical_timestamp (sc_closedAt m)"

lemma set_closure_fields_keys:
  "distinct (map fst (set_closure_fields m))"
  "mset (map fst (set_closure_fields m)) = mset set_closure_keys"
  by (simp_all add: set_closure_fields_def set_closure_keys_def)

lemma component_set_digest_value:
  "set_members_wf ms \<Longrightarrow>
   component_set_digest cr (set_members_value ms) = Inr (sha256_hex cr (canonicalize cr (set_members_value ms)))"
  using parse_set_members_iff[of "set_members_value ms" ms] by (simp add: component_set_digest_def)

interpretation set_closure: object_codec "parse_set_closure cr" set_closure_fields "set_closure_wf cr" for cr
proof (rule object_codecI)
  show "\<exists>kvs. v = JObj kvs" if "parse_set_closure cr v = Inr m" for v m
    using that by (auto simp: parse_set_closure_def result_simps own_record_iff)
next
  fix kvs m
  assume "parse_set_closure cr (JObj kvs) = Inr m"
  then show "set_closure_wf cr m \<and> mset (map fst kvs) = mset (map fst (set_closure_fields m)) \<and>
      list_all (\<lambda>(k, v). js_same (fld kvs k) v) (set_closure_fields m)"
    unfolding set_closure_fields_keys(2) parse_set_closure_def
    by (clarsimp simp: result_simps replication_checks parse_set_members_iff
        component_set_digest_value set_closure_wf_def set_closure_fields_def)
next
  fix kvs m
  assume "set_closure_wf cr m" "mset (map fst kvs) = mset (map fst (set_closure_fields m))"
    "list_all (\<lambda>(k, v). js_same (fld kvs k) v) (set_closure_fields m)"
  then show "parse_set_closure cr (JObj kvs) = Inr m"
    unfolding set_closure_fields_keys(2) parse_set_closure_def
    by (cases m) (clarsimp simp: result_simps replication_checks parse_set_members_iff
        component_set_digest_value set_closure_wf_def set_closure_fields_def)
qed (fact set_closure_fields_keys(1))

definition canonical_set_closure :: "'k crypto \<Rightarrow> js_value \<Rightarrow> string result" where
  "canonical_set_closure cr v =
     ebind (parse_set_closure cr v) (\<lambda>m. Inr (canonicalize cr (JObj (set_closure_fields m))))"

section \<open>Signed manifests\<close>

record 'm signed =
  sg_manifest :: 'm
  sg_signature :: string

definition signed_fields :: "('m \<Rightarrow> members) \<Rightarrow> 'm signed \<Rightarrow> members" where
  "signed_fields flds s =
     [(''manifest'', JObj (flds (sg_manifest s))), (''signature'', JStr (sg_signature s))]"

definition assert_ed25519_key :: "'k crypto \<Rightarrow> 'k \<Rightarrow> string \<Rightarrow> unit result" where
  "assert_ed25519_key cr key expectedType =
     throw_if (key_type cr key \<noteq> expectedType \<or> key_algorithm cr key \<noteq> ''ed25519'')
       (TypeError (''Expected an Ed25519 '' @ expectedType @ '' key''))"

text \<open>\<^verbatim>\<open>importConversationSourceReplicationPublicKey\<close>, and the key argument of the verifiers.\<close>

definition import_source_public_key :: "'k crypto \<Rightarrow> js_value \<Rightarrow> 'k result" where
  "import_source_public_key cr publicKey =
     ebind (decode_base64url publicKey ''Ed25519 public key'' (Some 32)) (\<lambda>raw. ed_public_key cr raw)"

definition source_key :: "'k crypto \<Rightarrow> 'k key_input \<Rightarrow> 'k result" where
  "source_key cr publicKey =
     ebind (case publicKey of
              Key_text t \<Rightarrow> import_source_public_key cr (JStr t) | Key_object k \<Rightarrow> Inr k) (\<lambda>key.
     ebind (assert_ed25519_key cr key ''public'') (\<lambda>_. Inr key))"

text \<open>\<^verbatim>\<open>exportConversationSourceReplicationPublicKey\<close>; \<open>jwk\<close> is what \<^verbatim>\<open>publicKey.export\<close> gives.\<close>

definition export_source_public_key :: "'k crypto \<Rightarrow> 'k \<Rightarrow> members \<Rightarrow> string result" where
  "export_source_public_key cr publicKey jwk =
     ebind (assert_ed25519_key cr publicKey ''public'') (\<lambda>_.
     ebind (throw_if (fld jwk ''kty'' \<noteq> JStr ''OKP'' \<or> fld jwk ''crv'' \<noteq> JStr ''Ed25519'' \<or>
                      (case fld jwk ''x'' of JStr _ \<Rightarrow> False | _ \<Rightarrow> True))
              (TypeError ''Ed25519 public key export is invalid'')) (\<lambda>_.
     ebind (decode_base64url (fld jwk ''x'') ''Ed25519 public key'' (Some 32)) (\<lambda>_.
     Inr (js_string (fld jwk ''x'')))))"

text \<open>Segments: \<^verbatim>\<open>sign\<close>-, \<^verbatim>\<open>parseSigned\<close>- and \<^verbatim>\<open>verifyConversationSourceReplicationManifest\<close>.\<close>

definition sign_replication_manifest ::
  "'k crypto \<Rightarrow> js_value \<Rightarrow> 'k \<Rightarrow> replication_manifest signed result" where
  "sign_replication_manifest cr manifest privateKey =
     ebind (assert_ed25519_key cr privateKey ''private'') (\<lambda>_.
     ebind (parse_replication_manifest manifest) (\<lambda>m.
     Inr \<lparr> sg_manifest = m,
           sg_signature =
             b64_encode (ed_sign cr (canonicalize cr (JObj (replication_fields m))) privateKey) \<rparr>))"

definition parse_signed_replication_manifest :: "js_value \<Rightarrow> replication_manifest signed result" where
  "parse_signed_replication_manifest value =
     ebind (own_record value ''Signed conversation source replication manifest'') (\<lambda>signed.
     ebind (require_exact_keys signed [''manifest'', ''signature'']
              ''Signed conversation source replication manifest'') (\<lambda>_.
     ebind (decode_base64url (fld signed ''signature'') ''Origin signature'' (Some 64)) (\<lambda>_.
     ebind (parse_replication_manifest (fld signed ''manifest'')) (\<lambda>m.
     Inr \<lparr> sg_manifest = m, sg_signature = js_string (fld signed ''signature'') \<rparr>))))"

definition verify_replication_signature ::
  "'k crypto \<Rightarrow> js_value \<Rightarrow> 'k key_input \<Rightarrow> bool result" where
  "verify_replication_signature cr signedManifest publicKey =
     ebind (parse_signed_replication_manifest signedManifest) (\<lambda>parsed.
     ebind (source_key cr publicKey) (\<lambda>key.
     ebind (decode_base64url (JStr (sg_signature parsed)) ''Origin signature'' (Some 64)) (\<lambda>sig.
     Inr (ed_verify cr (canonicalize cr (JObj (replication_fields (sg_manifest parsed)))) key sig))))"

text \<open>Closures of a generation.\<close>

definition sign_closure_manifest ::
  "'k crypto \<Rightarrow> js_value \<Rightarrow> 'k \<Rightarrow> closure_manifest signed result" where
  "sign_closure_manifest cr manifest privateKey =
     ebind (assert_ed25519_key cr privateKey ''private'') (\<lambda>_.
     ebind (parse_closure_manifest manifest) (\<lambda>m.
     Inr \<lparr> sg_manifest = m,
           sg_signature =
             b64_encode (ed_sign cr (canonicalize cr (JObj (closure_fields m))) privateKey) \<rparr>))"

definition parse_signed_closure_manifest :: "js_value \<Rightarrow> closure_manifest signed result" where
  "parse_signed_closure_manifest value =
     ebind (own_record value ''Signed conversation source closure'') (\<lambda>signed.
     ebind (require_exact_keys signed [''manifest'', ''signature'']
              ''Signed conversation source closure'') (\<lambda>_.
     ebind (decode_base64url (fld signed ''signature'') ''Closure origin signature'' (Some 64)) (\<lambda>_.
     ebind (parse_closure_manifest (fld signed ''manifest'')) (\<lambda>m.
     Inr \<lparr> sg_manifest = m, sg_signature = js_string (fld signed ''signature'') \<rparr>))))"

definition verify_closure_signature ::
  "'k crypto \<Rightarrow> js_value \<Rightarrow> 'k key_input \<Rightarrow> bool result" where
  "verify_closure_signature cr signedClosure publicKey =
     ebind (parse_signed_closure_manifest signedClosure) (\<lambda>parsed.
     ebind (source_key cr publicKey) (\<lambda>key.
     ebind (decode_base64url (JStr (sg_signature parsed)) ''Closure origin signature'' (Some 64))
       (\<lambda>sig.
     Inr (ed_verify cr (canonicalize cr (JObj (closure_fields (sg_manifest parsed)))) key sig))))"

text \<open>Closures of a source set; the signature is decoded and encoded again.\<close>

definition sign_set_closure :: "'k crypto \<Rightarrow> js_value \<Rightarrow> 'k \<Rightarrow> set_closure signed result" where
  "sign_set_closure cr manifest privateKey =
     ebind (assert_ed25519_key cr privateKey ''private'') (\<lambda>_.
     ebind (parse_set_closure cr manifest) (\<lambda>m.
     Inr \<lparr> sg_manifest = m,
           sg_signature =
             b64_encode (ed_sign cr (canonicalize cr (JObj (set_closure_fields m))) privateKey) \<rparr>))"

definition parse_signed_set_closure :: "'k crypto \<Rightarrow> js_value \<Rightarrow> set_closure signed result" where
  "parse_signed_set_closure cr value =
     ebind (own_record value ''Signed conversation source-set closure'') (\<lambda>signed.
     ebind (require_exact_keys signed [''manifest'', ''signature'']
              ''Signed conversation source-set closure'') (\<lambda>_.
     ebind (parse_set_closure cr (fld signed ''manifest'')) (\<lambda>m.
     ebind (decode_base64url (fld signed ''signature'') ''Source-set closure signature'' (Some 64))
       (\<lambda>sig.
     Inr \<lparr> sg_manifest = m, sg_signature = b64_encode sig \<rparr>))))"

definition verify_set_closure_signature ::
  "'k crypto \<Rightarrow> js_value \<Rightarrow> 'k key_input \<Rightarrow> bool result" where
  "verify_set_closure_signature cr signedClosure publicKey =
     ebind (parse_signed_set_closure cr signedClosure) (\<lambda>parsed.
     ebind (source_key cr publicKey) (\<lambda>key.
     ebind (decode_base64url (JStr (sg_signature parsed)) ''Source-set closure signature'' (Some 64))
       (\<lambda>sig.
     Inr (ed_verify cr (canonicalize cr (JObj (set_closure_fields (sg_manifest parsed)))) key sig))))"

section \<open>The contract of a signed manifest\<close>

locale signed_codec = object_codec parse fields ok
  for parse :: "js_value \<Rightarrow> 'm result" and fields :: "'m \<Rightarrow> members" and ok :: "'m \<Rightarrow> bool" +
  fixes cr :: "'k crypto"
    and sign :: "js_value \<Rightarrow> 'k \<Rightarrow> 'm signed result"
    and parse_signed :: "js_value \<Rightarrow> 'm signed result"
    and verify :: "js_value \<Rightarrow> 'k key_input \<Rightarrow> bool result"
  assumes parse_signed_iff:
      "parse_signed v = Inr s \<longleftrightarrow>
         ok (sg_manifest s) \<and> canonical_base64url 64 (sg_signature s) \<and>
         js_same v (JObj (signed_fields fields s))"
    and sign_iff:
      "sign v key = Inr s \<longleftrightarrow>
         assert_ed25519_key cr key ''private'' = Inr () \<and> parse v = Inr (sg_manifest s) \<and>
         sg_signature s = b64_encode (ed_sign cr (canonicalize cr (JObj (fields (sg_manifest s)))) key)"
    and verify_iff:
      "verify v k = Inr b \<longleftrightarrow>
         (\<exists>s key. parse_signed v = Inr s \<and> source_key cr k = Inr key \<and>
            b = ed_verify cr (canonicalize cr (JObj (fields (sg_manifest s)))) key
                  (b64_decode (sg_signature s)))"
begin

text \<open>What was signed parses, as itself, and verifies under the public key.\<close>

lemma sign_parses:
  assumes "sign v key = Inr s" "length (ed_sign cr (canonicalize cr (JObj (fields (sg_manifest s)))) key) = 64"
  shows "parse_signed (JObj (signed_fields fields s)) = Inr s"
  using assms sound by (auto simp: parse_signed_iff sign_iff canonical_base64url_iff)

lemma sign_then_verify:
  assumes "parse v = Inr m" "key_pair cr private public"
  shows "\<exists>s. sign v private = Inr s \<and> sg_manifest s = m \<and>
    verify (JObj (signed_fields fields s)) (Key_object public) = Inr True"
proof -
  let ?s = "\<lparr> sg_manifest = m,
    sg_signature = b64_encode (ed_sign cr (canonicalize cr (JObj (fields m))) private) \<rparr>"
  have s: "sign v private = Inr ?s"
    using assms by (simp add: sign_iff assert_ed25519_key_def key_pair_def)
  then have "parse_signed (JObj (signed_fields fields ?s)) = Inr ?s"
    by (rule sign_parses) (rule key_pairD(1)[OF assms(2)])
  then have "verify (JObj (signed_fields fields ?s)) (Key_object public) = Inr True"
    using assms by (auto simp: verify_iff source_key_def assert_ed25519_key_def result_simps
        key_pair_def b64_decode_encode)
  then show ?thesis using s by auto
qed

text \<open>A verified value carries a well-formed manifest that the key signed.\<close>

lemma verified:
  assumes "verify v k = Inr True"
  obtains s key where "parse_signed v = Inr s" "ok (sg_manifest s)" "source_key cr k = Inr key"
    "ed_verify cr (canonicalize cr (JObj (fields (sg_manifest s)))) key (b64_decode (sg_signature s))"
  using assms by (auto simp: verify_iff parse_signed_iff)

text \<open>The order of members does not matter to the verdict.\<close>

lemma verify_same: "js_same v w \<Longrightarrow> verify v k = Inr b \<longleftrightarrow> verify w k = Inr b"
  by (simp add: verify_iff parse_signed_iff js_same_def)

end

lemma signed_same:
  "js_same v (JObj (signed_fields flds s)) \<longleftrightarrow>
     (\<exists>kvs. v = JObj kvs \<and> mset (map fst kvs) = mset [''manifest'', ''signature''] \<and>
        js_same (fld kvs ''manifest'') (JObj (flds (sg_manifest s))) \<and>
        fld kvs ''signature'' = JStr (sg_signature s))"
  unfolding signed_fields_def by (subst js_same_obj) simp_all

lemma canonical_base64url_encode_iff:
  "canonical_base64url 64 s \<longleftrightarrow> (\<exists>bs. s = b64_encode bs \<and> length bs = 64)"
  by (auto simp: canonical_base64url_iff)

lemma signature_decodes:
  "canonical_base64url 64 s \<Longrightarrow> decode_base64url (JStr s) label (Some 64) = Inr (b64_decode s)"
  by (auto simp: decode_base64url_iff canonical_base64url_encode_iff b64_decode_encode)

lemmas signed_simps =
  result_simps replication_checks signed_same canonical_base64url_encode_iff b64_decode_encode

interpretation signed_replication: signed_codec parse_replication_manifest replication_fields
  replication_manifest_wf cr "sign_replication_manifest cr" parse_signed_replication_manifest
  "verify_replication_signature cr" for cr
proof unfold_locales
  fix v s
  show parse_signed: "parse_signed_replication_manifest v = Inr s \<longleftrightarrow>
    replication_manifest_wf (sg_manifest s) \<and> canonical_base64url 64 (sg_signature s) \<and>
    js_same v (JObj (signed_fields replication_fields s))" for v s
    by (cases s) (auto simp: parse_signed_replication_manifest_def signed_simps replication.parse_iff)
  show "verify_replication_signature cr v k = Inr b \<longleftrightarrow>
    (\<exists>s key. parse_signed_replication_manifest v = Inr s \<and> source_key cr k = Inr key \<and>
       b = ed_verify cr (canonicalize cr (JObj (replication_fields (sg_manifest s)))) key
             (b64_decode (sg_signature s)))" for k b
    using signature_decodes parse_signed
    by (cases "parse_signed_replication_manifest v") (auto simp: verify_replication_signature_def result_simps)
  show "sign_replication_manifest cr v key = Inr s \<longleftrightarrow>
    assert_ed25519_key cr key ''private'' = Inr () \<and>
    parse_replication_manifest v = Inr (sg_manifest s) \<and>
    sg_signature s =
      b64_encode (ed_sign cr (canonicalize cr (JObj (replication_fields (sg_manifest s)))) key)" for key
    by (cases s) (auto simp: sign_replication_manifest_def result_simps)
qed

interpretation signed_closure: signed_codec parse_closure_manifest closure_fields
  closure_manifest_wf cr "sign_closure_manifest cr" parse_signed_closure_manifest
  "verify_closure_signature cr" for cr
proof unfold_locales
  fix v s
  show parse_signed: "parse_signed_closure_manifest v = Inr s \<longleftrightarrow>
    closure_manifest_wf (sg_manifest s) \<and> canonical_base64url 64 (sg_signature s) \<and>
    js_same v (JObj (signed_fields closure_fields s))" for v s
    by (cases s) (auto simp: parse_signed_closure_manifest_def signed_simps closure.parse_iff)
  show "verify_closure_signature cr v k = Inr b \<longleftrightarrow>
    (\<exists>s key. parse_signed_closure_manifest v = Inr s \<and> source_key cr k = Inr key \<and>
       b = ed_verify cr (canonicalize cr (JObj (closure_fields (sg_manifest s)))) key
             (b64_decode (sg_signature s)))" for k b
    using signature_decodes parse_signed
    by (cases "parse_signed_closure_manifest v") (auto simp: verify_closure_signature_def result_simps)
  show "sign_closure_manifest cr v key = Inr s \<longleftrightarrow>
    assert_ed25519_key cr key ''private'' = Inr () \<and>
    parse_closure_manifest v = Inr (sg_manifest s) \<and>
    sg_signature s =
      b64_encode (ed_sign cr (canonicalize cr (JObj (closure_fields (sg_manifest s)))) key)" for key
    by (cases s) (auto simp: sign_closure_manifest_def result_simps)
qed

interpretation signed_set_closure: signed_codec "parse_set_closure cr" set_closure_fields
  "set_closure_wf cr" cr "sign_set_closure cr" "parse_signed_set_closure cr"
  "verify_set_closure_signature cr" for cr
proof unfold_locales
  fix v s
  show parse_signed: "parse_signed_set_closure cr v = Inr s \<longleftrightarrow>
    set_closure_wf cr (sg_manifest s) \<and> canonical_base64url 64 (sg_signature s) \<and>
    js_same v (JObj (signed_fields set_closure_fields s))" for v s
    by (cases s) (auto simp: parse_signed_set_closure_def signed_simps set_closure.parse_iff)
  show "verify_set_closure_signature cr v k = Inr b \<longleftrightarrow>
    (\<exists>s key. parse_signed_set_closure cr v = Inr s \<and> source_key cr k = Inr key \<and>
       b = ed_verify cr (canonicalize cr (JObj (set_closure_fields (sg_manifest s)))) key
             (b64_decode (sg_signature s)))" for k b
    using signature_decodes parse_signed
    by (cases "parse_signed_set_closure cr v") (auto simp: verify_set_closure_signature_def result_simps)
  show "sign_set_closure cr v key = Inr s \<longleftrightarrow>
    assert_ed25519_key cr key ''private'' = Inr () \<and>
    parse_set_closure cr v = Inr (sg_manifest s) \<and>
    sg_signature s =
      b64_encode (ed_sign cr (canonicalize cr (JObj (set_closure_fields (sg_manifest s)))) key)" for key
    by (cases s) (auto simp: sign_set_closure_def result_simps)
qed

end
