(* ===== verification/Replication_Accept.thy ===== *)
theory Replication_Accept
  imports Replication_Keys
begin

text \<open>
  The registration of an origin key and what it lets in,
  \<^verbatim>\<open>packages/shared/src/conversation-source-replication.ts\<close>: the pin of a generation's key, its
  lifecycle, the acceptance of a signed segment, the envelope that carries a segment with its
  bytes, and the digests that identify operations, downloads and discovery requests.
\<close>

section \<open>The pin of an origin key\<close>

record origin_key_pin =
  ok_logicalSourceId :: string
  ok_sourceGenerationId :: string
  ok_originKeyId :: string
  ok_publicKey :: string
  ok_sourceCreatedAt :: string
  ok_priorGenerationClosure :: "prior_closure option"

definition parse_pin_fields :: "'k crypto \<Rightarrow> members \<Rightarrow> origin_key_pin result" where
  "parse_pin_fields cr pin =
     ebind (case fld pin ''publicKey'' of
              JStr t \<Rightarrow> Inr t
            | _ \<Rightarrow> Inl (TypeError ''Origin public key must be canonical base64url'')) (\<lambda>publicKey.
     ebind (import_source_public_key cr (JStr publicKey)) (\<lambda>_.
     ebind (require_protocol (fld pin ''protocol'')) (\<lambda>_.
     ebind (require_uuid (fld pin ''logicalSourceId'') ''Origin key pin logicalSourceId'') (\<lambda>l.
     ebind (require_uuid (fld pin ''sourceGenerationId'') ''Origin key pin sourceGenerationId'') (\<lambda>g.
     ebind (require_uuid (fld pin ''originKeyId'') ''Origin key pin originKeyId'') (\<lambda>k.
     ebind (require_iso_timestamp (fld pin ''sourceCreatedAt'') ''Origin key pin sourceCreatedAt'') (\<lambda>t.
     ebind (parse_prior_closure (fld pin ''priorGenerationClosure'')) (\<lambda>c.
     Inr \<lparr> ok_logicalSourceId = l, ok_sourceGenerationId = g, ok_originKeyId = k,
           ok_publicKey = publicKey, ok_sourceCreatedAt = t,
           ok_priorGenerationClosure = c \<rparr>))))))))"

definition pin_keys :: "string list" where
  "pin_keys =
     [''protocol'', ''logicalSourceId'', ''sourceGenerationId'', ''originKeyId'', ''publicKey'',
      ''sourceCreatedAt'', ''priorGenerationClosure'']"

definition parse_origin_key_pin :: "'k crypto \<Rightarrow> js_value \<Rightarrow> origin_key_pin result" where
  "parse_origin_key_pin cr value =
     ebind (own_record value ''Origin key pin'') (\<lambda>pin.
     ebind (require_exact_keys pin pin_keys ''Origin key pin'') (\<lambda>_.
     parse_pin_fields cr pin))"

definition pin_fields :: "origin_key_pin \<Rightarrow> members" where
  "pin_fields p =
     [(''protocol'', JStr replication_protocol), (''logicalSourceId'', JStr (ok_logicalSourceId p)),
      (''sourceGenerationId'', JStr (ok_sourceGenerationId p)),
      (''originKeyId'', JStr (ok_originKeyId p)), (''publicKey'', JStr (ok_publicKey p)),
      (''sourceCreatedAt'', JStr (ok_sourceCreatedAt p)),
      (''priorGenerationClosure'', prior_closure_value (ok_priorGenerationClosure p))]"

definition public_key_ok :: "'k crypto \<Rightarrow> string \<Rightarrow> bool" where
  "public_key_ok cr t \<longleftrightarrow>
     canonical_base64url 32 t \<and> (case ed_public_key cr (b64_decode t) of Inl _ \<Rightarrow> False | Inr _ \<Rightarrow> True)"

definition pin_wf :: "'k crypto \<Rightarrow> origin_key_pin \<Rightarrow> bool" where
  "pin_wf cr p \<longleftrightarrow>
     is_uuid (ok_logicalSourceId p) \<and> is_uuid (ok_sourceGenerationId p) \<and>
     is_uuid (ok_originKeyId p) \<and> public_key_ok cr (ok_publicKey p) \<and>
     canonical_timestamp (ok_sourceCreatedAt p) \<and>
     if_present prior_closure_wf (ok_priorGenerationClosure p)"

lemma import_source_public_key_iff:
  "(\<exists>k. import_source_public_key cr (JStr t) = Inr k) \<longleftrightarrow> public_key_ok cr t"
  by (auto simp: import_source_public_key_def result_simps decode_base64url_iff public_key_ok_def
      canonical_base64url_iff b64_decode_encode split: sum.splits)

lemma pin_key_iff:
  "(case v of JStr t \<Rightarrow> Inr t | _ \<Rightarrow> Inl e) = Inr t \<longleftrightarrow> v = JStr t"
  by (cases v) auto

lemma parse_pin_fields_iff:
  "parse_pin_fields cr kvs = Inr p \<longleftrightarrow>
     pin_wf cr p \<and> list_all (\<lambda>(k, v). js_same (fld kvs k) v) (pin_fields p)"
proof
  assume "parse_pin_fields cr kvs = Inr p"
  then show "pin_wf cr p \<and> list_all (\<lambda>(k, v). js_same (fld kvs k) v) (pin_fields p)"
    unfolding parse_pin_fields_def ebind_eq_Inr pin_key_iff
    using import_source_public_key_iff[of cr "ok_publicKey p"]
    by (clarsimp simp: result_simps replication_checks parse_prior_closure_iff pin_wf_def pin_fields_def)
next
  assume R: "pin_wf cr p \<and> list_all (\<lambda>(k, v). js_same (fld kvs k) v) (pin_fields p)"
  then obtain k where "import_source_public_key cr (JStr (ok_publicKey p)) = Inr k"
    using import_source_public_key_iff[of cr "ok_publicKey p"] by (auto simp: pin_wf_def)
  then show "parse_pin_fields cr kvs = Inr p"
    using R by (cases p)
      (clarsimp simp: parse_pin_fields_def result_simps replication_checks parse_prior_closure_iff
        pin_wf_def pin_fields_def)
qed

lemma pin_fields_keys:
  "distinct (map fst (pin_fields p))" "mset (map fst (pin_fields p)) = mset pin_keys"
  by (simp_all add: pin_fields_def pin_keys_def)

interpretation origin_key_pin: object_codec "parse_origin_key_pin cr" pin_fields "pin_wf cr" for cr
proof (rule object_codecI)
  show "\<exists>kvs. v = JObj kvs" if "parse_origin_key_pin cr v = Inr m" for v m
    using that by (auto simp: parse_origin_key_pin_def result_simps own_record_iff)
qed (auto simp only: pin_fields_keys parse_origin_key_pin_def own_record_iff ebind_Inr ebind_eq_Inr
      sum.inject js_value.inject require_exact_keys_iff parse_pin_fields_iff ex_simps simp_thms)

section \<open>The registration\<close>

datatype lifecycle = Active | Lost | Revoked

definition lifecycle_text :: "lifecycle \<Rightarrow> string" where
  "lifecycle_text l = (case l of Active \<Rightarrow> ''active'' | Lost \<Rightarrow> ''lost'' | Revoked \<Rightarrow> ''revoked'')"

definition lifecycles :: "lifecycle list" where
  "lifecycles = [Active, Lost, Revoked]"

record registration =
  rg_pin :: origin_key_pin
  rg_lifecycle :: lifecycle

definition registration_keys :: "string list" where
  "registration_keys =
     [''protocol'', ''logicalSourceId'', ''sourceGenerationId'', ''originKeyId'', ''publicKey'',
      ''lifecycle'', ''sourceCreatedAt'', ''priorGenerationClosure'']"

definition parse_lifecycle :: "js_value \<Rightarrow> lifecycle result" where
  "parse_lifecycle v =
     (case find (\<lambda>l. v = JStr (lifecycle_text l)) lifecycles of
        None \<Rightarrow> Inl (TypeError ''Origin key lifecycle is invalid'')
      | Some l \<Rightarrow> Inr l)"

definition parse_registration :: "'k crypto \<Rightarrow> js_value \<Rightarrow> registration result" where
  "parse_registration cr value =
     ebind (own_record value ''Origin key registration'') (\<lambda>input.
     ebind (require_exact_keys input registration_keys ''Origin key registration'') (\<lambda>_.
     ebind (parse_lifecycle (fld input ''lifecycle'')) (\<lambda>l.
     ebind (parse_pin_fields cr input) (\<lambda>pin.
     Inr \<lparr> rg_pin = pin, rg_lifecycle = l \<rparr>))))"

definition registration_fields :: "registration \<Rightarrow> members" where
  "registration_fields r =
     pin_fields (rg_pin r) @ [(''lifecycle'', JStr (lifecycle_text (rg_lifecycle r)))]"

definition registration_wf :: "'k crypto \<Rightarrow> registration \<Rightarrow> bool" where
  "registration_wf cr r \<longleftrightarrow> pin_wf cr (rg_pin r)"

lemma lifecycle_text_inj [simp]: "lifecycle_text a = lifecycle_text b \<longleftrightarrow> a = b"
  by (cases a; cases b) (simp_all add: lifecycle_text_def)

lemma parse_lifecycle_iff: "parse_lifecycle v = Inr l \<longleftrightarrow> v = JStr (lifecycle_text l)"
  by (cases l) (auto simp: parse_lifecycle_def lifecycles_def split: if_splits)

lemma registration_fields_keys:
  "distinct (map fst (registration_fields r))"
  "mset (map fst (registration_fields r)) = mset registration_keys"
  by (simp_all add: registration_fields_def pin_fields_def registration_keys_def)

interpretation registration: object_codec "parse_registration cr" registration_fields "registration_wf cr" for cr
proof (rule object_codecI)
  show "\<exists>kvs. v = JObj kvs" if "parse_registration cr v = Inr m" for v m
    using that by (auto simp: parse_registration_def result_simps own_record_iff)
next
  fix kvs m
  assume "parse_registration cr (JObj kvs) = Inr m"
  then show "registration_wf cr m \<and> mset (map fst kvs) = mset (map fst (registration_fields m)) \<and>
      list_all (\<lambda>(k, v). js_same (fld kvs k) v) (registration_fields m)"
    unfolding registration_fields_keys(2)
    by (auto simp: parse_registration_def result_simps replication_checks parse_lifecycle_iff
        parse_pin_fields_iff registration_wf_def registration_fields_def)
next
  fix kvs m
  assume "registration_wf cr m" "mset (map fst kvs) = mset (map fst (registration_fields m))"
    "list_all (\<lambda>(k, v). js_same (fld kvs k) v) (registration_fields m)"
  then show "parse_registration cr (JObj kvs) = Inr m"
    unfolding registration_fields_keys(2)
    by (cases m) (simp add: parse_registration_def result_simps replication_checks
        parse_lifecycle_iff parse_pin_fields_iff registration_wf_def registration_fields_def)
qed (fact registration_fields_keys(1))

definition registration_digest :: "'k crypto \<Rightarrow> js_value \<Rightarrow> string result" where
  "registration_digest cr v =
     ebind (parse_registration cr v) (\<lambda>r.
     Inr (sha256_hex cr (canonicalize cr (JObj (registration_fields r)))))"

section \<open>Acceptance\<close>

text \<open>\<^verbatim>\<open>closuresEqual\<close> compares the canonical texts.\<close>

definition closures_equal :: "'k crypto \<Rightarrow> prior_closure option \<Rightarrow> prior_closure option \<Rightarrow> bool" where
  "closures_equal cr left right =
     (canonicalize cr (prior_closure_value left) = canonicalize cr (prior_closure_value right))"

definition assert_accepts_manifest :: "'k crypto \<Rightarrow> js_value \<Rightarrow> js_value \<Rightarrow> unit result" where
  "assert_accepts_manifest cr registration manifest =
     ebind (parse_registration cr registration) (\<lambda>pinned.
     ebind (parse_replication_manifest manifest) (\<lambda>m.
     ebind (throw_if (rg_lifecycle pinned \<noteq> Active)
              (PlainError (''Origin key lifecycle '' @ lifecycle_text (rg_lifecycle pinned) @
                 '' rejects new segment acceptance''))) (\<lambda>_.
     throw_if (ok_logicalSourceId (rg_pin pinned) \<noteq> rm_logicalSourceId m \<or>
               ok_sourceGenerationId (rg_pin pinned) \<noteq> rm_sourceGenerationId m \<or>
               ok_originKeyId (rg_pin pinned) \<noteq> rm_originKeyId m \<or>
               ok_sourceCreatedAt (rg_pin pinned) \<noteq> rm_sourceCreatedAt m \<or>
               \<not> closures_equal cr (ok_priorGenerationClosure (rg_pin pinned))
                   (rm_priorGenerationClosure m))
       (PlainError ''Manifest does not match the pinned origin key registration''))))"

text \<open>\<^verbatim>\<open>verifyConversationSourceReplicationManifestForAcceptance\<close>\<close>

definition verify_for_acceptance :: "'k crypto \<Rightarrow> js_value \<Rightarrow> js_value \<Rightarrow> bool result" where
  "verify_for_acceptance cr signedManifest registration =
     ebind (parse_signed_replication_manifest signedManifest) (\<lambda>parsedSigned.
     ebind (parse_registration cr registration) (\<lambda>pinned.
     ebind (assert_accepts_manifest cr (JObj (registration_fields pinned))
              (JObj (replication_fields (sg_manifest parsedSigned)))) (\<lambda>_.
     verify_replication_signature cr (JObj (signed_fields replication_fields parsedSigned))
       (Key_text (ok_publicKey (rg_pin pinned))))))"

text \<open>What a registration pins of the manifests it lets in.\<close>

definition pinned_to :: "'k crypto \<Rightarrow> registration \<Rightarrow> replication_manifest \<Rightarrow> bool" where
  "pinned_to cr r m \<longleftrightarrow>
     rg_lifecycle r = Active \<and>
     ok_logicalSourceId (rg_pin r) = rm_logicalSourceId m \<and>
     ok_sourceGenerationId (rg_pin r) = rm_sourceGenerationId m \<and>
     ok_originKeyId (rg_pin r) = rm_originKeyId m \<and>
     ok_sourceCreatedAt (rg_pin r) = rm_sourceCreatedAt m \<and>
     closures_equal cr (ok_priorGenerationClosure (rg_pin r)) (rm_priorGenerationClosure m)"

lemma assert_accepts_manifest_iff:
  "assert_accepts_manifest cr rv mv = Inr () \<longleftrightarrow>
     (\<exists>r m. parse_registration cr rv = Inr r \<and> parse_replication_manifest mv = Inr m \<and> pinned_to cr r m)"
  by (auto simp: assert_accepts_manifest_def result_simps pinned_to_def)

lemma verify_for_acceptance_iff:
  "verify_for_acceptance cr sv rv = Inr b \<longleftrightarrow>
     (\<exists>s r key. parse_signed_replication_manifest sv = Inr s \<and> parse_registration cr rv = Inr r \<and>
        pinned_to cr r (sg_manifest s) \<and> source_key cr (Key_text (ok_publicKey (rg_pin r))) = Inr key \<and>
        b = ed_verify cr (canonicalize cr (JObj (replication_fields (sg_manifest s)))) key
              (b64_decode (sg_signature s)))"
proof -
  have 1: "parse_registration cr (JObj (registration_fields r)) = Inr r"
    if "parse_registration cr rv = Inr r" for r
    using that by (rule registration.reparse)
  have 2: "parse_replication_manifest (JObj (replication_fields (sg_manifest s))) = Inr (sg_manifest s)"
    "parse_signed_replication_manifest (JObj (signed_fields replication_fields s)) = Inr s"
    if "parse_signed_replication_manifest sv = Inr s" for s
    using that by (simp_all add: signed_replication.parse_signed_iff replication.parse_fields)
  show ?thesis
    unfolding verify_for_acceptance_def ebind_eq_Inr
    using 1 2 by (auto simp: assert_accepts_manifest_iff signed_replication.verify_iff)
qed

section \<open>The segment envelope\<close>

definition plaintext_digest :: "'k crypto \<Rightarrow> string \<Rightarrow> string" where
  "plaintext_digest cr plaintext = sha256_hex cr plaintext"

record segment_envelope =
  se_signedManifest :: "replication_manifest signed"
  se_plaintextBytes :: string

definition parse_segment_envelope :: "'k crypto \<Rightarrow> js_value \<Rightarrow> segment_envelope result" where
  "parse_segment_envelope cr value =
     ebind (own_record value ''Conversation source replication segment envelope'') (\<lambda>envelope.
     ebind (require_exact_keys envelope [''signedManifest'', ''plaintextBytes'']
              ''Conversation source replication segment envelope'') (\<lambda>_.
     ebind (parse_signed_replication_manifest (fld envelope ''signedManifest'')) (\<lambda>signedManifest.
     ebind (decode_base64url (fld envelope ''plaintextBytes'') ''Segment plaintextBytes'' None)
       (\<lambda>plaintextBytes.
     ebind (throw_if (plaintext_digest cr plaintextBytes \<noteq> rm_plaintextDigest (sg_manifest signedManifest))
              (PlainError ''Segment plaintext digest does not match its manifest'')) (\<lambda>_.
     Inr \<lparr> se_signedManifest = signedManifest,
           se_plaintextBytes = js_string (fld envelope ''plaintextBytes'') \<rparr>)))))"

definition envelope_fields :: "segment_envelope \<Rightarrow> members" where
  "envelope_fields e =
     [(''signedManifest'', JObj (signed_fields replication_fields (se_signedManifest e))),
      (''plaintextBytes'', JStr (se_plaintextBytes e))]"

definition envelope_wf :: "'k crypto \<Rightarrow> segment_envelope \<Rightarrow> bool" where
  "envelope_wf cr e \<longleftrightarrow>
     replication_manifest_wf (sg_manifest (se_signedManifest e)) \<and>
     canonical_base64url 64 (sg_signature (se_signedManifest e)) \<and>
     b64_encode (b64_decode (se_plaintextBytes e)) = se_plaintextBytes e \<and>
     sha256_hex cr (b64_decode (se_plaintextBytes e)) =
       rm_plaintextDigest (sg_manifest (se_signedManifest e))"

interpretation segment_envelope: object_codec "parse_segment_envelope cr" envelope_fields "envelope_wf cr" for cr
proof (rule object_codecI)
  show "\<exists>kvs. v = JObj kvs" if "parse_segment_envelope cr v = Inr m" for v m
    using that by (auto simp: parse_segment_envelope_def result_simps own_record_iff)
next
  show "distinct (map fst (envelope_fields e))" for e
    by (simp add: envelope_fields_def)
next
  fix kvs e
  assume "parse_segment_envelope cr (JObj kvs) = Inr e"
  then show "envelope_wf cr e \<and> mset (map fst kvs) = mset (map fst (envelope_fields e)) \<and>
      list_all (\<lambda>(k, v). js_same (fld kvs k) v) (envelope_fields e)"
    by (auto simp: parse_segment_envelope_def result_simps replication_checks
        signed_replication.parse_signed_iff envelope_wf_def envelope_fields_def plaintext_digest_def
        b64_decode_encode)
next
  fix kvs e
  assume "envelope_wf cr e" "mset (map fst kvs) = mset (map fst (envelope_fields e))"
    "list_all (\<lambda>(k, v). js_same (fld kvs k) v) (envelope_fields e)"
  then show "parse_segment_envelope cr (JObj kvs) = Inr e"
    by (cases e) (auto simp: parse_segment_envelope_def result_simps replication_checks
        signed_replication.parse_signed_iff envelope_wf_def envelope_fields_def plaintext_digest_def
        b64_decode_encode intro!: exI[of _ "b64_decode (se_plaintextBytes e)"])
qed

section \<open>Digests that name contents, operations and scopes\<close>

definition replication_content_digest :: "'k crypto \<Rightarrow> js_value \<Rightarrow> string result" where
  "replication_content_digest cr v =
     ebind (parse_signed_replication_manifest v) (\<lambda>s.
     Inr (sha256_hex cr (canonicalize cr (JObj (signed_fields replication_fields s)))))"

definition closure_digest :: "'k crypto \<Rightarrow> js_value \<Rightarrow> string result" where
  "closure_digest cr v =
     ebind (parse_signed_closure_manifest v) (\<lambda>s.
     Inr (sha256_hex cr (canonicalize cr (JObj (signed_fields closure_fields s)))))"

definition set_closure_digest :: "'k crypto \<Rightarrow> js_value \<Rightarrow> string result" where
  "set_closure_digest cr v =
     ebind (parse_signed_set_closure cr v) (\<lambda>s.
     Inr (sha256_hex cr (canonicalize cr (JObj (signed_fields set_closure_fields s)))))"

definition closure_operation_digest :: "'k crypto \<Rightarrow> js_value \<Rightarrow> js_value \<Rightarrow> string result" where
  "closure_operation_digest cr artifactClosureDigest sourceSetClosureDigest =
     ebind (require_digest artifactClosureDigest ''Artifact closure digest'') (\<lambda>a.
     ebind (require_nullable_digest sourceSetClosureDigest ''Source-set closure digest'') (\<lambda>s.
     Inr (sha256_hex cr (canonicalize cr
       (JObj [(''artifactClosureDigest'', JStr a), (''sourceSetClosureDigest'', js_null_or s)])))))"

record operation_input =
  oi_operationId :: js_value
  oi_operationKind :: js_value
  oi_logicalSourceId :: js_value
  oi_sourceGenerationId :: js_value
  oi_contentDigest :: js_value
  oi_targetDeploymentId :: js_value

definition operation_kinds :: "string list" where
  "operation_kinds = [''register_generation'', ''append_segment'', ''close_generation'']"

definition operation_digest :: "'k crypto \<Rightarrow> operation_input \<Rightarrow> string result" where
  "operation_digest cr input =
     ebind (require_uuid (oi_operationId input) ''Operation operationId'') (\<lambda>operationId.
     ebind (require_uuid (oi_logicalSourceId input) ''Operation logicalSourceId'') (\<lambda>logicalSourceId.
     ebind (require_uuid (oi_sourceGenerationId input) ''Operation sourceGenerationId'')
       (\<lambda>sourceGenerationId.
     ebind (require_uuid (oi_targetDeploymentId input) ''Operation targetDeploymentId'')
       (\<lambda>targetDeploymentId.
     ebind (require_digest (oi_contentDigest input) ''Operation contentDigest'') (\<lambda>contentDigest.
     ebind (throw_if (oi_operationKind input \<notin> set (map JStr operation_kinds))
              (TypeError ''Operation kind is invalid'')) (\<lambda>_.
     Inr (sha256_hex cr (canonicalize cr
       (JObj [(''protocol'', JStr replication_protocol), (''operationId'', JStr operationId),
              (''operationKind'', oi_operationKind input),
              (''logicalSourceId'', JStr logicalSourceId),
              (''sourceGenerationId'', JStr sourceGenerationId),
              (''contentDigest'', JStr contentDigest),
              (''targetDeploymentId'', JStr targetDeploymentId)])))))))))"

text \<open>Download and discovery requests; the recipient's key material is carried as it is.\<close>

definition download_authorization_ttl_ms :: int where
  "download_authorization_ttl_ms = 30 * 60 * 1000"

definition download_scope_members ::
  "js_value \<Rightarrow> js_value \<Rightarrow> js_value \<Rightarrow> js_value \<Rightarrow> members result" where
  "download_scope_members sourceGenerationId sourceComponentId targetDeploymentId recipientKey =
     ebind (require_uuid sourceGenerationId ''Source download generation'') (\<lambda>g.
     ebind (require_source_component_id sourceComponentId ''Source download'') (\<lambda>c.
     ebind (require_uuid targetDeploymentId ''Source download target deployment'') (\<lambda>t.
     Inr [(''sourceGenerationId'', JStr g), (''sourceComponentId'', JStr c),
          (''targetDeploymentId'', JStr t), (''recipientKey'', recipientKey)])))"

definition download_scope_hash ::
  "'k crypto \<Rightarrow> js_value \<Rightarrow> js_value \<Rightarrow> js_value \<Rightarrow> js_value \<Rightarrow> string result" where
  "download_scope_hash cr sourceGenerationId sourceComponentId targetDeploymentId recipientKey =
     ebind (download_scope_members sourceGenerationId sourceComponentId targetDeploymentId recipientKey)
       (\<lambda>ms. Inr (sha256_hex cr (replication_protocol @ ''/download-scope'' @ [CHR 0x0A] @
                   canonicalize cr (JObj ms))))"

definition download_request_hash ::
  "'k crypto \<Rightarrow> js_value \<Rightarrow> js_value \<Rightarrow> js_value \<Rightarrow> js_value \<Rightarrow> js_value \<Rightarrow> string result" where
  "download_request_hash cr sourceGenerationId sourceComponentId targetDeploymentId recipientKey
      firstSegmentIndex =
     (case safe_integer 0 firstSegmentIndex of
        None \<Rightarrow> Inl (TypeError ''Source download segment index is invalid'')
      | Some n \<Rightarrow>
          ebind (download_scope_members sourceGenerationId sourceComponentId targetDeploymentId
                   recipientKey) (\<lambda>ms.
          Inr (sha256_hex cr (replication_protocol @ ''/download-request'' @ [CHR 0x0A] @
                canonicalize cr (JObj (ms @ [(''firstSegmentIndex'', js_int n)]))))))"

definition discovery_scope_hash :: "'k crypto \<Rightarrow> string" where
  "discovery_scope_hash cr = sha256_hex cr (replication_protocol @ ''/discovery-scope'')"

definition discovery_request_hash ::
  "'k crypto \<Rightarrow> (string \<times> string) option \<Rightarrow> js_value \<Rightarrow> string result" where
  "discovery_request_hash cr cursor limit =
     (case safe_integer 1 limit of
        None \<Rightarrow> Inl (TypeError ''Source discovery limit is invalid'')
      | Some n \<Rightarrow>
          ebind (throw_if (100 < n) (TypeError ''Source discovery limit is invalid'')) (\<lambda>_.
          ebind (throw_if (case cursor of
                     None \<Rightarrow> False
                   | Some (updatedAt, i) \<Rightarrow> \<not> matches iso_pattern updatedAt \<or> \<not> is_uuid i)
                   (TypeError ''Source discovery cursor is invalid'')) (\<lambda>_.
          Inr (sha256_hex cr (replication_protocol @ ''/discovery-request'' @ [CHR 0x0A] @
                canonicalize cr (JObj
                  [(''cursor'', (case cursor of
                       None \<Rightarrow> JNull
                     | Some (updatedAt, i) \<Rightarrow>
                         JObj [(''updatedAt'', JStr updatedAt), (''id'', JStr i)])),
                   (''limit'', js_int n)]))))))"

end
