(* ===== verification/Replication_Source.thy ===== *)
theory Replication_Source
  imports Replication_Accept
begin

text \<open>
  The registry of source adapters, \<^verbatim>\<open>packages/shared/src/ai-client-source-adapters.ts\<close>, and the
  descriptor of a replicated source that names one of them,
  \<^verbatim>\<open>parseConversationSourceReplicationSourceDescriptor\<close> of
  \<^verbatim>\<open>packages/shared/src/conversation-source-replication.ts\<close>.
\<close>

section \<open>Source adapters\<close>

record source_adapter =
  sa_sourceKind :: string
  sa_sourceRuntime :: string
  sa_artifactFormat :: string
  sa_artifactFormatVersion :: int
  sa_sourceAdapterVersion :: string

definition adapter :: "string \<Rightarrow> string \<Rightarrow> string \<Rightarrow> int \<Rightarrow> string \<Rightarrow> source_adapter" where
  "adapter kind runtime format version adapterVersion =
     \<lparr> sa_sourceKind = kind, sa_sourceRuntime = runtime, sa_artifactFormat = format,
       sa_artifactFormatVersion = version, sa_sourceAdapterVersion = adapterVersion \<rparr>"

definition source_adapter_registry :: "source_adapter list" where
  "source_adapter_registry =
     [adapter ''codex'' ''codex'' ''codex_rollout_jsonl'' 1 ''codex-transcript-v2'',
      adapter ''codex'' ''codex-cli'' ''codex_rollout_jsonl'' 1 ''codex-transcript-v2'',
      adapter ''codex'' ''codex'' ''codex_rollout_jsonl'' 1 ''codex-transcript-v1'',
      adapter ''codex'' ''codex-cli'' ''codex_rollout_jsonl'' 1 ''codex-transcript-v1'',
      adapter ''claude-code'' ''claude-code'' ''claude_session_jsonl'' 1 ''claude-code-transcript-v1'',
      adapter ''pi'' ''pi'' ''pi_session_jsonl'' 1 ''pi-session-v1'']"

text \<open>The candidates are objects, read member by member.\<close>

definition adapter_matches :: "members \<Rightarrow> source_adapter \<Rightarrow> bool" where
  "adapter_matches candidate a \<longleftrightarrow>
     fld candidate ''sourceKind'' = JStr (sa_sourceKind a) \<and>
     fld candidate ''sourceRuntime'' = JStr (sa_sourceRuntime a) \<and>
     fld candidate ''artifactFormat'' = JStr (sa_artifactFormat a) \<and>
     fld candidate ''artifactFormatVersion'' = js_int (sa_artifactFormatVersion a) \<and>
     fld candidate ''sourceAdapterVersion'' = JStr (sa_sourceAdapterVersion a)"

definition resolve_source_adapter :: "members \<Rightarrow> source_adapter option" where
  "resolve_source_adapter candidate = find (adapter_matches candidate) source_adapter_registry"

definition is_supported_source_adapter :: "members \<Rightarrow> bool" where
  "is_supported_source_adapter candidate = (resolve_source_adapter candidate \<noteq> None)"

definition assert_supported_source_adapter :: "members \<Rightarrow> unit result" where
  "assert_supported_source_adapter candidate =
     throw_if (\<not> is_supported_source_adapter candidate)
       (TypeError ''AI-client source adapter tuple is unsupported'')"

definition is_privacy_materialization_adapter :: "members \<Rightarrow> bool" where
  "is_privacy_materialization_adapter candidate \<longleftrightarrow>
     list_ex (\<lambda>(kind, format, version).
       fld candidate ''sourceKind'' = JStr kind \<and> fld candidate ''artifactFormat'' = JStr format \<and>
       fld candidate ''artifactFormatVersion'' = js_int version)
     [(''codex'', ''codex_rollout_jsonl'', 1)]"

lemma adapter_sel [simp]:
  "sa_sourceKind (adapter k r f n v) = k" "sa_sourceRuntime (adapter k r f n v) = r"
  "sa_artifactFormat (adapter k r f n v) = f" "sa_artifactFormatVersion (adapter k r f n v) = n"
  "sa_sourceAdapterVersion (adapter k r f n v) = v"
  by (simp_all add: adapter_def)

text \<open>A candidate matches one adapter at most, so the order of the registry does not matter.\<close>

lemma adapter_matches_unique:
  "adapter_matches c a \<Longrightarrow> adapter_matches c b \<Longrightarrow> a = b"
  by (cases a; cases b) (auto simp: adapter_matches_def)

lemma resolve_source_adapter_iff:
  "resolve_source_adapter c = Some a \<longleftrightarrow> a \<in> set source_adapter_registry \<and> adapter_matches c a"
proof
  assume "resolve_source_adapter c = Some a"
  then show "a \<in> set source_adapter_registry \<and> adapter_matches c a"
    by (auto simp: resolve_source_adapter_def find_Some_iff intro!: nth_mem)
next
  assume a: "a \<in> set source_adapter_registry \<and> adapter_matches c a"
  then obtain b where b: "resolve_source_adapter c = Some b"
    by (cases "resolve_source_adapter c") (auto simp: resolve_source_adapter_def find_None_iff)
  then have "adapter_matches c b"
    by (auto simp: resolve_source_adapter_def find_Some_iff)
  then show "resolve_source_adapter c = Some a"
    using a b adapter_matches_unique by blast
qed

section \<open>The codex history of a source\<close>

datatype thread_kind = Conversation_thread | Subagent_thread

definition thread_kind_text :: "thread_kind \<Rightarrow> string" where
  "thread_kind_text k =
     (case k of Conversation_thread \<Rightarrow> ''conversation'' | Subagent_thread \<Rightarrow> ''subagent'')"

record codex_history =
  ch_externalThreadId :: string
  ch_threadKind :: thread_kind
  ch_startOrdinal :: "int option"

definition bounded_text :: "nat \<Rightarrow> string \<Rightarrow> bool" where
  "bounded_text n s \<longleftrightarrow> 1 \<le> js_length s \<and> js_length s \<le> n"

definition is_text :: "(string \<Rightarrow> bool) \<Rightarrow> js_value \<Rightarrow> bool" where
  "is_text P v = (case v of JStr s \<Rightarrow> P s | _ \<Rightarrow> False)"

lemma is_text_iff: "is_text P v \<longleftrightarrow> (\<exists>s. v = JStr s \<and> P s)"
  by (cases v) (simp_all add: is_text_def)

definition js_int_or_null :: "int option \<Rightarrow> js_value" where
  "js_int_or_null n = (case n of None \<Rightarrow> JNull | Some i \<Rightarrow> js_int i)"

definition read_ordinal :: "js_value \<Rightarrow> int option" where
  "read_ordinal v = safe_integer 0 v"

definition parse_codex_history :: "js_value \<Rightarrow> codex_history result" where
  "parse_codex_history value =
     ebind (own_record value ''Codex history context'') (\<lambda>history.
     ebind (require_exact_keys history
              [''historyMode'', ''externalThreadId'', ''threadKind'', ''subagentHistoryStartOrdinal'']
              ''Codex history context'') (\<lambda>_.
     let kind = fld history ''threadKind''; ordinal = fld history ''subagentHistoryStartOrdinal'' in
     ebind (throw_if (fld history ''historyMode'' \<noteq> JStr ''paginated'' \<or>
                      \<not> is_text (bounded_text 1024) (fld history ''externalThreadId'') \<or>
                      kind \<noteq> JStr (thread_kind_text Conversation_thread) \<and>
                        kind \<noteq> JStr (thread_kind_text Subagent_thread) \<or>
                      ordinal \<noteq> JNull \<and> read_ordinal ordinal = None)
              (TypeError ''Codex history context is invalid'')) (\<lambda>_.
     Inr \<lparr> ch_externalThreadId = js_string (fld history ''externalThreadId''),
           ch_threadKind = (if kind = JStr (thread_kind_text Conversation_thread)
                            then Conversation_thread else Subagent_thread),
           ch_startOrdinal = read_ordinal ordinal \<rparr>)))"

definition codex_history_fields :: "codex_history \<Rightarrow> members" where
  "codex_history_fields h =
     [(''historyMode'', JStr ''paginated''), (''externalThreadId'', JStr (ch_externalThreadId h)),
      (''threadKind'', JStr (thread_kind_text (ch_threadKind h))),
      (''subagentHistoryStartOrdinal'', js_int_or_null (ch_startOrdinal h))]"

definition codex_history_wf :: "codex_history \<Rightarrow> bool" where
  "codex_history_wf h \<longleftrightarrow>
     bounded_text 1024 (ch_externalThreadId h) \<and> if_present (int_in 0) (ch_startOrdinal h)"

lemma thread_kind_text_inj [simp]: "thread_kind_text a = thread_kind_text b \<longleftrightarrow> a = b"
  by (cases a; cases b) (simp_all add: thread_kind_text_def)

lemma read_ordinal_iff:
  "v = JNull \<and> n = None \<or> v \<noteq> JNull \<and> n \<noteq> None \<and> read_ordinal v = n \<longleftrightarrow>
     v = js_int_or_null n \<and> if_present (int_in 0) n"
  by (cases n)
    (auto simp: js_int_or_null_def read_ordinal_def safe_integer_eq_Some js_int_def int_in_def)

lemma read_ordinal_simps [simp]:
  "read_ordinal JNull = None" "int_in 0 n \<Longrightarrow> read_ordinal (js_int n) = Some n"
  by (auto simp: read_ordinal_def safe_integer_def js_int_def int_in_def)

lemma js_int_or_null_simps [simp]: "js_int_or_null None = JNull" "js_int_or_null (Some n) = js_int n"
  by (simp_all add: js_int_or_null_def)

interpretation codex_history: normalizing_codec parse_codex_history codex_history_fields codex_history_wf
proof
  fix v h
  assume "parse_codex_history v = Inr h"
  then show "codex_history_wf h"
    by (clarsimp simp: parse_codex_history_def result_simps replication_checks Let_def is_text_iff
        codex_history_wf_def)
      (auto simp: read_ordinal_def safe_integer_def int_in_def
        split: js_value.splits js_number.splits option.splits)
next
  fix h
  assume "codex_history_wf h"
  then show "parse_codex_history (JObj (codex_history_fields h)) = Inr h"
    by (cases h; cases "ch_threadKind h"; cases "ch_startOrdinal h")
      (simp_all add: parse_codex_history_def result_simps replication_checks Let_def is_text_iff
        codex_history_wf_def codex_history_fields_def fld_Cons)
qed

section \<open>The project of a source\<close>

record source_project =
  sp_id :: string
  sp_name :: string

text \<open>\<^verbatim>\<open>/^lp_[0-9a-f]{32}$/\<close>\<close>

definition local_project_id :: "string \<Rightarrow> bool" where
  "local_project_id s = matches (map (=) ''lp_'' @ replicate 32 is_hex_lower) s"

definition parse_source_project :: "js_value \<Rightarrow> source_project option result" where
  "parse_source_project value =
     (case value of
        JNull \<Rightarrow> Inr None
      | _ \<Rightarrow>
        ebind (own_record value ''Conversation source project'') (\<lambda>project.
        ebind (require_exact_keys project [''id'', ''name''] ''Conversation source project'') (\<lambda>_.
        ebind (throw_if (\<not> is_text (\<lambda>s. local_project_id (js_trim s)) (fld project ''id'') \<or>
                         \<not> is_text (\<lambda>s. 1 \<le> js_length (js_trim s) \<and> js_length s \<le> 160)
                             (fld project ''name''))
                 (TypeError ''Conversation source project is invalid'')) (\<lambda>_.
        Inr (Some \<lparr> sp_id = js_trim (js_string (fld project ''id'')),
                    sp_name = js_trim (js_string (fld project ''name'')) \<rparr>)))))"

definition source_project_value :: "source_project option \<Rightarrow> js_value" where
  "source_project_value p =
     (case p of
        None \<Rightarrow> JNull
      | Some q \<Rightarrow> JObj [(''id'', JStr (sp_id q)), (''name'', JStr (sp_name q))])"

definition source_project_wf :: "source_project \<Rightarrow> bool" where
  "source_project_wf p \<longleftrightarrow>
     local_project_id (sp_id p) \<and> js_trim (sp_id p) = sp_id p \<and> js_trim (sp_name p) = sp_name p \<and>
     bounded_text 160 (sp_name p)"

lemma parse_source_project_sound: "parse_source_project v = Inr p \<Longrightarrow> if_present source_project_wf p"
  using le_trans[OF js_length_js_trim]
  by (cases v)
    (auto simp: parse_source_project_def result_simps replication_checks is_text_iff
      source_project_wf_def bounded_text_def own_record_def)

lemma parse_source_project_value:
  "if_present source_project_wf p \<Longrightarrow> parse_source_project (source_project_value p) = Inr p"
  by (cases p; cases "the p")
    (auto simp: parse_source_project_def source_project_value_def result_simps replication_checks
      is_text_iff source_project_wf_def bounded_text_def fld_Cons)

section \<open>The descriptor\<close>

text \<open>\<^verbatim>\<open>/^[a-z][a-z0-9_]{0,127}$/\<close>\<close>

definition blob_format :: "string \<Rightarrow> bool" where
  "blob_format s =
     (case s of
        [] \<Rightarrow> False
      | c # rest \<Rightarrow>
          is_lower c \<and> length rest \<le> 127 \<and> list_all (\<lambda>d. is_lower_alnum d \<or> d = CHR ''_'') rest)"

definition blob_tuples :: "(string \<times> string \<times> string) list" where
  "blob_tuples =
     [(''codex'', ''codex'', ''codex-transcript-v1''), (''codex'', ''codex-cli'', ''codex-transcript-v1''),
      (''claude-code'', ''claude-code'', ''claude-code-transcript-v1''), (''pi'', ''pi'', ''pi-session-v1'')]"

definition blob_adapter_ok :: "source_adapter \<Rightarrow> bool" where
  "blob_adapter_ok a \<longleftrightarrow>
     int_in 1 (sa_artifactFormatVersion a) \<and> blob_format (sa_artifactFormat a) \<and>
     (sa_sourceKind a, sa_sourceRuntime a, sa_sourceAdapterVersion a) \<in> set blob_tuples"

text \<open>The members a descriptor names its adapter with, as far as they have the right types.\<close>

definition read_adapter :: "members \<Rightarrow> source_adapter option" where
  "read_adapter input =
     (case (fld input ''sourceKind'', fld input ''sourceRuntime'', fld input ''artifactFormat'',
            fld input ''sourceAdapterVersion'') of
        (JStr kind, JStr runtime, JStr format, JStr version) \<Rightarrow>
          (case safe_integer 1 (fld input ''artifactFormatVersion'') of
             None \<Rightarrow> None
           | Some n \<Rightarrow> Some (adapter kind runtime format n version))
      | _ \<Rightarrow> None)"

text \<open>\<^verbatim>\<open>sourceAdapter\<close>, or the tuple of an immutable blob that no adapter is registered for.\<close>

definition describe_adapter :: "members \<Rightarrow> component_identity \<Rightarrow> source_adapter result" where
  "describe_adapter input component =
     (case resolve_source_adapter input of
        Some a \<Rightarrow> Inr a
      | None \<Rightarrow>
          (case read_adapter input of
             None \<Rightarrow> Inl (TypeError ''Conversation source descriptor format is invalid'')
           | Some a \<Rightarrow>
               ebind (throw_if (\<not> (ci_framing component = Immutable_blob \<and> blob_adapter_ok a))
                        (TypeError ''Conversation source descriptor format is invalid'')) (\<lambda>_.
               Inr a)))"

record source_descriptor =
  sd_component :: component_identity
  sd_adapter :: source_adapter
  sd_logicalSessionId :: string
  sd_externalSessionId :: string
  sd_forkedFrom :: "string option"
  sd_sourceFingerprint :: string
  sd_redactedSourceLabel :: string
  sd_originDeploymentId :: string
  sd_originDeviceId :: string
  sd_journalStartOffset :: int
  sd_journalStartLine :: int
  sd_liveStartOffset :: int
  sd_liveStartLine :: int
  sd_codexHistory :: "codex_history option"
  sd_project :: "source_project option"

definition descriptor_keys :: "string list" where
  "descriptor_keys =
     [''sourceKind'', ''sourceComponentSchemaVersion'', ''sourceComponentId'',
      ''sourceComponentRole'', ''parentSourceComponentId'', ''contentFraming'',
      ''logicalSessionId'', ''externalSessionId'', ''forkedFromExternalThreadId'',
      ''sourceFingerprint'', ''artifactFormat'', ''artifactFormatVersion'',
      ''sourceAdapterVersion'', ''sourceRuntime'', ''redactedSourceLabel'',
      ''originDeploymentId'', ''originDeviceId'', ''journalStartOffset'', ''journalStartLine'',
      ''liveStartOffset'', ''liveStartLine'', ''project'']"

definition has_codex_history :: "js_value \<Rightarrow> bool" where
  "has_codex_history adapterVersion \<longleftrightarrow> adapterVersion = JStr ''codex-transcript-v2''"

definition descriptor_texts_ok :: "members \<Rightarrow> bool" where
  "descriptor_texts_ok input \<longleftrightarrow>
     is_text (bounded_text 1024) (fld input ''externalSessionId'') \<and>
     (fld input ''forkedFromExternalThreadId'' = JNull \<or>
      is_text (bounded_text 1024) (fld input ''forkedFromExternalThreadId'')) \<and>
     is_text (\<lambda>s. 1 \<le> js_length (js_trim s) \<and> js_length s \<le> 255) (fld input ''redactedSourceLabel'')"

definition read_nullable_text :: "js_value \<Rightarrow> string option" where
  "read_nullable_text v = (case v of JStr s \<Rightarrow> Some s | _ \<Rightarrow> None)"

text \<open>\<^verbatim>\<open>parseConversationSourceReplicationSourceDescriptor\<close>\<close>

definition parse_source_descriptor :: "js_value \<Rightarrow> source_descriptor result" where
  "parse_source_descriptor value =
     ebind (own_record value ''Conversation source descriptor'') (\<lambda>input.
     let paginated = has_codex_history (fld input ''sourceAdapterVersion'') in
     ebind (require_exact_keys input
              (descriptor_keys @ (if paginated then [''codexHistory''] else []))
              ''Conversation source descriptor'') (\<lambda>_.
     ebind (parse_component_identity input ''Descriptor'') (\<lambda>component.
     ebind (describe_adapter input component) (\<lambda>a.
     ebind (if paginated
            then ebind (parse_codex_history (fld input ''codexHistory'')) (\<lambda>h. Inr (Some h))
            else Inr None) (\<lambda>history.
     ebind (throw_if (\<not> descriptor_texts_ok input)
              (TypeError ''Conversation source descriptor label is invalid'')) (\<lambda>_.
     ebind (parse_source_project (fld input ''project'')) (\<lambda>project.
     ebind (require_cursor (fld input ''journalStartOffset'') ''Descriptor journalStartOffset'') (\<lambda>jo.
     ebind (require_cursor (fld input ''journalStartLine'') ''Descriptor journalStartLine'') (\<lambda>jl.
     ebind (require_cursor (fld input ''liveStartOffset'') ''Descriptor liveStartOffset'') (\<lambda>lo.
     ebind (require_cursor (fld input ''liveStartLine'') ''Descriptor liveStartLine'') (\<lambda>ll.
     ebind (throw_if (lo < jo \<or> ll < jl)
              (TypeError ''Conversation source descriptor live boundary precedes its journal boundary''))
       (\<lambda>_.
     ebind (require_uuid (fld input ''logicalSessionId'') ''Descriptor logicalSessionId'') (\<lambda>session.
     ebind (require_digest (fld input ''sourceFingerprint'') ''Descriptor sourceFingerprint'') (\<lambda>fp.
     ebind (require_uuid (fld input ''originDeploymentId'') ''Descriptor originDeploymentId'') (\<lambda>dep.
     ebind (require_uuid (fld input ''originDeviceId'') ''Descriptor originDeviceId'') (\<lambda>dev.
     Inr \<lparr> sd_component = component, sd_adapter = a, sd_logicalSessionId = session,
           sd_externalSessionId = js_string (fld input ''externalSessionId''),
           sd_forkedFrom = read_nullable_text (fld input ''forkedFromExternalThreadId''),
           sd_sourceFingerprint = fp,
           sd_redactedSourceLabel = js_trim (js_string (fld input ''redactedSourceLabel'')),
           sd_originDeploymentId = dep, sd_originDeviceId = dev, sd_journalStartOffset = jo,
           sd_journalStartLine = jl, sd_liveStartOffset = lo, sd_liveStartLine = ll,
           sd_codexHistory = history, sd_project = project \<rparr>))))))))))))))))"

definition descriptor_fields :: "source_descriptor \<Rightarrow> members" where
  "descriptor_fields d =
     component_fields (sd_component d) @
     [(''sourceKind'', JStr (sa_sourceKind (sd_adapter d))),
      (''logicalSessionId'', JStr (sd_logicalSessionId d)),
      (''externalSessionId'', JStr (sd_externalSessionId d)),
      (''forkedFromExternalThreadId'', js_null_or (sd_forkedFrom d)),
      (''sourceFingerprint'', JStr (sd_sourceFingerprint d)),
      (''artifactFormat'', JStr (sa_artifactFormat (sd_adapter d))),
      (''artifactFormatVersion'', js_int (sa_artifactFormatVersion (sd_adapter d))),
      (''sourceAdapterVersion'', JStr (sa_sourceAdapterVersion (sd_adapter d))),
      (''sourceRuntime'', JStr (sa_sourceRuntime (sd_adapter d))),
      (''redactedSourceLabel'', JStr (sd_redactedSourceLabel d)),
      (''originDeploymentId'', JStr (sd_originDeploymentId d)),
      (''originDeviceId'', JStr (sd_originDeviceId d)),
      (''journalStartOffset'', js_int (sd_journalStartOffset d)),
      (''journalStartLine'', js_int (sd_journalStartLine d)),
      (''liveStartOffset'', js_int (sd_liveStartOffset d)),
      (''liveStartLine'', js_int (sd_liveStartLine d))] @
     (case sd_codexHistory d of
        None \<Rightarrow> [] | Some h \<Rightarrow> [(''codexHistory'', JObj (codex_history_fields h))]) @
     [(''project'', source_project_value (sd_project d))]"

definition source_descriptor_wf :: "source_descriptor \<Rightarrow> bool" where
  "source_descriptor_wf d \<longleftrightarrow>
     component_wf (sd_component d) \<and>
     (sd_adapter d \<in> set source_adapter_registry \<or>
      ci_framing (sd_component d) = Immutable_blob \<and> blob_adapter_ok (sd_adapter d)) \<and>
     is_uuid (sd_logicalSessionId d) \<and> bounded_text 1024 (sd_externalSessionId d) \<and>
     if_present (bounded_text 1024) (sd_forkedFrom d) \<and> is_sha256 (sd_sourceFingerprint d) \<and>
     js_trim (sd_redactedSourceLabel d) = sd_redactedSourceLabel d \<and>
     bounded_text 255 (sd_redactedSourceLabel d) \<and> is_uuid (sd_originDeploymentId d) \<and>
     is_uuid (sd_originDeviceId d) \<and> int_in 0 (sd_journalStartOffset d) \<and>
     int_in 0 (sd_journalStartLine d) \<and> int_in 0 (sd_liveStartOffset d) \<and>
     int_in 0 (sd_liveStartLine d) \<and> sd_journalStartOffset d \<le> sd_liveStartOffset d \<and>
     sd_journalStartLine d \<le> sd_liveStartLine d \<and>
     (case sd_codexHistory d of
        None \<Rightarrow> sa_sourceAdapterVersion (sd_adapter d) \<noteq> ''codex-transcript-v2''
      | Some h \<Rightarrow> sa_sourceAdapterVersion (sd_adapter d) = ''codex-transcript-v2'' \<and>
                  codex_history_wf h) \<and>
     if_present source_project_wf (sd_project d)"

text \<open>The adapter a descriptor names is the one its members spell out.\<close>

lemma describe_adapter_sound:
  assumes "describe_adapter input c = Inr a"
  shows "adapter_matches input a \<and>
    (a \<in> set source_adapter_registry \<or> ci_framing c = Immutable_blob \<and> blob_adapter_ok a)"
proof (cases "resolve_source_adapter input")
  case (Some b)
  then show ?thesis using assms resolve_source_adapter_iff[of input b] by (simp add: describe_adapter_def)
next
  case None
  then obtain b where b: "read_adapter input = Some b" "a = b" "ci_framing c = Immutable_blob"
    "blob_adapter_ok b"
    using assms by (auto simp: describe_adapter_def result_simps split: option.splits)
  have "adapter_matches input b"
    using b(1) by (auto simp: read_adapter_def adapter_matches_def safe_integer_eq_Some js_int_def
        split: js_value.splits option.splits)
  then show ?thesis using b by simp
qed

lemma describe_adapter_complete:
  assumes m: "adapter_matches input a"
    and "a \<in> set source_adapter_registry \<or> ci_framing c = Immutable_blob \<and> blob_adapter_ok a"
  shows "describe_adapter input c = Inr a"
proof (cases "resolve_source_adapter input")
  case (Some b)
  then have "b = a" using m adapter_matches_unique resolve_source_adapter_iff by blast
  then show ?thesis using Some by (simp add: describe_adapter_def)
next
  case None
  then have blob: "ci_framing c = Immutable_blob" "blob_adapter_ok a"
    using assms resolve_source_adapter_iff[of input a] by auto
  then have "read_adapter input = Some a"
    using m by (cases a) (auto simp: read_adapter_def adapter_matches_def blob_adapter_ok_def int_in_def
        safe_integer_def js_int_def adapter_def)
  then show ?thesis using None blob by (simp add: describe_adapter_def)
qed

lemma descriptor_texts_iff:
  "descriptor_texts_ok input \<longleftrightarrow>
     (\<exists>e f l. fld input ''externalSessionId'' = JStr e \<and> bounded_text 1024 e \<and>
        fld input ''forkedFromExternalThreadId'' = js_null_or f \<and> if_present (bounded_text 1024) f \<and>
        fld input ''redactedSourceLabel'' = JStr l \<and> 1 \<le> js_length (js_trim l) \<and> js_length l \<le> 255)"
proof -
  have "(v = JNull \<or> is_text P v) \<longleftrightarrow> (\<exists>f. v = js_null_or f \<and> if_present P f)" for v P
    by (cases v) (auto simp: is_text_iff js_null_or_def split: option.splits)
  then show ?thesis
    unfolding descriptor_texts_ok_def is_text_iff by blast
qed

lemma read_nullable_text_null_or [simp]: "read_nullable_text (js_null_or f) = f"
  by (cases f) (simp_all add: read_nullable_text_def)

lemma parse_source_descriptor_sound:
  assumes "parse_source_descriptor v = Inr d"
  shows "source_descriptor_wf d"
proof -
  have trim: "bounded_text 255 (js_trim l)" if "Suc 0 \<le> js_length (js_trim l)" "js_length l \<le> 255" for l
    using that le_trans[OF js_length_js_trim[of l]] by (simp add: bounded_text_def)
  have version: "fld input ''sourceAdapterVersion'' = JStr (sa_sourceAdapterVersion a)"
    if "describe_adapter input c = Inr a" for input c a
    using describe_adapter_sound[OF that] by (simp add: adapter_matches_def)
  from assms obtain input component a history project jo jl lo ll session fp dep dev where
      comp: "parse_component_identity input ''Descriptor'' = Inr component"
    and adapt: "describe_adapter input component = Inr a"
    and hist: "(if has_codex_history (fld input ''sourceAdapterVersion'')
        then ebind (parse_codex_history (fld input ''codexHistory'')) (\<lambda>h. Inr (Some h))
        else Inr None) = Inr history"
    and texts: "\<not> \<not> descriptor_texts_ok input"
    and proj: "parse_source_project (fld input ''project'') = Inr project"
    and ints: "require_cursor (fld input ''journalStartOffset'') ''Descriptor journalStartOffset'' = Inr jo"
      "require_cursor (fld input ''journalStartLine'') ''Descriptor journalStartLine'' = Inr jl"
      "require_cursor (fld input ''liveStartOffset'') ''Descriptor liveStartOffset'' = Inr lo"
      "require_cursor (fld input ''liveStartLine'') ''Descriptor liveStartLine'' = Inr ll"
    and order: "\<not> (lo < jo \<or> ll < jl)"
    and ids: "require_uuid (fld input ''logicalSessionId'') ''Descriptor logicalSessionId'' = Inr session"
      "require_digest (fld input ''sourceFingerprint'') ''Descriptor sourceFingerprint'' = Inr fp"
      "require_uuid (fld input ''originDeploymentId'') ''Descriptor originDeploymentId'' = Inr dep"
      "require_uuid (fld input ''originDeviceId'') ''Descriptor originDeviceId'' = Inr dev"
    and d: "Inr \<lparr> sd_component = component, sd_adapter = a, sd_logicalSessionId = session,
           sd_externalSessionId = js_string (fld input ''externalSessionId''),
           sd_forkedFrom = read_nullable_text (fld input ''forkedFromExternalThreadId''),
           sd_sourceFingerprint = fp,
           sd_redactedSourceLabel = js_trim (js_string (fld input ''redactedSourceLabel'')),
           sd_originDeploymentId = dep, sd_originDeviceId = dev, sd_journalStartOffset = jo,
           sd_journalStartLine = jl, sd_liveStartOffset = lo, sd_liveStartLine = ll,
           sd_codexHistory = history, sd_project = project \<rparr> = Inr d"
    unfolding parse_source_descriptor_def Let_def ebind_eq_Inr throw_if_eq_Inr by blast
  have h: "case history of
        None \<Rightarrow> sa_sourceAdapterVersion a \<noteq> ''codex-transcript-v2''
      | Some h \<Rightarrow> sa_sourceAdapterVersion a = ''codex-transcript-v2'' \<and> codex_history_wf h"
    using hist version[OF adapt]
    by (auto simp: has_codex_history_def result_simps dest: codex_history.sound split: if_splits)
  have t: "bounded_text 1024 (js_string (fld input ''externalSessionId''))"
    "if_present (bounded_text 1024) (read_nullable_text (fld input ''forkedFromExternalThreadId''))"
    "bounded_text 255 (js_trim (js_string (fld input ''redactedSourceLabel'')))"
    using texts by (auto simp: descriptor_texts_iff trim)
  show ?thesis
    using comp describe_adapter_sound[OF adapt] h t parse_source_project_sound[OF proj] ints order
      ids d[symmetric]
    by (cases history)
      (auto simp: source_descriptor_wf_def parse_component_identity_iff replication_checks)
qed

lemma descriptor_fields_keys:
  "mset (map fst (descriptor_fields d)) =
     mset (descriptor_keys @ (if sd_codexHistory d = None then [] else [''codexHistory'']))"
  by (simp add: descriptor_fields_def component_fields_def component_members_def descriptor_keys_def
      split: option.split)

lemma parse_source_descriptor_fields:
  assumes ok: "source_descriptor_wf d"
  shows "parse_source_descriptor (JObj (descriptor_fields d)) = Inr d"
proof -
  let ?fs = "descriptor_fields d"
  note fields = descriptor_fields_def component_fields_def component_members_def fld_Cons
  have hist: "has_codex_history (fld ?fs ''sourceAdapterVersion'') \<longleftrightarrow> sd_codexHistory d \<noteq> None"
    using ok by (auto simp: has_codex_history_def fields source_descriptor_wf_def split: option.splits)
  have keys: "require_exact_keys ?fs
      (descriptor_keys @ (if sd_codexHistory d \<noteq> None then [''codexHistory''] else [])) l = Inr ()" for l
    unfolding require_exact_keys_iff descriptor_fields_keys by simp
  have comp: "parse_component_identity ?fs l = Inr (sd_component d)" for l
    using ok by (simp add: parse_component_identity_iff source_descriptor_wf_def fields)
  have "adapter_matches ?fs (sd_adapter d)"
    by (simp add: adapter_matches_def fields)
  then have adapt: "describe_adapter ?fs (sd_component d) = Inr (sd_adapter d)"
    using ok by (intro describe_adapter_complete) (simp_all add: source_descriptor_wf_def)
  have history: "(if sd_codexHistory d \<noteq> None
      then ebind (parse_codex_history (fld ?fs ''codexHistory'')) (\<lambda>h. Inr (Some h)) else Inr None) =
      Inr (sd_codexHistory d)"
    using ok by (cases "sd_codexHistory d")
      (simp_all add: fields source_descriptor_wf_def codex_history.parse_fields)
  have project: "parse_source_project (fld ?fs ''project'') = Inr (sd_project d)"
    using ok by (cases "sd_codexHistory d")
      (simp_all add: fields source_descriptor_wf_def parse_source_project_value)
  have texts: "descriptor_texts_ok ?fs"
    "js_string (fld ?fs ''externalSessionId'') = sd_externalSessionId d"
    "read_nullable_text (fld ?fs ''forkedFromExternalThreadId'') = sd_forkedFrom d"
    "js_trim (js_string (fld ?fs ''redactedSourceLabel'')) = sd_redactedSourceLabel d"
    using ok by (auto simp: descriptor_texts_iff fields source_descriptor_wf_def bounded_text_def)
  have ints: "require_cursor (fld ?fs ''journalStartOffset'') l = Inr (sd_journalStartOffset d)"
    "require_cursor (fld ?fs ''journalStartLine'') l = Inr (sd_journalStartLine d)"
    "require_cursor (fld ?fs ''liveStartOffset'') l = Inr (sd_liveStartOffset d)"
    "require_cursor (fld ?fs ''liveStartLine'') l = Inr (sd_liveStartLine d)"
    "require_uuid (fld ?fs ''logicalSessionId'') l = Inr (sd_logicalSessionId d)"
    "require_digest (fld ?fs ''sourceFingerprint'') l = Inr (sd_sourceFingerprint d)"
    "require_uuid (fld ?fs ''originDeploymentId'') l = Inr (sd_originDeploymentId d)"
    "require_uuid (fld ?fs ''originDeviceId'') l = Inr (sd_originDeviceId d)" for l
    using ok by (simp_all add: fields source_descriptor_wf_def replication_checks)
  have order: "\<not> (sd_liveStartOffset d < sd_journalStartOffset d \<or> sd_liveStartLine d < sd_journalStartLine d)"
    using ok by (auto simp: source_descriptor_wf_def)
  show ?thesis
    unfolding parse_source_descriptor_def Let_def own_record_def js_value.case ebind_Inr hist keys
      comp adapt history project texts ints
    using order texts(1) by simp
qed

interpretation source_descriptor:
  normalizing_codec parse_source_descriptor descriptor_fields source_descriptor_wf
  by unfold_locales (fact parse_source_descriptor_sound parse_source_descriptor_fields)+

text \<open>\<^verbatim>\<open>calculateConversationSourceGenerationRegistrationDigest\<close>\<close>

definition generation_registration_digest :: "'k crypto \<Rightarrow> js_value \<Rightarrow> js_value \<Rightarrow> string result" where
  "generation_registration_digest cr registration source =
     ebind (parse_registration cr registration) (\<lambda>r.
     ebind (parse_source_descriptor source) (\<lambda>d.
     Inr (sha256_hex cr (canonicalize cr
       (JObj [(''registration'', JObj (registration_fields r)),
              (''source'', JObj (descriptor_fields d))])))))"

end
