(* ===== verification/Replication_Properties.thy ===== *)
theory Replication_Properties
  imports Replication_Source
begin

text \<open>
  What the replication of conversation sources guarantees, from the lemmas of \<open>Replication\<close>,
  \<open>Replication_Set\<close>, \<open>Replication_Keys\<close>, \<open>Replication_Accept\<close> and \<open>Replication_Source\<close>, with
  concrete manifests, keys and descriptors at which the theorems apply.
\<close>

section \<open>Concrete values\<close>

definition demo_uuid :: "char \<Rightarrow> string" where
  "demo_uuid c = c # ''0000000-0000-4000-8000-000000000000''"

definition demo_component :: component_identity where
  "demo_component = \<lparr> ci_id = ''main'', ci_role = Primary, ci_parent = None, ci_framing = Jsonl \<rparr>"

definition demo_manifest :: replication_manifest where
  "demo_manifest =
     \<lparr> rm_component = demo_component, rm_logicalSourceId = demo_uuid CHR ''1'',
       rm_sourceGenerationId = demo_uuid CHR ''2'', rm_originKeyId = demo_uuid CHR ''3'',
       rm_segmentIndex = 0, rm_startByteCursor = 0, rm_endByteCursor = 12, rm_startItemCursor = 0,
       rm_endItemCursor = 1, rm_previousContentDigest = None,
       rm_plaintextDigest = replicate 64 CHR ''a'', rm_sourceFormat = ''codex_rollout_jsonl'',
       rm_adapterVersion = ''codex-transcript-v1'', rm_sourceCreatedAt = ''2026-01-01T00:00:00.000Z'',
       rm_priorGenerationClosure = None \<rparr>"

text \<open>Keys are texts: the first character tells a private key from its public key.\<close>

definition demo_crypto :: "string crypto" where
  "demo_crypto =
     \<lparr> canonicalize = (\<lambda>v. case v of JObj kvs \<Rightarrow> concat (map fst kvs) | _ \<Rightarrow> []),
       sha256_hex = (\<lambda>s. replicate 64 CHR ''a''),
       ed_public_key = (\<lambda>bytes. Inr (CHR ''p'' # bytes)),
       ed_private_key = (\<lambda>public seed. Inr (CHR ''s'' # public)),
       ed_verify = (\<lambda>payload key sig. sig = take 64 (payload @ tl key @ replicate 64 CHR ''0'')),
       ed_sign = (\<lambda>payload key. take 64 (payload @ tl key @ replicate 64 CHR ''0'')),
       key_type = (\<lambda>key. if take 1 key = ''s'' then ''private'' else ''public''),
       key_algorithm = (\<lambda>key. ''ed25519'') \<rparr>"

definition demo_raw_key :: string where
  "demo_raw_key = replicate 32 CHR ''k''"

definition demo_registration :: registration where
  "demo_registration =
     \<lparr> rg_pin =
         \<lparr> ok_logicalSourceId = demo_uuid CHR ''1'', ok_sourceGenerationId = demo_uuid CHR ''2'',
           ok_originKeyId = demo_uuid CHR ''3'', ok_publicKey = b64_encode demo_raw_key,
           ok_sourceCreatedAt = ''2026-01-01T00:00:00.000Z'', ok_priorGenerationClosure = None \<rparr>,
       rg_lifecycle = Active \<rparr>"

definition demo_descriptor :: source_descriptor where
  "demo_descriptor =
     \<lparr> sd_component = demo_component,
       sd_adapter = adapter ''codex'' ''codex-cli'' ''codex_rollout_jsonl'' 1 ''codex-transcript-v2'',
       sd_logicalSessionId = demo_uuid CHR ''4'', sd_externalSessionId = ''thread'',
       sd_forkedFrom = None, sd_sourceFingerprint = replicate 64 CHR ''b'',
       sd_redactedSourceLabel = ''rollout'', sd_originDeploymentId = demo_uuid CHR ''5'',
       sd_originDeviceId = demo_uuid CHR ''6'', sd_journalStartOffset = 0, sd_journalStartLine = 0,
       sd_liveStartOffset = 10, sd_liveStartLine = 1,
       sd_codexHistory = Some \<lparr> ch_externalThreadId = ''thread'', ch_threadKind = Conversation_thread,
         ch_startOrdinal = None \<rparr>,
       sd_project = None \<rparr>"

lemma demo_manifest_wf: "replication_manifest_wf demo_manifest"
  by code_simp

lemma demo_registration_wf: "registration_wf demo_crypto demo_registration"
  by code_simp

lemma demo_descriptor_wf: "source_descriptor_wf demo_descriptor"
  by code_simp

lemma demo_key_pair: "key_pair demo_crypto (CHR ''s'' # k) (CHR ''p'' # k)"
  by (auto simp: key_pair_def demo_crypto_def min_def)

section \<open>Manifests\<close>

text \<open>A value is a segment manifest exactly when, up to the order of members, it is the object of a
  well-formed manifest: cursors that do not run backwards, a previous digest exactly when the
  segment is not the first, a prior closure of another generation.\<close>

theorem replication_manifest_exact:
  "parse_replication_manifest v = Inr m \<longleftrightarrow>
     replication_manifest_wf m \<and> js_same v (JObj (replication_fields m))"
  by (rule replication.parse_iff)

text \<open>C6. The components of a source-set closure are accepted exactly when there are 1 to 256 of them,
  each well-formed, in strictly ascending order of id, with \<^verbatim>\<open>main\<close> the only primary one, and
  following parents leads from every component to \<^verbatim>\<open>main\<close>: they form a tree.\<close>

theorem set_closure_members_are_a_tree:
  "parse_set_members v = Inr ms \<longleftrightarrow>
     ms \<noteq> [] \<and> length ms \<le> 256 \<and> list_all set_member_wf ms \<and> sorted_wrt (<) (map sm_id ms) \<and>
     map sm_id (filter (\<lambda>m. ci_role (sm_component m) = Primary) ms) = [''main''] \<and>
     rooted_tree ms \<and> js_same v (set_members_value ms)"
  unfolding parse_set_members_iff set_members_wf_def by blast

text \<open>A segment envelope is accepted exactly when, up to the order of members, it carries a
  well-formed signed manifest and the canonical base64url text of bytes whose SHA-256 digest is
  the one the manifest signs.\<close>

theorem segment_envelope_exact:
  "parse_segment_envelope cr v = Inr e \<longleftrightarrow>
     replication_manifest_wf (sg_manifest (se_signedManifest e)) \<and>
     canonical_base64url 64 (sg_signature (se_signedManifest e)) \<and>
     b64_encode (b64_decode (se_plaintextBytes e)) = se_plaintextBytes e \<and>
     sha256_hex cr (b64_decode (se_plaintextBytes e)) =
       rm_plaintextDigest (sg_manifest (se_signedManifest e)) \<and>
     js_same v (JObj (envelope_fields e))"
  unfolding segment_envelope.parse_iff envelope_wf_def by blast

section \<open>Acceptance\<close>

text \<open>C7. A signed segment is accepted under a registration exactly when both parse, the registered key
  is active, the manifest names the pinned source, generation, key, creation time and prior
  closure, and the pinned public key verifies the signature of the canonical manifest. A lost
  or revoked key lets nothing in.\<close>

theorem segment_accepted_iff:
  "verify_for_acceptance cr sv rv = Inr True \<longleftrightarrow>
     (\<exists>s r key. parse_signed_replication_manifest sv = Inr s \<and> parse_registration cr rv = Inr r \<and>
        rg_lifecycle r = Active \<and>
        ok_logicalSourceId (rg_pin r) = rm_logicalSourceId (sg_manifest s) \<and>
        ok_sourceGenerationId (rg_pin r) = rm_sourceGenerationId (sg_manifest s) \<and>
        ok_originKeyId (rg_pin r) = rm_originKeyId (sg_manifest s) \<and>
        ok_sourceCreatedAt (rg_pin r) = rm_sourceCreatedAt (sg_manifest s) \<and>
        closures_equal cr (ok_priorGenerationClosure (rg_pin r))
          (rm_priorGenerationClosure (sg_manifest s)) \<and>
        source_key cr (Key_text (ok_publicKey (rg_pin r))) = Inr key \<and>
        ed_verify cr (canonicalize cr (JObj (replication_fields (sg_manifest s)))) key
          (b64_decode (sg_signature s)))"
  unfolding verify_for_acceptance_iff pinned_to_def by auto

text \<open>What the origin signs is accepted: a manifest that names what an active registration pins,
  signed with the private key of the registered public key, verifies for acceptance.\<close>

theorem origin_signed_segment_accepted:
  assumes "parse_replication_manifest v = Inr m" and "parse_registration cr rv = Inr r"
    and "pinned_to cr r m" and "key_pair cr private public"
    and "ed_public_key cr raw = Inr public" and "ok_publicKey (rg_pin r) = b64_encode raw"
  shows "\<exists>s. sign_replication_manifest cr v private = Inr s \<and> sg_manifest s = m \<and>
    verify_for_acceptance cr (JObj (signed_fields replication_fields s)) rv = Inr True"
proof -
  obtain s where s: "sign_replication_manifest cr v private = Inr s" "sg_manifest s = m"
    and v: "verify_replication_signature cr (JObj (signed_fields replication_fields s))
      (Key_object public) = Inr True"
    using signed_replication.sign_then_verify[OF assms(1,4)] by blast
  have "length raw = 32"
    using registration.sound[OF assms(2)] assms(6)
    by (auto simp: registration_wf_def pin_wf_def public_key_ok_def canonical_base64url_iff)
  then have "source_key cr (Key_text (ok_publicKey (rg_pin r))) = Inr public"
    using assms(4,5,6) by (simp add: source_key_def import_source_public_key_def decode_base64url_iff
        assert_ed25519_key_def key_pair_def result_simps)
  moreover obtain s' where "parse_signed_replication_manifest
      (JObj (signed_fields replication_fields s)) = Inr s'"
    "ed_verify cr (canonicalize cr (JObj (replication_fields (sg_manifest s')))) public
      (b64_decode (sg_signature s'))"
    using v by (auto simp: signed_replication.verify_iff source_key_def result_simps
        assert_ed25519_key_def)
  moreover have "parse_signed_replication_manifest (JObj (signed_fields replication_fields s)) = Inr s"
    using s(1) key_pairD(1)[OF assms(4)] by (rule signed_replication.sign_parses)
  ultimately show ?thesis
    using s assms(2,3) by (auto simp: verify_for_acceptance_iff)
qed

theorem origin_signed_segment_accepted_witness:
  "\<exists>s. sign_replication_manifest demo_crypto (JObj (replication_fields demo_manifest))
         (CHR ''s'' # demo_raw_key) = Inr s \<and> sg_manifest s = demo_manifest \<and>
       verify_for_acceptance demo_crypto (JObj (signed_fields replication_fields s))
         (JObj (registration_fields demo_registration)) = Inr True"
proof (rule origin_signed_segment_accepted[OF replication.parse_fields[OF demo_manifest_wf]
      registration.parse_fields[OF demo_registration_wf] _ demo_key_pair])
  show "pinned_to demo_crypto demo_registration demo_manifest" by code_simp
  show "ed_public_key demo_crypto demo_raw_key = Inr (CHR ''p'' # demo_raw_key)"
    by (simp add: demo_crypto_def)
  show "ok_publicKey (rg_pin demo_registration) = b64_encode demo_raw_key"
    by (simp add: demo_registration_def)
qed

section \<open>Descriptors, rewrites, bounds\<close>

text \<open>The descriptor parser normalises: what it returns names a registered adapter or an immutable
  blob, has a live boundary at or after its journal boundary, and is returned unchanged when its
  own object is parsed again.\<close>

theorem source_descriptor_normalised:
  assumes "parse_source_descriptor v = Inr d"
  shows "parse_source_descriptor (JObj (descriptor_fields d)) = Inr d \<and>
    (sd_adapter d \<in> set source_adapter_registry \<or>
     ci_framing (sd_component d) = Immutable_blob \<and> blob_adapter_ok (sd_adapter d)) \<and>
    sd_journalStartOffset d \<le> sd_liveStartOffset d \<and> sd_journalStartLine d \<le> sd_liveStartLine d \<and>
    js_trim (sd_redactedSourceLabel d) = sd_redactedSourceLabel d \<and> sd_redactedSourceLabel d \<noteq> []"
  using source_descriptor.reparse[OF assms] source_descriptor.sound[OF assms]
  by (auto simp: source_descriptor_wf_def bounded_text_def)

theorem source_descriptor_normalised_witness:
  "parse_source_descriptor (JObj (descriptor_fields demo_descriptor)) = Inr demo_descriptor"
  using source_descriptor_normalised[OF source_descriptor.parse_fields[OF demo_descriptor_wf]] by simp

text \<open>The generation id of a rewrite is a UUID, for every parent generation and prefix digest.\<close>

theorem rewrite_generation_id_is_uuid:
  assumes digest: "is_sha256 (sha256_hex cr
      (''koed.conversation-source-rewrite/v1:'' @ parent @ '':'' @ prefix))"
  shows "is_uuid (rewrite_generation_id cr parent prefix)"
proof -
  define h where "h = sha256_hex cr (''koed.conversation-source-rewrite/v1:'' @ parent @ '':'' @ prefix)"
  have len: "length h = 64" and hex: "list_all is_hex_lower h"
    using digest by (simp_all add: is_sha256_iff h_def)
  have part: "list_all2 (\<lambda>p c. p c) (replicate (b - a) is_hex_lower) (slice a b h)"
    if "a \<le> b" "b \<le> 64" for a b
  proof -
    have "\<forall>c \<in> set (slice a b h). is_hex_lower c"
      using hex by (auto simp: slice_def list_all_iff dest!: in_set_takeD in_set_dropD)
    moreover have "length (slice a b h) = b - a"
      using that len by (simp add: slice_def)
    ultimately show ?thesis
      by (auto simp: list_all2_conv_all_nth)
  qed
  show ?thesis
    unfolding is_uuid_def matches_def uuid_pattern_def rewrite_generation_id_def Let_def h_def[symmetric]
    using part[of 0 8] part[of 8 12] part[of 13 16] part[of 17 20] part[of 20 32]
    by (auto simp: less_eq_char_def intro!: list_all2_appendI)
qed

theorem rewrite_generation_id_is_uuid_witness:
  "is_uuid (rewrite_generation_id demo_crypto (demo_uuid CHR ''1'') (replicate 64 CHR ''c''))"
  by (rule rewrite_generation_id_is_uuid) code_simp

lemma proof_within_limit_from_iff:
  assumes "0 \<le> acc"
  shows "proof_within_limit_from acc maximum lens \<longleftrightarrow>
    (\<exists>ns. lens = map Whole ns \<and> list_all (int_in 0) ns \<and>
       (ns = [] \<or> acc + sum_list ns \<le> min maximum max_safe_integer))"
  using assms
proof (induction lens arbitrary: acc)
  case (Cons len rest)
  show ?case
  proof (cases "safe_integer 0 (JNum len)")
    case None
    then have "\<nexists>n. len = Whole n \<and> int_in 0 n"
      by (auto simp: safe_integer_def int_in_def)
    then show ?thesis using None by (auto simp: Cons_eq_map_conv)
  next
    case (Some n)
    then have n: "len = Whole n" "int_in 0 n"
      by (auto simp: safe_integer_eq_Some int_in_def)
    have sums: "0 \<le> sum_list ns" if "list_all (int_in 0) ns" for ns
      using that by (induction ns) (auto simp: int_in_def)
    have IH: "proof_within_limit_from (acc + n) maximum rest \<longleftrightarrow>
      (\<exists>ns. rest = map Whole ns \<and> list_all (int_in 0) ns \<and>
         (ns = [] \<or> acc + n + sum_list ns \<le> min maximum max_safe_integer))"
      using Cons n by (intro Cons.IH) (simp add: int_in_def)
    show ?thesis
    proof
      assume "proof_within_limit_from acc maximum (len # rest)"
      then have "acc + n \<le> min maximum max_safe_integer" "proof_within_limit_from (acc + n) maximum rest"
        using Some by (auto split: bool.splits)
      then obtain ns where "rest = map Whole ns" "list_all (int_in 0) ns"
        "acc + n + sum_list ns \<le> min maximum max_safe_integer"
        using IH by auto
      then show "\<exists>ns. len # rest = map Whole ns \<and> list_all (int_in 0) ns \<and>
          (ns = [] \<or> acc + sum_list ns \<le> min maximum max_safe_integer)"
        using n by (intro exI[of _ "n # ns"]) (simp add: algebra_simps)
    next
      assume "\<exists>ns. len # rest = map Whole ns \<and> list_all (int_in 0) ns \<and>
          (ns = [] \<or> acc + sum_list ns \<le> min maximum max_safe_integer)"
      then obtain ns where ns: "rest = map Whole ns" "list_all (int_in 0) ns"
        "acc + n + sum_list ns \<le> min maximum max_safe_integer"
        using n by (auto simp: Cons_eq_map_conv algebra_simps)
      then have "\<not> (max_safe_integer < acc + n \<or> maximum < acc + n)"
        using sums[of ns] by auto
      then show "proof_within_limit_from acc maximum (len # rest)"
        using Some IH ns by (auto split: bool.split)
    qed
  qed
qed simp

text \<open>A rewrite proof is within the limit exactly when its lengths are nonnegative safe integers
  whose sum is a safe integer and does not exceed the maximum: checking after every length is the
  same as checking the sum.\<close>

theorem rewrite_proof_limit_is_sum_bound:
  "rewrite_proof_within_limit lens maximum \<longleftrightarrow>
     (\<exists>ns. lens = map Whole ns \<and> list_all (int_in 0) ns \<and>
        (ns = [] \<or> sum_list ns \<le> min maximum max_safe_integer))"
  unfolding rewrite_proof_within_limit_def using proof_within_limit_from_iff[of 0] by simp

end
