(* ===== verification/Js_Json.thy ===== *)
theory Js_Json
  imports Js_Value "HOL-Library.Log_Nat"
begin

text \<open>
  The parts of JavaScript's standard library that read and write text as data: the fatal UTF-8
  decoder, \<^verbatim>\<open>JSON.parse\<close>, and \<^verbatim>\<open>JSON.stringify\<close> of strings. Strings are bytes of UTF-8 (a lone
  surrogate takes the three bytes its code unit would take).
\<close>

section \<open>UTF-8\<close>

definition byte_in :: "nat \<Rightarrow> nat \<Rightarrow> char \<Rightarrow> bool" where
  "byte_in lo hi c \<longleftrightarrow> lo \<le> of_char c \<and> of_char c \<le> (hi :: nat)"

abbreviation is_cont :: "char \<Rightarrow> bool" where
  "is_cont \<equiv> byte_in 128 191"

text \<open>How a lead byte continues: the classes of its continuation bytes, \<open>None\<close> if it cannot lead.\<close>

definition utf8_tail :: "char \<Rightarrow> (char \<Rightarrow> bool) list option" where
  "utf8_tail c =
     (if byte_in 0 127 c then Some []
      else if byte_in 194 223 c then Some [is_cont]
      else if byte_in 224 224 c then Some [byte_in 160 191, is_cont]
      else if byte_in 225 236 c \<or> byte_in 238 239 c then Some [is_cont, is_cont]
      else if byte_in 237 237 c then Some [byte_in 128 159, is_cont]
      else if byte_in 240 240 c then Some [byte_in 144 191, is_cont, is_cont]
      else if byte_in 241 243 c then Some [is_cont, is_cont, is_cont]
      else if byte_in 244 244 c then Some [byte_in 128 143, is_cont, is_cont]
      else None)"

text \<open>\<open>utf8_from expect s\<close>: \<open>s\<close> is valid where the classes \<open>expect\<close> are still due.\<close>

fun utf8_from :: "(char \<Rightarrow> bool) list \<Rightarrow> string \<Rightarrow> bool" where
  "utf8_from expect [] = (expect = [])"
| "utf8_from (p # expect) (c # s) = (p c \<and> utf8_from expect s)"
| "utf8_from [] (c # s) =
     (case utf8_tail c of None \<Rightarrow> False | Some expect \<Rightarrow> utf8_from expect s)"

definition utf8_ok :: "string \<Rightarrow> bool" where
  "utf8_ok s = utf8_from [] s"

definition byte_order_mark :: string where
  "byte_order_mark = [CHR 0xEF, CHR 0xBB, CHR 0xBF]"

definition strip_bom :: "string \<Rightarrow> string" where
  "strip_bom s = (if take 3 s = byte_order_mark then drop 3 s else s)"

text \<open>\<^verbatim>\<open>new TextDecoder("utf-8", { fatal: true }).decode(bytes)\<close>\<close>

definition utf8_decode :: "string \<Rightarrow> string option" where
  "utf8_decode bytes = (if utf8_ok bytes then Some (strip_bom bytes) else None)"

lemma byte_in_ascii: "of_char c < (128 :: nat) \<Longrightarrow> utf8_tail c = Some []"
  by (simp add: utf8_tail_def byte_in_def)

lemma utf8_from_append:
  "utf8_from [] s \<Longrightarrow> utf8_from [] t \<Longrightarrow> utf8_from [] (s @ t)"
proof -
  have "utf8_from e s \<Longrightarrow> utf8_from [] t \<Longrightarrow> utf8_from e (s @ t)" for e
    by (induction e s rule: utf8_from.induct) (auto split: option.splits)
  then show "utf8_from [] s \<Longrightarrow> utf8_from [] t \<Longrightarrow> utf8_from [] (s @ t)" .
qed

lemma utf8_ok_append: "utf8_ok s \<Longrightarrow> utf8_ok t \<Longrightarrow> utf8_ok (s @ t)"
  unfolding utf8_ok_def by (rule utf8_from_append)

lemma utf8_ok_ascii: "list_all (\<lambda>c. of_char c < (128 :: nat)) s \<Longrightarrow> utf8_ok s"
  unfolding utf8_ok_def by (induction s) (simp_all add: byte_in_ascii)

section \<open>Numbers\<close>

text \<open>The double nearest to \<open>num / den\<close> (ties to even), for positive arguments: \<open>2 ^ 1024\<close> and
  more is infinite, and below the normal range the spacing is \<open>2 ^ -1074\<close>.\<close>

definition scale2 :: "int \<Rightarrow> int \<Rightarrow> int \<Rightarrow> int \<times> int" where
  "scale2 e num den = (if 0 \<le> e then (num, den * 2 ^ nat e) else (num * 2 ^ nat (- e), den))"

definition binary_exponent :: "int \<Rightarrow> int \<Rightarrow> int" where
  "binary_exponent num den =
     (let k = int (floorlog 2 (nat num)) - int (floorlog 2 (nat den));
          (a, b) = scale2 k num den
      in if b \<le> a then k else k - 1)"

definition round_half_even :: "int \<Rightarrow> int \<Rightarrow> int" where
  "round_half_even num den =
     (let q = num div den; r = num mod den in
      if 2 * r < den \<or> 2 * r = den \<and> even q then q else q + 1)"

definition double_of_ratio :: "bool \<Rightarrow> int \<Rightarrow> int \<Rightarrow> js_number" where
  "double_of_ratio negative num den =
     (if num = 0 then Whole 0
      else
        (let e = max (binary_exponent num den - 52) (- 1074);
             (a, b) = scale2 e num den;
             q = round_half_even a b;
             sq = (if negative then - q else q)
         in if 2 ^ nat (1024 - e) \<le> q then Not_finite
            else if 0 \<le> e then Whole (sq * 2 ^ nat e)
            else
              (let d = 2 ^ nat (- e); g = gcd q d in
               if g = d then Whole (sq div d) else Fraction (sq div g) (d div g))))"

definition number_of_digits :: "bool \<Rightarrow> string \<Rightarrow> string \<Rightarrow> int \<Rightarrow> js_number" where
  "number_of_digits negative whole fdigits e =
     (let m = digits_value (whole @ fdigits); e10 = e - int (length fdigits) in
      if 0 \<le> e10 then double_of_ratio negative (m * 10 ^ nat e10) 1
      else double_of_ratio negative m (10 ^ nat (- e10)))"

text \<open>\<^verbatim>\<open>-?(0|[1-9][0-9]*)(\.[0-9]+)?([eE][+-]?[0-9]+)?\<close> and what follows it.\<close>

definition scan_fraction :: "string \<Rightarrow> (string \<times> string) option" where
  "scan_fraction s =
     (case s of
        [] \<Rightarrow> Some ([], s)
      | c # r \<Rightarrow>
          if c \<noteq> CHR ''.'' then Some ([], s)
          else if takeWhile is_digit r = [] then None
          else Some (takeWhile is_digit r, dropWhile is_digit r))"

definition scan_exponent :: "string \<Rightarrow> (int \<times> string) option" where
  "scan_exponent s =
     (case s of
        [] \<Rightarrow> Some (0, s)
      | c # r \<Rightarrow>
          if c \<noteq> CHR ''e'' \<and> c \<noteq> CHR ''E'' then Some (0, s)
          else
            (let (sign, t) =
               (case r of
                  [] \<Rightarrow> (1, r)
                | d # r' \<Rightarrow> if d = CHR ''-'' then (-1, r') else if d = CHR ''+'' then (1, r') else (1, r))
             in if takeWhile is_digit t = [] then None
                else Some (sign * digits_value (takeWhile is_digit t), dropWhile is_digit t)))"

definition json_number :: "string \<Rightarrow> (js_number \<times> string) option" where
  "json_number s =
     (let negative = (take 1 s = ''-'');
          s1 = (if negative then drop 1 s else s);
          whole = takeWhile is_digit s1
      in if whole = [] \<or> 1 < length whole \<and> take 1 whole = ''0'' then None
         else
           (case scan_fraction (dropWhile is_digit s1) of
              None \<Rightarrow> None
            | Some (fdigits, s2) \<Rightarrow>
                (case scan_exponent s2 of
                   None \<Rightarrow> None
                 | Some (e, s3) \<Rightarrow> Some (number_of_digits negative whole fdigits e, s3))))"

section \<open>Strings\<close>

text \<open>The bytes of a UTF-16 code unit, and a surrogate pair as the one character it is.\<close>

definition unit_bytes :: "nat \<Rightarrow> string" where
  "unit_bytes u =
     (if u < 128 then [char_of u]
      else if u < 2048 then [char_of (192 + u div 64), char_of (128 + u mod 64)]
      else [char_of (224 + u div 4096), char_of (128 + u div 64 mod 64), char_of (128 + u mod 64)])"

definition surrogate_pair :: "string \<Rightarrow> string option" where
  "surrogate_pair s =
     (case s of
        a # b # c # d # e # f # _ \<Rightarrow>
          if of_char a = (237 :: nat) \<and> byte_in 160 175 b \<and> of_char d = (237 :: nat) \<and> byte_in 176 191 e
          then
            (let hi = (of_char b mod 16) * 64 + of_char c mod 64;
                 lo = (of_char e mod 16) * 64 + of_char f mod 64;
                 p = 65536 + hi * 1024 + lo :: nat
             in Some [char_of (240 + p div 262144), char_of (128 + p div 4096 mod 64),
                      char_of (128 + p div 64 mod 64), char_of (128 + p mod 64)])
          else None
      | _ \<Rightarrow> None)"

fun join_surrogates :: "string \<Rightarrow> string" where
  "join_surrogates [] = []"
| "join_surrogates (c # s) =
     (case surrogate_pair (c # s) of
        None \<Rightarrow> c # join_surrogates s
      | Some bytes \<Rightarrow> bytes @ join_surrogates (drop 5 s))"

definition hex_digit :: "char \<Rightarrow> nat option" where
  "hex_digit c =
     (if is_digit c then Some (of_char c - 48)
      else if CHR ''a'' \<le> c \<and> c \<le> CHR ''f'' then Some (of_char c - 87)
      else if CHR ''A'' \<le> c \<and> c \<le> CHR ''F'' then Some (of_char c - 55)
      else None)"

definition hex_unit :: "string \<Rightarrow> nat option" where
  "hex_unit s =
     (case map hex_digit s of
        [Some a, Some b, Some c, Some d] \<Rightarrow> Some (((a * 16 + b) * 16 + c) * 16 + d)
      | _ \<Rightarrow> None)"

definition simple_escape :: "char \<Rightarrow> char option" where
  "simple_escape c =
     map_of [(CHR 0x22, CHR 0x22), (CHR 0x5C, CHR 0x5C), (CHR ''/'', CHR ''/''),
       (CHR ''b'', CHR 0x08), (CHR ''f'', CHR 0x0C), (CHR ''n'', CHR 0x0A), (CHR ''r'', CHR 0x0D),
       (CHR ''t'', CHR 0x09)] c"

definition prepend :: "string \<Rightarrow> (string \<times> string) option \<Rightarrow> (string \<times> string) option" where
  "prepend t r = (case r of None \<Rightarrow> None | Some (u, s) \<Rightarrow> Some (t @ u, s))"

text \<open>After the opening quote: the characters up to the closing one, and what follows.\<close>

fun json_chars :: "string \<Rightarrow> (string \<times> string) option" where
  "json_chars [] = None"
| "json_chars (c # s) =
     (if c = CHR 0x22 then Some ([], s)
      else if c = CHR 0x5C then
        (case s of
           [] \<Rightarrow> None
         | e # s' \<Rightarrow>
             if e = CHR ''u'' then
               (case hex_unit (take 4 s') of
                  None \<Rightarrow> None
                | Some u \<Rightarrow> prepend (unit_bytes u) (json_chars (drop 4 s')))
             else
               (case simple_escape e of
                  None \<Rightarrow> None
                | Some x \<Rightarrow> prepend [x] (json_chars s')))
      else if of_char c < (32 :: nat) then None
      else prepend [c] (json_chars s))"

definition json_string :: "string \<Rightarrow> (string \<times> string) option" where
  "json_string s = map_option (\<lambda>(t, r). (join_surrogates t, r)) (json_chars s)"

text \<open>\<^verbatim>\<open>JSON.stringify\<close> of a string: quotes, backslashes, control characters and lone surrogates
  are escaped, everything else is copied.\<close>

definition hex_char :: "nat \<Rightarrow> char" where
  "hex_char n = (if n < 10 then char_of (48 + n) else char_of (87 + n))"

definition escape_unit :: "nat \<Rightarrow> string" where
  "escape_unit u =
     [CHR 0x5C, CHR ''u'', hex_char (u div 4096), hex_char (u div 256 mod 16),
      hex_char (u div 16 mod 16), hex_char (u mod 16)]"

definition escape_char :: "char \<Rightarrow> string" where
  "escape_char c =
     (case map_of [(CHR 0x22, CHR 0x22), (CHR 0x5C, CHR 0x5C), (CHR 0x08, CHR ''b''),
          (CHR 0x0C, CHR ''f''), (CHR 0x0A, CHR ''n''), (CHR 0x0D, CHR ''r''), (CHR 0x09, CHR ''t'')] c of
        Some e \<Rightarrow> [CHR 0x5C, e]
      | None \<Rightarrow> if of_char c < (32 :: nat) then escape_unit (of_char c) else [c])"

fun json_escape :: "string \<Rightarrow> string" where
  "json_escape (a # b # c # s) =
     (if of_char a = (237 :: nat) \<and> byte_in 160 191 b
      then escape_unit (53248 + (of_char b mod 64) * 64 + of_char c mod 64) @ json_escape s
      else escape_char a @ json_escape (b # c # s))"
| "json_escape (a # s) = escape_char a @ json_escape s"
| "json_escape [] = []"

definition json_quote :: "string \<Rightarrow> string" where
  "json_quote s = CHR 0x22 # json_escape s @ [CHR 0x22]"

section \<open>Values\<close>

definition skip_ws :: "string \<Rightarrow> string" where
  "skip_ws s = dropWhile (\<lambda>c. c \<in> {CHR 0x20, CHR 0x09, CHR 0x0A, CHR 0x0D}) s"

text \<open>Setting a member: a key that is already there keeps its place and gets the new value.\<close>

fun put_member :: "string \<Rightarrow> js_value \<Rightarrow> members \<Rightarrow> members" where
  "put_member k v [] = [(k, v)]"
| "put_member k v ((k', w) # kvs) = (if k' = k then (k, v) # kvs else (k', w) # put_member k v kvs)"

text \<open>Recursive descent; the first argument bounds the depth and is more than enough when it
  exceeds the length of the text, since every call reads a character.\<close>

fun json_value :: "nat \<Rightarrow> string \<Rightarrow> (js_value \<times> string) option"
  and json_elements :: "nat \<Rightarrow> js_value list \<Rightarrow> string \<Rightarrow> (js_value \<times> string) option"
  and json_members :: "nat \<Rightarrow> members \<Rightarrow> string \<Rightarrow> (js_value \<times> string) option" where
  "json_value 0 s = None"
| "json_value (Suc n) s =
     (case skip_ws s of
        [] \<Rightarrow> None
      | c # r \<Rightarrow>
          if c = CHR 0x7B then
            (if take 1 (skip_ws r) = [CHR 0x7D] then Some (JObj [], drop 1 (skip_ws r))
             else json_members n [] r)
          else if c = CHR 0x5B then
            (if take 1 (skip_ws r) = [CHR 0x5D] then Some (JArr [], drop 1 (skip_ws r))
             else json_elements n [] r)
          else if c = CHR 0x22 then map_option (\<lambda>(t, r'). (JStr t, r')) (json_string r)
          else if take 4 (c # r) = ''true'' then Some (JBool True, drop 4 (c # r))
          else if take 5 (c # r) = ''false'' then Some (JBool False, drop 5 (c # r))
          else if take 4 (c # r) = ''null'' then Some (JNull, drop 4 (c # r))
          else map_option (\<lambda>(x, r'). (JNum x, r')) (json_number (c # r)))"
| "json_elements 0 vs s = None"
| "json_elements (Suc n) vs s =
     (case json_value n s of
        None \<Rightarrow> None
      | Some (v, r) \<Rightarrow>
          (case skip_ws r of
             [] \<Rightarrow> None
           | c # r' \<Rightarrow>
               if c = CHR 0x5D then Some (JArr (vs @ [v]), r')
               else if c = CHR '','' then json_elements n (vs @ [v]) r'
               else None))"
| "json_members 0 kvs s = None"
| "json_members (Suc n) kvs s =
     (case skip_ws s of
        [] \<Rightarrow> None
      | c # r \<Rightarrow>
          if c \<noteq> CHR 0x22 then None
          else
            (case json_string r of
               None \<Rightarrow> None
             | Some (k, r1) \<Rightarrow>
                 if take 1 (skip_ws r1) \<noteq> '':'' then None
                 else
                   (case json_value n (drop 1 (skip_ws r1)) of
                      None \<Rightarrow> None
                    | Some (v, r2) \<Rightarrow>
                        (case skip_ws r2 of
                           [] \<Rightarrow> None
                         | d # r3 \<Rightarrow>
                             if d = CHR 0x7D then Some (JObj (put_member k v kvs), r3)
                             else if d = CHR '','' then json_members n (put_member k v kvs) r3
                             else None))))"

text \<open>\<^verbatim>\<open>JSON.parse\<close>; \<open>None\<close> is the SyntaxError.\<close>

definition json_parse :: "string \<Rightarrow> js_value option" where
  "json_parse s =
     (case json_value (2 * length s + 2) s of
        None \<Rightarrow> None
      | Some (v, r) \<Rightarrow> if skip_ws r = [] then Some v else None)"

section \<open>A quoted string reads back\<close>

text \<open>In valid UTF-8 no three bytes encode a surrogate.\<close>

fun surrogate_free :: "string \<Rightarrow> bool" where
  "surrogate_free (a # b # s) \<longleftrightarrow>
     \<not> (of_char a = (237 :: nat) \<and> byte_in 160 191 b) \<and> surrogate_free (b # s)"
| "surrogate_free _ \<longleftrightarrow> True"

lemma surrogate_free_Cons: "of_char c \<noteq> (237 :: nat) \<Longrightarrow> surrogate_free s \<Longrightarrow> surrogate_free (c # s)"
  by (cases s) simp_all

lemma utf8_tail_cont:
  "utf8_tail c = Some e \<Longrightarrow> list_all (\<lambda>p. \<forall>d. p d \<longrightarrow> is_cont d) e"
  by (auto simp: utf8_tail_def byte_in_def split: if_splits)

lemma utf8_tail_237: "of_char c = (237 :: nat) \<Longrightarrow> utf8_tail c = Some [byte_in 128 159, is_cont]"
  by (simp add: utf8_tail_def byte_in_def)

lemma utf8_surrogate_free:
  "utf8_from e s \<Longrightarrow> list_all (\<lambda>p. \<forall>d. p d \<longrightarrow> is_cont d) e \<Longrightarrow> surrogate_free s"
proof (induction e s rule: utf8_from.induct)
  case (2 p e c s)
  then have "is_cont c" by simp
  then show ?case using 2 by (intro surrogate_free_Cons) (auto simp: byte_in_def)
next
  case (3 c s)
  then obtain e where e: "utf8_tail c = Some e" "utf8_from e s" by (auto split: option.splits)
  then have free: "surrogate_free s" using 3 utf8_tail_cont by blast
  show ?case
  proof (cases "of_char c = (237 :: nat)")
    case True
    then show ?thesis
      using e free by (cases s) (auto simp: utf8_tail_237 byte_in_def)
  qed (simp add: surrogate_free_Cons free)
qed simp

lemma surrogate_pair_free: "surrogate_free s \<Longrightarrow> surrogate_pair s = None"
  by (auto simp: surrogate_pair_def byte_in_def split: list.splits)

lemma surrogate_free_tl: "surrogate_free (c # s) \<Longrightarrow> surrogate_free s"
  by (cases s) simp_all

lemma join_surrogates_free: "surrogate_free s \<Longrightarrow> join_surrogates s = s"
proof (induction s rule: join_surrogates.induct)
  case (2 c s)
  then show ?case using surrogate_pair_free[OF 2(3)] surrogate_free_tl by auto
qed simp

lemma json_escape_free: "surrogate_free s \<Longrightarrow> json_escape s = concat (map escape_char s)"
  by (induction s rule: json_escape.induct) auto

lemma hex_digit_hex_char: "n < 16 \<Longrightarrow> hex_digit (hex_char n) = Some n"
  by (auto simp: hex_digit_def hex_char_def is_digit_def less_eq_char_def)

lemma json_chars_escape_unit:
  assumes "of_char c < (32 :: nat)"
  shows "json_chars (escape_unit (of_char c) @ t) = prepend [c] (json_chars t)"
proof -
  have "of_char c div 16 < (16 :: nat)" using assms by simp
  then have "hex_unit [hex_char (of_char c div 4096), hex_char (of_char c div 256 mod 16),
      hex_char (of_char c div 16 mod 16), hex_char (of_char c mod 16)] = Some (of_char c)"
    using assms by (simp add: hex_unit_def hex_digit_hex_char)
  then show ?thesis
    using assms by (simp add: escape_unit_def unit_bytes_def)
qed

lemma json_chars_escape_char: "json_chars (escape_char c @ t) = prepend [c] (json_chars t)"
proof -
  have "json_chars (escape_char c @ t) = prepend [c] (json_chars t)"
    if "c \<in> {CHR 0x22, CHR 0x5C, CHR 0x08, CHR 0x0C, CHR 0x0A, CHR 0x0D, CHR 0x09}"
    using that by (auto simp: escape_char_def simple_escape_def)
  moreover have "json_chars (escape_char c @ t) = prepend [c] (json_chars t)"
    if "c \<notin> {CHR 0x22, CHR 0x5C, CHR 0x08, CHR 0x0C, CHR 0x0A, CHR 0x0D, CHR 0x09}"
  proof (cases "of_char c < (32 :: nat)")
    case True
    then show ?thesis using that by (simp add: escape_char_def json_chars_escape_unit)
  next
    case False
    then show ?thesis using that by (simp add: escape_char_def)
  qed
  ultimately show ?thesis by blast
qed

lemma json_chars_escaped:
  "json_chars (concat (map escape_char s) @ CHR 0x22 # r) = Some (s, r)"
  by (induction s) (simp_all add: json_chars_escape_char prepend_def)

lemma json_string_escaped:
  assumes "utf8_ok s"
  shows "json_string (json_escape s @ CHR 0x22 # r) = Some (s, r)"
proof -
  have "surrogate_free s"
    using assms utf8_surrogate_free unfolding utf8_ok_def by force
  then show ?thesis
    by (simp add: json_string_def json_escape_free json_chars_escaped join_surrogates_free)
qed

text \<open>Quoting keeps the text valid and puts it on one line.\<close>

lemma escape_char_high:
  assumes "128 \<le> (of_char c :: nat)"
  shows "escape_char c = [c]"
proof -
  have "c \<notin> {CHR 0x22, CHR 0x5C, CHR 0x08, CHR 0x0C, CHR 0x0A, CHR 0x0D, CHR 0x09}"
    using assms by auto
  then show ?thesis using assms by (simp add: escape_char_def)
qed

lemma hex_char_code: "n < 16 \<Longrightarrow> of_char (hex_char n) = (if n < 10 then 48 + n else 87 + n)"
  by (simp add: hex_char_def)

lemma hex_char_ascii: "n < 16 \<Longrightarrow> of_char (hex_char n) < (128 :: nat)"
  by (simp add: hex_char_code)

lemma escape_char_ascii:
  assumes "of_char c < (128 :: nat)"
  shows "list_all (\<lambda>d. of_char d < (128 :: nat)) (escape_char c)"
proof (cases "c \<in> {CHR 0x22, CHR 0x5C, CHR 0x08, CHR 0x0C, CHR 0x0A, CHR 0x0D, CHR 0x09}")
  case True
  then show ?thesis by (auto simp: escape_char_def)
next
  case False
  then show ?thesis
    using assms by (auto simp: escape_char_def escape_unit_def hex_char_ascii)
qed

lemma utf8_from_ascii_append:
  "list_all (\<lambda>c. of_char c < (128 :: nat)) a \<Longrightarrow> utf8_from [] (a @ s) = utf8_from [] s"
  by (induction a) (simp_all add: byte_in_ascii)

lemma utf8_from_escape: "utf8_from e s \<Longrightarrow> list_all (\<lambda>p. \<forall>d. p d \<longrightarrow> is_cont d) e \<Longrightarrow>
    utf8_from e (concat (map escape_char s))"
proof (induction e s rule: utf8_from.induct)
  case (2 p e c s)
  then have "128 \<le> (of_char c :: nat)" by (auto simp: byte_in_def)
  then show ?case using 2 by (simp add: escape_char_high)
next
  case (3 c s)
  then obtain e where e: "utf8_tail c = Some e" "utf8_from e s" by (auto split: option.splits)
  then have IH: "utf8_from e (concat (map escape_char s))" using 3 utf8_tail_cont by blast
  show ?case
  proof (cases "of_char c < (128 :: nat)")
    case True
    then show ?thesis using e IH by (simp add: utf8_from_ascii_append escape_char_ascii byte_in_ascii)
  next
    case False
    then show ?thesis using e IH by (simp add: escape_char_high)
  qed
qed simp

lemma utf8_ok_escape: "utf8_ok s \<Longrightarrow> utf8_ok (json_escape s)"
  using utf8_from_escape[of "[]" s] utf8_surrogate_free[of "[]" s]
  by (simp add: utf8_ok_def json_escape_free)

lemma escape_char_line: "CHR 0x0A \<notin> set (escape_char c)"
proof (cases "c \<in> {CHR 0x22, CHR 0x5C, CHR 0x08, CHR 0x0C, CHR 0x0A, CHR 0x0D, CHR 0x09}")
  case True
  then show ?thesis by (auto simp: escape_char_def)
next
  case False
  have "CHR 0x0A \<noteq> hex_char n" if "n < 16" for n
  proof
    assume "CHR 0x0A = hex_char n"
    then have "of_char (hex_char n) = (10 :: nat)" by (simp flip: \<open>CHR 0x0A = hex_char n\<close>)
    then show False using hex_char_code[OF that] by (simp split: if_splits)
  qed
  then have "CHR 0x0A \<notin> set (escape_unit (of_char c))" if "of_char c < (32 :: nat)"
    using that by (simp add: escape_unit_def)
  then show ?thesis using False by (auto simp: escape_char_def)
qed

lemma json_escape_line: "utf8_ok s \<Longrightarrow> CHR 0x0A \<notin> set (json_escape s)"
  using utf8_surrogate_free[of "[]" s] escape_char_line
  by (auto simp: utf8_ok_def json_escape_free)

end
