(* ===== verification/Realtime_Frames.thy ===== *)
theory Realtime_Frames
  imports Js_Json Protocol_Fields
begin

text \<open>
  The frames of a durable realtime stream, \<^verbatim>\<open>packages/shared/src/durable-realtime.ts\<close>: one JSON
  object per line, encoded within a byte limit and read back from a stream of chunks. A stream
  is the list of the chunks its reader yields; \<open>Abort\<close> in the list is a read before which the
  signal was found aborted. An abort during a read cancels the reader, whose stream then ends.

  A handler of frames is a function of the frames it has been given before and the new one.
\<close>

section \<open>Frames\<close>

record stream_frame =
  sf_event :: string
  sf_data :: string
  sf_id :: "string option"

text \<open>\<^verbatim>\<open>/^[a-z][a-z0-9_]{0,63}$/\<close> and \<^verbatim>\<open>/^[\x21-\x7e]{1,4096}$/\<close>\<close>

definition event_name_ok :: "string \<Rightarrow> bool" where
  "event_name_ok s =
     (case s of
        [] \<Rightarrow> False
      | c # rest \<Rightarrow>
          is_lower c \<and> length rest \<le> 63 \<and> list_all (\<lambda>d. is_lower_alnum d \<or> d = CHR ''_'') rest)"

definition event_id_ok :: "string \<Rightarrow> bool" where
  "event_id_ok s \<longleftrightarrow> 1 \<le> length s \<and> length s \<le> 4096 \<and> list_all (\<lambda>c. CHR 0x21 \<le> c \<and> c \<le> CHR 0x7E) s"

definition frame_error :: js_error where
  "frame_error = PlainError ''Durable realtime frame is invalid''"

definition limit_error :: js_error where
  "limit_error = PlainError ''Durable realtime frame exceeded its byte limit''"

text \<open>\<^verbatim>\<open>assertDurableRealtimeFrame\<close>: only the three members may be there; a missing id is not null.\<close>

definition frame_id :: "js_value \<Rightarrow> string option result" where
  "frame_id v =
     (case v of
        JNull \<Rightarrow> Inr None
      | JStr i \<Rightarrow> if event_id_ok i then Inr (Some i) else Inl frame_error
      | _ \<Rightarrow> Inl frame_error)"

definition assert_frame :: "js_value \<Rightarrow> stream_frame result" where
  "assert_frame value =
     (case value of
        JObj frame \<Rightarrow>
          (case (fld frame ''event'', fld frame ''data'') of
             (JStr event, JStr data) \<Rightarrow>
               ebind (throw_if (list_ex (\<lambda>(k, v). k \<noteq> ''event'' \<and> k \<noteq> ''data'' \<and> k \<noteq> ''id'') frame \<or>
                                \<not> event_name_ok event) frame_error) (\<lambda>_.
               ebind (frame_id (fld frame ''id'')) (\<lambda>i.
               Inr \<lparr> sf_event = event, sf_data = data, sf_id = i \<rparr>))
           | _ \<Rightarrow> Inl frame_error)
      | _ \<Rightarrow> Inl frame_error)"

text \<open>\<^verbatim>\<open>JSON.stringify\<close> of the normalized frame.\<close>

definition stringify_frame :: "stream_frame \<Rightarrow> string" where
  "stringify_frame f =
     [CHR 0x7B] @ json_quote ''event'' @ '':'' @ json_quote (sf_event f) @ '','' @
     json_quote ''data'' @ '':'' @ json_quote (sf_data f) @ '','' @
     json_quote ''id'' @ '':'' @
     (case sf_id f of None \<Rightarrow> ''null'' | Some i \<Rightarrow> json_quote i) @ [CHR 0x7D]"

definition frame_value :: "stream_frame \<Rightarrow> js_value" where
  "frame_value f =
     JObj [(''event'', JStr (sf_event f)), (''data'', JStr (sf_data f)), (''id'', js_null_or (sf_id f))]"

definition frame_wf :: "stream_frame \<Rightarrow> bool" where
  "frame_wf f \<longleftrightarrow> event_name_ok (sf_event f) \<and> if_present event_id_ok (sf_id f)"

definition require_frame_limit :: "js_value \<Rightarrow> int result" where
  "require_frame_limit maxFrameBytes =
     (case safe_integer 1 maxFrameBytes of
        None \<Rightarrow> Inl (TypeError ''Durable realtime frame byte limit is invalid'')
      | Some n \<Rightarrow> Inr n)"

text \<open>\<^verbatim>\<open>encodeDurableRealtimeStreamFrame\<close>\<close>

definition encode_frame :: "stream_frame \<Rightarrow> js_value \<Rightarrow> string result" where
  "encode_frame frame maxFrameBytes =
     ebind (require_frame_limit maxFrameBytes) (\<lambda>limit.
     ebind (assert_frame (frame_value frame)) (\<lambda>normalized.
     let encoded = stringify_frame normalized @ [CHR 0x0A] in
     ebind (throw_if (limit < int (length encoded)) limit_error) (\<lambda>_.
     Inr encoded)))"

lemma require_frame_limit_iff: "require_frame_limit v = Inr n \<longleftrightarrow> v = js_int n \<and> int_in 1 n"
  by (auto simp: require_frame_limit_def safe_integer_eq_Some js_int_def int_in_def safe_integer_def
      split: option.splits js_value.splits js_number.splits if_splits)

lemma frame_id_iff: "frame_id v = Inr i \<longleftrightarrow> v = js_null_or i \<and> if_present event_id_ok i"
  by (cases v; cases i) (auto simp: frame_id_def)

lemma assert_frame_sound: "assert_frame v = Inr f \<Longrightarrow> frame_wf f"
  by (auto simp: assert_frame_def frame_wf_def result_simps frame_id_iff split: js_value.splits)

lemma assert_frame_value: "frame_wf f \<Longrightarrow> assert_frame (frame_value f) = Inr f"
  by (cases f) (simp add: assert_frame_def frame_value_def frame_wf_def result_simps frame_id_iff
      fld_Cons)

section \<open>The reader\<close>

datatype verdict = Continue | Terminal | Handler_throws js_error

type_synonym frame_handler = "stream_frame list \<Rightarrow> stream_frame \<Rightarrow> verdict"

datatype read_event = Data string | Abort

text \<open>The bytes of the unfinished frame and the frames handed over so far; how the reading goes
  on, or how it ended and with which frames handed over.\<close>

record reader_state =
  rs_pending :: string
  rs_delivered :: "stream_frame list"

datatype read_status = Ended | Stopped | Threw js_error

datatype reading = Reading reader_state | Done read_status "stream_frame list"

text \<open>\<^verbatim>\<open>append\<close>; the limit leaves room for the line terminator.\<close>

definition append_bytes :: "int \<Rightarrow> string \<Rightarrow> reader_state \<Rightarrow> reading" where
  "append_bytes limit bytes st =
     (if limit < int (length (rs_pending st)) + int (length bytes) + 1
      then Done (Threw limit_error) (rs_delivered st)
      else Reading (st \<lparr> rs_pending := rs_pending st @ bytes \<rparr>))"

definition deliver :: "frame_handler \<Rightarrow> stream_frame \<Rightarrow> reader_state \<Rightarrow> reading" where
  "deliver h f st =
     (case h (rs_delivered st) f of
        Continue \<Rightarrow> Reading (st \<lparr> rs_delivered := rs_delivered st @ [f] \<rparr>)
      | Terminal \<Rightarrow> Done Stopped (rs_delivered st @ [f])
      | Handler_throws e \<Rightarrow> Done (Threw e) (rs_delivered st @ [f]))"

text \<open>\<^verbatim>\<open>consume\<close>\<close>

definition parse_line :: "string \<Rightarrow> stream_frame result" where
  "parse_line encoded =
     (case utf8_decode encoded of
        None \<Rightarrow> Inl frame_error
      | Some line \<Rightarrow>
          (case json_parse line of None \<Rightarrow> Inl frame_error | Some v \<Rightarrow> assert_frame v))"

definition consume_frame :: "frame_handler \<Rightarrow> reader_state \<Rightarrow> reading" where
  "consume_frame h st =
     (if rs_pending st = [] then Reading st
      else
        (case parse_line (rs_pending st) of
           Inl e \<Rightarrow> Done (Threw e) (rs_delivered st)
         | Inr f \<Rightarrow> deliver h f (st \<lparr> rs_pending := [] \<rparr>)))"

definition and_then :: "reading \<Rightarrow> (reader_state \<Rightarrow> reading) \<Rightarrow> reading" where
  "and_then r k = (case r of Reading st \<Rightarrow> k st | Done s fs \<Rightarrow> Done s fs)"

text \<open>The loop over the bytes of a chunk; \<open>seg\<close> is \<^verbatim>\<open>chunk.subarray(offset, index)\<close>.\<close>

fun read_chunk :: "int \<Rightarrow> frame_handler \<Rightarrow> string \<Rightarrow> string \<Rightarrow> reader_state \<Rightarrow> reading" where
  "read_chunk limit h seg [] st = append_bytes limit seg st"
| "read_chunk limit h seg (b # bs) st =
     (if b \<noteq> CHR 0x0A then read_chunk limit h (seg @ [b]) bs st
      else
        and_then (append_bytes limit seg st) (\<lambda>st1.
        and_then (consume_frame h st1) (\<lambda>st2.
        read_chunk limit h [] bs st2)))"

fun read_events :: "int \<Rightarrow> frame_handler \<Rightarrow> read_event list \<Rightarrow> reader_state \<Rightarrow> reading" where
  "read_events limit h [] st =
     and_then (consume_frame h st) (\<lambda>st'. Done Ended (rs_delivered st'))"
| "read_events limit h (Abort # evs) st = Done Stopped (rs_delivered st)"
| "read_events limit h (Data chunk # evs) st =
     and_then (read_chunk limit h [] chunk st) (read_events limit h evs)"

definition reader_start :: reader_state where
  "reader_start = \<lparr> rs_pending = [], rs_delivered = [] \<rparr>"

text \<open>\<^verbatim>\<open>readBoundedDurableRealtimeStream\<close>\<close>

definition read_stream :: "js_value \<Rightarrow> frame_handler \<Rightarrow> read_event list \<Rightarrow> reading result" where
  "read_stream maxFrameBytes h evs =
     ebind (require_frame_limit maxFrameBytes) (\<lambda>limit. Inr (read_events limit h evs reader_start))"

lemma and_then_simps [simp]:
  "and_then (Reading st) k = k st" "and_then (Done s fs) k = Done s fs"
  by (simp_all add: and_then_def)

lemma and_then_assoc: "and_then (and_then r f) g = and_then r (\<lambda>st. and_then (f st) g)"
  by (cases r) simp_all

lemma and_then_cong [fundef_cong]:
  "r = r' \<Longrightarrow> (\<And>st. r' = Reading st \<Longrightarrow> f st = g st) \<Longrightarrow> and_then r f = and_then r' g"
  by (cases r') simp_all

section \<open>Where the chunks end does not matter\<close>

text \<open>Bytes read before a chunk ended count as if the chunk had gone on.\<close>

lemma read_chunk_shift:
  assumes "\<not> limit < int (length (rs_pending st)) + int (length a) + 1"
  shows "read_chunk limit h b xs (st \<lparr> rs_pending := rs_pending st @ a \<rparr>) = read_chunk limit h (a @ b) xs st"
  using assms
proof (induction xs arbitrary: b)
  case Nil
  then show ?case by (simp add: append_bytes_def algebra_simps)
next
  case (Cons x xs)
  have "append_bytes limit b (st \<lparr> rs_pending := rs_pending st @ a \<rparr>) = append_bytes limit (a @ b) st"
    by (simp add: append_bytes_def algebra_simps)
  then show ?case using Cons.IH[of "b @ [x]"] Cons.prems by simp
qed

lemma read_chunk_too_long:
  assumes "limit < int (length (rs_pending st)) + int (length seg) + 1"
  shows "read_chunk limit h seg xs st = Done (Threw limit_error) (rs_delivered st)"
  using assms
proof (induction xs arbitrary: seg)
  case (Cons x xs)
  then show ?case by (simp add: append_bytes_def)
qed (simp add: append_bytes_def)

lemma read_chunk_append:
  "read_chunk limit h seg (xs @ ys) st = and_then (read_chunk limit h seg xs st) (read_chunk limit h [] ys)"
proof (induction xs arbitrary: seg st)
  case Nil
  show ?case
  proof (cases "limit < int (length (rs_pending st)) + int (length seg) + 1")
    case True
    then show ?thesis using read_chunk_too_long[OF True] by (simp add: append_bytes_def)
  next
    case False
    then show ?thesis using read_chunk_shift[OF False, of h "[]" ys] by (simp add: append_bytes_def)
  qed
next
  case (Cons x xs)
  show ?case
    by (simp add: Cons.IH and_then_assoc cong: and_then_cong)
qed

lemma read_events_Data:
  "read_events limit h (Data c # evs) = (\<lambda>st. and_then (read_chunk limit h [] c st) (read_events limit h evs))"
  by (rule ext) simp

lemma read_events_merge:
  "read_events limit h (Data a # Data b # evs) st = read_events limit h (Data (a @ b) # evs) st"
  by (simp add: read_chunk_append and_then_assoc read_events_Data del: read_events.simps)

lemma read_events_concat:
  "cs \<noteq> [] \<Longrightarrow> read_events limit h (map Data cs @ evs) st = read_events limit h (Data (concat cs) # evs) st"
proof (induction cs arbitrary: st)
  case (Cons c cs)
  show ?case
  proof (cases "cs = []")
    case False
    have "read_events limit h (map Data (c # cs) @ evs) st =
        and_then (read_chunk limit h [] c st) (read_events limit h (Data (concat cs) # evs))"
      using Cons.IH[OF False] by (simp cong: and_then_cong del: read_events.simps(3) add: read_events_Data)
    then show ?thesis
      by (simp add: read_chunk_append and_then_assoc read_events_Data del: read_events.simps)
  qed simp
qed simp

section \<open>What was encoded is read\<close>

lemma event_name_ascii:
  assumes "event_name_ok s"
  shows "list_all (\<lambda>c. of_char c < (128 :: nat)) s"
  using assms by (auto simp: event_name_ok_def list_all_iff is_lower_alnum_def is_lower_def is_digit_def
      less_eq_char_def split: list.splits)

lemma event_id_ascii:
  assumes "event_id_ok s"
  shows "list_all (\<lambda>c. of_char c < (128 :: nat)) s"
  using assms by (auto simp: event_id_ok_def list_all_iff less_eq_char_def)

definition frame_text_ok :: "stream_frame \<Rightarrow> bool" where
  "frame_text_ok f \<longleftrightarrow> frame_wf f \<and> utf8_ok (sf_data f)"

lemma frame_texts_utf8:
  assumes "frame_text_ok f"
  shows "utf8_ok (sf_event f)" "utf8_ok (sf_data f)" "if_present utf8_ok (sf_id f)"
  using assms event_name_ascii event_id_ascii utf8_ok_ascii
  by (cases "sf_id f"; auto simp: frame_text_ok_def frame_wf_def)+

lemma json_quote_utf8: "utf8_ok s \<Longrightarrow> utf8_ok (json_quote s)"
  unfolding json_quote_def
  using utf8_ok_append[OF utf8_ok_append[of "[CHR 0x22]" "json_escape s"], of "[CHR 0x22]"]
  by (simp add: utf8_ok_escape utf8_ok_ascii)

lemma json_quote_line: "utf8_ok s \<Longrightarrow> CHR 0x0A \<notin> set (json_quote s)"
  by (simp add: json_quote_def json_escape_line)

lemma json_string_quote: "utf8_ok s \<Longrightarrow> json_string (json_escape s @ CHR 0x22 # r) = Some (s, r)"
  by (rule json_string_escaped)

text \<open>The line of a frame: valid UTF-8, no newline in it, and it parses as the frame's object.\<close>

lemma stringify_frame_line:
  assumes "frame_text_ok f"
  shows "CHR 0x0A \<notin> set (stringify_frame f)"
proof -
  have name: "CHR 0x0A \<notin> set (json_quote ''event'')" "CHR 0x0A \<notin> set (json_quote ''data'')"
    "CHR 0x0A \<notin> set (json_quote ''id'')" by code_simp+
  have texts: "CHR 0x0A \<notin> set (json_quote (sf_event f))" "CHR 0x0A \<notin> set (json_quote (sf_data f))"
    "if_present (\<lambda>i. CHR 0x0A \<notin> set (json_quote i)) (sf_id f)"
    using frame_texts_utf8[OF assms] by (cases "sf_id f"; simp add: json_quote_line)+
  show ?thesis
    using name texts by (cases "sf_id f") (simp_all add: stringify_frame_def)
qed

lemma stringify_frame_utf8:
  assumes "frame_text_ok f"
  shows "utf8_ok (stringify_frame f)"
proof -
  have ascii: "utf8_ok [CHR 0x7B]" "utf8_ok '':''" "utf8_ok '',''" "utf8_ok ''null''" "utf8_ok [CHR 0x7D]"
    "utf8_ok ''event''" "utf8_ok ''data''" "utf8_ok ''id''" by code_simp+
  have "utf8_ok (case sf_id f of None \<Rightarrow> ''null'' | Some i \<Rightarrow> json_quote i)"
    using frame_texts_utf8(3)[OF assms] ascii by (cases "sf_id f") (simp_all add: json_quote_utf8)
  then show ?thesis
    unfolding stringify_frame_def
    by (intro utf8_ok_append json_quote_utf8 ascii frame_texts_utf8(1,2)[OF assms])
qed

lemma json_value_quote: "utf8_ok s \<Longrightarrow> json_value (Suc n) (json_quote s @ r) = Some (JStr s, r)"
  by (simp add: json_quote_def skip_ws_def json_string_quote)

lemma json_value_null: "json_value (Suc n) (''null'' @ r) = Some (JNull, r)"
  by (simp add: skip_ws_def)

lemma json_members_next:
  assumes "utf8_ok k" "json_value n s = Some (v, CHR '','' # r)"
  shows "json_members (Suc n) kvs (json_quote k @ '':'' @ s) = json_members n (put_member k v kvs) r"
  using assms by (simp add: json_quote_def skip_ws_def json_string_quote)

lemma json_members_last:
  assumes "utf8_ok k" "json_value n s = Some (v, CHR 0x7D # r)"
  shows "json_members (Suc n) kvs (json_quote k @ '':'' @ s) = Some (JObj (put_member k v kvs), r)"
  using assms by (simp add: json_quote_def skip_ws_def json_string_quote)

lemma json_value_members:
  "json_value (Suc n) (CHR 0x7B # json_quote k @ r) = json_members n [] (json_quote k @ r)"
  by (simp add: skip_ws_def json_quote_def)

lemma json_value_frame:
  assumes "frame_text_ok f"
  shows "json_value (Suc (Suc (Suc (Suc (Suc n))))) (stringify_frame f) = Some (frame_value f, [])"
proof -
  have keys: "utf8_ok ''event''" "utf8_ok ''data''" "utf8_ok ''id''" by code_simp+
  note texts = frame_texts_utf8[OF assms]
  let ?id = "case sf_id f of None \<Rightarrow> ''null'' | Some i \<Rightarrow> json_quote i"
  let ?three = "json_quote ''id'' @ '':'' @ ?id @ [CHR 0x7D]"
  let ?two = "json_quote ''data'' @ '':'' @ json_quote (sf_data f) @ CHR '','' # ?three"
  let ?one = "json_quote ''event'' @ '':'' @ json_quote (sf_event f) @ CHR '','' # ?two"
  have id: "json_value (Suc n) (?id @ [CHR 0x7D]) = Some (js_null_or (sf_id f), [CHR 0x7D])"
    using texts(3) json_value_null[of n "[CHR 0x7D]"] json_value_quote by (cases "sf_id f") simp_all
  have three: "json_members (Suc (Suc n)) kvs ?three =
      Some (JObj (put_member ''id'' (js_null_or (sf_id f)) kvs), [])" for kvs
    by (rule json_members_last[OF keys(3) id])
  have two: "json_members (Suc (Suc (Suc n))) kvs ?two =
      Some (JObj (put_member ''id'' (js_null_or (sf_id f)) (put_member ''data'' (JStr (sf_data f)) kvs)), [])" for kvs
    by (rule trans[OF json_members_next[OF keys(2) json_value_quote[OF texts(2)]] three])
  have one: "json_members (Suc (Suc (Suc (Suc n)))) [] ?one =
      Some (JObj (put_member ''id'' (js_null_or (sf_id f)) (put_member ''data'' (JStr (sf_data f))
        (put_member ''event'' (JStr (sf_event f)) []))), [])"
    by (rule trans[OF json_members_next[OF keys(1) json_value_quote[OF texts(1)]] two])
  have "stringify_frame f = CHR 0x7B # ?one"
    by (simp add: stringify_frame_def)
  then show ?thesis
    by (simp only: json_value_members one) (simp add: frame_value_def)
qed

lemma stringify_frame_parses:
  assumes "frame_text_ok f"
  shows "json_parse (stringify_frame f) = Some (frame_value f)"
proof -
  have "3 \<le> length (stringify_frame f)" by (simp add: stringify_frame_def json_quote_def)
  then obtain m where "length (stringify_frame f) = 3 + m" by (metis le_iff_add)
  then have "2 * length (stringify_frame f) + 2 = Suc (Suc (Suc (Suc (Suc (2 * m + 3)))))" by simp
  then show ?thesis
    by (simp only: json_parse_def json_value_frame[OF assms]) (simp add: skip_ws_def)
qed

lemma parse_stringified_frame:
  assumes "frame_text_ok f"
  shows "parse_line (stringify_frame f) = Inr f"
proof -
  have "strip_bom (stringify_frame f) = stringify_frame f"
    by (simp add: strip_bom_def byte_order_mark_def stringify_frame_def)
  then show ?thesis
    using assms by (simp add: parse_line_def utf8_decode_def stringify_frame_utf8 stringify_frame_parses
        assert_frame_value frame_text_ok_def)
qed

lemma encode_frame_iff:
  "encode_frame f v = Inr bytes \<longleftrightarrow>
     (\<exists>limit. v = js_int limit \<and> int_in 1 limit \<and> frame_wf f \<and> bytes = stringify_frame f @ [CHR 0x0A] \<and>
        int (length bytes) \<le> limit)"
proof -
  have "assert_frame (frame_value f) = Inr g \<longleftrightarrow> frame_wf f \<and> g = f" for g
  proof
    assume g: "assert_frame (frame_value f) = Inr g"
    have "g = f" using g
      by (auto simp: assert_frame_def frame_value_def result_simps frame_id_iff fld_Cons)
    then show "frame_wf f \<and> g = f" using g assert_frame_sound by blast
  qed (auto simp: assert_frame_value)
  then show ?thesis
    by (auto simp: encode_frame_def result_simps require_frame_limit_iff Let_def not_less)
qed

text \<open>A line within the limit is consumed as one frame.\<close>

lemma read_chunk_line:
  "CHR 0x0A \<notin> set xs \<Longrightarrow>
   read_chunk limit h seg (xs @ CHR 0x0A # ys) st =
     and_then (append_bytes limit (seg @ xs) st) (\<lambda>st1.
     and_then (consume_frame h st1) (\<lambda>st2. read_chunk limit h [] ys st2))"
  by (induction xs arbitrary: seg) auto

lemma read_encoded_frame:
  assumes "frame_text_ok f" "encode_frame f (js_int limit) = Inr bytes" "rs_pending st = []"
  shows "read_chunk limit h [] (bytes @ ys) st = and_then (deliver h f st) (read_chunk limit h [] ys)"
proof -
  from assms(2) have bytes: "bytes = stringify_frame f @ [CHR 0x0A]" "int (length bytes) \<le> limit"
    by (auto simp: encode_frame_iff js_int_def)
  then have "append_bytes limit (stringify_frame f) st = Reading (st \<lparr> rs_pending := stringify_frame f \<rparr>)"
    using assms(3) by (simp add: append_bytes_def)
  moreover have "stringify_frame f \<noteq> []" by (simp add: stringify_frame_def)
  moreover have "st \<lparr> rs_pending := [] \<rparr> = st" using assms(3) by simp
  ultimately show ?thesis
    using read_chunk_line[OF stringify_frame_line[OF assms(1)], of limit h "[]" ys st]
    by (simp add: bytes(1) consume_frame_def parse_stringified_frame[OF assms(1)])
qed

text \<open>A handler given a list of frames one by one.\<close>

fun deliver_all :: "frame_handler \<Rightarrow> stream_frame list \<Rightarrow> reader_state \<Rightarrow> reading" where
  "deliver_all h [] st = Reading st"
| "deliver_all h (f # fs) st = and_then (deliver h f st) (deliver_all h fs)"

lemma deliver_pending: "deliver h f st = Reading st' \<Longrightarrow> rs_pending st' = rs_pending st"
  by (auto simp: deliver_def split: verdict.splits)

lemma read_encoded_frames:
  assumes "list_all2 (\<lambda>f bytes. frame_text_ok f \<and> encode_frame f (js_int limit) = Inr bytes) fs encoded"
    "rs_pending st = []" "1 \<le> limit"
  shows "read_chunk limit h [] (concat encoded) st = deliver_all h fs st"
  using assms
proof (induction arbitrary: st rule: list_all2_induct)
  case Nil
  then show ?case by (simp add: append_bytes_def)
next
  case (Cons f fs bytes encoded)
  then show ?case
    by (auto simp: read_encoded_frame deliver_pending intro!: and_then_cong)
qed

section \<open>The first frame of a stream, and the rest\<close>

text \<open>\<^verbatim>\<open>readFirstBoundedDurableRealtimeFrame\<close>: the loop gives the bytes of the first line, the bytes
  that came after its newline in the same chunk, and the chunks not yet read.\<close>

fun first_line :: "int \<Rightarrow> int \<Rightarrow> string \<Rightarrow> read_event list \<Rightarrow> (string \<times> string \<times> read_event list) result" where
  "first_line limit rest_limit parts [] = Inr (parts, [], [])"
| "first_line limit rest_limit parts (Abort # evs) =
     Inl (PlainError ''Durable realtime frame read was aborted'')"
| "first_line limit rest_limit parts (Data chunk # evs) =
     (let frame_part = takeWhile (\<lambda>b. b \<noteq> CHR 0x0A) chunk;
          trailing = drop (length frame_part + 1) chunk in
      ebind (throw_if (limit < int (length parts + length frame_part) + 1) limit_error) (\<lambda>_.
      if CHR 0x0A \<in> set chunk
      then
        ebind (throw_if (rest_limit < int (length trailing))
                 (PlainError ''Durable realtime initial remainder exceeded its byte limit'')) (\<lambda>_.
        Inr (parts @ frame_part, trailing, evs))
      else first_line limit rest_limit (parts @ frame_part) evs))"

definition remainder_limit :: "js_value \<Rightarrow> int \<Rightarrow> int result" where
  "remainder_limit maxInitialRemainderBytes limit =
     (if maxInitialRemainderBytes = JUndefined \<or> maxInitialRemainderBytes = JNull then Inr limit
      else
        (case safe_integer 0 maxInitialRemainderBytes of
           None \<Rightarrow> Inl (TypeError ''Durable realtime initial remainder limit is invalid'')
         | Some n \<Rightarrow> Inr n))"

text \<open>The stream \<^verbatim>\<open>remainder\<close>.\<close>

definition rest_events :: "string \<Rightarrow> read_event list \<Rightarrow> read_event list" where
  "rest_events trailing rest = (if trailing = [] then rest else Data trailing # rest)"

definition read_first :: "js_value \<Rightarrow> js_value \<Rightarrow> read_event list \<Rightarrow> (stream_frame \<times> read_event list) result" where
  "read_first maxFrameBytes maxInitialRemainderBytes evs =
     ebind (require_frame_limit maxFrameBytes) (\<lambda>limit.
     ebind (remainder_limit maxInitialRemainderBytes limit) (\<lambda>rest_limit.
     ebind (first_line limit rest_limit [] evs) (\<lambda>(encoded, trailing, rest).
     ebind (throw_if (encoded = []) (PlainError ''Durable realtime frame is required'')) (\<lambda>_.
     ebind (parse_line encoded) (\<lambda>frame.
     Inr (frame, rest_events trailing rest))))))"

lemma split_line: "CHR 0x0A \<in> set chunk \<Longrightarrow>
    chunk = takeWhile (\<lambda>b. b \<noteq> CHR 0x0A) chunk @ CHR 0x0A # drop (length (takeWhile (\<lambda>b. b \<noteq> CHR 0x0A) chunk) + 1) chunk"
proof (induction chunk)
  case (Cons c chunk)
  then show ?case by (cases "c = CHR 0x0A") auto
qed simp

lemma append_bytes_ok:
  "\<not> limit < int (length (rs_pending st)) + int (length b) + 1 \<Longrightarrow>
   append_bytes limit b st = Reading (st \<lparr> rs_pending := rs_pending st @ b \<rparr>)"
  by (simp add: append_bytes_def)

lemma read_chunk_no_line:
  "CHR 0x0A \<notin> set xs \<Longrightarrow> read_chunk limit h seg xs st = append_bytes limit (seg @ xs) st"
  by (induction xs arbitrary: seg) auto

lemma consume_frame_pending:
  assumes "consume_frame h st = Reading st'"
  shows "rs_pending st' = []"
proof (cases "rs_pending st = []")
  case False
  then obtain f where "deliver h f (st \<lparr> rs_pending := [] \<rparr>) = Reading st'"
    using assms by (auto simp: consume_frame_def split: sum.splits)
  then show ?thesis using deliver_pending by fastforce
qed (use assms in \<open>simp add: consume_frame_def\<close>)

lemma first_line_reads:
  assumes "first_line limit rest_limit (rs_pending st) evs = Inr (encoded, trailing, rest)"
    and "1 \<le> limit"
  shows "read_events limit h evs st =
           and_then (consume_frame h (st \<lparr> rs_pending := encoded \<rparr>)) (read_events limit h (rest_events trailing rest))"
  using assms
proof (induction evs arbitrary: st)
  case Nil
  then have "encoded = rs_pending st" "trailing = []" "rest = []" by auto
  then show ?case
    by (cases "consume_frame h st") (auto simp: rest_events_def consume_frame_def deliver_def
        split: if_splits sum.splits verdict.splits)
next
  case (Cons ev evs)
  then obtain chunk where ev: "ev = Data chunk" by (cases ev) auto
  let ?part = "takeWhile (\<lambda>b. b \<noteq> CHR 0x0A) chunk"
  have fits: "\<not> limit < int (length (rs_pending st)) + int (length ?part) + 1"
    using Cons.prems ev by (auto simp: Let_def result_simps ebind_eq_Inr)
  show ?case
  proof (cases "CHR 0x0A \<in> set chunk")
    case False
    then have whole: "?part = chunk" by (simp add: takeWhile_eq_all_conv) blast
    let ?st = "st \<lparr> rs_pending := rs_pending st @ chunk \<rparr>"
    have "first_line limit rest_limit (rs_pending ?st) evs = Inr (encoded, trailing, rest)"
      using Cons.prems ev False whole by (simp add: Let_def result_simps)
    from Cons.IH[OF this Cons.prems(2)] show ?thesis
      using fits whole ev False by (simp add: read_chunk_no_line append_bytes_ok)
  next
    case True
    then have out: "encoded = rs_pending st @ ?part" "rest = evs"
      "trailing = drop (length ?part + 1) chunk"
      using Cons.prems ev by (auto simp: Let_def result_simps)
    have part: "CHR 0x0A \<notin> set ?part" by (metis (full_types) set_takeWhileD)
    have "read_chunk limit h [] chunk st =
        and_then (append_bytes limit ?part st) (\<lambda>st1. and_then (consume_frame h st1) (read_chunk limit h [] trailing))"
      using read_chunk_line[OF part, of limit h "[]" trailing st] split_line[OF True] out(3) by simp
    then have step: "read_events limit h (Data chunk # evs) st =
        and_then (consume_frame h (st \<lparr> rs_pending := encoded \<rparr>))
          (\<lambda>st2. and_then (read_chunk limit h [] trailing st2) (read_events limit h evs))"
      using fits out(1) by (simp add: append_bytes_ok and_then_assoc)
    show ?thesis
    proof (cases "trailing = []")
      case True
      have "and_then (read_chunk limit h [] [] st2) (read_events limit h evs) = read_events limit h evs st2"
        if "consume_frame h (st \<lparr> rs_pending := encoded \<rparr>) = Reading st2" for st2
        using consume_frame_pending[OF that] Cons.prems(2) by (cases st2) (simp add: append_bytes_def)
      then show ?thesis
        using step True out(2) ev by (simp add: rest_events_def cong: and_then_cong)
    next
      case False
      then show ?thesis
        using step out(2) ev by (simp add: rest_events_def read_events_Data del: read_events.simps)
    qed
  qed
qed

text \<open>What the first frame's reader returns is what the stream's reader goes on from.\<close>

lemma read_first_reads:
  assumes "read_first (js_int limit) maxInitial evs = Inr (f, rest)"
  shows "read_events limit h evs reader_start = and_then (deliver h f reader_start) (read_events limit h rest)"
proof -
  from assms obtain rest_limit encoded trailing rest' where 1: "1 \<le> limit"
      "first_line limit rest_limit [] evs = Inr (encoded, trailing, rest')" "encoded \<noteq> []"
      "parse_line encoded = Inr f" "rest = rest_events trailing rest'"
    by (auto simp: read_first_def result_simps require_frame_limit_iff js_int_def int_in_def
        split: prod.splits)
  have start: "reader_start \<lparr> rs_pending := [] \<rparr> = reader_start" by (simp add: reader_start_def)
  have "first_line limit rest_limit (rs_pending reader_start) evs = Inr (encoded, trailing, rest')"
    using 1(2) by (simp add: reader_start_def)
  from first_line_reads[OF this 1(1)] show ?thesis
    using 1 start by (simp add: consume_frame_def)
qed

section \<open>One attempt on a reliable stream\<close>

text \<open>\<^verbatim>\<open>runDurableRealtimeStreamAttempt\<close>: the signal before the write and after it, what the write
  or the closing of the writer threw, and then the bytes written and the outcome.\<close>

definition run_stream_attempt ::
  "stream_frame \<Rightarrow> js_value \<Rightarrow> frame_handler \<Rightarrow> bool \<Rightarrow> js_error option \<Rightarrow> bool \<Rightarrow> read_event list \<Rightarrow>
     string list \<times> reading result" where
  "run_stream_attempt attach maxFrameBytes h aborted_before write_error aborted_after evs =
     (if aborted_before then ([], Inr (Done Stopped []))
      else
        (case encode_frame attach maxFrameBytes of
           Inl e \<Rightarrow> ([], Inl e)
         | Inr bytes \<Rightarrow>
             ([bytes],
              case write_error of
                Some e \<Rightarrow> Inl e
              | None \<Rightarrow>
                  if aborted_after then Inr (Done Stopped [])
                  else read_stream maxFrameBytes h evs)))"

end
