(* ===== verification/Realtime_Sse.thy ===== *)
theory Realtime_Sse
  imports Realtime_Frames
begin

text \<open>
  The reader of server-sent events, \<^verbatim>\<open>readBoundedSse\<close> of
  \<^verbatim>\<open>packages/shared/src/durable-realtime.ts\<close>: the streaming UTF-8 decoder, the normalisation of
  line ends across chunks, the frames between empty lines, and what a reading that ends has
  handed over, whatever the chunks were.
\<close>

section \<open>Decoding a stream\<close>

text \<open>\<open>utf8_split expect cur s\<close>: the complete characters of \<open>s\<close> and the bytes of an unfinished
  one; \<open>cur\<close> has been read of the current character and \<open>expect\<close> is still due of it.\<close>

definition emitting :: "string \<Rightarrow> (string \<times> string) option \<Rightarrow> (string \<times> string) option" where
  "emitting d r = map_option (\<lambda>(done, tail). (d @ done, tail)) r"

fun utf8_split :: "(char \<Rightarrow> bool) list \<Rightarrow> string \<Rightarrow> string \<Rightarrow> (string \<times> string) option" where
  "utf8_split expect cur [] = Some ([], cur)"
| "utf8_split (p # expect) cur (c # s) =
     (if \<not> p c then None
      else if expect = [] then emitting (cur @ [c]) (utf8_split [] [] s)
      else utf8_split expect (cur @ [c]) s)"
| "utf8_split [] cur (c # s) =
     (case utf8_tail c of
        None \<Rightarrow> None
      | Some expect \<Rightarrow>
          if expect = [] then emitting [c] (utf8_split [] [] s) else utf8_split expect [c] s)"

text \<open>The decoder's own state: the unfinished bytes, and whether its output has begun.\<close>

record sse_state =
  ss_tail :: string
  ss_begun :: bool
  ss_prev_cr :: bool
  ss_buffer :: string

definition sse_limit_error :: js_error where
  "sse_limit_error = PlainError ''SSE frame exceeded its byte limit''"

definition decode_error :: js_error where
  "decode_error = TypeError ''The encoded data was not valid for encoding utf-8''"

text \<open>\<^verbatim>\<open>decoder.decode(chunk, { stream: true })\<close>\<close>

definition decode_chunk :: "string \<Rightarrow> sse_state \<Rightarrow> (string \<times> sse_state) result" where
  "decode_chunk chunk st =
     (case utf8_split [] [] (ss_tail st @ chunk) of
        None \<Rightarrow> Inl decode_error
      | Some (out, tail) \<Rightarrow>
          Inr (if ss_begun st then out else strip_bom out,
               st \<lparr> ss_tail := tail, ss_begun := ss_begun st \<or> out \<noteq> [] \<rparr>))"

section \<open>Lines and frames\<close>

text \<open>\<^verbatim>\<open>text.replace(/\r\n|\r/g, "\n")\<close>\<close>

fun crlf :: "string \<Rightarrow> string" where
  "crlf [] = []"
| "crlf (c # s) =
     (if c = CHR 0x0D then CHR 0x0A # crlf (if take 1 s = [CHR 0x0A] then drop 1 s else s)
      else c # crlf s)"

definition ends_cr :: "string \<Rightarrow> bool" where
  "ends_cr s \<longleftrightarrow> s \<noteq> [] \<and> last s = CHR 0x0D"

text \<open>\<^verbatim>\<open>appendDecoded\<close>\<close>

definition append_decoded :: "string \<Rightarrow> sse_state \<Rightarrow> sse_state" where
  "append_decoded text st =
     (if text = [] then st
      else
        (let text' = (if ss_prev_cr st \<and> take 1 text = [CHR 0x0A] then drop 1 text else text) in
         st \<lparr> ss_prev_cr := ends_cr text', ss_buffer := ss_buffer st @ crlf text' \<rparr>))"

text \<open>\<^verbatim>\<open>buffer.indexOf("\n\n")\<close>: what is before it and what is after it.\<close>

fun split_frame :: "string \<Rightarrow> (string \<times> string) option" where
  "split_frame (a # b # s) =
     (if a = CHR 0x0A \<and> b = CHR 0x0A then Some ([], s)
      else map_option (\<lambda>(f, r). (a # f, r)) (split_frame (b # s)))"
| "split_frame _ = None"

record sse_frame =
  se_event :: string
  se_data :: string

type_synonym sse_handler = "sse_frame list \<Rightarrow> sse_frame \<Rightarrow> verdict"

text \<open>One line of a frame: the event it sets or the data it adds.\<close>

definition sse_line :: "string \<Rightarrow> string \<times> string list \<Rightarrow> string \<times> string list" where
  "sse_line line acc =
     (if take 1 line = '':'' then acc
      else
        (let field = takeWhile (\<lambda>c. c \<noteq> CHR '':'') line;
             raw = drop (length field + 1) line;
             val = (if take 1 raw = '' '' then drop 1 raw else raw)
         in if field = ''event'' then (val, snd acc)
            else if field = ''data'' then (fst acc, snd acc @ [val])
            else acc))"

definition parse_sse_frame :: "string \<Rightarrow> sse_frame option" where
  "parse_sse_frame frame =
     (let lines = split_on (CHR 0x0A) frame in
      if list_all (\<lambda>line. line = [] \<or> take 1 line = '':'') lines then None
      else
        (let (event, data) = fold sse_line lines (''message'', []) in
         Some \<lparr> se_event = event, se_data = join_with (CHR 0x0A) data \<rparr>))"

datatype sse_step = Go "sse_frame list" | Halt read_status "sse_frame list"

text \<open>\<^verbatim>\<open>consumeFrame\<close>\<close>

definition consume_sse :: "int \<Rightarrow> sse_handler \<Rightarrow> string \<Rightarrow> sse_frame list \<Rightarrow> sse_step" where
  "consume_sse limit h frame fs =
     (if limit < int (length frame) then Halt (Threw sse_limit_error) fs
      else
        (case parse_sse_frame frame of
           None \<Rightarrow> Go fs
         | Some f \<Rightarrow>
             (case h fs f of
                Continue \<Rightarrow> Go (fs @ [f])
              | Terminal \<Rightarrow> Halt Stopped (fs @ [f])
              | Handler_throws e \<Rightarrow> Halt (Threw e) (fs @ [f]))))"

lemma split_frame_shorter: "split_frame s = Some (f, r) \<Longrightarrow> length r < length s"
proof (induction s arbitrary: f rule: split_frame.induct)
  case (1 a b s)
  show ?case
  proof (cases "a = CHR 0x0A \<and> b = CHR 0x0A")
    case False
    then obtain g where "split_frame (b # s) = Some (g, r)" using 1(2) by auto
    then show ?thesis using 1(1) False by fastforce
  qed (use 1 in auto)
qed simp_all

text \<open>The inner loop: the frames that are complete in the buffer, and what stays in it.\<close>

function sse_drain :: "int \<Rightarrow> sse_handler \<Rightarrow> string \<Rightarrow> sse_frame list \<Rightarrow> (string \<times> sse_frame list) + (read_status \<times> sse_frame list)" where
  "sse_drain limit h buffer fs =
     (case split_frame buffer of
        None \<Rightarrow> Inl (buffer, fs)
      | Some (frame, rest) \<Rightarrow>
          (case consume_sse limit h frame fs of
             Go fs' \<Rightarrow> sse_drain limit h rest fs'
           | Halt s fs' \<Rightarrow> Inr (s, fs')))"
  by pat_completeness auto
termination
  by (relation "measure (\<lambda>(limit, h, buffer, fs). length buffer)") (auto dest: split_frame_shorter)

text \<open>\<^verbatim>\<open>readBoundedSse\<close>: the status and the frames handed over.\<close>

fun sse_events :: "int \<Rightarrow> sse_handler \<Rightarrow> read_event list \<Rightarrow> sse_state \<Rightarrow> sse_frame list \<Rightarrow> read_status \<times> sse_frame list" where
  "sse_events limit h [] st fs =
     (if ss_tail st \<noteq> [] then (Threw decode_error, fs)
      else if js_trim (ss_buffer st) = [] then (Ended, fs)
      else (case consume_sse limit h (ss_buffer st) fs of Go fs' \<Rightarrow> (Ended, fs') | Halt s fs' \<Rightarrow> (s, fs')))"
| "sse_events limit h (Abort # evs) st fs = (Stopped, fs)"
| "sse_events limit h (Data chunk # evs) st fs =
     (case decode_chunk chunk st of
        Inl e \<Rightarrow> (Threw e, fs)
      | Inr (text, st1) \<Rightarrow>
          (let st2 = append_decoded text st1 in
           case sse_drain limit h (ss_buffer st2) fs of
             Inr ended \<Rightarrow> ended
           | Inl (rest, fs') \<Rightarrow>
               if limit < int (length rest) then (Threw sse_limit_error, fs')
               else sse_events limit h evs (st2 \<lparr> ss_buffer := rest \<rparr>) fs'))"

definition sse_start :: sse_state where
  "sse_start = \<lparr> ss_tail = [], ss_begun = False, ss_prev_cr = False, ss_buffer = [] \<rparr>"

definition read_sse :: "js_value \<Rightarrow> sse_handler \<Rightarrow> read_event list \<Rightarrow> (read_status \<times> sse_frame list) result" where
  "read_sse maxFrameBytes h evs =
     (case safe_integer 1 maxFrameBytes of
        None \<Rightarrow> Inl (TypeError ''SSE frame byte limit is invalid'')
      | Some limit \<Rightarrow> Inr (sse_events limit h evs sse_start []))"

declare sse_drain.simps [simp del]

section \<open>The decoder sees one text\<close>

lemma emitting_eq [simp]:
  "emitting d r = None \<longleftrightarrow> r = None"
  "emitting d r = Some (x, t) \<longleftrightarrow> (\<exists>y. r = Some (y, t) \<and> x = d @ y)"
  by (auto simp: emitting_def)

lemma emitting_Some: "emitting d (Some (x, t)) = Some (d @ x, t)"
  by (simp add: emitting_def)

lemma emitting_emitting [simp]: "emitting a (emitting b r) = emitting (a @ b) r"
  by (cases r) (auto simp: emitting_def)

lemma emitting_Nil [simp]: "emitting [] r = r"
  by (cases r) (auto simp: emitting_def)

text \<open>\<open>cur\<close> is what was read to be due the classes \<open>expect\<close>.\<close>

definition awaits :: "(char \<Rightarrow> bool) list \<Rightarrow> string \<Rightarrow> bool" where
  "awaits expect cur \<longleftrightarrow> (\<forall>z. utf8_split [] [] (cur @ z) = utf8_split expect cur z)"

lemma awaits_Nil [simp]: "awaits [] []"
  by (simp add: awaits_def)

lemma awaits_lead: "utf8_tail c = Some expect \<Longrightarrow> expect \<noteq> [] \<Longrightarrow> awaits expect [c]"
  by (simp add: awaits_def)

lemma awaits_next:
  assumes "awaits (p # expect) cur" "p c" "expect \<noteq> []"
  shows "awaits expect (cur @ [c])"
  unfolding awaits_def
proof
  fix z
  have "utf8_split [] [] (cur @ c # z) = utf8_split (p # expect) cur (c # z)"
    using assms(1) unfolding awaits_def by blast
  then show "utf8_split [] [] ((cur @ [c]) @ z) = utf8_split expect (cur @ [c]) z"
    using assms(2,3) by simp
qed

lemma utf8_split_append:
  "utf8_split expect cur x = Some (d, t) \<Longrightarrow> awaits expect cur \<Longrightarrow>
   utf8_split expect cur (x @ y) = emitting d (utf8_split [] [] (t @ y))"
proof (induction expect cur x arbitrary: d rule: utf8_split.induct)
  case (1 expect cur)
  then show ?case by (simp add: awaits_def)
next
  case (2 p expect cur c s)
  show ?case
  proof (cases "expect = []")
    case True
    then show ?thesis using 2 by (auto split: if_splits)
  next
    case False
    then show ?thesis using 2 awaits_next by (auto split: if_splits)
  qed
next
  case (3 cur c s)
  then obtain e where e: "utf8_tail c = Some e" by (auto split: option.splits)
  show ?case
  proof (cases "e = []")
    case True
    then show ?thesis using 3 e by auto
  next
    case False
    then show ?thesis using 3 e awaits_lead by auto
  qed
qed

lemma utf8_split_complete:
  "utf8_split expect cur x = Some (d, t) \<Longrightarrow> (expect = [] \<longrightarrow> cur = []) \<Longrightarrow>
   cur @ x = d @ t \<and> (d = [] \<or> (\<exists>d'. d = cur @ d' \<and> utf8_from expect d'))"
proof (induction expect cur x arbitrary: d rule: utf8_split.induct)
  case (2 p expect cur c s)
  show ?case
  proof (cases "expect = []")
    case True
    then obtain d2 where "utf8_split [] [] s = Some (d2, t)" "d = cur @ c # d2" "p c"
      using 2(3) by (auto split: if_splits)
    then show ?thesis using 2(1)[of d2] True by auto
  next
    case False
    then show ?thesis using 2 by (fastforce split: if_splits)
  qed
next
  case (3 cur c s)
  then obtain e where e: "utf8_tail c = Some e" by (auto split: option.splits)
  show ?case
  proof (cases "e = []")
    case True
    then obtain d2 where "utf8_split [] [] s = Some (d2, t)" "d = c # d2"
      using 3(3) e by auto
    then show ?thesis using 3(1)[of e d2] 3(4) e True by auto
  next
    case False
    then show ?thesis using 3(2)[of e d] 3(3,4) e by fastforce
  qed
qed simp

lemma utf8_split_ok:
  "utf8_from expect x \<Longrightarrow> (expect = [] \<longrightarrow> cur = []) \<Longrightarrow> utf8_split expect cur x = Some (cur @ x, [])"
proof (induction expect cur x rule: utf8_split.induct)
  case (1 expect cur)
  then show ?case by simp
next
  case (2 p expect cur c s)
  then show ?case by (auto simp: emitting_def)
next
  case (3 cur c s)
  then show ?case by (auto simp: emitting_def split: option.splits)
qed

lemma utf8_split_done:
  assumes "utf8_split [] [] x = Some (d, t)"
  shows "utf8_ok d" "x = d @ t"
  using utf8_split_complete[OF assms] by (auto simp: utf8_ok_def)

lemma strip_bom_append:
  assumes "utf8_ok d" "d \<noteq> []"
  shows "strip_bom (d @ x) = strip_bom d @ x"
proof (cases "3 \<le> length d")
  case False
  then have "take 3 (d @ x) \<noteq> byte_order_mark"
  proof -
    obtain c r where d: "d = c # r" using assms(2) by (cases d) auto
    have "\<not> (c = CHR 0xEF \<and> length r < 2)"
    proof
      assume "c = CHR 0xEF \<and> length r < 2"
      then have "utf8_from [is_cont, is_cont] r" "length r < 2"
        using assms(1) d by (auto simp: utf8_ok_def utf8_tail_def byte_in_def)
      then show False by (cases r; cases "tl r") auto
    qed
    then show ?thesis using False d by (auto simp: byte_order_mark_def)
  qed
  moreover have "take 3 d \<noteq> byte_order_mark"
    using False by (auto simp: byte_order_mark_def dest: arg_cong[of _ _ length])
  ultimately show ?thesis by (simp add: strip_bom_def)
qed (simp add: strip_bom_def)

section \<open>The lines and frames of the text\<close>

lemma ends_cr_Cons: "s \<noteq> [] \<Longrightarrow> ends_cr (c # s) = ends_cr s"
  by (simp add: ends_cr_def)

lemma crlf_append:
  "crlf (x @ y) = crlf x @ crlf (if ends_cr x \<and> take 1 y = [CHR 0x0A] then drop 1 y else y)"
proof (induction x rule: crlf.induct)
  case 1
  then show ?case by (simp add: ends_cr_def)
next
  case (2 c s)
  show ?case
  proof (cases s)
    case Nil
    then show ?thesis by (auto simp: ends_cr_def)
  next
    case (Cons d r)
    then have ends: "ends_cr (c # s) = ends_cr s" by (simp add: ends_cr_Cons)
    show ?thesis
    proof (cases "c = CHR 0x0D \<and> d = CHR 0x0A")
      case True
      have "ends_cr s = ends_cr r" using Cons True by (cases r) (simp_all add: ends_cr_def)
      then show ?thesis using 2(1) Cons True ends by simp
    next
      case False
      then show ?thesis using 2 Cons ends by (cases "c = CHR 0x0D") auto
    qed
  qed
qed

lemma append_decoded_text:
  assumes "ss_prev_cr st = ends_cr T"
  shows "ss_prev_cr (append_decoded text st) = ends_cr (T @ text)"
    "\<exists>w. ss_buffer (append_decoded text st) = ss_buffer st @ w \<and> crlf (T @ text) = crlf T @ w"
    "ss_tail (append_decoded text st) = ss_tail st" "ss_begun (append_decoded text st) = ss_begun st"
proof -
  have "ends_cr (T @ text) = ends_cr (drop 1 text)" if "text \<noteq> []" "take 1 text = [CHR 0x0A]"
    using that by (cases "text"; cases "tl text") (auto simp: ends_cr_def)
  moreover have "ends_cr (T @ text) = ends_cr text" if "text \<noteq> []"
    using that by (simp add: ends_cr_def)
  ultimately show "ss_prev_cr (append_decoded text st) = ends_cr (T @ text)"
    using assms by (auto simp: append_decoded_def Let_def)
  show "\<exists>w. ss_buffer (append_decoded text st) = ss_buffer st @ w \<and> crlf (T @ text) = crlf T @ w"
    using assms crlf_append[of T "text"] by (auto simp: append_decoded_def Let_def)
qed (simp_all add: append_decoded_def Let_def)

text \<open>The complete frames of a text, between empty lines, and what comes after the last of them.\<close>

function sse_blocks :: "string \<Rightarrow> string list \<times> string" where
  "sse_blocks s =
     (case split_frame s of
        None \<Rightarrow> ([], s)
      | Some (f, r) \<Rightarrow> apfst ((#) f) (sse_blocks r))"
  by pat_completeness auto
termination
  by (relation "measure length") (auto dest: split_frame_shorter)

declare sse_blocks.simps [simp del]

lemma sse_blocks_None: "split_frame s = None \<Longrightarrow> sse_blocks s = ([], s)"
  by (subst sse_blocks.simps) simp

lemma sse_blocks_Some:
  "split_frame s = Some (f, r) \<Longrightarrow> sse_blocks s = (f # fst (sse_blocks r), snd (sse_blocks r))"
  by (subst sse_blocks.simps) (simp add: apfst_def map_prod_def split_beta)

lemma sse_drain_None: "split_frame s = None \<Longrightarrow> sse_drain limit h s fs = Inl (s, fs)"
  by (subst sse_drain.simps) simp

lemma sse_drain_Some:
  "split_frame s = Some (f, r) \<Longrightarrow>
   sse_drain limit h s fs =
     (case consume_sse limit h f fs of Go fs' \<Rightarrow> sse_drain limit h r fs' | Halt st fs' \<Rightarrow> Inr (st, fs'))"
  by (subst sse_drain.simps) simp

lemma split_frame_append: "split_frame x = Some (f, r) \<Longrightarrow> split_frame (x @ y) = Some (f, r @ y)"
proof (induction x arbitrary: f rule: split_frame.induct)
  case (1 a b s)
  then show ?case by (cases "a = CHR 0x0A \<and> b = CHR 0x0A") auto
qed simp_all

lemma sse_blocks_append:
  "sse_blocks (x @ y) =
     (fst (sse_blocks x) @ fst (sse_blocks (snd (sse_blocks x) @ y)), snd (sse_blocks (snd (sse_blocks x) @ y)))"
proof (induction x rule: sse_blocks.induct)
  case (1 x)
  show ?case
  proof (cases "split_frame x")
    case None
    then show ?thesis by (simp add: sse_blocks_None)
  next
    case (Some p)
    then obtain f r where p: "split_frame x = Some (f, r)" by (cases p) auto
    then show ?thesis
      using 1[OF p refl] by (simp add: sse_blocks_Some[OF p] sse_blocks_Some[OF split_frame_append[OF p]])
  qed
qed

text \<open>The part of a frame read so far exceeds it by one byte at most.\<close>

lemma split_frame_unfinished:
  "split_frame x = None \<Longrightarrow> split_frame (x @ y) = Some (f, r) \<Longrightarrow> length x \<le> length f + 1"
proof (induction x arbitrary: f rule: split_frame.induct)
  case (1 a b s)
  then have "\<not> (a = CHR 0x0A \<and> b = CHR 0x0A)" "split_frame (b # s) = None" by (auto split: if_splits)
  moreover from this(1) obtain g where "split_frame ((b # s) @ y) = Some (g, r)" "f = a # g"
    using 1(3) by auto
  ultimately show ?case using 1(1)[of g] by simp
qed simp_all

lemma sse_blocks_rest: "split_frame (snd (sse_blocks s)) = None"
proof (induction s rule: sse_blocks.induct)
  case (1 s)
  then show ?case
    by (cases "split_frame s") (auto simp: sse_blocks_None sse_blocks_Some)
qed

lemma sse_rest_bound:
  assumes "\<forall>b \<in> set (fst (sse_blocks (x @ y))). length b + 1 \<le> n" "length (snd (sse_blocks (x @ y))) \<le> n"
  shows "length (snd (sse_blocks x)) \<le> n"
proof (cases "split_frame (snd (sse_blocks x) @ y)")
  case None
  then have "snd (sse_blocks (x @ y)) = snd (sse_blocks x) @ y"
    by (simp add: sse_blocks_append[of x y] sse_blocks_None)
  then show ?thesis using assms(2) by simp
next
  case (Some p)
  obtain f r where p: "split_frame (snd (sse_blocks x) @ y) = Some (f, r)" using Some by (cases p) auto
  then have "f \<in> set (fst (sse_blocks (x @ y)))"
    by (simp add: sse_blocks_append[of x y] sse_blocks_Some)
  then have "length f + 1 \<le> n" using assms(1) by simp
  then show ?thesis using split_frame_unfinished[OF sse_blocks_rest p] by linarith
qed

section \<open>What a reading hands over\<close>

text \<open>The frames of a whole text, the specification of the reader.\<close>

definition sse_frames :: "string \<Rightarrow> sse_frame list" where
  "sse_frames text =
     (let (blocks, rest) = sse_blocks text in
      List.map_filter parse_sse_frame (blocks @ (if js_trim rest = [] then [] else [rest])))"

definition sse_text :: "string \<Rightarrow> string" where
  "sse_text bytes = crlf (strip_bom bytes)"

lemma consume_sse_Go:
  "consume_sse limit h frame fs = Go fs' \<Longrightarrow> fs' = fs @ List.map_filter parse_sse_frame [frame]"
  by (auto simp: consume_sse_def List.map_filter_def split: if_splits option.splits verdict.splits)

lemma consume_sse_Continue:
  "int (length frame) \<le> limit \<Longrightarrow> consume_sse limit (\<lambda>_ _. Continue) frame fs = Go (fs @ List.map_filter parse_sse_frame [frame])"
  by (auto simp: consume_sse_def List.map_filter_def split: option.splits)

lemma map_filter_append: "List.map_filter f (xs @ ys) = List.map_filter f xs @ List.map_filter f ys"
  by (simp add: List.map_filter_def)

lemma sse_drain_Inl:
  "sse_drain limit h buffer fs = Inl (rest, fs') \<Longrightarrow>
   fs' = fs @ List.map_filter parse_sse_frame (fst (sse_blocks buffer)) \<and> rest = snd (sse_blocks buffer)"
proof (induction limit h buffer fs rule: sse_drain.induct)
  case (1 limit h buffer fs)
  show ?case
  proof (cases "split_frame buffer")
    case None
    then show ?thesis using 1(2)
      by (simp add: sse_blocks_None sse_drain_None List.map_filter_def)
  next
    case (Some p)
    then obtain f r where p: "split_frame buffer = Some (f, r)" by (cases p) auto
    obtain fs2 where fs2: "consume_sse limit h f fs = Go fs2" "sse_drain limit h r fs2 = Inl (rest, fs')"
      using 1(2) p by (auto simp: sse_drain_Some split: sse_step.splits)
    then show ?thesis
      using 1(1)[OF p refl fs2(1) fs2(2)] consume_sse_Go[OF fs2(1)]
      by (simp add: sse_blocks_Some[OF p] List.map_filter_def)
  qed
qed

lemma consume_sse_ended: "consume_sse limit h frame fs \<noteq> Halt Ended fs'"
  by (simp add: consume_sse_def split: option.splits verdict.splits)

lemma sse_drain_ended: "sse_drain limit h buffer fs \<noteq> Inr (Ended, fs')"
proof (induction limit h buffer fs rule: sse_drain.induct)
  case (1 limit h buffer fs)
  show ?case
  proof (cases "split_frame buffer")
    case (Some p)
    then obtain f r where p: "split_frame buffer = Some (f, r)" by (cases p) auto
    then show ?thesis
      using 1[OF p refl] consume_sse_ended[of limit h f fs]
      by (auto simp: sse_drain_Some split: sse_step.splits)
  qed (simp add: sse_drain_None)
qed

lemma sse_drain_Continue:
  "\<forall>b \<in> set (fst (sse_blocks buffer)). int (length b) \<le> limit \<Longrightarrow>
   \<exists>fs'. sse_drain limit (\<lambda>_ _. Continue) buffer fs = Inl (snd (sse_blocks buffer), fs')"
proof (induction buffer arbitrary: fs rule: sse_blocks.induct)
  case (1 buffer)
  show ?case
  proof (cases "split_frame buffer")
    case None
    then show ?thesis by (simp add: sse_blocks_None sse_drain_None)
  next
    case (Some p)
    then obtain f r where p: "split_frame buffer = Some (f, r)" by (cases p) auto
    then have "int (length f) \<le> limit" "\<forall>b \<in> set (fst (sse_blocks r)). int (length b) \<le> limit"
      using 1(2) by (simp_all add: sse_blocks_Some)
    then show ?thesis
      using 1(1)[OF p refl] p
      by (simp add: sse_blocks_Some sse_drain_Some consume_sse_Continue)
  qed
qed

text \<open>What has been read and handed over, in a state of the reader.\<close>

definition sse_inv :: "string \<Rightarrow> sse_state \<Rightarrow> sse_frame list \<Rightarrow> bool" where
  "sse_inv bytes st fs \<longleftrightarrow>
     (\<exists>out. utf8_split [] [] bytes = Some (out, ss_tail st) \<and> ss_begun st = (out \<noteq> []) \<and>
        ss_prev_cr st = ends_cr (strip_bom out) \<and> ss_buffer st = snd (sse_blocks (sse_text out)) \<and>
        fs = List.map_filter parse_sse_frame (fst (sse_blocks (sse_text out))))"

lemma sse_inv_start: "sse_inv [] sse_start []"
  by (simp add: sse_inv_def sse_start_def sse_text_def strip_bom_def byte_order_mark_def ends_cr_def
      sse_blocks_None List.map_filter_def)

lemma decode_chunk_text:
  assumes inv: "sse_inv bytes st fs" and dec: "decode_chunk chunk st = Inr (out', st1)"
  obtains out out1 where "utf8_split [] [] bytes = Some (out, ss_tail st)"
    "utf8_split [] [] (bytes @ chunk) = Some (out1, ss_tail st1)" "strip_bom out1 = strip_bom out @ out'"
    "ss_begun st1 = (out1 \<noteq> [])" "ss_prev_cr st1 = ss_prev_cr st" "ss_buffer st1 = ss_buffer st"
proof -
  from inv obtain out where out: "utf8_split [] [] bytes = Some (out, ss_tail st)" "ss_begun st = (out \<noteq> [])"
    unfolding sse_inv_def by blast
  from dec obtain o2 t where o2: "utf8_split [] [] (ss_tail st @ chunk) = Some (o2, t)"
      "out' = (if ss_begun st then o2 else strip_bom o2)"
      "st1 = st \<lparr> ss_tail := t, ss_begun := ss_begun st \<or> o2 \<noteq> [] \<rparr>"
    by (auto simp: decode_chunk_def split: option.splits prod.splits)
  have whole: "utf8_split [] [] (bytes @ chunk) = Some (out @ o2, t)"
    using utf8_split_append[OF out(1) awaits_Nil] o2(1) by (simp add: emitting_def)
  have "strip_bom (out @ o2) = strip_bom out @ out'"
  proof (cases "out = []")
    case True
    then show ?thesis using o2(2) out(2) by (simp add: strip_bom_def[of "[]"] byte_order_mark_def)
  next
    case False
    then show ?thesis
      using o2(2) out(2) strip_bom_append[OF utf8_split_done(1)[OF out(1)] False] by simp
  qed
  then show thesis using that[OF out(1), of "out @ o2"] whole o2(3) out(2) by simp
qed

lemma sse_inv_step:
  assumes inv: "sse_inv bytes st fs" and dec: "decode_chunk chunk st = Inr (out', st1)"
    and blocks: "sse_blocks (ss_buffer (append_decoded out' st1)) = (bs, rest)"
  shows "sse_inv (bytes @ chunk) (append_decoded out' st1 \<lparr> ss_buffer := rest \<rparr>)
           (fs @ List.map_filter parse_sse_frame bs)"
    "\<exists>out1 t. utf8_split [] [] (bytes @ chunk) = Some (out1, t) \<and>
        set bs \<subseteq> set (fst (sse_blocks (sse_text out1))) \<and> rest = snd (sse_blocks (sse_text out1))"
proof -
  obtain out out1 where o: "utf8_split [] [] bytes = Some (out, ss_tail st)"
    "utf8_split [] [] (bytes @ chunk) = Some (out1, ss_tail st1)" "strip_bom out1 = strip_bom out @ out'"
    "ss_begun st1 = (out1 \<noteq> [])" "ss_prev_cr st1 = ss_prev_cr st" "ss_buffer st1 = ss_buffer st"
    using decode_chunk_text[OF inv dec] .
  from inv o(1) have st: "ss_prev_cr st = ends_cr (strip_bom out)"
      "ss_buffer st = snd (sse_blocks (sse_text out))"
      "fs = List.map_filter parse_sse_frame (fst (sse_blocks (sse_text out)))"
    by (auto simp: sse_inv_def)
  have prev: "ss_prev_cr st1 = ends_cr (strip_bom out)" using o(5) st(1) by simp
  from append_decoded_text(2)[OF prev, of out'] obtain w where w:
      "ss_buffer (append_decoded out' st1) = ss_buffer st @ w" "sse_text out1 = sse_text out @ w"
    unfolding sse_text_def o(3) o(6) by blast
  have all: "fst (sse_blocks (sse_text out1)) = fst (sse_blocks (sse_text out)) @ bs"
      "snd (sse_blocks (sse_text out1)) = rest"
    using sse_blocks_append[of "sse_text out" w] blocks w st(2) by simp_all
  show "sse_inv (bytes @ chunk) (append_decoded out' st1 \<lparr> ss_buffer := rest \<rparr>)
           (fs @ List.map_filter parse_sse_frame bs)"
    unfolding sse_inv_def
    using o(2,3,4) all st(3) append_decoded_text[OF prev, of out'] by (simp add: map_filter_append)
  show "\<exists>out1 t. utf8_split [] [] (bytes @ chunk) = Some (out1, t) \<and>
        set bs \<subseteq> set (fst (sse_blocks (sse_text out1))) \<and> rest = snd (sse_blocks (sse_text out1))"
    using o(2) all by auto
qed

lemma sse_events_ended:
  "sse_events limit h (map Data cs) st fs = (Ended, fs') \<Longrightarrow> sse_inv bytes st fs \<Longrightarrow>
   utf8_ok (bytes @ concat cs) \<and> fs' = sse_frames (sse_text (bytes @ concat cs))"
proof (induction cs arbitrary: bytes st fs)
  case Nil
  from Nil(2) obtain out where out: "utf8_split [] [] bytes = Some (out, ss_tail st)"
      "ss_buffer st = snd (sse_blocks (sse_text out))"
      "fs = List.map_filter parse_sse_frame (fst (sse_blocks (sse_text out)))"
    unfolding sse_inv_def by blast
  have "ss_tail st = []" using Nil(1) by (simp split: if_splits)
  then have whole: "utf8_ok bytes" "bytes = out" using utf8_split_done[OF out(1)] by simp_all
  have "fs' = sse_frames (sse_text out)"
    using Nil(1) out(2,3)
    by (auto simp: sse_frames_def split_beta map_filter_append consume_sse_ended
        split: if_splits sse_step.splits dest!: consume_sse_Go)
  then show ?case using whole by simp
next
  case (Cons c cs)
  from Cons.prems(1) obtain out' st1 where dec: "decode_chunk c st = Inr (out', st1)"
    by (auto split: sum.splits)
  obtain bs rest where blocks: "sse_blocks (ss_buffer (append_decoded out' st1)) = (bs, rest)"
    by fastforce
  from Cons.prems(1) dec obtain r fs2 where d:
      "sse_drain limit h (ss_buffer (append_decoded out' st1)) fs = Inl (r, fs2)"
      "sse_events limit h (map Data cs) (append_decoded out' st1 \<lparr> ss_buffer := r \<rparr>) fs2 = (Ended, fs')"
    by (auto simp: Let_def sse_drain_ended split: sum.splits prod.splits if_splits)
  from sse_drain_Inl[OF d(1)] blocks have "fs2 = fs @ List.map_filter parse_sse_frame bs" "r = rest"
    by simp_all
  then show ?case
    using Cons.IH[OF d(2), of "bytes @ c"] sse_inv_step(1)[OF Cons.prems(2) dec blocks] by simp
qed

lemma utf8_split_prefix:
  "utf8_split expect cur x = None \<Longrightarrow> utf8_split expect cur (x @ y) = None"
  by (induction expect cur x rule: utf8_split.induct) (auto split: if_splits option.splits)

text \<open>\<open>sse_fits limit bytes\<close>: every frame of the text leaves room for one line end, and what
  follows the last one fits.\<close>

definition sse_fits :: "int \<Rightarrow> string \<Rightarrow> bool" where
  "sse_fits limit bytes \<longleftrightarrow>
     list_all (\<lambda>b. int (length b) + 1 \<le> limit) (fst (sse_blocks (sse_text bytes))) \<and>
     int (length (snd (sse_blocks (sse_text bytes)))) \<le> limit"

lemma sse_text_append:
  assumes "utf8_split [] [] x = Some (d, t)" "utf8_split [] [] (x @ y) = Some (d', t')"
  shows "\<exists>w. sse_text d' = sse_text d @ w"
proof -
  from utf8_split_append[OF assms(1) awaits_Nil, of y] assms(2) obtain o2 where "d' = d @ o2"
    by (cases "utf8_split [] [] (t @ y)") (auto simp: emitting_def)
  then show ?thesis
    using strip_bom_append[of d o2] utf8_split_done(1)[OF assms(1)] crlf_append[of "strip_bom d" o2]
    by (cases "d = []") (auto simp: sse_text_def strip_bom_def[of "[]"] byte_order_mark_def)
qed

lemma sse_fits_prefix:
  assumes "utf8_ok (x @ y)" "sse_fits limit (x @ y)"
  obtains d t where "utf8_split [] [] x = Some (d, t)"
    "\<forall>b \<in> set (fst (sse_blocks (sse_text d))). int (length b) \<le> limit"
    "int (length (snd (sse_blocks (sse_text d)))) \<le> limit"
proof -
  have whole: "utf8_split [] [] (x @ y) = Some (x @ y, [])"
    using assms(1) utf8_split_ok[of "[]" "x @ y" "[]"] by (simp add: utf8_ok_def)
  then obtain d t where d: "utf8_split [] [] x = Some (d, t)"
    using utf8_split_prefix[of "[]" "[]" x y] by (cases "utf8_split [] [] x") auto
  obtain w where w: "sse_text (x @ y) = sse_text d @ w" using sse_text_append[OF d whole] by blast
  have "\<forall>b \<in> set (fst (sse_blocks (sse_text d))). int (length b) + 1 \<le> limit"
    using assms(2) sse_blocks_append[of "sse_text d" w] w by (auto simp: sse_fits_def list_all_iff)
  then have "\<forall>b \<in> set (fst (sse_blocks (sse_text d))). int (length b) \<le> limit" by force
  moreover have "length (snd (sse_blocks (sse_text d))) \<le> nat limit"
  proof (rule sse_rest_bound)
    show "\<forall>b \<in> set (fst (sse_blocks (sse_text d @ w))). length b + 1 \<le> nat limit"
      using assms(2) unfolding sse_fits_def w list_all_iff by force
    show "length (snd (sse_blocks (sse_text d @ w))) \<le> nat limit"
      using assms(2) unfolding sse_fits_def w by linarith
  qed
  moreover have "0 \<le> limit" using assms(2) by (auto simp: sse_fits_def)
  ultimately show thesis using that[OF d] by auto
qed

lemma sse_events_fitting:
  "sse_inv bytes st fs \<Longrightarrow> utf8_ok (bytes @ concat cs) \<Longrightarrow> sse_fits limit (bytes @ concat cs) \<Longrightarrow>
   \<exists>fs'. sse_events limit (\<lambda>_ _. Continue) (map Data cs) st fs = (Ended, fs')"
proof (induction cs arbitrary: bytes st fs)
  case Nil
  then have "utf8_split [] [] bytes = Some (bytes, [])"
    using utf8_split_ok[of "[]" bytes "[]"] by (simp add: utf8_ok_def)
  then have "ss_tail st = []" "int (length (ss_buffer st)) \<le> limit"
    using Nil(1,3) by (auto simp: sse_inv_def sse_fits_def)
  then show ?case by (simp add: consume_sse_Continue)
next
  case (Cons c cs)
  have now: "utf8_ok ((bytes @ c) @ concat cs)" "sse_fits limit ((bytes @ c) @ concat cs)"
    using Cons.prems by simp_all
  from sse_fits_prefix[OF now] obtain d t where d: "utf8_split [] [] (bytes @ c) = Some (d, t)"
      "\<forall>b \<in> set (fst (sse_blocks (sse_text d))). int (length b) \<le> limit"
      "int (length (snd (sse_blocks (sse_text d)))) \<le> limit" .
  obtain out where out: "utf8_split [] [] bytes = Some (out, ss_tail st)"
    using Cons.prems(1) unfolding sse_inv_def by blast
  then have "utf8_split [] [] (ss_tail st @ c) \<noteq> None"
    using utf8_split_append[OF out awaits_Nil, of c] d(1)
    by (cases "utf8_split [] [] (ss_tail st @ c)") (auto simp: emitting_def)
  then obtain out' st1 where dec: "decode_chunk c st = Inr (out', st1)"
    by (auto simp: decode_chunk_def)
  obtain bs rest where blocks: "sse_blocks (ss_buffer (append_decoded out' st1)) = (bs, rest)"
    by fastforce
  note step = sse_inv_step[OF Cons.prems(1) dec blocks]
  have fits: "\<forall>b \<in> set bs. int (length b) \<le> limit" "int (length rest) \<le> limit"
    using step(2) d by auto
  obtain fs2 where fs2: "sse_drain limit (\<lambda>_ _. Continue) (ss_buffer (append_decoded out' st1)) fs = Inl (rest, fs2)"
    using sse_drain_Continue[of "ss_buffer (append_decoded out' st1)" limit fs] fits(1)
    unfolding blocks fst_conv snd_conv by blast
  then have "sse_inv (bytes @ c) (append_decoded out' st1 \<lparr> ss_buffer := rest \<rparr>) fs2"
    using step(1) conjunct1[OF sse_drain_Inl[OF fs2]] unfolding blocks fst_conv by simp
  from Cons.IH[OF this now] show ?case using dec fs2 fits(2) by (simp add: Let_def)
qed

end
