(* ===== verification/Realtime_Retry.thy ===== *)
theory Realtime_Retry
  imports Protocol_Fields Step_Machines
begin

text \<open>
  Choosing a realtime transport and keeping a connection alive, \<^verbatim>\<open>negotiateDurableRealtimeTransport\<close>,
  \<^verbatim>\<open>connectWithRealtimeTransportFallback\<close> and \<^verbatim>\<open>runDurableRealtime\<close> of
  \<^verbatim>\<open>packages/shared/src/durable-realtime.ts\<close>.

  The runtime is a handler of rounds. A round is what the surroundings answer in one pass of the
  loop (is the subscription still current, how did the connection end, what time is it), and the
  state keeps the trace of what the runtime did. Times are integral milliseconds; sums of times
  are exact, as they are in the source below \<open>2 ^ 53\<close>.
\<close>

section \<open>Transports\<close>

datatype failure_kind =
  Unsupported | Network_path | Deployment_disabled | Authentication | Authorization | Revocation
| Schema | Protocol_integrity

datatype connect_error = Transport_failure failure_kind string | Other_error js_error

definition negotiate_transport :: "string list \<Rightarrow> string list \<Rightarrow> string option" where
  "negotiate_transport offered supported = find (\<lambda>t. t \<in> set supported) offered"

text \<open>\<^verbatim>\<open>offered.filter((t, i) => supported.has(t) && offered.indexOf(t) === i)\<close>\<close>

fun first_supported :: "string list \<Rightarrow> string list \<Rightarrow> string list \<Rightarrow> string list" where
  "first_supported seen supported [] = []"
| "first_supported seen supported (t # ts) =
     (if t \<in> set supported \<and> t \<notin> set seen then [t] else []) @ first_supported (t # seen) supported ts"

definition fallback_kind :: "connect_error \<Rightarrow> failure_kind option" where
  "fallback_kind e =
     (case e of
        Transport_failure k _ \<Rightarrow> if k \<in> {Unsupported, Network_path, Deployment_disabled} then Some k else None
      | Other_error _ \<Rightarrow> None)"

definition no_transport :: connect_error where
  "no_transport = Transport_failure Unsupported ''No compatible realtime transport is available''"

text \<open>\<^verbatim>\<open>connectWithRealtimeTransportFallback\<close>: the notices given to \<^verbatim>\<open>onFallback\<close> and the outcome.
  A next transport whose name is empty counts as none.\<close>

type_synonym fallback_notice = "string \<times> string \<times> failure_kind"

fun try_candidates ::
  "(string \<Rightarrow> connect_error + 'r) \<Rightarrow> string list \<Rightarrow> fallback_notice list \<times> (connect_error + string \<times> 'r)" where
  "try_candidates attempt [] = ([], Inl no_transport)"
| "try_candidates attempt (t # ts) =
     (case attempt t of
        Inr r \<Rightarrow> ([], Inr (t, r))
      | Inl e \<Rightarrow>
          (case (fallback_kind e, ts) of
             (Some k, n # _) \<Rightarrow>
               if n = [] then ([], Inl e)
               else apfst ((#) (t, n, k)) (try_candidates attempt ts)
           | _ \<Rightarrow> ([], Inl e)))"

definition connect_with_fallback ::
  "(string \<Rightarrow> connect_error + 'r) \<Rightarrow> string list \<Rightarrow> string list \<Rightarrow>
     fallback_notice list \<times> (connect_error + string \<times> 'r)" where
  "connect_with_fallback attempt offered supported =
     try_candidates attempt (first_supported [] supported offered)"

section \<open>The retry policy\<close>

record retry_policy =
  rp_max_attempts :: int
  rp_window_ms :: int
  rp_cooldown_ms :: int
  rp_delay :: "int \<Rightarrow> js_number"

definition policy_error :: js_error where
  "policy_error = TypeError ''Durable realtime retry policy is invalid''"

definition policy_integer :: "js_value \<Rightarrow> int result" where
  "policy_integer v = (case safe_integer 1 v of None \<Rightarrow> Inl policy_error | Some n \<Rightarrow> Inr n)"

text \<open>\<^verbatim>\<open>assertRetryPolicy\<close>, with the policy as the loop reads it.\<close>

definition assert_retry_policy ::
  "js_value \<Rightarrow> js_value \<Rightarrow> js_value \<Rightarrow> (int \<Rightarrow> js_number) \<Rightarrow> retry_policy result" where
  "assert_retry_policy maxAttempts attemptWindowMs unavailableCooldownMs delayForAttempt =
     ebind (policy_integer maxAttempts) (\<lambda>n.
     ebind (policy_integer attemptWindowMs) (\<lambda>w.
     ebind (policy_integer unavailableCooldownMs) (\<lambda>c.
     Inr \<lparr> rp_max_attempts = n, rp_window_ms = w, rp_cooldown_ms = c, rp_delay = delayForAttempt \<rparr>)))"

text \<open>\<^verbatim>\<open>retryDelay\<close>; \<^verbatim>\<open>Math.round\<close> is the floor of the number plus a half.\<close>

definition retry_delay :: "retry_policy \<Rightarrow> int \<Rightarrow> int result" where
  "retry_delay p attempt =
     (case rp_delay p attempt of
        Whole n \<Rightarrow> if n < 0 then Inl (TypeError ''Durable realtime retry delay is invalid'') else Inr n
      | Fraction a b \<Rightarrow>
          if a * b < 0 then Inl (TypeError ''Durable realtime retry delay is invalid'')
          else Inr ((2 * a + b) div (2 * b))
      | Not_finite \<Rightarrow> Inl (TypeError ''Durable realtime retry delay is invalid''))"

section \<open>The runtime\<close>

datatype connection_state =
    Connecting
  | Live
  | Reconnecting int int int \<comment> \<open>\<^verbatim>\<open>reconnectAttempt\<close>, \<^verbatim>\<open>retryAtMs\<close>, \<^verbatim>\<open>retryDelayMs\<close>\<close>
  | Unavailable int int int

datatype action = Emit connection_state | Connect bool | Sleep int

datatype connect_outcome = Conn_ended | Conn_terminal | Conn_rejected

text \<open>The answers of one pass: the loop's test; whether \<^verbatim>\<open>markLive\<close> was called and first called
  while current; how \<^verbatim>\<open>connect\<close> settled and whether the subscription is current then; the time;
  and the two tests around the state that is emitted.\<close>

record round =
  rd_current :: bool
  rd_live :: bool
  rd_outcome :: connect_outcome
  rd_still_current :: bool
  rd_now :: int
  rd_may_emit :: bool
  rd_goes_on :: bool

datatype run_status = Running | Returned | Run_threw js_error

record runtime =
  rt_attempts :: "int list"
  rt_reconnecting :: bool
  rt_trace :: "action list"
  rt_status :: run_status

definition act :: "action \<Rightarrow> runtime \<Rightarrow> runtime" where
  "act a s = s \<lparr> rt_trace := rt_trace s @ [a] \<rparr>"

text \<open>\<^verbatim>\<open>if (!emitState(state)) return; await sleep(delay);\<close> and the state to go on with.\<close>

definition emit_and_sleep :: "round \<Rightarrow> connection_state \<Rightarrow> int \<Rightarrow> int list \<Rightarrow> runtime \<Rightarrow> runtime" where
  "emit_and_sleep rd st delay attempts' s =
     (if \<not> rd_may_emit rd then s \<lparr> rt_status := Returned \<rparr>
      else if \<not> rd_goes_on rd then act (Emit st) s \<lparr> rt_status := Returned \<rparr>
      else act (Sleep delay) (act (Emit st) s) \<lparr> rt_attempts := attempts' \<rparr>)"

definition after_connect :: "retry_policy \<Rightarrow> round \<Rightarrow> runtime \<Rightarrow> runtime" where
  "after_connect p rd s =
     (let now = rd_now rd;
          recent = dropWhile (\<lambda>t. rp_window_ms p \<le> now - t) (rt_attempts s);
          s1 = s \<lparr> rt_reconnecting := True, rt_attempts := recent \<rparr>
      in if rp_max_attempts p \<le> int (length recent) then
           emit_and_sleep rd (Unavailable (rp_max_attempts p) (now + rp_cooldown_ms p) (rp_cooldown_ms p))
             (rp_cooldown_ms p) [] s1
         else
           (let s2 = s1 \<lparr> rt_attempts := recent @ [now] \<rparr>;
                attempt = int (length recent + 1)
            in case retry_delay p attempt of
                 Inl e \<Rightarrow> s2 \<lparr> rt_status := Run_threw e \<rparr>
               | Inr d \<Rightarrow> emit_and_sleep rd (Reconnecting attempt (now + d) d) d (recent @ [now]) s2))"

definition run_round :: "retry_policy \<Rightarrow> round \<Rightarrow> runtime \<Rightarrow> runtime" where
  "run_round p rd s =
     (if rt_status s \<noteq> Running then s
      else if \<not> rd_current rd then s \<lparr> rt_status := Returned \<rparr>
      else
        (let s1 = act (Connect (rt_reconnecting s)) s;
             s2 = (if rd_live rd then act (Emit Live) s1 else s1)
         in if \<not> rd_still_current rd \<or> rd_outcome rd = Conn_terminal then s2 \<lparr> rt_status := Returned \<rparr>
            else after_connect p rd s2))"

text \<open>\<^verbatim>\<open>runDurableRealtime\<close>: the first state, then one round after another; \<open>Running\<close> at the end
  means that more rounds would follow.\<close>

definition runtime_start :: "bool \<Rightarrow> bool \<Rightarrow> runtime" where
  "runtime_start may_emit goes_on =
     \<lparr> rt_attempts = [], rt_reconnecting = False,
       rt_trace = (if may_emit then [Emit Connecting] else []),
       rt_status = (if may_emit \<and> goes_on then Running else Returned) \<rparr>"

definition run_realtime ::
  "js_value \<Rightarrow> js_value \<Rightarrow> js_value \<Rightarrow> (int \<Rightarrow> js_number) \<Rightarrow> bool \<Rightarrow> bool \<Rightarrow> round list \<Rightarrow> runtime result" where
  "run_realtime maxAttempts attemptWindowMs unavailableCooldownMs delayForAttempt may_emit goes_on rounds =
     ebind (assert_retry_policy maxAttempts attemptWindowMs unavailableCooldownMs delayForAttempt) (\<lambda>p.
     Inr (fold (run_round p) rounds (runtime_start may_emit goes_on)))"

section \<open>Which transport is connected\<close>

lemma first_supported_set: "set (first_supported seen supported ts) = set ts \<inter> set supported - set seen"
  by (induction seen supported ts rule: first_supported.induct) auto

lemma first_supported_distinct: "distinct (first_supported seen supported ts)"
  by (induction seen supported ts rule: first_supported.induct) (auto simp: first_supported_set)

text \<open>A failure from which the next candidate is tried.\<close>

definition falls_back :: "(string \<Rightarrow> connect_error + 'r) \<Rightarrow> string \<Rightarrow> bool" where
  "falls_back attempt t = (case attempt t of Inl e \<Rightarrow> fallback_kind e \<noteq> None | Inr _ \<Rightarrow> False)"

lemma try_candidates_Inr:
  "snd (try_candidates attempt ts) = Inr (t, r) \<longleftrightarrow>
     (\<exists>pre post. ts = pre @ t # post \<and> attempt t = Inr r \<and> list_all (falls_back attempt) pre \<and>
        [] \<notin> set (drop 1 (pre @ [t])))"
proof (induction attempt ts rule: try_candidates.induct)
  case (2 attempt u us)
  show ?case
  proof (cases "attempt u")
    case (Inr r')
    then show ?thesis
      by (auto simp: Cons_eq_append_conv falls_back_def)
  next
    case (Inl e)
    show ?thesis
    proof (cases "fallback_kind e = None \<or> us = [] \<or> hd us = []")
      case True
      then show ?thesis
        using Inl by (cases us) (auto simp: Cons_eq_append_conv falls_back_def split: option.splits)
    next
      case False
      then obtain k n ns where k: "fallback_kind e = Some k" "us = n # ns" "n \<noteq> []" by (cases us) auto
      have tail: "(\<exists>pre post. u # us = pre @ t # post \<and> attempt t = Inr r \<and> list_all (falls_back attempt) pre \<and>
          [] \<notin> set (drop 1 (pre @ [t]))) \<longleftrightarrow>
        (\<exists>pre post. us = pre @ t # post \<and> attempt t = Inr r \<and> list_all (falls_back attempt) pre \<and>
          [] \<notin> set (drop 1 (pre @ [t])))" (is "?L \<longleftrightarrow> ?R")
      proof
        assume ?L
        then obtain pre post where p: "u # us = pre @ t # post" "attempt t = Inr r"
          "list_all (falls_back attempt) pre" "[] \<notin> set (drop 1 (pre @ [t]))" by blast
        then obtain pre' where "pre = u # pre'" using Inl by (cases pre) auto
        then show ?R using p by (intro exI[of _ pre'] exI[of _ post]) (cases pre'; auto)
      next
        assume ?R
        then obtain pre post where p: "us = pre @ t # post" "attempt t = Inr r"
          "list_all (falls_back attempt) pre" "[] \<notin> set (drop 1 (pre @ [t]))" by blast
        then show ?L using k Inl
          by (intro exI[of _ "u # pre"] exI[of _ post]) (cases pre; auto simp: falls_back_def)
      qed
      then show ?thesis using 2 Inl k by auto
    qed
  qed
qed simp

section \<open>The contract of the runtime\<close>

definition policy_ok :: "retry_policy \<Rightarrow> bool" where
  "policy_ok p \<longleftrightarrow> int_in 1 (rp_max_attempts p) \<and> int_in 1 (rp_window_ms p) \<and> int_in 1 (rp_cooldown_ms p)"

lemma policy_integer_iff: "policy_integer v = Inr n \<longleftrightarrow> v = js_int n \<and> int_in 1 n"
  by (auto simp: policy_integer_def safe_integer_eq_Some js_int_def int_in_def safe_integer_def
      split: option.splits js_value.splits js_number.splits if_splits)

lemma assert_retry_policy_iff:
  "assert_retry_policy a b c f = Inr p \<longleftrightarrow>
     policy_ok p \<and> a = js_int (rp_max_attempts p) \<and> b = js_int (rp_window_ms p) \<and>
     c = js_int (rp_cooldown_ms p) \<and> f = rp_delay p"
  by (cases p) (auto simp: assert_retry_policy_def result_simps policy_integer_iff policy_ok_def)

lemma retry_delay_nonneg:
  assumes "retry_delay p n = Inr d"
  shows "0 \<le> d"
proof (cases "rp_delay p n")
  case (Fraction a b)
  then have d: "d = (2 * a + b) div (2 * b)" "0 \<le> a * b"
    using assms by (auto simp: retry_delay_def split: if_splits)
  show ?thesis
  proof (cases "0 < b")
    case True
    then have "0 \<le> a" using d(2) by (simp add: zero_le_mult_iff)
    then show ?thesis using True d(1) by (simp add: pos_imp_zdiv_nonneg_iff)
  next
    case False
    then have "b = 0 \<or> b < 0 \<and> a \<le> 0" using d(2) by (auto simp: zero_le_mult_iff)
    then show ?thesis using d(1) by (auto simp: neg_imp_zdiv_nonneg_iff)
  qed
qed (use assms in \<open>auto simp: retry_delay_def split: if_splits\<close>)

lemma policy_okD:
  assumes "policy_ok p"
  shows "1 \<le> rp_max_attempts p" "1 \<le> rp_window_ms p" "1 \<le> rp_cooldown_ms p"
  using assms by (simp_all add: policy_ok_def int_in_def)

text \<open>What every action of a runtime with policy \<open>p\<close> is like.\<close>

fun action_ok :: "retry_policy \<Rightarrow> action \<Rightarrow> bool" where
  "action_ok p (Emit (Reconnecting n t d)) \<longleftrightarrow> 1 \<le> n \<and> n \<le> rp_max_attempts p \<and> retry_delay p n = Inr d"
| "action_ok p (Emit (Unavailable n t d)) \<longleftrightarrow> n = rp_max_attempts p \<and> d = rp_cooldown_ms p"
| "action_ok p (Sleep d) \<longleftrightarrow> 0 \<le> d"
| "action_ok p _ \<longleftrightarrow> True"

definition runtime_inv :: "retry_policy \<Rightarrow> runtime \<Rightarrow> bool" where
  "runtime_inv p s \<longleftrightarrow>
     policy_ok p \<and> int (length (rt_attempts s)) \<le> rp_max_attempts p \<and> list_all (action_ok p) (rt_trace s)"

lemmas runtime_simps = act_def emit_and_sleep_def after_connect_def run_round_def Let_def

lemma runtime_inv_start: "policy_ok p \<Longrightarrow> runtime_inv p (runtime_start may_emit goes_on)"
  using policy_okD(1)[of p] by (simp add: runtime_inv_def runtime_start_def)

lemma runtime_inv_act: "runtime_inv p s \<Longrightarrow> action_ok p a \<Longrightarrow> runtime_inv p (act a s)"
  by (simp add: runtime_inv_def act_def)

lemma runtime_inv_emit:
  "runtime_inv p s \<Longrightarrow> action_ok p (Emit st) \<Longrightarrow> 0 \<le> d \<Longrightarrow> int (length as) \<le> rp_max_attempts p \<Longrightarrow>
   runtime_inv p (emit_and_sleep rd st d as s)"
  by (simp add: runtime_inv_def emit_and_sleep_def act_def)

lemma runtime_inv_after:
  assumes "runtime_inv p s"
  shows "runtime_inv p (after_connect p rd s)"
proof -
  let ?recent = "dropWhile (\<lambda>t. rp_window_ms p \<le> rd_now rd - t) (rt_attempts s)"
  let ?s1 = "s \<lparr> rt_reconnecting := True, rt_attempts := ?recent \<rparr>"
  have len: "int (length ?recent) \<le> rp_max_attempts p"
    using assms length_dropWhile_le[of _ "rt_attempts s"] unfolding runtime_inv_def
    by (meson of_nat_mono order_trans)
  then have s1: "runtime_inv p ?s1" using assms by (simp add: runtime_inv_def)
  show ?thesis
  proof (cases "rp_max_attempts p \<le> int (length ?recent)")
    case True
    have "runtime_inv p (emit_and_sleep rd (Unavailable (rp_max_attempts p)
        (rd_now rd + rp_cooldown_ms p) (rp_cooldown_ms p)) (rp_cooldown_ms p) [] ?s1)"
      using policy_okD[of p] assms by (intro runtime_inv_emit[OF s1]) (simp_all add: runtime_inv_def)
    then show ?thesis using True by (simp add: after_connect_def Let_def)
  next
    case False
    let ?s2 = "?s1 \<lparr> rt_attempts := ?recent @ [rd_now rd] \<rparr>"
    have s2: "runtime_inv p ?s2" using s1 False by (simp add: runtime_inv_def)
    show ?thesis
    proof (cases "retry_delay p (int (length ?recent + 1))")
      case (Inl e)
      then show ?thesis using s2 False by (simp add: after_connect_def Let_def runtime_inv_def)
    next
      case (Inr d)
      then have "runtime_inv p (emit_and_sleep rd (Reconnecting (int (length ?recent + 1)) (rd_now rd + d) d) d
          (?recent @ [rd_now rd]) ?s2)"
        using False retry_delay_nonneg[OF Inr] by (intro runtime_inv_emit[OF s2]) simp_all
      then show ?thesis using Inr False by (simp add: after_connect_def Let_def)
    qed
  qed
qed

lemma runtime_inv_round: "runtime_inv p s \<Longrightarrow> runtime_inv p (run_round p rd s)"
proof -
  assume inv: "runtime_inv p s"
  then have "runtime_inv p (act (Emit Live) (act (Connect b) s))" "runtime_inv p (act (Connect b) s)" for b
    by (simp_all add: runtime_inv_act)
  moreover have "runtime_inv p (t \<lparr> rt_status := r \<rparr>)" if "runtime_inv p t" for t r
    using that by (simp add: runtime_inv_def)
  ultimately show ?thesis using inv runtime_inv_after by (simp add: run_round_def Let_def)
qed

interpretation retry: guarded_machine "run_round p"
  "\<lambda>s. policy_ok p \<and> (\<exists>may_emit goes_on. s = runtime_start may_emit goes_on)" "runtime_inv p" for p
  by unfold_locales (auto intro: runtime_inv_start runtime_inv_round)

section \<open>The rate of reconnections\<close>

text \<open>The times of the reconnections announced since the last time of unavailability.\<close>

definition note_action :: "action \<Rightarrow> int list \<Rightarrow> int list" where
  "note_action a ts =
     (case a of
        Emit (Reconnecting n at d) \<Rightarrow> ts @ [at - d]
      | Emit (Unavailable n at d) \<Rightarrow> []
      | _ \<Rightarrow> ts)"

definition reconnect_times :: "action list \<Rightarrow> int list" where
  "reconnect_times trace = fold note_action trace []"

text \<open>\<open>spread n w ts\<close>: no \<open>n + 1\<close> of the times are within a window of length \<open>w\<close>.\<close>

definition spread :: "nat \<Rightarrow> int \<Rightarrow> int list \<Rightarrow> bool" where
  "spread n w ts \<longleftrightarrow> (\<forall>i. i + n < length ts \<longrightarrow> w \<le> ts ! (i + n) - ts ! i)"

lemma spread_Nil [simp]: "spread n w []"
  by (simp add: spread_def)

lemma spread_snoc:
  assumes "spread n w ts" "n \<le> length ts \<Longrightarrow> w \<le> t - (ts @ [t]) ! (length ts - n)"
  shows "spread n w (ts @ [t])"
  unfolding spread_def
proof (intro allI impI)
  fix i assume i: "i + n < length (ts @ [t])"
  show "w \<le> (ts @ [t]) ! (i + n) - (ts @ [t]) ! i"
  proof (cases "i + n < length ts")
    case True
    then show ?thesis using assms(1) by (simp add: spread_def nth_append)
  next
    case False
    then have "i + n = length ts" "i = length ts - n" using i by simp_all
    then show ?thesis using assms(2) by (simp add: nth_append)
  qed
qed

text \<open>While the runtime is running its attempts are the times that are not yet a window old, up to
  those it has not looked at since.\<close>

definition window_inv :: "retry_policy \<Rightarrow> int \<Rightarrow> runtime \<Rightarrow> bool" where
  "window_inv p now s \<longleftrightarrow>
     spread (nat (rp_max_attempts p)) (rp_window_ms p) (reconnect_times (rt_trace s)) \<and>
     (rt_status s = Running \<longrightarrow>
       (\<exists>old. reconnect_times (rt_trace s) = old @ rt_attempts s \<and>
          list_all (\<lambda>t. rp_window_ms p \<le> now - t) old))"

lemma window_inv_later: "window_inv p now s \<Longrightarrow> now \<le> later \<Longrightarrow> window_inv p later s"
  by (fastforce simp: window_inv_def list_all_iff)

lemma reconnect_times_act: "reconnect_times (rt_trace (act a s)) = note_action a (reconnect_times (rt_trace s))"
  by (simp add: reconnect_times_def act_def)

lemma note_action_simps [simp]:
  "note_action (Connect b) ts = ts" "note_action (Emit Live) ts = ts" "note_action (Sleep d) ts = ts"
  "note_action (Emit (Reconnecting n at d)) ts = ts @ [at - d]" "note_action (Emit (Unavailable n at d)) ts = []"
  by (simp_all add: note_action_def)

lemma window_inv_emit:
  assumes "spread (nat (rp_max_attempts p)) (rp_window_ms p) (reconnect_times (rt_trace s))"
    and "spread (nat (rp_max_attempts p)) (rp_window_ms p) (note_action (Emit st) (reconnect_times (rt_trace s)))"
    and "note_action (Emit st) (reconnect_times (rt_trace s)) = old @ as"
    and "list_all (\<lambda>t. rp_window_ms p \<le> now - t) old" and "rt_status s = Running"
  shows "window_inv p now (emit_and_sleep rd st d as s)"
proof -
  have trace: "reconnect_times (rt_trace (emit_and_sleep rd st d as s)) =
      (if rd_may_emit rd then note_action (Emit st) (reconnect_times (rt_trace s))
       else reconnect_times (rt_trace s))"
    by (simp add: emit_and_sleep_def act_def reconnect_times_def)
  have run: "rt_status (emit_and_sleep rd st d as s) = Running \<longleftrightarrow> rd_may_emit rd \<and> rd_goes_on rd"
    using assms(5) by (simp add: emit_and_sleep_def act_def)
  have att: "rd_may_emit rd \<and> rd_goes_on rd \<Longrightarrow> rt_attempts (emit_and_sleep rd st d as s) = as"
    by (simp add: emit_and_sleep_def act_def)
  show ?thesis
    using assms(1-4) att unfolding window_inv_def trace run by auto
qed

lemma window_inv_after:
  assumes inv: "window_inv p (rd_now rd) s" and run: "rt_status s = Running" and pol: "policy_ok p"
  shows "window_inv p (rd_now rd) (after_connect p rd s)"
proof -
  let ?now = "rd_now rd" and ?w = "rp_window_ms p" and ?ts = "reconnect_times (rt_trace s)"
  let ?aged = "\<lambda>t. ?w \<le> ?now - t"
  let ?recent = "dropWhile ?aged (rt_attempts s)"
  from inv run obtain old where old: "?ts = old @ rt_attempts s" "list_all ?aged old"
    by (auto simp: window_inv_def)
  let ?old = "old @ takeWhile ?aged (rt_attempts s)"
  have ts: "?ts = ?old @ ?recent" using old(1) by simp
  have aged: "list_all ?aged ?old"
    using old(2) by (auto simp: list_all_iff dest: set_takeWhileD)
  have spread: "spread (nat (rp_max_attempts p)) ?w ?ts" using inv by (simp add: window_inv_def)
  have next_spread: "spread (nat (rp_max_attempts p)) ?w (?ts @ [?now])"
    if "\<not> rp_max_attempts p \<le> int (length ?recent)"
  proof (rule spread_snoc[OF spread])
    assume "nat (rp_max_attempts p) \<le> length ?ts"
    then have i: "length ?ts - nat (rp_max_attempts p) < length ?old"
      using that policy_okD(1)[OF pol] unfolding ts by (simp only: length_append)
    then have "(?ts @ [?now]) ! (length ?ts - nat (rp_max_attempts p)) \<in> set ?old"
      unfolding ts by (metis append_assoc nth_append nth_mem)
    then show "?w \<le> ?now - (?ts @ [?now]) ! (length ?ts - nat (rp_max_attempts p))"
      using aged by (simp add: list_all_iff)
  qed
  let ?s1 = "s \<lparr> rt_reconnecting := True, rt_attempts := ?recent \<rparr>"
  let ?s2 = "?s1 \<lparr> rt_attempts := ?recent @ [?now] \<rparr>"
  show ?thesis
  proof (cases "rp_max_attempts p \<le> int (length ?recent)")
    case True
    have "window_inv p ?now (emit_and_sleep rd (Unavailable (rp_max_attempts p) (?now + rp_cooldown_ms p)
        (rp_cooldown_ms p)) (rp_cooldown_ms p) [] ?s1)"
      using spread run by (intro window_inv_emit[where old = "[]"]) simp_all
    then show ?thesis using True by (simp add: after_connect_def Let_def)
  next
    case False
    show ?thesis
    proof (cases "retry_delay p (int (length ?recent + 1))")
      case (Inl e)
      then show ?thesis using False spread by (simp add: after_connect_def Let_def window_inv_def)
    next
      case (Inr d)
      have "window_inv p ?now (emit_and_sleep rd (Reconnecting (int (length ?recent + 1)) (?now + d) d) d
          (?recent @ [?now]) ?s2)"
        using spread next_spread[OF False] ts aged run
        by (intro window_inv_emit[where old = ?old]) simp_all
      then show ?thesis using Inr False by (simp add: after_connect_def Let_def)
    qed
  qed
qed

lemma window_inv_round:
  assumes "window_inv p now s" "now \<le> rd_now rd" "policy_ok p"
  shows "window_inv p (rd_now rd) (run_round p rd s)"
proof -
  have s: "window_inv p (rd_now rd) s" using window_inv_later[OF assms(1,2)] .
  have returned: "window_inv p (rd_now rd) (t \<lparr> rt_status := Returned \<rparr>)" if "window_inv p (rd_now rd) t" for t
    using that by (simp add: window_inv_def)
  have acts: "window_inv p (rd_now rd) (act (Connect b) t)" "window_inv p (rd_now rd) (act (Emit Live) t)"
    if "window_inv p (rd_now rd) t" for b t
    using that by (simp_all add: window_inv_def reconnect_times_act) (simp_all add: act_def)
  have "rt_status (act a t) = rt_status t" for a t by (simp add: act_def)
  then show ?thesis
    using s returned acts window_inv_after[OF _ _ assms(3)] by (simp add: run_round_def Let_def)
qed

lemma window_inv_rounds:
  "window_inv p now s \<Longrightarrow> sorted (now # map rd_now rounds) \<Longrightarrow> policy_ok p \<Longrightarrow>
   \<exists>later. window_inv p later (fold (run_round p) rounds s)"
proof (induction rounds arbitrary: now s)
  case (Cons rd rounds)
  then have "window_inv p (rd_now rd) (run_round p rd s)" by (intro window_inv_round) auto
  then show ?case using Cons by simp
qed auto

lemma window_inv_start: "window_inv p now (runtime_start may_emit goes_on)"
  by (simp add: window_inv_def runtime_start_def reconnect_times_def note_action_def)

section \<open>The runtime keeps trying\<close>

text \<open>A round in which the subscription is current throughout and the connection ends or fails.\<close>

definition losing_round :: "round \<Rightarrow> bool" where
  "losing_round rd \<longleftrightarrow>
     rd_current rd \<and> rd_still_current rd \<and> rd_outcome rd \<noteq> Conn_terminal \<and> rd_may_emit rd \<and> rd_goes_on rd"

definition connects :: "action list \<Rightarrow> bool list" where
  "connects trace = List.map_filter (\<lambda>a. case a of Connect b \<Rightarrow> Some b | _ \<Rightarrow> None) trace"

lemma connects_append [simp]: "connects (xs @ ys) = connects xs @ connects ys"
  by (simp add: connects_def List.map_filter_def)

lemma connects_simps [simp]: "connects (Connect b # xs) = b # connects xs"
    "connects (Emit st # xs) = connects xs" "connects (Sleep d # xs) = connects xs" "connects [] = []"
  by (simp_all add: connects_def List.map_filter_def)

lemma losing_round_step:
  assumes "losing_round rd" "rt_status s = Running" "runtime_inv p s"
    and delays: "\<And>n. 1 \<le> n \<Longrightarrow> n \<le> rp_max_attempts p \<Longrightarrow> \<exists>d. retry_delay p n = Inr d"
  shows "rt_status (run_round p rd s) = Running" "rt_reconnecting (run_round p rd s)"
    "connects (rt_trace (run_round p rd s)) = connects (rt_trace s) @ [rt_reconnecting s]"
proof -
  let ?recent = "dropWhile (\<lambda>t. rp_window_ms p \<le> rd_now rd - t) (rt_attempts s)"
  obtain d where d: "\<not> rp_max_attempts p \<le> int (length ?recent) \<Longrightarrow> retry_delay p (1 + int (length ?recent)) = Inr d"
    using delays[of "1 + int (length ?recent)"] by (cases "rp_max_attempts p \<le> int (length ?recent)") auto
  have "rt_status (run_round p rd s) = Running \<and> rt_reconnecting (run_round p rd s) \<and>
      connects (rt_trace (run_round p rd s)) = connects (rt_trace s) @ [rt_reconnecting s]"
    using assms(1,2) d
    by (cases "rp_max_attempts p \<le> int (length ?recent)"; cases "rd_live rd")
      (simp_all add: losing_round_def run_round_def after_connect_def emit_and_sleep_def act_def Let_def)
  then show "rt_status (run_round p rd s) = Running" "rt_reconnecting (run_round p rd s)"
    "connects (rt_trace (run_round p rd s)) = connects (rt_trace s) @ [rt_reconnecting s]" by blast+
qed

lemma losing_rounds:
  assumes "list_all losing_round rounds" "rt_status s = Running" "runtime_inv p s"
    and delays: "\<And>n. 1 \<le> n \<Longrightarrow> n \<le> rp_max_attempts p \<Longrightarrow> \<exists>d. retry_delay p n = Inr d"
    and "rounds \<noteq> []"
  shows "rt_status (fold (run_round p) rounds s) = Running \<and>
    connects (rt_trace (fold (run_round p) rounds s)) =
      connects (rt_trace s) @ rt_reconnecting s # replicate (length rounds - 1) True"
  using assms(1-3,5)
proof (induction rounds arbitrary: s)
  case (Cons rd rounds)
  note step = losing_round_step[OF _ Cons.prems(2,3) delays, of rd]
  show ?case
  proof (cases rounds)
    case Nil
    then show ?thesis using step Cons.prems(1) by simp
  next
    case (Cons rd' rest)
    then show ?thesis
      using Cons.IH[of "run_round p rd s"] step Cons.prems runtime_inv_round by simp
  qed
qed simp

end
