(* ===== verification/Realtime_Properties.thy ===== *)
theory Realtime_Properties
  imports Realtime_Sse Realtime_Retry
begin

text \<open>
  The properties of the durable realtime transport: the framed stream and its encoder, the reader
  of server-sent events, the choice of a transport and the runtime that keeps reconnecting.
\<close>

section \<open>The framed stream\<close>

lemma deliver_all_Continue:
  "deliver_all (\<lambda>_ _. Continue) fs st = Reading (st \<lparr> rs_delivered := rs_delivered st @ fs \<rparr>)"
  by (induction fs arbitrary: st) (simp_all add: deliver_def)

lemma require_frame_limit_int: "int_in 1 limit \<Longrightarrow> require_frame_limit (js_int limit) = Inr limit"
  by (simp add: require_frame_limit_iff)

lemma encoded_frame_nonempty: "encode_frame f v = Inr bytes \<Longrightarrow> bytes \<noteq> []"
  by (auto simp: encode_frame_iff)

text \<open>C8. What the encoder wrote is what the reader hands over: whatever the chunks a stream of
  encoded frames arrives in, the reader hands exactly these frames to its handler, in order,
  and then sees the end of the stream.\<close>

theorem encoded_frames_are_read:
  assumes "list_all2 (\<lambda>f bytes. frame_text_ok f \<and> encode_frame f (js_int limit) = Inr bytes) frames encoded"
    and "concat chunks = concat encoded" and "int_in 1 limit"
  shows "read_stream (js_int limit) (\<lambda>_ _. Continue) (map Data chunks) = Inr (Done Ended frames)"
proof (cases "chunks = []")
  case True
  then have "encoded = []"
    using assms(1,2) by (cases encoded) (auto simp: list_all2_Cons2 dest: encoded_frame_nonempty)
  then show ?thesis
    using assms(1,3) True
    by (simp add: read_stream_def require_frame_limit_int consume_frame_def reader_start_def)
next
  case False
  have "1 \<le> limit" using assms(3) by (simp add: int_in_def)
  then have "read_chunk limit (\<lambda>_ _. Continue) [] (concat encoded) reader_start =
      Reading (reader_start \<lparr> rs_delivered := frames \<rparr>)"
    using read_encoded_frames[OF assms(1), of reader_start "\<lambda>_ _. Continue"]
    by (simp add: deliver_all_Continue reader_start_def)
  then show ?thesis
    using read_events_concat[OF False, of limit "\<lambda>_ _. Continue" "[]" reader_start] assms(2,3)
    by (simp add: read_stream_def require_frame_limit_int consume_frame_def reader_start_def)
qed

definition sample_frame :: "string \<Rightarrow> stream_frame" where
  "sample_frame d = \<lparr> sf_event = ''update'', sf_data = d, sf_id = Some ''e1'' \<rparr>"

definition sample_encoded :: "string \<Rightarrow> string" where
  "sample_encoded d = stringify_frame (sample_frame d) @ [CHR 0x0A]"

lemma encoded_frames_are_read_witness:
  "read_stream (js_int 100) (\<lambda>_ _. Continue)
     (map Data [take 7 (sample_encoded ''a''), drop 7 (sample_encoded ''a'') @ sample_encoded ''b''])
   = Inr (Done Ended [sample_frame ''a'', sample_frame ''b''])"
proof (rule encoded_frames_are_read)
  have "frame_text_ok (sample_frame ''a'')" "frame_text_ok (sample_frame ''b'')"
    "encode_frame (sample_frame ''a'') (js_int 100) = Inr (sample_encoded ''a'')"
    "encode_frame (sample_frame ''b'') (js_int 100) = Inr (sample_encoded ''b'')" by code_simp+
  then show "list_all2 (\<lambda>f bytes. frame_text_ok f \<and> encode_frame f (js_int 100) = Inr bytes)
      [sample_frame ''a'', sample_frame ''b''] [sample_encoded ''a'', sample_encoded ''b'']" by simp
qed (simp_all add: int_in_def max_safe_integer_def)

text \<open>Reading the first frame apart loses nothing: a reader of the whole stream gives its handler
  that frame and goes on, from what the handler decides, with what the first reader left.\<close>

theorem first_frame_then_rest:
  assumes "read_first (js_int limit) maxInitialRemainderBytes evs = Inr (f, rest)"
  shows "read_stream (js_int limit) h evs =
           Inr (and_then (deliver h f reader_start) (read_events limit h rest))"
  using assms read_first_reads[OF assms, of h]
  by (auto simp: read_first_def read_stream_def result_simps require_frame_limit_iff)

lemma first_frame_then_rest_witness:
  "read_stream (js_int 100) (\<lambda>_ _. Continue) [Data (sample_encoded ''a'' @ sample_encoded ''b'')]
   = Inr (and_then (deliver (\<lambda>_ _. Continue) (sample_frame ''a'') reader_start)
       (read_events 100 (\<lambda>_ _. Continue) [Data (sample_encoded ''b'')]))"
  by (rule first_frame_then_rest[where maxInitialRemainderBytes = JUndefined]) code_simp

section \<open>Server-sent events\<close>

text \<open>C9. A reading of server-sent events that ends has handed over exactly the frames of the whole
  text, whatever its chunks and the handler were, and the bytes were valid UTF-8.\<close>

theorem sse_frames_of_text:
  assumes "read_sse (js_int limit) h (map Data chunks) = Inr (Ended, frames)"
  shows "utf8_ok (concat chunks) \<and> frames = sse_frames (sse_text (concat chunks))"
  using assms sse_events_ended[OF _ sse_inv_start]
  by (auto simp: read_sse_def split: option.splits)

definition sse_sample :: string where
  "sse_sample = ''event: tick'' @ [CHR 0x0D, CHR 0x0A] @ ''data: 1'' @ [CHR 0x0D, CHR 0x0A, CHR 0x0D, CHR 0x0A]"

definition sse_sample_chunks :: "string list" where
  "sse_sample_chunks = [take 12 sse_sample, drop 12 sse_sample]"

lemma sse_frames_of_text_witness:
  "utf8_ok (concat sse_sample_chunks) \<and>
   [\<lparr> se_event = ''tick'', se_data = ''1'' \<rparr>] = sse_frames (sse_text (concat sse_sample_chunks))"
  by (rule sse_frames_of_text[where limit = 20 and h = "\<lambda>_ _. Continue"]) code_simp

text \<open>Valid text whose frames leave room for one line end is read to its end, in any chunks.\<close>

theorem sse_fitting_text_is_read:
  assumes "int_in 1 limit" "utf8_ok (concat chunks)" "sse_fits limit (concat chunks)"
  shows "read_sse (js_int limit) (\<lambda>_ _. Continue) (map Data chunks) =
           Inr (Ended, sse_frames (sse_text (concat chunks)))"
proof -
  obtain fs where fs: "sse_events limit (\<lambda>_ _. Continue) (map Data chunks) sse_start [] = (Ended, fs)"
    using sse_events_fitting[OF sse_inv_start] assms(2,3) by fastforce
  moreover have "fs = sse_frames (sse_text (concat chunks))"
    using sse_events_ended[OF fs sse_inv_start] by simp
  moreover have "safe_integer 1 (js_int limit) = Some limit"
    using assms(1) by (simp only: safe_integer_eq_Some js_int_def int_in_def)
  ultimately show ?thesis by (simp add: read_sse_def)
qed

lemma sse_fitting_text_is_read_witness:
  "read_sse (js_int 20) (\<lambda>_ _. Continue) (map Data sse_sample_chunks) =
     Inr (Ended, sse_frames (sse_text (concat sse_sample_chunks)))"
  by (rule sse_fitting_text_is_read) code_simp+

text \<open>At the limit itself the chunks do matter: a frame of exactly the limit is read when the empty
  line that ends it comes in one chunk, and refused when a chunk ends within it.\<close>

theorem sse_limit_depends_on_chunks:
  "read_sse (js_int 9) (\<lambda>_ _. Continue) [Data (''data: abc'' @ [CHR 0x0A, CHR 0x0A])] =
     Inr (Ended, [\<lparr> se_event = ''message'', se_data = ''abc'' \<rparr>]) \<and>
   read_sse (js_int 9) (\<lambda>_ _. Continue) [Data (''data: abc'' @ [CHR 0x0A]), Data [CHR 0x0A]] =
     Inr (Threw sse_limit_error, [])"
  by (intro conjI) code_simp+

section \<open>Connecting\<close>

text \<open>A connection is made over transport \<open>t\<close> exactly when \<open>t\<close> is offered and supported, its
  attempt succeeds, and every candidate before it failed in a way that permits a fallback; a
  candidate after the first must have a name.\<close>

theorem fallback_connects_iff:
  "snd (connect_with_fallback attempt offered supported) = Inr (t, r) \<longleftrightarrow>
     (\<exists>before after. first_supported [] supported offered = before @ t # after \<and> attempt t = Inr r \<and>
        list_all (falls_back attempt) before \<and> [] \<notin> set (drop 1 (before @ [t])))"
  unfolding connect_with_fallback_def by (rule try_candidates_Inr)

section \<open>Reconnecting\<close>

lemma run_realtime_iff:
  "run_realtime a b c f may_emit goes_on rounds = Inr s \<longleftrightarrow>
     (\<exists>p. policy_ok p \<and> a = js_int (rp_max_attempts p) \<and> b = js_int (rp_window_ms p) \<and>
        c = js_int (rp_cooldown_ms p) \<and> f = rp_delay p \<and>
        s = fold (run_round p) rounds (runtime_start may_emit goes_on))"
  by (auto simp: run_realtime_def result_simps assert_retry_policy_iff)

lemma run_realtime_policy:
  assumes "run_realtime (js_int n) (js_int w) (js_int c) f may_emit goes_on rounds = Inr s"
  shows "policy_ok \<lparr> rp_max_attempts = n, rp_window_ms = w, rp_cooldown_ms = c, rp_delay = f \<rparr>"
    "s = fold (run_round \<lparr> rp_max_attempts = n, rp_window_ms = w, rp_cooldown_ms = c, rp_delay = f \<rparr>) rounds
           (runtime_start may_emit goes_on)"
proof -
  from assms obtain p where p: "policy_ok p" "s = fold (run_round p) rounds (runtime_start may_emit goes_on)"
      "n = rp_max_attempts p" "w = rp_window_ms p" "c = rp_cooldown_ms p" "f = rp_delay p"
    by (auto simp: run_realtime_iff)
  have "p = \<lparr> rp_max_attempts = n, rp_window_ms = w, rp_cooldown_ms = c, rp_delay = f \<rparr>"
    unfolding p(3-6) by simp
  with p(1,2) show "policy_ok \<lparr> rp_max_attempts = n, rp_window_ms = w, rp_cooldown_ms = c, rp_delay = f \<rparr>"
    "s = fold (run_round \<lparr> rp_max_attempts = n, rp_window_ms = w, rp_cooldown_ms = c, rp_delay = f \<rparr>) rounds
           (runtime_start may_emit goes_on)"
    by simp_all
qed

text \<open>C10. While the clock does not go back, the runtime announces at most \<open>maxAttempts\<close> reconnections in
  any window of \<open>attemptWindowMs\<close> between two times of unavailability.\<close>

theorem reconnections_are_spread:
  assumes "run_realtime (js_int n) (js_int w) c f may_emit goes_on rounds = Inr s"
    and "sorted (map rd_now rounds)"
  shows "spread (nat n) w (reconnect_times (rt_trace s))"
proof -
  from assms(1) obtain p where p: "policy_ok p" "n = rp_max_attempts p" "w = rp_window_ms p"
      "s = fold (run_round p) rounds (runtime_start may_emit goes_on)"
    by (auto simp: run_realtime_iff)
  obtain now where "sorted (now # map rd_now rounds)"
    using assms(2) by (metis (no_types) list.exhaust sorted1 sorted2 order_refl)
  from window_inv_rounds[OF window_inv_start this p(1)] show ?thesis
    using p by (auto simp: window_inv_def)
qed

definition sample_round :: "int \<Rightarrow> round" where
  "sample_round now =
     \<lparr> rd_current = True, rd_live = True, rd_outcome = Conn_ended, rd_still_current = True, rd_now = now,
       rd_may_emit = True, rd_goes_on = True \<rparr>"

definition sample_policy :: retry_policy where
  "sample_policy = \<lparr> rp_max_attempts = 2, rp_window_ms = 100, rp_cooldown_ms = 500, rp_delay = (\<lambda>n. Fraction (2 * n + 1) 2) \<rparr>"

definition sample_run :: "round list \<Rightarrow> runtime" where
  "sample_run rounds = fold (run_round sample_policy) rounds (runtime_start True True)"

lemma sample_run_realtime:
  "run_realtime (js_int 2) (js_int 100) (js_int 500) (\<lambda>n. Fraction (2 * n + 1) 2) True True rounds = Inr (sample_run rounds)"
  by (auto simp: run_realtime_iff sample_policy_def sample_run_def policy_ok_def int_in_def
      max_safe_integer_def intro!: exI[of _ sample_policy])

lemma reconnections_are_spread_witness:
  "spread (nat 2) 100 (reconnect_times (rt_trace (sample_run (map sample_round [10, 20, 130]))))"
  by (rule reconnections_are_spread[OF sample_run_realtime]) code_simp

text \<open>Every state the runtime announces and every sleep is within the policy: an attempt number from
  1 to \<open>maxAttempts\<close> with the delay of that attempt, \<open>maxAttempts\<close> and the cooldown when
  unavailable, and no negative sleep; never are more than \<open>maxAttempts\<close> attempts kept.\<close>

theorem runtime_within_policy:
  assumes "run_realtime (js_int n) (js_int w) (js_int c) f may_emit goes_on rounds = Inr s"
  shows "list_all (action_ok \<lparr> rp_max_attempts = n, rp_window_ms = w, rp_cooldown_ms = c, rp_delay = f \<rparr>) (rt_trace s) \<and>
    int (length (rt_attempts s)) \<le> n"
proof -
  let ?p = "\<lparr> rp_max_attempts = n, rp_window_ms = w, rp_cooldown_ms = c, rp_delay = f \<rparr>"
  note p = run_realtime_policy[OF assms]
  show ?thesis
    using p retry.run_inv[of ?p "runtime_start may_emit goes_on" rounds] by (auto simp: runtime_inv_def)
qed

lemma runtime_within_policy_witness:
  "list_all (action_ok \<lparr> rp_max_attempts = 2, rp_window_ms = 100, rp_cooldown_ms = 500, rp_delay = (\<lambda>n. Fraction (2 * n + 1) 2) \<rparr>)
     (rt_trace (sample_run (map sample_round [10, 20, 30]))) \<and>
   int (length (rt_attempts (sample_run (map sample_round [10, 20, 30])))) \<le> 2"
  by (rule runtime_within_policy[OF sample_run_realtime])

text \<open>C11. As long as the subscription stays current and no connection ends for good, the runtime goes on:
  after any number of lost connections it is still running and has connected once per round, all
  but the first time as a reconnection.\<close>

theorem runtime_keeps_connecting:
  assumes "run_realtime (js_int n) (js_int w) (js_int c) f True True rounds = Inr s"
    and "list_all losing_round rounds" "rounds \<noteq> []"
    and "\<forall>i \<in> {1..n}. 0 \<le> (case f i of Whole d \<Rightarrow> d | Fraction a b \<Rightarrow> a * b | Not_finite \<Rightarrow> - 1)"
  shows "rt_status s = Running \<and> connects (rt_trace s) = False # replicate (length rounds - 1) True"
proof -
  let ?p = "\<lparr> rp_max_attempts = n, rp_window_ms = w, rp_cooldown_ms = c, rp_delay = f \<rparr>"
  note p = run_realtime_policy[OF assms(1)]
  have "\<exists>d. retry_delay ?p i = Inr d" if "1 \<le> i" "i \<le> rp_max_attempts ?p" for i
    using assms(4) that by (cases "f i") (auto simp: retry_delay_def Ball_def)
  from losing_rounds[OF assms(2) _ runtime_inv_start[OF p(1), of True True] this assms(3)] show ?thesis
    using p(2) by (simp add: runtime_start_def)
qed

lemma runtime_keeps_connecting_witness:
  "rt_status (sample_run (map sample_round [10, 20, 30])) = Running \<and>
   connects (rt_trace (sample_run (map sample_round [10, 20, 30]))) = False # replicate (length (map sample_round [10, 20, 30]) - 1) True"
  by (rule runtime_keeps_connecting[OF sample_run_realtime]) (simp_all add: losing_round_def sample_round_def)

end
