(* ===== verification/Team_Access.thy ===== *)
theory Team_Access
  imports Js_Value
begin

text \<open>
  What a team may see: access to a team workspace
  (\<^verbatim>\<open>packages/core/src/team-workspace-authorization.ts\<close>), the sources a team-visible summary may be
  derived from (\<^verbatim>\<open>packages/core/src/team-source-boundary.ts\<close>) and the presence of its members
  (\<^verbatim>\<open>packages/shared/src/team-presence.ts\<close>).
\<close>

section \<open>Workspace authorization\<close>

datatype workspace_access = Access_disabled | Access_read | Access_write

datatype membership_status = Invited | Enabled | Member_disabled

record access_boundary =
  ab_teamWorkspaceId :: string
  ab_teamId :: string
  ab_userId :: string
  ab_access :: workspace_access
  ab_canRecall :: bool
  ab_membershipStatus :: "membership_status option"
  ab_entitlementAllowsAccess :: "bool option"

datatype rejection_reason =
  Personal_only | Missing_workspace_access | Workspace_access_mismatch | Workspace_access_disabled
| Team_entitlement_blocked

datatype authorization_decision =
    Personal_mode
  | Authorized string string string workspace_access
  | Refused string rejection_reason

text \<open>\<^verbatim>\<open>resolveTeamWorkspaceAuthorization\<close>; an empty workspace id counts as none.\<close>

definition resolve_workspace_authorization ::
  "string \<Rightarrow> string option \<Rightarrow> access_boundary option \<Rightarrow> authorization_decision" where
  "resolve_workspace_authorization requesterUserId teamWorkspaceId access =
     (case teamWorkspaceId of
        None \<Rightarrow> Personal_mode
      | Some w \<Rightarrow>
          if w = [] then Personal_mode
          else
            (case access of
               None \<Rightarrow> Refused w Missing_workspace_access
             | Some a \<Rightarrow>
                 if ab_teamWorkspaceId a \<noteq> w \<or> ab_userId a \<noteq> requesterUserId
                 then Refused w Workspace_access_mismatch
                 else if ab_entitlementAllowsAccess a = Some False then Refused w Team_entitlement_blocked
                 else if ab_membershipStatus a \<noteq> Some Enabled \<or> \<not> ab_canRecall a \<or> ab_access a = Access_disabled
                 then Refused w Workspace_access_disabled
                 else Authorized (ab_teamWorkspaceId a) (ab_teamId a) (ab_userId a) (ab_access a)))"

text \<open>A requester is authorized for a workspace exactly with a named workspace and an access record of
  this workspace and this user whose membership is enabled, which may recall, which gives read
  or write access and whose team entitlement is not denied; the decision repeats the record.\<close>

theorem workspace_authorized_iff:
  "resolve_workspace_authorization u w access = Authorized wid tid uid acc \<longleftrightarrow>
     (\<exists>a. access = Some a \<and> w = Some (ab_teamWorkspaceId a) \<and> wid = ab_teamWorkspaceId a \<and> wid \<noteq> [] \<and>
        u = ab_userId a \<and> uid = u \<and> tid = ab_teamId a \<and> acc = ab_access a \<and> acc \<in> {Access_read, Access_write} \<and>
        ab_canRecall a \<and> ab_membershipStatus a = Some Enabled \<and> ab_entitlementAllowsAccess a \<noteq> Some False)"
  by (cases "w"; cases access; cases acc) (auto simp: resolve_workspace_authorization_def)

section \<open>The source boundary of a summary\<close>

datatype source_kind = Memory_event | Message | Tool_event | Conversation_item | Lcm_child

datatype source_table = Memory_events | Messages | Tool_events | Conversation_items

text \<open>Of a source item, the members the boundary reads; of its supporting context, how many.\<close>

record lcm_source_item =
  si_kind :: source_kind
  si_sourceTable :: "source_table option"
  si_sourceId :: "string option"
  si_payload :: js_value
  si_supportingContext :: "nat option"
  si_position :: js_number

record share_grant =
  sg_shareGrantId :: string
  sg_teamId :: string
  sg_teamWorkspaceId :: string
  sg_sessionId :: string
  sg_isActive :: bool

record source_boundary =
  sb_teamId :: string
  sb_teamWorkspaceId :: string
  sb_shareGrants :: "share_grant list"

datatype source_rejection =
  Missing_source_id | Missing_session_id | Unshared_session | Derived_child_requires_expansion
| Supporting_context_requires_expansion

text \<open>\<^verbatim>\<open>sourceItemPayload\<close> and \<^verbatim>\<open>teamVisibleSourceItemSessionId\<close>\<close>

definition source_item_payload :: "lcm_source_item \<Rightarrow> members" where
  "source_item_payload item = (case si_payload item of JObj kvs \<Rightarrow> kvs | _ \<Rightarrow> [])"

definition nonblank_text :: "js_value \<Rightarrow> string option" where
  "nonblank_text v = (case v of JStr s \<Rightarrow> if js_trim s \<noteq> [] then Some s else None | _ \<Rightarrow> None)"

definition source_item_session_id :: "lcm_source_item \<Rightarrow> string option" where
  "source_item_session_id item =
     (let payload = source_item_payload item in
      case nonblank_text (fld payload ''sessionId'') of
        Some s \<Rightarrow> Some s
      | None \<Rightarrow> nonblank_text (fld payload ''session_id''))"

definition grant_applies :: "source_boundary \<Rightarrow> share_grant \<Rightarrow> bool" where
  "grant_applies b g \<longleftrightarrow>
     sg_isActive g \<and> sg_teamId g = sb_teamId b \<and> sg_teamWorkspaceId g = sb_teamWorkspaceId b"

text \<open>\<^verbatim>\<open>new Map(grants.map(g => [g.sessionId, g])).get(id)\<close>: the last grant of the session.\<close>

definition grant_of_session :: "source_boundary \<Rightarrow> string \<Rightarrow> share_grant option" where
  "grant_of_session b s = find (\<lambda>g. sg_sessionId g = s) (rev (filter (grant_applies b) (sb_shareGrants b)))"

text \<open>The body of the loop: the grant and the session of an item, or why it is rejected.\<close>

definition assess_source_item ::
  "source_boundary \<Rightarrow> lcm_source_item \<Rightarrow> source_rejection + (string \<times> string)" where
  "assess_source_item b item =
     (if si_kind item = Lcm_child then Inl Derived_child_requires_expansion
      else if (case si_supportingContext item of None \<Rightarrow> False | Some n \<Rightarrow> 0 < n)
      then Inl Supporting_context_requires_expansion
      else if si_sourceId item = None \<or> si_sourceId item = Some [] then Inl Missing_source_id
      else
        (case source_item_session_id item of
           None \<Rightarrow> Inl Missing_session_id
         | Some s \<Rightarrow>
             (case grant_of_session b s of
                None \<Rightarrow> Inl Unshared_session
              | Some g \<Rightarrow> Inr (sg_shareGrantId g, s))))"

record provenance_item =
  pi_kind :: source_kind
  pi_sourceTable :: "source_table option"
  pi_sourceId :: string
  pi_sessionId :: string
  pi_shareGrantId :: string
  pi_position :: js_number

record summary_provenance =
  sp_teamId :: string
  sp_teamWorkspaceId :: string
  sp_shareGrantIds :: "string list"
  sp_sourceItems :: "provenance_item list"

datatype boundary_state = Boundary_authorized | Boundary_mixed | Boundary_empty

record boundary_assessment =
  ba_state :: boundary_state
  ba_authorized :: "(lcm_source_item \<times> string \<times> string) list"
  ba_rejected :: "(lcm_source_item \<times> source_rejection) list"
  ba_provenance :: "summary_provenance option"

definition authorized_items :: "source_boundary \<Rightarrow> lcm_source_item list \<Rightarrow> (lcm_source_item \<times> string \<times> string) list" where
  "authorized_items b items =
     concat (map (\<lambda>i. case assess_source_item b i of Inl r \<Rightarrow> [] | Inr (g, s) \<Rightarrow> [(i, g, s)]) items)"

definition rejected_items :: "source_boundary \<Rightarrow> lcm_source_item list \<Rightarrow> (lcm_source_item \<times> source_rejection) list" where
  "rejected_items b items =
     concat (map (\<lambda>i. case assess_source_item b i of Inl r \<Rightarrow> [(i, r)] | Inr _ \<Rightarrow> []) items)"

definition provenance_item_of :: "lcm_source_item \<times> string \<times> string \<Rightarrow> provenance_item" where
  "provenance_item_of =
     (\<lambda>(item, g, s).
        \<lparr> pi_kind = si_kind item, pi_sourceTable = si_sourceTable item,
          pi_sourceId = (case si_sourceId item of None \<Rightarrow> [] | Some i \<Rightarrow> i), pi_sessionId = s,
          pi_shareGrantId = g, pi_position = si_position item \<rparr>)"

text \<open>\<^verbatim>\<open>assessTeamVisibleSourceBoundary\<close>\<close>

definition assess_source_boundary :: "lcm_source_item list \<Rightarrow> source_boundary \<Rightarrow> boundary_assessment" where
  "assess_source_boundary items b =
     (let authorized = authorized_items b items;
          rejected = rejected_items b items;
          state = (if authorized = [] then Boundary_empty
                   else if rejected \<noteq> [] then Boundary_mixed else Boundary_authorized)
      in \<lparr> ba_state = state, ba_authorized = authorized, ba_rejected = rejected,
           ba_provenance =
             (if state = Boundary_authorized
              then Some \<lparr> sp_teamId = sb_teamId b, sp_teamWorkspaceId = sb_teamWorkspaceId b,
                          sp_shareGrantIds = js_sort (remdups (map (\<lambda>(i, g, s). g) authorized)),
                          sp_sourceItems = map provenance_item_of authorized \<rparr>
              else None) \<rparr>)"

definition boundary_state_text :: "boundary_state \<Rightarrow> string" where
  "boundary_state_text s =
     (case s of Boundary_authorized \<Rightarrow> ''authorized'' | Boundary_mixed \<Rightarrow> ''mixed'' | Boundary_empty \<Rightarrow> ''empty'')"

text \<open>\<^verbatim>\<open>requireAuthorizedTeamVisibleSourceBoundary\<close>\<close>

definition require_authorized_boundary :: "lcm_source_item list \<Rightarrow> source_boundary \<Rightarrow> summary_provenance result" where
  "require_authorized_boundary items b =
     (let a = assess_source_boundary items b in
      case (ba_state a, ba_provenance a) of
        (Boundary_authorized, Some p) \<Rightarrow> Inr p
      | _ \<Rightarrow> Inl (PlainError (''Team-visible summary source boundary is '' @ boundary_state_text (ba_state a) @
               ''; refusing derived summary from mixed or unauthorized provenance.'')))"

lemma rejected_items_empty:
  "rejected_items b items = [] \<longleftrightarrow> (\<forall>i \<in> set items. \<exists>p. assess_source_item b i = Inr p)"
  by (induction items) (auto simp: rejected_items_def split: sum.splits)

lemma authorized_items_map:
  "\<forall>i \<in> set items. \<exists>p. assess_source_item b i = Inr p \<Longrightarrow>
   authorized_items b items = map (\<lambda>i. (i, projr (assess_source_item b i))) items"
  by (induction items) (auto simp: authorized_items_def)

text \<open>The grant that lets an item in: active, of this team and workspace, for the item's session.\<close>

definition shared_under :: "source_boundary \<Rightarrow> lcm_source_item \<Rightarrow> share_grant \<Rightarrow> bool" where
  "shared_under b item g \<longleftrightarrow>
     g \<in> set (sb_shareGrants b) \<and> grant_applies b g \<and> source_item_session_id item = Some (sg_sessionId g)"

lemma grant_of_session_applies:
  assumes "grant_of_session b s = Some g"
  shows "g \<in> set (sb_shareGrants b)" "grant_applies b g" "sg_sessionId g = s"
  using find_SomeD[OF assms[unfolded grant_of_session_def]] by simp_all

lemma grant_of_session_None:
  "grant_of_session b s = None \<longleftrightarrow> (\<forall>g \<in> set (sb_shareGrants b). grant_applies b g \<longrightarrow> sg_sessionId g \<noteq> s)"
  by (auto simp: grant_of_session_def find_None_iff)

text \<open>An item that may be summarised for the team.\<close>

definition team_visible :: "source_boundary \<Rightarrow> lcm_source_item \<Rightarrow> bool" where
  "team_visible b item \<longleftrightarrow>
     si_kind item \<noteq> Lcm_child \<and> si_supportingContext item \<in> {None, Some 0} \<and>
     (\<exists>i. si_sourceId item = Some i \<and> i \<noteq> []) \<and> (\<exists>g. shared_under b item g)"

lemma assess_source_item_Inr:
  assumes "assess_source_item b item = Inr (gid, s)"
  shows "team_visible b item" "source_item_session_id item = Some s"
    "\<exists>g. shared_under b item g \<and> sg_shareGrantId g = gid"
proof -
  from assms obtain g where g: "source_item_session_id item = Some s" "grant_of_session b s = Some g"
      "sg_shareGrantId g = gid" "si_kind item \<noteq> Lcm_child"
      "si_sourceId item \<noteq> None" "si_sourceId item \<noteq> Some []"
      "\<not> (case si_supportingContext item of None \<Rightarrow> False | Some n \<Rightarrow> 0 < n)"
    by (auto simp: assess_source_item_def split: if_splits option.splits)
  then have "shared_under b item g"
    using grant_of_session_applies[OF g(2)] by (simp add: shared_under_def)
  then show "team_visible b item" "source_item_session_id item = Some s"
    "\<exists>g. shared_under b item g \<and> sg_shareGrantId g = gid"
    using g by (auto simp: team_visible_def split: option.splits)
qed

lemma assess_source_item_ok:
  assumes "team_visible b item"
  shows "\<exists>gid s. assess_source_item b item = Inr (gid, s)"
proof -
  from assms obtain g where "shared_under b item g" by (auto simp: team_visible_def)
  then have s: "source_item_session_id item = Some (sg_sessionId g)"
    "grant_of_session b (sg_sessionId g) \<noteq> None"
    by (auto simp: shared_under_def grant_of_session_None)
  then show ?thesis using assms
    by (auto simp: assess_source_item_def team_visible_def)
qed

lemma list_all2_map_same: "list_all2 P xs (map f xs) \<longleftrightarrow> (\<forall>x \<in> set xs. P x (f x))"
  by (induction xs) auto

lemma rejected_items_visible: "rejected_items b items = [] \<longleftrightarrow> list_all (team_visible b) items"
  unfolding rejected_items_empty list_all_iff
  using assess_source_item_Inr(1) assess_source_item_ok by fast

lemma require_authorized_visible:
  assumes "items \<noteq> []" "list_all (team_visible b) items"
  shows "require_authorized_boundary items b =
      Inr \<lparr> sp_teamId = sb_teamId b, sp_teamWorkspaceId = sb_teamWorkspaceId b,
            sp_shareGrantIds = js_sort (remdups (map (\<lambda>i. fst (projr (assess_source_item b i))) items)),
            sp_sourceItems = map (\<lambda>i. provenance_item_of (i, projr (assess_source_item b i))) items \<rparr>"
proof -
  have none: "rejected_items b items = []" using assms(2) by (simp add: rejected_items_visible)
  then have "authorized_items b items = map (\<lambda>i. (i, projr (assess_source_item b i))) items"
    using authorized_items_map by (simp add: rejected_items_empty)
  then show ?thesis
    using assms(1) none
    by (simp add: require_authorized_boundary_def assess_source_boundary_def Let_def comp_def split_beta)
qed

lemma require_authorized_refuses:
  assumes "\<not> (items \<noteq> [] \<and> list_all (team_visible b) items)"
  shows "\<exists>e. require_authorized_boundary items b = Inl e"
proof -
  have "items = [] \<or> rejected_items b items \<noteq> []" using assms by (simp add: rejected_items_visible)
  moreover have "items = [] \<Longrightarrow> authorized_items b items = []" by (simp add: authorized_items_def)
  ultimately show ?thesis
    by (auto simp: require_authorized_boundary_def assess_source_boundary_def Let_def)
qed

text \<open>C12. A provenance is returned exactly for a nonempty list of items that are all visible to the team:
  no derived child or supporting context, with a source id and a session that an active grant of
  this team and workspace shares. It names each item's session and a grant that shares it, and
  its grants are those of its items, without repetition.\<close>

theorem summary_provenance_is_shared:
  "case require_authorized_boundary items b of
     Inl e \<Rightarrow> \<not> (items \<noteq> [] \<and> list_all (team_visible b) items)
   | Inr p \<Rightarrow>
       items \<noteq> [] \<and> list_all (team_visible b) items \<and>
       list_all2 (\<lambda>item q. si_sourceId item = Some (pi_sourceId q) \<and>
           source_item_session_id item = Some (pi_sessionId q) \<and>
           (\<exists>g. shared_under b item g \<and> sg_shareGrantId g = pi_shareGrantId q)) items (sp_sourceItems p) \<and>
       set (sp_shareGrantIds p) = pi_shareGrantId ` set (sp_sourceItems p) \<and> distinct (sp_shareGrantIds p)"
proof (cases "items \<noteq> [] \<and> list_all (team_visible b) items")
  case True
  then have p: "require_authorized_boundary items b =
      Inr \<lparr> sp_teamId = sb_teamId b, sp_teamWorkspaceId = sb_teamWorkspaceId b,
            sp_shareGrantIds = js_sort (remdups (map (\<lambda>i. fst (projr (assess_source_item b i))) items)),
            sp_sourceItems = map (\<lambda>i. provenance_item_of (i, projr (assess_source_item b i))) items \<rparr>"
    by (intro require_authorized_visible) simp_all
  have "\<exists>i gid s. si_sourceId item = Some i \<and> source_item_session_id item = Some s \<and>
      assess_source_item b item = Inr (gid, s) \<and> (\<exists>g. shared_under b item g \<and> sg_shareGrantId g = gid)"
    if "item \<in> set items" for item
  proof -
    from that True have "team_visible b item" by (simp add: list_all_iff)
    then show ?thesis
      using assess_source_item_ok[of b item] assess_source_item_Inr[of b item]
      by (fastforce simp: team_visible_def)
  qed
  then show ?thesis
    using True unfolding p
    by (fastforce simp: list_all2_map_same provenance_item_of_def image_image split_beta)
next
  case False
  then obtain e where "require_authorized_boundary items b = Inl e"
    using require_authorized_refuses by blast
  then show ?thesis using False by simp
qed

section \<open>Presence\<close>

datatype presence_mode = Auto | Manual

datatype manual_status = Available | Do_not_disturb | Out_of_office | Unknown_status

datatype activity_level = Active | Recently_active | Idle | Inactive

definition manual_statuses :: "string list" where
  "manual_statuses = [''available'', ''do_not_disturb'', ''out_of_office'']"

definition is_team_manual_status :: "string \<Rightarrow> bool" where
  "is_team_manual_status s = list_ex (\<lambda>t. t = s) manual_statuses"

definition activity_active_ms :: int where
  "activity_active_ms = 5 * 60 * 1000"

definition activity_recent_ms :: int where
  "activity_recent_ms = 30 * 60 * 1000"

definition activity_idle_ms :: int where
  "activity_idle_ms = 2 * 60 * 60 * 1000"

record presence_input =
  pr_mode :: presence_mode
  pr_manualStatus :: manual_status
  pr_lastActivityAt :: "string option"
  pr_preferenceVersion :: int

record presence_snapshot = presence_input +
  ps_activityLevel :: "activity_level option"
  ps_nextTransitionAt :: "string option"

definition snapshot_of :: "presence_input \<Rightarrow> activity_level option \<Rightarrow> string option \<Rightarrow> string option \<Rightarrow> presence_snapshot" where
  "snapshot_of input level last_at next_at =
     \<lparr> pr_mode = pr_mode input, pr_manualStatus = pr_manualStatus input, pr_lastActivityAt = last_at,
       pr_preferenceVersion = pr_preferenceVersion input, ps_activityLevel = level,
       ps_nextTransitionAt = next_at \<rparr>"

definition activity_level_of :: "int \<Rightarrow> activity_level" where
  "activity_level_of elapsedMs =
     (if elapsedMs \<le> activity_active_ms then Active
      else if elapsedMs \<le> activity_recent_ms then Recently_active
      else if elapsedMs \<le> activity_idle_ms then Idle else Inactive)"

definition transition_offset :: "activity_level \<Rightarrow> int option" where
  "transition_offset level =
     (case level of
        Active \<Rightarrow> Some activity_active_ms
      | Recently_active \<Rightarrow> Some activity_recent_ms
      | Idle \<Rightarrow> Some activity_idle_ms
      | Inactive \<Rightarrow> None)"

text \<open>\<^verbatim>\<open>deriveTeamPresenceSnapshot\<close>; \<open>parse\<close> is the engine's \<^verbatim>\<open>Date.parse\<close>, \<open>None\<close> for NaN.\<close>

definition derive_presence ::
  "(string \<Rightarrow> int option) \<Rightarrow> presence_input \<Rightarrow> int \<Rightarrow> presence_snapshot result" where
  "derive_presence parse input nowMs =
     (if pr_mode input = Manual then Inr (snapshot_of input None None None)
      else
        (let activity =
           (case pr_lastActivityAt input of None \<Rightarrow> None | Some t \<Rightarrow> if t = [] then None else parse t)
         in case activity of
              None \<Rightarrow> Inr (snapshot_of input (Some Inactive) (pr_lastActivityAt input) None)
            | Some activityMs \<Rightarrow>
                if nowMs < activityMs
                then Inr (snapshot_of input (Some Inactive) (pr_lastActivityAt input) None)
                else
                  (let level = activity_level_of (nowMs - activityMs) in
                   ebind (to_iso_string (Some activityMs)) (\<lambda>last_at.
                   case transition_offset level of
                     None \<Rightarrow> Inr (snapshot_of input (Some level) (Some last_at) None)
                   | Some offset \<Rightarrow>
                       ebind (to_iso_string (Some (activityMs + offset + 1))) (\<lambda>next_at.
                       Inr (snapshot_of input (Some level) (Some last_at) (Some next_at)))))))"

datatype coarse_presence = Coarse_available | Coarse_away | Coarse_offline

definition coarse_presence_of :: "presence_snapshot \<Rightarrow> coarse_presence" where
  "coarse_presence_of p =
     (if pr_mode p = Manual
      then (if pr_manualStatus p = Available then Coarse_available else Coarse_away)
      else if ps_activityLevel p = Some Active then Coarse_available
      else if ps_activityLevel p = Some Inactive then Coarse_offline
      else Coarse_away)"

lemma transition_offset_level:
  assumes "transition_offset (activity_level_of e) = Some d" "0 \<le> e"
  shows "e \<le> d" "\<And>e'. e \<le> e' \<Longrightarrow> e' \<le> d \<Longrightarrow> activity_level_of e' = activity_level_of e"
    "activity_level_of (d + 1) \<noteq> activity_level_of e"
  using assms
  by (auto simp: transition_offset_def activity_level_of_def activity_active_ms_def activity_recent_ms_def
      activity_idle_ms_def split: if_splits)

text \<open>The announced transition is the next one: when a snapshot names a time of transition, that is
  the instant \<open>t\<close> such that at every time from now until before \<open>t\<close> the derived level is the same,
  and at \<open>t\<close> it is another.\<close>

theorem next_transition_is_next:
  assumes "derive_presence parse input nowMs = Inr p" "ps_nextTransitionAt p = Some s"
  shows "\<exists>t > nowMs. to_iso_string (Some t) = Inr s \<and>
    (\<forall>later \<in> {nowMs ..< t}. map_sum id ps_activityLevel (derive_presence parse input later) = Inr (ps_activityLevel p)) \<and>
    map_sum id ps_activityLevel (derive_presence parse input t) \<noteq> Inr (ps_activityLevel p)"
proof -
  from assms obtain a l d where a: "pr_mode input \<noteq> Manual" "pr_lastActivityAt input = Some l" "l \<noteq> []"
      "parse l = Some a" "a \<le> nowMs" "transition_offset (activity_level_of (nowMs - a)) = Some d"
      "to_iso_string (Some (a + d + 1)) = Inr s" "\<exists>s. to_iso_string (Some a) = Inr s"
      "ps_activityLevel p = Some (activity_level_of (nowMs - a))"
    by (auto simp: derive_presence_def Let_def result_simps snapshot_of_def not_less
        split: if_splits option.splits)
  note level = transition_offset_level[OF a(6)]
  have derive: "map_sum id ps_activityLevel (derive_presence parse input later) =
      Inr (Some (activity_level_of (later - a)))"
    if "a \<le> later" "\<exists>s. to_iso_string (Some (a + d' + 1)) = Inr s"
      "transition_offset (activity_level_of (later - a)) = Some d'" for later d'
    using a that by (auto simp: derive_presence_def snapshot_of_def)
  have "map_sum id ps_activityLevel (derive_presence parse input later) = Inr (ps_activityLevel p)"
    if "later \<in> {nowMs ..< a + d + 1}" for later
    using derive[of later d] level(2)[of "later - a"] that a by auto
  moreover have "map_sum id ps_activityLevel (derive_presence parse input (a + d + 1)) \<noteq> Inr (ps_activityLevel p)"
    using level(1,3) a
    by (auto simp: derive_presence_def snapshot_of_def Let_def ebind_def split: sum.splits option.splits)
  moreover have "nowMs < a + d + 1" using level(1) a by simp
  ultimately show ?thesis using a(7) by blast
qed

definition sample_presence :: presence_input where
  "sample_presence =
     \<lparr> pr_mode = Auto, pr_manualStatus = Available, pr_lastActivityAt = Some ''1970-01-01T00:00:01.000Z'',
       pr_preferenceVersion = 1 \<rparr>"

definition sample_snapshot :: presence_snapshot where
  "sample_snapshot =
     snapshot_of sample_presence (Some Active) (Some ''1970-01-01T00:00:01.000Z'') (Some ''1970-01-01T00:05:01.001Z'')"

lemma next_transition_is_next_witness:
  "\<exists>t > 2000. to_iso_string (Some t) = Inr ''1970-01-01T00:05:01.001Z'' \<and>
    (\<forall>later \<in> {2000 ..< t}.
       map_sum id ps_activityLevel (derive_presence date_parse sample_presence later) = Inr (ps_activityLevel sample_snapshot)) \<and>
    map_sum id ps_activityLevel (derive_presence date_parse sample_presence t) \<noteq> Inr (ps_activityLevel sample_snapshot)"
proof (rule next_transition_is_next)
  show "derive_presence date_parse sample_presence 2000 = Inr sample_snapshot" by code_simp
  show "ps_nextTransitionAt sample_snapshot = Some ''1970-01-01T00:05:01.001Z''"
    by (simp add: sample_snapshot_def snapshot_of_def)
qed

end
