(* ===== verification/Causal_Graph.thy ===== *)
theory Causal_Graph
  imports Prelude
begin

text \<open>
  The walk over the revisions of a project selection, the inner loops of
  \<^verbatim>\<open>resolvePdsProjectSelection\<close> in \<^verbatim>\<open>packages/shared/src/personal-project-selection.ts\<close>: a depth-first
  search with an explicit stack that finds every replaced revision, every missing one, and any
  causal cycle. Of a revision the walk only sees its id and the ids it replaces, here the function
  \<open>parents\<close>, \<open>None\<close> for an id that is not there.
\<close>

section \<open>The walk\<close>

record walk =
  wk_missing :: "string list"
  wk_replaced :: "string list"
  wk_visited :: "string list"
  wk_visiting :: "string list"

definition cycle_error :: js_error where
  "cycle_error = TypeError ''PDS Project selection causal cycle''"

text \<open>How many ids with parents the walk has not entered yet, for its termination.\<close>

definition unvisited :: "(string \<times> string list) list \<Rightarrow> walk \<Rightarrow> nat" where
  "unvisited graph w = card (fst ` set graph - (set (wk_visited w) \<union> set (wk_visiting w)))"

lemma unvisited_exit:
  "unvisited graph (w \<lparr> wk_visiting := filter (\<lambda>j. j \<noteq> i) (wk_visiting w), wk_visited := set_add i (wk_visited w) \<rparr>)
     \<le> unvisited graph w"
  by (auto simp: unvisited_def intro!: card_mono)

lemma unvisited_enter:
  assumes "map_of graph i = Some ps" "i \<notin> set (wk_visited w)" "i \<notin> set (wk_visiting w)"
  shows "unvisited graph (w \<lparr> wk_visiting := set_add i (wk_visiting w), wk_replaced := rs \<rparr>) < unvisited graph w"
proof -
  have "i \<in> fst ` set graph" using map_of_SomeD[OF assms(1)] by force
  then show ?thesis
    unfolding unvisited_def using assms(2,3) by (intro psubset_card_mono) auto
qed

lemma unvisited_missing: "unvisited graph (w \<lparr> wk_missing := ms \<rparr>) = unvisited graph w"
  by (simp add: unvisited_def)

text \<open>The body of \<^verbatim>\<open>while (stack.length)\<close>; the head of the list is the top of the stack, an entry is
  an id and its \<^verbatim>\<open>exit\<close> flag.\<close>

function walk_stack :: "(string \<times> string list) list \<Rightarrow> (string \<times> bool) list \<Rightarrow> walk \<Rightarrow> walk result" where
  "walk_stack graph [] w = Inr w"
| "walk_stack graph ((i, exit) # stack) w =
     (if exit then
        walk_stack graph stack
          (w \<lparr> wk_visiting := filter (\<lambda>j. j \<noteq> i) (wk_visiting w), wk_visited := set_add i (wk_visited w) \<rparr>)
      else if i \<in> set (wk_visited w) then walk_stack graph stack w
      else if i \<in> set (wk_visiting w) then Inl cycle_error
      else
        (case map_of graph i of
           None \<Rightarrow> walk_stack graph stack (w \<lparr> wk_missing := set_add i (wk_missing w) \<rparr>)
         | Some replaces \<Rightarrow>
             walk_stack graph (rev (map (\<lambda>p. (p, False)) replaces) @ (i, True) # stack)
               (w \<lparr> wk_visiting := set_add i (wk_visiting w),
                    wk_replaced := fold set_add replaces (wk_replaced w) \<rparr>)))"
  by pat_completeness auto
termination
  by (relation "measures [\<lambda>(graph, stack, w). unvisited graph w, \<lambda>(graph, stack, w). length stack]")
    (simp_all add: unvisited_enter unvisited_missing unvisited_exit le_imp_less_or_eq)

section \<open>What the walk finds\<close>

definition edges :: "(string \<times> string list) list \<Rightarrow> (string \<times> string) set" where
  "edges graph = {(a, b). \<exists>ps. map_of graph a = Some ps \<and> b \<in> set ps}"

lemma edges_from: "map_of graph a = Some ps \<Longrightarrow> (a, b) \<in> edges graph \<longleftrightarrow> b \<in> set ps"
  by (simp add: edges_def)

lemma edges_known: "(a, b) \<in> edges graph \<Longrightarrow> a \<in> dom (map_of graph)"
  by (auto simp: edges_def)

definition exits :: "(string \<times> bool) list \<Rightarrow> string list" where
  "exits stack = map fst (filter snd stack)"

lemma exits_simps [simp]:
  "exits [] = []" "exits ((x, True) # stack) = x # exits stack" "exits ((x, False) # stack) = exits stack"
  "exits (rev (map (\<lambda>p. (p, False)) ps) @ stack) = exits stack"
  by (simp_all add: exits_def filter_map o_def flip: rev_map)

text \<open>Every id that is being visited has its remaining parents above it on the stack.\<close>

fun covered :: "(string \<times> string list) list \<Rightarrow> string set \<Rightarrow> (string \<times> bool) list \<Rightarrow> bool" where
  "covered graph D [] = True"
| "covered graph D ((x, exit) # stack) =
     ((exit \<longrightarrow> (\<forall>p. (x, p) \<in> edges graph \<longrightarrow> p \<in> D)) \<and> covered graph (insert x D) stack)"

lemma covered_mono: "covered graph D stack \<Longrightarrow> D \<subseteq> D' \<Longrightarrow> covered graph D' stack"
  by (induction graph D stack arbitrary: D' rule: covered.induct) (auto simp: insert_mono)

lemma covered_pending:
  "covered graph (set ps \<union> D) stack \<Longrightarrow> covered graph D (rev (map (\<lambda>p. (p, False)) ps) @ stack)"
proof (induction ps arbitrary: stack)
  case (Cons p ps)
  then show ?case by (auto intro!: Cons.IH elim: covered_mono)
qed simp

text \<open>The stack follows edges: what is above an id being visited is one of its parents.\<close>

fun chained :: "(string \<times> string list) list \<Rightarrow> (string \<times> bool) list \<Rightarrow> bool" where
  "chained graph [] = True"
| "chained graph ((x, exit) # stack) =
     ((exits stack \<noteq> [] \<longrightarrow> (hd (exits stack), x) \<in> edges graph) \<and> chained graph stack)"

lemma chained_pending:
  assumes "chained graph stack" "exits stack = x # xs" "map_of graph x = Some ps"
  shows "chained graph (rev (map (\<lambda>p. (p, False)) ps) @ stack)"
proof -
  have "chained graph (rev (map (\<lambda>p. (p, False)) qs) @ stack)" if "set qs \<subseteq> set ps" for qs
    using that
  proof (induction qs rule: rev_induct)
    case (snoc q qs)
    then show ?case using assms by (auto simp: edges_from)
  qed (use assms(1) in simp)
  then show ?thesis by blast
qed

lemma chained_path:
  "chained graph stack \<Longrightarrow> y \<in> set (exits stack) \<Longrightarrow> (y, hd (exits stack)) \<in> (edges graph)\<^sup>*"
proof (induction graph stack rule: chained.induct)
  case (2 graph x exit stack)
  show ?case
  proof (cases exit)
    case True
    show ?thesis
    proof (cases "y = x")
      case False
      then have y: "y \<in> set (exits stack)" using 2(3) True by simp
      then have "(y, hd (exits stack)) \<in> (edges graph)\<^sup>*" using 2(1,2) by simp
      moreover have "(hd (exits stack), x) \<in> edges graph" using y 2(2) by auto
      ultimately show ?thesis using True by simp
    qed (simp add: True)
  qed (use 2 in simp)
qed simp

definition walk_inv :: "(string \<times> string list) list \<Rightarrow> (string \<times> bool) list \<Rightarrow> walk \<Rightarrow> bool" where
  "walk_inv graph stack w \<longleftrightarrow>
     distinct (exits stack) \<and> set (wk_visiting w) = set (exits stack) \<and>
     set (exits stack) \<inter> set (wk_visited w) = {} \<and>
     set (exits stack) \<union> set (wk_visited w) \<subseteq> dom (map_of graph) \<and>
     set (wk_missing w) \<subseteq> Range (edges graph) - dom (map_of graph) \<and>
     (\<forall>x. (x, False) \<in> set stack \<longrightarrow> x \<in> dom (map_of graph) \<union> Range (edges graph)) \<and>
     edges graph `` set (wk_visited w) \<subseteq> set (wk_visited w) \<union> set (wk_missing w) \<and>
     acyclic (edges graph \<inter> set (wk_visited w) \<times> UNIV) \<and>
     covered graph (set (wk_visited w) \<union> set (wk_missing w)) stack \<and> chained graph stack \<and>
     set (wk_replaced w) = edges graph `` (set (wk_visited w) \<union> set (exits stack)) \<and>
     distinct (wk_missing w)"

lemma acyclic_new_source:
  assumes "acyclic (r \<inter> V \<times> UNIV)" "r `` V \<subseteq> D" "r `` {x} \<subseteq> D" "x \<notin> D" "V \<subseteq> D"
  shows "acyclic (r \<inter> insert x V \<times> UNIV)"
proof -
  let ?r = "r \<inter> V \<times> UNIV" and ?s = "r \<inter> insert x V \<times> UNIV"
  have inside: "(a, b) \<in> ?r\<^sup>+ \<and> b \<in> D" if "(a, b) \<in> ?s\<^sup>+" "a \<in> D" for a b
    using that
  proof (induction rule: trancl_induct)
    case (base b)
    then show ?case using assms by auto
  next
    case (step b c)
    then have "(b, c) \<in> ?r" using assms(4) by auto
    then show ?case using step assms(2) by (auto intro: trancl_into_trancl)
  qed
  show ?thesis
    unfolding acyclic_def
  proof (intro allI notI)
    fix a assume cyc: "(a, a) \<in> ?s\<^sup>+"
    show False
    proof (cases "a \<in> D")
      case True
      then show False using inside[OF cyc] assms(1) by (auto simp: acyclic_def)
    next
      case False
      obtain b where "(a, b) \<in> ?s" "(b, a) \<in> ?s\<^sup>*" using cyc by (meson tranclD)
      then have "b \<in> D" using assms by auto
      then show False
        using inside[of b a] \<open>(b, a) \<in> ?s\<^sup>*\<close> False by (auto simp: rtrancl_eq_or_trancl)
    qed
  qed
qed

lemma walk_inv_exit:
  assumes "walk_inv graph ((i, True) # stack) w"
  shows "walk_inv graph stack
    (w \<lparr> wk_visiting := filter (\<lambda>j. j \<noteq> i) (wk_visiting w), wk_visited := set_add i (wk_visited w) \<rparr>)"
proof -
  let ?V = "set (wk_visited w)" and ?M = "set (wk_missing w)"
  have parents: "edges graph `` {i} \<subseteq> ?V \<union> ?M" using assms by (auto simp: walk_inv_def)
  have new: "i \<notin> ?V \<union> ?M" using assms by (auto simp: walk_inv_def)
  have "acyclic (edges graph \<inter> insert i ?V \<times> UNIV)"
    using assms parents new by (intro acyclic_new_source[where D = "?V \<union> ?M"]) (auto simp: walk_inv_def)
  moreover have "covered graph (insert i ?V \<union> ?M) stack"
    using assms by (auto simp: walk_inv_def)
  ultimately show ?thesis
    using assms parents by (auto simp: walk_inv_def)
qed

lemma walk_inv_skip:
  assumes "walk_inv graph ((i, False) # stack) w" "i \<in> set (wk_visited w)"
  shows "walk_inv graph stack w"
  using assms by (auto simp: walk_inv_def insert_absorb)

lemma walk_inv_missing:
  assumes "walk_inv graph ((i, False) # stack) w" "map_of graph i = None"
  shows "walk_inv graph stack (w \<lparr> wk_missing := set_add i (wk_missing w) \<rparr>)"
proof -
  have "i \<in> Range (edges graph)" using assms by (auto simp: walk_inv_def)
  then show ?thesis using assms by (auto simp: walk_inv_def)
qed

lemma walk_inv_enter:
  assumes "walk_inv graph ((i, False) # stack) w" "map_of graph i = Some ps"
    and "i \<notin> set (wk_visited w)" "i \<notin> set (wk_visiting w)"
  shows "walk_inv graph (rev (map (\<lambda>p. (p, False)) ps) @ (i, True) # stack)
    (w \<lparr> wk_visiting := set_add i (wk_visiting w), wk_replaced := fold set_add ps (wk_replaced w) \<rparr>)"
proof -
  let ?D = "set (wk_visited w) \<union> set (wk_missing w)"
  have "covered graph (insert i ?D) stack" using assms(1) by (simp add: walk_inv_def)
  then have "covered graph (insert i (set ps \<union> ?D)) stack" by (rule covered_mono) auto
  then have "covered graph (set ps \<union> ?D) ((i, True) # stack)"
    using assms(2) by (simp add: edges_from)
  then have "covered graph ?D (rev (map (\<lambda>p. (p, False)) ps) @ (i, True) # stack)"
    by (rule covered_pending)
  moreover have "chained graph (rev (map (\<lambda>p. (p, False)) ps) @ (i, True) # stack)"
    using assms(1,2) by (intro chained_pending) (auto simp: walk_inv_def)
  moreover have "edges graph `` {i} = set ps" using assms(2) by (auto simp: edges_from)
  ultimately show ?thesis
    using assms by (auto simp: walk_inv_def edges_from)
qed

lemma walk_stack_finds:
  assumes "walk_inv graph stack w"
  shows "case walk_stack graph stack w of
           Inl e \<Rightarrow> e = cycle_error \<and> \<not> acyclic (edges graph)
         | Inr w' \<Rightarrow> walk_inv graph [] w' \<and> set (wk_visited w) \<subseteq> set (wk_visited w') \<and>
             fst ` set stack \<inter> dom (map_of graph) \<subseteq> set (wk_visited w')"
  using assms
proof (induction graph stack w rule: walk_stack.induct)
  case (1 graph w)
  then show ?case by simp
next
  case (2 graph i exit stack w)
  show ?case
  proof (cases exit)
    case True
    then show ?thesis using 2(1)[OF True] walk_inv_exit 2(5) by (auto split: sum.splits)
  next
    case False
    have walk: "walk_inv graph ((i, False) # stack) w" using 2(5) False by simp
    consider "i \<in> set (wk_visited w)" | "i \<notin> set (wk_visited w)" "i \<in> set (wk_visiting w)"
      | "i \<notin> set (wk_visited w)" "i \<notin> set (wk_visiting w)" "map_of graph i = None"
      | ps where "i \<notin> set (wk_visited w)" "i \<notin> set (wk_visiting w)" "map_of graph i = Some ps"
      by blast
    then show ?thesis
    proof cases
      case 1
      then show ?thesis using 2(2)[OF _ 1] walk_inv_skip[OF walk 1] False by (auto split: sum.splits)
    next
      case 2
      then have "i \<in> set (exits stack)" "chained graph ((i, False) # stack)" using walk by (auto simp: walk_inv_def)
      then have "(i, hd (exits stack)) \<in> (edges graph)\<^sup>*" "(hd (exits stack), i) \<in> edges graph"
        using chained_path by auto
      then have "\<not> acyclic (edges graph)" by (meson acyclic_def rtrancl_into_trancl1)
      then show ?thesis using 2 False by simp
    next
      case 3
      then show ?thesis using 2(3)[OF _ 3] walk_inv_missing[OF walk 3(3)] False by (auto split: sum.splits)
    next
      case (4 ps)
      have "i \<in> set (wk_visited w') \<and> fst ` set stack \<inter> dom (map_of graph) \<subseteq> set (wk_visited w')"
        if "fst ` set (rev (map (\<lambda>p. (p, False)) ps) @ (i, True) # stack) \<inter> dom (map_of graph) \<subseteq> set (wk_visited w')"
        for w' using that 4(3) by auto
      then show ?thesis
        using 2(4)[OF _ 4 walk_inv_enter[OF walk 4(3,1,2)]] 4 False by (auto split: sum.splits)
    qed
  qed
qed

section \<open>Every revision as a start\<close>

text \<open>The loop \<^verbatim>\<open>for (const start of revisions.keys())\<close>\<close>

fun walk_from :: "(string \<times> string list) list \<Rightarrow> string list \<Rightarrow> walk \<Rightarrow> walk result" where
  "walk_from graph [] w = Inr w"
| "walk_from graph (start # starts) w =
     ebind (walk_stack graph [(start, False)] w) (walk_from graph starts)"

definition walk_graph :: "(string \<times> string list) list \<Rightarrow> walk result" where
  "walk_graph graph =
     walk_from graph (map fst graph) \<lparr> wk_missing = [], wk_replaced = [], wk_visited = [], wk_visiting = [] \<rparr>"

lemma walk_inv_start:
  "walk_inv graph [] w \<Longrightarrow> start \<in> dom (map_of graph) \<Longrightarrow> walk_inv graph [(start, False)] w"
  by (auto simp: walk_inv_def)

lemma walk_from_finds:
  "walk_inv graph [] w \<Longrightarrow> set starts \<subseteq> dom (map_of graph) \<Longrightarrow>
   (case walk_from graph starts w of
      Inl e \<Rightarrow> e = cycle_error \<and> \<not> acyclic (edges graph)
    | Inr w' \<Rightarrow> walk_inv graph [] w' \<and> set (wk_visited w) \<union> set starts \<subseteq> set (wk_visited w'))"
proof (induction starts arbitrary: w)
  case (Cons start starts)
  have start: "start \<in> dom (map_of graph)" using Cons.prems(2) by simp
  note found = walk_stack_finds[OF walk_inv_start[OF Cons.prems(1) start]]
  show ?case
  proof (cases "walk_stack graph [(start, False)] w")
    case (Inr w1)
    then have w1: "walk_inv graph [] w1" "set (wk_visited w) \<union> {start} \<subseteq> set (wk_visited w1)"
      using found start by auto
    then show ?thesis using Cons.IH[OF w1(1)] Cons.prems(2) Inr by (auto split: sum.splits)
  qed (use found in simp)
qed simp

text \<open>The walk fails exactly on a cycle, and otherwise has found every replaced id and which of them
  are missing.\<close>

lemma walk_graph_finds:
  "case walk_graph graph of
     Inl e \<Rightarrow> e = cycle_error \<and> \<not> acyclic (edges graph)
   | Inr w \<Rightarrow> acyclic (edges graph) \<and> set (wk_replaced w) = Range (edges graph) \<and>
       set (wk_missing w) = Range (edges graph) - dom (map_of graph) \<and> distinct (wk_missing w)"
proof -
  let ?w = "\<lparr> wk_missing = [], wk_replaced = [], wk_visited = [], wk_visiting = [] \<rparr>"
  have "walk_inv graph [] ?w" by (simp add: walk_inv_def acyclic_def)
  then have found: "case walk_from graph (map fst graph) ?w of
      Inl e \<Rightarrow> e = cycle_error \<and> \<not> acyclic (edges graph)
    | Inr w' \<Rightarrow> walk_inv graph [] w' \<and> set (map fst graph) \<subseteq> set (wk_visited w')"
    using walk_from_finds[of graph ?w "map fst graph"]
    by (cases "walk_from graph (map fst graph) ?w") (auto simp: dom_map_of_conv_image_fst)
  show ?thesis
  proof (cases "walk_graph graph")
    case (Inr w)
    then have inv: "walk_inv graph [] w" and all: "fst ` set graph \<subseteq> set (wk_visited w)"
      using found by (simp_all add: walk_graph_def)
    then have visited: "set (wk_visited w) = dom (map_of graph)"
      by (auto simp: walk_inv_def dom_map_of_conv_image_fst)
    have "edges graph \<inter> dom (map_of graph) \<times> UNIV = edges graph" by (auto dest: edges_known)
    moreover have "edges graph `` dom (map_of graph) = Range (edges graph)" by (auto dest: edges_known)
    ultimately show ?thesis
      using inv Inr by (auto simp: walk_inv_def visited)
  qed (use found in \<open>simp add: walk_graph_def\<close>)
qed

text \<open>In a nonempty graph without cycles and without missing ids some id is not replaced.\<close>

lemma some_head:
  assumes "acyclic (edges graph)" "graph \<noteq> []"
  shows "\<exists>i \<in> fst ` set graph. i \<notin> Range (edges graph)"
proof -
  have "edges graph \<subseteq> (\<Union>(a, ps) \<in> set graph. {a} \<times> set ps)"
    by (auto simp: edges_def dest!: map_of_SomeD)
  then have "finite (edges graph)" by (rule finite_subset) auto
  then have "wf (edges graph)" using assms(1) by (rule finite_acyclic_wf)
  moreover obtain a where "a \<in> fst ` set graph" using assms(2) by (cases graph) auto
  ultimately obtain m where m: "m \<in> fst ` set graph" "\<And>y. (y, m) \<in> edges graph \<Longrightarrow> y \<notin> fst ` set graph"
    using wfE_min[of "edges graph" a "fst ` set graph"] by blast
  then have "m \<notin> Range (edges graph)"
    using edges_known[of _ m graph] by (auto simp: dom_map_of_conv_image_fst)
  then show ?thesis using m(1) by blast
qed

end
