(* ===== verification/Project_Selection.thy ===== *)
theory Project_Selection
  imports Causal_Graph Js_Json Protocol_Fields "HOL-Library.AList"
begin

text \<open>
  The replicated choice of a project's anchor,
  \<^verbatim>\<open>packages/shared/src/personal-project-selection.ts\<close>: signed revisions that name the revisions they
  replace, and the state their causal graph resolves to. The canonical JSON checks of
  \<^verbatim>\<open>packages/shared/src/personal-device-sync-jcs.ts\<close> are here too.

  The schemas are applied by the zod library, which is not part of the repository: what they parse
  a value to is the parameter \<open>schemas\<close>, and \<open>schemas_ok\<close> states what a parsed revision satisfies
  by its schema.
\<close>

section \<open>Values that may be canonicalised\<close>

text \<open>A lone surrogate takes the three bytes ED A0..BF xx; a pair is one character of four bytes.\<close>

definition has_lone_surrogate :: "string \<Rightarrow> bool" where
  "has_lone_surrogate s \<longleftrightarrow> \<not> surrogate_free s"

text \<open>\<^verbatim>\<open>assertPdsValue\<close>; a value of this model has no cycle.\<close>

fun assert_pds_value :: "js_value \<Rightarrow> unit result"
  and assert_pds_items :: "js_value list \<Rightarrow> unit result"
  and assert_pds_members :: "members \<Rightarrow> unit result" where
  "assert_pds_value JNull = Inr ()"
| "assert_pds_value (JBool b) = Inr ()"
| "assert_pds_value (JStr s) =
     throw_if (has_lone_surrogate s) (TypeError ''PDS JSON rejects lone surrogates'')"
| "assert_pds_value (JNum n) = Inl (TypeError ''PDS JSON represents numeric values as decimal strings'')"
| "assert_pds_value JUndefined = Inl (TypeError ''PDS JSON does not support undefined'')"
| "assert_pds_value JOther = Inl (TypeError ''PDS JSON only supports plain objects'')"
| "assert_pds_value (JArr vs) = assert_pds_items vs"
| "assert_pds_value (JObj kvs) = assert_pds_members kvs"
| "assert_pds_items [] = Inr ()"
| "assert_pds_items (v # vs) = ebind (assert_pds_value v) (\<lambda>_. assert_pds_items vs)"
| "assert_pds_members [] = Inr ()"
| "assert_pds_members ((k, v) # kvs) =
     ebind (throw_if (has_lone_surrogate k) (TypeError ''PDS JSON rejects lone surrogates'')) (\<lambda>_.
     ebind (assert_pds_value v) (\<lambda>_. assert_pds_members kvs))"

definition canonicalize_pds :: "'k crypto \<Rightarrow> js_value \<Rightarrow> string result" where
  "canonicalize_pds cr v = ebind (assert_pds_value v) (\<lambda>_. Inr (canonicalize cr v))"

section \<open>Revisions\<close>

datatype project_operation = Set_anchor string | Delete_anchor

record project_revision =
  pv_groupId :: string
  pv_associationId :: string
  pv_selectionId :: string
  pv_revisionId :: string
  pv_authorDeviceId :: string
  pv_authorSigningKeyId :: string
  pv_replaces :: "string list"
  pv_operation :: project_operation

definition selection_protocol :: string where
  "selection_protocol = ''koed/pds-project-selection/v1''"

definition operation_value :: "project_operation \<Rightarrow> js_value" where
  "operation_value op =
     (case op of
        Set_anchor a \<Rightarrow> JObj [(''kind'', JStr ''set''), (''anchorFingerprint'', JStr a)]
      | Delete_anchor \<Rightarrow> JObj [(''kind'', JStr ''delete'')])"

definition revision_fields :: "project_revision \<Rightarrow> members" where
  "revision_fields r =
     [(''protocol'', JStr selection_protocol), (''groupId'', JStr (pv_groupId r)),
      (''associationId'', JStr (pv_associationId r)), (''selectionId'', JStr (pv_selectionId r)),
      (''revisionId'', JStr (pv_revisionId r)), (''authorDeviceId'', JStr (pv_authorDeviceId r)),
      (''authorSigningKeyId'', JStr (pv_authorSigningKeyId r)),
      (''replaces'', JArr (map JStr (pv_replaces r))), (''operation'', operation_value (pv_operation r))]"

abbreviation revision_value :: "project_revision \<Rightarrow> js_value" where
  "revision_value r \<equiv> JObj (revision_fields r)"

text \<open>What the schema demands: \<^verbatim>\<open>identifier\<close>, \<^verbatim>\<open>z.array(identifier).max(1024)\<close> and the refinement.\<close>

definition project_identifier :: "string \<Rightarrow> bool" where
  "project_identifier s \<longleftrightarrow>
     1 \<le> length s \<and> length s \<le> 128 \<and>
     list_all (\<lambda>c. is_lower_alnum c \<or> is_upper c \<or> c = CHR ''_'' \<or> c = CHR ''-'') s"

definition anchor_ok :: "project_operation \<Rightarrow> bool" where
  "anchor_ok op =
     (case op of
        Set_anchor a \<Rightarrow> 4 \<le> js_length a \<and> js_length a \<le> 512 \<and> take 3 a = ''gr_''
      | Delete_anchor \<Rightarrow> True)"

definition revision_ok :: "project_revision \<Rightarrow> bool" where
  "revision_ok r \<longleftrightarrow>
     list_all project_identifier
       ([pv_groupId r, pv_associationId r, pv_selectionId r, pv_revisionId r, pv_authorDeviceId r,
         pv_authorSigningKeyId r] @ pv_replaces r) \<and>
     length (pv_replaces r) \<le> 1024 \<and> distinct (pv_replaces r) \<and> pv_revisionId r \<notin> set (pv_replaces r) \<and>
     anchor_ok (pv_operation r)"

record project_schemas =
  parse_revision :: "js_value \<Rightarrow> project_revision result"
  parse_record :: "js_value \<Rightarrow> (project_revision \<times> string) result"

definition schemas_ok :: "project_schemas \<Rightarrow> bool" where
  "schemas_ok sc \<longleftrightarrow> (\<forall>v r. parse_revision sc v = Inr r \<longrightarrow> revision_ok r)"

section \<open>Signatures\<close>

definition signing_bytes :: "'k crypto \<Rightarrow> project_revision \<Rightarrow> string result" where
  "signing_bytes cr r =
     ebind (canonicalize_pds cr (revision_value r)) (\<lambda>t. Inr (selection_protocol @ ''/revision'' @ [CHR 0x0A] @ t))"

definition record_value :: "project_revision \<Rightarrow> string \<Rightarrow> js_value" where
  "record_value r signature = JObj [(''revision'', revision_value r), (''signature'', JStr signature)]"

definition sign_project_selection ::
  "'k crypto \<Rightarrow> project_schemas \<Rightarrow> js_value \<Rightarrow> 'k \<Rightarrow> (project_revision \<times> string) result" where
  "sign_project_selection cr sc input signingPrivateKey =
     ebind (parse_revision sc input) (\<lambda>r.
     ebind (signing_bytes cr r) (\<lambda>bytes.
     parse_record sc (record_value r (b64_encode (ed_sign cr bytes signingPrivateKey)))))"

text \<open>\<^verbatim>\<open>pdsProjectSelectionPackageId\<close>; the digest in base64url is the encoding of the bytes its
  hexadecimal form spells.\<close>

fun hex_bytes :: "string \<Rightarrow> string" where
  "hex_bytes (a # b # s) =
     (case (hex_digit a, hex_digit b) of
        (Some m, Some n) \<Rightarrow> char_of (16 * m + n) # hex_bytes s
      | _ \<Rightarrow> [])"
| "hex_bytes s = []"

definition selection_package_id :: "'k crypto \<Rightarrow> string \<Rightarrow> string \<Rightarrow> string result" where
  "selection_package_id cr recordHash transportId =
     ebind (decode_pds_base64url recordHash 32) (\<lambda>_.
     ebind (decode_pds_base64url transportId 32) (\<lambda>_.
     Inr (b64_encode (hex_bytes (sha256_hex cr
            (selection_protocol @ ''/delivery'' @ [CHR 0x00] @ recordHash @ [CHR 0x00] @ transportId))))))"

datatype 'k author_key = Raw_author_key raw_key | Author_key_object 'k

record 'k selection_author =
  sa_groupId :: string
  sa_deviceId :: string
  sa_signingKeyId :: string
  sa_publicKey :: "'k author_key"

definition verify_project_selection ::
  "'k crypto \<Rightarrow> project_schemas \<Rightarrow> js_value \<Rightarrow> 'k selection_author \<Rightarrow> (project_revision \<times> string) result" where
  "verify_project_selection cr sc input author =
     ebind (parse_record sc input) (\<lambda>(r, signature).
     ebind (throw_if (pv_groupId r \<noteq> sa_groupId author \<or> pv_authorDeviceId r \<noteq> sa_deviceId author \<or>
                      pv_authorSigningKeyId r \<noteq> sa_signingKeyId author)
              (TypeError ''PDS Project selection author is unauthorized'')) (\<lambda>_.
     ebind (case sa_publicKey author of
              Author_key_object k \<Rightarrow> Inr k
            | Raw_author_key raw \<Rightarrow> pds_ed25519_public_key cr raw) (\<lambda>key.
     ebind (signing_bytes cr r) (\<lambda>bytes.
     ebind (throw_if (\<not> ed_verify cr bytes key (b64_decode signature))
              (TypeError ''PDS Project selection signature is invalid'')) (\<lambda>_.
     Inr (r, signature))))))"

section \<open>Resolution\<close>

record selection_scope =
  sc_groupId :: string
  sc_associationId :: string
  sc_selectionId :: string

text \<open>The loop that fills \<^verbatim>\<open>revisions\<close>, a \<^verbatim>\<open>Map\<close> by revision id.\<close>

fun collect_revisions ::
  "'k crypto \<Rightarrow> project_schemas \<Rightarrow> selection_scope \<Rightarrow> js_value list \<Rightarrow> (string \<times> project_revision) list \<Rightarrow>
     (string \<times> project_revision) list result" where
  "collect_revisions cr sc scope [] revisions = Inr revisions"
| "collect_revisions cr sc scope (v # vs) revisions =
     ebind (parse_revision sc v) (\<lambda>r.
     ebind (throw_if (pv_groupId r \<noteq> sc_groupId scope \<or> pv_associationId r \<noteq> sc_associationId scope \<or>
                      pv_selectionId r \<noteq> sc_selectionId scope)
              (TypeError ''PDS Project selection scope differs'')) (\<lambda>_.
     ebind (case map_of revisions (pv_revisionId r) of
              None \<Rightarrow> Inr ()
            | Some existing \<Rightarrow>
                ebind (canonicalize_pds cr (revision_value existing)) (\<lambda>a.
                ebind (canonicalize_pds cr (revision_value r)) (\<lambda>b.
                throw_if (a \<noteq> b) (TypeError ''PDS Project selection revision was reused'')))) (\<lambda>_.
     collect_revisions cr sc scope vs (AList.update (pv_revisionId r) r revisions))))"

datatype selection_outcome =
  Absent | Deleted | Selected string | Conflict | Incomplete "string list"

record selection_state =
  st_heads :: "string list"
  st_revisions :: "project_revision list"
  st_outcome :: selection_outcome

definition revision_graph :: "(string \<times> project_revision) list \<Rightarrow> (string \<times> string list) list" where
  "revision_graph revisions = map (\<lambda>(i, r). (i, pv_replaces r)) revisions"

definition outcome_of :: "(string \<times> project_revision) list \<Rightarrow> string list \<Rightarrow> string list \<Rightarrow> selection_outcome" where
  "outcome_of revisions missing heads =
     (if missing \<noteq> [] then Incomplete (js_sort missing)
      else
        (case heads of
           [] \<Rightarrow> Absent
         | [i] \<Rightarrow>
             (case map_of revisions i of
                None \<Rightarrow> Absent
              | Some r \<Rightarrow> (case pv_operation r of Delete_anchor \<Rightarrow> Deleted | Set_anchor a \<Rightarrow> Selected a))
         | _ \<Rightarrow> Conflict))"

definition resolve_revisions :: "(string \<times> project_revision) list \<Rightarrow> selection_state result" where
  "resolve_revisions revisions =
     ebind (walk_graph (revision_graph revisions)) (\<lambda>w.
     let ordered = sort_key (\<lambda>r. utf16_units (pv_revisionId r)) (map snd revisions);
         heads = map pv_revisionId (filter (\<lambda>r. pv_revisionId r \<notin> set (wk_replaced w)) ordered)
     in Inr \<lparr> st_heads = heads, st_revisions = ordered,
              st_outcome = outcome_of revisions (wk_missing w) heads \<rparr>)"

text \<open>\<^verbatim>\<open>resolvePdsProjectSelection\<close>\<close>

definition resolve_project_selection ::
  "'k crypto \<Rightarrow> project_schemas \<Rightarrow> selection_scope \<Rightarrow> js_value list \<Rightarrow> selection_state result" where
  "resolve_project_selection cr sc scope input =
     ebind (collect_revisions cr sc scope input []) resolve_revisions"

text \<open>\<^verbatim>\<open>associatedSelectionFromPdsState\<close> and \<^verbatim>\<open>requireReviewedProjectSelectionHeads\<close>\<close>

datatype associated_selection = Associated_selected string | Associated_conflict

definition associated_selection_from :: "string \<Rightarrow> selection_state \<Rightarrow> (string \<times> associated_selection) option" where
  "associated_selection_from associationId st =
     (case st_outcome st of
        Absent \<Rightarrow> None
      | Deleted \<Rightarrow> None
      | Selected a \<Rightarrow> Some (associationId, Associated_selected a)
      | _ \<Rightarrow> Some (associationId, Associated_conflict))"

definition require_reviewed_heads :: "'k crypto \<Rightarrow> selection_state \<Rightarrow> string list \<Rightarrow> string list result" where
  "require_reviewed_heads cr st reviewedHeads =
     ebind (throw_if (case st_outcome st of Incomplete _ \<Rightarrow> True | _ \<Rightarrow> False)
              (PlainError ''Project selection history is incomplete'')) (\<lambda>_.
     let reviewed = js_sort reviewedHeads; changed =
       PlainError ''Project selection changed; review its current revisions''
     in ebind (throw_if (\<not> distinct reviewed) changed) (\<lambda>_.
        ebind (canonicalize_pds cr (JArr (map JStr reviewed))) (\<lambda>a.
        ebind (canonicalize_pds cr (JArr (map JStr (js_sort (st_heads st))))) (\<lambda>b.
        ebind (throw_if (a \<noteq> b) changed) (\<lambda>_. Inr reviewed)))))"

section \<open>What is collected\<close>

text \<open>The canonical text of a value that passes \<open>assert_pds_value\<close> determines the value up to the order
  of members: what RFC 8785 promises.\<close>

definition canonical_texts_differ :: "'k crypto \<Rightarrow> bool" where
  "canonical_texts_differ cr \<longleftrightarrow>
     (\<forall>v w. assert_pds_value v = Inr () \<longrightarrow> assert_pds_value w = Inr () \<longrightarrow>
        canonicalize cr v = canonicalize cr w \<longrightarrow> js_same v w)"

lemma canonicalize_pds_iff:
  "canonicalize_pds cr v = Inr t \<longleftrightarrow> assert_pds_value v = Inr () \<and> t = canonicalize cr v"
  by (auto simp: canonicalize_pds_def result_simps)

lemma js_same_text_array: "js_same (JArr (map JStr xs)) (JArr (map JStr ys)) \<longleftrightarrow> xs = ys"
  by (auto simp: js_same_arr list_all2_map1 list_all2_map2 list.rel_eq)

lemma operation_value_same: "js_same (operation_value a) (operation_value b) \<longleftrightarrow> a = b"
  by (cases a; cases b) (auto simp: operation_value_def js_same_flat)

lemma revision_fields_distinct: "distinct (map fst (revision_fields r))"
  by (simp add: revision_fields_def)

lemma revision_same: "js_same (revision_value r) (revision_value r') \<longleftrightarrow> r = r'"
proof
  assume "js_same (revision_value r) (revision_value r')"
  then have "list_all (\<lambda>(k, w). js_same (fld (revision_fields r) k) w) (revision_fields r')"
    by (simp add: js_same_obj[OF revision_fields_distinct])
  then show "r = r'"
    by (cases r; cases r')
      (simp add: revision_fields_def fld_Cons operation_value_same js_same_text_array)
qed simp

definition pds_ok :: "project_revision \<Rightarrow> bool" where
  "pds_ok r \<longleftrightarrow> assert_pds_value (revision_value r) = Inr ()"

lemma revision_texts_iff:
  assumes "canonical_texts_differ cr"
  shows "ebind (canonicalize_pds cr (revision_value r)) (\<lambda>a.
     ebind (canonicalize_pds cr (revision_value r')) (\<lambda>b. throw_if (a \<noteq> b) e)) = Inr () \<longleftrightarrow>
     r = r' \<and> pds_ok r"
  unfolding pds_ok_def using assms revision_same[of r r']
  by (auto simp: result_simps canonicalize_pds_iff canonical_texts_differ_def)

definition in_scope :: "selection_scope \<Rightarrow> project_revision \<Rightarrow> bool" where
  "in_scope scope r \<longleftrightarrow>
     pv_groupId r = sc_groupId scope \<and> pv_associationId r = sc_associationId scope \<and>
     pv_selectionId r = sc_selectionId scope"

text \<open>The revisions are collected exactly when all parse and are in scope, two revisions with one id are
  equal, and those met twice can be canonicalised.\<close>

definition collectable :: "selection_scope \<Rightarrow> project_revision list \<Rightarrow> bool" where
  "collectable scope rs \<longleftrightarrow>
     list_all (in_scope scope) rs \<and>
     (\<forall>r \<in> set rs. \<forall>r' \<in> set rs. pv_revisionId r = pv_revisionId r' \<longrightarrow> r = r') \<and>
     (\<forall>r \<in> set rs. 2 \<le> count (mset rs) r \<longrightarrow> pds_ok r)"

lemma collectable_snoc:
  "collectable scope (rs @ [r]) \<longleftrightarrow>
     collectable scope rs \<and> in_scope scope r \<and> (\<forall>q \<in> set rs. pv_revisionId q = pv_revisionId r \<longrightarrow> q = r) \<and>
     (r \<in> set rs \<longrightarrow> pds_ok r)"
proof -
  have twice: "2 \<le> count (mset (rs @ [r])) q \<longleftrightarrow> q \<in> set rs \<and> 2 \<le> count (mset rs) q \<or> q = r \<and> r \<in> set rs" for q
  proof (cases "q \<in> set rs")
    case True
    then have "1 \<le> count (mset rs) q" by (simp add: Suc_le_eq)
    then show ?thesis using True by auto
  next
    case False
    then have "\<not> 2 \<le> count (mset rs) q" by (metis count_eq_zero_iff not_numeral_le_zero set_mset_mset)
    then show ?thesis using False by auto
  qed
  show ?thesis unfolding collectable_def twice by auto
qed

lemma collectable_prefix: "collectable scope (rs @ qs) \<Longrightarrow> collectable scope rs"
proof (induction qs rule: rev_induct)
  case (snoc q qs)
  then have "collectable scope ((rs @ qs) @ [q])" by simp
  then show ?case using snoc.IH unfolding collectable_snoc by blast
qed simp

lemma collectable_mset:
  assumes "mset rs = mset qs"
  shows "collectable scope rs = collectable scope qs"
  using assms mset_eq_setD[OF assms] by (simp only: collectable_def list_all_iff)

definition indexes :: "project_revision list \<Rightarrow> (string \<times> project_revision) list \<Rightarrow> bool" where
  "indexes rs revisions \<longleftrightarrow>
     distinct (map fst revisions) \<and>
     (\<forall>i r. map_of revisions i = Some r \<longleftrightarrow> r \<in> set rs \<and> pv_revisionId r = i)"

lemma indexes_snoc:
  assumes "indexes rs revisions" "\<forall>q \<in> set rs. pv_revisionId q = pv_revisionId r \<longrightarrow> q = r"
  shows "indexes (rs @ [r]) (AList.update (pv_revisionId r) r revisions)"
  unfolding indexes_def
proof (intro conjI allI)
  show "distinct (map fst (AList.update (pv_revisionId r) r revisions))"
    using assms(1) by (simp add: indexes_def distinct_update)
  fix i q
  show "map_of (AList.update (pv_revisionId r) r revisions) i = Some q \<longleftrightarrow> q \<in> set (rs @ [r]) \<and> pv_revisionId q = i"
  proof (cases "i = pv_revisionId r")
    case True
    then show ?thesis using assms(2) by (auto simp: update_conv)
  next
    case False
    then show ?thesis using assms(1) by (auto simp: update_conv indexes_def)
  qed
qed

lemma collect_revisions_iff:
  assumes "canonical_texts_differ cr" "indexes before revisions" "collectable scope before"
  shows "collect_revisions cr sc scope vs revisions = Inr revisions' \<longleftrightarrow>
    (\<exists>rs. emap (parse_revision sc) vs = Inr rs \<and> collectable scope (before @ rs) \<and>
       revisions' = fold (\<lambda>r. AList.update (pv_revisionId r) r) rs revisions)"
  using assms(2,3)
proof (induction vs arbitrary: before revisions)
  case (Cons v vs)
  show ?case
  proof (cases "parse_revision sc v")
    case (Inr r)
    let ?ok = "in_scope scope r \<and> (\<forall>q \<in> set before. pv_revisionId q = pv_revisionId r \<longrightarrow> q = r) \<and>
      (r \<in> set before \<longrightarrow> pds_ok r)"
    have index: "map_of revisions (pv_revisionId r) = Some q \<longleftrightarrow> q \<in> set before \<and> pv_revisionId q = pv_revisionId r" for q
      using Cons.prems(1) by (simp add: indexes_def)
    define known where "known = (case map_of revisions (pv_revisionId r) of
        None \<Rightarrow> Inr ()
      | Some existing \<Rightarrow>
          ebind (canonicalize_pds cr (revision_value existing)) (\<lambda>a.
          ebind (canonicalize_pds cr (revision_value r)) (\<lambda>b.
          throw_if (a \<noteq> b) (TypeError ''PDS Project selection revision was reused''))))"
    have known: "known = Inr () \<longleftrightarrow>
        (\<forall>q \<in> set before. pv_revisionId q = pv_revisionId r \<longrightarrow> q = r) \<and>
        (r \<in> set before \<longrightarrow> pds_ok r)"
    proof (cases "map_of revisions (pv_revisionId r)")
      case None
      then have "\<forall>q \<in> set before. pv_revisionId q \<noteq> pv_revisionId r" using index by fastforce
      then show ?thesis using None by (auto simp: known_def)
    next
      case (Some q)
      then have q: "q \<in> set before" "pv_revisionId q = pv_revisionId r" using index by auto
      have same: "q' = q" if "q' \<in> set before" "pv_revisionId q' = pv_revisionId r" for q'
        using index[of q'] Some that by simp
      have "(\<forall>q' \<in> set before. pv_revisionId q' = pv_revisionId r \<longrightarrow> q' = r) \<longleftrightarrow> q = r"
        using q same by blast
      then show ?thesis
        using Some q revision_texts_iff[OF assms(1), of q r] by (auto simp: known_def)
    qed
    have "collect_revisions cr sc scope (v # vs) revisions =
        ebind (throw_if (\<not> in_scope scope r) (TypeError ''PDS Project selection scope differs'')) (\<lambda>_.
        ebind known (\<lambda>_. collect_revisions cr sc scope vs (AList.update (pv_revisionId r) r revisions)))"
      by (simp add: Inr known_def in_scope_def)
    then have step: "collect_revisions cr sc scope (v # vs) revisions = Inr revisions' \<longleftrightarrow>
        ?ok \<and> collect_revisions cr sc scope vs (AList.update (pv_revisionId r) r revisions) = Inr revisions'"
      using known by (simp only: ebind_eq_Inr throw_if_eq_Inr) auto
    have parsed: "(\<exists>rs. emap (parse_revision sc) (v # vs) = Inr rs \<and> P rs) \<longleftrightarrow>
        (\<exists>rs. emap (parse_revision sc) vs = Inr rs \<and> P (r # rs))" for P
      using Inr by (auto simp: result_simps)
    show ?thesis
    proof (cases ?ok)
      case True
      then have "collectable scope (before @ [r])" "indexes (before @ [r]) (AList.update (pv_revisionId r) r revisions)"
        using Cons.prems by (simp_all add: collectable_snoc indexes_snoc)
      from Cons.IH[OF this(2,1)] show ?thesis
        unfolding step parsed using True by simp
    next
      case False
      then have "\<not> collectable scope (before @ [r])" by (simp add: collectable_snoc)
      then have "\<not> collectable scope (before @ r # rs)" for rs
        using collectable_prefix[of scope "before @ [r]" rs] by auto
      then show ?thesis unfolding step parsed using False by blast
    qed
  qed (simp add: result_simps)
qed (auto simp: result_simps)

lemma indexes_fold:
  "indexes before revisions \<Longrightarrow> collectable scope (before @ rs) \<Longrightarrow>
   indexes (before @ rs) (fold (\<lambda>r. AList.update (pv_revisionId r) r) rs revisions)"
proof (induction rs arbitrary: before revisions)
  case (Cons r rs)
  have "collectable scope (before @ [r])" using collectable_prefix[of scope "before @ [r]" rs] Cons.prems(2) by simp
  then have "indexes (before @ [r]) (AList.update (pv_revisionId r) r revisions)"
    using Cons.prems(1) by (intro indexes_snoc) (simp_all add: collectable_snoc)
  from Cons.IH[OF this] Cons.prems(2) show ?case by simp
qed simp

text \<open>The collected revisions, from nothing.\<close>

definition collected :: "project_revision list \<Rightarrow> (string \<times> project_revision) list" where
  "collected rs = fold (\<lambda>r. AList.update (pv_revisionId r) r) rs []"

lemma resolve_project_selection_iff:
  assumes "canonical_texts_differ cr"
  shows "resolve_project_selection cr sc scope vs = Inr st \<longleftrightarrow>
    (\<exists>rs. emap (parse_revision sc) vs = Inr rs \<and> collectable scope rs \<and> resolve_revisions (collected rs) = Inr st)"
proof -
  have "indexes [] []" "collectable scope []" by (simp_all add: indexes_def collectable_def)
  then show ?thesis
    using collect_revisions_iff[OF assms, of "[]" "[]" scope sc vs]
    by (auto simp: resolve_project_selection_def result_simps collected_def)
qed

lemma collected_indexes: "collectable scope rs \<Longrightarrow> indexes rs (collected rs)"
  using indexes_fold[of "[]" "[]" scope rs] by (simp add: indexes_def collected_def)

section \<open>What the graph resolves to\<close>

definition ids_ok :: "project_revision list \<Rightarrow> bool" where
  "ids_ok rs \<longleftrightarrow> (\<forall>r \<in> set rs. \<forall>i \<in> set (pv_revisionId r # pv_replaces r). list_all (\<lambda>c. of_char c < (128 :: nat)) i)"

lemma project_identifier_ascii: "project_identifier s \<Longrightarrow> list_all (\<lambda>c. of_char c < (128 :: nat)) s"
  by (auto simp: project_identifier_def list_all_iff is_lower_alnum_def is_lower_def is_upper_def is_digit_def
      less_eq_char_def)

lemma parsed_ids_ok: "schemas_ok sc \<Longrightarrow> emap (parse_revision sc) vs = Inr rs \<Longrightarrow> ids_ok rs"
  by (induction vs arbitrary: rs)
    (fastforce simp: result_simps ids_ok_def schemas_ok_def revision_ok_def list_all_iff
      dest: project_identifier_ascii)+

lemma map_of_revision_graph: "map_of (revision_graph revisions) i = map_option pv_replaces (map_of revisions i)"
  by (induction revisions) (auto simp: revision_graph_def)

text \<open>The edges of collected revisions: from a revision to what it replaces.\<close>

definition replaces :: "project_revision list \<Rightarrow> (string \<times> string) set" where
  "replaces rs = {(pv_revisionId r, p) | r p. r \<in> set rs \<and> p \<in> set (pv_replaces r)}"

lemma edges_indexed: "indexes rs revisions \<Longrightarrow> edges (revision_graph revisions) = replaces rs"
  by (auto simp: edges_def map_of_revision_graph indexes_def replaces_def)

lemma known_indexed: "indexes rs revisions \<Longrightarrow> dom (map_of (revision_graph revisions)) = pv_revisionId ` set rs"
  by (auto simp: dom_def map_of_revision_graph indexes_def)

lemma indexed_revisions:
  assumes "indexes rs revisions"
  shows "set (map snd revisions) = set rs" "distinct (map pv_revisionId (map snd revisions))"
proof -
  have entry: "(i, r) \<in> set revisions \<longleftrightarrow> r \<in> set rs \<and> pv_revisionId r = i" for i r
    using assms by (simp add: indexes_def flip: map_of_eq_Some_iff)
  show "set (map snd revisions) = set rs"
    by (simp add: set_eq_iff image_iff Bex_def split_paired_Ex entry)
  have "map pv_revisionId (map snd revisions) = map fst revisions"
    using entry by auto
  moreover have "distinct (map fst revisions)" using assms by (simp add: indexes_def)
  ultimately show "distinct (map pv_revisionId (map snd revisions))" by (simp only:)
qed

definition ordered_revisions :: "(string \<times> project_revision) list \<Rightarrow> project_revision list" where
  "ordered_revisions revisions = sort_key (\<lambda>r. utf16_units (pv_revisionId r)) (map snd revisions)"

lemma ordered_unique:
  assumes "indexes rs revisions" "indexes qs revisions'" "set rs = set qs" "ids_ok rs"
  shows "ordered_revisions revisions = ordered_revisions revisions'"
proof -
  note i = indexed_revisions[OF assms(1)] and j = indexed_revisions[OF assms(2)]
  have m: "mset (map snd revisions) = mset (map snd revisions')"
    using i j assms(3) by (metis distinct_map set_eq_iff_mset_eq_distinct)
  have "inj_on (\<lambda>r. utf16_units (pv_revisionId r)) (set (map snd revisions))"
  proof (rule inj_onI)
    fix a b assume ab: "a \<in> set (map snd revisions)" "b \<in> set (map snd revisions)"
      "utf16_units (pv_revisionId a) = utf16_units (pv_revisionId b)"
    then have "pv_revisionId a = pv_revisionId b"
      using i(1) assms(4) utf16_units_ascii_inj unfolding ids_ok_def by auto
    then show "a = b" using ab(1,2) i(2) by (auto simp: distinct_map inj_on_def)
  qed
  then show ?thesis
    unfolding ordered_revisions_def using m by (intro sort_key_inj_key_eq) simp_all
qed

text \<open>The heads: the revisions that no revision replaces.\<close>

definition head_ids :: "project_revision list \<Rightarrow> string set" where
  "head_ids rs = pv_revisionId ` set rs - Range (replaces rs)"

definition missing_ids :: "project_revision list \<Rightarrow> string set" where
  "missing_ids rs = Range (replaces rs) - pv_revisionId ` set rs"

lemma resolve_revisions_cases:
  assumes "indexes rs revisions"
  shows "case resolve_revisions revisions of
      Inl e \<Rightarrow> e = cycle_error \<and> \<not> acyclic (replaces rs)
    | Inr st \<Rightarrow> acyclic (replaces rs) \<and> st_revisions st = ordered_revisions revisions \<and>
        st_heads st = filter (\<lambda>i. i \<notin> Range (replaces rs)) (map pv_revisionId (ordered_revisions revisions)) \<and>
        set (st_heads st) = head_ids rs \<and> distinct (st_heads st) \<and>
        (\<exists>missing. set missing = missing_ids rs \<and> distinct missing \<and>
           st_outcome st = outcome_of revisions missing (st_heads st))"
proof (cases "walk_graph (revision_graph revisions)")
  case (Inl e)
  then show ?thesis
    using walk_graph_finds[of "revision_graph revisions"] edges_indexed[OF assms]
    by (simp add: resolve_revisions_def)
next
  case (Inr w)
  then have w: "acyclic (replaces rs)" "set (wk_replaced w) = Range (replaces rs)"
      "set (wk_missing w) = missing_ids rs" "distinct (wk_missing w)"
    using walk_graph_finds[of "revision_graph revisions"] edges_indexed[OF assms] known_indexed[OF assms]
    by (simp_all add: missing_ids_def)
  have "set (ordered_revisions revisions) = set rs"
    using indexed_revisions(1)[OF assms] by (simp add: ordered_revisions_def)
  moreover have "distinct (map pv_revisionId (ordered_revisions revisions))"
  proof -
    have "mset (map pv_revisionId (ordered_revisions revisions)) = mset (map pv_revisionId (map snd revisions))"
      by (simp add: ordered_revisions_def multiset.map_comp)
    then show ?thesis using indexed_revisions(2)[OF assms] by (metis mset_eq_imp_distinct_iff)
  qed
  moreover have "map pv_revisionId (filter (\<lambda>r. pv_revisionId r \<notin> X) l) = filter (\<lambda>i. i \<notin> X) (map pv_revisionId l)" for X l
    by (simp add: filter_map o_def)
  ultimately show ?thesis
    using w Inr by (auto simp: resolve_revisions_def Let_def head_ids_def simp flip: ordered_revisions_def)
qed

end
