(* ===== verification/Project_Properties.thy ===== *)
theory Project_Properties
  imports Project_Selection
begin

text \<open>
  The properties of the replicated project selection: what a set of signed revisions resolves to,
  that the order in which devices received them does not matter, and that a revision which replaces
  all the heads it was made against settles a conflict.
\<close>

section \<open>What a state says of its revisions\<close>

lemma emap_mset:
  assumes "emap f vs = Inr rs" "mset vs = mset vs'"
  shows "\<exists>rs'. emap f vs' = Inr rs' \<and> mset rs' = mset rs"
  using assms list_all2_reorder_left_invariance[of "\<lambda>v r. f v = Inr r" vs rs vs'] by (auto simp: emap_eq_Inr)

lemma replaces_set: "set rs = set qs \<Longrightarrow> replaces rs = replaces qs"
  by (simp add: replaces_def)

lemma missing_ascii:
  "ids_ok rs \<Longrightarrow> i \<in> missing_ids rs \<Longrightarrow> list_all (\<lambda>c. of_char c < (128 :: nat)) i"
  by (fastforce simp: ids_ok_def missing_ids_def replaces_def)

lemma outcome_of_cong:
  assumes "map_of revisions = map_of revisions'" "js_sort missing = js_sort missing'"
    "missing = [] \<longleftrightarrow> missing' = []"
  shows "outcome_of revisions missing heads = outcome_of revisions' missing' heads"
  unfolding outcome_of_def assms by (simp only: assms(3))

lemma indexes_map_of:
  assumes "indexes rs revisions" "indexes qs revisions'" "set rs = set qs"
  shows "map_of revisions = map_of revisions'"
proof
  fix i
  have "map_of revisions i = Some r \<longleftrightarrow> map_of revisions' i = Some r" for r
    using assms by (simp add: indexes_def)
  then show "map_of revisions i = map_of revisions' i" by (cases "map_of revisions i") (metis option.exhaust)+
qed

lemma resolve_revisions_unique:
  assumes "indexes rs revisions" "indexes qs revisions'" "set rs = set qs" "ids_ok rs"
    and "resolve_revisions revisions = Inr st"
  shows "resolve_revisions revisions' = Inr st"
proof -
  note sets = replaces_set[OF assms(3)]
  from resolve_revisions_cases[OF assms(1)] assms(5)
  obtain missing where st: "acyclic (replaces rs)" "st_revisions st = ordered_revisions revisions"
      "st_heads st = filter (\<lambda>i. i \<notin> Range (replaces rs)) (map pv_revisionId (ordered_revisions revisions))"
      "set missing = missing_ids rs" "distinct missing"
      "st_outcome st = outcome_of revisions missing (st_heads st)"
    by auto
  from resolve_revisions_cases[OF assms(2)] st(1)
  obtain st' missing' where st': "resolve_revisions revisions' = Inr st'"
      "st_revisions st' = ordered_revisions revisions'"
      "st_heads st' = filter (\<lambda>i. i \<notin> Range (replaces rs)) (map pv_revisionId (ordered_revisions revisions'))"
      "set missing' = missing_ids qs" "distinct missing'"
      "st_outcome st' = outcome_of revisions' missing' (st_heads st')"
    using sets by (auto split: sum.splits)
  note ordered = ordered_unique[OF assms(1-4)]
  have same_missing: "missing_ids qs = missing_ids rs" by (simp add: missing_ids_def sets assms(3))
  then have m: "mset missing = mset missing'"
    using st(4,5) st'(4,5) set_eq_iff_mset_eq_distinct by metis
  then have "js_sort missing = js_sort missing'" "missing = [] \<longleftrightarrow> missing' = []"
    using missing_ascii[OF assms(4)] st(4) by (auto intro: js_sort_unique)
  then have "outcome_of revisions missing heads = outcome_of revisions' missing' heads" for heads
    using outcome_of_cong indexes_map_of[OF assms(1-3)] by blast
  then have "st' = st" using st st' ordered by simp
  then show ?thesis using st'(1) by simp
qed

definition settled :: "project_revision list \<Rightarrow> selection_state \<Rightarrow> bool" where
  "settled rs st \<longleftrightarrow>
     (case st_outcome st of
        Incomplete ids \<Rightarrow> ids \<noteq> [] \<and> set ids = missing_ids rs
      | Absent \<Rightarrow> missing_ids rs = {} \<and> rs = []
      | Deleted \<Rightarrow> missing_ids rs = {} \<and>
          (\<exists>r \<in> set rs. head_ids rs = {pv_revisionId r} \<and> pv_operation r = Delete_anchor)
      | Selected a \<Rightarrow> missing_ids rs = {} \<and>
          (\<exists>r \<in> set rs. head_ids rs = {pv_revisionId r} \<and> pv_operation r = Set_anchor a)
      | Conflict \<Rightarrow> missing_ids rs = {} \<and> 2 \<le> card (head_ids rs))"

lemma js_sort_set [simp]: "set (js_sort xs) = set xs"
  by (simp add: js_sort_def)

lemma js_sort_Nil_iff [simp]: "js_sort xs = [] \<longleftrightarrow> xs = []"
  using js_sort_set[of xs] by (metis set_empty)

lemma no_heads:
  assumes "indexes rs revisions" "acyclic (replaces rs)" "head_ids rs = {}"
  shows "rs = []"
proof (rule ccontr)
  assume "rs \<noteq> []"
  then obtain r where "r \<in> set rs" by (cases rs) auto
  then have "pv_revisionId r \<in> dom (map_of (revision_graph revisions))" using known_indexed[OF assms(1)] by simp
  then have "revision_graph revisions \<noteq> []" by auto
  from some_head[OF _ this] obtain i where "i \<in> fst ` set (revision_graph revisions)" "i \<notin> Range (replaces rs)"
    using assms(2) edges_indexed[OF assms(1)] by auto
  moreover have "fst ` set (revision_graph revisions) = pv_revisionId ` set rs"
    using known_indexed[OF assms(1)] by (simp add: dom_map_of_conv_image_fst)
  ultimately show False using assms(3) by (auto simp: head_ids_def)
qed

lemma outcome_settled:
  assumes "indexes rs revisions" "acyclic (replaces rs)" "set (st_heads st) = head_ids rs" "distinct (st_heads st)"
    and "set missing = missing_ids rs" "st_outcome st = outcome_of revisions missing (st_heads st)"
  shows "settled rs st"
proof (cases "missing = []")
  case True
  then have none: "missing_ids rs = {}" using assms(5) by simp
  show ?thesis
  proof (cases "st_heads st" rule: remdups_adj.cases)
    case 1
    then have "rs = []" using no_heads[OF assms(1,2)] assms(3) by simp
    then show ?thesis using none 1 True assms(6) by (simp add: settled_def outcome_of_def)
  next
    case (2 i)
    then have head: "head_ids rs = {i}" using assms(3) by simp
    then have "i \<in> pv_revisionId ` set rs" unfolding head_ids_def by blast
    then obtain r where r: "r \<in> set rs" "pv_revisionId r = i" by auto
    then have "map_of revisions i = Some r" using assms(1) by (simp add: indexes_def)
    then show ?thesis
      using head r none 2 True assms(6)
      by (cases "pv_operation r") (auto simp: settled_def outcome_of_def)
  next
    case (3 i j ids)
    then have "2 \<le> card (head_ids rs)"
      using assms(3,4) distinct_card[OF assms(4)] by simp
    then show ?thesis using 3 none True assms(6) by (simp add: settled_def outcome_of_def)
  qed
next
  case False
  then show ?thesis using assms(5,6) by (simp add: settled_def outcome_of_def)
qed

lemma resolve_revisions_settled:
  assumes "indexes rs revisions" "resolve_revisions revisions = Inr st"
  shows "acyclic (replaces rs)" "set (st_heads st) = head_ids rs" "distinct (st_heads st)"
    "st_revisions st = ordered_revisions revisions" "settled rs st"
proof -
  from resolve_revisions_cases[OF assms(1), unfolded assms(2) sum.case]
  obtain missing where st: "acyclic (replaces rs)" "set (st_heads st) = head_ids rs" "distinct (st_heads st)"
      "st_revisions st = ordered_revisions revisions" "set missing = missing_ids rs"
      "st_outcome st = outcome_of revisions missing (st_heads st)"
    by (elim conjE exE)
  show "acyclic (replaces rs)" "set (st_heads st) = head_ids rs" "distinct (st_heads st)"
    "st_revisions st = ordered_revisions revisions" by (fact st)+
  show "settled rs st" by (rule outcome_settled[OF assms(1) st(1-3,5,6)])
qed

lemma settled_Absent [simp]: "st_outcome st = Absent \<Longrightarrow> settled rs st \<longleftrightarrow> rs = [] \<and> missing_ids rs = {}"
  by (auto simp: settled_def)

section \<open>Canonical texts that differ\<close>

text \<open>A text that determines its value, for the witnesses: each value a letter and its contents, each
  content marked and the sequence closed.\<close>

definition mark_text :: "string \<Rightarrow> string" where
  "mark_text s = concat (map (\<lambda>c. [CHR ''+'', c]) s) @ ''.''"

fun value_text :: "js_value \<Rightarrow> string" and items_text :: "js_value list \<Rightarrow> string"
  and members_text :: "members \<Rightarrow> string" where
  "value_text JNull = ''n''"
| "value_text (JBool b) = (if b then ''t'' else ''f'')"
| "value_text (JStr s) = ''s'' @ mark_text s"
| "value_text (JArr vs) = ''a'' @ items_text vs"
| "value_text (JObj kvs) = ''o'' @ members_text kvs"
| "value_text v = ''x''"
| "items_text [] = ''.''"
| "items_text (v # vs) = ''+'' @ value_text v @ items_text vs"
| "members_text [] = ''.''"
| "members_text ((k, v) # kvs) = ''+'' @ mark_text k @ value_text v @ members_text kvs"

lemma mark_text_inj: "mark_text s @ r = mark_text t @ r' \<longleftrightarrow> s = t \<and> r = r'"
proof (induction s arbitrary: t)
  case Nil
  then show ?case by (cases t) (auto simp: mark_text_def)
next
  case (Cons c s)
  then show ?case by (cases t) (auto simp: mark_text_def)
qed

lemma assert_pds_members_Cons:
  "assert_pds_members (kv # kvs) = Inr () \<longleftrightarrow>
     \<not> has_lone_surrogate (fst kv) \<and> assert_pds_value (snd kv) = Inr () \<and> assert_pds_members kvs = Inr ()"
  by (cases kv) (simp add: result_simps)

lemma value_text_inj:
  "assert_pds_value v = Inr () \<Longrightarrow> assert_pds_value w = Inr () \<Longrightarrow>
     value_text v @ r = value_text w @ r' \<Longrightarrow> v = w \<and> r = r'"
  "assert_pds_items vs = Inr () \<Longrightarrow> assert_pds_items ws = Inr () \<Longrightarrow>
     items_text vs @ r = items_text ws @ r' \<Longrightarrow> vs = ws \<and> r = r'"
  "assert_pds_members kvs = Inr () \<Longrightarrow> assert_pds_members lws = Inr () \<Longrightarrow>
     members_text kvs @ r = members_text lws @ r' \<Longrightarrow> kvs = lws \<and> r = r'"
proof (induction v and vs and kvs arbitrary: w r r' and ws r r' and lws r r'
    rule: value_text_items_text_members_text.induct)
  case (3 s)
  then show ?case by (cases w) (auto simp: mark_text_inj split: if_splits)
next
  case (8 v vs)
  from 8(5) obtain u us where us: "ws = u # us" by (cases ws) auto
  have ok: "assert_pds_value v = Inr ()" "assert_pds_items vs = Inr ()" "assert_pds_value u = Inr ()"
      "assert_pds_items us = Inr ()"
    using 8(3,4) by (simp_all add: us result_simps)
  have "value_text v @ items_text vs @ r = value_text u @ items_text us @ r'" using 8(5) by (simp add: us)
  from 8(1)[OF ok(1,3) this] have "v = u" "items_text vs @ r = items_text us @ r'" by blast+
  with 8(2)[OF ok(2,4) this(2)] show ?case unfolding us by blast
next
  case (10 k v kvs)
  from 10(5) obtain l u us where us: "lws = (l, u) # us" by (cases lws) auto
  have ok: "assert_pds_value v = Inr ()" "assert_pds_members kvs = Inr ()" "assert_pds_value u = Inr ()"
      "assert_pds_members us = Inr ()"
    using 10(3,4) by (simp_all add: us result_simps)
  have eq: "k = l" "value_text v @ members_text kvs @ r = value_text u @ members_text us @ r'"
    using 10(5) by (simp_all add: us mark_text_inj)
  from 10(1)[OF ok(1,3) eq(2)] have "v = u" "members_text kvs @ r = members_text us @ r'" by blast+
  with 10(2)[OF ok(2,4) this(2)] eq(1) show ?case unfolding us by blast
next
  case (4 us)
  from 4(3,4) obtain ws where ws: "w = JArr ws" by (cases w) (auto split: if_splits)
  have "assert_pds_items us = Inr ()" "assert_pds_items ws = Inr ()" "items_text us @ r = items_text ws @ r'"
    using 4(2-4) by (simp_all add: ws)
  from 4(1)[OF this] show ?case unfolding ws by blast
next
  case (5 us)
  from 5(3,4) obtain ws where ws: "w = JObj ws" by (cases w) (auto split: if_splits)
  have "assert_pds_members us = Inr ()" "assert_pds_members ws = Inr ()" "members_text us @ r = members_text ws @ r'"
    using 5(2-4) by (simp_all add: ws)
  from 5(1)[OF this] show ?case unfolding ws by blast
next
  case 7
  then show ?case by (cases ws) auto
next
  case 9
  then show ?case by (cases lws) auto
next
  case 1
  then show ?case by (cases w) (auto split: if_splits)
next
  case (2 b)
  then show ?case by (cases w) (auto split: if_splits)
qed simp_all

section \<open>The properties\<close>

lemma resolved_revisions:
  assumes "canonical_texts_differ cr" "resolve_project_selection cr sc scope vs = Inr st"
  obtains rs where "emap (parse_revision sc) vs = Inr rs" "collectable scope rs" "indexes rs (collected rs)"
    "resolve_revisions (collected rs) = Inr st"
  using assms resolve_project_selection_iff collected_indexes by metis

text \<open>A schema of the shape of the program's, a canonical text and two concurrent revisions, for the
  witnesses.\<close>

definition demo_revision :: "string \<Rightarrow> string list \<Rightarrow> project_operation \<Rightarrow> project_revision" where
  "demo_revision i ps op =
     \<lparr> pv_groupId = ''g'', pv_associationId = ''a'', pv_selectionId = ''s'', pv_revisionId = i,
       pv_authorDeviceId = ''d'', pv_authorSigningKeyId = ''k'', pv_replaces = ps, pv_operation = op \<rparr>"

definition demo_parse :: "js_value \<Rightarrow> project_revision result" where
  "demo_parse v =
     (case v of
        JObj kvs \<Rightarrow>
          (case (fld kvs ''revisionId'', fld kvs ''replaces'', fld kvs ''operation'') of
             (JStr i, JArr ps, JObj op) \<Rightarrow>
               let r = demo_revision i (map (\<lambda>p. case p of JStr s \<Rightarrow> s | _ \<Rightarrow> []) ps)
                         (case fld op ''anchorFingerprint'' of JStr a \<Rightarrow> Set_anchor a | _ \<Rightarrow> Delete_anchor)
               in if revision_ok r then Inr r else Inl (TypeError ''invalid'')
           | _ \<Rightarrow> Inl (TypeError ''invalid''))
      | _ \<Rightarrow> Inl (TypeError ''invalid''))"

definition demo_schemas :: project_schemas where
  "demo_schemas = \<lparr> parse_revision = demo_parse, parse_record = (\<lambda>v. Inl (TypeError ''unused'')) \<rparr>"

definition demo_texts :: "string crypto" where
  "demo_texts =
     \<lparr> canonicalize = value_text, sha256_hex = (\<lambda>s. replicate 64 CHR ''0''), ed_public_key = Inr,
       ed_private_key = (\<lambda>_. Inr), ed_verify = (\<lambda>_ _ _. False), ed_sign = (\<lambda>_ _. replicate 64 CHR ''0''),
       key_type = id, key_algorithm = id \<rparr>"

lemma demo_schemas_ok: "schemas_ok demo_schemas"
  by (auto simp: schemas_ok_def demo_schemas_def demo_parse_def Let_def split: js_value.splits if_splits)

lemma demo_texts_differ: "canonical_texts_differ demo_texts"
  unfolding canonical_texts_differ_def
proof (intro allI impI)
  fix v w
  assume "assert_pds_value v = Inr ()" "assert_pds_value w = Inr ()" "canonicalize demo_texts v = canonicalize demo_texts w"
  then have "v = w" using value_text_inj(1)[of v w "[]" "[]"] by (simp add: demo_texts_def)
  then show "js_same v w" by simp
qed

definition demo_scope :: selection_scope where
  "demo_scope = \<lparr> sc_groupId = ''g'', sc_associationId = ''a'', sc_selectionId = ''s'' \<rparr>"

definition demo_first :: js_value where
  "demo_first = revision_value (demo_revision ''r1'' [] (Set_anchor ''gr_a''))"

definition demo_second :: js_value where
  "demo_second = revision_value (demo_revision ''r2'' [] (Set_anchor ''gr_b''))"

definition demo_merge :: js_value where
  "demo_merge = revision_value (demo_revision ''r3'' [''r2'', ''r1''] Delete_anchor)"

definition demo_conflict :: selection_state where
  "demo_conflict =
     \<lparr> st_heads = [''r1'', ''r2''],
       st_revisions = [demo_revision ''r1'' [] (Set_anchor ''gr_a''), demo_revision ''r2'' [] (Set_anchor ''gr_b'')],
       st_outcome = Conflict \<rparr>"

lemma demo_resolves:
  "resolve_project_selection demo_texts demo_schemas demo_scope [demo_second, demo_first] = Inr demo_conflict"
  by code_simp

text \<open>C13. The state of a selection does not depend on the order in which its revisions arrived: every
  permutation of the input resolves to the same heads, revisions and outcome.\<close>

theorem selection_order_independent:
  assumes "schemas_ok sc" "canonical_texts_differ cr" "mset vs = mset vs'"
    and "resolve_project_selection cr sc scope vs = Inr st"
  shows "resolve_project_selection cr sc scope vs' = Inr st"
proof -
  obtain rs where rs: "emap (parse_revision sc) vs = Inr rs" "collectable scope rs" "indexes rs (collected rs)"
      "resolve_revisions (collected rs) = Inr st"
    using resolved_revisions[OF assms(2,4)] .
  obtain qs where qs: "emap (parse_revision sc) vs' = Inr qs" "mset qs = mset rs"
    using emap_mset[OF rs(1) assms(3)] by blast
  then have "collectable scope qs" "set rs = set qs"
    using collectable_mset rs(2) mset_eq_setD by metis+
  then have "resolve_revisions (collected qs) = Inr st"
    using resolve_revisions_unique[OF rs(3) collected_indexes] parsed_ids_ok[OF assms(1) rs(1)] rs(4) by blast
  then show ?thesis
    using resolve_project_selection_iff[OF assms(2)] qs(1) \<open>collectable scope qs\<close> by blast
qed

lemma selection_order_independent_witness:
  "resolve_project_selection demo_texts demo_schemas demo_scope [demo_first, demo_second] = Inr demo_conflict"
  by (rule selection_order_independent[OF demo_schemas_ok demo_texts_differ _ demo_resolves]) simp

text \<open>C14. Resolution succeeds exactly when every revision parses and is in scope, no two revisions
  share an id (and those sent twice can be canonicalised), and the revisions they replace form no causal
  cycle.\<close>

theorem selection_resolves_iff:
  assumes "canonical_texts_differ cr"
  shows "(\<exists>st. resolve_project_selection cr sc scope vs = Inr st) \<longleftrightarrow>
    (\<exists>rs. emap (parse_revision sc) vs = Inr rs \<and> collectable scope rs \<and> acyclic (replaces rs))"
proof -
  have "(\<exists>st. resolve_revisions (collected rs) = Inr st) \<longleftrightarrow> acyclic (replaces rs)" if "collectable scope rs" for rs
    using resolve_revisions_cases[OF collected_indexes[OF that]]
    by (cases "resolve_revisions (collected rs)") auto
  then show ?thesis using resolve_project_selection_iff[OF assms] by blast
qed

lemma selection_resolves_iff_witness:
  "(\<exists>st. resolve_project_selection demo_texts demo_schemas demo_scope [demo_merge, demo_merge] = Inr st) \<longleftrightarrow>
    (\<exists>rs. emap (parse_revision demo_schemas) [demo_merge, demo_merge] = Inr rs \<and> collectable demo_scope rs \<and>
       acyclic (replaces rs))"
  by (rule selection_resolves_iff[OF demo_texts_differ])

text \<open>C15. What the state means: its revisions are the ones sent, its heads the revisions nobody
  replaces, and its outcome is decided by them: incomplete with the missing revisions, absent only when
  there is no revision at all, the operation of a single head, and a conflict of several.\<close>

theorem selection_state_means:
  assumes "canonical_texts_differ cr" "resolve_project_selection cr sc scope vs = Inr st"
  shows "\<exists>rs. emap (parse_revision sc) vs = Inr rs \<and> set (st_revisions st) = set rs \<and>
    distinct (st_heads st) \<and> set (st_heads st) = head_ids rs \<and> settled rs st"
proof -
  obtain rs where rs: "emap (parse_revision sc) vs = Inr rs" "indexes rs (collected rs)"
      "resolve_revisions (collected rs) = Inr st"
    using resolved_revisions[OF assms] by blast
  have "set (ordered_revisions (collected rs)) = set rs"
    using indexed_revisions(1)[OF rs(2)] by (simp add: ordered_revisions_def)
  then show ?thesis using resolve_revisions_settled[OF rs(2,3)] rs(1) by metis
qed

lemma selection_state_means_witness:
  "\<exists>rs. emap (parse_revision demo_schemas) [demo_second, demo_first] = Inr rs \<and>
     set (st_revisions demo_conflict) = set rs \<and> distinct (st_heads demo_conflict) \<and>
     set (st_heads demo_conflict) = head_ids rs \<and> settled rs demo_conflict"
  by (rule selection_state_means[OF demo_texts_differ demo_resolves])

lemma replaces_snoc:
  "replaces (rs @ [r]) = replaces rs \<union> {pv_revisionId r} \<times> set (pv_replaces r)"
  by (auto simp: replaces_def)

lemma complete_parents: "missing_ids rs = {} \<Longrightarrow> Range (replaces rs) \<subseteq> pv_revisionId ` set rs"
  by (simp add: missing_ids_def)

lemma acyclic_merge:
  assumes "acyclic (replaces rs)" "missing_ids rs = {}" "pv_revisionId r \<notin> pv_revisionId ` set rs"
    and "set (pv_replaces r) \<subseteq> pv_revisionId ` set rs"
  shows "acyclic (replaces (rs @ [r]))"
proof -
  let ?r = "replaces (rs @ [r])" and ?V = "pv_revisionId ` set rs"
  have old: "?r \<inter> ?V \<times> UNIV = replaces rs"
  proof -
    define V where "V = ?V"
    have "Domain (replaces rs) \<subseteq> V" by (auto simp: replaces_def V_def)
    then show ?thesis using assms(3) by (auto simp: replaces_snoc simp flip: V_def)
  qed
  have "?r `` ?V \<subseteq> ?V" "?r `` {pv_revisionId r} \<subseteq> ?V"
    using complete_parents[OF assms(2)] assms(3,4) by (auto simp: replaces_snoc)
  then have "acyclic (?r \<inter> insert (pv_revisionId r) ?V \<times> UNIV)"
    using assms(1,3) old by (intro acyclic_new_source[where D = ?V]) auto
  moreover have "?r \<inter> insert (pv_revisionId r) ?V \<times> UNIV = ?r" by (auto simp: replaces_def)
  ultimately show ?thesis by simp
qed

lemma merge_heads:
  assumes "missing_ids rs = {}" "pv_revisionId r \<notin> pv_revisionId ` set rs" "set (pv_replaces r) = head_ids rs"
  shows "head_ids (rs @ [r]) = {pv_revisionId r}" "missing_ids (rs @ [r]) = {}"
proof -
  define V R where "V = pv_revisionId ` set rs" and "R = Range (replaces rs)"
  have range: "Range (replaces (rs @ [r])) = R \<union> (V - R)"
    using assms(3) by (auto simp: replaces_snoc Range_Un_eq head_ids_def V_def R_def)
  have V: "R \<subseteq> V" "pv_revisionId r \<notin> V"
    using complete_parents[OF assms(1)] assms(2) by (simp_all add: V_def R_def)
  have ids: "pv_revisionId ` set (rs @ [r]) = insert (pv_revisionId r) V" by (simp add: V_def)
  show "head_ids (rs @ [r]) = {pv_revisionId r}" "missing_ids (rs @ [r]) = {}"
    unfolding head_ids_def missing_ids_def range ids using V by blast+
qed

definition operation_outcome :: "project_operation \<Rightarrow> selection_outcome" where
  "operation_outcome op = (case op of Set_anchor a \<Rightarrow> Selected a | Delete_anchor \<Rightarrow> Deleted)"

lemma settled_single:
  assumes "settled rs st" "missing_ids rs = {}" "head_ids rs = {pv_revisionId r}" "r \<in> set rs"
    and "\<forall>q \<in> set rs. pv_revisionId q = pv_revisionId r \<longrightarrow> q = r"
  shows "st_outcome st = operation_outcome (pv_operation r)"
proof (cases "st_outcome st")
  case (Selected a)
  then obtain q where "q \<in> set rs" "head_ids rs = {pv_revisionId q}" "pv_operation q = Set_anchor a"
    using assms(1) by (auto simp: settled_def)
  then show ?thesis using assms(3,5) Selected by (auto simp: operation_outcome_def)
next
  case Deleted
  then obtain q where "q \<in> set rs" "head_ids rs = {pv_revisionId q}" "pv_operation q = Delete_anchor"
    using assms(1) by (auto simp: settled_def)
  then show ?thesis using assms(3,5) Deleted by (auto simp: operation_outcome_def)
qed (use assms in \<open>auto simp: settled_def\<close>)

text \<open>A merge settles the selection: from a complete history, a new revision with a fresh id that
  replaces exactly the heads it was made against becomes the only head and its operation the outcome,
  whatever conflict there was.\<close>

theorem merge_settles_selection:
  assumes "canonical_texts_differ cr" "resolve_project_selection cr sc scope vs = Inr st"
    and "\<nexists>ids. st_outcome st = Incomplete ids"
    and "parse_revision sc v = Inr r" "in_scope scope r" "pv_revisionId r \<notin> pv_revisionId ` set (st_revisions st)"
    and "set (pv_replaces r) = set (st_heads st)"
  shows "\<exists>st'. resolve_project_selection cr sc scope (vs @ [v]) = Inr st' \<and>
    st_heads st' = [pv_revisionId r] \<and> st_outcome st' = operation_outcome (pv_operation r)"
proof -
  obtain rs where rs: "emap (parse_revision sc) vs = Inr rs" "collectable scope rs" "indexes rs (collected rs)"
      "resolve_revisions (collected rs) = Inr st"
    using resolved_revisions[OF assms(1,2)] .
  note state = resolve_revisions_settled[OF rs(3,4)]
  have known: "set (st_revisions st) = set rs"
    using state(4) indexed_revisions(1)[OF rs(3)] by (simp add: ordered_revisions_def)
  have complete: "missing_ids rs = {}"
    using state(5) assms(3) by (cases "st_outcome st") (auto simp: settled_def)
  have fresh: "pv_revisionId r \<notin> pv_revisionId ` set rs" using assms(6) known by simp
  have heads: "set (pv_replaces r) = head_ids rs" using assms(7) state(2) by simp
  let ?qs = "rs @ [r]"
  have parsed: "emap (parse_revision sc) (vs @ [v]) = Inr ?qs"
    using rs(1) assms(4) by (simp add: emap_eq_Inr list_all2_appendI)
  have collect: "collectable scope ?qs"
  proof -
    have "\<forall>q \<in> set rs. pv_revisionId q \<noteq> pv_revisionId r" using fresh by (metis imageI)
    then show ?thesis unfolding collectable_snoc using rs(2) assms(5) by blast
  qed
  have "acyclic (replaces ?qs)"
    using acyclic_merge[OF state(1) complete fresh] heads by (auto simp: head_ids_def)
  then obtain st' where st': "resolve_revisions (collected ?qs) = Inr st'"
    using resolve_revisions_cases[OF collected_indexes[OF collect]] by (auto split: sum.splits)
  note merged = resolve_revisions_settled[OF collected_indexes[OF collect] st']
  note single = merge_heads[OF complete fresh heads]
  have "set (st_heads st') = {pv_revisionId r}" "distinct (st_heads st')" using merged(2,3) single(1) by simp_all
  then have "st_heads st' = [pv_revisionId r]"
    by (cases "st_heads st'" rule: remdups_adj.cases) auto
  moreover have "st_outcome st' = operation_outcome (pv_operation r)"
    using collect by (intro settled_single[OF merged(5) single(2,1)]) (auto simp: collectable_def)
  ultimately show ?thesis
    using resolve_project_selection_iff[OF assms(1)] parsed collect st' by blast
qed

lemma merge_settles_selection_witness:
  "\<exists>st'. resolve_project_selection demo_texts demo_schemas demo_scope ([demo_second, demo_first] @ [demo_merge]) = Inr st' \<and>
     st_heads st' = [''r3''] \<and> st_outcome st' = Deleted"
proof -
  let ?r = "demo_revision ''r3'' [''r2'', ''r1''] Delete_anchor"
  have r: "parse_revision demo_schemas demo_merge = Inr ?r" by code_simp
  have "in_scope demo_scope ?r" by code_simp
  from merge_settles_selection[OF demo_texts_differ demo_resolves _ r this]
  show ?thesis by (auto simp: demo_conflict_def demo_revision_def operation_outcome_def)
qed

end
