(* ===== verification/View_Cache.thy ===== *)
theory View_Cache
  imports Protocol_Fields "HOL-Library.AList"
begin

text \<open>
  The bounded caches of loaded views: \<^verbatim>\<open>PortableClientViewCache\<close> of
  \<^verbatim>\<open>packages/shared/src/client-foundation.ts\<close> and the selection views of
  \<^verbatim>\<open>CollaborationClientRuntime\<close> in \<^verbatim>\<open>packages/shared/src/collaboration-client-runtime.ts\<close>. Both
  keep a \<^verbatim>\<open>Map\<close> in insertion order, here an association list, and both evict what was touched
  longest ago; they differ in what they drop for its age. The locale \<open>view_cache\<close> is what their
  clients rely on, and both implementations are interpretations of it.
\<close>

section \<open>Evicting the least recently touched\<close>

record 'v cache_entry =
  ce_authorityGeneration :: int
  ce_loadedAt :: int
  ce_touchedAt :: int
  ce_value :: 'v

type_synonym 'v cache = "(string \<times> 'v cache_entry) list"

definition fresh_entry :: "int \<Rightarrow> int \<Rightarrow> 'v \<Rightarrow> 'v cache_entry" where
  "fresh_entry now generation v =
     \<lparr> ce_authorityGeneration = generation, ce_loadedAt = now, ce_touchedAt = now, ce_value = v \<rparr>"

definition delete_entries :: "'v cache \<Rightarrow> 'v cache \<Rightarrow> 'v cache" where
  "delete_entries oldest m = fold (\<lambda>(k, _). AList.delete k) oldest m"

abbreviation by_touch :: "'v cache \<Rightarrow> 'v cache" where
  "by_touch m \<equiv> sort_key (\<lambda>(_, e). ce_touchedAt e) m"

lemma delete_entries_filter: "delete_entries ks m = filter (\<lambda>(k, _). k \<notin> fst ` set ks) m"
  unfolding delete_entries_def
proof (induction ks arbitrary: m)
  case (Cons q ks)
  obtain k e where "q = (k, e)" by (cases q)
  then show ?case using Cons by (auto simp: AList.delete_eq filter_filter intro!: filter_cong)
qed simp

text \<open>What an eviction of the first \<open>n\<close> by touch leaves, and what it takes away.\<close>

lemma by_touch_split:
  assumes "distinct (map fst m)"
  shows "delete_entries (take n (by_touch m)) m = filter (\<lambda>q. q \<in> set (drop n (by_touch m))) m"
proof -
  let ?s = "by_touch m"
  have "distinct (map fst ?s)" using assms by (metis distinct_map distinct_sort set_sort)
  then have "fst ` set (take n ?s) \<inter> fst ` set (drop n ?s) = {}"
    by (metis append_take_drop_id distinct_append map_append set_map)
  note apart = this
  have all: "set m = set (take n ?s) \<union> set (drop n ?s)" by (metis append_take_drop_id set_append set_sort)
  have "k \<notin> fst ` set (take n ?s) \<longleftrightarrow> (k, e) \<in> set (drop n ?s)" if "(k, e) \<in> set m" for k e
  proof (cases "(k, e) \<in> set (drop n ?s)")
    case True
    then have "k \<in> fst ` set (drop n ?s)" by (rule image_eqI[rotated]) simp
    then show ?thesis using True apart by blast
  next
    case False
    then have "(k, e) \<in> set (take n ?s)" using that all by blast
    then have "k \<in> fst ` set (take n ?s)" by (rule image_eqI[rotated]) simp
    then show ?thesis using False by blast
  qed
  then show ?thesis unfolding delete_entries_filter by (intro filter_cong) auto
qed

lemma evicted_length:
  assumes "distinct (map fst m)"
  shows "length (delete_entries (take n (by_touch m)) m) = length m - n"
proof -
  have d: "distinct m" "distinct (drop n (by_touch m))" using assms by (auto simp: distinct_map)
  have "set (filter (\<lambda>q. q \<in> set (drop n (by_touch m))) m) = set (drop n (by_touch m))"
    using set_drop_subset[of n "by_touch m"] by auto
  then have "length (filter (\<lambda>q. q \<in> set (drop n (by_touch m))) m) = length (drop n (by_touch m))"
    using d by (metis distinct_card distinct_filter)
  then show ?thesis by (simp add: by_touch_split[OF assms])
qed

lemma evicted_is_oldest:
  assumes "distinct (map fst m)" "(k, e) \<in> set m" "(k, e) \<notin> set (delete_entries (take n (by_touch m)) m)"
  shows "length m - n \<le> card {k'. k' \<noteq> k \<and> (\<exists>e'. (k', e') \<in> set m \<and> ce_touchedAt e \<le> ce_touchedAt e')}"
    (is "_ \<le> card ?later")
proof -
  let ?s = "by_touch m"
  have out: "(k, e) \<notin> set (drop n ?s)" using assms by (simp add: by_touch_split)
  then have "(k, e) \<in> set (take n ?s)"
    using assms(2) by (metis Un_iff append_take_drop_id set_append set_sort)
  moreover have "sorted (map (\<lambda>(_, e). ce_touchedAt e) (take n ?s @ drop n ?s))" by simp
  ultimately have le: "\<forall>(k', e') \<in> set (drop n ?s). ce_touchedAt e \<le> ce_touchedAt e'"
    unfolding map_append sorted_append by fastforce
  have dist: "distinct (map fst ?s)" using assms(1) by (metis distinct_map distinct_sort set_sort)
  have "fst ` set (drop n ?s) \<subseteq> ?later"
  proof
    fix k' assume "k' \<in> fst ` set (drop n ?s)"
    then obtain e' where d: "(k', e') \<in> set (drop n ?s)" by auto
    then have m: "(k', e') \<in> set m" by (metis in_set_dropD set_sort)
    then have "k' \<noteq> k" using d out assms(1,2) eq_key_imp_eq_value by metis
    then show "k' \<in> ?later" using d m le by auto
  qed
  moreover have "finite ?later" by (rule finite_subset[of _ "fst ` set m"]) force+
  moreover have "card (fst ` set (drop n ?s)) = length (drop n ?s)"
    using dist by (metis distinct_card distinct_drop drop_map length_map set_map)
  ultimately show ?thesis using card_mono[of ?later "fst ` set (drop n ?s)"] by simp
qed

section \<open>The cache of the portable client\<close>

record cache_policy =
  cp_maximumEntries :: int
  cp_retentionMs :: int

definition cache_policy_ok :: "cache_policy \<Rightarrow> bool" where
  "cache_policy_ok p \<longleftrightarrow> int_in 1 (cp_maximumEntries p) \<and> int_in 1 (cp_retentionMs p)"

text \<open>The constructor's check of its options, of either class.\<close>

definition cache_policy_of :: "string \<Rightarrow> js_value \<Rightarrow> js_value \<Rightarrow> cache_policy result" where
  "cache_policy_of message maximumEntries retentionMs =
     (case (safe_integer 1 maximumEntries, safe_integer 1 retentionMs) of
        (Some n, Some r) \<Rightarrow> Inr \<lparr> cp_maximumEntries = n, cp_retentionMs = r \<rparr>
      | _ \<Rightarrow> Inl (TypeError message))"

definition portable_prune :: "cache_policy \<Rightarrow> int \<Rightarrow> 'v cache \<Rightarrow> 'v cache" where
  "portable_prune p now m =
     (let alive = filter (\<lambda>(_, e). \<not> cp_retentionMs p < now - ce_loadedAt e) m;
          excess = int (length alive) - cp_maximumEntries p
      in if excess \<le> 0 then alive else delete_entries (take (nat excess) (by_touch alive)) alive)"

definition portable_remember :: "cache_policy \<Rightarrow> int \<Rightarrow> string \<Rightarrow> int \<Rightarrow> 'v \<Rightarrow> 'v cache \<Rightarrow> 'v cache" where
  "portable_remember p now k generation v m =
     portable_prune p now (AList.update k (fresh_entry now generation v) m)"

definition portable_read :: "cache_policy \<Rightarrow> int \<Rightarrow> string \<Rightarrow> int \<Rightarrow> 'v cache \<Rightarrow> 'v option \<times> 'v cache" where
  "portable_read p now k generation m =
     (case map_of m k of
        None \<Rightarrow> (None, AList.delete k m)
      | Some e \<Rightarrow>
          if ce_authorityGeneration e \<noteq> generation \<or> cp_retentionMs p < now - ce_loadedAt e
          then (None, AList.delete k m)
          else (Some (ce_value e), AList.update k (e \<lparr> ce_touchedAt := now \<rparr>) m))"

section \<open>The selection views of the collaboration client\<close>

text \<open>The second loop of \<^verbatim>\<open>#pruneSelectionViews\<close>.\<close>

fun evict_until :: "int \<Rightarrow> 'v cache \<Rightarrow> 'v cache \<Rightarrow> 'v cache" where
  "evict_until limit [] m = m"
| "evict_until limit ((k, e) # oldest) m =
     (if int (length m) \<le> limit then m else evict_until limit oldest (AList.delete k m))"

definition selection_prune :: "cache_policy \<Rightarrow> int \<Rightarrow> 'v cache \<Rightarrow> 'v cache" where
  "selection_prune p now m =
     (let alive = filter (\<lambda>(_, e). \<not> cp_retentionMs p < now - ce_touchedAt e) m in
      if int (length alive) \<le> cp_maximumEntries p then alive
      else evict_until (cp_maximumEntries p) (by_touch alive) alive)"

definition selection_remember :: "cache_policy \<Rightarrow> int \<Rightarrow> string \<Rightarrow> int \<Rightarrow> 'v \<Rightarrow> 'v cache \<Rightarrow> 'v cache" where
  "selection_remember p now k generation v m =
     selection_prune p now (AList.update k (fresh_entry now generation v) m)"

definition selection_read :: "cache_policy \<Rightarrow> int \<Rightarrow> string \<Rightarrow> int \<Rightarrow> 'v cache \<Rightarrow> 'v option \<times> 'v cache" where
  "selection_read p now k generation m =
     (case map_of m k of
        None \<Rightarrow> (None, AList.delete k m)
      | Some e \<Rightarrow>
          if ce_authorityGeneration e \<noteq> generation \<or> cp_retentionMs p < now - ce_loadedAt e
          then (None, AList.delete k m)
          else (Some (ce_value e), AList.update k (e \<lparr> ce_touchedAt := now \<rparr>) m))"

text \<open>Evicting one by one until the limit is met is evicting the excess at once.\<close>

lemma delete_keys_set: "fst ` set (AList.delete k m) = fst ` set m - {k}"
proof -
  have "set (map fst (AList.delete k m)) = set (removeAll k (map fst m))" by (simp only: AList.delete_keys)
  then show ?thesis by simp
qed

lemma length_delete:
  assumes "distinct (map fst m)" "k \<in> fst ` set m"
  shows "length (AList.delete k m) = length m - 1"
proof -
  have "map fst (AList.delete k m) = remove1 k (map fst m)"
    using assms(1) by (simp add: AList.delete_keys distinct_remove1_removeAll)
  then have "length (map fst (AList.delete k m)) = length (remove1 k (map fst m))" by simp
  then show ?thesis using assms(2) by (simp add: length_remove1)
qed

lemma evict_until_delete:
  assumes "distinct (map fst m)" "distinct (map fst es)" "fst ` set es \<subseteq> fst ` set m" "0 \<le> limit"
    and "length m \<le> nat limit + length es"
  shows "evict_until limit es m = delete_entries (take (length m - nat limit) es) m"
  using assms
proof (induction limit es m rule: evict_until.induct)
  case (1 limit m)
  then show ?case by (simp add: delete_entries_def)
next
  case (2 limit k e oldest m)
  show ?case
  proof (cases "int (length m) \<le> limit")
    case True
    then have "length m - nat limit = 0" by simp
    then show ?thesis using True by (simp add: delete_entries_def)
  next
    case False
    let ?m = "AList.delete k m"
    have keys: "insert k (fst ` set oldest) \<subseteq> fst ` set m" "k \<notin> fst ` set oldest" using 2(3,4) by simp_all
    then have k: "k \<in> fst ` set m" by blast
    have len: "length ?m = length m - 1" by (rule length_delete[OF 2(2) k])
    have "fst ` set oldest \<subseteq> fst ` set ?m"
      unfolding delete_keys_set using keys by blast
    moreover have "distinct (map fst ?m)" using 2(2) by (simp add: AList.distinct_delete)
    moreover have "length ?m \<le> nat limit + length oldest" using 2(6) len by simp
    ultimately have "evict_until limit oldest ?m = delete_entries (take (length ?m - nat limit) oldest) ?m"
      using 2(1)[OF False] 2(3,5) by simp
    moreover have "length m - nat limit = Suc (length ?m - nat limit)" using len False 2(5) by linarith
    ultimately show ?thesis using False by (simp add: delete_entries_def)
  qed
qed

section \<open>What a client relies on\<close>

locale view_cache =
  fixes remember :: "int \<Rightarrow> string \<Rightarrow> int \<Rightarrow> 'v \<Rightarrow> 'v cache \<Rightarrow> 'v cache"
    and read :: "int \<Rightarrow> string \<Rightarrow> int \<Rightarrow> 'v cache \<Rightarrow> 'v option \<times> 'v cache"
    and limit retention :: int
  assumes remember_keys: "distinct (map fst m) \<Longrightarrow> distinct (map fst (remember now k g v m))"
    and remember_bound: "0 \<le> limit \<Longrightarrow> distinct (map fst m) \<Longrightarrow> int (length (remember now k g v m)) \<le> limit"
    and remember_sub: "distinct (map fst m) \<Longrightarrow>
      map_of (remember now k g v m) \<subseteq>\<^sub>m (map_of m)(k \<mapsto> fresh_entry now g v)"
    and remember_keeps: "distinct (map fst m) \<Longrightarrow> ((map_of m)(k \<mapsto> fresh_entry now g v)) k' = Some e \<Longrightarrow>
      map_of (remember now k g v m) k' = None \<Longrightarrow>
      retention < now - ce_loadedAt e \<or> retention < now - ce_touchedAt e \<or>
      limit \<le> int (card {q. q \<noteq> k' \<and> (\<exists>e'. ((map_of m)(k \<mapsto> fresh_entry now g v)) q = Some e' \<and>
        ce_touchedAt e \<le> ce_touchedAt e')})"
    and read_value: "fst (read now k g m) = Some v \<longleftrightarrow>
      (\<exists>e. map_of m k = Some e \<and> ce_authorityGeneration e = g \<and> now - ce_loadedAt e \<le> retention \<and> ce_value e = v)"
    and read_keys: "distinct (map fst m) \<Longrightarrow> distinct (map fst (snd (read now k g m)))"
    and read_hit: "distinct (map fst m) \<Longrightarrow> map_of m k = Some e \<Longrightarrow> ce_authorityGeneration e = g \<Longrightarrow>
      now - ce_loadedAt e \<le> retention \<Longrightarrow> map_of (snd (read now k g m)) k = Some (e \<lparr> ce_touchedAt := now \<rparr>)"
    and read_other: "distinct (map fst m) \<Longrightarrow> k' \<noteq> k \<Longrightarrow> map_of (snd (read now k g m)) k' = map_of m k'"
    and read_bound: "length (snd (read now k g m)) \<le> length m"
    and read_entry: "map_of (snd (read now k g m)) k' = Some e \<Longrightarrow>
      \<exists>e0. map_of m k' = Some e0 \<and> e = (if k' = k then e0 \<lparr> ce_touchedAt := now \<rparr> else e0)"

text \<open>The operations of a client on a cache: remembering, reading and dropping the entries of which some
  condition holds.\<close>

datatype 'v cache_op =
    Remember int string int 'v
  | Read int string int
  | Drop "string \<Rightarrow> 'v cache_entry \<Rightarrow> bool"

definition drop_views :: "(string \<Rightarrow> 'v cache_entry \<Rightarrow> bool) \<Rightarrow> 'v cache \<Rightarrow> 'v cache" where
  "drop_views P m = filter (\<lambda>(k, e). \<not> P k e) m"

fun do_cache_op ::
  "(int \<Rightarrow> string \<Rightarrow> int \<Rightarrow> 'v \<Rightarrow> 'v cache \<Rightarrow> 'v cache) \<Rightarrow>
   (int \<Rightarrow> string \<Rightarrow> int \<Rightarrow> 'v cache \<Rightarrow> 'v option \<times> 'v cache) \<Rightarrow> 'v cache_op \<Rightarrow> 'v cache \<Rightarrow> 'v cache" where
  "do_cache_op remember read (Remember now k g v) m = remember now k g v m"
| "do_cache_op remember read (Read now k g) m = snd (read now k g m)"
| "do_cache_op remember read (Drop P) m = drop_views P m"

abbreviation cache_run ::
  "(int \<Rightarrow> string \<Rightarrow> int \<Rightarrow> 'v \<Rightarrow> 'v cache \<Rightarrow> 'v cache) \<Rightarrow>
   (int \<Rightarrow> string \<Rightarrow> int \<Rightarrow> 'v cache \<Rightarrow> 'v option \<times> 'v cache) \<Rightarrow> 'v cache_op list \<Rightarrow> 'v cache" where
  "cache_run remember read ops \<equiv> fold (do_cache_op remember read) ops []"

lemma option_eqI: "(\<And>e. x = Some e \<longleftrightarrow> y = Some e) \<Longrightarrow> x = y"
  by (metis not_None_eq)

lemma drop_views_keys: "distinct (map fst m) \<Longrightarrow> distinct (map fst (drop_views P m))"
  by (simp add: drop_views_def distinct_map_filter)

lemma map_of_drop_views:
  assumes "distinct (map fst m)"
  shows "map_of (drop_views P m) k = (case map_of m k of None \<Rightarrow> None | Some e \<Rightarrow> if P k e then None else Some e)"
proof -
  have "map_of (drop_views P m) k = Some e \<longleftrightarrow> map_of m k = Some e \<and> \<not> P k e" for e
    unfolding map_of_eq_Some_iff[OF assms] map_of_eq_Some_iff[OF drop_views_keys[OF assms]]
    by (auto simp: drop_views_def)
  then have "map_of (drop_views P m) k = Some e \<longleftrightarrow>
      (case map_of m k of None \<Rightarrow> None | Some e \<Rightarrow> if P k e then None else Some e) = Some e" for e
    by (cases "map_of m k") auto
  then show ?thesis by (rule option_eqI)
qed

lemma drop_views_length: "length (drop_views P m) \<le> length m"
  by (simp add: drop_views_def)

lemma map_leD: "f \<subseteq>\<^sub>m g \<Longrightarrow> f x = Some y \<Longrightarrow> g x = Some y"
  by (auto simp: map_le_def dom_def)

text \<open>Whether an operation leaves a view \<open>v\<close> under \<open>k\<close> alone, loaded at \<open>t\<close> for the generation \<open>g\<close>.\<close>

definition leaves_view :: "int \<Rightarrow> string \<Rightarrow> int \<Rightarrow> 'v \<Rightarrow> 'v cache_op \<Rightarrow> bool" where
  "leaves_view t k g v op =
     (case op of
        Remember _ k' _ _ \<Rightarrow> k' \<noteq> k
      | Read _ _ _ \<Rightarrow> True
      | Drop P \<Rightarrow> \<exists>touched. \<not> P k (fresh_entry t g v \<lparr> ce_touchedAt := touched \<rparr>))"

lemma leaves_view_simps [simp]:
  "leaves_view t k g v (Remember now k' h w) \<longleftrightarrow> k' \<noteq> k" "leaves_view t k g v (Read now k' h)"
  "leaves_view t k g v (Drop P) \<longleftrightarrow> (\<exists>touched. \<not> P k (fresh_entry t g v \<lparr> ce_touchedAt := touched \<rparr>))"
  by (simp_all add: leaves_view_def)

text \<open>The key an operation touches, and when; an operation under which a view stays, and one that touches
  another view later.\<close>

definition touched_by :: "'v cache_op \<Rightarrow> (string \<times> int) option" where
  "touched_by op =
     (case op of
        Remember now k _ _ \<Rightarrow> Some (k, now)
      | Read now k _ \<Rightarrow> Some (k, now)
      | Drop _ \<Rightarrow> None)"

lemma touched_by_simps [simp]:
  "touched_by (Remember now k g v) = Some (k, now)" "touched_by (Read now k g) = Some (k, now)"
  "touched_by (Drop P) = None"
  by (simp_all add: touched_by_def)

definition touches_since :: "int \<Rightarrow> string \<Rightarrow> 'v cache_op \<Rightarrow> bool" where
  "touches_since t q op \<longleftrightarrow> (\<exists>now. touched_by op = Some (q, now) \<and> t \<le> now)"

lemma finite_touched: "finite {q. q \<noteq> k \<and> (\<exists>op \<in> set ops. touches_since t q op)}"
proof (rule finite_subset)
  show "{q. q \<noteq> k \<and> (\<exists>op \<in> set ops. touches_since t q op)} \<subseteq> (fst \<circ> the \<circ> touched_by) ` set ops"
    by (force simp: touches_since_def image_iff)
qed simp

lemma touched_mono:
  "set ops \<subseteq> set ops' \<Longrightarrow> card {q. q \<noteq> k \<and> (\<exists>op \<in> set ops. touches_since t q op)}
     \<le> card {q. q \<noteq> k \<and> (\<exists>op \<in> set ops'. touches_since t q op)}"
  by (rule card_mono[OF finite_touched]) blast

definition keeps_view :: "int \<Rightarrow> int \<Rightarrow> string \<Rightarrow> int \<Rightarrow> 'v \<Rightarrow> 'v cache_op \<Rightarrow> bool" where
  "keeps_view t retention k g v op =
     (case op of
        Remember now k' _ _ \<Rightarrow> k' \<noteq> k \<and> t \<le> now \<and> now - t \<le> retention
      | Read now k' h \<Rightarrow> k' = k \<longrightarrow> h = g \<and> t \<le> now \<and> now - t \<le> retention
      | Drop P \<Rightarrow> \<forall>touched. \<not> P k (fresh_entry t g v \<lparr> ce_touchedAt := touched \<rparr>))"

context view_cache
begin

lemma run_keys: "distinct (map fst (cache_run remember read ops))"
proof (induction ops rule: rev_induct)
  case (snoc op ops)
  then show ?case by (cases op) (simp_all add: remember_keys read_keys drop_views_keys)
qed simp

text \<open>The cache never grows past its limit.\<close>

lemma run_bound:
  assumes "0 \<le> limit"
  shows "int (length (cache_run remember read ops)) \<le> limit"
proof (induction ops rule: rev_induct)
  case (snoc op ops)
  let ?m = "cache_run remember read ops"
  show ?case
  proof (cases op)
    case (Remember now k g v)
    then show ?thesis using remember_bound[OF assms run_keys] by simp
  next
    case (Read now k g)
    then show ?thesis using read_bound[of now k g ?m] snoc by simp
  next
    case (Drop P)
    then show ?thesis using drop_views_length[of P ?m] snoc by simp
  qed
qed (simp add: assms)

text \<open>An entry was remembered at its load time, and nothing after that replaced or dropped it.\<close>

lemma run_entry:
  "map_of (cache_run remember read ops) k = Some e \<Longrightarrow>
   \<exists>before later. ops = before @ Remember (ce_loadedAt e) k (ce_authorityGeneration e) (ce_value e) # later \<and>
     list_all (leaves_view (ce_loadedAt e) k (ce_authorityGeneration e) (ce_value e)) later"
proof (induction ops arbitrary: e rule: rev_induct)
  case (snoc op ops)
  let ?m = "cache_run remember read ops"
  let ?l = "\<lambda>e :: 'v cache_entry. leaves_view (ce_loadedAt e) k (ce_authorityGeneration e) (ce_value e)"
  have extend: "\<exists>before later. ops @ [op] = before @ Remember (ce_loadedAt e) k (ce_authorityGeneration e) (ce_value e) # later \<and>
      list_all (?l e) later"
    if old: "map_of ?m k = Some e0" "ce_loadedAt e0 = ce_loadedAt e" "ce_value e0 = ce_value e"
      "ce_authorityGeneration e0 = ce_authorityGeneration e" "?l e op" for e0
  proof -
    obtain before later where "ops = before @ Remember (ce_loadedAt e) k (ce_authorityGeneration e) (ce_value e) # later"
        "list_all (?l e) later"
      using snoc.IH[OF old(1)] old(2-4) by auto
    then have "ops @ [op] = before @ Remember (ce_loadedAt e) k (ce_authorityGeneration e) (ce_value e) # (later @ [op])"
        "list_all (?l e) (later @ [op])"
      using old(5) by simp_all
    then show ?thesis by blast
  qed
  show ?case
  proof (cases op)
    case (Remember now k' g v)
    then have upd: "((map_of ?m)(k' \<mapsto> fresh_entry now g v)) k = Some e"
      using snoc.prems map_leD[OF remember_sub[OF run_keys]] by simp
    show ?thesis
    proof (cases "k' = k")
      case True
      then have "e = fresh_entry now g v" using upd by simp
      then show ?thesis using Remember True by (force simp: fresh_entry_def)
    next
      case False
      then have "map_of ?m k = Some e" using upd by simp
      then show ?thesis using extend False Remember by simp
    qed
  next
    case (Read now k' g)
    then obtain e0 where "map_of ?m k = Some e0" "e = (if k = k' then e0 \<lparr> ce_touchedAt := now \<rparr> else e0)"
      using read_entry snoc.prems by fastforce
    then show ?thesis using extend[of e0] Read by auto
  next
    case (Drop P)
    then have e: "map_of ?m k = Some e" "\<not> P k e"
      using snoc.prems map_of_drop_views[OF run_keys, of P ops k] by (auto split: option.splits if_splits)
    have "fresh_entry (ce_loadedAt e) (ce_authorityGeneration e) (ce_value e) \<lparr> ce_touchedAt := ce_touchedAt e \<rparr> = e"
      by (cases e) (simp add: fresh_entry_def)
    then have "?l e op" using e(2) Drop by (auto intro!: exI[of _ "ce_touchedAt e"])
    then show ?thesis using extend[OF e(1)] by blast
  qed
qed simp

text \<open>A read gives a view only if it was remembered for that generation, no longer ago than the
  retention, and neither replaced nor dropped since.\<close>

lemma read_is_fresh:
  assumes "fst (read now k g (cache_run remember read ops)) = Some v"
  shows "\<exists>t before later. ops = before @ Remember t k g v # later \<and> now - t \<le> retention \<and>
    list_all (leaves_view t k g v) later"
proof -
  obtain e where "map_of (cache_run remember read ops) k = Some e" "ce_authorityGeneration e = g"
      "now - ce_loadedAt e \<le> retention" "ce_value e = v"
    using assms unfolding read_value by blast
  then show ?thesis using run_entry by blast
qed

text \<open>Every entry was last touched by an operation on its key.\<close>

lemma run_touched:
  "map_of (cache_run remember read ops) q = Some e \<Longrightarrow>
   \<exists>op \<in> set ops. touched_by op = Some (q, ce_touchedAt e)"
proof (induction ops arbitrary: e rule: rev_induct)
  case (snoc op ops)
  let ?m = "cache_run remember read ops"
  show ?case
  proof (cases op)
    case (Remember now k g v)
    then have "((map_of ?m)(k \<mapsto> fresh_entry now g v)) q = Some e"
      using snoc.prems map_leD[OF remember_sub[OF run_keys]] by simp
    then show ?thesis using snoc.IH Remember by (auto simp: fresh_entry_def split: if_splits)
  next
    case (Read now k g)
    then obtain e0 where "map_of ?m q = Some e0" "e = (if q = k then e0 \<lparr> ce_touchedAt := now \<rparr> else e0)"
      using read_entry snoc.prems by fastforce
    then show ?thesis using snoc.IH[of e0] Read by (auto split: if_splits)
  next
    case (Drop P)
    then have "map_of ?m q = Some e"
      using snoc.prems map_of_drop_views[OF run_keys, of P ops q] by (auto split: option.splits if_splits)
    then show ?thesis using snoc.IH by auto
  qed
qed simp

text \<open>A view stays readable while the clock is within its retention, nothing replaces or drops it, and
  fewer than \<open>limit\<close> other views are touched at its load time or later.\<close>

lemma run_keeps:
  assumes "int (card {q. q \<noteq> k \<and> (\<exists>op \<in> set (before @ Remember t k g v # later). touches_since t q op)}) < limit"
    and "list_all (keeps_view t retention k g v) later" and "0 \<le> retention"
  shows "\<exists>e. map_of (cache_run remember read (before @ Remember t k g v # later)) k = Some e \<and>
    ce_authorityGeneration e = g \<and> ce_loadedAt e = t \<and> ce_value e = v \<and> t \<le> ce_touchedAt e"
  using assms(1,2)
proof (induction later rule: rev_induct)
  case Nil
  let ?m = "cache_run remember read before" and ?e = "fresh_entry t g v"
  let ?later = "{q. q \<noteq> k \<and> (\<exists>e'. ((map_of ?m)(k \<mapsto> ?e)) q = Some e' \<and> ce_touchedAt ?e \<le> ce_touchedAt e')}"
  have "\<exists>op \<in> set (before @ [Remember t k g v]). touches_since t q op" if "q \<in> ?later" for q
    using that run_touched[of before q] by (fastforce simp: fresh_entry_def touches_since_def)
  then have "?later \<subseteq> {q. q \<noteq> k \<and> (\<exists>op \<in> set (before @ [Remember t k g v]). touches_since t q op)}"
    by blast
  then have "card ?later \<le> card {q. q \<noteq> k \<and> (\<exists>op \<in> set (before @ [Remember t k g v]). touches_since t q op)}"
    by (rule card_mono[OF finite_touched])
  then have "map_of (remember t k g v ?m) k \<noteq> None"
    using remember_keeps[OF run_keys, of before k t g v k ?e] Nil(1) assms(3) by (auto simp: fresh_entry_def)
  then obtain e where "map_of (remember t k g v ?m) k = Some e" by blast
  moreover from this have "e = ?e" using map_leD[OF remember_sub[OF run_keys]] by fastforce
  ultimately show ?case by (simp add: fresh_entry_def)
next
  case (snoc op later)
  let ?ops = "before @ Remember t k g v # later"
  let ?m = "cache_run remember read ?ops"
  let ?touched = "{q. q \<noteq> k \<and> (\<exists>op \<in> set (before @ Remember t k g v # later @ [op]). touches_since t q op)}"
  have "card {q. q \<noteq> k \<and> (\<exists>op \<in> set ?ops. touches_since t q op)} \<le> card ?touched"
    by (rule touched_mono) auto
  then obtain e where e: "map_of ?m k = Some e" "ce_authorityGeneration e = g" "ce_loadedAt e = t" "ce_value e = v"
      "t \<le> ce_touchedAt e"
    using snoc by fastforce
  have step: "cache_run remember read (before @ Remember t k g v # later @ [op]) = do_cache_op remember read op ?m"
    by simp
  have keeps: "keeps_view t retention k g v op" using snoc.prems(2) by simp
  show ?case
  proof (cases op)
    case (Remember now q h w)
    then have q: "q \<noteq> k" "t \<le> now" "now - t \<le> retention" using keeps by (simp_all add: keeps_view_def)
    let ?n = "(map_of ?m)(q \<mapsto> fresh_entry now h w)"
    let ?later = "{q'. q' \<noteq> k \<and> (\<exists>e'. ?n q' = Some e' \<and> ce_touchedAt e \<le> ce_touchedAt e')}"
    have "q' \<in> ?touched" if later: "q' \<in> ?later" for q'
    proof (cases "q' = q")
      case True
      then show ?thesis using q Remember by (auto simp: touches_since_def)
    next
      case False
      then obtain e' where "map_of ?m q' = Some e'" "t \<le> ce_touchedAt e'" using later e(5) by auto
      then show ?thesis using later run_touched[of ?ops q' e'] by (fastforce simp: touches_since_def)
    qed
    then have "?later \<subseteq> ?touched" by blast
    then have "card ?later \<le> card ?touched" by (rule card_mono[OF finite_touched])
    then have "map_of (remember now q h w ?m) k \<noteq> None"
      using remember_keeps[OF run_keys, of ?ops q now h w k e] e q snoc.prems(1) by auto
    then obtain e' where e': "map_of (remember now q h w ?m) k = Some e'" by blast
    then have "e' = e" using map_leD[OF remember_sub[OF run_keys] e'] e(1) q(1) by simp
    then show ?thesis using step Remember e e' by simp
  next
    case (Read now q h)
    show ?thesis
    proof (cases "q = k")
      case True
      then have "h = g" "t \<le> now" "now - t \<le> retention" using keeps Read by (simp_all add: keeps_view_def)
      then show ?thesis using read_hit[OF run_keys e(1)] e step Read True by simp
    next
      case False
      then have "map_of (snd (read now q h ?m)) k = map_of ?m k" by (intro read_other run_keys) simp
      then show ?thesis using e step Read by simp
    qed
  next
    case (Drop P)
    have "fresh_entry t g v \<lparr> ce_touchedAt := ce_touchedAt e \<rparr> = e"
      using e by (cases e) (simp add: fresh_entry_def)
    then have "\<not> P k e" using keeps Drop by (auto simp: keeps_view_def dest: spec[of _ "ce_touchedAt e"])
    then show ?thesis using e step Drop map_of_drop_views[OF run_keys, of P ?ops k] by simp
  qed
qed

lemma view_stays_readable:
  assumes "int (card {q. q \<noteq> k \<and> (\<exists>op \<in> set (before @ Remember t k g v # later). touches_since t q op)}) < limit"
    and "list_all (keeps_view t retention k g v) later" and "0 \<le> retention" and "now - t \<le> retention"
  shows "fst (read now k g (cache_run remember read (before @ Remember t k g v # later))) = Some v"
  unfolding read_value using run_keeps[OF assms(1-3)] assms(4) by auto

end

section \<open>Both caches keep to it\<close>

text \<open>What both prune functions do: drop the expired, then the excess by touch.\<close>

definition evict_excess :: "int \<Rightarrow> 'v cache \<Rightarrow> 'v cache" where
  "evict_excess limit m = delete_entries (take (nat (int (length m) - limit)) (by_touch m)) m"

definition unexpired :: "int \<Rightarrow> int \<Rightarrow> ('v cache_entry \<Rightarrow> int) \<Rightarrow> 'v cache \<Rightarrow> 'v cache" where
  "unexpired retention now stamp m = filter (\<lambda>(_, e). \<not> retention < now - stamp e) m"

lemma evict_until_negative: "limit < 0 \<Longrightarrow> evict_until limit es m = delete_entries es m"
  by (induction limit es m rule: evict_until.induct) (simp_all add: delete_entries_def)

lemma evict_until_excess:
  assumes "distinct (map fst m)"
  shows "evict_until limit (by_touch m) m = evict_excess limit m"
proof (cases "0 \<le> limit")
  case True
  have "distinct (map fst (by_touch m))" using assms by (metis distinct_map distinct_sort set_sort)
  then show ?thesis
    using evict_until_delete[OF assms _ _ True, of "by_touch m"] True
    by (simp add: evict_excess_def nat_diff_distrib')
next
  case False
  then show ?thesis by (simp add: evict_until_negative evict_excess_def)
qed

lemma unexpired_keys: "distinct (map fst m) \<Longrightarrow> distinct (map fst (unexpired retention now stamp m))"
  by (simp add: unexpired_def distinct_map_filter)

lemma portable_prune_excess:
  "portable_prune p now m = evict_excess (cp_maximumEntries p) (unexpired (cp_retentionMs p) now ce_loadedAt m)"
  by (simp add: portable_prune_def evict_excess_def unexpired_def Let_def delete_entries_def)

lemma selection_prune_excess:
  assumes "distinct (map fst m)"
  shows "selection_prune p now m =
    evict_excess (cp_maximumEntries p) (unexpired (cp_retentionMs p) now ce_touchedAt m)"
  using evict_until_excess[OF unexpired_keys[OF assms]]
  by (simp add: selection_prune_def unexpired_def Let_def) (simp add: evict_excess_def delete_entries_def)

lemma evict_excess_keys: "distinct (map fst m) \<Longrightarrow> distinct (map fst (evict_excess limit m))"
  by (simp add: evict_excess_def by_touch_split distinct_map_filter)

lemma evict_excess_bound:
  "0 \<le> limit \<Longrightarrow> distinct (map fst m) \<Longrightarrow> int (length (evict_excess limit m)) \<le> limit"
  by (simp add: evict_excess_def evicted_length)

lemma evict_unexpired_entry:
  assumes "distinct (map fst m)"
    and "map_of (evict_excess limit (unexpired retention now stamp m)) k = Some e"
  shows "map_of m k = Some e"
proof -
  have "(k, e) \<in> set (evict_excess limit (unexpired retention now stamp m))" using assms(2) by (rule map_of_SomeD)
  then have "(k, e) \<in> set m"
    by (simp add: evict_excess_def by_touch_split[OF unexpired_keys[OF assms(1)]]) (simp add: unexpired_def)
  then show ?thesis using assms(1) by simp
qed

lemma evict_unexpired_keeps:
  assumes "distinct (map fst m)" "map_of m k = Some e"
    and "map_of (evict_excess limit (unexpired retention now stamp m)) k = None"
  shows "retention < now - stamp e \<or>
    limit \<le> int (card {q. q \<noteq> k \<and> (\<exists>e'. map_of m q = Some e' \<and> ce_touchedAt e \<le> ce_touchedAt e')})"
proof (cases "retention < now - stamp e")
  case False
  let ?u = "unexpired retention now stamp m"
  have "(k, e) \<in> set ?u" using map_of_SomeD[OF assms(2)] False by (simp add: unexpired_def)
  moreover have "(k, e) \<notin> set (evict_excess limit ?u)" using assms(3) by (force simp: map_of_eq_None_iff)
  ultimately have "length ?u - nat (int (length ?u) - limit) \<le>
      card {q. q \<noteq> k \<and> (\<exists>e'. (q, e') \<in> set ?u \<and> ce_touchedAt e \<le> ce_touchedAt e')}"
    using evicted_is_oldest[OF unexpired_keys[OF assms(1)]] unfolding evict_excess_def by blast
  also have "\<dots> \<le> card {q. q \<noteq> k \<and> (\<exists>e'. map_of m q = Some e' \<and> ce_touchedAt e \<le> ce_touchedAt e')}"
  proof (rule card_mono)
    show "finite {q. q \<noteq> k \<and> (\<exists>e'. map_of m q = Some e' \<and> ce_touchedAt e \<le> ce_touchedAt e')}"
      by (rule finite_subset[OF _ finite_dom_map_of[of m]]) auto
  qed (use assms(1) in \<open>auto simp: unexpired_def\<close>)
  moreover have "nat (int (length ?u) - limit) > 0"
  proof (rule ccontr)
    assume "\<not> 0 < nat (int (length ?u) - limit)"
    then have "evict_excess limit ?u = ?u" by (simp add: evict_excess_def delete_entries_def)
    then show False using \<open>(k, e) \<in> set ?u\<close> \<open>(k, e) \<notin> set (evict_excess limit ?u)\<close> by simp
  qed
  ultimately show ?thesis by linarith
qed simp

lemma update_keys: "distinct (map fst m) \<Longrightarrow> distinct (map fst (AList.update k e m))"
  by (rule distinct_update)

lemma map_le_updateI:
  "(\<And>q e. map_of m' q = Some e \<Longrightarrow> map_of (AList.update k x m) q = Some e) \<Longrightarrow> map_of m' \<subseteq>\<^sub>m (map_of m)(k \<mapsto> x)"
  by (fastforce simp: map_le_def dom_def update_conv')

lemma portable_read_value:
  "fst (portable_read p now k g m) = Some v \<longleftrightarrow>
    (\<exists>e. map_of m k = Some e \<and> ce_authorityGeneration e = g \<and> now - ce_loadedAt e \<le> cp_retentionMs p \<and>
       ce_value e = v)"
  by (auto simp: portable_read_def split: option.split)

lemma portable_read_keys:
  "distinct (map fst m) \<Longrightarrow> distinct (map fst (snd (portable_read p now k g m)))"
  by (simp add: portable_read_def AList.distinct_delete update_keys split: option.split)

lemma portable_read_hit:
  "map_of m k = Some e \<Longrightarrow> ce_authorityGeneration e = g \<Longrightarrow> now - ce_loadedAt e \<le> cp_retentionMs p \<Longrightarrow>
   map_of (snd (portable_read p now k g m)) k = Some (e \<lparr> ce_touchedAt := now \<rparr>)"
  by (simp add: portable_read_def update_conv')

lemma portable_read_other: "k' \<noteq> k \<Longrightarrow> map_of (snd (portable_read p now k g m)) k' = map_of m k'"
  by (simp add: portable_read_def update_conv' split: option.split)

lemma length_update_present: "k \<in> fst ` set m \<Longrightarrow> length (AList.update k e m) = length m"
  by (induction m) auto

lemma portable_read_bound: "length (snd (portable_read p now k g m)) \<le> length m"
proof (cases "map_of m k")
  case (Some e)
  then have "k \<in> fst ` set m" by (force dest: map_of_SomeD)
  then show ?thesis
    using Some by (simp add: portable_read_def AList.length_delete_le length_update_present)
qed (simp add: portable_read_def AList.length_delete_le)

lemma portable_read_entry:
  "map_of (snd (portable_read p now k g m)) k' = Some e \<Longrightarrow>
   \<exists>e0. map_of m k' = Some e0 \<and> e = (if k' = k then e0 \<lparr> ce_touchedAt := now \<rparr> else e0)"
  by (auto simp: portable_read_def update_conv' AList.delete_conv' split: option.splits if_splits)

lemma selection_read_portable: "selection_read = portable_read"
  by (intro ext) (simp add: selection_read_def portable_read_def)

lemmas portable_read_laws = portable_read_value portable_read_keys portable_read_hit portable_read_other
  portable_read_bound portable_read_entry

text \<open>Remembering, for whichever time stamp ages an entry.\<close>

abbreviation remember_by :: "cache_policy \<Rightarrow> ('v cache_entry \<Rightarrow> int) \<Rightarrow> int \<Rightarrow> string \<Rightarrow> int \<Rightarrow> 'v \<Rightarrow> 'v cache \<Rightarrow> 'v cache" where
  "remember_by p stamp now k g v m \<equiv>
     evict_excess (cp_maximumEntries p)
       (unexpired (cp_retentionMs p) now stamp (AList.update k (fresh_entry now g v) m))"

lemma remember_by_laws:
  assumes "distinct (map fst m)"
  shows "distinct (map fst (remember_by p stamp now k g v m))"
    and "map_of (remember_by p stamp now k g v m) \<subseteq>\<^sub>m (map_of m)(k \<mapsto> fresh_entry now g v)"
    and "0 \<le> cp_maximumEntries p \<Longrightarrow> int (length (remember_by p stamp now k g v m)) \<le> cp_maximumEntries p"
    and "((map_of m)(k \<mapsto> fresh_entry now g v)) k' = Some e \<Longrightarrow>
      map_of (remember_by p stamp now k g v m) k' = None \<Longrightarrow>
      cp_retentionMs p < now - stamp e \<or>
      cp_maximumEntries p \<le> int (card {q. q \<noteq> k' \<and> (\<exists>e'. ((map_of m)(k \<mapsto> fresh_entry now g v)) q = Some e' \<and>
        ce_touchedAt e \<le> ce_touchedAt e')})"
proof -
  note u = update_keys[OF assms, of k "fresh_entry now g v"]
  show "distinct (map fst (remember_by p stamp now k g v m))" by (intro evict_excess_keys unexpired_keys u)
  show "map_of (remember_by p stamp now k g v m) \<subseteq>\<^sub>m (map_of m)(k \<mapsto> fresh_entry now g v)"
    by (rule map_le_updateI) (rule evict_unexpired_entry[OF u])
  show "int (length (remember_by p stamp now k g v m)) \<le> cp_maximumEntries p" if "0 \<le> cp_maximumEntries p"
    using that by (intro evict_excess_bound unexpired_keys u)
  show "cp_retentionMs p < now - stamp e \<or>
      cp_maximumEntries p \<le> int (card {q. q \<noteq> k' \<and> (\<exists>e'. ((map_of m)(k \<mapsto> fresh_entry now g v)) q = Some e' \<and>
        ce_touchedAt e \<le> ce_touchedAt e')})"
    if "((map_of m)(k \<mapsto> fresh_entry now g v)) k' = Some e" "map_of (remember_by p stamp now k g v m) k' = None"
    using that evict_unexpired_keeps[OF u, of k' e] unfolding update_conv' by blast
qed

lemma portable_remember_by: "portable_remember p = remember_by p ce_loadedAt"
  by (intro ext) (simp add: portable_remember_def portable_prune_excess)

lemma selection_remember_by:
  "distinct (map fst m) \<Longrightarrow> selection_remember p now k g v m = remember_by p ce_touchedAt now k g v m"
  by (simp add: selection_remember_def selection_prune_excess update_keys)

interpretation portable: view_cache "portable_remember p" "portable_read p" "cp_maximumEntries p" "cp_retentionMs p"
  for p
  unfolding portable_remember_by
proof (unfold_locales, goal_cases)
  case (4 m k now g v k' e)
  then show ?case using remember_by_laws(4)[OF 4(1-3)] by blast
qed ((rule remember_by_laws portable_read_laws; assumption)+)

interpretation selection: view_cache "selection_remember p" "selection_read p" "cp_maximumEntries p" "cp_retentionMs p"
  for p
  unfolding selection_read_portable
proof (unfold_locales, goal_cases)
  case (1 m now k g v)
  then show ?case by (simp only: selection_remember_by remember_by_laws)
next
  case (2 m now k g v)
  then show ?case by (simp only: selection_remember_by remember_by_laws)
next
  case (3 m now k g v)
  then show ?case by (simp only: selection_remember_by remember_by_laws)
next
  case (4 m k now g v k' e)
  have "map_of (remember_by p ce_touchedAt now k g v m) k' = None" using 4(3) by (simp only: selection_remember_by[OF 4(1)])
  from remember_by_laws(4)[OF 4(1,2) this] show ?case by blast
qed ((rule portable_read_laws; assumption)+)

end
