(* ===== verification/Client_Runtime.thy ===== *)
theory Client_Runtime
  imports View_Cache
begin

text \<open>
  The runtime behind a collaboration client, \<^verbatim>\<open>CollaborationClientRuntime\<close> of
  \<^verbatim>\<open>packages/shared/src/collaboration-client-runtime.ts\<close>: the binding to a backend, the generations of
  its authority, one realtime subscription per scope, the cached selection views and the loads in
  flight. The selections, views and subscriptions are those of
  \<^verbatim>\<open>packages/shared/src/collaboration-contract.ts\<close>.

  An \<^verbatim>\<open>async\<close> method is a step for each stretch between two awaits. \<open>client_world\<close> adds to the object
  the subscribe attempts that are suspended in such a stretch, and what has become of every
  subscription id the backend created.
\<close>

section \<open>Selections, views, subscriptions\<close>

datatype selection =
    Personal_memory
  | Personal_channel string
  | Team_people string
  | Workspace_channel string string string
  | Team_direct_message string string
  | Workspace_shared_memory string string
  | Shared_session string string string

definition is_personal_selection :: "selection \<Rightarrow> bool" where
  "is_personal_selection s = (case s of Personal_memory \<Rightarrow> True | Personal_channel _ \<Rightarrow> True | _ \<Rightarrow> False)"

text \<open>Of a view, its kind and the thread it shows; \<open>'p\<close> is the rest of it.\<close>

datatype 'p client_view =
    Empty_view
  | Thread_view string 'p
  | Shared_session_view string 'p
  | Other_view 'p

datatype scope = Personal_scope | Team_scope string

datatype subscription_state = Awaiting_snapshot_ack | Sub_active | Requires_snapshot | Sub_revoked | Sub_expired

record subscription =
  su_id :: string
  su_scope :: scope
  su_state :: subscription_state
  su_version :: int
  su_expiresAt :: string

definition scope_key :: "scope \<Rightarrow> string" where
  "scope_key s = (case s of Personal_scope \<Rightarrow> ''personal'' | Team_scope t \<Rightarrow> ''team:'' @ t)"

lemma scope_key_inj [simp]: "scope_key s = scope_key s' \<longleftrightarrow> s = s'"
  by (cases s; cases s') (simp_all add: scope_key_def)

section \<open>The object\<close>

record client_binding =
  bi_backendId :: "string option"
  bi_principalId :: "string option"
  bi_remoteUrl :: "string option"
  bi_transportId :: string

record subscription_record =
  sr_subscription :: subscription
  sr_preferredSelection :: "selection option"
  sr_selectionIntentGeneration :: int

record 'p client =
  cl_subscriptionsById :: "(string \<times> subscription_record) list"
  cl_subscriptionIdByScope :: "(string \<times> string) list"
  cl_subscriptionAttempts :: "(string \<times> nat) list"
  cl_selectionViews :: "(selection \<times> 'p client_view) cache"
  cl_selectionLoads :: "(string \<times> int \<times> nat) list"
  cl_authorityGeneration :: int
  cl_lastRevocationGeneration :: int
  cl_binding :: "client_binding option"
  cl_disposed :: bool

record client_options =
  co_preferredSelection :: "scope \<Rightarrow> selection option \<times> int"
  co_selectionIdentity :: "selection \<Rightarrow> string"
  co_teamIdForSelection :: "selection \<Rightarrow> string option"
  co_cachePolicy :: cache_policy

definition new_client :: "'p client" where
  "new_client =
     \<lparr> cl_subscriptionsById = [], cl_subscriptionIdByScope = [], cl_subscriptionAttempts = [],
       cl_selectionViews = [], cl_selectionLoads = [], cl_authorityGeneration = 0,
       cl_lastRevocationGeneration = -1, cl_binding = None, cl_disposed = False \<rparr>"

section \<open>Binding and authority\<close>

definition authority_is_current :: "int \<Rightarrow> 'p client \<Rightarrow> bool" where
  "authority_is_current generation c \<longleftrightarrow> \<not> cl_disposed c \<and> generation = cl_authorityGeneration c"

definition authority_was_revoked_since :: "int \<Rightarrow> 'p client \<Rightarrow> bool" where
  "authority_was_revoked_since generation c \<longleftrightarrow> generation < cl_lastRevocationGeneration c"

definition invalidate_authority :: "bool \<Rightarrow> 'p client \<Rightarrow> 'p client" where
  "invalidate_authority revoked c =
     (let g = cl_authorityGeneration c + 1 in
      c \<lparr> cl_authorityGeneration := g,
          cl_lastRevocationGeneration := (if revoked then g else cl_lastRevocationGeneration c),
          cl_selectionLoads := [] \<rparr>)"

definition bind_client :: "client_binding \<Rightarrow> 'p client \<Rightarrow> (bool \<times> 'p client) result" where
  "bind_client b c =
     (if cl_disposed c then Inr (False, c)
      else
        ebind (throw_if (js_trim (bi_transportId b) = [])
                 (TypeError ''Collaboration client transport is required'')) (\<lambda>_.
        if cl_binding c = Some b then Inr (False, c)
        else
          let c' = c \<lparr> cl_binding := Some b \<rparr> in
          Inr (True, if cl_binding c \<noteq> None then invalidate_authority False c' else c')))"

section \<open>Subscriptions\<close>

text \<open>The previous record of a scope, whose preferences a new subscription of the scope inherits.\<close>

definition recorded ::
  "client_options \<Rightarrow> subscription \<Rightarrow> selection option option \<Rightarrow> int option \<Rightarrow> subscription_record option \<Rightarrow>
     subscription_record" where
  "recorded opts s preferred intent previous =
     \<lparr> sr_subscription = s,
       sr_preferredSelection =
         (case preferred of None \<Rightarrow> Option.bind previous sr_preferredSelection | Some p \<Rightarrow> p),
       sr_selectionIntentGeneration =
         (case intent of
            Some g \<Rightarrow> g
          | None \<Rightarrow>
              (case previous of
                 Some q \<Rightarrow> sr_selectionIntentGeneration q
               | None \<Rightarrow> snd (co_preferredSelection opts (su_scope s)))) \<rparr>"

definition record_subscription ::
  "client_options \<Rightarrow> subscription \<Rightarrow> selection option option \<Rightarrow> int option \<Rightarrow> 'p client \<Rightarrow> 'p client" where
  "record_subscription opts s preferred intent c =
     (let key = scope_key (su_scope s);
          previousId = map_of (cl_subscriptionIdByScope c) key;
          previous = Option.bind previousId (map_of (cl_subscriptionsById c));
          kept = (case previousId of
                    None \<Rightarrow> cl_subscriptionsById c
                  | Some p \<Rightarrow> if p \<noteq> su_id s then AList.delete p (cl_subscriptionsById c) else cl_subscriptionsById c)
      in c \<lparr> cl_subscriptionsById := AList.update (su_id s) (recorded opts s preferred intent previous) kept,
             cl_subscriptionIdByScope := AList.update key (su_id s) (cl_subscriptionIdByScope c) \<rparr>)"

lemma recorded_subscription [simp]: "sr_subscription (recorded opts s p g q) = s"
  by (simp add: recorded_def)

definition drop_subscription :: "string \<Rightarrow> 'p client \<Rightarrow> subscription_record option \<times> 'p client" where
  "drop_subscription i c =
     (let r = map_of (cl_subscriptionsById c) i;
          c' = c \<lparr> cl_subscriptionsById := AList.delete i (cl_subscriptionsById c) \<rparr>
      in case r of
           None \<Rightarrow> (None, c')
         | Some q \<Rightarrow>
             let key = scope_key (su_scope (sr_subscription q)) in
             (Some q,
              if map_of (cl_subscriptionIdByScope c) key = Some i
              then c' \<lparr> cl_subscriptionIdByScope := AList.delete key (cl_subscriptionIdByScope c) \<rparr>
              else c'))"

definition update_subscription_version :: "string \<Rightarrow> int \<Rightarrow> 'p client \<Rightarrow> 'p client" where
  "update_subscription_version i version c =
     (case map_of (cl_subscriptionsById c) i of
        None \<Rightarrow> c
      | Some q \<Rightarrow>
          c \<lparr> cl_subscriptionsById :=
                AList.update i
                  (q \<lparr> sr_subscription := (sr_subscription q) \<lparr> su_state := Sub_active, su_version := version \<rparr> \<rparr>)
                  (cl_subscriptionsById c) \<rparr>)"

text \<open>The synchronous part of \<^verbatim>\<open>resetSubscriptions\<close>, with the ids it goes on to release, and
  \<^verbatim>\<open>dispose\<close>.\<close>

definition reset_subscriptions :: "'p client \<Rightarrow> string list \<times> 'p client" where
  "reset_subscriptions c =
     (map fst (cl_subscriptionsById c),
      (invalidate_authority False c) \<lparr> cl_subscriptionsById := [], cl_subscriptionIdByScope := [] \<rparr>)"

definition dispose_client :: "'p client \<Rightarrow> string list \<times> 'p client" where
  "dispose_client c =
     (if cl_disposed c then ([], c)
      else
        (map fst (cl_subscriptionsById c),
         c \<lparr> cl_disposed := True, cl_authorityGeneration := cl_authorityGeneration c + 1,
             cl_selectionLoads := [], cl_selectionViews := [], cl_subscriptionsById := [],
             cl_subscriptionIdByScope := [] \<rparr>))"

section \<open>Selection views and loads\<close>

definition remember_selection_view ::
  "client_options \<Rightarrow> int \<Rightarrow> selection \<Rightarrow> 'p client_view \<Rightarrow> 'p client \<Rightarrow> 'p client" where
  "remember_selection_view opts now s v c =
     (if v = Empty_view \<or> cl_disposed c then c
      else c \<lparr> cl_selectionViews :=
                 selection_remember (co_cachePolicy opts) now (co_selectionIdentity opts s)
                   (cl_authorityGeneration c) (s, v) (cl_selectionViews c) \<rparr>)"

definition selection_view ::
  "client_options \<Rightarrow> int \<Rightarrow> selection \<Rightarrow> 'p client \<Rightarrow> 'p client_view option \<times> 'p client" where
  "selection_view opts now s c =
     (let (found, views) = selection_read (co_cachePolicy opts) now (co_selectionIdentity opts s)
                             (cl_authorityGeneration c) (cl_selectionViews c)
      in (map_option snd found, c \<lparr> cl_selectionViews := views \<rparr>))"

definition clear_team_selection_views :: "client_options \<Rightarrow> string option \<Rightarrow> 'p client \<Rightarrow> 'p client" where
  "clear_team_selection_views opts teamId c =
     c \<lparr> cl_selectionViews :=
           drop_views (\<lambda>_ e. case co_teamIdForSelection opts (fst (ce_value e)) of
                               None \<Rightarrow> False
                             | Some t \<Rightarrow> teamId = None \<or> teamId = Some t) (cl_selectionViews c) \<rparr>"

definition clear_thread_selection_views :: "string \<Rightarrow> 'p client \<Rightarrow> 'p client" where
  "clear_thread_selection_views threadId c =
     c \<lparr> cl_selectionViews :=
           drop_views (\<lambda>_ e. case snd (ce_value e) of
                               Thread_view t _ \<Rightarrow> t = threadId
                             | Shared_session_view t _ \<Rightarrow> t = threadId
                             | _ \<Rightarrow> False) (cl_selectionViews c) \<rparr>"

definition clear_shared_session_selection_view :: "string \<Rightarrow> 'p client \<Rightarrow> 'p client" where
  "clear_shared_session_selection_view sessionId c =
     c \<lparr> cl_selectionViews :=
           drop_views (\<lambda>_ e. case fst (ce_value e) of
                               Shared_session _ _ i \<Rightarrow> i = sessionId
                             | _ \<Rightarrow> False) (cl_selectionViews c) \<rparr>"

text \<open>\<^verbatim>\<open>coordinateSelectionLoad\<close>, with the number of the promise of a new load: the promise the caller gets,
  and whether \<^verbatim>\<open>load\<close> is called. A load's result is dropped when the authority has changed by the
  time it arrives.\<close>

definition coordinate_selection_load ::
  "client_options \<Rightarrow> selection \<Rightarrow> nat \<Rightarrow> 'p client \<Rightarrow> nat \<times> bool \<times> 'p client" where
  "coordinate_selection_load opts s n c =
     (let key = co_selectionIdentity opts s; g = cl_authorityGeneration c;
          c' = c \<lparr> cl_selectionLoads := AList.update key (g, n) (cl_selectionLoads c) \<rparr>
      in case map_of (cl_selectionLoads c) key of
           Some (h, p) \<Rightarrow> if h = g then (p, False, c) else (n, True, c')
         | None \<Rightarrow> (n, True, c'))"

definition coordinated_selection_load :: "client_options \<Rightarrow> selection \<Rightarrow> 'p client \<Rightarrow> nat option" where
  "coordinated_selection_load opts s c =
     (case map_of (cl_selectionLoads c) (co_selectionIdentity opts s) of
        Some (h, p) \<Rightarrow> if h = cl_authorityGeneration c then Some p else None
      | None \<Rightarrow> None)"

definition selection_load_result :: "int \<Rightarrow> 'a option \<Rightarrow> 'p client \<Rightarrow> 'a option" where
  "selection_load_result generation loaded c = (if authority_is_current generation c then loaded else None)"

definition selection_load_finally :: "string \<Rightarrow> nat \<Rightarrow> 'p client \<Rightarrow> 'p client" where
  "selection_load_finally key n c =
     (if map_option snd (map_of (cl_selectionLoads c) key) = Some n
      then c \<lparr> cl_selectionLoads := AList.delete key (cl_selectionLoads c) \<rparr> else c)"

end
