(* ===== verification/Client_Subscriptions.thy ===== *)
theory Client_Subscriptions
  imports Client_Runtime Step_Machines
begin

text \<open>
  The asynchronous life of the collaboration client's subscriptions: \<^verbatim>\<open>subscribe\<close> and
  \<^verbatim>\<open>resetSubscriptions\<close> of \<^verbatim>\<open>packages/shared/src/collaboration-client-runtime.ts\<close> interleaved with every
  other operation and with the backend's answers. The step relation \<open>client_step\<close> has one rule per
  operation and per resumption of a suspended attempt; its invariant says that a scope has at most
  one live subscription, that a released subscription is never live, and where every subscription the
  backend created has gone: it is live, released, returned to a caller, or replaced by
  \<^verbatim>\<open>recordSubscription\<close>, which alone loses subscriptions.
\<close>

section \<open>Suspended attempts\<close>

datatype attempt_phase = Creating | Releasing | Settled

record attempt =
  at_scope :: scope
  at_generation :: int
  at_preferred :: "selection option \<times> int"
  at_phase :: attempt_phase

text \<open>The last four are ghost: the ids \<^verbatim>\<open>createSubscription\<close> returned, those \<^verbatim>\<open>releaseSubscription\<close> was called
  with, those \<^verbatim>\<open>dropSubscription\<close> and \<^verbatim>\<open>dispose\<close> returned to their caller, and those \<^verbatim>\<open>recordSubscription\<close>
  replaced by another subscription of their scope, neither released nor returned, each with the scope.\<close>

record 'p client_world =
  cw_client :: "'p client"
  cw_attempts :: "(nat \<times> attempt) list"
  cw_next :: nat
  cw_created :: "string list"
  cw_released :: "string list"
  cw_returned :: "string list"
  cw_replaced :: "(string \<times> scope) list"

definition new_world :: "'p client_world" where
  "new_world =
     \<lparr> cw_client = new_client, cw_attempts = [], cw_next = 0, cw_created = [], cw_released = [], cw_returned = [],
       cw_replaced = [] \<rparr>"

text \<open>\<^verbatim>\<open>subscribe\<close> up to its first await: the attempt whose promise the caller gets, none when it returns at
  once.\<close>

definition subscribe :: "client_options \<Rightarrow> scope \<Rightarrow> 'p client_world \<Rightarrow> nat option \<times> 'p client_world" where
  "subscribe opts s w =
     (let key = scope_key s; c = cw_client w; n = cw_next w in
      if map_of (cl_subscriptionIdByScope c) key \<noteq> None \<or> cl_disposed c then (None, w)
      else
        (case map_of (cl_subscriptionAttempts c) key of
           Some active \<Rightarrow> (Some active, w)
         | None \<Rightarrow>
             (Some n,
              w \<lparr> cw_client := c \<lparr> cl_subscriptionAttempts := AList.update key n (cl_subscriptionAttempts c) \<rparr>,
                  cw_attempts :=
                    (n, \<lparr> at_scope = s, at_generation = cl_authorityGeneration c,
                          at_preferred = co_preferredSelection opts s, at_phase = Creating \<rparr>) # cw_attempts w,
                  cw_next := Suc n \<rparr>)))"

text \<open>The attempt resumes with what \<^verbatim>\<open>createSubscription\<close> gave: nothing, also when it failed, or a
  subscription.\<close>

definition set_phase :: "nat \<Rightarrow> attempt \<Rightarrow> attempt_phase \<Rightarrow> 'p client_world \<Rightarrow> 'p client_world" where
  "set_phase n a phase w = w \<lparr> cw_attempts := AList.update n (a \<lparr> at_phase := phase \<rparr>) (cw_attempts w) \<rparr>"

definition attempt_created ::
  "client_options \<Rightarrow> nat \<Rightarrow> attempt \<Rightarrow> subscription option \<Rightarrow> 'p client_world \<Rightarrow> 'p client_world" where
  "attempt_created opts n a result w =
     (case result of
        None \<Rightarrow> set_phase n a Settled w
      | Some s \<Rightarrow>
          let c = cw_client w; made = w \<lparr> cw_created := su_id s # cw_created w \<rparr> in
          if \<not> authority_is_current (at_generation a) c \<or>
             map_of (cl_subscriptionIdByScope c) (scope_key (at_scope a)) \<noteq> None
          then set_phase n a Releasing (made \<lparr> cw_released := su_id s # cw_released w \<rparr>)
          else set_phase n a Settled
                 (made \<lparr> cw_client :=
                    record_subscription opts s (Some (fst (at_preferred a))) (Some (snd (at_preferred a))) c \<rparr>))"

text \<open>The \<^verbatim>\<open>finally\<close> of the call that made the attempt.\<close>

definition attempt_finally :: "nat \<Rightarrow> attempt \<Rightarrow> 'p client_world \<Rightarrow> 'p client_world" where
  "attempt_finally n a w =
     (let key = scope_key (at_scope a); c = cw_client w; rest = AList.delete n (cw_attempts w) in
      if map_of (cl_subscriptionAttempts c) key = Some n
      then w \<lparr> cw_client := c \<lparr> cl_subscriptionAttempts := AList.delete key (cl_subscriptionAttempts c) \<rparr>,
               cw_attempts := rest \<rparr>
      else w \<lparr> cw_attempts := rest \<rparr>)"

definition live :: "'p client \<Rightarrow> string set" where
  "live c = dom (map_of (cl_subscriptionsById c))"

text \<open>What \<^verbatim>\<open>recordSubscription\<close> deletes without releasing or returning it.\<close>

definition superseded :: "subscription \<Rightarrow> 'p client \<Rightarrow> string list" where
  "superseded s c =
     (case map_of (cl_subscriptionIdByScope c) (scope_key (su_scope s)) of
        Some p \<Rightarrow> if p \<noteq> su_id s then [p] else []
      | None \<Rightarrow> [])"

section \<open>Steps\<close>

text \<open>Of the backend: a created subscription has the scope asked for and an id of its own. Of a caller
  of \<^verbatim>\<open>recordSubscription\<close>: a live subscription keeps its scope, and a released one does not come
  back.\<close>

inductive client_step :: "client_options \<Rightarrow> 'p client_world \<Rightarrow> 'p client_world \<Rightarrow> bool" for opts where
  step_bind: "bind_client b (cw_client w) = Inr (r, c) \<Longrightarrow> client_step opts w (w \<lparr> cw_client := c \<rparr>)"
| step_invalidate: "client_step opts w (w \<lparr> cw_client := invalidate_authority revoked (cw_client w) \<rparr>)"
| step_subscribe: "subscribe opts s w = (p, w') \<Longrightarrow> client_step opts w w'"
| step_created:
    "map_of (cw_attempts w) n = Some a \<Longrightarrow> at_phase a = Creating \<Longrightarrow>
     (case result of None \<Rightarrow> True | Some s \<Rightarrow> su_scope s = at_scope a \<and>
        su_id s \<notin> live (cw_client w) \<union> set (cw_created w) \<union> set (cw_released w)) \<Longrightarrow>
     client_step opts w (attempt_created opts n a result w)"
| step_released:
    "map_of (cw_attempts w) n = Some a \<Longrightarrow> at_phase a = Releasing \<Longrightarrow> client_step opts w (set_phase n a Settled w)"
| step_finally:
    "map_of (cw_attempts w) n = Some a \<Longrightarrow> at_phase a = Settled \<Longrightarrow> client_step opts w (attempt_finally n a w)"
| step_record:
    "su_id s \<notin> set (cw_released w) \<Longrightarrow>
     (case map_of (cl_subscriptionsById (cw_client w)) (su_id s) of
        None \<Rightarrow> True | Some q \<Rightarrow> su_scope (sr_subscription q) = su_scope s) \<Longrightarrow>
     client_step opts w
       (w \<lparr> cw_client := record_subscription opts s preferred intent (cw_client w),
            cw_replaced := map (\<lambda>i. (i, su_scope s)) (superseded s (cw_client w)) @ cw_replaced w \<rparr>)"
| step_drop:
    "drop_subscription i (cw_client w) = (r, c) \<Longrightarrow>
     client_step opts w
       (w \<lparr> cw_client := c, cw_returned := (case r of None \<Rightarrow> [] | Some _ \<Rightarrow> [i]) @ cw_returned w \<rparr>)"
| step_version: "client_step opts w (w \<lparr> cw_client := update_subscription_version i version (cw_client w) \<rparr>)"
| step_reset:
    "reset_subscriptions (cw_client w) = (ids, c) \<Longrightarrow>
     client_step opts w (w \<lparr> cw_client := c, cw_released := ids @ cw_released w \<rparr>)"
| step_dispose:
    "dispose_client (cw_client w) = (ids, c) \<Longrightarrow>
     client_step opts w (w \<lparr> cw_client := c, cw_returned := ids @ cw_returned w \<rparr>)"

abbreviation client_reach :: "client_options \<Rightarrow> 'p client_world \<Rightarrow> bool" where
  "client_reach opts w \<equiv> (client_step opts)\<^sup>*\<^sup>* new_world w"

section \<open>The invariant\<close>

text \<open>The two maps are each other's inverse.\<close>

definition maps_agree :: "'p client \<Rightarrow> bool" where
  "maps_agree c \<longleftrightarrow>
     (\<forall>i r. map_of (cl_subscriptionsById c) i = Some r \<longrightarrow>
        su_id (sr_subscription r) = i \<and>
        map_of (cl_subscriptionIdByScope c) (scope_key (su_scope (sr_subscription r))) = Some i) \<and>
     (\<forall>k i. map_of (cl_subscriptionIdByScope c) k = Some i \<longrightarrow>
        (\<exists>r. map_of (cl_subscriptionsById c) i = Some r \<and> scope_key (su_scope (sr_subscription r)) = k))"

definition world_inv :: "'p client_world \<Rightarrow> bool" where
  "world_inv w \<longleftrightarrow>
     maps_agree (cw_client w) \<and>
     live (cw_client w) \<inter> set (cw_released w) = {} \<and>
     set (cw_created w) \<subseteq>
       live (cw_client w) \<union> set (cw_released w) \<union> set (cw_returned w) \<union> fst ` set (cw_replaced w)"

lemma maps_agree_cong:
  "cl_subscriptionsById c' = cl_subscriptionsById c \<Longrightarrow>
   cl_subscriptionIdByScope c' = cl_subscriptionIdByScope c \<Longrightarrow> maps_agree c' = maps_agree c"
  by (simp add: maps_agree_def)

lemma live_ids: "live c = set (map fst (cl_subscriptionsById c))"
  by (simp add: live_def dom_map_of_conv_image_fst)

lemma live_cong: "cl_subscriptionsById c' = cl_subscriptionsById c \<Longrightarrow> live c' = live c"
  by (simp add: live_def)

lemma invalidate_same [simp]:
  "cl_subscriptionsById (invalidate_authority r c) = cl_subscriptionsById c"
  "cl_subscriptionIdByScope (invalidate_authority r c) = cl_subscriptionIdByScope c"
  "cl_subscriptionAttempts (invalidate_authority r c) = cl_subscriptionAttempts c"
  "cl_authorityGeneration (invalidate_authority r c) = cl_authorityGeneration c + 1"
  "cl_disposed (invalidate_authority r c) = cl_disposed c"
  by (simp_all add: invalidate_authority_def Let_def)

lemma bind_same:
  assumes "bind_client b c = Inr (r, c')"
  shows "cl_subscriptionsById c' = cl_subscriptionsById c" "cl_subscriptionIdByScope c' = cl_subscriptionIdByScope c"
  using assms by (auto simp: bind_client_def result_simps Let_def split: if_splits)

lemma maps_agree_empty [simp]:
  "cl_subscriptionsById c = [] \<Longrightarrow> cl_subscriptionIdByScope c = [] \<Longrightarrow> maps_agree c"
  by (simp add: maps_agree_def)

lemma record_live: "live (record_subscription opts s p g c) = insert (su_id s) (live c - set (superseded s c))"
  by (auto simp: live_def record_subscription_def superseded_def Let_def update_conv' AList.delete_conv'
      split: option.split if_splits)

lemma record_maps:
  assumes "maps_agree c"
    and "\<forall>q. map_of (cl_subscriptionsById c) (su_id s) = Some q \<longrightarrow> su_scope (sr_subscription q) = su_scope s"
  shows "maps_agree (record_subscription opts s p g c)"
proof -
  let ?key = "scope_key (su_scope s)" and ?c = "record_subscription opts s p g c"
  let ?by = "map_of (cl_subscriptionsById c)" and ?at = "map_of (cl_subscriptionIdByScope c)"
  obtain r where r: "sr_subscription r = s"
    and ids: "\<And>i. map_of (cl_subscriptionsById ?c) i =
      (if i = su_id s then Some r else if ?at ?key = Some i then None else ?by i)"
  proof -
    let ?r = "recorded opts s p g (Option.bind (?at ?key) ?by)"
    have "map_of (cl_subscriptionsById ?c) i =
        (if i = su_id s then Some ?r else if ?at ?key = Some i then None else ?by i)" for i
      by (auto simp: record_subscription_def Let_def update_conv' AList.delete_conv' split: option.split)
    then show ?thesis using that[of ?r] by simp
  qed
  have scopes: "map_of (cl_subscriptionIdByScope ?c) k = (if k = ?key then Some (su_id s) else ?at k)" for k
    by (simp add: record_subscription_def Let_def update_conv')
  have old: "su_id (sr_subscription q) = i \<and> ?at (scope_key (su_scope (sr_subscription q))) = Some i"
    if "?by i = Some q" for i q using assms(1) that by (simp add: maps_agree_def)
  have inverse: "\<exists>q. ?by i = Some q \<and> scope_key (su_scope (sr_subscription q)) = k" if "?at k = Some i" for k i
    using assms(1) that by (simp add: maps_agree_def)
  show ?thesis
    unfolding maps_agree_def ids scopes
  proof (intro conjI allI impI)
    fix i q
    assume q: "(if i = su_id s then Some r else if ?at ?key = Some i then None else ?by i) = Some q"
    show "su_id (sr_subscription q) = i" using q r old[of i q] by (auto split: if_splits)
    show "(if scope_key (su_scope (sr_subscription q)) = ?key then Some (su_id s)
        else ?at (scope_key (su_scope (sr_subscription q)))) = Some i"
      using q r old[of i q] by (auto split: if_splits)
  next
    fix k i
    assume k: "(if k = ?key then Some (su_id s) else ?at k) = Some i"
    show "\<exists>q. (if i = su_id s then Some r else if ?at ?key = Some i then None else ?by i) = Some q \<and>
        scope_key (su_scope (sr_subscription q)) = k"
    proof (cases "k = ?key")
      case True
      then show ?thesis using k r by simp
    next
      case False
      then obtain q where q: "?by i = Some q" "scope_key (su_scope (sr_subscription q)) = k"
        using k inverse by auto
      moreover have "i \<noteq> su_id s" using q assms(2) False by auto
      moreover have "?at ?key \<noteq> Some i" using q False inverse by fastforce
      ultimately show ?thesis by simp
    qed
  qed
qed

lemma drop_maps:
  assumes "maps_agree c" "drop_subscription i c = (r, c')"
  shows "maps_agree c'" "live c' = live c - {i}" "r = None \<longleftrightarrow> i \<notin> live c"
proof -
  show "live c' = live c - {i}" "r = None \<longleftrightarrow> i \<notin> live c"
    using assms(2) by (auto simp: drop_subscription_def live_def Let_def AList.delete_conv' split: option.splits if_splits)
  show "maps_agree c'"
  proof (cases "map_of (cl_subscriptionsById c) i")
    case None
    then have "i \<notin> fst ` set (cl_subscriptionsById c)" by (simp add: map_of_eq_None_iff)
    then show ?thesis using assms None by (auto simp: drop_subscription_def Let_def)
  next
    case (Some q)
    let ?key = "scope_key (su_scope (sr_subscription q))"
    have "map_of (cl_subscriptionIdByScope c) ?key = Some i" using assms(1) Some by (simp add: maps_agree_def)
    then have c': "c' = c \<lparr> cl_subscriptionsById := AList.delete i (cl_subscriptionsById c),
        cl_subscriptionIdByScope := AList.delete ?key (cl_subscriptionIdByScope c) \<rparr>"
      using assms(2) Some by (auto simp: drop_subscription_def Let_def)
    show ?thesis
      using assms(1) Some unfolding c' maps_agree_def
      by (auto simp: AList.delete_conv') (metis option.inject)+
  qed
qed

lemma version_maps:
  assumes "maps_agree c"
  shows "maps_agree (update_subscription_version i version c)" "live (update_subscription_version i version c) = live c"
  using assms
  by (auto simp: maps_agree_def update_subscription_version_def update_conv' live_def split: option.splits)
    (metis option.inject)

lemma set_phase_same [simp]:
  "cw_client (set_phase n a p w) = cw_client w" "cw_created (set_phase n a p w) = cw_created w"
  "cw_released (set_phase n a p w) = cw_released w" "cw_returned (set_phase n a p w) = cw_returned w"
  "cw_replaced (set_phase n a p w) = cw_replaced w"
  by (simp_all add: set_phase_def)

lemma subscribe_same:
  assumes "subscribe opts s w = (p, w')"
  shows "cl_subscriptionsById (cw_client w') = cl_subscriptionsById (cw_client w)"
    "cl_subscriptionIdByScope (cw_client w') = cl_subscriptionIdByScope (cw_client w)"
    "cw_created w' = cw_created w" "cw_released w' = cw_released w" "cw_returned w' = cw_returned w"
    "cw_replaced w' = cw_replaced w"
  using assms by (auto simp: subscribe_def Let_def split: if_splits option.splits)

lemma finally_same:
  "cl_subscriptionsById (cw_client (attempt_finally n a w)) = cl_subscriptionsById (cw_client w)"
  "cl_subscriptionIdByScope (cw_client (attempt_finally n a w)) = cl_subscriptionIdByScope (cw_client w)"
  "cw_created (attempt_finally n a w) = cw_created w" "cw_released (attempt_finally n a w) = cw_released w"
  "cw_returned (attempt_finally n a w) = cw_returned w" "cw_replaced (attempt_finally n a w) = cw_replaced w"
  by (simp_all add: attempt_finally_def Let_def)

lemma world_inv_cong:
  assumes "cl_subscriptionsById (cw_client w') = cl_subscriptionsById (cw_client w)"
    "cl_subscriptionIdByScope (cw_client w') = cl_subscriptionIdByScope (cw_client w)"
    "cw_created w' = cw_created w" "cw_released w' = cw_released w" "cw_returned w' = cw_returned w"
    "cw_replaced w' = cw_replaced w"
  shows "world_inv w' = world_inv w"
  using maps_agree_cong[OF assms(1,2)] live_cong[OF assms(1)] assms(3-6) by (simp add: world_inv_def)

lemma created_inv:
  assumes "world_inv w"
    and "case result of None \<Rightarrow> True | Some s \<Rightarrow> su_scope s = at_scope a \<and>
        su_id s \<notin> live (cw_client w) \<union> set (cw_created w) \<union> set (cw_released w)"
  shows "world_inv (attempt_created opts n a result w)"
proof (cases result)
  case None
  then show ?thesis using assms(1) by (simp add: attempt_created_def world_inv_def)
next
  case (Some s)
  then have s: "su_scope s = at_scope a" "su_id s \<notin> live (cw_client w)" "su_id s \<notin> set (cw_released w)"
    using assms(2) by auto
  let ?c = "cw_client w"
  show ?thesis
  proof (cases "\<not> authority_is_current (at_generation a) ?c \<or>
      map_of (cl_subscriptionIdByScope ?c) (scope_key (at_scope a)) \<noteq> None")
    case True
    then show ?thesis
      using assms(1) Some s by (auto simp: attempt_created_def world_inv_def Let_def)
  next
    case False
    then have none: "superseded s ?c = []" by (simp add: superseded_def s(1))
    have "\<forall>q. map_of (cl_subscriptionsById ?c) (su_id s) = Some q \<longrightarrow> su_scope (sr_subscription q) = su_scope s"
      using s(2) by (auto simp: live_def)
    then have "maps_agree (record_subscription opts s p g ?c)" for p g
      using record_maps[of ?c s] assms(1) unfolding world_inv_def by blast
    then show ?thesis
      using assms(1) Some s False none by (auto simp: attempt_created_def world_inv_def Let_def record_live)
  qed
qed

lemma record_inv:
  assumes "world_inv w" "su_id s \<notin> set (cw_released w)"
    and "case map_of (cl_subscriptionsById (cw_client w)) (su_id s) of
        None \<Rightarrow> True | Some q \<Rightarrow> su_scope (sr_subscription q) = su_scope s"
  shows "world_inv (w \<lparr> cw_client := record_subscription opts s p g (cw_client w),
      cw_replaced := map (\<lambda>i. (i, su_scope s)) (superseded s (cw_client w)) @ cw_replaced w \<rparr>)"
proof -
  have "maps_agree (record_subscription opts s p g (cw_client w))"
    using assms(1,3) by (intro record_maps) (auto simp: world_inv_def)
  then show ?thesis using assms(1,2) by (auto simp: world_inv_def record_live image_Un image_image)
qed

lemma client_step_inv: "client_step opts w w' \<Longrightarrow> world_inv w \<Longrightarrow> world_inv w'"
proof (induction rule: client_step.induct)
  case (step_bind b w r c)
  then show ?case by (subst world_inv_cong[of _ w]) (simp_all add: bind_same[OF step_bind.hyps])
next
  case (step_subscribe s w p w')
  then show ?case using world_inv_cong[OF subscribe_same] by blast
next
  case (step_finally w n a)
  then show ?case using world_inv_cong[OF finally_same] by blast
next
  case (step_drop i w r c)
  then show ?case
    using drop_maps[of "cw_client w" i r c] by (cases r) (auto simp: world_inv_def)
next
  case (step_version w i version)
  then show ?case using version_maps[of "cw_client w" i version] by (simp add: world_inv_def)
next
  case (step_reset w ids c)
  then have "live c = {}" "maps_agree c" "set ids = live (cw_client w)"
    by (auto simp: reset_subscriptions_def live_ids)
  then show ?case using step_reset.prems by (auto simp: world_inv_def)
next
  case (step_dispose w ids c)
  show ?case
  proof (cases "cl_disposed (cw_client w)")
    case False
    then have "live c = {}" "maps_agree c" "set ids = live (cw_client w)"
      using step_dispose.hyps by (auto simp: dispose_client_def live_ids)
    then show ?thesis using step_dispose.prems by (auto simp: world_inv_def)
  qed (use step_dispose in \<open>simp add: dispose_client_def world_inv_def\<close>)
next
  case (step_invalidate w revoked)
  then show ?case by (subst world_inv_cong[of _ w]) simp_all
next
  case (step_released w n a)
  then show ?case by (subst world_inv_cong[of _ w]) simp_all
next
  case (step_created w n a result)
  then show ?case by (intro created_inv)
next
  case (step_record s w preferred intent)
  then show ?case by (intro record_inv)
qed

lemma new_world_inv: "world_inv new_world"
  by (simp add: world_inv_def new_world_def new_client_def live_def)

interpretation subscriptions: invariant_machine "client_step opts" "\<lambda>w. w = new_world" world_inv for opts
  by unfold_locales (auto simp: new_world_inv client_step_inv)

lemmas client_reach_inv = subscriptions.reach_inv[OF refl]

text \<open>An attempt that was made under another authority does not leave a subscription, whatever the backend
  answers.\<close>

lemma stale_attempt_leaves_none:
  assumes "\<not> authority_is_current (at_generation a) (cw_client w)"
    and "map_of (cl_subscriptionIdByScope (cw_client w)) k = None"
  shows "map_of (cl_subscriptionIdByScope (cw_client (attempt_created opts n a result w))) k = None"
  using assms by (simp add: attempt_created_def Let_def split: option.split)

lemma subscribe_joins:
  assumes "map_of (cl_subscriptionAttempts (cw_client w)) (scope_key s) = Some n"
    and "map_of (cl_subscriptionIdByScope (cw_client w)) (scope_key s) = None" "\<not> cl_disposed (cw_client w)"
  shows "subscribe opts s w = (Some n, w)"
  using assms by (simp add: subscribe_def Let_def)

end
