(* ===== verification/Client_Properties.thy ===== *)
theory Client_Properties
  imports Client_Subscriptions
begin

text \<open>
  The properties of the client components: the bounded view caches and the collaboration client's
  subscriptions.
\<close>

section \<open>Cached views\<close>

text \<open>C16. A cached view is never stale: what the portable client's cache reads under an authority
  generation was remembered under that key and generation no longer ago than the retention, and since
  then it was neither replaced by another view nor invalidated.\<close>

theorem portable_read_is_fresh:
  assumes "fst (portable_read p now k g (cache_run (portable_remember p) (portable_read p) ops)) = Some v"
  shows "\<exists>t before later. ops = before @ Remember t k g v # later \<and> now - t \<le> cp_retentionMs p \<and>
    list_all (leaves_view t k g v) later"
  using assms by (rule portable.read_is_fresh)

definition demo_policy :: cache_policy where
  "demo_policy = \<lparr> cp_maximumEntries = 2, cp_retentionMs = 100 \<rparr>"

definition demo_ops :: "string cache_op list" where
  "demo_ops = [Remember 0 ''a'' 1 ''first'', Remember 5 ''b'' 1 ''second'', Read 6 ''a'' 1, Remember 7 ''c'' 1 ''third'']"

lemma portable_read_is_fresh_witness:
  "\<exists>t before later. demo_ops = before @ Remember t ''a'' 1 ''first'' # later \<and> 50 - t \<le> cp_retentionMs demo_policy \<and>
     list_all (leaves_view t ''a'' 1 ''first'') later"
proof (rule portable_read_is_fresh)
  show "fst (portable_read demo_policy 50 ''a'' 1
      (cache_run (portable_remember demo_policy) (portable_read demo_policy) demo_ops)) = Some ''first''"
    by code_simp
qed

text \<open>The selection cache evicts the least recently used: a remembered view stays readable within its
  retention as long as fewer than the limit of other views are touched at its load time or later, and
  nothing replaces it, reads it under another authority or clears it.\<close>

theorem selection_view_stays:
  assumes "int (card {q. q \<noteq> k \<and> (\<exists>op \<in> set (before @ Remember t k g v # later). touches_since t q op)})
      < cp_maximumEntries p"
    and "list_all (keeps_view t (cp_retentionMs p) k g v) later" and "0 \<le> cp_retentionMs p"
    and "now - t \<le> cp_retentionMs p"
  shows "fst (selection_read p now k g
    (cache_run (selection_remember p) (selection_read p) (before @ Remember t k g v # later))) = Some v"
  using assms by (rule selection.view_stays_readable)

lemma selection_view_stays_witness:
  "fst (selection_read demo_policy 50 ''b'' 1
     (cache_run (selection_remember demo_policy) (selection_read demo_policy)
       ([Remember 0 ''a'' 1 ''first''] @ Remember 5 ''b'' 1 ''second'' # [Remember 7 ''c'' 1 ''third'']))) = Some ''second''"
proof (rule selection_view_stays)
  have "{q. q \<noteq> ''b'' \<and> (\<exists>op \<in> set ([Remember 0 ''a'' 1 ''first''] @ Remember 5 ''b'' 1 ''second'' #
      [Remember 7 ''c'' 1 ''third'']). touches_since 5 q op)} \<subseteq> {''c''}"
    by (auto simp: touches_since_def)
  then have "card {q. q \<noteq> ''b'' \<and> (\<exists>op \<in> set ([Remember 0 ''a'' 1 ''first''] @ Remember 5 ''b'' 1 ''second'' #
      [Remember 7 ''c'' 1 ''third'']). touches_since 5 q op)} \<le> card {''c''}"
    by (rule card_mono[rotated]) simp
  then show "int (card {q. q \<noteq> ''b'' \<and> (\<exists>op \<in> set ([Remember 0 ''a'' 1 ''first''] @ Remember 5 ''b'' 1 ''second'' #
      [Remember 7 ''c'' 1 ''third'']). touches_since 5 q op)}) < cp_maximumEntries demo_policy"
    by (simp add: demo_policy_def)
qed (simp_all add: demo_policy_def keeps_view_def)

section \<open>Subscriptions\<close>


definition demo_options :: client_options where
  "demo_options =
     \<lparr> co_preferredSelection = (\<lambda>_. (None, 0)), co_selectionIdentity = (\<lambda>s. if is_personal_selection s then ''p'' else ''t''),
       co_teamIdForSelection = (\<lambda>s. None), co_cachePolicy = demo_policy \<rparr>"

definition demo_binding :: "string \<Rightarrow> client_binding" where
  "demo_binding t = \<lparr> bi_backendId = Some ''b'', bi_principalId = None, bi_remoteUrl = None, bi_transportId = t \<rparr>"

definition demo_subscription :: subscription where
  "demo_subscription =
     \<lparr> su_id = ''s1'', su_scope = Personal_scope, su_state = Awaiting_snapshot_ack, su_version = 1,
       su_expiresAt = ''2026-01-01T00:00:00.000Z'' \<rparr>"

text \<open>A client that has bound a transport and is subscribing, before and after it binds another one.\<close>

definition demo_attempt :: attempt where
  "demo_attempt = \<lparr> at_scope = Personal_scope, at_generation = 0, at_preferred = (None, 0), at_phase = Creating \<rparr>"

definition bound_world :: "unit client_world" where
  "bound_world = new_world \<lparr> cw_client := new_client \<lparr> cl_binding := Some (demo_binding ''t1'') \<rparr> \<rparr>"

definition subscribing_world :: "unit client_world" where
  "subscribing_world = snd (subscribe demo_options Personal_scope bound_world)"

definition rebound_world :: "unit client_world" where
  "rebound_world = subscribing_world \<lparr> cw_client := invalidate_authority False
     ((cw_client subscribing_world) \<lparr> cl_binding := Some (demo_binding ''t2'') \<rparr>) \<rparr>"

lemma subscribing_reached: "client_reach demo_options subscribing_world"
proof -
  have "bind_client (demo_binding ''t1'') (cw_client (new_world :: unit client_world)) =
      Inr (True, new_client \<lparr> cl_binding := Some (demo_binding ''t1'') \<rparr>)"
    by (simp add: bind_client_def new_world_def new_client_def demo_binding_def js_trim_def) code_simp
  then have "client_step demo_options new_world bound_world"
    unfolding bound_world_def by (rule client_step.step_bind)
  moreover have "client_step demo_options bound_world subscribing_world"
    unfolding subscribing_world_def by (rule client_step.step_subscribe) (rule surjective_pairing)
  ultimately show ?thesis by (meson converse_rtranclp_into_rtranclp rtranclp.rtrancl_refl)
qed

text \<open>The same client once the backend has answered.\<close>

definition subscribed_world :: "unit client_world" where
  "subscribed_world = attempt_created demo_options 0 demo_attempt (Some demo_subscription) subscribing_world"

lemma subscribing_attempt: "map_of (cw_attempts subscribing_world) 0 = Some demo_attempt"
  by code_simp

lemma subscribed_reached: "client_reach demo_options subscribed_world"
proof -
  have "client_step demo_options subscribing_world subscribed_world"
    unfolding subscribed_world_def
  proof (rule client_step.step_created[OF subscribing_attempt])
    show "at_phase demo_attempt = Creating" by code_simp
    have "cl_subscriptionsById (cw_client subscribing_world) = []" "cw_created subscribing_world = []"
      "cw_released subscribing_world = []" by code_simp+
    then show "case Some demo_subscription of None \<Rightarrow> True | Some s \<Rightarrow> su_scope s = at_scope demo_attempt \<and>
        su_id s \<notin> live (cw_client subscribing_world) \<union> set (cw_created subscribing_world) \<union>
          set (cw_released subscribing_world)"
      by (simp add: demo_subscription_def demo_attempt_def live_def)
  qed
  then show ?thesis using subscribing_reached by (rule rtranclp.rtrancl_into_rtrancl[rotated])
qed


text \<open>Recording a newer subscription over a live one loses the live one: it is neither live, released nor
  returned, and nothing releases it later.\<close>

definition newer_subscription :: subscription where
  "newer_subscription = demo_subscription \<lparr> su_id := ''s2'' \<rparr>"

definition replaced_world :: "unit client_world" where
  "replaced_world = subscribed_world
     \<lparr> cw_client := record_subscription demo_options newer_subscription None None (cw_client subscribed_world),
       cw_replaced := [(''s1'', Personal_scope)] \<rparr>"

theorem recorded_over_is_lost:
  "client_reach demo_options replaced_world \<and> cw_created replaced_world = [''s1''] \<and>
   ''s1'' \<notin> live (cw_client replaced_world) \<union> set (cw_released replaced_world) \<union> set (cw_returned replaced_world)"
proof -
  have "superseded newer_subscription (cw_client subscribed_world) = [''s1'']" "cw_released subscribed_world = []"
    "map_of (cl_subscriptionsById (cw_client subscribed_world)) (su_id newer_subscription) = None"
    "cw_replaced subscribed_world = []" "su_scope newer_subscription = Personal_scope" by code_simp+
  then have "client_step demo_options subscribed_world replaced_world"
    using client_step.step_record[of newer_subscription subscribed_world demo_options None None]
    by (simp add: replaced_world_def)
  then have "client_reach demo_options replaced_world" by (rule rtranclp.rtrancl_into_rtrancl[OF subscribed_reached])
  moreover have "cw_created replaced_world = [''s1'']" "cw_released replaced_world = []" "cw_returned replaced_world = []"
    "map_of (cl_subscriptionsById (cw_client replaced_world)) ''s1'' = None" by code_simp+
  ultimately show ?thesis by (auto simp: live_def)
qed

text \<open>A subscribe call made while an attempt of an older authority is still in flight joins that
  attempt and ends without a subscription: it changes nothing itself, and whatever the backend answers
  to the attempt, no subscription of the scope is recorded.\<close>

theorem stale_attempt_is_joined:
  assumes "map_of (cl_subscriptionAttempts (cw_client w)) (scope_key s) = Some n"
    and "map_of (cl_subscriptionIdByScope (cw_client w)) (scope_key s) = None"
    and "\<not> cl_disposed (cw_client w)" "at_generation a \<noteq> cl_authorityGeneration (cw_client w)"
  shows "subscribe opts s w = (Some n, w) \<and>
    map_of (cl_subscriptionIdByScope (cw_client (attempt_created opts n a result w))) (scope_key s) = None"
  using subscribe_joins[OF assms(1-3)] stale_attempt_leaves_none[OF _ assms(2), of a] assms(4)
  by (simp_all add: authority_is_current_def)

lemma rebound_reached: "client_reach demo_options rebound_world"
proof -
  have "cl_binding (cw_client subscribing_world) = Some (demo_binding ''t1'')"
    "cl_disposed (cw_client subscribing_world) = False" "js_trim ''t2'' \<noteq> []" by code_simp+
  then have "bind_client (demo_binding ''t2'') (cw_client subscribing_world) =
      Inr (True, invalidate_authority False ((cw_client subscribing_world) \<lparr> cl_binding := Some (demo_binding ''t2'') \<rparr>))"
    by (simp add: bind_client_def demo_binding_def Let_def)
  then have "client_step demo_options subscribing_world rebound_world"
    unfolding rebound_world_def by (rule client_step.step_bind)
  then show ?thesis using subscribing_reached by (rule rtranclp.rtrancl_into_rtrancl[rotated])
qed

lemma stale_attempt_is_joined_witness:
  "client_reach demo_options rebound_world \<and> map_of (cw_attempts rebound_world) 0 = Some demo_attempt \<and>
   subscribe demo_options Personal_scope rebound_world = (Some 0, rebound_world) \<and>
   map_of (cl_subscriptionIdByScope
     (cw_client (attempt_created demo_options 0 demo_attempt (Some demo_subscription) rebound_world)))
     (scope_key Personal_scope) = None"
proof -
  have facts: "map_of (cw_attempts rebound_world) 0 = Some demo_attempt"
    "map_of (cl_subscriptionAttempts (cw_client rebound_world)) (scope_key Personal_scope) = Some 0"
    "map_of (cl_subscriptionIdByScope (cw_client rebound_world)) (scope_key Personal_scope) = None"
    "\<not> cl_disposed (cw_client rebound_world)" "at_generation demo_attempt \<noteq> cl_authorityGeneration (cw_client rebound_world)"
    by code_simp+
  show ?thesis using stale_attempt_is_joined[OF facts(2-5)] facts(1) rebound_reached by blast
qed

end
