(* ===== verification/Notification_Drain.thy ===== *)
theory Notification_Drain
  imports Protocol_Fields Step_Machines
begin

text \<open>
  The controller that drains work on PostgreSQL notifications,
  \<^verbatim>\<open>packages/shared/src/notification-drain-controller.ts\<close>: it keeps a listening client connected, runs
  \<^verbatim>\<open>processOnce\<close> once at a time, again when a notification came meanwhile, and retries failures and lost
  connections with a capped backoff.

  The callbacks and the suspended \<^verbatim>\<open>async\<close> functions of the source are the rules of \<open>drain_step\<close>. What
  the pool, its clients, \<^verbatim>\<open>processOnce\<close> and the clock do is the choice of the rule. A timer fires only
  when no promise callback is pending, as the event loop has it.
\<close>

section \<open>The controller\<close>

record drain_config =
  dc_channels :: "string list"
  dc_reconnectBaseMs :: int
  dc_maxReconnectDelayMs :: int
  dc_processRetryBaseMs :: int
  dc_maxProcessRetryDelayMs :: int

definition max_timer_delay_ms :: int where
  "max_timer_delay_ms = 2147483647"

definition channel_ok :: "string \<Rightarrow> bool" where
  "channel_ok c \<longleftrightarrow> c \<noteq> [] \<and> is_lower (hd c) \<and> list_all (\<lambda>x. is_lower_alnum x \<or> x = CHR ''_'') (tl c)"

text \<open>\<^verbatim>\<open>Math.max(options.x ?? default, 1)\<close>\<close>

definition at_least_one :: "int option \<Rightarrow> int \<Rightarrow> int" where
  "at_least_one x fallback = max (case x of None \<Rightarrow> fallback | Some n \<Rightarrow> n) 1"

definition drain_config_of ::
  "string list \<Rightarrow> int option \<Rightarrow> int option \<Rightarrow> int option \<Rightarrow> int option \<Rightarrow> drain_config result" where
  "drain_config_of channels reconnectBase maxReconnect retryBase maxRetry =
     (let unique = rev (remdups (rev channels)) in
      if unique = [] \<or> \<not> list_all channel_ok unique
      then Inl (TypeError ''Notification drain channels must be non-empty PostgreSQL identifiers'')
      else Inr \<lparr> dc_channels = unique, dc_reconnectBaseMs = at_least_one reconnectBase 250,
                 dc_maxReconnectDelayMs = at_least_one maxReconnect 10000,
                 dc_processRetryBaseMs = at_least_one retryBase 1000,
                 dc_maxProcessRetryDelayMs = at_least_one maxRetry 30000 \<rparr>)"

datatype drain_lifecycle = Drain_idle | Drain_started | Drain_stopped

text \<open>Where \<^verbatim>\<open>connectWakeClient\<close> is suspended: in \<^verbatim>\<open>connect\<close>, in a \<^verbatim>\<open>listen\<close> with so many channels done, in
  \<^verbatim>\<open>unlistenAndRelease\<close> with so many queries left, on whose end it reconnects or returns, or before its
  \<^verbatim>\<open>finally\<close>.\<close>

datatype connection_phase =
    Connecting
  | Listening nat nat
  | Unlistening nat nat bool
  | Connection_over

text \<open>Where the processing promise is: in \<^verbatim>\<open>processOnce\<close> or before its \<^verbatim>\<open>finally\<close>.\<close>

datatype processing_phase = Running | Processing_over

text \<open>\<open>dr_released\<close> is the set \<^verbatim>\<open>releasedClients\<close>, and so the clients whose \<^verbatim>\<open>release\<close> was called. The last four are
  ghost: the calls of \<^verbatim>\<open>processOnce\<close>, whether a drain was requested since the last of them began, the clients
  the pool gave out, and those \<^verbatim>\<open>releaseClient\<close> was called for again, which it does not give back.\<close>

record drain =
  dr_lifecycle :: drain_lifecycle
  dr_wakeClient :: "nat option"
  dr_connection :: "connection_phase option"
  dr_processing :: "processing_phase option"
  dr_stopping :: "(nat \<times> nat) option"
  dr_reconnectTimer :: "int option"
  dr_retryTimer :: "int option"
  dr_retryAtMs :: "int option"
  dr_reconnectAttempt :: nat
  dr_processFailureAttempt :: nat
  dr_runAgain :: bool
  dr_released :: "nat list"
  dr_runs :: nat
  dr_wanted :: bool
  dr_obtained :: "nat list"
  dr_lost :: "nat list"

definition new_drain :: drain where
  "new_drain =
     \<lparr> dr_lifecycle = Drain_idle, dr_wakeClient = None, dr_connection = None, dr_processing = None,
       dr_stopping = None, dr_reconnectTimer = None, dr_retryTimer = None, dr_retryAtMs = None,
       dr_reconnectAttempt = 0, dr_processFailureAttempt = 0, dr_runAgain = False, dr_released = [],
       dr_runs = 0, dr_wanted = False, dr_obtained = [], dr_lost = [] \<rparr>"

section \<open>Its functions\<close>

definition release_client :: "nat \<Rightarrow> drain \<Rightarrow> drain" where
  "release_client k d =
     (if k \<in> set (dr_released d) then d \<lparr> dr_lost := k # dr_lost d \<rparr> else d \<lparr> dr_released := k # dr_released d \<rparr>)"

text \<open>The start of the loop body.\<close>

definition begin_run :: "drain \<Rightarrow> drain" where
  "begin_run d =
     d \<lparr> dr_processing := Some Running, dr_runAgain := False, dr_runs := Suc (dr_runs d), dr_wanted := False \<rparr>"

definition request_drain :: "drain \<Rightarrow> drain" where
  "request_drain d =
     (if dr_lifecycle d \<noteq> Drain_started then d
      else if dr_processing d \<noteq> None then d \<lparr> dr_runAgain := True, dr_wanted := True \<rparr>
      else begin_run d)"

definition schedule_retry_at :: "int \<Rightarrow> int \<Rightarrow> drain \<Rightarrow> drain" where
  "schedule_retry_at candidate now d =
     (if (case dr_retryAtMs d of None \<Rightarrow> False | Some t \<Rightarrow> t \<le> candidate) then d
      else d \<lparr> dr_retryAtMs := Some candidate,
               dr_retryTimer := Some (min (max (candidate - now) 0) max_timer_delay_ms) \<rparr>)"

text \<open>\<^verbatim>\<open>scheduleRetry\<close>; \<open>parse\<close> is the engine's \<^verbatim>\<open>Date.parse\<close>.\<close>

definition schedule_retry :: "(string \<Rightarrow> int option) \<Rightarrow> string option \<Rightarrow> int \<Rightarrow> drain \<Rightarrow> drain result" where
  "schedule_retry parse retryAt now d =
     (case retryAt of
        None \<Rightarrow> Inr d
      | Some t \<Rightarrow>
          if dr_lifecycle d \<noteq> Drain_started \<or> t = [] then Inr d
          else
            (case parse t of
               None \<Rightarrow> Inl (TypeError ''Notification drain retry time must be valid ISO-8601'')
             | Some c \<Rightarrow> Inr (schedule_retry_at c now d)))"

definition backoff :: "int \<Rightarrow> int \<Rightarrow> nat \<Rightarrow> int" where
  "backoff base cap attempt = min (base * 2 ^ attempt) cap"

definition schedule_reconnect :: "drain_config \<Rightarrow> drain \<Rightarrow> drain" where
  "schedule_reconnect cfg d =
     (if dr_lifecycle d \<noteq> Drain_started \<or> dr_reconnectTimer d \<noteq> None then d
      else d \<lparr> dr_reconnectTimer :=
                 Some (backoff (dc_reconnectBaseMs cfg) (dc_maxReconnectDelayMs cfg) (dr_reconnectAttempt d)),
               dr_reconnectAttempt := Suc (dr_reconnectAttempt d) \<rparr>)"

definition connect_wake_client :: "drain \<Rightarrow> drain" where
  "connect_wake_client d =
     (if dr_lifecycle d \<noteq> Drain_started \<or> dr_wakeClient d \<noteq> None \<or> dr_connection d \<noteq> None then d
      else d \<lparr> dr_connection := Some Connecting \<rparr>)"

text \<open>\<^verbatim>\<open>unlistenAndRelease\<close> from here on; with no query left it releases the client, and the connecting
  function reconnects if it was in its \<^verbatim>\<open>catch\<close>.\<close>

definition unlisten :: "drain_config \<Rightarrow> nat \<Rightarrow> nat \<Rightarrow> bool \<Rightarrow> drain \<Rightarrow> drain" where
  "unlisten cfg k left reconnect d =
     (if 0 < left then d \<lparr> dr_connection := Some (Unlistening k left reconnect) \<rparr>
      else
        let r = (release_client k d) \<lparr> dr_connection := Some Connection_over \<rparr> in
        if reconnect then schedule_reconnect cfg r else r)"

text \<open>After the \<^verbatim>\<open>listen\<close> queries: the lifecycle is checked again.\<close>

definition all_listened :: "drain_config \<Rightarrow> nat \<Rightarrow> drain \<Rightarrow> drain" where
  "all_listened cfg k d =
     (if dr_lifecycle d \<noteq> Drain_started then unlisten cfg k (length (dc_channels cfg)) False d
      else
        request_drain
          (d \<lparr> dr_wakeClient := Some k, dr_reconnectAttempt := 0, dr_connection := Some Connection_over \<rparr>))"

definition drain_connected :: "drain_config \<Rightarrow> nat \<Rightarrow> drain \<Rightarrow> drain" where
  "drain_connected cfg k d0 =
     (let d = d0 \<lparr> dr_obtained := k # dr_obtained d0 \<rparr> in
      if dr_lifecycle d \<noteq> Drain_started then (release_client k d) \<lparr> dr_connection := Some Connection_over \<rparr>
      else if dc_channels cfg = [] then all_listened cfg k d
      else d \<lparr> dr_connection := Some (Listening k 0) \<rparr>)"

definition drain_listened :: "drain_config \<Rightarrow> nat \<Rightarrow> nat \<Rightarrow> drain \<Rightarrow> drain" where
  "drain_listened cfg k n d =
     (if Suc n < length (dc_channels cfg) then d \<lparr> dr_connection := Some (Listening k (Suc n)) \<rparr>
      else all_listened cfg k d)"

definition drain_client_error :: "drain_config \<Rightarrow> nat \<Rightarrow> drain \<Rightarrow> drain" where
  "drain_client_error cfg k d =
     (if dr_wakeClient d \<noteq> Some k then d
      else schedule_reconnect cfg (release_client k (d \<lparr> dr_wakeClient := None \<rparr>)))"

text \<open>The loop after \<^verbatim>\<open>processOnce\<close> returned, with \<^verbatim>\<open>shouldContinue\<close> of its result.\<close>

definition drain_processed :: "bool \<Rightarrow> drain \<Rightarrow> drain" where
  "drain_processed continue d0 =
     (let d = d0 \<lparr> dr_processFailureAttempt := 0, dr_runAgain := dr_runAgain d0 \<or> continue \<rparr> in
      if dr_lifecycle d = Drain_started \<and> dr_runAgain d then begin_run d
      else d \<lparr> dr_processing := Some Processing_over \<rparr>)"

text \<open>The \<^verbatim>\<open>catch\<close>: \<^verbatim>\<open>processOnce\<close> failed, or a callback on its result did. A time that is no date throws in
  turn, and nothing is scheduled.\<close>

definition drain_failed :: "drain_config \<Rightarrow> bool \<Rightarrow> int \<Rightarrow> drain \<Rightarrow> drain" where
  "drain_failed cfg processed now d =
     (let n = (if processed then 0 else dr_processFailureAttempt d);
          at_ms = now + backoff (dc_processRetryBaseMs cfg) (dc_maxProcessRetryDelayMs cfg) n;
          d' = d \<lparr> dr_processFailureAttempt := Suc n, dr_processing := Some Processing_over \<rparr>
      in if \<bar>at_ms\<bar> > 8640000000000000 \<or> dr_lifecycle d \<noteq> Drain_started then d'
         else schedule_retry_at at_ms now d')"

definition drain_process_finally :: "drain \<Rightarrow> drain" where
  "drain_process_finally d =
     (let d' = d \<lparr> dr_processing := None \<rparr> in
      if dr_lifecycle d' = Drain_started \<and> dr_runAgain d' then request_drain d' else d')"

definition drain_start :: "drain \<Rightarrow> drain" where
  "drain_start d =
     (if dr_lifecycle d \<noteq> Drain_idle then d else connect_wake_client (d \<lparr> dr_lifecycle := Drain_started \<rparr>))"

definition drain_stop :: "drain_config \<Rightarrow> drain \<Rightarrow> drain" where
  "drain_stop cfg d =
     (if dr_lifecycle d = Drain_stopped then d
      else
        let d' = d \<lparr> dr_lifecycle := Drain_stopped, dr_runAgain := False, dr_reconnectTimer := None,
                     dr_retryTimer := None, dr_retryAtMs := None, dr_wakeClient := None \<rparr>
        in case dr_wakeClient d of
             None \<Rightarrow> d'
           | Some k \<Rightarrow>
               if dc_channels cfg = [] then release_client k d'
               else d' \<lparr> dr_stopping := Some (k, length (dc_channels cfg)) \<rparr>)"

definition drain_stop_unlistened :: "nat \<Rightarrow> nat \<Rightarrow> drain \<Rightarrow> drain" where
  "drain_stop_unlistened k left d =
     (if 1 < left then d \<lparr> dr_stopping := Some (k, left - 1) \<rparr>
      else release_client k (d \<lparr> dr_stopping := None \<rparr>))"

section \<open>Steps\<close>

definition quiet :: "drain \<Rightarrow> bool" where
  "quiet d \<longleftrightarrow> dr_connection d \<noteq> Some Connection_over \<and> dr_processing d \<noteq> Some Processing_over"

text \<open>Of the pool: a client it gave out it gives out again only after it was released as often.\<close>

inductive drain_step :: "drain_config \<Rightarrow> drain \<Rightarrow> drain \<Rightarrow> bool" for cfg where
  start: "drain_step cfg d (drain_start d)"
| stop: "drain_step cfg d (drain_stop cfg d)"
| request: "drain_step cfg d (request_drain d)"
| schedule: "schedule_retry parse t now d = Inr d' \<Longrightarrow> drain_step cfg d d'"
| connected:
    "dr_connection d = Some Connecting \<Longrightarrow> count_list (dr_obtained d) k = count_list (dr_released d) k \<Longrightarrow>
     drain_step cfg d (drain_connected cfg k d)"
| connect_failed:
    "dr_connection d = Some Connecting \<Longrightarrow>
     drain_step cfg d (schedule_reconnect cfg (d \<lparr> dr_connection := Some Connection_over \<rparr>))"
| listened: "dr_connection d = Some (Listening k n) \<Longrightarrow> drain_step cfg d (drain_listened cfg k n d)"
| listen_failed: "dr_connection d = Some (Listening k n) \<Longrightarrow> drain_step cfg d (unlisten cfg k n True d)"
| unlistened:
    "dr_connection d = Some (Unlistening k (Suc n) reconnect) \<Longrightarrow> drain_step cfg d (unlisten cfg k n reconnect d)"
| connection_finally:
    "dr_connection d = Some Connection_over \<Longrightarrow> drain_step cfg d (d \<lparr> dr_connection := None \<rparr>)"
| notification:
    "dr_wakeClient d = Some k \<Longrightarrow> channel \<in> set (dc_channels cfg) \<Longrightarrow> drain_step cfg d (request_drain d)"
| client_error: "drain_step cfg d (drain_client_error cfg k d)"
| processed: "dr_processing d = Some Running \<Longrightarrow> drain_step cfg d (drain_processed continue d)"
| failed:
    "dr_processing d = Some Running \<Longrightarrow> \<bar>now\<bar> + dc_maxProcessRetryDelayMs cfg \<le> 8640000000000000 \<Longrightarrow>
     drain_step cfg d (drain_failed cfg was_processed now d)"
| process_finally: "dr_processing d = Some Processing_over \<Longrightarrow> drain_step cfg d (drain_process_finally d)"
| reconnect_timer:
    "dr_reconnectTimer d \<noteq> None \<Longrightarrow> quiet d \<Longrightarrow>
     drain_step cfg d (connect_wake_client (d \<lparr> dr_reconnectTimer := None \<rparr>))"
| retry_timer:
    "dr_retryTimer d \<noteq> None \<Longrightarrow> quiet d \<Longrightarrow>
     drain_step cfg d (request_drain (d \<lparr> dr_retryTimer := None, dr_retryAtMs := None \<rparr>))"
| stop_unlistened: "dr_stopping d = Some (k, n) \<Longrightarrow> drain_step cfg d (drain_stop_unlistened k n d)"

abbreviation drain_reach :: "drain_config \<Rightarrow> drain \<Rightarrow> bool" where
  "drain_reach cfg d \<equiv> (drain_step cfg)\<^sup>*\<^sup>* new_drain d"

section \<open>The invariant\<close>

text \<open>The phases of the lifecycle, and of the connection.\<close>

fun connection_ok :: "connection_phase option \<Rightarrow> bool \<Rightarrow> bool \<Rightarrow> bool" where
  "connection_ok (Some Connecting) unset stopped = unset"
| "connection_ok (Some (Listening k n)) unset stopped = unset"
| "connection_ok (Some (Unlistening k n reconnect)) unset stopped = (unset \<and> (reconnect \<or> stopped))"
| "connection_ok _ unset stopped = True"

lemma connection_ok_stopped [simp]: "connection_ok c True True"
  by (induction c True True rule: connection_ok.induct) auto

lemma connection_ok_set: "connection_ok c False stopped \<longleftrightarrow> c = None \<or> c = Some Connection_over"
  by (induction c False stopped rule: connection_ok.induct) auto

definition link_inv :: "drain \<Rightarrow> bool" where
  "link_inv d \<longleftrightarrow>
     (dr_lifecycle d = Drain_idle \<longrightarrow> dr_wakeClient d = None \<and> dr_connection d = None \<and> dr_processing d = None \<and>
        dr_reconnectTimer d = None \<and> dr_retryTimer d = None \<and> \<not> dr_wanted d \<and> dr_processFailureAttempt d = 0) \<and>
     (dr_lifecycle d = Drain_stopped \<longrightarrow> dr_wakeClient d = None \<and> dr_reconnectTimer d = None \<and> dr_retryTimer d = None) \<and>
     (dr_lifecycle d = Drain_started \<longrightarrow> dr_stopping d = None \<and>
        (dr_wakeClient d \<noteq> None \<or> dr_connection d \<notin> {None, Some Connection_over} \<or> dr_reconnectTimer d \<noteq> None)) \<and>
     (dr_lifecycle d \<noteq> Drain_stopped \<longrightarrow> dr_stopping d = None) \<and>
     (dr_retryTimer d = None \<longleftrightarrow> dr_retryAtMs d = None) \<and>
     connection_ok (dr_connection d) (dr_wakeClient d = None) (dr_lifecycle d = Drain_stopped)"

text \<open>No request is lost, and a failure is followed by a retry.\<close>

definition work_inv :: "drain \<Rightarrow> bool" where
  "work_inv d \<longleftrightarrow>
     (dr_lifecycle d = Drain_started \<longrightarrow>
        (dr_wanted d \<longrightarrow> dr_processing d \<noteq> None \<and> dr_runAgain d) \<and>
        (0 < dr_processFailureAttempt d \<longrightarrow>
           dr_processing d = Some Running \<or> dr_retryTimer d \<noteq> None \<or> dr_processing d \<noteq> None \<and> dr_runAgain d))"

lemmas drain_functions =
  drain_start_def drain_stop_def request_drain_def begin_run_def schedule_retry_at_def schedule_reconnect_def
  connect_wake_client_def unlisten_def all_listened_def drain_connected_def drain_listened_def
  drain_client_error_def drain_processed_def drain_failed_def drain_process_finally_def release_client_def
  drain_stop_unlistened_def Let_def quiet_def

lemma schedule_retry_cases:
  assumes "schedule_retry parse t now d = Inr d'"
  shows "d' = d \<or> dr_lifecycle d = Drain_started \<and> (\<exists>c. d' = schedule_retry_at c now d)"
  using assms by (auto simp: schedule_retry_def split: option.splits if_splits)

lemma link_retry_at: "link_inv d \<Longrightarrow> dr_lifecycle d = Drain_started \<Longrightarrow> link_inv (schedule_retry_at c now d)"
  by (auto simp: link_inv_def schedule_retry_at_def)

lemma link_request: "link_inv d \<Longrightarrow> link_inv (request_drain d)"
  by (auto simp: link_inv_def request_drain_def begin_run_def)

lemma link_listened: "dr_connection d = Some (Listening k n) \<Longrightarrow> link_inv d \<Longrightarrow> link_inv (drain_listened cfg k n d)"
  by (cases "dr_lifecycle d")
    (auto simp: drain_listened_def all_listened_def unlisten_def request_drain_def begin_run_def release_client_def
      link_inv_def Let_def)

lemma link_step: "drain_step cfg d d' \<Longrightarrow> link_inv d \<Longrightarrow> link_inv d'"
proof (induction rule: drain_step.induct)
  case (schedule parse t now d d')
  then show ?case using schedule_retry_cases link_retry_at by metis
next
  case (request d)
  then show ?case by (rule link_request)
next
  case (notification d k channel)
  then show ?case by (intro link_request)
next
  case (listened d k n)
  then show ?case by (rule link_listened)
next
  case (failed d now was_processed)
  then show ?case by (auto simp: drain_failed_def schedule_retry_at_def link_inv_def Let_def)
next
  case (stop d)
  then show ?case
    by (cases "dr_lifecycle d"; cases "dr_wakeClient d") (simp_all add: drain_stop_def release_client_def link_inv_def Let_def)
next
  case (start d)
  then show ?case by (cases "dr_lifecycle d") (auto simp: drain_start_def connect_wake_client_def link_inv_def)
next
  case (connected d k)
  then show ?case by (cases "dr_lifecycle d") 
      (auto simp: drain_connected_def all_listened_def unlisten_def request_drain_def begin_run_def
        release_client_def schedule_reconnect_def Let_def link_inv_def)
next
  case (connect_failed d)
  then show ?case by (cases "dr_lifecycle d") (auto simp: schedule_reconnect_def link_inv_def)
next
  case (listen_failed d k n)
  then show ?case by (cases "dr_lifecycle d") (auto simp: unlisten_def release_client_def schedule_reconnect_def Let_def link_inv_def)
next
  case (unlistened d k n reconnect)
  then show ?case by (cases "dr_lifecycle d") (auto simp: unlisten_def release_client_def schedule_reconnect_def Let_def link_inv_def)
next
  case (connection_finally d)
  then show ?case by (cases "dr_lifecycle d") (auto simp:  link_inv_def)
next
  case (client_error d k)
  then show ?case by (cases "dr_lifecycle d") 
      (auto simp: drain_client_error_def release_client_def schedule_reconnect_def link_inv_def connection_ok_set)
next
  case (processed d continue)
  then show ?case by (cases "dr_lifecycle d") (auto simp: drain_processed_def begin_run_def Let_def link_inv_def)
next
  case (process_finally d)
  then show ?case by (cases "dr_lifecycle d") (auto simp: drain_process_finally_def request_drain_def begin_run_def Let_def link_inv_def)
next
  case (reconnect_timer d)
  then show ?case by (cases "dr_lifecycle d") (auto simp: connect_wake_client_def quiet_def link_inv_def)
next
  case (retry_timer d)
  then show ?case by (cases "dr_lifecycle d") (auto simp: request_drain_def begin_run_def link_inv_def)
next
  case (stop_unlistened d k n)
  then show ?case by (cases "dr_lifecycle d") (auto simp: drain_stop_unlistened_def release_client_def link_inv_def)
qed

lemma work_request: "work_inv d \<Longrightarrow> work_inv (request_drain d)"
  by (auto simp: work_inv_def request_drain_def begin_run_def)

lemma work_retry_at: "work_inv d \<Longrightarrow> work_inv (schedule_retry_at c now d)"
  by (auto simp: work_inv_def schedule_retry_at_def)

text \<open>Functions that only deal with the connection leave the work alone.\<close>

lemma work_cong:
  assumes "work_inv d" "dr_lifecycle d' = dr_lifecycle d" "dr_processing d' = dr_processing d"
    "dr_runAgain d' = dr_runAgain d" "dr_wanted d' = dr_wanted d"
    "dr_processFailureAttempt d' = dr_processFailureAttempt d" "dr_retryTimer d' = dr_retryTimer d"
  shows "work_inv d'"
  using assms by (simp add: work_inv_def)

lemma release_same [simp]:
  "dr_lifecycle (release_client k d) = dr_lifecycle d" "dr_processing (release_client k d) = dr_processing d"
  "dr_runAgain (release_client k d) = dr_runAgain d" "dr_wanted (release_client k d) = dr_wanted d"
  "dr_processFailureAttempt (release_client k d) = dr_processFailureAttempt d"
  "dr_retryTimer (release_client k d) = dr_retryTimer d" "dr_runs (release_client k d) = dr_runs d"
  "dr_wakeClient (release_client k d) = dr_wakeClient d" "dr_connection (release_client k d) = dr_connection d"
  "dr_stopping (release_client k d) = dr_stopping d" "dr_obtained (release_client k d) = dr_obtained d"
  "dr_reconnectTimer (release_client k d) = dr_reconnectTimer d"
  by (simp_all add: release_client_def)

lemma reconnect_same [simp]:
  "dr_lifecycle (schedule_reconnect cfg d) = dr_lifecycle d" "dr_processing (schedule_reconnect cfg d) = dr_processing d"
  "dr_runAgain (schedule_reconnect cfg d) = dr_runAgain d" "dr_wanted (schedule_reconnect cfg d) = dr_wanted d"
  "dr_processFailureAttempt (schedule_reconnect cfg d) = dr_processFailureAttempt d"
  "dr_retryTimer (schedule_reconnect cfg d) = dr_retryTimer d" "dr_runs (schedule_reconnect cfg d) = dr_runs d"
  "dr_wakeClient (schedule_reconnect cfg d) = dr_wakeClient d" "dr_connection (schedule_reconnect cfg d) = dr_connection d"
  "dr_stopping (schedule_reconnect cfg d) = dr_stopping d" "dr_obtained (schedule_reconnect cfg d) = dr_obtained d"
  "dr_released (schedule_reconnect cfg d) = dr_released d" "dr_lost (schedule_reconnect cfg d) = dr_lost d"
  by (simp_all add: schedule_reconnect_def)

lemma unlisten_same [simp]:
  "dr_lifecycle (unlisten cfg k n r d) = dr_lifecycle d" "dr_processing (unlisten cfg k n r d) = dr_processing d"
  "dr_runAgain (unlisten cfg k n r d) = dr_runAgain d" "dr_wanted (unlisten cfg k n r d) = dr_wanted d"
  "dr_processFailureAttempt (unlisten cfg k n r d) = dr_processFailureAttempt d"
  "dr_retryTimer (unlisten cfg k n r d) = dr_retryTimer d" "dr_runs (unlisten cfg k n r d) = dr_runs d"
  "dr_wakeClient (unlisten cfg k n r d) = dr_wakeClient d" "dr_stopping (unlisten cfg k n r d) = dr_stopping d"
  "dr_obtained (unlisten cfg k n r d) = dr_obtained d"
  by (simp_all add: unlisten_def Let_def)

lemma wake_same [simp]:
  "dr_lifecycle (connect_wake_client d) = dr_lifecycle d" "dr_processing (connect_wake_client d) = dr_processing d"
  "dr_runAgain (connect_wake_client d) = dr_runAgain d" "dr_wanted (connect_wake_client d) = dr_wanted d"
  "dr_processFailureAttempt (connect_wake_client d) = dr_processFailureAttempt d"
  "dr_retryTimer (connect_wake_client d) = dr_retryTimer d" "dr_runs (connect_wake_client d) = dr_runs d"
  "dr_wakeClient (connect_wake_client d) = dr_wakeClient d" "dr_stopping (connect_wake_client d) = dr_stopping d"
  "dr_obtained (connect_wake_client d) = dr_obtained d" "dr_released (connect_wake_client d) = dr_released d"
  by (simp_all add: connect_wake_client_def)

lemma work_all_listened: "work_inv d \<Longrightarrow> work_inv (all_listened cfg k d)"
  unfolding all_listened_def by (auto intro!: work_request elim!: work_cong)

lemma work_connected: "work_inv d \<Longrightarrow> work_inv (drain_connected cfg k d)"
  unfolding drain_connected_def Let_def by (auto intro!: work_all_listened elim!: work_cong)

lemma work_listened: "work_inv d \<Longrightarrow> work_inv (drain_listened cfg k n d)"
  unfolding drain_listened_def by (auto intro!: work_all_listened elim!: work_cong)

lemma work_idle: "link_inv d \<Longrightarrow> dr_lifecycle d = Drain_idle \<Longrightarrow> dr_processing d = None"
  by (simp add: link_inv_def)

lemma backoff_bounds:
  assumes "0 \<le> base" "0 \<le> cap"
  shows "0 \<le> backoff base cap n" "backoff base cap n \<le> cap"
  using assms by (simp_all add: backoff_def)

lemma work_failed:
  assumes "work_inv d" "link_inv d" "\<bar>now\<bar> + dc_maxProcessRetryDelayMs cfg \<le> 8640000000000000"
    and "0 \<le> dc_processRetryBaseMs cfg" "0 \<le> dc_maxProcessRetryDelayMs cfg"
  shows "work_inv (drain_failed cfg p now d)"
proof -
  define wait where "wait = backoff (dc_processRetryBaseMs cfg) (dc_maxProcessRetryDelayMs cfg)
    (if p then 0 else dr_processFailureAttempt d)"
  have "0 \<le> wait" "wait \<le> dc_maxProcessRetryDelayMs cfg"
    unfolding wait_def by (intro backoff_bounds assms)+
  then have "\<not> 8640000000000000 < \<bar>now + wait\<bar>" using assms(3) by linarith
  then have "drain_failed cfg p now d =
      (let d' = d \<lparr> dr_processFailureAttempt := Suc (if p then 0 else dr_processFailureAttempt d),
                    dr_processing := Some Processing_over \<rparr>
       in if dr_lifecycle d \<noteq> Drain_started then d' else schedule_retry_at (now + wait) now d')"
    by (simp add: drain_failed_def Let_def wait_def)
  then show ?thesis
    using assms(1,2) by (auto simp: work_inv_def schedule_retry_at_def link_inv_def Let_def)
qed

definition config_ok :: "drain_config \<Rightarrow> bool" where
  "config_ok cfg \<longleftrightarrow> 1 \<le> dc_processRetryBaseMs cfg \<and> 1 \<le> dc_maxProcessRetryDelayMs cfg \<and>
     1 \<le> dc_reconnectBaseMs cfg \<and> 1 \<le> dc_maxReconnectDelayMs cfg \<and> dc_channels cfg \<noteq> []"

lemma drain_config_of_ok: "drain_config_of cs a b c e = Inr cfg \<Longrightarrow> config_ok cfg"
  by (auto simp: drain_config_of_def config_ok_def at_least_one_def Let_def split: if_splits)

lemma work_step: "drain_step cfg d d' \<Longrightarrow> link_inv d \<Longrightarrow> config_ok cfg \<Longrightarrow> work_inv d \<Longrightarrow> work_inv d'"
proof (induction rule: drain_step.induct)
  case (start d)
  then show ?case by (auto simp: drain_start_def work_inv_def connect_wake_client_def link_inv_def)
next
  case (stop d)
  then show ?case by (simp add: drain_stop_def work_inv_def Let_def split: option.split)
next
  case (schedule parse t now d d')
  then show ?case using schedule_retry_cases work_retry_at by metis
next
  case (failed d now was_processed)
  then show ?case by (intro work_failed) (simp_all add: config_ok_def)
next
  case (processed d continue)
  then show ?case by (auto simp: drain_processed_def begin_run_def work_inv_def Let_def)
next
  case (process_finally d)
  then show ?case by (auto simp: drain_process_finally_def request_drain_def begin_run_def work_inv_def Let_def)
next
  case (retry_timer d)
  then show ?case by (auto simp: request_drain_def begin_run_def work_inv_def)
next
  case (stop_unlistened d k n)
  then show ?case by (simp add: drain_stop_unlistened_def work_inv_def)
next
  case (client_error d k)
  then show ?case by (simp add: drain_client_error_def work_inv_def)
next
  case (connected d k)
  then show ?case by (intro work_connected)
next
  case (listened d k n)
  then show ?case by (intro work_listened)
next
  case (request d)
  then show ?case by (intro work_request)
next
  case (notification d k channel)
  then show ?case by (intro work_request)
qed (simp_all add: work_inv_def)

text \<open>Each client the pool gave out is held in one place or has been released, once; or it had been released
  before and is lost.\<close>

fun connection_clients :: "connection_phase option \<Rightarrow> nat list" where
  "connection_clients (Some (Listening k n)) = [k]"
| "connection_clients (Some (Unlistening k n reconnect)) = [k]"
| "connection_clients _ = []"

definition held :: "drain \<Rightarrow> nat list" where
  "held d =
     (case dr_wakeClient d of None \<Rightarrow> [] | Some k \<Rightarrow> [k]) @ connection_clients (dr_connection d) @
     (case dr_stopping d of None \<Rightarrow> [] | Some (k, n) \<Rightarrow> [k])"

definition accounts_ok :: "nat list \<Rightarrow> nat list \<Rightarrow> nat list \<Rightarrow> nat list \<Rightarrow> bool" where
  "accounts_ok obtained holding released lost \<longleftrightarrow>
     mset obtained = mset holding + mset released + mset lost \<and> distinct released \<and> set lost \<subseteq> set released \<and>
     distinct (holding @ lost)"

definition client_inv :: "drain \<Rightarrow> bool" where
  "client_inv d \<longleftrightarrow> accounts_ok (dr_obtained d) (held d) (dr_released d) (dr_lost d)"

lemma accounts_release:
  assumes "accounts_ok obtained (front @ k # back) released lost"
  shows "k \<in> set released \<Longrightarrow> accounts_ok obtained (front @ back) released (k # lost)"
    "k \<notin> set released \<Longrightarrow> accounts_ok obtained (front @ back) (k # released) lost"
  using assms by (auto simp: accounts_ok_def)

lemma accounts_obtain:
  assumes "accounts_ok obtained holding released lost" "count_list obtained k = count_list released k"
  shows "accounts_ok (k # obtained) (k # holding) released lost"
proof -
  have "count (mset obtained) k = count (mset released) k" using assms(2) by (simp add: count_mset)
  then have "k \<notin> set holding" "k \<notin> set lost" using assms(1) by (auto simp: accounts_ok_def)
  then show ?thesis using assms(1) by (simp add: accounts_ok_def)
qed

lemma release_client_inv:
  assumes "accounts_ok (dr_obtained d) (front @ k # back) (dr_released d) (dr_lost d)" "held d' = front @ back"
    "dr_obtained d' = dr_obtained d" "dr_released d' = dr_released (release_client k d)" "dr_lost d' = dr_lost (release_client k d)"
  shows "client_inv d'"
  using accounts_release[OF assms(1)] assms(2-5) by (auto simp: client_inv_def release_client_def)

lemma request_clients [simp]:
  "held (request_drain d) = held d" "dr_released (request_drain d) = dr_released d" "dr_lost (request_drain d) = dr_lost d"
  "dr_wakeClient (request_drain d) = dr_wakeClient d" "dr_connection (request_drain d) = dr_connection d"
  "dr_stopping (request_drain d) = dr_stopping d"
  "dr_obtained (request_drain d) = dr_obtained d"
  by (simp_all add: request_drain_def begin_run_def held_def)

lemma unlisten_clients:
  assumes "connection_clients (dr_connection d) = [k]" "client_inv d"
  shows "client_inv (unlisten cfg k n r d)"
proof (cases "0 < n")
  case True
  then show ?thesis using assms by (simp add: client_inv_def unlisten_def held_def)
next
  case False
  let ?wake = "case dr_wakeClient d of None \<Rightarrow> [] | Some k \<Rightarrow> [k]"
    and ?stop = "case dr_stopping d of None \<Rightarrow> [] | Some (k, n) \<Rightarrow> [k]"
  have "held d = ?wake @ k # ?stop" using assms(1) by (simp add: held_def)
  then show ?thesis using assms(2) False
    by (intro release_client_inv[of d ?wake k ?stop])
      (simp_all add: client_inv_def unlisten_def held_def release_client_def Let_def)
qed

lemma all_listened_clients:
  assumes "dr_connection d = Some (Listening k n)" "dr_wakeClient d = None" "client_inv d"
  shows "client_inv (all_listened cfg k d)"
proof (cases "dr_lifecycle d = Drain_started")
  case True
  then show ?thesis using assms by (simp add: client_inv_def all_listened_def held_def)
next
  case False
  then show ?thesis using assms unlisten_clients[of d k] by (simp add: all_listened_def)
qed

lemma clients_step: "drain_step cfg d d' \<Longrightarrow> config_ok cfg \<Longrightarrow> link_inv d \<Longrightarrow> client_inv d \<Longrightarrow> client_inv d'"
proof (induction rule: drain_step.induct)
  case (start d)
  then show ?case
    by (cases "dr_lifecycle d")
      (simp_all add: client_inv_def drain_start_def connect_wake_client_def held_def link_inv_def)
next
  case (stop d)
  then show ?case
    by (cases "dr_lifecycle d"; cases "dr_wakeClient d") (auto simp: client_inv_def drain_stop_def held_def link_inv_def config_ok_def connection_ok_set Let_def)
next
  case (schedule parse t now d d')
  then have "d' = d \<or> (\<exists>c. d' = schedule_retry_at c now d)" using schedule_retry_cases by blast
  then show ?case using schedule.prems(3) by (auto simp: schedule_retry_at_def client_inv_def held_def)
next
  case (connected d k)
  let ?stop = "case dr_stopping d of None \<Rightarrow> [] | Some (k, n) \<Rightarrow> [k]"
  have wake: "dr_wakeClient d = None" using connected by (simp add: link_inv_def)
  then have "held d = ?stop" using connected.hyps(1) by (simp add: held_def)
  then have new: "accounts_ok (k # dr_obtained d) (k # ?stop) (dr_released d) (dr_lost d)"
    using accounts_obtain[OF _ connected.hyps(2)] connected.prems(3) by (simp add: client_inv_def)
  show ?case
  proof (cases "dr_lifecycle d = Drain_started")
    case True
    then show ?thesis using new wake connected.prems(1)
      by (simp add: drain_connected_def client_inv_def held_def config_ok_def Let_def)
  next
    case False
    then show ?thesis using new wake
      by (intro release_client_inv[of "d \<lparr> dr_obtained := k # dr_obtained d \<rparr>" "[]" k ?stop])
        (simp_all add: drain_connected_def held_def release_client_def Let_def)
  qed
next
  case (listened d k n)
  then have "dr_wakeClient d = None" by (simp add: link_inv_def)
  then have "client_inv (all_listened cfg k d)" using all_listened_clients listened by blast
  then show ?case using listened by (simp add: drain_listened_def client_inv_def held_def)
next
  case (listen_failed d k n)
  then show ?case by (intro unlisten_clients) simp_all
next
  case (unlistened d k n reconnect)
  then show ?case by (intro unlisten_clients) simp_all
next
  case (client_error d k)
  show ?case
  proof (cases "dr_wakeClient d = Some k")
    case True
    let ?rest = "connection_clients (dr_connection d) @ (case dr_stopping d of None \<Rightarrow> [] | Some (k, n) \<Rightarrow> [k])"
    show ?thesis using client_error True
      by (intro release_client_inv[of d "[]" k ?rest])
        (simp_all add: drain_client_error_def schedule_reconnect_def release_client_def client_inv_def held_def)
  qed (use client_error in \<open>simp add: drain_client_error_def\<close>)
next
  case (stop_unlistened d k n)
  let ?front = "(case dr_wakeClient d of None \<Rightarrow> [] | Some k \<Rightarrow> [k]) @ connection_clients (dr_connection d)"
  have held: "held d = ?front @ [k]" using stop_unlistened by (simp add: held_def)
  show ?case
  proof (cases "1 < n")
    case True
    then show ?thesis using stop_unlistened by (simp add: drain_stop_unlistened_def client_inv_def held_def)
  next
    case False
    then show ?thesis using stop_unlistened held
      by (intro release_client_inv[of d ?front k "[]"])
        (simp_all add: drain_stop_unlistened_def release_client_def client_inv_def held_def)
  qed
next
  case (failed d now was_processed)
  then show ?case by (simp add: drain_failed_def schedule_retry_at_def client_inv_def held_def Let_def)
next
  case (reconnect_timer d)
  then show ?case by (auto simp: connect_wake_client_def client_inv_def held_def)
next
  case (processed d continue)
  then show ?case by (simp add: drain_processed_def begin_run_def client_inv_def held_def Let_def)
next
  case (process_finally d)
  then show ?case
    by (simp add: drain_process_finally_def request_drain_def begin_run_def client_inv_def held_def Let_def)
qed (simp_all add: client_inv_def held_def schedule_reconnect_def)

section \<open>Stopped is final\<close>

lemma stopped_step:
  "drain_step cfg d d' \<Longrightarrow> dr_lifecycle d = Drain_stopped \<Longrightarrow>
   dr_lifecycle d' = Drain_stopped \<and> dr_runs d' = dr_runs d"
proof (induction rule: drain_step.induct)
  case (schedule parse t now d d')
  then show ?case using schedule_retry_cases by fastforce
next
  case (process_finally d)
  then show ?case by (simp add: drain_process_finally_def Let_def)
qed (simp_all add: drain_start_def drain_stop_def request_drain_def drain_connected_def drain_listened_def
    all_listened_def drain_client_error_def drain_processed_def drain_failed_def drain_stop_unlistened_def Let_def)

lemma stopped_steps:
  "(drain_step cfg)\<^sup>*\<^sup>* d d' \<Longrightarrow> dr_lifecycle d = Drain_stopped \<Longrightarrow>
   dr_lifecycle d' = Drain_stopped \<and> dr_runs d' = dr_runs d"
  by (induction rule: rtranclp_induct) (auto dest: stopped_step)

text \<open>What a stopped controller still waits for: answers of the pool, its clients and \<^verbatim>\<open>processOnce\<close>.\<close>

fun connection_work :: "nat \<Rightarrow> connection_phase option \<Rightarrow> nat" where
  "connection_work channels None = 0"
| "connection_work channels (Some Connection_over) = 1"
| "connection_work channels (Some Connecting) = 2"
| "connection_work channels (Some (Listening k n)) = 2 * channels + 3 - n"
| "connection_work channels (Some (Unlistening k n reconnect)) = n + 2"

definition closing_work :: "drain_config \<Rightarrow> drain \<Rightarrow> nat" where
  "closing_work cfg d =
     connection_work (length (dc_channels cfg)) (dr_connection d) +
     (case dr_processing d of None \<Rightarrow> 0 | Some Processing_over \<Rightarrow> 1 | Some Running \<Rightarrow> 2) +
     (case dr_stopping d of None \<Rightarrow> 0 | Some (k, n) \<Rightarrow> n + 1)"

text \<open>A listening connection has a channel to go, and an unlistening one too.\<close>

definition phases_ok :: "drain_config \<Rightarrow> drain \<Rightarrow> bool" where
  "phases_ok cfg d \<longleftrightarrow>
     (case dr_connection d of
        Some (Listening k n) \<Rightarrow> n < length (dc_channels cfg)
      | Some (Unlistening k n r) \<Rightarrow> 0 < n
      | _ \<Rightarrow> True)"

lemma phases_cong: "phases_ok cfg d \<Longrightarrow> dr_connection d' = dr_connection d \<Longrightarrow> phases_ok cfg d'"
  by (simp add: phases_ok_def)

lemma phases_unlisten: "phases_ok cfg (unlisten cfg k n r d)"
  by (simp add: phases_ok_def unlisten_def release_client_def schedule_reconnect_def Let_def)

lemma phases_all_listened: "phases_ok cfg (all_listened cfg k d)"
  by (simp add: all_listened_def phases_unlisten) (simp add: phases_ok_def)

lemma phases_step: "drain_step cfg d d' \<Longrightarrow> phases_ok cfg d \<Longrightarrow> phases_ok cfg d'"
proof (induction rule: drain_step.induct)
  case (schedule parse t now d d')
  then show ?case using schedule_retry_cases by (fastforce simp: schedule_retry_at_def elim: phases_cong)
next
  case (connected d k)
  then show ?case using phases_all_listened by (simp add: drain_connected_def Let_def) (simp add: phases_ok_def)
next
  case (listened d k n)
  then show ?case using phases_all_listened by (simp add: drain_listened_def) (simp add: phases_ok_def)
next
  case (stop d)
  then show ?case by (auto simp: drain_stop_def Let_def elim: phases_cong split: option.split)
next
  case (failed d now was_processed)
  then show ?case by (auto simp: drain_failed_def schedule_retry_at_def Let_def elim: phases_cong)
next
  case (processed d continue)
  then show ?case by (auto simp: drain_processed_def begin_run_def Let_def elim: phases_cong)
next
  case (process_finally d)
  then show ?case by (auto simp: drain_process_finally_def Let_def elim: phases_cong)
qed (simp_all add: phases_unlisten,
    auto simp: drain_start_def connect_wake_client_def schedule_reconnect_def drain_client_error_def
      drain_stop_unlistened_def phases_ok_def)

lemma stopped_step_settles:
  "drain_step cfg d d' \<Longrightarrow> dr_lifecycle d = Drain_stopped \<Longrightarrow> link_inv d \<Longrightarrow> phases_ok cfg d \<Longrightarrow>
   d' = d \<or> closing_work cfg d' < closing_work cfg d"
proof (induction rule: drain_step.induct)
  case (schedule parse t now d d')
  then show ?case using schedule_retry_cases by fastforce
next
  case (listened d k n)
  then show ?case
    by (auto simp: phases_ok_def closing_work_def drain_listened_def all_listened_def unlisten_def release_client_def
        schedule_reconnect_def Let_def)
next
  case (listen_failed d k n)
  then show ?case
    by (auto simp: phases_ok_def closing_work_def unlisten_def release_client_def schedule_reconnect_def Let_def)
next
  case (unlistened d k n reconnect)
  then show ?case
    by (auto simp: closing_work_def unlisten_def release_client_def schedule_reconnect_def Let_def)
next
  case (client_error d k)
  then show ?case by (simp add: drain_client_error_def link_inv_def)
qed (auto simp: closing_work_def link_inv_def drain_start_def drain_stop_def request_drain_def drain_connected_def
    schedule_reconnect_def release_client_def drain_processed_def drain_failed_def drain_process_finally_def
    drain_stop_unlistened_def connect_wake_client_def Let_def)

lemma stopped_step_exists:
  assumes "0 < closing_work cfg d" "phases_ok cfg d" "dr_lifecycle d = Drain_stopped"
  shows "\<exists>d'. drain_step cfg d d' \<and> d' \<noteq> d"
proof -
  have moves: "\<exists>d'. drain_step cfg d d' \<and> d' \<noteq> d" if "drain_step cfg d d'" "f d' \<noteq> f d" for d' and f :: "drain \<Rightarrow> 'a"
    using that by metis
  consider (connection) c where "dr_connection d = Some c" | (processing) p where "dr_processing d = Some p"
    | (stopping) k n where "dr_stopping d = Some (k, n)"
    using assms(1) by (cases "dr_connection d"; cases "dr_processing d"; cases "dr_stopping d") (auto simp: closing_work_def)
  then show ?thesis
  proof cases
    case (connection c)
    show ?thesis
    proof (cases c)
      case Connecting
      then show ?thesis using connection
        by (intro moves[OF drain_step.connect_failed, where f = dr_connection]) (simp_all add: schedule_reconnect_def)
    next
      case (Listening k n)
      then show ?thesis using connection
        by (intro moves[OF drain_step.listen_failed, where f = dr_connection])
          (simp_all add: unlisten_def schedule_reconnect_def Let_def)
    next
      case (Unlistening k n r)
      then obtain m where "n = Suc m" using assms(2) connection by (cases n) (simp_all add: phases_ok_def)
      then show ?thesis using connection Unlistening
        by (intro moves[OF drain_step.unlistened, where f = dr_connection])
          (auto simp: unlisten_def schedule_reconnect_def Let_def)
    next
      case Connection_over
      then show ?thesis using connection
        by (intro moves[OF drain_step.connection_finally, where f = dr_connection]) simp_all
    qed
  next
    case (processing p)
    show ?thesis
    proof (cases p)
      case Running
      then show ?thesis using processing assms(3)
        by (intro moves[OF drain_step.processed[of d cfg False], where f = dr_processing]) (simp_all add: drain_processed_def)
    next
      case Processing_over
      then show ?thesis using processing assms(3)
        by (intro moves[OF drain_step.process_finally, where f = dr_processing]) (simp_all add: drain_process_finally_def)
    qed
  next
    case (stopping k n)
    then show ?thesis
      by (intro moves[OF drain_step.stop_unlistened, where f = dr_stopping])
        (auto simp: drain_stop_unlistened_def release_client_def)
  qed
qed

section \<open>Reachable controllers\<close>

definition drain_inv :: "drain_config \<Rightarrow> drain \<Rightarrow> bool" where
  "drain_inv cfg d \<longleftrightarrow> link_inv d \<and> phases_ok cfg d \<and> (config_ok cfg \<longrightarrow> work_inv d \<and> client_inv d)"

interpretation draining: invariant_machine "drain_step cfg" "\<lambda>d. d = new_drain" "drain_inv cfg" for cfg
proof unfold_locales
  show "drain_inv cfg d" if "d = new_drain" for d
    using that by (simp add: drain_inv_def new_drain_def link_inv_def phases_ok_def work_inv_def client_inv_def held_def
        accounts_ok_def)
  show "drain_inv cfg d'" if "drain_step cfg d d'" "drain_inv cfg d" for d d'
    using that link_step phases_step work_step clients_step by (auto simp: drain_inv_def)
qed

lemmas drain_reach_inv = draining.reach_inv[OF refl]

end
