(* ===== verification/Drain_Properties.thy ===== *)
theory Drain_Properties
  imports Notification_Drain
begin

text \<open>
  The properties of the notification drain controller: no notification is lost, a failure or a lost
  connection is always followed by another try, and a stopped controller stays stopped, comes to rest and
  gives every client back that it was not given twice.
\<close>

text \<open>C18. While a controller is started it never stalls: a drain requested since the last run of
  \<^verbatim>\<open>processOnce\<close> began is pending behind a run in progress, after a failure a run, a retry timer or a pending
  rerun is there, and the controller is connected, connecting, or waiting to reconnect.\<close>

theorem started_drain_never_stalls:
  assumes "drain_reach cfg d" "config_ok cfg" "dr_lifecycle d = Drain_started"
  shows "\<not> (dr_wanted d \<and> (dr_processing d = None \<or> \<not> dr_runAgain d)) \<and>
    (dr_processFailureAttempt d = 0 \<or> dr_processing d = Some Running \<or> dr_retryTimer d \<noteq> None \<or>
       dr_processing d \<noteq> None \<and> dr_runAgain d) \<and>
    (dr_wakeClient d \<noteq> None \<or> dr_connection d \<notin> {None, Some Connection_over} \<or> dr_reconnectTimer d \<noteq> None)"
proof -
  have inv: "link_inv d" "work_inv d"
    using drain_reach_inv[OF assms(1)] assms(2) by (simp_all add: drain_inv_def)
  have "dr_wakeClient d \<noteq> None \<or> dr_connection d \<notin> {None, Some Connection_over} \<or> dr_reconnectTimer d \<noteq> None"
    using inv(1) assms(3) unfolding link_inv_def by blast
  then show ?thesis using inv(2) assms(3) unfolding work_inv_def by blast
qed

definition demo_drain :: drain_config where
  "demo_drain =
     \<lparr> dc_channels = [''work''], dc_reconnectBaseMs = 250, dc_maxReconnectDelayMs = 10000,
       dc_processRetryBaseMs = 1000, dc_maxProcessRetryDelayMs = 30000 \<rparr>"

lemma demo_drain_config: "drain_config_of [''work'', ''work''] None None None None = Inr demo_drain"
  by code_simp

text \<open>A run that connects, fails its first run while a notification arrives, and stops.\<close>

definition demo_connecting :: drain where "demo_connecting = drain_start new_drain"
definition demo_listening :: drain where "demo_listening = drain_connected demo_drain 7 demo_connecting"
definition demo_running :: drain where "demo_running = drain_listened demo_drain 7 0 demo_listening"
definition demo_notified :: drain where "demo_notified = request_drain demo_running"
definition demo_failing :: drain where "demo_failing = drain_failed demo_drain False 1000000 demo_notified"
definition demo_stopped :: drain where "demo_stopped = drain_stop demo_drain demo_failing"

lemmas demo_drain_states = demo_connecting_def demo_listening_def demo_running_def demo_notified_def
  demo_failing_def demo_stopped_def

lemma demo_drain_failing: "drain_reach demo_drain demo_failing"
proof -
  have "drain_step demo_drain new_drain demo_connecting"
    unfolding demo_connecting_def by (rule drain_step.start)
  moreover have "drain_step demo_drain demo_connecting demo_listening"
    unfolding demo_listening_def by (rule drain_step.connected) code_simp+
  moreover have "drain_step demo_drain demo_listening demo_running"
    unfolding demo_running_def by (rule drain_step.listened) code_simp
  moreover have "drain_step demo_drain demo_running demo_notified"
    unfolding demo_notified_def by (rule drain_step.notification[of _ 7 "''work''"]) code_simp+
  moreover have "drain_step demo_drain demo_notified demo_failing"
    unfolding demo_failing_def by (rule drain_step.failed) code_simp+
  ultimately show ?thesis by (meson converse_rtranclp_into_rtranclp rtranclp.rtrancl_refl)
qed

lemma started_drain_never_stalls_witness:
  "config_ok demo_drain \<and> dr_lifecycle demo_failing = Drain_started \<and> dr_wanted demo_failing \<and>
   dr_processing demo_failing \<noteq> None \<and> dr_runAgain demo_failing"
proof -
  have demo: "config_ok demo_drain" "dr_lifecycle demo_failing = Drain_started" "dr_wanted demo_failing"
    by code_simp+
  have "\<not> (dr_wanted demo_failing \<and> (dr_processing demo_failing = None \<or> \<not> dr_runAgain demo_failing))"
    using started_drain_never_stalls[OF demo_drain_failing demo(1,2)] by (rule conjunct1)
  then show ?thesis using demo by simp
qed

text \<open>C19. A stopped controller is silent and comes to rest. Whatever happens after the stop, it stays stopped,
  \<^verbatim>\<open>processOnce\<close> is not called again, no timer is armed and no client is kept listening; each answer it still
  waits for brings it closer to an end, and one that does is always possible until nothing is left to wait
  for. The clients the pool gave out, with repetition, are then those released, each once, and those given out
  a second time, which are not given back; so no client is lost if the pool gave out none twice.\<close>

theorem stopped_drain_is_silent:
  assumes "drain_reach cfg d" "config_ok cfg" "dr_lifecycle d = Drain_stopped" "(drain_step cfg)\<^sup>*\<^sup>* d d'"
  shows "dr_lifecycle d' = Drain_stopped \<and> dr_runs d' = dr_runs d \<and>
    dr_reconnectTimer d' = None \<and> dr_retryTimer d' = None \<and> dr_wakeClient d' = None \<and>
    (\<forall>d''. drain_step cfg d' d'' \<longrightarrow> d'' = d' \<or> closing_work cfg d'' < closing_work cfg d') \<and>
    (closing_work cfg d' = 0 \<or> (\<exists>d''. drain_step cfg d' d'' \<and> d'' \<noteq> d')) \<and>
    mset (dr_obtained d') = mset (held d') + mset (dr_released d') + mset (dr_lost d') \<and>
    (closing_work cfg d' = 0 \<longrightarrow> held d' = []) \<and>
    distinct (dr_released d') \<and> set (dr_lost d') \<subseteq> set (dr_released d') \<and>
    (distinct (dr_obtained d') \<longrightarrow> dr_lost d' = [])"
proof -
  have stopped: "dr_lifecycle d' = Drain_stopped" "dr_runs d' = dr_runs d"
    using stopped_steps[OF assms(4,3)] by simp_all
  have inv: "link_inv d'" "phases_ok cfg d'" "client_inv d'"
    using drain_reach_inv[OF rtranclp_trans[OF assms(1,4)]] assms(2) by (simp_all add: drain_inv_def)
  then have none: "dr_wakeClient d' = None" "dr_reconnectTimer d' = None" "dr_retryTimer d' = None"
    using stopped(1) by (simp_all add: link_inv_def)
  have rest: "held d' = []" if "closing_work cfg d' = 0"
  proof -
    have "dr_connection d' = None" using that inv(2)
      by (cases "dr_connection d'" rule: connection_clients.cases) (auto simp: closing_work_def phases_ok_def)
    then show ?thesis using that none by (auto simp: closing_work_def held_def split: option.splits)
  qed
  have accounts: "mset (dr_obtained d') = mset (held d') + mset (dr_released d') + mset (dr_lost d')"
    "distinct (dr_released d')" "set (dr_lost d') \<subseteq> set (dr_released d')"
    using inv(3) by (simp_all add: client_inv_def accounts_ok_def)
  have "dr_lost d' = []" if "distinct (dr_obtained d')"
  proof -
    have "distinct (held d' @ dr_released d' @ dr_lost d')"
      using that accounts(1) by (metis mset_append mset_eq_imp_distinct_iff add.assoc)
    then show ?thesis using accounts(3) by (cases "dr_lost d'") auto
  qed
  then show ?thesis
    using stopped none rest accounts stopped_step_settles[OF _ stopped(1) inv(1,2)] stopped_step_exists[OF _ inv(2) stopped(1)]
    by blast
qed

lemma stopped_drain_is_silent_witness:
  "dr_runs (drain_process_finally demo_stopped) = 1 \<and> dr_retryTimer (drain_process_finally demo_stopped) = None \<and>
   dr_obtained (drain_process_finally demo_stopped) = [7] \<and>
   dr_stopping (drain_process_finally demo_stopped) = Some (7, 1)"
proof -
  have "drain_step demo_drain demo_failing demo_stopped"
    unfolding demo_stopped_def by (rule drain_step.stop)
  then have reach: "drain_reach demo_drain demo_stopped"
    by (rule rtranclp.rtrancl_into_rtrancl[OF demo_drain_failing])
  have finish: "(drain_step demo_drain)\<^sup>*\<^sup>* demo_stopped (drain_process_finally demo_stopped)"
    by (rule r_into_rtranclp, rule drain_step.process_finally) code_simp
  have facts: "config_ok demo_drain" "dr_lifecycle demo_stopped = Drain_stopped" "dr_runs demo_stopped = 1"
    "dr_stopping (drain_process_finally demo_stopped) = Some (7, 1)"
    "dr_obtained (drain_process_finally demo_stopped) = [7]"
    by code_simp+
  show ?thesis using stopped_drain_is_silent[OF reach facts(1,2) finish] facts by simp
qed

section \<open>A client given out again\<close>

text \<open>A pool gives a client that was released out again. The controller then never releases it: after a failed
  \<^verbatim>\<open>listen\<close> the client is released, the pool gives it out for the next try, and when the controller has been
  stopped and has come to rest, it was given out twice and released once.\<close>

definition reused_released :: drain where
  "reused_released = unlisten demo_drain 7 0 True demo_listening"
definition reused_connecting :: drain where
  "reused_connecting =
     connect_wake_client ((reused_released \<lparr> dr_connection := None \<rparr>) \<lparr> dr_reconnectTimer := None \<rparr>)"
definition reused_stopping :: drain where
  "reused_stopping = drain_stop demo_drain (drain_connected demo_drain 7 reused_connecting)"
definition reused_over :: drain where
  "reused_over = (unlisten demo_drain 7 0 True reused_stopping) \<lparr> dr_connection := None \<rparr>"

theorem reused_client_is_lost:
  "drain_reach demo_drain reused_over \<and> dr_lifecycle reused_over = Drain_stopped \<and> closing_work demo_drain reused_over = 0 \<and>
   dr_obtained reused_over = [7, 7] \<and> dr_released reused_over = [7] \<and> dr_lost reused_over = [7]"
proof -
  have "drain_step demo_drain new_drain demo_connecting"
    unfolding demo_connecting_def by (rule drain_step.start)
  moreover have "drain_step demo_drain demo_connecting demo_listening"
    unfolding demo_listening_def by (rule drain_step.connected) code_simp+
  moreover have "drain_step demo_drain demo_listening reused_released"
    unfolding reused_released_def by (rule drain_step.listen_failed[of _ 7 0]) code_simp
  moreover have "drain_step demo_drain reused_released (reused_released \<lparr> dr_connection := None \<rparr>)"
    by (rule drain_step.connection_finally) code_simp
  moreover have "drain_step demo_drain (reused_released \<lparr> dr_connection := None \<rparr>) reused_connecting"
    unfolding reused_connecting_def by (rule drain_step.reconnect_timer) code_simp+
  moreover have "drain_step demo_drain reused_connecting (drain_connected demo_drain 7 reused_connecting)"
    by (rule drain_step.connected) code_simp+
  moreover have "drain_step demo_drain (drain_connected demo_drain 7 reused_connecting) reused_stopping"
    unfolding reused_stopping_def by (rule drain_step.stop)
  moreover have "drain_step demo_drain reused_stopping (unlisten demo_drain 7 0 True reused_stopping)"
    by (rule drain_step.listen_failed[of _ 7 0]) code_simp
  moreover have "drain_step demo_drain (unlisten demo_drain 7 0 True reused_stopping) reused_over"
    unfolding reused_over_def by (rule drain_step.connection_finally) code_simp
  ultimately have "drain_reach demo_drain reused_over" by (meson converse_rtranclp_into_rtranclp rtranclp.rtrancl_refl)
  moreover have "dr_lifecycle reused_over = Drain_stopped" "closing_work demo_drain reused_over = 0"
    "dr_obtained reused_over = [7, 7]" "dr_released reused_over = [7]" "dr_lost reused_over = [7]" by code_simp+
  ultimately show ?thesis by blast
qed

end
