(* ===== verification/Enrollment.thy ===== *)
theory Enrollment
  imports Js_Value Step_Machines
begin

text \<open>
  The transaction that enrols a local edge with an upstream backend,
  \<^verbatim>\<open>packages/koed-server/src/upstream-enrollment-transaction.ts\<close>. The module is pure: a snapshot and an event
  give the next snapshot, to be saved, and the effect to carry out; \<^verbatim>\<open>effect_succeeded\<close> or \<^verbatim>\<open>effect_failed\<close>
  tells how the effect went, and \<^verbatim>\<open>recover\<close> dispatches the saved effect again after a failure or a crash.
\<close>

section \<open>Snapshots, events, decisions\<close>

datatype enrollment_kind = Initial_enrollment | Replacement_enrollment

datatype enrollment_phase =
    Prepared | Awaiting_remote | Awaiting_exchange | Committing | Committed | Aborting | Aborted
  | Recovery_required

datatype enrollment_state =
    State_pending | State_approved | State_exchanged | State_denied | State_expired | State_canceled
  | State_revoked | State_failed

text \<open>The effects besides \<^verbatim>\<open>none\<close>, which is no effect.\<close>

datatype enrollment_effect =
    Stage_pending_custody | Compensate_pending_custody | Record_challenge | Commit_successor | Abort_pending
  | Revoke_active

definition effect_name :: "enrollment_effect \<Rightarrow> string" where
  "effect_name e =
     (case e of
        Stage_pending_custody \<Rightarrow> ''stage_pending_custody''
      | Compensate_pending_custody \<Rightarrow> ''compensate_pending_custody''
      | Record_challenge \<Rightarrow> ''record_challenge''
      | Commit_successor \<Rightarrow> ''commit_successor''
      | Abort_pending \<Rightarrow> ''abort_pending''
      | Revoke_active \<Rightarrow> ''revoke_active'')"

record enrollment =
  ut_id :: string
  ut_generation :: int
  ut_kind :: enrollment_kind
  ut_phase :: enrollment_phase
  ut_state :: enrollment_state
  ut_pendingEffect :: "enrollment_effect option"

datatype challenge_status =
    Challenge_pending | Challenge_approved | Challenge_denied | Challenge_expired | Challenge_unknown

datatype credential_status = Credential_active | Credential_rejected | Credential_unknown

datatype enrollment_event =
    Prepare
  | Challenge_created
  | Challenge_observed challenge_status
  | Credential_observed credential_status
  | Cancel
  | Revoke
  | Effect_succeeded
  | Effect_failed
  | Recover

record enrollment_decision =
  td_next :: enrollment
  td_effect :: "enrollment_effect option"
  td_temporary :: bool

text \<open>A handler may throw; there need not be one for every effect.\<close>

definition execute_effect ::
  "enrollment_decision \<Rightarrow> (enrollment_effect \<Rightarrow> 'a result option) \<Rightarrow> 'a option result" where
  "execute_effect d handlers =
     (case td_effect d of
        None \<Rightarrow> Inr None
      | Some e \<Rightarrow>
          (case handlers e of
             None \<Rightarrow> Inl (PlainError (''Enrollment transaction effect '' @ effect_name e @ '' has no handler.''))
           | Some r \<Rightarrow> ebind r (\<lambda>x. Inr (Some x))))"

section \<open>The transitions\<close>

definition stay :: "enrollment \<Rightarrow> enrollment_decision" where
  "stay current = \<lparr> td_next = current, td_effect = None, td_temporary = False \<rparr>"

definition move_to :: "enrollment \<Rightarrow> enrollment_decision" where
  "move_to s = \<lparr> td_next = s, td_effect = None, td_temporary = False \<rparr>"

definition dispatch :: "enrollment \<Rightarrow> enrollment_effect \<Rightarrow> enrollment_decision" where
  "dispatch s e = \<lparr> td_next = s, td_effect = Some e, td_temporary = False \<rparr>"

definition stay_temporarily :: "enrollment \<Rightarrow> enrollment_decision" where
  "stay_temporarily current = \<lparr> td_next = current, td_effect = None, td_temporary = True \<rparr>"

definition begin_effect ::
  "enrollment \<Rightarrow> enrollment_phase \<Rightarrow> enrollment_state \<Rightarrow> enrollment_effect \<Rightarrow> enrollment_decision" where
  "begin_effect current phase st e =
     dispatch (current \<lparr> ut_phase := phase, ut_state := st, ut_pendingEffect := Some e \<rparr>) e"

definition create_enrollment :: "string \<Rightarrow> js_number \<Rightarrow> enrollment_kind \<Rightarrow> enrollment result" where
  "create_enrollment i generation kind =
     ebind (throw_if (js_trim i = []) (PlainError ''Enrollment transaction id is required.'')) (\<lambda>_.
     (case safe_integer 1 (JNum generation) of
        None \<Rightarrow> Inl (PlainError ''Enrollment transaction generation must be positive.'')
      | Some g \<Rightarrow>
          Inr \<lparr> ut_id = i, ut_generation = g, ut_kind = kind, ut_phase = Prepared, ut_state = State_pending,
                ut_pendingEffect = Some Stage_pending_custody \<rparr>))"

definition observation_applies :: "enrollment \<Rightarrow> string \<Rightarrow> int \<Rightarrow> bool" where
  "observation_applies current transactionId generation \<longleftrightarrow>
     ut_id current = transactionId \<and> ut_generation current = generation"

definition recover_enrollment :: "enrollment \<Rightarrow> enrollment_decision" where
  "recover_enrollment current =
     (case ut_pendingEffect current of
        None \<Rightarrow> stay current
      | Some e \<Rightarrow>
          if ut_phase current \<noteq> Recovery_required then
            (if ut_phase current \<in> {Prepared, Awaiting_remote, Committing, Aborting} then dispatch current e
             else stay current)
          else if e = Stage_pending_custody then
            begin_effect current Aborting State_failed Compensate_pending_custody
          else
            (let phase =
               (if e = Commit_successor then Committing
                else if e = Abort_pending \<or> e = Revoke_active then Aborting
                else Awaiting_remote)
             in dispatch (current \<lparr> ut_phase := phase \<rparr>) e))"

definition effect_succeeded :: "enrollment \<Rightarrow> enrollment_decision" where
  "effect_succeeded current =
     (if ut_phase current = Committing then
        move_to (current \<lparr> ut_phase := Committed, ut_state := State_exchanged, ut_pendingEffect := None \<rparr>)
      else if ut_phase current = Aborting then
        move_to (current \<lparr> ut_phase := Aborted, ut_pendingEffect := None \<rparr>)
      else if ut_phase current = Prepared \<and> ut_pendingEffect current = Some Stage_pending_custody then
        move_to (current \<lparr> ut_phase := Awaiting_remote, ut_pendingEffect := None \<rparr>)
      else if ut_phase current = Awaiting_remote \<and> ut_pendingEffect current = Some Record_challenge then
        move_to (current \<lparr> ut_pendingEffect := None \<rparr>)
      else stay current)"

definition challenge_observed :: "challenge_status \<Rightarrow> enrollment \<Rightarrow> enrollment_decision" where
  "challenge_observed status current =
     (case status of
        Challenge_unknown \<Rightarrow> stay_temporarily current
      | Challenge_pending \<Rightarrow>
          move_to (current \<lparr> ut_phase := Awaiting_remote, ut_state := State_pending, ut_pendingEffect := None \<rparr>)
      | Challenge_approved \<Rightarrow>
          move_to (current \<lparr> ut_phase := Awaiting_exchange, ut_state := State_approved, ut_pendingEffect := None \<rparr>)
      | Challenge_denied \<Rightarrow> begin_effect current Aborting State_denied Abort_pending
      | Challenge_expired \<Rightarrow> begin_effect current Aborting State_expired Abort_pending)"

definition credential_observed :: "credential_status \<Rightarrow> enrollment \<Rightarrow> enrollment_decision" where
  "credential_observed status current =
     (case status of
        Credential_unknown \<Rightarrow> stay_temporarily current
      | Credential_active \<Rightarrow> begin_effect current Committing State_exchanged Commit_successor
      | Credential_rejected \<Rightarrow>
          if ut_phase current = Committed \<or> ut_state current = State_exchanged
          then begin_effect current Aborting State_failed Revoke_active
          else stay current)"

definition decide_enrollment :: "enrollment \<Rightarrow> enrollment_event \<Rightarrow> enrollment_decision" where
  "decide_enrollment current event =
     (case event of
        Prepare \<Rightarrow>
          if ut_phase current = Prepared then dispatch current Stage_pending_custody else stay current
      | Effect_failed \<Rightarrow>
          if ut_pendingEffect current \<noteq> None then move_to (current \<lparr> ut_phase := Recovery_required \<rparr>)
          else stay current
      | Recover \<Rightarrow> recover_enrollment current
      | Effect_succeeded \<Rightarrow> effect_succeeded current
      | Challenge_created \<Rightarrow>
          if ut_phase current = Prepared \<or> ut_phase current = Awaiting_remote then
            begin_effect current Awaiting_remote State_pending Record_challenge
          else stay current
      | Challenge_observed status \<Rightarrow> challenge_observed status current
      | Credential_observed status \<Rightarrow> credential_observed status current
      | Cancel \<Rightarrow>
          if ut_phase current = Committed \<or> ut_phase current = Aborted then stay current
          else begin_effect current Aborting State_canceled Abort_pending
      | Revoke \<Rightarrow>
          if ut_phase current = Aborted then stay current
          else begin_effect current Aborting State_revoked Revoke_active)"

lemmas enrollment_defs =
  decide_enrollment_def recover_enrollment_def effect_succeeded_def challenge_observed_def
  credential_observed_def begin_effect_def dispatch_def move_to_def stay_def stay_temporarily_def

text \<open>An event handled: its decision is saved.\<close>

abbreviation after_event :: "enrollment_event \<Rightarrow> enrollment \<Rightarrow> enrollment" where
  "after_event e s \<equiv> td_next (decide_enrollment s e)"

section \<open>What a snapshot may look like\<close>

text \<open>The saved effect and state of each phase. A compensation that failed is recovered into
  \<^verbatim>\<open>awaiting_remote\<close>.\<close>

fun working_ok :: "enrollment_phase \<Rightarrow> enrollment_state \<Rightarrow> enrollment_effect option \<Rightarrow> bool" where
  "working_ok Prepared st e \<longleftrightarrow> e = Some Stage_pending_custody \<and> st = State_pending"
| "working_ok Awaiting_remote st e \<longleftrightarrow>
     (e = None \<or> e = Some Record_challenge) \<and> st = State_pending \<or>
     e = Some Compensate_pending_custody \<and> st = State_failed"
| "working_ok Awaiting_exchange st e \<longleftrightarrow> e = None \<and> st = State_approved"
| "working_ok Committing st e \<longleftrightarrow> e = Some Commit_successor \<and> st = State_exchanged"
| "working_ok Committed st e \<longleftrightarrow> e = None \<and> st = State_exchanged"
| "working_ok Aborting st e \<longleftrightarrow>
     e = Some Abort_pending \<and> st \<in> {State_denied, State_expired, State_canceled} \<or>
     e = Some Revoke_active \<and> st \<in> {State_revoked, State_failed} \<or>
     e = Some Compensate_pending_custody \<and> st = State_failed"
| "working_ok Aborted st e \<longleftrightarrow>
     e = None \<and> st \<in> {State_denied, State_expired, State_canceled, State_revoked, State_failed}"
| "working_ok Recovery_required st e \<longleftrightarrow> False"

definition phase_ok :: "enrollment_phase \<Rightarrow> enrollment_state \<Rightarrow> enrollment_effect option \<Rightarrow> bool" where
  "phase_ok phase st e \<longleftrightarrow>
     (if phase = Recovery_required
      then e \<noteq> None \<and> (\<exists>p \<in> {Prepared, Awaiting_remote, Committing, Aborting}. working_ok p st e)
      else working_ok phase st e)"

definition enrollment_ok :: "enrollment \<Rightarrow> bool" where
  "enrollment_ok s \<longleftrightarrow> phase_ok (ut_phase s) (ut_state s) (ut_pendingEffect s)"

lemma decide_ok: "enrollment_ok s \<Longrightarrow> enrollment_ok (after_event e s)"
proof -
  assume "enrollment_ok s"
  then show ?thesis
    by (cases e; cases "ut_phase s")
      (auto simp: enrollment_ok_def phase_ok_def enrollment_defs
        split: challenge_status.split credential_status.split option.split)
qed

lemma decide_identity [simp]:
  "ut_id (after_event e s) = ut_id s" "ut_generation (after_event e s) = ut_generation s"
  "ut_kind (after_event e s) = ut_kind s"
  by (cases e; simp add: enrollment_defs Let_def split: challenge_status.split credential_status.split option.split)+

lemma create_ok:
  assumes "create_enrollment i g k = Inr s"
  shows "enrollment_ok s" "ut_id s = i" "JNum (Whole (ut_generation s)) = JNum g" "ut_kind s = k"
    "ut_phase s = Prepared"
  using assms
  by (auto simp: create_enrollment_def result_simps safe_integer_eq_Some enrollment_ok_def phase_ok_def
    split: option.splits)

interpretation enrolling: guarded_machine after_event "\<lambda>s. create_enrollment i g k = Inr s"
  "\<lambda>s. enrollment_ok s \<and> ut_id s = i \<and> JNum (Whole (ut_generation s)) = JNum g \<and> ut_kind s = k" for i g k
  by unfold_locales (simp_all add: create_ok decide_ok)

lemma run_identity:
  "ut_id (fold after_event es s) = ut_id s" "ut_generation (fold after_event es s) = ut_generation s"
  by (induction es arbitrary: s) simp_all

section \<open>What is proved of it\<close>

text \<open>Events that lead to each combination of phase, state and saved effect.\<close>

definition reached :: "enrollment \<Rightarrow> enrollment_phase \<Rightarrow> enrollment_state \<Rightarrow> enrollment_effect option \<Rightarrow> bool" where
  "reached s0 phase st e \<longleftrightarrow>
     (\<exists>es. let s = fold after_event es s0 in ut_phase s = phase \<and> ut_state s = st \<and> ut_pendingEffect s = e)"

definition fresh_enrollment :: "enrollment \<Rightarrow> bool" where
  "fresh_enrollment s \<longleftrightarrow>
     ut_phase s = Prepared \<and> ut_state s = State_pending \<and> ut_pendingEffect s = Some Stage_pending_custody"

lemma reached_by:
  assumes "fold after_event es s0 = s"
  shows "reached s0 (ut_phase s) (ut_state s) (ut_pendingEffect s)"
  using assms by (auto simp: reached_def Let_def)

lemma reached_more:
  assumes "reached s0 phase st e" "\<And>s. ut_phase s = phase \<Longrightarrow> ut_state s = st \<Longrightarrow> ut_pendingEffect s = e \<Longrightarrow>
    ut_phase (after_event ev s) = phase' \<and> ut_state (after_event ev s) = st' \<and> ut_pendingEffect (after_event ev s) = e'"
  shows "reached s0 phase' st' e'"
proof -
  obtain es where "ut_phase (fold after_event es s0) = phase" "ut_state (fold after_event es s0) = st"
      "ut_pendingEffect (fold after_event es s0) = e" using assms(1) by (auto simp: reached_def Let_def)
  then show ?thesis using assms(2) by (auto simp: reached_def Let_def intro!: exI[of _ "es @ [ev]"])
qed

lemma reached_prepared:
  assumes "fresh_enrollment s0"
  shows "reached s0 Prepared State_pending (Some Stage_pending_custody)"
  using reached_by[of "[]" s0 s0] assms by (simp add: fresh_enrollment_def)

lemma reached_working:
  assumes "fresh_enrollment s0" "working_ok phase st e"
  shows "reached s0 phase st e"
proof -
  note prepared = reached_prepared[OF assms(1)]
  have staged: "reached s0 Awaiting_remote State_pending None"
    by (rule reached_more[OF prepared, of Effect_succeeded]) (simp_all add: enrollment_defs)
  have recorded: "reached s0 Awaiting_remote State_pending (Some Record_challenge)"
    by (rule reached_more[OF prepared, of Challenge_created]) (simp_all add: enrollment_defs)
  have approved: "reached s0 Awaiting_exchange State_approved None"
    by (rule reached_more[OF prepared, of "Challenge_observed Challenge_approved"]) (simp_all add: enrollment_defs)
  have committing: "reached s0 Committing State_exchanged (Some Commit_successor)"
    by (rule reached_more[OF prepared, of "Credential_observed Credential_active"]) (simp_all add: enrollment_defs)
  have committed: "reached s0 Committed State_exchanged None"
    by (rule reached_more[OF committing, of Effect_succeeded]) (simp_all add: enrollment_defs)
  have failed: "reached s0 Recovery_required State_pending (Some Stage_pending_custody)"
    by (rule reached_more[OF prepared, of Effect_failed]) (simp_all add: enrollment_defs)
  have compensating: "reached s0 Aborting State_failed (Some Compensate_pending_custody)"
    by (rule reached_more[OF failed, of Recover]) (simp_all add: enrollment_defs)
  have compensation_failed: "reached s0 Recovery_required State_failed (Some Compensate_pending_custody)"
    by (rule reached_more[OF compensating, of Effect_failed]) (simp_all add: enrollment_defs)
  have stuck: "reached s0 Awaiting_remote State_failed (Some Compensate_pending_custody)"
    by (rule reached_more[OF compensation_failed, of Recover]) (simp_all add: enrollment_defs Let_def)
  have aborting: "reached s0 Aborting State_denied (Some Abort_pending)" "reached s0 Aborting State_expired (Some Abort_pending)"
    "reached s0 Aborting State_canceled (Some Abort_pending)" "reached s0 Aborting State_revoked (Some Revoke_active)"
    by (rule reached_more[OF prepared, of "Challenge_observed Challenge_denied"], simp_all add: enrollment_defs)
      (rule reached_more[OF prepared, of "Challenge_observed Challenge_expired"], simp_all add: enrollment_defs,
        rule reached_more[OF prepared, of Cancel], simp_all add: enrollment_defs,
        rule reached_more[OF prepared, of Revoke], simp_all add: enrollment_defs)
  have rejected: "reached s0 Aborting State_failed (Some Revoke_active)"
    by (rule reached_more[OF committed, of "Credential_observed Credential_rejected"]) (simp_all add: enrollment_defs)
  have aborted: "reached s0 Aborted st' None" if "reached s0 Aborting st' (Some e')" for st' e'
    by (rule reached_more[OF that, of Effect_succeeded]) (simp_all add: enrollment_defs)
  note all = prepared staged recorded stuck approved committing committed aborting rejected compensating
    aborting[THEN aborted] rejected[THEN aborted]
  show ?thesis using assms(2) all by (cases phase) auto
qed

lemma reached_iff:
  assumes "create_enrollment i g k = Inr s0"
  shows "reached s0 phase st e \<longleftrightarrow> phase_ok phase st e"
proof
  assume "reached s0 phase st e"
  then show "phase_ok phase st e"
    using enrolling.run_inv[OF assms] by (auto simp: reached_def enrollment_ok_def Let_def)
next
  assume ok: "phase_ok phase st e"
  have fresh: "fresh_enrollment s0"
    using assms by (auto simp: create_enrollment_def result_simps fresh_enrollment_def split: option.splits)
  show "reached s0 phase st e"
  proof (cases "phase = Recovery_required")
    case True
    then have "e \<noteq> None \<and> (\<exists>p \<in> {Prepared, Awaiting_remote, Committing, Aborting}. working_ok p st e)"
      using ok by (simp only: phase_ok_def if_True HOL.simp_thms)
    then obtain p where p: "e \<noteq> None" "working_ok p st e" by blast
    show ?thesis
      by (rule reached_more[OF reached_working[OF fresh p(2)], of Effect_failed])
        (use p(1) True in \<open>auto simp: enrollment_defs\<close>)
  next
    case False
    then show ?thesis using ok reached_working[OF fresh] by (simp add: phase_ok_def)
  qed
qed

text \<open>C20. The snapshots a transaction can get into are exactly those of a table of phase, state and saved
  effect: staging of custody while prepared; none or the recording of the challenge while awaiting the remote,
  or, with the state failed, a compensation that failed before; none while awaiting the exchange and once
  committed or aborted; the commit while committing; an abort, a revocation or a compensation, each with its
  states, while aborting; and while recovery is required what one of the phases at work had saved. An
  observation that applied to the transaction applies to it still.\<close>

theorem enrollment_stays_consistent:
  assumes "create_enrollment i g k = Inr s0"
  shows "((\<exists>es. let s = fold after_event es s0 in ut_phase s = phase \<and> ut_state s = st \<and> ut_pendingEffect s = e) \<longleftrightarrow>
      phase_ok phase st e) \<and>
    observation_applies (fold after_event es s0) = observation_applies s0"
  using reached_iff[OF assms, of phase st e] unfolding reached_def
  by (simp add: observation_applies_def run_identity fun_eq_iff)

definition demo_enrollment :: enrollment where
  "demo_enrollment =
     \<lparr> ut_id = ''request-1'', ut_generation = 2, ut_kind = Replacement_enrollment, ut_phase = Prepared,
       ut_state = State_pending, ut_pendingEffect = Some Stage_pending_custody \<rparr>"

lemma demo_created: "create_enrollment ''request-1'' (Whole 2) Replacement_enrollment = Inr demo_enrollment"
  by code_simp

definition demo_commit :: "enrollment_event list" where
  "demo_commit =
     [Prepare, Effect_succeeded, Challenge_created, Effect_succeeded, Challenge_observed Challenge_approved,
      Credential_observed Credential_active, Effect_failed, Recover, Effect_succeeded]"

lemma enrollment_stays_consistent_witness:
  "\<not> (\<exists>es. let s = fold after_event es demo_enrollment in
      ut_phase s = Awaiting_exchange \<and> ut_state s = State_approved \<and> ut_pendingEffect s = Some Record_challenge) \<and>
   observation_applies (fold after_event demo_commit demo_enrollment) ''request-1'' 2"
proof -
  have "observation_applies demo_enrollment ''request-1'' 2" by code_simp
  then show ?thesis
    using enrollment_stays_consistent[OF demo_created, of Awaiting_exchange State_approved "Some Record_challenge" demo_commit]
    by (simp add: phase_ok_def)
qed

text \<open>A failure or a recovery leaves an effect other than the staging of custody pending.\<close>

definition same_work :: "enrollment \<Rightarrow> enrollment \<Rightarrow> bool" where
  "same_work s s' \<longleftrightarrow>
     s' = s \<or> s' = s \<lparr> ut_phase := Recovery_required \<rparr>"

lemma working_cases:
  assumes "enrollment_ok s" "ut_phase s \<noteq> Recovery_required" "ut_pendingEffect s = Some e"
    and "e \<notin> {Stage_pending_custody, Compensate_pending_custody}"
  obtains "ut_phase s = Awaiting_remote" "e = Record_challenge"
  | "ut_phase s = Committing" "e = Commit_successor"
  | "ut_phase s = Aborting" "e = Abort_pending \<or> e = Revoke_active"
  using assms by (cases "ut_phase s") (auto simp: enrollment_ok_def phase_ok_def)

lemma same_work_step:
  assumes "enrollment_ok s" "ut_phase s \<noteq> Recovery_required" "ut_pendingEffect s = Some e"
    and "e \<notin> {Stage_pending_custody, Compensate_pending_custody}" "same_work s s'"
    and "ev = Effect_failed \<or> ev = Recover"
  shows "same_work s (after_event ev s')"
  using assms(5,6,3) unfolding same_work_def
  by (cases rule: working_cases[OF assms(1-4)]) (auto simp: enrollment_defs Let_def)

lemma same_work_run:
  assumes "enrollment_ok s" "ut_phase s \<noteq> Recovery_required" "ut_pendingEffect s = Some e"
    and "e \<notin> {Stage_pending_custody, Compensate_pending_custody}" "set es \<subseteq> {Effect_failed, Recover}"
  shows "same_work s (fold after_event es s)"
  using assms(5)
proof (induction es rule: rev_induct)
  case (snoc ev es)
  then have "same_work s (fold after_event es s)" "ev = Effect_failed \<or> ev = Recover" by auto
  then show ?case using same_work_step[OF assms(1-4)] by simp
qed (simp add: same_work_def)

lemma same_work_recovers:
  assumes "enrollment_ok s" "ut_phase s \<noteq> Recovery_required" "ut_pendingEffect s = Some e"
    and "e \<notin> {Stage_pending_custody, Compensate_pending_custody}" "same_work s s'"
  shows "decide_enrollment s' Recover = dispatch s e"
  using assms(3,5) unfolding same_work_def
  by (cases rule: working_cases[OF assms(1-4)]) (auto simp: enrollment_defs Let_def)

text \<open>A crash alone changes nothing, and a failed staging of custody turns into its compensation.\<close>

lemma recover_again:
  assumes "enrollment_ok s" "ut_phase s \<noteq> Recovery_required" "ut_pendingEffect s = Some e"
  shows "decide_enrollment s Recover = dispatch s e"
  using assms by (cases "ut_phase s") (auto simp: enrollment_ok_def phase_ok_def enrollment_defs)

lemma crashes_change_nothing:
  assumes "enrollment_ok s" "ut_phase s \<noteq> Recovery_required" "ut_pendingEffect s = Some e" "set es \<subseteq> {Recover}"
  shows "fold after_event es s = s"
  using assms(4)
proof (induction es)
  case (Cons ev es)
  then show ?case using recover_again[OF assms(1-3)] by (simp add: dispatch_def)
qed simp

definition custody_failing :: "enrollment \<Rightarrow> bool" where
  "custody_failing s \<longleftrightarrow>
     ut_pendingEffect s = Some Stage_pending_custody \<and> ut_phase s = Recovery_required \<or>
     ut_pendingEffect s = Some Compensate_pending_custody \<and> ut_state s = State_failed \<and>
       ut_phase s \<in> {Aborting, Awaiting_remote, Recovery_required}"

lemma custody_failing_step:
  assumes "custody_failing s" "ev = Effect_failed \<or> ev = Recover"
  shows "custody_failing (after_event ev s)"
  using assms by (auto simp: custody_failing_def enrollment_defs Let_def)

lemma custody_failing_recovers:
  assumes "custody_failing s"
  shows "td_effect (decide_enrollment s Recover) = Some Compensate_pending_custody \<and>
    ut_state (td_next (decide_enrollment s Recover)) = State_failed"
  using assms by (auto simp: custody_failing_def enrollment_defs Let_def)

lemma custody_failing_run:
  "custody_failing s \<Longrightarrow> set es \<subseteq> {Effect_failed, Recover} \<Longrightarrow> custody_failing (fold after_event es s)"
  by (induction es arbitrary: s) (auto intro: custody_failing_step)

lemma custody_fails:
  assumes "enrollment_ok s" "ut_phase s \<noteq> Recovery_required" "ut_pendingEffect s = Some e"
    and "e = Compensate_pending_custody \<or> e = Stage_pending_custody \<and> Effect_failed \<in> set es"
    and "set es \<subseteq> {Effect_failed, Recover}"
  shows "custody_failing (fold after_event es s)"
proof (cases "e = Compensate_pending_custody")
  case True
  then have "custody_failing s"
    using assms(1-3) by (cases "ut_phase s") (auto simp: enrollment_ok_def phase_ok_def custody_failing_def)
  then show ?thesis using assms(5) by (rule custody_failing_run)
next
  case False
  then have e: "e = Stage_pending_custody" "Effect_failed \<in> set es" using assms(4) by auto
  obtain before later where split: "es = before @ Effect_failed # later" "Effect_failed \<notin> set before"
    using split_list_first[OF e(2)] by blast
  then have "fold after_event before s = s"
    using assms(5) by (intro crashes_change_nothing[OF assms(1-3)]) auto
  moreover have "custody_failing (after_event Effect_failed s)"
    using assms(3) e(1) by (simp add: custody_failing_def enrollment_defs)
  ultimately show ?thesis using split(1) assms(5) by (auto intro: custody_failing_run)
qed

text \<open>C21. No effect is lost to failures and crashes. Recovering dispatches the saved effect again, of the
  snapshot it was first dispatched of, however often it was interrupted and, unless it is one of custody,
  however often it failed; only after a failed staging of custody the compensation is dispatched in its place.
  Success clears what was saved, except for a compensation that failed before.\<close>

theorem enrollment_effect_recovers:
  assumes "enrollment_ok s" "ut_phase s \<noteq> Recovery_required" "ut_pendingEffect s = Some e"
    and "set es \<subseteq> {Effect_failed, Recover}" and "d = decide_enrollment (fold after_event es s) Recover"
  shows "td_effect d =
      Some (if e = Stage_pending_custody \<and> Effect_failed \<in> set es then Compensate_pending_custody else e) \<and>
    (e \<in> {Stage_pending_custody, Compensate_pending_custody} \<and> Effect_failed \<in> set es \<or> td_next d = s) \<and>
    (ut_pendingEffect (after_event Effect_succeeded s) = None \<longleftrightarrow>
       \<not> (e = Compensate_pending_custody \<and> ut_phase s = Awaiting_remote))"
proof -
  have clears: "ut_pendingEffect (after_event Effect_succeeded s) = None \<longleftrightarrow>
      \<not> (e = Compensate_pending_custody \<and> ut_phase s = Awaiting_remote)"
    using assms(1-3) by (cases "ut_phase s") (auto simp: enrollment_ok_def phase_ok_def enrollment_defs)
  consider "Effect_failed \<notin> set es" | "e \<notin> {Stage_pending_custody, Compensate_pending_custody}"
    | "e \<in> {Stage_pending_custody, Compensate_pending_custody}" "Effect_failed \<in> set es" by blast
  then show ?thesis
  proof cases
    case 1
    then have "fold after_event es s = s" using assms(4) by (intro crashes_change_nothing[OF assms(1-3)]) auto
    then show ?thesis using recover_again[OF assms(1-3)] 1 clears by (simp add: assms(5) dispatch_def)
  next
    case 2
    have "d = dispatch s e"
      unfolding assms(5) by (rule same_work_recovers[OF assms(1-3) 2 same_work_run[OF assms(1-3) 2 assms(4)]])
    then show ?thesis using 2 clears by (auto simp: dispatch_def)
  next
    case 3
    then have "custody_failing (fold after_event es s)" by (intro custody_fails[OF assms(1-3) _ assms(4)]) auto
    then show ?thesis using custody_failing_recovers 3 clears by (auto simp: assms(5))
  qed
qed

definition demo_committing :: enrollment where
  "demo_committing = fold after_event (take 6 demo_commit) demo_enrollment"

lemma enrollment_effect_recovers_witness:
  "td_effect (decide_enrollment (fold after_event [Effect_failed, Recover, Effect_failed] demo_committing) Recover)
     = Some Commit_successor \<and>
   td_effect (decide_enrollment (fold after_event [Recover, Effect_failed] demo_enrollment) Recover)
     = Some Compensate_pending_custody"
proof -
  have demo: "ut_phase demo_committing = Committing" "ut_pendingEffect demo_committing = Some Commit_successor"
    by code_simp+
  have ok: "enrollment_ok demo_committing" "enrollment_ok demo_enrollment" by code_simp+
  show ?thesis
    using enrollment_effect_recovers[OF ok(1) _ demo(2), of "[Effect_failed, Recover, Effect_failed]", OF _ _ refl] demo
      enrollment_effect_recovers[OF ok(2), of Stage_pending_custody "[Recover, Effect_failed]", OF _ _ _ refl]
    by (simp add: demo_enrollment_def)
qed

text \<open>The events that take back what an active credential decided.\<close>

fun overrides_commit :: "enrollment_event \<Rightarrow> bool" where
  "overrides_commit Revoke = True"
| "overrides_commit (Credential_observed c) = (c \<noteq> Credential_unknown)"
| "overrides_commit (Challenge_observed c) = (c \<noteq> Challenge_unknown)"
| "overrides_commit _ = False"

definition commit_decided :: "enrollment_event list \<Rightarrow> bool" where
  "commit_decided es \<longleftrightarrow>
     (\<exists>before between. es = before @ Credential_observed Credential_active # between \<and>
        \<not> list_ex overrides_commit between \<and> Cancel \<notin> set between)"

definition commit_done :: "enrollment_event list \<Rightarrow> bool" where
  "commit_done es \<longleftrightarrow>
     (\<exists>before between later.
        es = before @ Credential_observed Credential_active # between @ Effect_succeeded # later \<and>
        \<not> list_ex overrides_commit (between @ later) \<and> Cancel \<notin> set between)"

lemma commit_decided_snoc:
  assumes "commit_decided es" "\<not> overrides_commit e" "e \<noteq> Cancel"
  shows "commit_decided (es @ [e])"
proof -
  obtain before between where "es = before @ Credential_observed Credential_active # between"
      "\<not> list_ex overrides_commit between" "Cancel \<notin> set between"
    using assms(1) unfolding commit_decided_def by blast
  then show ?thesis
    using assms(2,3) unfolding commit_decided_def by (intro exI[of _ before] exI[of _ "between @ [e]"]) simp
qed

lemma commit_decided_active: "commit_decided (es @ [Credential_observed Credential_active])"
  unfolding commit_decided_def by (intro exI[of _ es] exI[of _ "[]"]) simp

lemma commit_done_snoc:
  assumes "commit_done es" "\<not> overrides_commit e"
  shows "commit_done (es @ [e])"
proof -
  obtain before between later where
      "es = before @ Credential_observed Credential_active # between @ Effect_succeeded # later"
      "\<not> list_ex overrides_commit (between @ later)" "Cancel \<notin> set between"
    using assms(1) unfolding commit_done_def by blast
  then show ?thesis
    using assms(2) unfolding commit_done_def
    by (intro exI[of _ before] exI[of _ between] exI[of _ "later @ [e]"]) simp
qed

lemma commit_decided_done:
  assumes "commit_decided es"
  shows "commit_done (es @ [Effect_succeeded])"
proof -
  obtain before between where "es = before @ Credential_observed Credential_active # between"
      "\<not> list_ex overrides_commit between" "Cancel \<notin> set between"
    using assms unfolding commit_decided_def by blast
  then show ?thesis
    unfolding commit_done_def by (intro exI[of _ before] exI[of _ between] exI[of _ "[]"]) simp
qed

text \<open>Where a pending commit and a committed transaction come from.\<close>

lemma commit_pending_step:
  assumes "ut_pendingEffect (after_event e s) = Some Commit_successor" "enrollment_ok s"
  shows "e = Credential_observed Credential_active \<or>
    ut_pendingEffect s = Some Commit_successor \<and> \<not> overrides_commit e \<and> e \<noteq> Cancel"
proof -
  have "ut_phase s \<in> {Committed, Aborted} \<Longrightarrow> ut_pendingEffect s = None"
    and "ut_pendingEffect s = Some Commit_successor \<Longrightarrow> ut_state s = State_exchanged"
    using assms(2) by (cases "ut_phase s"; auto simp: enrollment_ok_def phase_ok_def)+
  then show ?thesis
    using assms(1)
    by (cases e rule: overrides_commit.cases; cases "ut_phase s")
      (auto simp: enrollment_defs split: if_splits challenge_status.splits credential_status.splits option.splits)
qed

lemma committed_step:
  assumes "ut_phase (after_event e s) = Committed"
  shows "ut_phase s = Committed \<and> \<not> overrides_commit e \<or> ut_phase s = Committing \<and> e = Effect_succeeded"
  using assms
  by (cases e rule: overrides_commit.cases; cases "ut_phase s")
    (auto simp: enrollment_defs split: if_splits challenge_status.splits credential_status.splits option.splits)

lemma commit_history:
  assumes "create_enrollment i g k = Inr s0"
  shows "(ut_pendingEffect (fold after_event es s0) = Some Commit_successor \<longrightarrow> commit_decided es) \<and>
    (ut_phase (fold after_event es s0) = Committed \<longrightarrow> commit_done es)"
proof (induction es rule: rev_induct)
  case Nil
  then show ?case using create_ok[OF assms] by (auto simp: enrollment_ok_def phase_ok_def)
next
  case (snoc e es)
  let ?s = "fold after_event es s0"
  have ok: "enrollment_ok ?s" using enrolling.run_inv[OF assms] by blast
  then have committing: "ut_phase ?s = Committing \<Longrightarrow> ut_pendingEffect ?s = Some Commit_successor"
    by (simp add: enrollment_ok_def phase_ok_def)
  have "commit_decided (es @ [e])" if "ut_pendingEffect (after_event e ?s) = Some Commit_successor"
    using commit_pending_step[OF that ok] snoc.IH commit_decided_snoc[of es e] commit_decided_active[of es] by metis
  moreover have "commit_done (es @ [e])" if "ut_phase (after_event e ?s) = Committed"
    using committed_step[OF that] committing snoc.IH commit_done_snoc[of es e] commit_decided_done[of es] by metis
  ultimately show ?case by simp
qed

text \<open>C22. A transaction is committed only on an active credential: in any run that ends committed an active
  credential was observed, then neither canceled, revoked nor contradicted by another observation
  until its effect succeeded, and not revoked or contradicted since.\<close>

theorem enrollment_commits_only_active:
  assumes "create_enrollment i g k = Inr s0" "ut_phase (fold after_event es s0) = Committed"
  shows "\<exists>before between later.
    es = before @ Credential_observed Credential_active # between @ Effect_succeeded # later \<and>
    \<not> list_ex overrides_commit (between @ later) \<and> Cancel \<notin> set between"
  using commit_history[OF assms(1), of es] assms(2) unfolding commit_done_def by blast

lemma enrollment_commits_only_active_witness:
  "\<exists>before between later.
    demo_commit = before @ Credential_observed Credential_active # between @ Effect_succeeded # later \<and>
    \<not> list_ex overrides_commit (between @ later) \<and> Cancel \<notin> set between"
proof -
  have "ut_phase (fold after_event demo_commit demo_enrollment) = Committed" by code_simp
  then show ?thesis by (rule enrollment_commits_only_active[OF demo_created])
qed

text \<open>A compensation that failed once never completes: its recovery goes on in \<^verbatim>\<open>awaiting_remote\<close>, where the
  success of the effect is not recognised, and from then on failing, recovering and succeeding leave
  it pending.\<close>

theorem failed_compensation_stays_pending:
  assumes "ut_phase s = Aborting" "ut_pendingEffect s = Some Compensate_pending_custody"
    and "set es \<subseteq> {Effect_failed, Recover, Effect_succeeded}"
  shows "ut_pendingEffect (fold after_event (Effect_failed # Recover # es) s) = Some Compensate_pending_custody"
proof -
  have "ut_pendingEffect (fold after_event (Effect_failed # Recover # es) s) = Some Compensate_pending_custody \<and>
      ut_phase (fold after_event (Effect_failed # Recover # es) s) \<in> {Awaiting_remote, Recovery_required}"
    using assms(3)
  proof (induction es rule: rev_induct)
    case Nil
    then show ?case using assms(1,2) by (simp add: enrollment_defs Let_def)
  next
    case (snoc e es)
    then show ?case by (auto simp: enrollment_defs Let_def split: if_splits)
  qed
  then show ?thesis by blast
qed

definition demo_compensating :: enrollment where
  "demo_compensating = fold after_event [Effect_failed, Recover] demo_enrollment"

lemma failed_compensation_stays_pending_witness:
  "ut_pendingEffect (fold after_event [Effect_failed, Recover, Effect_succeeded, Recover, Effect_succeeded]
     demo_compensating) = Some Compensate_pending_custody"
proof -
  have "ut_phase demo_compensating = Aborting"
    "ut_pendingEffect demo_compensating = Some Compensate_pending_custody" by code_simp+
  then show ?thesis
    using failed_compensation_stays_pending[of demo_compensating "[Effect_succeeded, Recover, Effect_succeeded]"] by simp
qed

end
