(* ===== verification/Json_Text.thy ===== *)
theory Json_Text
  imports Js_Json "HOL-Library.Log_Nat"
begin

text \<open>
  \<^verbatim>\<open>JSON.stringify\<close> of a value, and that \<^verbatim>\<open>JSON.parse\<close> of the text gives the value back, for values whose
  strings are valid UTF-8 and whose numbers are read back. A safe integer is written in decimal and always read
  back; how the engine writes other numbers (the shortest decimal that reads back) is the parameter
  \<open>other_number\<close>, and that a number is read back from it the condition \<open>number_reads\<close>.
\<close>

section \<open>Numbers\<close>

definition number_text :: "(js_number \<Rightarrow> string) \<Rightarrow> js_number \<Rightarrow> string" where
  "number_text other_number x =
     (case x of
        Whole n \<Rightarrow>
          if \<bar>n\<bar> \<le> max_safe_integer then (if n < 0 then ''-'' else []) @ decimal (nat \<bar>n\<bar>) else other_number x
      | _ \<Rightarrow> other_number x)"

lemma floorlog_one: "floorlog 2 (Suc 0) = Suc 0"
  by (simp add: floorlog_def)

text \<open>A safe integer is its own nearest double.\<close>

lemma double_of_safe:
  assumes "0 \<le> n" "n \<le> max_safe_integer"
  shows "double_of_ratio negative n 1 = Whole (if negative then - n else n)"
proof (cases "n = 0")
  case False
  then have pos: "0 < nat n" using assms(1) by simp
  define k where "k = floorlog 2 (nat n) - 1"
  have "1 \<le> floorlog 2 (nat n)" using pos by (simp add: floorlog_def)
  moreover have "2 ^ (floorlog 2 (nat n) - 1) \<le> nat n \<and> nat n < 2 ^ floorlog 2 (nat n)"
    using floorlog_bounds[of "nat n" 2] pos by simp
  ultimately have low: "2 ^ k \<le> nat n" and high: "nat n < 2 ^ Suc k" and log: "floorlog 2 (nat n) = Suc k"
    by (simp_all add: k_def)
  have "nat n < 2 ^ 53" using assms by (simp add: max_safe_integer_def nat_less_iff)
  then have "(2 :: nat) ^ k < 2 ^ 53" using low by linarith
  then have k: "k < 53" by (rule power_less_imp_less_exp[rotated]) simp
  have exponent: "binary_exponent n 1 = int k"
  proof -
    have "2 ^ k \<le> n" using low pos by (metis le_nat_iff of_nat_numeral of_nat_power zero_less_nat_eq less_le)
    then show ?thesis by (simp add: binary_exponent_def log floorlog_one scale2_def Let_def)
  qed
  show ?thesis
  proof (cases "k = 52")
    case True
    have "n < 2 ^ 1024" using assms by (simp add: max_safe_integer_def)
    then show ?thesis
      using False exponent True by (simp add: double_of_ratio_def scale2_def round_half_even_def Let_def)
  next
    case apart: False
    define j where "j = 52 - k"
    have j: "0 < j" "nat (- (int k - 52)) = j" "max (int k - 52) (- 1074) = int k - 52" using k apart by (auto simp: j_def)
    have e: "max (binary_exponent n 1 - 52) (- 1074) = - int j" using exponent k apart by (auto simp: j_def)
    have "n < 2 ^ Suc k" using high pos by (metis nat_less_iff of_nat_numeral of_nat_power zero_less_nat_eq less_le)
    then have "n * 2 ^ j < 2 ^ Suc k * 2 ^ j" by simp
    also have "\<dots> = 2 ^ 53" using k apart by (simp add: j_def flip: power_add power_Suc)
    finally have "n * 2 ^ j < 2 ^ 53" .
    moreover have "(2 :: int) ^ 53 \<le> 2 ^ nat (1024 + int j)" by (rule power_increasing) linarith+
    ultimately have small: "\<not> 2 ^ nat (1024 + int j) \<le> n * 2 ^ j" by (simp only: not_le order_less_le_trans)
    have "- (n * 2 ^ j) div 2 ^ j = - n"
      by (metis mult_minus_left nonzero_mult_div_cancel_right power_not_zero zero_neq_numeral)
    then show ?thesis
      using False small j(1) by (simp add: double_of_ratio_def e scale2_def round_half_even_def Let_def)
  qed
qed (simp add: double_of_ratio_def)

text \<open>What may follow a number.\<close>

definition number_ends :: "string \<Rightarrow> bool" where
  "number_ends r \<longleftrightarrow> r = [] \<or> \<not> is_digit (hd r) \<and> hd r \<notin> {CHR ''.'', CHR ''e'', CHR ''E''}"

lemma takeWhile_digits:
  assumes "list_all is_digit ds" "number_ends r"
  shows "takeWhile is_digit (ds @ r) = ds" "dropWhile is_digit (ds @ r) = r"
proof -
  have all: "\<forall>c \<in> set ds. is_digit c" using assms(1) by (simp add: list_all_iff)
  have r: "takeWhile is_digit r = []" "dropWhile is_digit r = r"
    using assms(2) by (cases r; simp add: number_ends_def)+
  show "takeWhile is_digit (ds @ r) = ds" "dropWhile is_digit (ds @ r) = r"
    using all r by (simp_all add: takeWhile_append2 dropWhile_append2)
qed

lemma is_digit_not:
  "is_digit c \<Longrightarrow> c \<notin> {CHR 0x20, CHR 0x09, CHR 0x0A, CHR 0x0D, CHR 0x5D, CHR 0x7D, CHR 0x7B, CHR 0x5B, CHR 0x22,
     CHR ''t'', CHR ''f'', CHR ''n'', CHR ''-''}"
  by (auto simp: is_digit_def)

lemma decimal_digits_text:
  "list_all is_digit (decimal n)" "decimal n \<noteq> []" "\<not> (1 < length (decimal n) \<and> take 1 (decimal n) = ''0'')"
proof -
  have d: "is_decimal (decimal n)" by (rule decimal_value)
  then show "list_all is_digit (decimal n)" "decimal n \<noteq> []" by (simp_all add: is_decimal_def)
  show "\<not> (1 < length (decimal n) \<and> take 1 (decimal n) = ''0'')"
    using d by (cases "decimal n") (auto simp: is_decimal_def)
qed

lemma scan_end:
  assumes "number_ends r"
  shows "scan_fraction r = Some ([], r)" "scan_exponent r = Some (0, r)"
  using assms by (cases r; simp add: scan_fraction_def scan_exponent_def number_ends_def)+

lemma json_number_digits:
  assumes "number_ends r" "s = (if negative then CHR ''-'' # decimal n @ r else decimal n @ r)"
  shows "json_number s = Some (number_of_digits negative (decimal n) [] 0, r)"
proof -
  note d = decimal_digits_text[of n]
  note split = takeWhile_digits[OF d(1) assms(1)]
  have "take 1 (decimal n @ r) \<noteq> ''-''"
    using d(1,2) by (cases "decimal n") (auto simp: is_digit_def)
  then have sign: "(take 1 s = ''-'') = negative" and body: "(if negative then drop 1 s else s) = decimal n @ r"
    using assms(2) by simp_all
  show ?thesis
    unfolding json_number_def Let_def sign body split scan_end[OF assms(1)] using d(2,3)
    by (simp only: if_False option.case prod.case scan_end[OF assms(1)] HOL.simp_thms)
qed

lemma json_number_text:
  assumes "\<bar>n\<bar> \<le> max_safe_integer" "number_ends r"
  shows "json_number (number_text other_number (Whole n) @ r) = Some (Whole n, r)"
proof -
  have written: "number_text other_number (Whole n) @ r =
      (if n < 0 then CHR ''-'' # decimal (nat \<bar>n\<bar>) @ r else decimal (nat \<bar>n\<bar>) @ r)"
    using assms(1) by (simp add: number_text_def)
  have "number_of_digits (n < 0) (decimal (nat \<bar>n\<bar>)) [] 0 = double_of_ratio (n < 0) \<bar>n\<bar> 1"
    using decimal_value(1)[of "nat \<bar>n\<bar>"] by (simp add: number_of_digits_def)
  also have "\<dots> = Whole n" using double_of_safe[of "\<bar>n\<bar>" "n < 0"] assms(1) by (cases "n < 0") simp_all
  finally show ?thesis using json_number_digits[OF assms(2) written] by simp
qed

text \<open>A number the engine writes as a text that reads as that number; what follows the text does not matter.\<close>

definition number_reads :: "(js_number \<Rightarrow> string) \<Rightarrow> js_number \<Rightarrow> bool" where
  "number_reads f x \<longleftrightarrow> x \<noteq> Not_finite \<and> json_number (number_text f x) = Some (x, [])"

lemma digits_before:
  assumes "number_ends r"
  shows "takeWhile is_digit (s @ r) = takeWhile is_digit s" "dropWhile is_digit (s @ r) = dropWhile is_digit s @ r"
proof -
  have "takeWhile is_digit r = []" "dropWhile is_digit r = r" using assms by (cases r; simp add: number_ends_def)+
  then show "takeWhile is_digit (s @ r) = takeWhile is_digit s" "dropWhile is_digit (s @ r) = dropWhile is_digit s @ r"
    by (induction s) simp_all
qed

lemma scan_fraction_before:
  assumes "number_ends r" "scan_fraction s = Some (ds, t)"
  shows "scan_fraction (s @ r) = Some (ds, t @ r)"
  using assms scan_end(1)[OF assms(1)] digits_before[OF assms(1)]
  by (cases s) (auto simp: scan_fraction_def split: if_splits)

lemma scan_exponent_before:
  assumes "number_ends r" "scan_exponent s = Some (e, t)"
  shows "scan_exponent (s @ r) = Some (e, t @ r)"
proof (cases s)
  case (Cons c u)
  note before = digits_before[OF assms(1)]
  have none: "takeWhile is_digit r = []" using before(1)[of "[]"] by simp
  show ?thesis
  proof (cases u)
    case Nil
    then show ?thesis using assms(2) Cons none by (auto simp: scan_exponent_def Let_def split: if_splits)
  next
    case (Cons d w)
    then show ?thesis using assms(2) \<open>s = c # u\<close> before[of w] before[of u]
      by (auto simp: scan_exponent_def Let_def simp del: takeWhile.simps dropWhile.simps split: if_splits)
  qed
qed (use assms scan_end(2) in \<open>simp add: scan_exponent_def\<close>)

lemma json_number_before:
  assumes "number_ends r" "json_number s = Some (x, t)"
  shows "json_number (s @ r) = Some (x, t @ r)"
proof -
  define negative where "negative = (take 1 s = ''-'')"
  define s1 where "s1 = (if negative then drop 1 s else s)"
  have "s \<noteq> []" using assms(2) by (auto simp: json_number_def)
  then have sign: "(take 1 (s @ r) = ''-'') = negative" and body: "(if negative then drop 1 (s @ r) else s @ r) = s1 @ r"
    by (cases s; simp add: negative_def s1_def)+
  obtain ds u e where parts: "\<not> (takeWhile is_digit s1 = [] \<or> 1 < length (takeWhile is_digit s1) \<and> take 1 (takeWhile is_digit s1) = ''0'')"
      "scan_fraction (dropWhile is_digit s1) = Some (ds, u)" "scan_exponent u = Some (e, t)"
      "x = number_of_digits negative (takeWhile is_digit s1) ds e"
    using assms(2) unfolding json_number_def Let_def negative_def[symmetric] s1_def[symmetric]
    by (auto split: if_splits option.splits)
  show ?thesis
    unfolding json_number_def Let_def sign body digits_before[OF assms(1)] scan_fraction_before[OF assms(1) parts(2)]
    using parts(1,4) scan_exponent_before[OF assms(1) parts(3)]
    by (simp only: if_False option.case prod.case HOL.simp_thms)
qed

lemma safe_number_reads: "\<bar>n\<bar> \<le> max_safe_integer \<Longrightarrow> number_reads f (Whole n)"
  using json_number_text[of n "[]" f] by (simp add: number_reads_def number_ends_def)

lemma json_number_start:
  assumes "json_number s = Some (x, t)"
  obtains c u where "s = c # u" "c = CHR ''-'' \<or> is_digit c"
proof (cases s)
  case (Cons c u)
  then show ?thesis using assms that by (cases "c = CHR ''-''") (auto simp: json_number_def Let_def split: if_splits)
qed (use assms in \<open>simp add: json_number_def\<close>)

section \<open>Values\<close>

text \<open>\<^verbatim>\<open>JSON.stringify\<close>, of values without \<^verbatim>\<open>undefined\<close>, functions and the like; a number that is not
  finite is written as \<^verbatim>\<open>null\<close>.\<close>

fun json_text :: "(js_number \<Rightarrow> string) \<Rightarrow> js_value \<Rightarrow> string"
  and items_json :: "(js_number \<Rightarrow> string) \<Rightarrow> js_value list \<Rightarrow> string"
  and members_json :: "(js_number \<Rightarrow> string) \<Rightarrow> members \<Rightarrow> string" where
  "json_text f JNull = ''null''"
| "json_text f (JBool b) = (if b then ''true'' else ''false'')"
| "json_text f (JNum x) = (if x = Not_finite then ''null'' else number_text f x)"
| "json_text f (JStr s) = json_quote s"
| "json_text f (JArr vs) = CHR 0x5B # items_json f vs @ [CHR 0x5D]"
| "json_text f (JObj kvs) = CHR 0x7B # members_json f kvs @ [CHR 0x7D]"
| "json_text f JUndefined = ''null''"
| "json_text f JOther = ''null''"
| "items_json f [] = []"
| "items_json f (v # vs) = json_text f v @ (if vs = [] then [] else CHR '','' # items_json f vs)"
| "members_json f [] = []"
| "members_json f ((k, v) # kvs) =
     json_quote k @ CHR '':'' # json_text f v @ (if kvs = [] then [] else CHR '','' # members_json f kvs)"

text \<open>The values that are read back exactly: whatever the engine writes, when their numbers are safe integers; and
  when it writes each number as a text that reads back.\<close>

fun json_exact :: "js_value \<Rightarrow> bool" where
  "json_exact JNull = True"
| "json_exact (JBool b) = True"
| "json_exact (JNum x) = (case x of Whole n \<Rightarrow> \<bar>n\<bar> \<le> max_safe_integer | _ \<Rightarrow> False)"
| "json_exact (JStr s) = utf8_ok s"
| "json_exact (JArr vs) = list_all json_exact vs"
| "json_exact (JObj kvs) = (distinct (map fst kvs) \<and> list_all (\<lambda>(k, v). utf8_ok k \<and> json_exact v) kvs)"
| "json_exact v = False"

fun json_reads :: "(js_number \<Rightarrow> string) \<Rightarrow> js_value \<Rightarrow> bool" where
  "json_reads f JNull = True"
| "json_reads f (JBool b) = True"
| "json_reads f (JNum x) = number_reads f x"
| "json_reads f (JStr s) = utf8_ok s"
| "json_reads f (JArr vs) = list_all (json_reads f) vs"
| "json_reads f (JObj kvs) = (distinct (map fst kvs) \<and> list_all (\<lambda>(k, v). utf8_ok k \<and> json_reads f v) kvs)"
| "json_reads f v = False"

lemma json_exact_reads: "json_exact v \<Longrightarrow> json_reads f v"
  by (induction v rule: json_exact.induct)
    (auto simp: list_all_iff safe_number_reads split: js_number.splits)

section \<open>Reading a text back\<close>

lemma json_text_start:
  assumes "json_reads f v"
  obtains c s where "json_text f v = c # s" "c \<notin> {CHR 0x20, CHR 0x09, CHR 0x0A, CHR 0x0D, CHR 0x5D, CHR 0x7D}"
proof (cases v)
  case (JNum x)
  then have x: "x \<noteq> Not_finite" "json_number (number_text f x) = Some (x, [])" using assms by (simp_all add: number_reads_def)
  obtain c t where "number_text f x = c # t" "c = CHR ''-'' \<or> is_digit c" by (rule json_number_start[OF x(2)])
  then show ?thesis using that[of c t] is_digit_not[of c] JNum x(1) by auto
next
  case (JBool b)
  then show ?thesis using that by (cases b) simp_all
qed (use assms that in \<open>auto simp: json_quote_def\<close>)

lemma skip_ws_start: "c \<notin> {CHR 0x20, CHR 0x09, CHR 0x0A, CHR 0x0D} \<Longrightarrow> skip_ws (c # s) = c # s"
  by (simp add: skip_ws_def)

lemma json_value_other:
  assumes "c \<notin> {CHR 0x20, CHR 0x09, CHR 0x0A, CHR 0x0D, CHR 0x7B, CHR 0x5B, CHR 0x22, CHR ''t'', CHR ''f'', CHR ''n''}"
  shows "json_value (Suc k) (c # s) = map_option (\<lambda>(x, r'). (JNum x, r')) (json_number (c # s))"
  using assms
  by (subst json_value.simps(2))
    (simp add: skip_ws_start del: json_value.simps json_elements.simps json_members.simps)

lemma json_value_number:
  assumes "number_reads f x" "number_ends r"
  shows "json_value (Suc k) (number_text f x @ r) = Some (JNum x, r)"
proof -
  have x: "json_number (number_text f x) = Some (x, [])" using assms(1) by (simp add: number_reads_def)
  obtain c t where "number_text f x = c # t" and digit: "c = CHR ''-'' \<or> is_digit c"
    by (rule json_number_start[OF x])
  then have c: "number_text f x @ r = c # t @ r" by simp
  have "json_value (Suc k) (c # t @ r) = map_option (\<lambda>(x, r'). (JNum x, r')) (json_number (c # t @ r))"
  proof (rule json_value_other)
    show "c \<notin> {CHR 0x20, CHR 0x09, CHR 0x0A, CHR 0x0D, CHR 0x7B, CHR 0x5B, CHR 0x22, CHR ''t'', CHR ''f'', CHR ''n''}"
      using digit
    proof
      assume "is_digit c"
      then have "c \<notin> {CHR 0x20, CHR 0x09, CHR 0x0A, CHR 0x0D, CHR 0x5D, CHR 0x7D, CHR 0x7B, CHR 0x5B, CHR 0x22,
          CHR ''t'', CHR ''f'', CHR ''n'', CHR ''-''}" by (rule is_digit_not)
      then show ?thesis by (simp only: insert_iff empty_iff de_Morgan_disj HOL.simp_thms)
    qed simp
  qed
  also have "json_number (c # t @ r) = Some (x, r)"
    using json_number_before[OF assms(2) x] unfolding c by simp
  finally show ?thesis unfolding c by (simp only: option.map prod.case)
qed

lemma json_value_string: "utf8_ok s \<Longrightarrow> json_value (Suc n) (json_quote s @ r) = Some (JStr s, r)"
  by (simp add: json_quote_def skip_ws_def json_string_escaped)


text \<open>Fuel beyond the length of the text is enough, as every call reads a character.\<close>

lemma json_value_object:
  "json_value (Suc n) (CHR 0x7B # CHR 0x22 # r) = json_members n [] (CHR 0x22 # r)"
  by (simp add: skip_ws_def)

lemma json_value_array:
  assumes "c \<notin> {CHR 0x20, CHR 0x09, CHR 0x0A, CHR 0x0D, CHR 0x5D}"
  shows "json_value (Suc n) (CHR 0x5B # c # r) = json_elements n [] (c # r)"
  using assms by (simp add: skip_ws_def)

lemma json_elements_step:
  assumes "json_value n s = Some (v, c # r)" "c = CHR 0x5D \<or> c = CHR '',''"
  shows "json_elements (Suc n) vs s =
    (if c = CHR 0x5D then Some (JArr (vs @ [v]), r) else json_elements n (vs @ [v]) r)"
  using assms by (auto simp: skip_ws_def)

lemma json_members_step:
  assumes "utf8_ok k" "json_value n s = Some (v, c # r)" "c = CHR 0x7D \<or> c = CHR '',''"
  shows "json_members (Suc n) kvs (json_quote k @ CHR '':'' # s) =
    (if c = CHR 0x7D then Some (JObj (put_member k v kvs), r) else json_members n (put_member k v kvs) r)"
  using assms by (auto simp: skip_ws_def json_quote_def json_string_escaped)

lemma put_member_new: "k \<notin> fst ` set kvs \<Longrightarrow> put_member k v kvs = kvs @ [(k, v)]"
  by (induction kvs) auto

lemma number_ends_simps [simp]:
  "number_ends []" "number_ends (CHR 0x5D # r)" "number_ends (CHR 0x7D # r)" "number_ends (CHR '','' # r)"
  by (simp_all add: number_ends_def is_digit_def)

lemma json_text_nonempty: "json_reads f v \<Longrightarrow> 0 < length (json_text f v)"
  by (erule json_text_start[of f v]) simp

lemma json_text_reads:
  "json_reads f v \<Longrightarrow> length (json_text f v) < n \<Longrightarrow> number_ends r \<Longrightarrow>
     json_value n (json_text f v @ r) = Some (v, r)"
  "vs \<noteq> [] \<Longrightarrow> list_all (json_reads f) vs \<Longrightarrow> length (items_json f vs) + 1 < n \<Longrightarrow>
     json_elements n acc (items_json f vs @ CHR 0x5D # r) = Some (JArr (acc @ vs), r)"
  "kvs \<noteq> [] \<Longrightarrow> list_all (\<lambda>(k, v). utf8_ok k \<and> json_reads f v) kvs \<Longrightarrow> distinct (map fst (macc @ kvs)) \<Longrightarrow>
     length (members_json f kvs) + 1 < n \<Longrightarrow>
     json_members n macc (members_json f kvs @ CHR 0x7D # r) = Some (JObj (macc @ kvs), r)"
proof (induction f v and f vs and f kvs arbitrary: n r and n r acc and n r macc
    rule: json_text_items_json_members_json.induct)
  case (3 f x)
  then obtain m where "n = Suc m" by (cases n) auto
  moreover have "x \<noteq> Not_finite" using 3 by (simp add: number_reads_def)
  ultimately show ?case using json_value_number[of f x r m] 3 by simp
next
  case (4 f s)
  then obtain m where "n = Suc m" by (cases n) auto
  then show ?case using json_value_string[of s m r] 4 by (simp only: json_text.simps json_reads.simps)
next
  case (5 f vs)
  then obtain m where n: "n = Suc m" by (cases n) auto
  show ?case
  proof (cases vs)
    case Nil
    then show ?thesis by (simp add: n skip_ws_def)
  next
    case (Cons v vs')
    then have "json_reads f v" using 5 by simp
    then obtain c s where c: "json_text f v = c # s" "c \<notin> {CHR 0x20, CHR 0x09, CHR 0x0A, CHR 0x0D, CHR 0x5D, CHR 0x7D}"
      by (rule json_text_start)
    then obtain t where t: "items_json f vs = c # t" using Cons by simp
    have "json_elements m [] (items_json f vs @ CHR 0x5D # r) = Some (JArr vs, r)"
      using 5 Cons n by simp
    then show ?thesis using json_value_array[of c m "t @ CHR 0x5D # r"] c(2) unfolding n t json_text.simps by simp
  qed
next
  case (6 f kvs)
  then obtain m where n: "n = Suc m" by (cases n) auto
  show ?case
  proof (cases kvs)
    case Nil
    then show ?thesis by (simp add: n skip_ws_def)
  next
    case (Cons q kvs')
    obtain t where t: "members_json f kvs = CHR 0x22 # t" using Cons by (cases q) (simp add: json_quote_def)
    have "json_members m [] (members_json f kvs @ CHR 0x7D # r) = Some (JObj kvs, r)"
      using 6 Cons n by simp
    then show ?thesis using json_value_object[of m "t @ CHR 0x7D # r"] unfolding n t json_text.simps by simp
  qed
next
  case (10 f v vs)
  then obtain m where n: "n = Suc m" by (cases n) auto
  show ?case
  proof (cases vs)
    case Nil
    have "json_value m (json_text f v @ CHR 0x5D # r) = Some (v, CHR 0x5D # r)" using 10 Nil n by simp
    then show ?thesis using json_elements_step[of m _ v "CHR 0x5D" r acc] unfolding n Nil by simp
  next
    case (Cons w ws)
    have "json_value m (json_text f v @ CHR '','' # items_json f vs @ CHR 0x5D # r) =
        Some (v, CHR '','' # items_json f vs @ CHR 0x5D # r)" using 10 Cons n by simp
    moreover have "json_elements m (acc @ [v]) (items_json f vs @ CHR 0x5D # r) = Some (JArr ((acc @ [v]) @ vs), r)"
      using 10 Cons n json_text_nonempty[of f v] by simp
    ultimately show ?thesis
      using json_elements_step[of m _ v "CHR '',''" "items_json f vs @ CHR 0x5D # r" acc] Cons unfolding n by simp
  qed
next
  case (12 f k v kvs)
  then obtain m where n: "n = Suc m" by (cases n) auto
  have k: "utf8_ok k" "put_member k v macc = macc @ [(k, v)]" using 12 by (auto intro: put_member_new)
  show ?case
  proof (cases kvs)
    case Nil
    have "json_value m (json_text f v @ CHR 0x7D # r) = Some (v, CHR 0x7D # r)" using 12 Nil n by simp
    then show ?thesis using json_members_step[OF k(1), of m _ v "CHR 0x7D" r macc] k(2) unfolding n Nil by simp
  next
    case (Cons w ws)
    have "json_value m (json_text f v @ CHR '','' # members_json f kvs @ CHR 0x7D # r) =
        Some (v, CHR '','' # members_json f kvs @ CHR 0x7D # r)" using 12 Cons n by simp
    moreover have "json_members m (macc @ [(k, v)]) (members_json f kvs @ CHR 0x7D # r) =
        Some (JObj ((macc @ [(k, v)]) @ kvs), r)"
    proof (rule 12(2))
      show "kvs \<noteq> []" "kvs \<noteq> []" using Cons by simp_all
      show "list_all (\<lambda>(k, v). utf8_ok k \<and> json_reads f v) kvs" "distinct (map fst ((macc @ [(k, v)]) @ kvs))"
        using 12(4,5) Cons by simp_all
      show "length (members_json f kvs) + 1 < m" using 12(6) Cons n by simp
    qed
    ultimately show ?thesis
      using json_members_step[OF k(1), of m _ v "CHR '',''" "members_json f kvs @ CHR 0x7D # r" macc] k(2) Cons
      unfolding n by simp
  qed
next
  case (1 f)
  then show ?case by (cases n) (simp_all add: skip_ws_def)
next
  case (2 f b)
  then show ?case by (cases n; cases b) (simp_all add: skip_ws_def)
qed simp_all

theorem read_text_parses:
  assumes "json_reads f v" "skip_ws w = []"
  shows "json_parse (json_text f v @ w) = Some v"
proof -
  have "number_ends w"
  proof (cases w)
    case (Cons c t)
    then have "c = CHR 0x20 \<or> c = CHR 0x09 \<or> c = CHR 0x0A \<or> c = CHR 0x0D"
      using assms(2) by (simp add: skip_ws_def split: if_splits)
    then show ?thesis unfolding Cons number_ends_def by (elim disjE) (simp_all add: is_digit_def)
  qed simp
  then have "json_value (2 * length (json_text f v @ w) + 2) (json_text f v @ w) = Some (v, w)"
    by (intro json_text_reads(1)[OF assms(1)]) simp_all
  then show ?thesis using assms(2) unfolding json_parse_def by (simp only: option.case prod.case refl if_True)
qed

lemma json_text_parses: "json_exact v \<Longrightarrow> skip_ws w = [] \<Longrightarrow> json_parse (json_text f v @ w) = Some v"
  by (rule read_text_parses[OF json_exact_reads])

end
