(* ===== verification/Utf16.thy ===== *)
theory Utf16
  imports Js_Json
begin

text \<open>
  Comparing strings by their UTF-16 code units tells valid UTF-8 texts apart: the units determine the
  text. So a sort of distinct keys by \<open>utf16_units\<close>, which is what \<^verbatim>\<open><\<close> and \<^verbatim>\<open>sort\<close> do, has one result only.
\<close>

section \<open>From code units back to bytes\<close>

definition pair_bytes :: "nat \<Rightarrow> nat \<Rightarrow> string" where
  "pair_bytes u w =
     (let p = 65536 + (u - 55296) * 1024 + (w - 56320) in
      [char_of (240 + p div 262144), char_of (128 + p div 4096 mod 64), char_of (128 + p div 64 mod 64),
       char_of (128 + p mod 64)])"

fun units_text :: "nat list \<Rightarrow> string" where
  "units_text [] = []"
| "units_text [u] = unit_bytes u"
| "units_text (u # w # us) =
     (if 55296 \<le> u \<and> u < 56320 then pair_bytes u w @ units_text us else unit_bytes u @ units_text (w # us))"

lemma units_text_single: "\<not> (55296 \<le> u \<and> u < 56320) \<Longrightarrow> units_text (u # us) = unit_bytes u @ units_text us"
  by (cases us) auto

lemma mod_part: "n = k * m + x \<Longrightarrow> x < m \<Longrightarrow> n mod m = (x :: nat)"
  by simp

lemma cont_value:
  assumes "is_cont c"
  obtains y where "of_char c = 128 + y" "y < (64 :: nat)" "of_char c mod (64 :: nat) = y"
proof -
  have c: "128 \<le> (of_char c :: nat)" "(of_char c :: nat) \<le> 191" using assms by (simp_all add: byte_in_def)
  obtain y :: nat where "of_char c = 128 + y" using le_Suc_ex[OF c(1)] by blast
  moreover have "y < 64" using c(2) calculation by simp
  moreover have "of_char c mod (64 :: nat) = y" by (rule mod_part[of _ 2]) (use calculation in simp_all)
  ultimately show ?thesis by (rule that)
qed

lemma lead_value:
  assumes "k * m \<le> (of_char c :: nat)" "(of_char c :: nat) < k * m + m"
  obtains x where "of_char c = k * m + x" "x < m" "of_char c mod m = x"
proof -
  obtain x where "of_char c = k * m + x" using le_Suc_ex[OF assms(1)] by blast
  moreover have "x < m" using assms(2) calculation by simp
  moreover have "of_char c mod m = x" by (rule mod_part) (use calculation in simp_all)
  ultimately show ?thesis by (rule that)
qed

lemma char_ofI: "of_char c = n \<Longrightarrow> char_of n = c"
  by (metis char_of_char)

lemma six_bits:
  assumes "y < (64 :: nat)"
  shows "(x * 64 + y) div 64 = x" "(x * 64 + y) mod 64 = y"
  using assms by simp_all

lemma two_bytes:
  assumes "194 \<le> (of_char a :: nat)" "(of_char a :: nat) < 224" "is_cont b"
  shows "unit_bytes (of_char a mod 32 * 64 + of_char b mod 64) = [a, b]"
    "of_char a mod 32 * 64 + of_char b mod 64 < (2048 :: nat)"
proof -
  obtain x :: nat where x: "of_char a = 6 * 32 + x" "x < 32" "of_char a mod 32 = x"
    by (rule lead_value[of 6 32 a]) (use assms in simp_all)
  obtain y where y: "of_char b = 128 + y" "y < (64 :: nat)" "of_char b mod (64 :: nat) = y"
    by (rule cont_value[OF assms(3)])
  have "2 \<le> x" using assms(1) x(1) by simp
  then have "\<not> x * 64 + y < 128" "x * 64 + y < 2048" using x(2) y(2) by linarith+
  then show "unit_bytes (of_char a mod 32 * 64 + of_char b mod 64) = [a, b]"
    "of_char a mod 32 * 64 + of_char b mod 64 < (2048 :: nat)"
    using six_bits[OF y(2), of x] char_ofI[OF x(1)] char_ofI[OF y(1)]
    unfolding x(3) y(3) by (simp_all add: unit_bytes_def)
qed

lemma three_bytes:
  assumes "224 \<le> (of_char a :: nat)" "(of_char a :: nat) < 240" "is_cont b" "is_cont c"
    and "of_char a = (224 :: nat) \<longrightarrow> 160 \<le> (of_char b :: nat)" "of_char a = (237 :: nat) \<longrightarrow> (of_char b :: nat) < 160"
  defines "u \<equiv> of_char a mod 16 * 4096 + of_char b mod 64 * 64 + of_char c mod (64 :: nat)"
  shows "unit_bytes u = [a, b, c]" "\<not> (55296 \<le> u \<and> u < 56320)"
proof -
  obtain x :: nat where x: "of_char a = 14 * 16 + x" "x < 16" "of_char a mod 16 = x"
    by (rule lead_value[of 14 16 a]) (use assms in simp_all)
  obtain y where y: "of_char b = 128 + y" "y < (64 :: nat)" "of_char b mod (64 :: nat) = y"
    by (rule cont_value[OF assms(3)])
  obtain z where z: "of_char c = 128 + z" "z < (64 :: nat)" "of_char c mod (64 :: nat) = z"
    by (rule cont_value[OF assms(4)])
  note b = y(1,2) and c = z(1,2)
  have a: "of_char a = 224 + x" "x < 16" using x by simp_all
  have u: "u = (x * 64 + y) * 64 + z" unfolding u_def x(3) y(3) z(3) by simp
  have low: "x = 0 \<longrightarrow> 32 \<le> y" "x = 13 \<longrightarrow> y < 32" using assms(5,6) a(1) b(1) by auto
  have "2048 \<le> u" using low(1) unfolding u by (cases "x = 0") simp_all
  have parts: "u div 4096 = x" "u div 64 mod 64 = y" "u mod 64 = z"
    using six_bits[OF c(2), of "x * 64 + y"] six_bits[OF b(2), of x] div_mult2_eq[of u 64 64] unfolding u by simp_all
  show "unit_bytes u = [a, b, c]"
    using \<open>2048 \<le> u\<close> parts char_ofI[OF a(1)] char_ofI[OF b(1)] char_ofI[OF c(1)] by (simp add: unit_bytes_def)
  show "\<not> (55296 \<le> u \<and> u < 56320)"
  proof
    assume "55296 \<le> u \<and> u < 56320"
    then have "55296 \<le> u" "u < 56320" by simp_all
    moreover have "u = x * 4096 + y * 64 + z" unfolding u by simp
    ultimately have "12 < x" "x < 14" using b(2) c(2) by linarith+
    then have "x = 13" by simp
    then show False using low(2) b(2) c(2) \<open>55296 \<le> u\<close> unfolding u by simp
  qed
qed

lemma four_bytes:
  assumes "240 \<le> (of_char a :: nat)" "(of_char a :: nat) \<le> 244" "is_cont b" "is_cont c" "is_cont d"
    and "of_char a = (240 :: nat) \<longrightarrow> 144 \<le> (of_char b :: nat)" "of_char a = (244 :: nat) \<longrightarrow> (of_char b :: nat) < 144"
  defines "p \<equiv> of_char a mod 8 * 262144 + of_char b mod 64 * 4096 + of_char c mod 64 * 64 + of_char d mod 64 - (65536 :: nat)"
  shows "pair_bytes (55296 + p div 1024) (56320 + p mod 1024) = [a, b, c, d]" "p div 1024 < 1024"
proof -
  obtain x :: nat where x: "of_char a = 30 * 8 + x" "x < 8" "of_char a mod 8 = x"
    by (rule lead_value[of 30 8 a]) (use assms in simp_all)
  obtain y where y: "of_char b = 128 + y" "y < (64 :: nat)" "of_char b mod (64 :: nat) = y"
    by (rule cont_value[OF assms(3)])
  obtain z where z: "of_char c = 128 + z" "z < (64 :: nat)" "of_char c mod (64 :: nat) = z"
    by (rule cont_value[OF assms(4)])
  obtain w where w: "of_char d = 128 + w" "w < (64 :: nat)" "of_char d mod (64 :: nat) = w"
    by (rule cont_value[OF assms(5)])
  note b = y(1,2) and c = z(1,2) and d = w(1,2)
  have a: "of_char a = 240 + x" "x \<le> 4" using x assms(2) by simp_all
  define q where "q = ((x * 64 + y) * 64 + z) * 64 + w"
  have p: "p = q - 65536" unfolding p_def q_def x(3) y(3) z(3) w(3) by simp
  have low: "x = 0 \<longrightarrow> 16 \<le> y" "x = 4 \<longrightarrow> y < 16" using assms(6,7) a(1) b(1) by auto
  have ge: "65536 \<le> q" using low(1) unfolding q_def by (cases "x = 0") simp_all
  have less: "q < 1114112" using low(2) a(2) b(2) c(2) d(2) unfolding q_def by (cases "x = 4") simp_all
  have sum: "65536 + (55296 + p div 1024 - 55296) * 1024 + (56320 + p mod 1024 - 56320) = q"
    using ge div_mult_mod_eq[of p 1024] unfolding p by simp
  have parts: "q div 262144 = x" "q div 4096 mod 64 = y" "q div 64 mod 64 = z" "q mod 64 = w"
    using six_bits[OF d(2), of "(x * 64 + y) * 64 + z"] six_bits[OF c(2), of "x * 64 + y"] six_bits[OF b(2), of x]
      div_mult2_eq[of q 64 64] div_mult2_eq[of q 4096 64] unfolding q_def by simp_all
  show "pair_bytes (55296 + p div 1024) (56320 + p mod 1024) = [a, b, c, d]"
    unfolding pair_bytes_def sum Let_def parts
    using char_ofI[OF a(1)] char_ofI[OF b(1)] char_ofI[OF c(1)] char_ofI[OF d(1)] by simp
  show "p div 1024 < 1024" using less unfolding p by (simp add: less_mult_imp_div_less)
qed

lemma utf8_from_cont:
  assumes "utf8_from (P # e) s"
  obtains c t where "s = c # t" "P c" "utf8_from e t"
  using assms by (cases s) auto

lemma units_text_inverse: "utf8_from [] s \<Longrightarrow> units_text (utf16_units s) = s"
proof (induction s rule: utf16_units.induct)
  case (2 a s)
  define n :: nat where "n = of_char a"
  obtain e where e: "utf8_tail a = Some e" "utf8_from e s" using 2(5) by (auto split: option.splits)
  consider (one) "n < 128" "e = []" | (two) "194 \<le> n" "n < 224" "e = [is_cont]"
    | (three) P where "224 \<le> n" "n < 240" "e = [P, is_cont]" "\<forall>b. P b \<longrightarrow> is_cont b"
        "n = 224 \<longrightarrow> (\<forall>b. P b \<longrightarrow> 160 \<le> (of_char b :: nat))" "n = 237 \<longrightarrow> (\<forall>b. P b \<longrightarrow> (of_char b :: nat) < 160)"
    | (four) P where "240 \<le> n" "n \<le> 244" "e = [P, is_cont, is_cont]" "\<forall>b. P b \<longrightarrow> is_cont b"
        "n = 240 \<longrightarrow> (\<forall>b. P b \<longrightarrow> 144 \<le> (of_char b :: nat))" "n = 244 \<longrightarrow> (\<forall>b. P b \<longrightarrow> (of_char b :: nat) < 144)"
    using e(1) by (auto simp: utf8_tail_def n_def byte_in_def split: if_splits)
  then show ?case
  proof cases
    case one
    then show ?thesis using 2(1)[OF refl refl] e(2) by (simp add: units_text_single unit_bytes_def n_def)
  next
    case two
    then obtain b t where t: "s = b # t" "is_cont b" "utf8_from [] t" using e(2) by (auto elim: utf8_from_cont)
    then show ?thesis using two two_bytes[of a b] 2(2) by (simp add: units_text_single n_def Let_def)
  next
    case three
    then obtain b c t where t: "s = b # c # t" "P b" "is_cont c" "utf8_from [] t"
      using e(2) by (auto elim!: utf8_from_cont)
    then show ?thesis using three three_bytes[of a b c] 2(3) by (simp add: units_text_single n_def Let_def)
  next
    case four
    then obtain b c d t where t: "s = b # c # d # t" "P b" "is_cont c" "is_cont d" "utf8_from [] t"
      using e(2) by (auto elim!: utf8_from_cont)
    then show ?thesis using four four_bytes[of a b c d] 2(4) by (simp add: n_def Let_def)
  qed
qed simp

lemma utf16_units_inj: "utf8_ok s \<Longrightarrow> utf8_ok t \<Longrightarrow> utf16_units s = utf16_units t \<Longrightarrow> s = t"
  unfolding utf8_ok_def by (metis units_text_inverse)

end
