(* ===== verification/Canonical_Json.thy ===== *)
theory Canonical_Json
  imports Json_Text Utf16 Protocol_Fields
begin

text \<open>
  The canonical text of a JSON value, \<^verbatim>\<open>packages/shared/src/canonical-json.ts\<close>, and the digest and the
  identifier made from it, \<^verbatim>\<open>packages/shared/src/canonical-json-digest.ts\<close>: members are sorted by key and
  undefined ones left out, and what JSON cannot express is refused.
\<close>

section \<open>The serializer\<close>

lemma emap_cong [fundef_cong]:
  "xs = ys \<Longrightarrow> (\<And>x. x \<in> set ys \<Longrightarrow> f x = g x) \<Longrightarrow> emap f xs = emap g ys"
  by (induction ys arbitrary: xs) auto

abbreviation by_key :: "(string \<times> 'a) list \<Rightarrow> (string \<times> 'a) list" where
  "by_key kvs \<equiv> sort_key (\<lambda>q. utf16_units (fst q)) kvs"

abbreviation defined_members :: "members \<Rightarrow> members" where
  "defined_members kvs \<equiv> filter (\<lambda>q. snd q \<noteq> JUndefined) kvs"

text \<open>The values of this model are not cyclic. A \<open>JObj\<close> stands here for a plain object of either prototype the
  serializer accepts, \<^verbatim>\<open>Object.prototype\<close> and \<^verbatim>\<open>null\<close>, and \<open>JOther\<close> for an object with any other. Of the values that are \<open>JOther\<close> the message is the one for
  objects; it names the type of a function, a symbol or a bigint.\<close>

lemma member_smaller: "q \<in> set kvs \<Longrightarrow> size (snd q) < size (JObj kvs)"
proof -
  assume "q \<in> set kvs"
  moreover have "size (snd q) \<le> size_prod (\<lambda>x. 0) size q" by (cases q) simp
  ultimately have "size (snd q) \<le> size_list (size_prod (\<lambda>x. 0) size) kvs" by (rule size_list_estimation')
  then show ?thesis by simp
qed

function canonical_json :: "(js_number \<Rightarrow> string) \<Rightarrow> js_value \<Rightarrow> string result" where
  "canonical_json f JNull = Inr ''null''"
| "canonical_json f (JStr s) = Inr (json_quote s)"
| "canonical_json f (JBool b) = Inr (if b then ''true'' else ''false'')"
| "canonical_json f (JNum x) =
     (if x = Not_finite then Inl (TypeError ''Canonical JSON only supports finite numbers'')
      else Inr (number_text f x))"
| "canonical_json f JUndefined = Inl (TypeError ''Canonical JSON does not support undefined'')"
| "canonical_json f JOther = Inl (TypeError ''Canonical JSON only supports plain objects'')"
| "canonical_json f (JArr vs) =
     ebind (emap (canonical_json f) vs) (\<lambda>ts. Inr (CHR 0x5B # join_with CHR '','' ts @ [CHR 0x5D]))"
| "canonical_json f (JObj kvs) =
     ebind (emap (\<lambda>q. ebind (canonical_json f (snd q)) (\<lambda>t. Inr (json_quote (fst q) @ CHR '':'' # t)))
              (by_key (defined_members kvs)))
       (\<lambda>ts. Inr (CHR 0x7B # join_with CHR '','' ts @ [CHR 0x7D]))"
  by pat_completeness auto
termination
  by (relation "measure (\<lambda>(f, v). size v)") (auto dest: member_smaller simp: less_Suc_eq_le intro: size_list_estimation')

definition canonical_json_digest :: "'k crypto \<Rightarrow> (js_number \<Rightarrow> string) \<Rightarrow> js_value \<Rightarrow> string result" where
  "canonical_json_digest cr f v = ebind (canonical_json f v) (\<lambda>t. Inr (sha256_hex cr t))"

text \<open>\<^verbatim>\<open>Number.parseInt(c, 16)\<close> and \<^verbatim>\<open>toString(16)\<close> of one digit.\<close>

definition uuid_variant :: "char \<Rightarrow> string" where
  "uuid_variant c =
     (case hex_digit c of None \<Rightarrow> ''8'' | Some n \<Rightarrow> [hex_char (8 + n mod 4)])"

definition canonical_json_uuid :: "'k crypto \<Rightarrow> (js_number \<Rightarrow> string) \<Rightarrow> js_value \<Rightarrow> string result" where
  "canonical_json_uuid cr f v =
     ebind (canonical_json_digest cr f v) (\<lambda>full.
     let digest = take 32 full;
         hex = take 12 digest @ ''5'' @ drop 13 (take 16 digest) @ uuid_variant (digest ! 16) @ drop 17 digest
     in Inr (take 8 hex @ ''-'' @ drop 8 (take 12 hex) @ ''-'' @ drop 12 (take 16 hex) @ ''-'' @
          drop 16 (take 20 hex) @ ''-'' @ drop 20 hex))"

section \<open>What it writes\<close>

text \<open>The value whose plain text the canonical text is, and the value without its undefined members.\<close>

function canonical_value :: "js_value \<Rightarrow> js_value" where
  "canonical_value (JArr vs) = JArr (map canonical_value vs)"
| "canonical_value (JObj kvs) =
     JObj (map (\<lambda>q. (fst q, canonical_value (snd q))) (by_key (defined_members kvs)))"
| "canonical_value JNull = JNull"
| "canonical_value (JStr s) = JStr s"
| "canonical_value (JBool b) = JBool b"
| "canonical_value (JNum x) = JNum x"
| "canonical_value JUndefined = JUndefined"
| "canonical_value JOther = JOther"
  by pat_completeness auto
termination
  by (relation "measure size") (auto dest: member_smaller simp: less_Suc_eq_le intro: size_list_estimation')

fun js_defined :: "js_value \<Rightarrow> js_value" where
  "js_defined (JArr vs) = JArr (map js_defined vs)"
| "js_defined (JObj kvs) = JObj (map (map_prod id js_defined) (defined_members kvs))"
| "js_defined v = v"

text \<open>A value whose texts are well formed, whose keys differ, as an object's do, and whose numbers the engine writes
  as texts that read back; that holds of every safe integer. Undefined members are left out, whatever their key.\<close>

fun canonical_ok :: "(js_number \<Rightarrow> string) \<Rightarrow> js_value \<Rightarrow> bool" where
  "canonical_ok f (JNum x) = number_reads f x"
| "canonical_ok f (JStr s) = utf8_ok s"
| "canonical_ok f (JArr vs) = list_all (canonical_ok f) vs"
| "canonical_ok f (JObj kvs) =
     (distinct (map fst kvs) \<and> list_all (\<lambda>q. snd q = JUndefined \<or> utf8_ok (fst q) \<and> canonical_ok f (snd q)) kvs)"
| "canonical_ok f JUndefined = False"
| "canonical_ok f JOther = False"
| "canonical_ok f v = True"

lemma canonical_value_undefined [simp]: "canonical_value v = JUndefined \<longleftrightarrow> v = JUndefined"
  by (cases v) simp_all

lemma items_json_join: "items_json f vs = join_with CHR '','' (map (json_text f) vs)"
  by (induction vs rule: induct_list012) simp_all

lemma members_json_join:
  "members_json f kvs = join_with CHR '','' (map (\<lambda>q. json_quote (fst q) @ CHR '':'' # json_text f (snd q)) kvs)"
  by (induction kvs rule: induct_list012) (auto simp: prod.split)

lemma emap_all: "(\<And>x. x \<in> set xs \<Longrightarrow> g x = Inr (h x)) \<Longrightarrow> emap g xs = Inr (map h xs)"
  by (induction xs) simp_all

lemma canonical_json_text:
  "canonical_ok f v \<Longrightarrow>
     canonical_json f v = Inr (json_text f (canonical_value v)) \<and> json_reads f (canonical_value v)"
proof (induction v rule: canonical_value.induct)
  case (1 vs)
  then have IH: "canonical_json f v = Inr (json_text f (canonical_value v))" "json_reads f (canonical_value v)"
    if "v \<in> set vs" for v using that by (simp_all add: list_all_iff)
  have "emap (canonical_json f) vs = Inr (map (\<lambda>v. json_text f (canonical_value v)) vs)"
    using IH(1) by (rule emap_all)
  then show ?case using IH(2) by (simp add: items_json_join list_all_iff comp_def)
next
  case (2 kvs)
  let ?ms = "by_key (defined_members kvs)"
  have ok: "canonical_ok f (snd q)" "utf8_ok (fst q)" if "q \<in> set ?ms" for q
    using 2(2) that by (auto simp: list_all_iff)
  have IH: "canonical_json f (snd q) = Inr (json_text f (canonical_value (snd q)))"
    "json_reads f (canonical_value (snd q))" "utf8_ok (fst q)" if "q \<in> set ?ms" for q
    using 2(1)[OF that ok(1)[OF that]] ok(2)[OF that] by simp_all
  have "emap (\<lambda>q. ebind (canonical_json f (snd q)) (\<lambda>t. Inr (json_quote (fst q) @ CHR '':'' # t))) ?ms =
      Inr (map (\<lambda>q. json_quote (fst q) @ CHR '':'' # json_text f (canonical_value (snd q))) ?ms)"
    by (rule emap_all) (simp add: IH(1))
  moreover have "distinct (map fst ?ms)"
    using 2(2) by (auto simp: distinct_map inj_on_def)
  ultimately show ?case
    using IH(2,3) by (simp add: members_json_join list_all_iff comp_def split_beta)
qed (auto simp: number_reads_def)


section \<open>The same text for the same value\<close>

lemma insort_key_map: "insort_key g (h x) (map h xs) = map h (insort_key (\<lambda>q. g (h q)) x xs)"
  by (induction xs) simp_all

lemma sort_key_map: "sort_key g (map h xs) = map h (sort_key (\<lambda>q. g (h q)) xs)"
  by (induction xs) (simp_all add: insort_key_map)

lemma by_key_unique:
  assumes "mset xs = mset ys" "distinct (map fst ys)" "\<And>q. q \<in> set ys \<Longrightarrow> utf8_ok (fst q)"
  shows "by_key xs = by_key (ys :: members)"
proof (rule sort_key_inj_key_eq)
  have set_eq: "set xs = set ys" using assms(1) by (rule mset_eq_setD)
  show "inj_on (\<lambda>q. utf16_units (fst q)) (set xs)"
  proof (rule inj_onI)
    fix p q assume pq: "p \<in> set xs" "q \<in> set xs" "utf16_units (fst p) = utf16_units (fst q)"
    then have "fst p = fst q" using assms(3) set_eq utf16_units_inj by simp
    then show "p = q" using pq set_eq assms(2) by (simp add: distinct_map inj_on_def)
  qed
qed (use assms(1) in simp_all)

lemma defined_ok:
  assumes "canonical_ok f (JObj kvs)"
  shows "distinct (map fst (defined_members kvs))"
    "q \<in> set (defined_members kvs) \<Longrightarrow> utf8_ok (fst q) \<and> canonical_ok f (snd q)"
  using assms by (auto simp: list_all_iff distinct_map inj_on_def)

lemma js_norm_undefined [simp]: "js_norm v = JUndefined \<longleftrightarrow> v = JUndefined"
  by (cases v) simp_all

lemma js_defined_undefined [simp]: "js_defined v = JUndefined \<longleftrightarrow> v = JUndefined"
  by (cases v) simp_all

lemma js_norm_canonical: "canonical_ok f v \<Longrightarrow> js_norm (canonical_value v) = js_norm (js_defined v)"
proof (induction v rule: canonical_value.induct)
  case (2 kvs)
  let ?F = "defined_members kvs"
  let ?h = "\<lambda>q. (fst q, js_norm (js_defined (snd q)))"
  have IH: "js_norm (canonical_value (snd q)) = js_norm (js_defined (snd q))" if "q \<in> set ?F" for q
    using 2(1)[of q] defined_ok(2)[OF 2(2) that] that by simp
  have "map (map_prod id js_norm) (map (\<lambda>q. (fst q, canonical_value (snd q))) (by_key ?F)) = map ?h (by_key ?F)"
    using IH by (auto simp: map_prod_def split_beta)
  moreover have "map (map_prod id js_norm) (map (map_prod id js_defined) ?F) = map ?h ?F"
    by (simp add: map_prod_def split_beta)
  moreover have "sort_key fst (map ?h (by_key ?F)) = sort_key fst (map ?h ?F)"
  proof (subst sort_key_eq_iff_mset)
    show "distinct (map fst (map ?h ?F))" using defined_ok(1)[OF 2(2)] by (simp add: comp_def)
    show "mset (map ?h (by_key ?F)) = mset (map ?h ?F)" by simp
  qed
  ultimately show ?case by (simp only: canonical_value.simps js_defined.simps js_norm.simps)
qed (auto simp: list_all_iff)

lemma canonical_value_norm: "canonical_ok f v \<Longrightarrow> canonical_value (js_norm (js_defined v)) = canonical_value v"
proof (induction v rule: canonical_value.induct)
  case (2 kvs)
  let ?F = "defined_members kvs"
  let ?h = "\<lambda>q. (fst q, js_norm (js_defined (snd q)))"
  let ?N = "sort_key fst (map ?h ?F)"
  have norm: "js_norm (js_defined (JObj kvs)) = JObj ?N"
    by (simp add: map_prod_def split_beta comp_def)
  have "defined_members ?N = ?N"
    by (rule filter_True) auto
  moreover have "by_key ?N = by_key (map ?h ?F)"
    using defined_ok[OF 2(2)] by (intro by_key_unique) (auto simp: comp_def)
  moreover have "by_key (map ?h ?F) = map ?h (by_key ?F)" by (simp add: sort_key_map)
  moreover have "canonical_value (js_norm (js_defined (snd q))) = canonical_value (snd q)" if "q \<in> set ?F" for q
    using 2(1)[of q] defined_ok(2)[OF 2(2) that] that by simp
  ultimately show ?case unfolding norm canonical_value.simps by simp
qed (auto simp: list_all_iff)

lemma canonical_value_eq:
  assumes "canonical_ok f v" "canonical_ok f w"
  shows "canonical_value v = canonical_value w \<longleftrightarrow> js_same (js_defined v) (js_defined w)"
  unfolding js_same_def
  by (metis assms js_norm_canonical canonical_value_norm)

lemma canonical_json_parses:
  assumes "canonical_ok f v" "canonical_json f v = Inr t"
  shows "json_parse t = Some (canonical_value v)"
  using canonical_json_text[OF assms(1)] read_text_parses[of f "canonical_value v" "[]"] assms(2)
  by (simp add: skip_ws_def)

text \<open>What the serializer accepts.\<close>

fun serializable :: "js_value \<Rightarrow> bool" where
  "serializable (JNum x) = (x \<noteq> Not_finite)"
| "serializable (JArr vs) = list_all serializable vs"
| "serializable (JObj kvs) = list_all (\<lambda>q. snd q = JUndefined \<or> serializable (snd q)) kvs"
| "serializable JUndefined = False"
| "serializable JOther = False"
| "serializable v = True"

lemma emap_returns: "(\<exists>ys. emap g xs = Inr ys) \<longleftrightarrow> (\<forall>x \<in> set xs. \<exists>y. g x = Inr y)"
  by (induction xs) (auto simp: result_simps)

lemma canonical_json_returns: "(\<exists>t. canonical_json f v = Inr t) \<longleftrightarrow> serializable v"
proof (induction v rule: canonical_value.induct)
  case (1 vs)
  then show ?case using emap_returns[of "canonical_json f" vs] by (auto simp: result_simps list_all_iff)
next
  case (2 kvs)
  let ?g = "\<lambda>q. ebind (canonical_json f (snd q)) (\<lambda>t. Inr (json_quote (fst q) @ CHR '':'' # t))"
  let ?ms = "by_key (defined_members kvs)"
  have "(\<exists>t. canonical_json f (JObj kvs) = Inr t) \<longleftrightarrow> (\<exists>ts. emap ?g ?ms = Inr ts)"
    by (auto simp: result_simps)
  also have "\<dots> \<longleftrightarrow> (\<forall>q \<in> set ?ms. \<exists>t. canonical_json f (snd q) = Inr t)"
    unfolding emap_returns by (auto simp: result_simps)
  also have "\<dots> \<longleftrightarrow> (\<forall>q \<in> set ?ms. serializable (snd q))" using 2 by blast
  also have "\<dots> \<longleftrightarrow> serializable (JObj kvs)"
    unfolding serializable.simps list_all_iff set_sort set_filter by blast
  finally show ?case .
qed auto


text \<open>C23. The canonical text decides equality. Take two serializable values whose texts are well formed and whose
  numbers the engine writes as texts that read back, fractions and large numbers included. They have the same
  canonical text exactly when they are the same value up to the order of members and to members that are
  undefined; and each has a canonical text, parsing which gives that value back.\<close>

theorem canonical_text_decides_equality:
  assumes "canonical_ok f v" "canonical_ok f w"
  shows "(canonical_json f v = canonical_json f w \<longleftrightarrow> js_same (js_defined v) (js_defined w)) \<and>
    (\<exists>t. canonical_json f v = Inr t \<and> json_parse t = Some (canonical_value v) \<and>
       js_same (canonical_value v) (js_defined v))"
proof
  have v: "canonical_json f v = Inr (json_text f (canonical_value v))"
    and w: "canonical_json f w = Inr (json_text f (canonical_value w))"
    using canonical_json_text assms by blast+
  have "canonical_json f v = canonical_json f w \<longleftrightarrow> canonical_value v = canonical_value w"
  proof
    assume "canonical_json f v = canonical_json f w"
    then show "canonical_value v = canonical_value w"
      using canonical_json_parses[OF assms(1) v] canonical_json_parses[OF assms(2) w] v w
      by (metis option.inject sum.inject(2))
  qed (simp only: v w)
  then show "canonical_json f v = canonical_json f w \<longleftrightarrow> js_same (js_defined v) (js_defined w)"
    using canonical_value_eq[OF assms] by simp
  show "\<exists>t. canonical_json f v = Inr t \<and> json_parse t = Some (canonical_value v) \<and>
      js_same (canonical_value v) (js_defined v)"
    using v canonical_json_parses[OF assms(1) v] js_norm_canonical[OF assms(1)] by (simp add: js_same_def)
qed

text \<open>Two values with a fraction, for an engine that writes one half as it is written.\<close>

definition demo_value :: js_value where
  "demo_value = JObj [(''b'', JArr [js_int 12, JNum (Fraction 1 2)]), (''a'', JStr ''x''), (''c'', JUndefined)]"

definition demo_other :: js_value where
  "demo_other = JObj [(''a'', JStr ''x''), (''b'', JArr [js_int 12, JNum (Fraction 1 2)])]"

lemma half_reads: "number_reads (\<lambda>_. ''0.5'') (Fraction 1 2)"
  by code_simp

lemma canonical_text_decides_equality_witness:
  "canonical_json (\<lambda>_. ''0.5'') demo_value = canonical_json (\<lambda>_. ''0.5'') demo_other"
proof -
  have "canonical_ok (\<lambda>_. ''0.5'') demo_value" "canonical_ok (\<lambda>_. ''0.5'') demo_other"
    by (simp_all add: demo_value_def demo_other_def js_int_def max_safe_integer_def utf8_ok_ascii safe_number_reads half_reads)
  moreover have "js_same (js_defined demo_value) (js_defined demo_other)"
    by (simp add: demo_value_def demo_other_def js_same_def js_int_def)
  ultimately show ?thesis using canonical_text_decides_equality[of "\<lambda>_. ''0.5''" demo_value demo_other] by blast
qed

section \<open>The identifier\<close>

lemma uuid_variant_digit:
  assumes "is_hex_lower c"
  obtains v where "uuid_variant c = [v]" "v = CHR ''8'' \<or> v = CHR ''9'' \<or> v = CHR ''a'' \<or> v = CHR ''b''"
proof -
  have "\<exists>n. hex_digit c = Some n" using assms by (auto simp: hex_digit_def is_hex_lower_def is_digit_def)
  then obtain n where n: "uuid_variant c = [hex_char (8 + n mod 4)]" by (auto simp: uuid_variant_def)
  have "n mod 4 = 0 \<or> n mod 4 = 1 \<or> n mod 4 = 2 \<or> n mod 4 = 3" by presburger
  moreover have "char_of (56 :: nat) = CHR ''8''" "char_of (57 :: nat) = CHR ''9''"
    "char_of (97 :: nat) = CHR ''a''" "char_of (98 :: nat) = CHR ''b''" by code_simp+
  ultimately have "hex_char (8 + n mod 4) \<in> {CHR ''8'', CHR ''9'', CHR ''a'', CHR ''b''}"
    by (elim disjE) (simp_all add: hex_char_def)
  then show ?thesis using that n by blast
qed

text \<open>The deterministic identifier of a serializable value is a UUID of version 5.\<close>

theorem canonical_uuid_is_uuid:
  assumes "serializable v" and "\<And>t. is_sha256 (sha256_hex cr t)"
  shows "\<exists>u. canonical_json_uuid cr f v = Inr u \<and> is_uuid u \<and> u ! 14 = CHR ''5''"
proof -
  obtain t where t: "canonical_json f v = Inr t" using canonical_json_returns assms(1) by blast
  define h where "h = sha256_hex cr t"
  have len: "length h = 64" and hex: "list_all is_hex_lower h"
    using assms(2)[of t] by (simp_all add: is_sha256_iff h_def)
  have part: "list_all2 (\<lambda>p c. p c) (replicate (b - a) is_hex_lower) (drop a (take b h))" if "a \<le> b" "b \<le> 64" for a b
    using hex that len
    by (auto simp: list_all2_conv_all_nth list_all_iff dest!: nth_mem[of _ "drop a (take b h)"] in_set_dropD in_set_takeD)
  have "is_hex_lower (h ! 16)" using hex len by (simp add: list_all_length)
  then obtain w where w: "uuid_variant (h ! 16) = [w]" "w = CHR ''8'' \<or> w = CHR ''9'' \<or> w = CHR ''a'' \<or> w = CHR ''b''"
    by (rule uuid_variant_digit)
  define u where "u = take 8 h @ ''-'' @ drop 8 (take 12 h) @ ''-'' @ ''5'' @ drop 13 (take 16 h) @ ''-'' @ [w] @
    drop 17 (take 20 h) @ ''-'' @ drop 20 (take 32 h)"
  have "take 3 (drop 17 (take 32 h)) = drop 17 (take 20 h)" by (simp add: take_drop min_def)
  then have "canonical_json_uuid cr f v = Inr u"
    using len by (simp add: canonical_json_uuid_def canonical_json_digest_def t h_def[symmetric] w(1) u_def Let_def min_def)
  moreover have "is_uuid u"
    unfolding is_uuid_def matches_def uuid_pattern_def u_def
    using part[of 0 8] part[of 8 12] part[of 13 16] part[of 17 20] part[of 20 32] w(2)
    by (auto simp: less_eq_char_def intro!: list_all2_appendI)
  moreover have "u ! 14 = CHR ''5''" using len by (simp add: u_def nth_append)
  ultimately show ?thesis by blast
qed


definition digest_crypto :: "unit crypto" where
  "digest_crypto =
     \<lparr> canonicalize = (\<lambda>_. []), sha256_hex = (\<lambda>_. replicate 64 CHR ''e''), ed_public_key = (\<lambda>_. Inr ()),
       ed_private_key = (\<lambda>_ _. Inr ()), ed_verify = (\<lambda>_ _ _. False), ed_sign = (\<lambda>_ _. []),
       key_type = (\<lambda>_. []), key_algorithm = (\<lambda>_. []) \<rparr>"

lemma canonical_uuid_is_uuid_witness:
  "\<exists>u. canonical_json_uuid digest_crypto (\<lambda>_. []) demo_value = Inr u \<and> is_uuid u \<and> u ! 14 = CHR ''5''"
proof (rule canonical_uuid_is_uuid)
  show "serializable demo_value" by (simp add: demo_value_def js_int_def)
  have "is_sha256 (replicate 64 CHR ''e'')" by code_simp
  then show "is_sha256 (sha256_hex digest_crypto t)" for t by (simp add: digest_crypto_def)
qed

end
