(* ===== verification/Store_Lock.thy ===== *)
theory Store_Lock
  imports Json_Text Protocol_Fields Step_Machines
begin

text \<open>
  The lock under which the encrypted local stores are changed,
  \<^verbatim>\<open>packages/shared/src/encrypted-state-transaction-core.ts\<close>: processes that create, recover and remove one lock
  file, and the mutation of the store between them. \<open>lock_step\<close> interleaves any number of processes, which
  may crash, at the granularity of the file system calls; reading a snapshot of the lock file (\<^verbatim>\<open>lstat\<close>
  and the read of its text) and replacing the store (write, \<^verbatim>\<open>fsync\<close> and rename) are one call each.
  The clock may jump.
\<close>

section \<open>The lock file\<close>

record lock_config =
  lc_timeoutMs :: int
  lc_staleMs :: int

definition lock_config_of :: "int option \<Rightarrow> int option \<Rightarrow> lock_config result" where
  "lock_config_of timeout stale =
     (let t = (case timeout of None \<Rightarrow> 5000 | Some x \<Rightarrow> x); s = (case stale of None \<Rightarrow> 30000 | Some x \<Rightarrow> x) in
      if t < 0 \<or> 30000 < t \<or> s < 1000 \<or> 10 * 60000 < s
      then Inl (PlainError ''Local secret store lock bounds are invalid.'')
      else Inr \<lparr> lc_timeoutMs = t, lc_staleMs = s \<rparr>)"

text \<open>\<^verbatim>\<open>StoreLockMetadata\<close>; version 2 has a start time.\<close>

record lock_metadata =
  lm_ownerToken :: string
  lm_pid :: int
  lm_createdAtEpochMs :: int
  lm_ownerStartTime :: "string option"

definition lock_token_ok :: "string \<Rightarrow> bool" where
  "lock_token_ok s \<longleftrightarrow> length s = 43 \<and> list_all is_base64url_char s"

definition metadata_value :: "lock_metadata \<Rightarrow> js_value" where
  "metadata_value m =
     JObj ((''version'', js_int (if lm_ownerStartTime m = None then 1 else 2)) #
       (''ownerToken'', JStr (lm_ownerToken m)) # (''pid'', js_int (lm_pid m)) #
       (''createdAtEpochMs'', js_int (lm_createdAtEpochMs m)) #
       (case lm_ownerStartTime m of None \<Rightarrow> [] | Some t \<Rightarrow> [(''ownerStartTime'', JStr t)]))"

definition metadata_text :: "lock_metadata \<Rightarrow> string" where
  "metadata_text m = json_text (\<lambda>_. []) (metadata_value m) @ [CHR 0x0A]"

text \<open>A value without members, \<^verbatim>\<open>null\<close> included, gives \<^verbatim>\<open>null\<close> as well, by the check or by its exception.\<close>

definition parse_lock_metadata :: "string option \<Rightarrow> lock_metadata option" where
  "parse_lock_metadata contents =
     (case Option.bind contents json_parse of
        Some (JObj kvs) \<Rightarrow>
          let version = fld kvs ''version'';
              valid_shape =
                (if version = js_int 1 then length kvs = 4
                 else version = js_int 2 \<and> length kvs = 5 \<and>
                   (case fld kvs ''ownerStartTime'' of JStr _ \<Rightarrow> True | _ \<Rightarrow> False))
          in (case (fld kvs ''ownerToken'', fld kvs ''pid'', safe_integer 0 (fld kvs ''createdAtEpochMs'')) of
                (JStr token, JNum (Whole pid), Some created) \<Rightarrow>
                  if valid_shape \<and> lock_token_ok token \<and> 0 < pid
                  then Some \<lparr> lm_ownerToken = token, lm_pid = pid, lm_createdAtEpochMs = created,
                              lm_ownerStartTime =
                                (case fld kvs ''ownerStartTime'' of JStr t \<Rightarrow> Some t | _ \<Rightarrow> None) \<rparr>
                  else None
              | _ \<Rightarrow> None)
      | _ \<Rightarrow> None)"

record lock_file =
  lf_contents :: string
  lf_ino :: nat
  lf_mtimeMs :: int
  lf_ctimeMs :: int

text \<open>Of a \<^verbatim>\<open>LockSnapshot\<close> the device and the mode are constant.\<close>

record lock_snapshot =
  ls_contents :: "string option"
  ls_ino :: nat
  ls_size :: nat
  ls_mtimeMs :: int
  ls_ctimeMs :: int

definition lock_snapshot_of :: "lock_file \<Rightarrow> lock_snapshot" where
  "lock_snapshot_of f =
     \<lparr> ls_contents = (if length (lf_contents f) \<le> 1024 then Some (lf_contents f) else None),
       ls_ino = lf_ino f, ls_size = length (lf_contents f), ls_mtimeMs = lf_mtimeMs f, ls_ctimeMs = lf_ctimeMs f \<rparr>"

text \<open>The first half of \<^verbatim>\<open>recoverStaleLock\<close>: whether the lock of the snapshot is to be recovered. \<open>alive\<close> and
  \<open>start_time\<close> are what the operating system says of a process.\<close>

definition lock_is_stale ::
  "lock_config \<Rightarrow> int \<Rightarrow> (int \<Rightarrow> bool) \<Rightarrow> (int \<Rightarrow> string option) \<Rightarrow> lock_snapshot \<Rightarrow> bool" where
  "lock_is_stale cfg now alive start_time s \<longleftrightarrow>
     \<not> now - ls_mtimeMs s < lc_staleMs cfg \<and>
     (case parse_lock_metadata (ls_contents s) of
        None \<Rightarrow> True
      | Some m \<Rightarrow>
          (alive (lm_pid m) \<longrightarrow>
             lm_ownerStartTime m \<notin> {None, Some []} \<and>
             start_time (lm_pid m) \<notin> {None, Some [], lm_ownerStartTime m}) \<and>
          \<not> now - lm_createdAtEpochMs m < lc_staleMs cfg)"

section \<open>Processes\<close>

text \<open>Where a process is in \<^verbatim>\<open>mutate\<close>: in \<^verbatim>\<open>acquireStoreLock\<close>, in \<^verbatim>\<open>recoverStaleLock\<close> called by it, in its
  \<^verbatim>\<open>try\<close> block, or in \<^verbatim>\<open>releaseStoreLock\<close>.\<close>

datatype 's lock_pc =
    Opening
  | Writing nat
  | Recovering
  | Confirming lock_snapshot
  | Removing lock_snapshot
  | Waiting
  | Sleeping int
  | Held
  | Store_writing 's
  | Releasing
  | Release_confirming lock_snapshot
  | Release_removing lock_snapshot
  | Finished
  | Timed_out

record 's lock_proc =
  lp_metadata :: lock_metadata
  lp_startedAt :: int
  lp_attempt :: nat
  lp_apply :: "'s \<Rightarrow> ('s \<times> bool) option"
  lp_pc :: "'s lock_pc"

text \<open>The last three are ghost: the tokens given out, whether an \<^verbatim>\<open>unlink\<close> has removed a lock file other than
  the one its process had confirmed, or one still being written, and the mutations committed.\<close>

record 's lock_world =
  lw_file :: "lock_file option"
  lw_ino :: nat
  lw_now :: int
  lw_store :: 's
  lw_procs :: "nat \<Rightarrow> 's lock_proc option"
  lw_tokens :: "string set"
  lw_raced :: bool
  lw_log :: "('s \<Rightarrow> ('s \<times> bool) option) list"

definition new_lock_world :: "'s \<Rightarrow> 's lock_world" where
  "new_lock_world s =
     \<lparr> lw_file = None, lw_ino = 0, lw_now = 0, lw_store = s, lw_procs = (\<lambda>_. None), lw_tokens = {},
       lw_raced = False, lw_log = [] \<rparr>"

definition go :: "nat \<Rightarrow> 's lock_proc \<Rightarrow> 's lock_pc \<Rightarrow> 's lock_world \<Rightarrow> 's lock_world" where
  "go n p pc w = w \<lparr> lw_procs := (lw_procs w)(n \<mapsto> p \<lparr> lp_pc := pc \<rparr>) \<rparr>"

definition being_written :: "'s lock_world \<Rightarrow> lock_file \<Rightarrow> bool" where
  "being_written w f \<longleftrightarrow> (\<exists>n p. lw_procs w n = Some p \<and> lp_pc p = Writing (lf_ino f))"

text \<open>\<^verbatim>\<open>unlinkSync\<close> of the lock, by a process that means to remove the file of the snapshot.\<close>

definition unlink_lock :: "lock_snapshot \<Rightarrow> 's lock_world \<Rightarrow> 's lock_world" where
  "unlink_lock s w =
     (case lw_file w of
        None \<Rightarrow> w
      | Some f \<Rightarrow> w \<lparr> lw_file := None, lw_raced := (lw_raced w \<or> lock_snapshot_of f \<noteq> s \<or> being_written w f) \<rparr>)"

text \<open>\<^verbatim>\<open>openSync(path, "wx")\<close> and what follows it.\<close>

definition open_lock :: "nat \<Rightarrow> 's lock_proc \<Rightarrow> 's lock_world \<Rightarrow> 's lock_world" where
  "open_lock n p w =
     (case lw_file w of
        None \<Rightarrow>
          go n p (Writing (lw_ino w))
            (w \<lparr> lw_file := Some \<lparr> lf_contents = [], lf_ino = lw_ino w, lf_mtimeMs = lw_now w, lf_ctimeMs = lw_now w \<rparr>,
                 lw_ino := Suc (lw_ino w) \<rparr>)
      | Some _ \<Rightarrow> go n p Recovering w)"

definition write_lock :: "nat \<Rightarrow> 's lock_proc \<Rightarrow> nat \<Rightarrow> 's lock_world \<Rightarrow> 's lock_world" where
  "write_lock n p i w =
     go n p Held
       (w \<lparr> lw_file :=
              map_option
                (\<lambda>f. if lf_ino f = i
                     then f \<lparr> lf_contents := metadata_text (lp_metadata p), lf_mtimeMs := lw_now w, lf_ctimeMs := lw_now w \<rparr>
                     else f)
                (lw_file w) \<rparr>)"

text \<open>A failed write: the file is removed by its name, and the error ends \<^verbatim>\<open>mutate\<close>.\<close>

definition abandon_lock :: "nat \<Rightarrow> 's lock_proc \<Rightarrow> nat \<Rightarrow> 's lock_world \<Rightarrow> 's lock_world" where
  "abandon_lock n p i w =
     go n p Finished
       (w \<lparr> lw_file := None, lw_raced := (lw_raced w \<or> map_option lf_ino (lw_file w) \<notin> {None, Some i}) \<rparr>)"

definition recover_read ::
  "lock_config \<Rightarrow> (int \<Rightarrow> bool) \<Rightarrow> (int \<Rightarrow> string option) \<Rightarrow> nat \<Rightarrow> 's lock_proc \<Rightarrow> 's lock_world \<Rightarrow> 's lock_world" where
  "recover_read cfg alive start_time n p w =
     (case lw_file w of
        None \<Rightarrow> go n p Opening w
      | Some f \<Rightarrow>
          if lock_is_stale cfg (lw_now w) alive start_time (lock_snapshot_of f)
          then go n p (Confirming (lock_snapshot_of f)) w
          else go n p Waiting w)"

definition recover_confirm :: "nat \<Rightarrow> 's lock_proc \<Rightarrow> lock_snapshot \<Rightarrow> 's lock_world \<Rightarrow> 's lock_world" where
  "recover_confirm n p s w =
     (if map_option lock_snapshot_of (lw_file w) = Some s then go n p (Removing s) w else go n p Waiting w)"

definition recover_remove :: "nat \<Rightarrow> 's lock_proc \<Rightarrow> lock_snapshot \<Rightarrow> 's lock_world \<Rightarrow> 's lock_world" where
  "recover_remove n p s w = go n p Opening (unlink_lock s w)"

text \<open>The end of the loop body: the deadline and the backoff.\<close>

definition lock_backoff :: "nat \<Rightarrow> int" where
  "lock_backoff attempt = min (10 * 2 ^ min attempt 4) 100"

definition wait_lock :: "lock_config \<Rightarrow> nat \<Rightarrow> 's lock_proc \<Rightarrow> 's lock_world \<Rightarrow> 's lock_world" where
  "wait_lock cfg n p w =
     (let elapsed = lw_now w - lp_startedAt p in
      if lc_timeoutMs cfg \<le> elapsed then go n p Timed_out w
      else go n (p \<lparr> lp_attempt := Suc (lp_attempt p) \<rparr>)
             (Sleeping (lw_now w + min (lock_backoff (lp_attempt p)) (lc_timeoutMs cfg - elapsed))) w)"

text \<open>The \<^verbatim>\<open>try\<close> block: reading the store and applying the mutation, which may throw, and committing.\<close>

definition apply_mutation :: "nat \<Rightarrow> 's lock_proc \<Rightarrow> 's lock_world \<Rightarrow> 's lock_world" where
  "apply_mutation n p w =
     (case lp_apply p (lw_store w) of
        None \<Rightarrow> go n p Releasing w
      | Some (s, changed) \<Rightarrow> if changed then go n p (Store_writing s) w else go n p Releasing w)"

definition commit_store :: "nat \<Rightarrow> 's lock_proc \<Rightarrow> 's \<Rightarrow> 's lock_world \<Rightarrow> 's lock_world" where
  "commit_store n p s w = go n p Releasing (w \<lparr> lw_store := s, lw_log := lp_apply p # lw_log w \<rparr>)"

text \<open>\<^verbatim>\<open>releaseStoreLock\<close>\<close>

definition release_read :: "nat \<Rightarrow> 's lock_proc \<Rightarrow> 's lock_world \<Rightarrow> 's lock_world" where
  "release_read n p w =
     (case lw_file w of
        None \<Rightarrow> go n p Finished w
      | Some f \<Rightarrow>
          if map_option lm_ownerToken (parse_lock_metadata (ls_contents (lock_snapshot_of f))) =
             Some (lm_ownerToken (lp_metadata p))
          then go n p (Release_confirming (lock_snapshot_of f)) w
          else go n p Finished w)"

definition release_confirm :: "nat \<Rightarrow> 's lock_proc \<Rightarrow> lock_snapshot \<Rightarrow> 's lock_world \<Rightarrow> 's lock_world" where
  "release_confirm n p s w =
     (if map_option lock_snapshot_of (lw_file w) = Some s then go n p (Release_removing s) w else go n p Finished w)"

definition release_remove :: "nat \<Rightarrow> 's lock_proc \<Rightarrow> lock_snapshot \<Rightarrow> 's lock_world \<Rightarrow> 's lock_world" where
  "release_remove n p s w = go n p Finished (unlink_lock s w)"

section \<open>Steps\<close>

definition active :: "'s lock_proc \<Rightarrow> bool" where
  "active p \<longleftrightarrow> lp_pc p \<noteq> Finished \<and> lp_pc p \<noteq> Timed_out"

text \<open>Of a process that is in \<^verbatim>\<open>mutate\<close> the operating system says that it is alive, and nothing or the truth of
  its start.\<close>

definition truthful :: "'s lock_world \<Rightarrow> (int \<Rightarrow> bool) \<Rightarrow> (int \<Rightarrow> string option) \<Rightarrow> bool" where
  "truthful w alive start_time \<longleftrightarrow>
     (\<forall>n p. lw_procs w n = Some p \<and> active p \<longrightarrow>
        alive (lm_pid (lp_metadata p)) \<and>
        start_time (lm_pid (lp_metadata p)) \<in> {None, lm_ownerStartTime (lp_metadata p)})"

definition metadata_ok :: "lock_metadata \<Rightarrow> bool" where
  "metadata_ok m \<longleftrightarrow>
     lock_token_ok (lm_ownerToken m) \<and> 0 < lm_pid m \<and> lm_pid m \<le> max_safe_integer \<and>
     int_in 0 (lm_createdAtEpochMs m) \<and>
     (case lm_ownerStartTime m of None \<Rightarrow> True | Some t \<Rightarrow> t \<noteq> [] \<and> utf8_ok t) \<and> length (metadata_text m) \<le> 1024"

inductive lock_step :: "lock_config \<Rightarrow> 's lock_world \<Rightarrow> 's lock_world \<Rightarrow> bool" for cfg where
  clock: "lock_step cfg w (w \<lparr> lw_now := now \<rparr>)"
| crash: "lock_step cfg w (w \<lparr> lw_procs := (lw_procs w)(n := None) \<rparr>)"
| start:
    "lw_procs w n = None \<Longrightarrow> metadata_ok m \<Longrightarrow> lm_createdAtEpochMs m = lw_now w \<Longrightarrow>
     lm_ownerToken m \<notin> lw_tokens w \<Longrightarrow>
     lock_step cfg w
       (w \<lparr> lw_procs := (lw_procs w)(n \<mapsto> \<lparr> lp_metadata = m, lp_startedAt = lw_now w, lp_attempt = 0,
              lp_apply = mutation, lp_pc = Opening \<rparr>), lw_tokens := insert (lm_ownerToken m) (lw_tokens w) \<rparr>)"
| create: "lw_procs w n = Some p \<Longrightarrow> lp_pc p = Opening \<Longrightarrow> lock_step cfg w (open_lock n p w)"
| writing: "lw_procs w n = Some p \<Longrightarrow> lp_pc p = Writing i \<Longrightarrow> lock_step cfg w (write_lock n p i w)"
| write_failed: "lw_procs w n = Some p \<Longrightarrow> lp_pc p = Writing i \<Longrightarrow> lock_step cfg w (abandon_lock n p i w)"
| recovering:
    "lw_procs w n = Some p \<Longrightarrow> lp_pc p = Recovering \<Longrightarrow> truthful w alive start_time \<Longrightarrow>
     lock_step cfg w (recover_read cfg alive start_time n p w)"
| confirming: "lw_procs w n = Some p \<Longrightarrow> lp_pc p = Confirming s \<Longrightarrow> lock_step cfg w (recover_confirm n p s w)"
| removing: "lw_procs w n = Some p \<Longrightarrow> lp_pc p = Removing s \<Longrightarrow> lock_step cfg w (recover_remove n p s w)"
| waiting: "lw_procs w n = Some p \<Longrightarrow> lp_pc p = Waiting \<Longrightarrow> lock_step cfg w (wait_lock cfg n p w)"
| sleeping: "lw_procs w n = Some p \<Longrightarrow> lp_pc p = Sleeping t \<Longrightarrow> lock_step cfg w (go n p Opening w)"
| mutating: "lw_procs w n = Some p \<Longrightarrow> lp_pc p = Held \<Longrightarrow> lock_step cfg w (apply_mutation n p w)"
| committing: "lw_procs w n = Some p \<Longrightarrow> lp_pc p = Store_writing s \<Longrightarrow> lock_step cfg w (commit_store n p s w)"
| commit_failed: "lw_procs w n = Some p \<Longrightarrow> lp_pc p = Store_writing s \<Longrightarrow> lock_step cfg w (go n p Releasing w)"
| releasing: "lw_procs w n = Some p \<Longrightarrow> lp_pc p = Releasing \<Longrightarrow> lock_step cfg w (release_read n p w)"
| release_confirming:
    "lw_procs w n = Some p \<Longrightarrow> lp_pc p = Release_confirming s \<Longrightarrow> lock_step cfg w (release_confirm n p s w)"
| release_removing:
    "lw_procs w n = Some p \<Longrightarrow> lp_pc p = Release_removing s \<Longrightarrow> lock_step cfg w (release_remove n p s w)"

abbreviation lock_reach :: "lock_config \<Rightarrow> 's \<Rightarrow> 's lock_world \<Rightarrow> bool" where
  "lock_reach cfg s w \<equiv> (lock_step cfg)\<^sup>*\<^sup>* (new_lock_world s) w"

section \<open>What a lock file says\<close>

lemma base64url_utf8_ok: "list_all is_base64url_char s \<Longrightarrow> utf8_ok s"
  by (rule utf8_ok_ascii)
    (auto simp: list_all_iff is_base64url_char_def is_upper_def is_lower_def is_digit_def less_eq_char_def)

lemma lock_keys_utf8:
  "utf8_ok ''version''" "utf8_ok ''ownerToken''" "utf8_ok ''pid''" "utf8_ok ''createdAtEpochMs''"
  "utf8_ok ''ownerStartTime''"
  by (rule utf8_ok_ascii, simp)+

lemma metadata_exact: "metadata_ok m \<Longrightarrow> json_exact (metadata_value m)"
  by (auto simp: metadata_value_def metadata_ok_def lock_token_ok_def js_int_def int_in_def
      max_safe_integer_def lock_keys_utf8 base64url_utf8_ok split: option.splits)

lemma metadata_text_parses:
  assumes "metadata_ok m"
  shows "parse_lock_metadata (Some (metadata_text m)) = Some m"
proof -
  have "json_parse (metadata_text m) = Some (metadata_value m)"
    unfolding metadata_text_def by (rule json_text_parses[OF metadata_exact[OF assms]]) (simp add: skip_ws_def)
  then show ?thesis using assms
    by (cases m; cases "lm_ownerStartTime m")
      (auto simp: parse_lock_metadata_def metadata_value_def fld_def js_int_def safe_integer_def metadata_ok_def
        int_in_def)
qed

lemma metadata_text_inj: "metadata_ok m \<Longrightarrow> metadata_ok n \<Longrightarrow> metadata_text m = metadata_text n \<Longrightarrow> m = n"
  by (metis metadata_text_parses option.inject)

lemma metadata_text_nonempty: "metadata_text m \<noteq> []"
  by (simp add: metadata_text_def)

section \<open>The invariant\<close>

text \<open>A snapshot a recovery acts on: of no process that is in \<^verbatim>\<open>mutate\<close>, and of none still to come.\<close>

definition known_text :: "'s lock_world \<Rightarrow> string option \<Rightarrow> bool" where
  "known_text w c \<longleftrightarrow> (\<forall>m. metadata_ok m \<and> c = Some (metadata_text m) \<longrightarrow> lm_ownerToken m \<in> lw_tokens w)"

definition foreign :: "'s lock_world \<Rightarrow> lock_snapshot \<Rightarrow> bool" where
  "foreign w s \<longleftrightarrow> known_text w (ls_contents s) \<and>
     (\<forall>n p. lw_procs w n = Some p \<and> active p \<longrightarrow> ls_contents s \<noteq> Some (metadata_text (lp_metadata p)))"

definition owns :: "'s lock_world \<Rightarrow> 's lock_proc \<Rightarrow> bool" where
  "owns w p \<longleftrightarrow> (\<exists>f. lw_file w = Some f \<and> lf_contents f = metadata_text (lp_metadata p))"

definition pc_ok :: "'s lock_world \<Rightarrow> 's lock_proc \<Rightarrow> bool" where
  "pc_ok w p \<longleftrightarrow>
     (case lp_pc p of
        Writing i \<Rightarrow> \<exists>f. lw_file w = Some f \<and> lf_ino f = i \<and> lf_contents f = []
      | Confirming s \<Rightarrow> foreign w s
      | Removing s \<Rightarrow> foreign w s
      | Held \<Rightarrow> owns w p
      | Store_writing s \<Rightarrow> owns w p \<and> lp_apply p (lw_store w) = Some (s, True)
      | Releasing \<Rightarrow> owns w p
      | Release_confirming s \<Rightarrow> owns w p \<and> ls_contents s = Some (metadata_text (lp_metadata p))
      | Release_removing s \<Rightarrow> owns w p \<and> ls_contents s = Some (metadata_text (lp_metadata p))
      | _ \<Rightarrow> True)"

definition engaged :: "'s lock_proc \<Rightarrow> bool" where
  "engaged p \<longleftrightarrow>
     (case lp_pc p of
        Writing _ \<Rightarrow> True | Held \<Rightarrow> True | Store_writing _ \<Rightarrow> True | Releasing \<Rightarrow> True
      | Release_confirming _ \<Rightarrow> True | Release_removing _ \<Rightarrow> True | _ \<Rightarrow> False)"

definition one_engaged :: "'s lock_world \<Rightarrow> bool" where
  "one_engaged w \<longleftrightarrow>
     (\<forall>m n p q. lw_procs w m = Some p \<and> lw_procs w n = Some q \<and> engaged p \<and> engaged q \<longrightarrow> m = n)"

definition tokens_ok :: "'s lock_world \<Rightarrow> bool" where
  "tokens_ok w \<longleftrightarrow>
     (\<forall>n p. lw_procs w n = Some p \<longrightarrow> metadata_ok (lp_metadata p) \<and> lm_ownerToken (lp_metadata p) \<in> lw_tokens w) \<and>
     (\<forall>m n p q. lw_procs w m = Some p \<and> lw_procs w n = Some q \<and>
        lm_ownerToken (lp_metadata p) = lm_ownerToken (lp_metadata q) \<longrightarrow> m = n) \<and>
     (\<forall>f. lw_file w = Some f \<longrightarrow> known_text w (Some (lf_contents f)))"

definition lock_ok :: "'s lock_world \<Rightarrow> bool" where
  "lock_ok w \<longleftrightarrow> tokens_ok w \<and> one_engaged w \<and> (\<forall>n p. lw_procs w n = Some p \<longrightarrow> pc_ok w p)"

text \<open>The mutations committed, in their order, applied to the first store.\<close>

definition then_apply :: "'s option \<Rightarrow> ('s \<Rightarrow> ('s \<times> bool) option) \<Rightarrow> 's option" where
  "then_apply s f = (case Option.bind s f of Some (t, True) \<Rightarrow> Some t | _ \<Rightarrow> None)"

definition serial_store :: "'s \<Rightarrow> ('s \<Rightarrow> ('s \<times> bool) option) list \<Rightarrow> 's option" where
  "serial_store s history = foldl then_apply (Some s) (rev history)"

definition lock_inv :: "'s \<Rightarrow> 's lock_world \<Rightarrow> bool" where
  "lock_inv s w \<longleftrightarrow> lw_raced w \<or> lock_ok w \<and> serial_store s (lw_log w) = Some (lw_store w)"

lemmas lock_world_defs =
  lock_ok_def tokens_ok_def one_engaged_def pc_ok_def owns_def foreign_def known_text_def go_def

definition alone :: "nat \<Rightarrow> 's lock_world \<Rightarrow> bool" where
  "alone n w \<longleftrightarrow> (\<forall>m q. lw_procs w m = Some q \<and> engaged q \<longrightarrow> m = n)"

text \<open>A step of one process: the file and the store change only when no other process is engaged.\<close>

lemma go_ok:
  assumes w: "lock_ok w" "lw_procs w n = Some p" "active p"
    and u: "lw_procs u = lw_procs w" "lw_tokens u = lw_tokens w"
    and known: "\<And>f. lw_file u = Some f \<Longrightarrow> known_text w (Some (lf_contents f))"
    and same: "lw_file u = lw_file w \<and> lw_store u = lw_store w \<and> (engaged (q \<lparr> lp_pc := pc \<rparr>) \<longrightarrow> engaged p) \<or> alone n w"
    and q: "lp_metadata q = lp_metadata p" and pc: "pc_ok u (q \<lparr> lp_pc := pc \<rparr>)"
  shows "lock_ok (go n q pc u)"
proof -
  have t: "tokens_ok (go n q pc u)"
    using w u q known by (auto simp: lock_ok_def tokens_ok_def known_text_def go_def split: if_splits)
  have e: "one_engaged (go n q pc u)"
    using w u same by (auto simp: lock_ok_def one_engaged_def go_def alone_def split: if_splits)
  have f: "foreign (go n q pc u) s" if "foreign w s" for s
    using that w u q by (auto simp: foreign_def known_text_def go_def split: if_splits)
  have "pc_ok (go n q pc u) r" if "lw_procs (go n q pc u) m = Some r" for m r
  proof (cases "m = n")
    case True
    have "foreign u s \<Longrightarrow> foreign w s" for s unfolding foreign_def known_text_def u by blast
    then show ?thesis using True that pc f by (auto simp: pc_ok_def owns_def go_def split: lock_pc.splits)
  next
    case False
    then have r: "lw_procs w m = Some r" using that u by (simp add: go_def)
    then have "pc_ok w r" using w by (simp add: lock_ok_def)
    moreover have "lw_file u = lw_file w \<and> lw_store u = lw_store w \<or> \<not> engaged r"
      using same r False by (auto simp: alone_def)
    ultimately show ?thesis using f
      by (auto simp: pc_ok_def owns_def go_def engaged_def split: lock_pc.splits)
  qed
  then show ?thesis using t e by (simp add: lock_ok_def)
qed

text \<open>A step that leaves the file and the store alone.\<close>

lemma go_quiet:
  assumes "lock_ok w" "lw_procs w n = Some p" "active p" "lp_metadata q = lp_metadata p"
    "engaged (q \<lparr> lp_pc := pc \<rparr>) \<Longrightarrow> engaged p" "pc_ok w (q \<lparr> lp_pc := pc \<rparr>)"
  shows "lock_ok (go n q pc w)"
proof (rule go_ok[OF assms(1-3)])
  show "known_text w (Some (lf_contents f))" if "lw_file w = Some f" for f
    using assms(1) that by (simp add: lock_ok_def tokens_ok_def)
qed (simp_all add: assms(4-6))

lemma engaged_file: "lock_ok w \<Longrightarrow> lw_procs w n = Some p \<Longrightarrow> engaged p \<Longrightarrow> lw_file w \<noteq> None"
proof -
  assume "lock_ok w" "lw_procs w n = Some p" and e: "engaged p"
  then have "pc_ok w p" unfolding lock_ok_def by blast
  then show "lw_file w \<noteq> None" using e by (cases "lp_pc p") (auto simp: pc_ok_def engaged_def owns_def)
qed

lemma engaged_alone: "lock_ok w \<Longrightarrow> lw_procs w n = Some p \<Longrightarrow> engaged p \<Longrightarrow> alone n w"
  by (auto simp: lock_ok_def one_engaged_def alone_def)

lemma open_lock_ok:
  assumes w: "lock_ok w" "lw_procs w n = Some p" "lp_pc p = Opening"
  shows "lock_ok (open_lock n p w)"
proof (cases "lw_file w")
  case None
  then have "alone n w" using w(1) engaged_file by (fastforce simp: alone_def)
  then show ?thesis using w None unfolding open_lock_def
    by simp (rule go_ok, auto simp: active_def known_text_def metadata_text_nonempty[symmetric] pc_ok_def)
next
  case (Some f)
  then show ?thesis using w unfolding open_lock_def
    by simp (rule go_quiet, auto simp: active_def pc_ok_def engaged_def)
qed

lemma write_lock_ok:
  assumes w: "lock_ok w" "lw_procs w n = Some p" "lp_pc p = Writing i"
  shows "lock_ok (write_lock n p i w)"
proof -
  obtain f where f: "lw_file w = Some f" "lf_ino f = i"
    using w by (fastforce simp: lock_ok_def pc_ok_def)
  have "metadata_ok (lp_metadata p)" "lm_ownerToken (lp_metadata p) \<in> lw_tokens w"
    using w by (auto simp: lock_ok_def tokens_ok_def)
  then have "known_text w (Some (metadata_text (lp_metadata p)))"
    using metadata_text_inj by (auto simp: known_text_def)
  then show ?thesis using w f engaged_alone[OF w(1,2)] unfolding write_lock_def
    by (intro go_ok) (auto simp: active_def pc_ok_def owns_def engaged_def)
qed

text \<open>The snapshot of a lock a recovery starts from is of no process that is there.\<close>

lemma stale_foreign:
  assumes w: "lock_ok w" "lw_file w = Some f" and os: "truthful w alive start_time"
    and stale: "lock_is_stale cfg now alive start_time (lock_snapshot_of f)"
  shows "foreign w (lock_snapshot_of f)"
proof -
  have "ls_contents (lock_snapshot_of f) \<noteq> Some (metadata_text (lp_metadata p))"
    if p: "lw_procs w n = Some p" "active p" for n p
  proof
    assume c: "ls_contents (lock_snapshot_of f) = Some (metadata_text (lp_metadata p))"
    have "metadata_ok (lp_metadata p)" using w p by (auto simp: lock_ok_def tokens_ok_def)
    then have "parse_lock_metadata (ls_contents (lock_snapshot_of f)) = Some (lp_metadata p)"
      using c metadata_text_parses by simp
    then show False using os stale p by (fastforce simp: truthful_def lock_is_stale_def)
  qed
  moreover have "known_text w (ls_contents (lock_snapshot_of f))"
    using w by (auto simp: lock_ok_def tokens_ok_def lock_snapshot_of_def known_text_def)
  ultimately show ?thesis unfolding foreign_def by blast
qed

lemma recover_read_ok:
  assumes "lock_ok w" "lw_procs w n = Some p" "lp_pc p = Recovering" "truthful w alive start_time"
  shows "lock_ok (recover_read cfg alive start_time n p w)"
  using assms stale_foreign[OF assms(1) _ assms(4)] unfolding recover_read_def
  by (auto split: option.splits intro!: go_quiet simp: active_def pc_ok_def engaged_def)

lemma pc_ok_of: "lock_ok w \<Longrightarrow> lw_procs w n = Some p \<Longrightarrow> pc_ok w p"
  unfolding lock_ok_def by blast

lemma recover_confirm_ok:
  assumes "lock_ok w" "lw_procs w n = Some p" "lp_pc p = Confirming s"
  shows "lock_ok (recover_confirm n p s w)"
  using assms pc_ok_of[OF assms(1,2)] unfolding recover_confirm_def
  by (auto intro!: go_quiet simp: active_def pc_ok_def engaged_def)

text \<open>A removal that does not race leaves no process engaged but the one that removes.\<close>

lemma unlink_lock_ok:
  assumes w: "lock_ok w" "lw_procs w n = Some p" and race: "\<not> lw_raced (unlink_lock s w)"
    and s: "\<And>m q. lw_procs w m = Some q \<Longrightarrow> active q \<Longrightarrow> m \<noteq> n \<Longrightarrow>
      ls_contents s \<noteq> Some (metadata_text (lp_metadata q))"
  shows "alone n w"
proof (cases "lw_file w")
  case None
  then show ?thesis using w engaged_file by (fastforce simp: alone_def)
next
  case (Some f)
  then have f: "lock_snapshot_of f = s" "\<not> being_written w f"
    using race by (auto simp: unlink_lock_def)
  have "m = n" if q: "lw_procs w m = Some q" "engaged q" for m q
  proof (rule ccontr)
    assume "m \<noteq> n"
    moreover have a: "active q" using q by (auto simp: engaged_def active_def)
    moreover have "metadata_ok (lp_metadata q)" using w q by (auto simp: lock_ok_def tokens_ok_def)
    ultimately have "lf_contents f \<noteq> metadata_text (lp_metadata q)"
      using s[OF q(1)] f by (auto simp: lock_snapshot_of_def metadata_ok_def)
    moreover have "lp_pc q \<noteq> Writing (lf_ino f)" using f q by (auto simp: being_written_def)
    ultimately show False using pc_ok_of[OF w(1) q(1)] q(2) Some
      by (cases "lp_pc q") (auto simp: pc_ok_def engaged_def owns_def)
  qed
  then show ?thesis by (simp add: alone_def)
qed

lemma unlink_lock_simps [simp]:
  "lw_procs (unlink_lock s w) = lw_procs w" "lw_tokens (unlink_lock s w) = lw_tokens w"
  "lw_store (unlink_lock s w) = lw_store w" "lw_log (unlink_lock s w) = lw_log w"
  "lw_file (unlink_lock s w) = None"
  by (auto simp: unlink_lock_def split: option.splits)

lemma go_raced [simp]: "lw_raced (go n p pc w) = lw_raced w"
  by (simp add: go_def)

lemma recover_remove_ok:
  assumes "lock_ok w" "lw_procs w n = Some p" "lp_pc p = Removing s" "\<not> lw_raced (recover_remove n p s w)"
  shows "lock_ok (recover_remove n p s w)"
proof -
  have "foreign w s" using pc_ok_of[OF assms(1,2)] assms(3) by (simp add: pc_ok_def)
  then have "alone n w"
    using assms unfolding recover_remove_def by (intro unlink_lock_ok) (auto simp: foreign_def)
  then show ?thesis using assms unfolding recover_remove_def
    by (intro go_ok) (auto simp: active_def pc_ok_def)
qed

lemma release_remove_ok:
  assumes "lock_ok w" "lw_procs w n = Some p" "lp_pc p = Release_removing s" "\<not> lw_raced (release_remove n p s w)"
  shows "lock_ok (release_remove n p s w)"
proof -
  have "alone n w" using assms by (intro engaged_alone) (auto simp: engaged_def)
  then show ?thesis using assms unfolding release_remove_def
    by (intro go_ok) (auto simp: active_def pc_ok_def)
qed

lemma abandon_lock_ok:
  assumes "lock_ok w" "lw_procs w n = Some p" "lp_pc p = Writing i"
  shows "lock_ok (abandon_lock n p i w)"
proof -
  have "alone n w" using assms by (intro engaged_alone) (auto simp: engaged_def)
  then show ?thesis using assms unfolding abandon_lock_def
    by (intro go_ok) (auto simp: active_def pc_ok_def)
qed

lemma wait_lock_ok:
  assumes "lock_ok w" "lw_procs w n = Some p" "lp_pc p = Waiting"
  shows "lock_ok (wait_lock cfg n p w)"
  using assms unfolding wait_lock_def Let_def
  by (auto intro!: go_quiet simp: active_def pc_ok_def engaged_def)

lemma apply_mutation_ok:
  assumes "lock_ok w" "lw_procs w n = Some p" "lp_pc p = Held"
  shows "lock_ok (apply_mutation n p w)"
  using assms pc_ok_of[OF assms(1,2)] unfolding apply_mutation_def
  by (auto intro!: go_quiet simp: active_def pc_ok_def engaged_def owns_def split: option.splits)

lemma commit_store_ok:
  assumes "lock_ok w" "lw_procs w n = Some p" "lp_pc p = Store_writing s"
  shows "lock_ok (commit_store n p s w)"
proof -
  have "alone n w" using assms by (intro engaged_alone) (auto simp: engaged_def)
  moreover have "known_text w (Some (lf_contents f))" if "lw_file w = Some f" for f
    using assms(1) that by (simp add: lock_ok_def tokens_ok_def)
  ultimately show ?thesis using assms pc_ok_of[OF assms(1,2)] unfolding commit_store_def
    by (intro go_ok) (auto simp: active_def pc_ok_def owns_def)
qed

lemma release_read_ok:
  assumes "lock_ok w" "lw_procs w n = Some p" "lp_pc p = Releasing"
  shows "lock_ok (release_read n p w)"
proof -
  have m: "metadata_ok (lp_metadata p)" using assms by (auto simp: lock_ok_def tokens_ok_def)
  show ?thesis using assms pc_ok_of[OF assms(1,2)] m unfolding release_read_def
    by (auto intro!: go_quiet simp: active_def pc_ok_def engaged_def owns_def lock_snapshot_of_def metadata_ok_def
        split: option.splits)
qed

lemma release_confirm_ok:
  assumes "lock_ok w" "lw_procs w n = Some p" "lp_pc p = Release_confirming s"
  shows "lock_ok (release_confirm n p s w)"
  using assms pc_ok_of[OF assms(1,2)] unfolding release_confirm_def
  by (auto intro!: go_quiet simp: active_def pc_ok_def engaged_def owns_def)

lemma clock_ok: "lock_ok w \<Longrightarrow> lock_ok (w \<lparr> lw_now := now \<rparr>)"
  by (auto simp: lock_ok_def tokens_ok_def one_engaged_def pc_ok_def owns_def foreign_def known_text_def
      cong: lock_pc.case_cong)

lemma pc_ok_procs:
  assumes "pc_ok w r" and "\<And>s. foreign w s \<Longrightarrow> foreign u s" "lw_file u = lw_file w" "lw_store u = lw_store w"
  shows "pc_ok u r"
  using assms by (cases "lp_pc r") (auto simp: pc_ok_def owns_def)

lemma crash_ok:
  assumes "lock_ok w"
  shows "lock_ok (w \<lparr> lw_procs := (lw_procs w)(n := None) \<rparr>)" (is "lock_ok ?u")
proof -
  have f: "foreign ?u s" if "foreign w s" for s
    using that by (auto simp: foreign_def known_text_def)
  have "pc_ok ?u r" if "lw_procs ?u m = Some r" for m r
    using that by (intro pc_ok_procs[OF pc_ok_of[OF assms, of m r]] f) (auto split: if_splits)
  moreover have "tokens_ok ?u" "one_engaged ?u"
    using assms by (auto simp: lock_ok_def tokens_ok_def one_engaged_def known_text_def split: if_splits)
  ultimately show ?thesis by (simp add: lock_ok_def)
qed

lemma start_ok:
  assumes w: "lock_ok w" "lw_procs w n = None" and m: "metadata_ok m" "lm_ownerToken m \<notin> lw_tokens w"
  shows "lock_ok (w \<lparr> lw_procs := (lw_procs w)(n \<mapsto> \<lparr> lp_metadata = m, lp_startedAt = now, lp_attempt = 0,
           lp_apply = mutation, lp_pc = Opening \<rparr>), lw_tokens := insert (lm_ownerToken m) (lw_tokens w) \<rparr>)"
    (is "lock_ok ?u")
proof -
  have f: "foreign ?u s" if "foreign w s" for s
    using that m by (auto simp: foreign_def known_text_def)
  have "pc_ok ?u r" if "lw_procs ?u k = Some r" for k r
  proof (cases "k = n")
    case True
    then show ?thesis using that by (auto simp: pc_ok_def)
  next
    case False
    then show ?thesis using that by (intro pc_ok_procs[OF pc_ok_of[OF w(1), of k r]] f) auto
  qed
  moreover have "one_engaged ?u"
    using w by (auto simp: lock_ok_def one_engaged_def engaged_def split: if_splits)
  moreover have "tokens_ok ?u"
    using w m unfolding lock_ok_def tokens_ok_def known_text_def by (simp split: if_splits) metis
  ultimately show ?thesis by (simp add: lock_ok_def)
qed

lemma lock_step_raced: "lock_step cfg w u \<Longrightarrow> lw_raced w \<Longrightarrow> lw_raced u"
  by (induction rule: lock_step.induct)
    (auto simp: open_lock_def write_lock_def abandon_lock_def recover_read_def recover_confirm_def
      recover_remove_def unlink_lock_def wait_lock_def apply_mutation_def commit_store_def release_read_def
      release_confirm_def release_remove_def Let_def split: option.splits)

lemma go_simps [simp]:
  "lw_store (go n p pc w) = lw_store w" "lw_log (go n p pc w) = lw_log w"
  by (simp_all add: go_def)

lemma serial_store_step:
  "serial_store s h = Some t \<Longrightarrow> f t = Some (u, True) \<Longrightarrow> serial_store s (f # h) = Some u"
  by (simp add: serial_store_def then_apply_def)

lemma lock_step_serial:
  "lock_step cfg w u \<Longrightarrow> lock_ok w \<Longrightarrow> serial_store s (lw_log w) = Some (lw_store w) \<Longrightarrow>
   serial_store s (lw_log u) = Some (lw_store u)"
proof (induction rule: lock_step.induct)
  case (committing w n p t)
  then have "lp_apply p (lw_store w) = Some (t, True)" using pc_ok_of by (fastforce simp: pc_ok_def)
  then show ?case using committing by (simp add: commit_store_def serial_store_step)
qed (auto simp: open_lock_def write_lock_def abandon_lock_def recover_read_def recover_confirm_def
      recover_remove_def wait_lock_def apply_mutation_def release_read_def
      release_confirm_def release_remove_def Let_def split: option.splits)

lemma lock_step_ok: "lock_step cfg w u \<Longrightarrow> lock_ok w \<Longrightarrow> \<not> lw_raced u \<Longrightarrow> lock_ok u"
proof (induction rule: lock_step.induct)
  case (clock w now)
  then show ?case by (simp add: clock_ok)
next
  case (crash w n)
  then show ?case by (simp add: crash_ok)
next
  case (start w n m mutation)
  then show ?case by (simp add: start_ok)
next
  case (sleeping w n p t)
  then show ?case by (intro go_quiet) (auto simp: active_def pc_ok_def engaged_def)
next
  case (commit_failed w n p s)
  then show ?case using pc_ok_of[OF commit_failed(3,1)]
    by (intro go_quiet) (auto simp: active_def pc_ok_def engaged_def owns_def)
qed (simp_all add: open_lock_ok write_lock_ok abandon_lock_ok recover_read_ok recover_confirm_ok recover_remove_ok
      wait_lock_ok apply_mutation_ok commit_store_ok release_read_ok release_confirm_ok release_remove_ok)

interpretation locking: invariant_machine "lock_step cfg" "\<lambda>w. w = new_lock_world s" "lock_inv s" for cfg s
proof
  fix w :: "'a lock_world"
  show "lock_inv s w" if "w = new_lock_world s"
    using that by (simp add: lock_inv_def new_lock_world_def lock_ok_def tokens_ok_def one_engaged_def serial_store_def)
next
  fix w u :: "'a lock_world"
  assume "lock_step cfg w u" "lock_inv s w"
  then show "lock_inv s u"
    using lock_step_raced lock_step_ok lock_step_serial unfolding lock_inv_def by metis
qed

section \<open>Schedules\<close>

text \<open>One step of a process, whose write of the lock succeeds, and a schedule of such steps.\<close>

definition lock_next ::
  "lock_config \<Rightarrow> (int \<Rightarrow> bool) \<Rightarrow> (int \<Rightarrow> string option) \<Rightarrow> 's lock_world \<Rightarrow> nat \<Rightarrow> 's lock_world" where
  "lock_next cfg alive start_time w n =
     (case lw_procs w n of
        None \<Rightarrow> w
      | Some p \<Rightarrow>
          (case lp_pc p of
             Opening \<Rightarrow> open_lock n p w
           | Writing i \<Rightarrow> write_lock n p i w
           | Recovering \<Rightarrow> recover_read cfg alive start_time n p w
           | Confirming s \<Rightarrow> recover_confirm n p s w
           | Removing s \<Rightarrow> recover_remove n p s w
           | Waiting \<Rightarrow> wait_lock cfg n p w
           | Sleeping t \<Rightarrow> go n p Opening w
           | Held \<Rightarrow> apply_mutation n p w
           | Store_writing s \<Rightarrow> commit_store n p s w
           | Releasing \<Rightarrow> release_read n p w
           | Release_confirming s \<Rightarrow> release_confirm n p s w
           | Release_removing s \<Rightarrow> release_remove n p s w
           | _ \<Rightarrow> w))"

definition lock_run ::
  "lock_config \<Rightarrow> (int \<Rightarrow> bool) \<Rightarrow> (int \<Rightarrow> string option) \<Rightarrow> nat list \<Rightarrow> 's lock_world \<Rightarrow> 's lock_world" where
  "lock_run cfg alive start_time ns w = foldl (lock_next cfg alive start_time) w ns"

definition all_known :: "(int \<Rightarrow> bool) \<Rightarrow> (int \<Rightarrow> string option) \<Rightarrow> 's lock_world \<Rightarrow> bool" where
  "all_known alive start_time w \<longleftrightarrow>
     (\<forall>n p. lw_procs w n = Some p \<longrightarrow>
        alive (lm_pid (lp_metadata p)) \<and> start_time (lm_pid (lp_metadata p)) \<in> {None, lm_ownerStartTime (lp_metadata p)})"

lemma lock_next_step:
  assumes "all_known alive start_time w"
  shows "(lock_step cfg)\<^sup>*\<^sup>* w (lock_next cfg alive start_time w n)"
proof -
  have t: "truthful w alive start_time" using assms by (auto simp: all_known_def truthful_def)
  have "lock_next cfg alive start_time w n = w \<or> lock_step cfg w (lock_next cfg alive start_time w n)"
    using t by (auto simp: lock_next_def intro: lock_step.intros split: option.splits lock_pc.splits)
  then show ?thesis by auto
qed

lemma lock_next_metadata:
  assumes "lw_procs (lock_next cfg alive start_time w n) m = Some q"
  shows "\<exists>p. lw_procs w m = Some p \<and> lp_metadata q = lp_metadata p"
proof (cases "lw_procs w n")
  case (Some p)
  then show ?thesis using assms
    by (cases "lp_pc p")
      (auto simp: lock_next_def open_lock_def write_lock_def recover_read_def recover_confirm_def
        recover_remove_def wait_lock_def apply_mutation_def commit_store_def release_read_def
        release_confirm_def release_remove_def Let_def go_def split: option.splits if_splits)
qed (use assms in \<open>simp add: lock_next_def\<close>)

lemma lock_run_reach:
  "all_known alive start_time w \<Longrightarrow> (lock_step cfg)\<^sup>*\<^sup>* w (lock_run cfg alive start_time ns w)"
proof (induction ns arbitrary: w)
  case (Cons n ns)
  have "all_known alive start_time (lock_next cfg alive start_time w n)"
    using Cons.prems lock_next_metadata unfolding all_known_def by fastforce
  from Cons.IH[OF this] lock_next_step[OF Cons.prems] show ?case
    by (simp add: lock_run_def) (meson rtranclp_trans)
qed (simp add: lock_run_def)

section \<open>Mutual exclusion\<close>

definition holds_lock :: "'s lock_proc \<Rightarrow> bool" where
  "holds_lock p \<longleftrightarrow>
     (case lp_pc p of
        Held \<Rightarrow> True | Store_writing _ \<Rightarrow> True | Releasing \<Rightarrow> True
      | Release_confirming _ \<Rightarrow> True | Release_removing _ \<Rightarrow> True | _ \<Rightarrow> False)"

lemma reached_lock_ok:
  assumes "lock_reach cfg s w" "\<not> lw_raced w"
  shows "lock_ok w" "serial_store s (lw_log w) = Some (lw_store w)"
  using locking.reach_inv[OF refl assms(1)] assms(2) by (auto simp: lock_inv_def)

definition example_lock :: "char \<Rightarrow> int \<Rightarrow> int \<Rightarrow> lock_metadata" where
  "example_lock c pid created =
     \<lparr> lm_ownerToken = replicate 43 c, lm_pid = pid, lm_createdAtEpochMs = created, lm_ownerStartTime = None \<rparr>"

lemma lock_text_lengths:
  "length (json_quote ''version'') = 9" "length (json_quote ''ownerToken'') = 12"
  "length (json_quote ''pid'') = 5" "length (json_quote ''createdAtEpochMs'') = 18"
  "length (json_quote (replicate 43 CHR ''A'')) = 45" "length (json_quote (replicate 43 CHR ''B'')) = 45"
  "length (json_quote (replicate 43 CHR ''C'')) = 45"
  by code_simp+

lemma example_text_short:
  "length (metadata_text (example_lock CHR ''A'' 1 0)) \<le> 1024"
  "length (metadata_text (example_lock CHR ''B'' 2 30000)) \<le> 1024"
  "length (metadata_text (example_lock CHR ''C'' 3 30000)) \<le> 1024"
  by (simp_all add: metadata_text_def metadata_value_def example_lock_def js_int_def number_text_def
      max_safe_integer_def lock_text_lengths decimal_unfold)

lemma example_lock_ok:
  "metadata_ok (example_lock CHR ''A'' 1 0)" "metadata_ok (example_lock CHR ''B'' 2 30000)"
  "metadata_ok (example_lock CHR ''C'' 3 30000)"
  using example_text_short
  by (simp_all add: example_lock_def metadata_ok_def lock_token_ok_def is_base64url_char_def is_upper_def
      int_in_def max_safe_integer_def list_all_iff)

definition count_up :: "nat \<Rightarrow> (nat \<times> bool) option" where
  "count_up n = Some (Suc n, True)"

definition example_proc :: "lock_metadata \<Rightarrow> int \<Rightarrow> nat lock_pc \<Rightarrow> nat lock_proc" where
  "example_proc m now pc = \<lparr> lp_metadata = m, lp_startedAt = now, lp_attempt = 0, lp_apply = count_up, lp_pc = pc \<rparr>"

definition lock_start :: "nat \<Rightarrow> lock_metadata \<Rightarrow> ('s \<Rightarrow> ('s \<times> bool) option) \<Rightarrow> 's lock_world \<Rightarrow> 's lock_world" where
  "lock_start n m mutation w =
     w \<lparr> lw_procs := (lw_procs w)(n \<mapsto> \<lparr> lp_metadata = m, lp_startedAt = lw_now w, lp_attempt = 0,
           lp_apply = mutation, lp_pc = Opening \<rparr>), lw_tokens := insert (lm_ownerToken m) (lw_tokens w) \<rparr>"

definition default_lock :: lock_config where
  "default_lock = \<lparr> lc_timeoutMs = 5000, lc_staleMs = 30000 \<rparr>"

definition others_alive :: "int \<Rightarrow> bool" where
  "others_alive pid \<longleftrightarrow> pid \<noteq> 1"

text \<open>A process writes its lock and crashes; half a minute later two others come, both confirm the lock that is
  left, one removes it and takes the lock, and the other removes that.\<close>

definition left_lock :: "nat lock_world" where
  "left_lock = lock_run default_lock (\<lambda>_. True) (\<lambda>_. None) [0, 0]
     (lock_start 0 (example_lock CHR ''A'' 1 0) count_up (new_lock_world 0))"

definition two_wait :: "nat lock_world" where
  "two_wait =
     lock_start 2 (example_lock CHR ''C'' 3 30000) count_up
       (lock_start 1 (example_lock CHR ''B'' 2 30000) count_up
         (left_lock \<lparr> lw_procs := (lw_procs left_lock)(0 := None) \<rparr> \<lparr> lw_now := 30000 \<rparr>))"

definition two_hold :: "nat lock_world" where
  "two_hold = lock_run default_lock others_alive (\<lambda>_. None) [1, 2, 1, 2, 1, 2, 1, 1, 1, 2, 2, 2] two_wait"

definition update_lost :: "nat lock_world" where
  "update_lost = lock_run default_lock others_alive (\<lambda>_. None) [1, 2, 1, 2] two_hold"

lemma example_lock_simps:
  "lm_pid (example_lock c pid created) = pid" "lm_createdAtEpochMs (example_lock c pid created) = created"
  "lm_ownerStartTime (example_lock c pid created) = None" "lm_ownerToken (example_lock c pid created) = replicate 43 c"
  by (simp_all add: example_lock_def)

lemma left_lock_file:
  "lw_file left_lock = Some \<lparr> lf_contents = metadata_text (example_lock CHR ''A'' 1 0), lf_ino = 0, lf_mtimeMs = 0, lf_ctimeMs = 0 \<rparr>"
  "lw_procs left_lock = [0 \<mapsto> example_proc (example_lock CHR ''A'' 1 0) 0 Held]"
  "lw_tokens left_lock = {replicate 43 CHR ''A''}" "lw_store left_lock = 0" "lw_log left_lock = []"
  "lw_ino left_lock = 1" "lw_now left_lock = 0"
  by (simp_all add: left_lock_def lock_run_def lock_next_def lock_start_def new_lock_world_def open_lock_def
      write_lock_def go_def example_proc_def example_lock_simps)

lemma left_lock_stale:
  "lock_is_stale default_lock 30000 others_alive (\<lambda>_. None)
     (lock_snapshot_of \<lparr> lf_contents = metadata_text (example_lock CHR ''A'' 1 0), lf_ino = 0, lf_mtimeMs = 0, lf_ctimeMs = 0 \<rparr>)"
  using example_text_short(1) metadata_text_parses[OF example_lock_ok(1)]
  by (simp add: lock_is_stale_def lock_snapshot_of_def default_lock_def others_alive_def example_lock_simps)

lemmas schedule_simps =
  lock_run_def lock_next_def two_wait_def lock_start_def left_lock_file open_lock_def write_lock_def go_def
  example_proc_def example_lock_simps recover_read_def recover_confirm_def recover_remove_def left_lock_stale
  unlink_lock_def

lemma two_hold_state:
  "lw_procs two_hold =
     [1 \<mapsto> example_proc (example_lock CHR ''B'' 2 30000) 30000 Held,
      2 \<mapsto> example_proc (example_lock CHR ''C'' 3 30000) 30000 Held]"
  "lw_store two_hold = 0" "lw_log two_hold = []"
  by (simp_all add: two_hold_def schedule_simps)

lemma update_lost_state: "lw_store update_lost = 1" "lw_log update_lost = [count_up, count_up]"
  by (simp_all add: update_lost_def lock_run_def lock_next_def two_hold_state example_proc_def go_def
      apply_mutation_def commit_store_def count_up_def)

lemma left_lock_reached: "lock_reach default_lock 0 left_lock"
proof -
  have "lock_step default_lock (new_lock_world 0)
      (lock_start 0 (example_lock CHR ''A'' 1 0) count_up (new_lock_world 0))"
    unfolding lock_start_def
    by (rule lock_step.start) (simp_all add: new_lock_world_def example_lock_ok example_lock_simps)
  moreover have "all_known (\<lambda>_. True) (\<lambda>_. None) w" for w :: "nat lock_world" by (simp add: all_known_def)
  ultimately show ?thesis unfolding left_lock_def
    by (meson converse_rtranclp_into_rtranclp lock_run_reach)
qed

lemma two_wait_reached: "lock_reach default_lock 0 two_wait"
proof -
  let ?a = "left_lock \<lparr> lw_procs := (lw_procs left_lock)(0 := None) \<rparr>"
  let ?b = "?a \<lparr> lw_now := 30000 \<rparr>"
  let ?c = "lock_start 1 (example_lock CHR ''B'' 2 30000) count_up ?b"
  have "lock_step default_lock ?b ?c" unfolding lock_start_def
    by (rule lock_step.start) (simp_all add: left_lock_file example_lock_ok example_lock_simps)
  moreover have "lock_step default_lock ?c two_wait" unfolding two_wait_def lock_start_def
    by (rule lock_step.start) (simp_all add: left_lock_file example_lock_ok example_lock_simps)
  moreover have "lock_step default_lock left_lock ?a" "lock_step default_lock ?a ?b"
    by (rule lock_step.crash, rule lock_step.clock)
  ultimately show ?thesis using left_lock_reached by (meson rtranclp.rtrancl_into_rtrancl)
qed

lemma two_hold_reached: "(lock_step default_lock)\<^sup>*\<^sup>* two_wait two_hold"
  unfolding two_hold_def
  by (rule lock_run_reach)
    (simp add: all_known_def two_wait_def lock_start_def left_lock_file example_lock_simps others_alive_def)

lemma update_lost_reached: "(lock_step default_lock)\<^sup>*\<^sup>* two_hold update_lost"
  unfolding update_lost_def
  by (rule lock_run_reach)
    (simp add: all_known_def two_hold_state example_proc_def example_lock_simps others_alive_def)

text \<open>C24. Processes that mutate the store exclude each other: as long as no removal of the lock file has raced
  (removed another file than the one its process had confirmed, or one still being written), at most one process
  is between the write of its lock and the removal of it, and the lock file is its own. The processes may crash,
  recover locks they find stale, fail to write and time out, in any interleaving and with any clock.\<close>

theorem store_lock_excludes:
  assumes "lock_reach cfg s w" "\<not> lw_raced w"
    and "lw_procs w m = Some p" "holds_lock p" "lw_procs w n = Some q" "holds_lock q"
  shows "m = n \<and> map_option lf_contents (lw_file w) = Some (metadata_text (lp_metadata p))"
proof -
  have ok: "lock_ok w" by (rule reached_lock_ok(1)[OF assms(1,2)])
  have "engaged p" "engaged q" using assms(4,6) by (auto simp: holds_lock_def engaged_def split: lock_pc.splits)
  then have "m = n" using ok assms(3,5) by (auto simp: lock_ok_def one_engaged_def)
  moreover have "owns w p" using pc_ok_of[OF ok assms(3)] assms(4)
    by (cases "lp_pc p") (auto simp: pc_ok_def holds_lock_def)
  ultimately show ?thesis by (auto simp: owns_def)
qed

lemma left_lock_raced: "\<not> lw_raced left_lock"
  by (simp add: left_lock_def lock_run_def lock_next_def lock_start_def new_lock_world_def open_lock_def
      write_lock_def go_def)

theorem store_lock_excludes_witness:
  "map_option lf_contents (lw_file left_lock) = Some (metadata_text (example_lock CHR ''A'' 1 0))"
  using store_lock_excludes[OF left_lock_reached left_lock_raced, of 0 _ 0]
  by (simp add: left_lock_file example_proc_def holds_lock_def)

text \<open>C25. No update of the store is lost: as long as no removal of the lock file has raced, the store is what the
  committed mutations give when they are applied one after the other, each to the whole result of those before
  it, whatever the processes interleave.\<close>

theorem store_updates_are_serial:
  assumes "lock_reach cfg s w" "\<not> lw_raced w"
  shows "serial_store s (lw_log w) = Some (lw_store w)"
  by (rule reached_lock_ok(2)[OF assms])

definition one_update :: "nat lock_world" where
  "one_update = lock_run default_lock (\<lambda>_. True) (\<lambda>_. None) [0, 0] left_lock"

lemma one_update_state: "lw_store one_update = 1" "lw_log one_update = [count_up]" "\<not> lw_raced one_update"
  by (simp_all add: one_update_def lock_run_def lock_next_def left_lock_file example_proc_def go_def left_lock_raced
      apply_mutation_def commit_store_def count_up_def)

lemma one_update_reached: "lock_reach default_lock 0 one_update"
proof -
  have "(lock_step default_lock)\<^sup>*\<^sup>* left_lock one_update"
    unfolding one_update_def by (rule lock_run_reach) (simp add: all_known_def)
  then show ?thesis using left_lock_reached by simp
qed

theorem store_updates_are_serial_witness: "serial_store 0 [count_up] = Some 1"
  using store_updates_are_serial[OF one_update_reached one_update_state(3)] by (simp add: one_update_state)

text \<open>C26. The recovery of a stale lock can break the exclusion: with the default bounds, two processes that both
  confirm the lock a crashed process left can both come to hold the lock, because each then removes the file by
  its name whatever it is by now; both read the store, both commit, and of two updates that were acknowledged
  one is lost.\<close>

theorem stale_recovery_loses_update:
  "\<exists>w v. lock_reach default_lock 0 w \<and> map_option lp_pc (lw_procs w 1) = Some Held \<and>
     map_option lp_pc (lw_procs w 2) = Some Held \<and> (lock_step default_lock)\<^sup>*\<^sup>* w v \<and>
     lw_log v = [count_up, count_up] \<and> serial_store 0 (lw_log v) = Some 2 \<and> lw_store v = 1"
proof -
  have "lock_reach default_lock 0 two_hold" using two_wait_reached two_hold_reached by simp
  moreover have "serial_store 0 [count_up, count_up] = Some 2"
    by (simp add: serial_store_def then_apply_def count_up_def)
  ultimately show ?thesis using update_lost_reached
    by (intro exI[of _ two_hold] exI[of _ update_lost])
      (simp add: two_hold_state update_lost_state example_proc_def)
qed

end
