(* ===== verification/Network_Guard.thy ===== *)
theory Network_Guard
  imports Protocol_Fields "HOL-Library.Word"
begin

text \<open>
  What the local services take an address or a host name for: \<^verbatim>\<open>packages/shared/src/private-network.ts\<close>,
  \<^verbatim>\<open>http-transport-security.ts\<close> and the address classes of \<^verbatim>\<open>secure-upstream-fetch.ts\<close>. IPv4 addresses are
  32-bit words; \<open>is_ip\<close> is \<^verbatim>\<open>isIP\<close> of \<^verbatim>\<open>node:net\<close>.
\<close>

unbundle bit_operations_syntax

section \<open>Texts of addresses\<close>

definition ascii_lower :: "string \<Rightarrow> string" where
  "ascii_lower s = map (\<lambda>c. if is_upper c then char_of (of_char c + 32 :: nat) else c) s"

definition is_hex :: "char \<Rightarrow> bool" where
  "is_hex c \<longleftrightarrow> is_digit c \<or> CHR ''a'' \<le> c \<and> c \<le> CHR ''f'' \<or> CHR ''A'' \<le> c \<and> c \<le> CHR ''F''"

definition ipv4_segment :: "string \<Rightarrow> bool" where
  "ipv4_segment s \<longleftrightarrow> is_decimal s \<and> digits_value s \<le> 255"

definition is_ipv4 :: "string \<Rightarrow> bool" where
  "is_ipv4 s \<longleftrightarrow> (let parts = split_on CHR ''.'' s in length parts = 4 \<and> list_all ipv4_segment parts)"

definition ipv6_segment :: "string \<Rightarrow> bool" where
  "ipv6_segment s \<longleftrightarrow> s \<noteq> [] \<and> length s \<le> 4 \<and> list_all is_hex s"

text \<open>The groups of a text without a double colon: a dotted address counts for two, and may only come last.\<close>

fun ipv6_groups :: "bool \<Rightarrow> string list \<Rightarrow> nat option" where
  "ipv6_groups dotted [] = Some 0"
| "ipv6_groups dotted [s] =
     (if ipv6_segment s then Some 1 else if dotted \<and> is_ipv4 s then Some 2 else None)"
| "ipv6_groups dotted (s # t # ss) =
     (if ipv6_segment s then map_option Suc (ipv6_groups dotted (t # ss)) else None)"

definition side_groups :: "bool \<Rightarrow> string \<Rightarrow> nat option" where
  "side_groups dotted s = ipv6_groups dotted (if s = [] then [] else split_on CHR '':'' s)"

fun double_colon :: "string \<Rightarrow> (string \<times> string) option" where
  "double_colon (a # b # s) =
     (if a = CHR '':'' \<and> b = CHR '':'' then Some ([], s)
      else map_option (\<lambda>(l, r). (a # l, r)) (double_colon (b # s)))"
| "double_colon _ = None"

definition ipv6_body :: "string \<Rightarrow> bool" where
  "ipv6_body s =
     (case double_colon s of
        None \<Rightarrow> side_groups True s = Some 8
      | Some (l, r) \<Rightarrow>
          (case (side_groups False l, side_groups True r) of
             (Some m, Some n) \<Rightarrow> m + n \<le> 7
           | _ \<Rightarrow> False))"

definition is_zone_char :: "char \<Rightarrow> bool" where
  "is_zone_char c \<longleftrightarrow> is_digit c \<or> is_lower c \<or> is_upper c \<or> c \<in> {CHR ''-'', CHR ''.'', CHR '':''}"

definition is_ipv6 :: "string \<Rightarrow> bool" where
  "is_ipv6 s =
     (let body = takeWhile (\<lambda>c. c \<noteq> CHR ''%'') s; zone = dropWhile (\<lambda>c. c \<noteq> CHR ''%'') s in
      ipv6_body body \<and> (zone = [] \<or> 1 < length zone \<and> list_all is_zone_char (tl zone)))"

definition is_ip :: "string \<Rightarrow> nat" where
  "is_ip s = (if is_ipv4 s then 4 else if is_ipv6 s then 6 else 0)"

section \<open>Address classes\<close>

datatype address_class = Public_address | Private_address | Loopback_address | Forbidden_address

text \<open>\<^verbatim>\<open>Number(part)\<close>, of the empty text and of digits; every other text that gets here, from behind the prefix
  of a mapped address, has a colon and is not a number.\<close>

definition octet_number :: "string \<Rightarrow> int option" where
  "octet_number s = (if list_all is_digit s then Some (digits_value s) else None)"

definition ipv4_number :: "string \<Rightarrow> 32 word option" where
  "ipv4_number address =
     (let octets = map octet_number (split_on CHR ''.'' address) in
      if length octets \<noteq> 4 \<or> list_ex (\<lambda>x. case x of None \<Rightarrow> True | Some n \<Rightarrow> n < 0 \<or> 255 < n) octets
      then None
      else (case map the octets of
              [a, b, c, d] \<Rightarrow>
                Some (push_bit 24 (word_of_int a) + push_bit 16 (word_of_int b) + push_bit 8 (word_of_int c) + word_of_int d)
            | _ \<Rightarrow> None))"

definition in_ipv4_range :: "32 word \<Rightarrow> 32 word \<Rightarrow> nat \<Rightarrow> bool" where
  "in_ipv4_range value base prefix =
     (let mask = (if prefix = 0 then 0 else push_bit (32 - prefix) 0xFFFFFFFF) in value AND mask = base AND mask)"

definition classify_ipv4 :: "string \<Rightarrow> address_class" where
  "classify_ipv4 address =
     (case ipv4_number address of
        None \<Rightarrow> Forbidden_address
      | Some value \<Rightarrow>
          if in_ipv4_range value 0x7F000000 8 then Loopback_address
          else if in_ipv4_range value 0x00000000 8 \<or> in_ipv4_range value 0xA9FE0000 16 \<or>
                  in_ipv4_range value 0xC0000000 24 \<or> in_ipv4_range value 0xC0000200 24 \<or>
                  in_ipv4_range value 0xC6120000 15 \<or> in_ipv4_range value 0xC6336400 24 \<or>
                  in_ipv4_range value 0xCB007100 24 \<or> in_ipv4_range value 0xE0000000 4 \<or>
                  in_ipv4_range value 0xF0000000 4
          then Forbidden_address
          else if in_ipv4_range value 0x0A000000 8 \<or> in_ipv4_range value 0x64400000 10 \<or>
                  in_ipv4_range value 0xAC100000 12 \<or> in_ipv4_range value 0xC0A80000 16
          then Private_address
          else Public_address)"

definition hex_code :: "char \<Rightarrow> nat" where
  "hex_code c = (if is_digit c then of_char c - 48 else if CHR ''a'' \<le> c then of_char c - 87 else of_char c - 55)"

text \<open>\<^verbatim>\<open>Number.parseInt(s, 16)\<close> of a text without a sign or an \<^verbatim>\<open>0x\<close>\<close>

definition parse_hex :: "string \<Rightarrow> nat option" where
  "parse_hex s =
     (let digits = takeWhile is_hex s in
      if digits = [] then None else Some (foldl (\<lambda>n c. 16 * n + hex_code c) 0 digits))"

definition first_part :: "char \<Rightarrow> string \<Rightarrow> string" where
  "first_part c s = takeWhile (\<lambda>d. d \<noteq> c) s"

definition starts_with :: "string \<Rightarrow> string \<Rightarrow> bool" where
  "starts_with p s \<longleftrightarrow> take (length p) s = p"

definition classify_ipv6 :: "string \<Rightarrow> address_class" where
  "classify_ipv6 address =
     (let normalized = first_part CHR ''%'' (ascii_lower address) in
      if normalized = ''::1'' then Loopback_address
      else if normalized = ''::'' then Forbidden_address
      else if starts_with ''::ffff:'' normalized then classify_ipv4 (drop (length ''::ffff:'') normalized)
      else (let part = first_part CHR '':'' normalized in
            case parse_hex (if part = [] then ''0'' else part) of
              None \<Rightarrow> Forbidden_address
            | Some n \<Rightarrow>
                (let w = word_of_nat n :: 32 word in
                 if w AND 0xFE00 = 0xFC00 then Private_address
                 else if w AND 0xFFC0 = 0xFE80 then Forbidden_address
                 else if w AND 0xFF00 = 0xFF00 then Forbidden_address
                 else if starts_with ''2001:db8:'' normalized then Forbidden_address
                 else Public_address)))"

definition classify_upstream_address :: "string \<Rightarrow> address_class" where
  "classify_upstream_address address =
     (if is_ip address = 4 then classify_ipv4 address
      else if is_ip address = 6 then classify_ipv6 address
      else Forbidden_address)"

section \<open>Host names\<close>

definition exact_loopback_hostname :: "string \<Rightarrow> bool" where
  "exact_loopback_hostname hostname \<longleftrightarrow>
     ascii_lower hostname \<in> {''localhost'', ''127.0.0.1'', ''[::1]'', ''::1''}"

definition is_loopback_hostname :: "string \<Rightarrow> bool" where
  "is_loopback_hostname hostname \<longleftrightarrow> ascii_lower hostname \<in> {''localhost'', ''127.0.0.1'', ''[::1]''}"

text \<open>\<^verbatim>\<open>Number.parseInt(part, 10)\<close> of a text without white space and signs in front: what follows the digits is
  ignored, but then the number is not written as the part.\<close>

definition parse_decimal :: "string \<Rightarrow> int option" where
  "parse_decimal s =
     (let digits = takeWhile is_digit s in if digits = [] then None else Some (digits_value digits))"

definition octet_text :: "string \<Rightarrow> int option" where
  "octet_text part =
     (case parse_decimal part of
        Some n \<Rightarrow> if n < 0 \<or> 255 < n \<or> decimal (nat n) \<noteq> part then None else Some n
      | None \<Rightarrow> None)"

definition is_private_network_ipv4 :: "string \<Rightarrow> bool" where
  "is_private_network_ipv4 hostname =
     (let octets = map octet_text (split_on CHR ''.'' hostname) in
      if length octets \<noteq> 4 \<or> None \<in> set octets then False
      else (let a = the (octets ! 0); b = the (octets ! 1) in
            a = 10 \<or> a = 100 \<and> 64 \<le> b \<and> b \<le> 127 \<or> a = 127 \<or> a = 169 \<and> b = 254 \<or>
            a = 172 \<and> 16 \<le> b \<and> b \<le> 31 \<or> a = 192 \<and> b = 168))"

section \<open>Ranges\<close>

lemma unat_shift: "unat (drop_bit k w) = unat w div 2 ^ k" for w :: "32 word"
  by (simp only: unat_drop_bit_eq) (simp only: drop_bit_eq_div)

lemma in_ipv4_range_div:
  assumes "0 < p" "p \<le> 32"
  shows "in_ipv4_range v b p \<longleftrightarrow> unat v div 2 ^ (32 - p) = unat b div 2 ^ (32 - p)"
proof -
  have m: "w AND push_bit (32 - p) 0xFFFFFFFF = push_bit (32 - p) (drop_bit (32 - p) w)" for w :: "32 word"
  proof (rule bit_word_eqI)
    fix n assume "n < LENGTH(32)"
    moreover have "bit (0xFFFFFFFF :: 32 word) k" if "k < 32" for k
    proof -
      have "(0xFFFFFFFF :: 32 word) = - 1" by simp
      then show ?thesis using that by (simp only: bit_minus_1_iff possible_bit_word) simp
    qed
    ultimately show "bit (w AND push_bit (32 - p) 0xFFFFFFFF) n = bit (push_bit (32 - p) (drop_bit (32 - p) w)) n"
      by (auto simp: bit_simps)
  qed
  have "in_ipv4_range v b p \<longleftrightarrow> push_bit (32 - p) (drop_bit (32 - p) v) = push_bit (32 - p) (drop_bit (32 - p) b)"
    using assms(1) by (simp add: in_ipv4_range_def m)
  also have "\<dots> \<longleftrightarrow> drop_bit (32 - p) v = drop_bit (32 - p) b"
  proof
    assume e: "push_bit (32 - p) (drop_bit (32 - p) v) = push_bit (32 - p) (drop_bit (32 - p) b)"
    show "drop_bit (32 - p) v = drop_bit (32 - p) b"
    proof (rule bit_word_eqI)
      fix n assume "n < LENGTH(32)"
      have "bit v (n + (32 - p)) = bit b (n + (32 - p))" if "n + (32 - p) < 32"
        using arg_cong[OF e, of "\<lambda>w. bit w (n + (32 - p))"] that by (simp add: bit_simps add.commute)
      moreover have "\<not> bit w k" if "\<not> k < 32" for w :: "32 word" and k
        using that bit_imp_le_length[of w k] by auto
      ultimately show "bit (drop_bit (32 - p) v) n = bit (drop_bit (32 - p) b) n"
        by (cases "n + (32 - p) < 32") (auto simp: bit_simps add.commute)
    qed
  qed simp
  also have "\<dots> \<longleftrightarrow> unat (drop_bit (32 - p) v) = unat (drop_bit (32 - p) b)" by (simp add: word_unat_eq_iff)
  finally show ?thesis by (simp only: unat_shift)
qed

definition dotted :: "nat \<Rightarrow> nat \<Rightarrow> nat \<Rightarrow> nat \<Rightarrow> string" where
  "dotted a b c d = decimal a @ CHR ''.'' # decimal b @ CHR ''.'' # decimal c @ CHR ''.'' # decimal d"

lemma split_on_append: "c \<notin> set p \<Longrightarrow> split_on c (p @ c # s) = p # split_on c s"
  by (induction p) auto

lemma split_on_none: "c \<notin> set p \<Longrightarrow> split_on c p = [p]"
  by (induction p) auto

lemma decimal_no_dot: "CHR ''.'' \<notin> set (decimal n)"
proof -
  have "list_all is_digit (decimal n)" using decimal_value(2)[of n] by (simp add: is_decimal_def)
  then show ?thesis by (auto simp: list_all_iff is_digit_def)
qed

lemma split_dotted: "split_on CHR ''.'' (dotted a b c d) = map decimal [a, b, c, d]"
  by (simp add: dotted_def split_on_append split_on_none decimal_no_dot)

definition octets_word :: "nat \<Rightarrow> nat \<Rightarrow> nat \<Rightarrow> nat \<Rightarrow> 32 word" where
  "octets_word a b c d =
     push_bit 24 (word_of_int (int a)) + push_bit 16 (word_of_int (int b)) + push_bit 8 (word_of_int (int c)) +
     word_of_int (int d)"

lemma octets_word_unat:
  assumes "a < 256" "b < 256" "c < 256" "d < 256"
  shows "unat (octets_word a b c d) = a * 2 ^ 24 + b * 2 ^ 16 + c * 2 ^ 8 + d"
proof -
  have "octets_word a b c d = word_of_nat (a * 2 ^ 24 + b * 2 ^ 16 + c * 2 ^ 8 + d)"
    by (simp add: octets_word_def push_bit_eq_mult)
  moreover have "a * 2 ^ 24 + b * 2 ^ 16 + c * 2 ^ 8 + d < 2 ^ 32" using assms by simp
  ultimately show ?thesis by (simp only: unat_of_nat) simp
qed

text \<open>The class of an address by its octets.\<close>

definition ipv4_class :: "nat \<Rightarrow> nat \<Rightarrow> nat \<Rightarrow> address_class" where
  "ipv4_class a b c =
     (if a = 127 then Loopback_address
      else if a = 0 \<or> a = 169 \<and> b = 254 \<or> a = 192 \<and> b = 0 \<and> (c = 0 \<or> c = 2) \<or> a = 198 \<and> (b = 18 \<or> b = 19) \<or>
              a = 198 \<and> b = 51 \<and> c = 100 \<or> a = 203 \<and> b = 0 \<and> c = 113 \<or> 224 \<le> a
      then Forbidden_address
      else if a = 10 \<or> a = 100 \<and> 64 \<le> b \<and> b \<le> 127 \<or> a = 172 \<and> 16 \<le> b \<and> b \<le> 31 \<or> a = 192 \<and> b = 168
      then Private_address
      else Public_address)"

lemma octets_div:
  assumes "a < 256" "b < 256" "c < 256" "d < (256 :: nat)"
  shows "(a * 2 ^ 24 + b * 2 ^ 16 + c * 2 ^ 8 + d) div 2 ^ 24 = a"
    "(a * 2 ^ 24 + b * 2 ^ 16 + c * 2 ^ 8 + d) div 2 ^ 16 = a * 256 + b"
    "(a * 2 ^ 24 + b * 2 ^ 16 + c * 2 ^ 8 + d) div 2 ^ 8 = (a * 256 + b) * 256 + c"
    "(a * 2 ^ 24 + b * 2 ^ 16 + c * 2 ^ 8 + d) div 2 ^ 17 = a * 128 + b div 2"
    "(a * 2 ^ 24 + b * 2 ^ 16 + c * 2 ^ 8 + d) div 2 ^ 22 = a * 4 + b div 64"
    "(a * 2 ^ 24 + b * 2 ^ 16 + c * 2 ^ 8 + d) div 2 ^ 20 = a * 16 + b div 16"
    "(a * 2 ^ 24 + b * 2 ^ 16 + c * 2 ^ 8 + d) div 2 ^ 28 = a div 16"
proof -
  have b: "b = 2 * (b div 2) + b mod 2" "b = 64 * (b div 64) + b mod 64" "b = 16 * (b div 16) + b mod 16"
    "a = 16 * (a div 16) + a mod 16" "b mod 2 < 2" "b mod 64 < 64" "b mod 16 < 16" "a mod 16 < 16"
    by simp_all
  show "(a * 2 ^ 24 + b * 2 ^ 16 + c * 2 ^ 8 + d) div 2 ^ 24 = a"
    by (rule div_nat_eqI) (use assms in simp_all)
  show "(a * 2 ^ 24 + b * 2 ^ 16 + c * 2 ^ 8 + d) div 2 ^ 16 = a * 256 + b"
    by (rule div_nat_eqI) (use assms in simp_all)
  show "(a * 2 ^ 24 + b * 2 ^ 16 + c * 2 ^ 8 + d) div 2 ^ 8 = (a * 256 + b) * 256 + c"
    by (rule div_nat_eqI) (use assms in simp_all)
  show "(a * 2 ^ 24 + b * 2 ^ 16 + c * 2 ^ 8 + d) div 2 ^ 17 = a * 128 + b div 2"
    by (rule div_nat_eqI, simp_all) (use assms b(1,5) in linarith)+
  show "(a * 2 ^ 24 + b * 2 ^ 16 + c * 2 ^ 8 + d) div 2 ^ 22 = a * 4 + b div 64"
    by (rule div_nat_eqI, simp_all) (use assms b(2,6) in linarith)+
  show "(a * 2 ^ 24 + b * 2 ^ 16 + c * 2 ^ 8 + d) div 2 ^ 20 = a * 16 + b div 16"
    by (rule div_nat_eqI, simp_all) (use assms b(3,7) in linarith)+
  show "(a * 2 ^ 24 + b * 2 ^ 16 + c * 2 ^ 8 + d) div 2 ^ 28 = a div 16"
    by (rule div_nat_eqI, simp_all) (use assms b(4,8) in linarith)+
qed

lemma digits_eq_iff: "b < k \<Longrightarrow> a * k + b = n \<longleftrightarrow> a = n div k \<and> b = n mod (k :: nat)"
  by (auto simp: div_mult_mod_eq)

lemma three_digits_eq_iff:
  assumes "b < 256" "c < 256"
  shows "65536 * a + b * 256 + c = n \<longleftrightarrow> a = n div 256 div 256 \<and> b = n div 256 mod 256 \<and> c = n mod (256 :: nat)"
  using digits_eq_iff[OF assms(2), of "a * 256 + b" n] digits_eq_iff[OF assms(1), of a "n div 256"]
  by (simp add: algebra_simps)

lemma div_eq_between: "0 < k \<Longrightarrow> b div k = n \<longleftrightarrow> k * n \<le> b \<and> b < k * Suc (n :: nat)"
  by (metis div_nat_eqI dividend_less_times_div mult.commute times_div_less_eq_dividend mult_Suc_right add.commute)

lemma octets_ranges:
  assumes "a < 256" "b < 256" "c < 256" "d < 256"
  defines "v \<equiv> octets_word a b c d"
  shows "in_ipv4_range v 0x7F000000 8 \<longleftrightarrow> a = 127" "in_ipv4_range v 0x00000000 8 \<longleftrightarrow> a = 0"
    "in_ipv4_range v 0x0A000000 8 \<longleftrightarrow> a = 10"
    "in_ipv4_range v 0xA9FE0000 16 \<longleftrightarrow> a = 169 \<and> b = 254"
    "in_ipv4_range v 0xC0A80000 16 \<longleftrightarrow> a = 192 \<and> b = 168"
    "in_ipv4_range v 0xC0000000 24 \<longleftrightarrow> a = 192 \<and> b = 0 \<and> c = 0"
    "in_ipv4_range v 0xC0000200 24 \<longleftrightarrow> a = 192 \<and> b = 0 \<and> c = 2"
    "in_ipv4_range v 0xC6336400 24 \<longleftrightarrow> a = 198 \<and> b = 51 \<and> c = 100"
    "in_ipv4_range v 0xCB007100 24 \<longleftrightarrow> a = 203 \<and> b = 0 \<and> c = 113"
    "in_ipv4_range v 0xC6120000 15 \<longleftrightarrow> a = 198 \<and> (b = 18 \<or> b = 19)"
    "in_ipv4_range v 0x64400000 10 \<longleftrightarrow> a = 100 \<and> 64 \<le> b \<and> b \<le> 127"
    "in_ipv4_range v 0xAC100000 12 \<longleftrightarrow> a = 172 \<and> 16 \<le> b \<and> b \<le> 31"
    "in_ipv4_range v 0xE0000000 4 \<longleftrightarrow> 224 \<le> a \<and> a < 240"
    "in_ipv4_range v 0xF0000000 4 \<longleftrightarrow> 240 \<le> a"
proof -
  note u = octets_word_unat[OF assms(1-4), folded v_def]
  note div = octets_div[OF assms(1-4), folded u]
  note r = in_ipv4_range_div
  show "in_ipv4_range v 0x7F000000 8 \<longleftrightarrow> a = 127" "in_ipv4_range v 0x00000000 8 \<longleftrightarrow> a = 0"
    "in_ipv4_range v 0x0A000000 8 \<longleftrightarrow> a = 10"
    using div(1) by (simp_all add: r)
  show "in_ipv4_range v 0xA9FE0000 16 \<longleftrightarrow> a = 169 \<and> b = 254" "in_ipv4_range v 0xC0A80000 16 \<longleftrightarrow> a = 192 \<and> b = 168"
    using div(2) assms(2) by (simp_all add: r digits_eq_iff)
  show "in_ipv4_range v 0xC0000000 24 \<longleftrightarrow> a = 192 \<and> b = 0 \<and> c = 0"
    "in_ipv4_range v 0xC0000200 24 \<longleftrightarrow> a = 192 \<and> b = 0 \<and> c = 2"
    "in_ipv4_range v 0xC6336400 24 \<longleftrightarrow> a = 198 \<and> b = 51 \<and> c = 100"
    "in_ipv4_range v 0xCB007100 24 \<longleftrightarrow> a = 203 \<and> b = 0 \<and> c = 113"
    using div(3) assms(2,3) by (simp_all add: r three_digits_eq_iff)
  have b: "b div 2 < 128" "b div 64 < 4" "b div 16 < 16" using assms(2) by simp_all
  show "in_ipv4_range v 0xC6120000 15 \<longleftrightarrow> a = 198 \<and> (b = 18 \<or> b = 19)"
    using div(4) b(1) by (simp add: r digits_eq_iff) (auto simp: div_eq_between)
  show "in_ipv4_range v 0x64400000 10 \<longleftrightarrow> a = 100 \<and> 64 \<le> b \<and> b \<le> 127"
    using div(5) b(2) by (simp add: r digits_eq_iff) (auto simp: div_eq_between)
  show "in_ipv4_range v 0xAC100000 12 \<longleftrightarrow> a = 172 \<and> 16 \<le> b \<and> b \<le> 31"
    using div(6) b(3) by (simp add: r digits_eq_iff) (auto simp: div_eq_between)
  show "in_ipv4_range v 0xE0000000 4 \<longleftrightarrow> 224 \<le> a \<and> a < 240" "in_ipv4_range v 0xF0000000 4 \<longleftrightarrow> 240 \<le> a"
    using div(7) assms(1) by (simp_all add: r) (auto simp: div_eq_between)
qed

lemma ipv4_number_dotted:
  assumes "a < 256" "b < 256" "c < 256" "d < 256"
  shows "ipv4_number (dotted a b c d) = Some (octets_word a b c d)"
proof -
  have "octet_number (decimal n) = Some (int n)" for n
    using decimal_value[of n] by (simp add: octet_number_def is_decimal_def)
  then show ?thesis using assms by (simp add: ipv4_number_def split_dotted octets_word_def)
qed

lemma dotted_is_ipv4: "a < 256 \<Longrightarrow> b < 256 \<Longrightarrow> c < 256 \<Longrightarrow> d < 256 \<Longrightarrow> is_ipv4 (dotted a b c d)"
  by (simp add: is_ipv4_def split_dotted ipv4_segment_def decimal_value)

lemma dotted_chars: "c \<in> set (dotted x y z t) \<Longrightarrow> is_digit c \<or> c = CHR ''.''"
proof -
  have "set (decimal n) \<subseteq> Collect is_digit" for n
    using decimal_value(2)[of n] by (auto simp: is_decimal_def list_all_iff)
  then show "c \<in> set (dotted x y z t) \<Longrightarrow> is_digit c \<or> c = CHR ''.''" by (auto simp: dotted_def)
qed

lemma ipv4_classes:
  assumes "a < 256" "b < 256" "c < 256" "d < 256"
  shows "classify_upstream_address (dotted a b c d) = ipv4_class a b c"
proof -
  have "224 \<le> a \<and> a < 240 \<or> 240 \<le> a \<longleftrightarrow> 224 \<le> a" by linarith
  then have forbidden: "(a = 0 \<or> a = 169 \<and> b = 254 \<or> a = 192 \<and> b = 0 \<and> c = 0 \<or> a = 192 \<and> b = 0 \<and> c = 2 \<or>
      a = 198 \<and> (b = 18 \<or> b = 19) \<or> a = 198 \<and> b = 51 \<and> c = 100 \<or> a = 203 \<and> b = 0 \<and> c = 113 \<or>
      224 \<le> a \<and> a < 240 \<or> 240 \<le> a) \<longleftrightarrow>
    (a = 0 \<or> a = 169 \<and> b = 254 \<or> a = 192 \<and> b = 0 \<and> (c = 0 \<or> c = 2) \<or> a = 198 \<and> (b = 18 \<or> b = 19) \<or>
      a = 198 \<and> b = 51 \<and> c = 100 \<or> a = 203 \<and> b = 0 \<and> c = 113 \<or> 224 \<le> a)"
    by blast
  have "classify_upstream_address (dotted a b c d) = classify_ipv4 (dotted a b c d)"
    using dotted_is_ipv4[OF assms] by (simp add: classify_upstream_address_def is_ip_def)
  also have "\<dots> = ipv4_class a b c"
    by (simp only: classify_ipv4_def ipv4_number_dotted[OF assms] option.case octets_ranges[OF assms] ipv4_class_def
        forbidden)
  finally show ?thesis .
qed

text \<open>The texts of segments and of addresses.\<close>

lemma ipv4_segment_text: "ipv4_segment p \<longleftrightarrow> (\<exists>n < 256. p = decimal n)"
proof
  assume "ipv4_segment p"
  then have p: "is_decimal p" "digits_value p \<le> 255" by (auto simp: ipv4_segment_def)
  then have d: "decimal (nat (digits_value p)) = p" by (simp add: decimal_of_value)
  then have "0 \<le> digits_value p" using decimal_value(1)[of "nat (digits_value p)"] by (metis of_nat_0_le_iff)
  then show "\<exists>n < 256. p = decimal n" using d p(2) by (intro exI[of _ "nat (digits_value p)"]) auto
qed (auto simp: ipv4_segment_def decimal_value)

lemma octet_text_iff: "octet_text p = Some k \<longleftrightarrow> (\<exists>n < 256. p = decimal n \<and> k = int n)"
proof
  assume "octet_text p = Some k"
  then have "0 \<le> k" "k \<le> 255" "decimal (nat k) = p" by (auto simp: octet_text_def split: option.splits if_splits)
  then show "\<exists>n < 256. p = decimal n \<and> k = int n" by (intro exI[of _ "nat k"]) auto
next
  assume "\<exists>n < 256. p = decimal n \<and> k = int n"
  then obtain n where n: "n < 256" "p = decimal n" "k = int n" by blast
  have "takeWhile is_digit (decimal n) = decimal n" "decimal n \<noteq> []"
    using decimal_value(2)[of n] by (auto simp: is_decimal_def list_all_iff takeWhile_eq_all_conv)
  then have "parse_decimal (decimal n) = Some (int n)" by (simp only: parse_decimal_def Let_def if_False decimal_value)
  then show "octet_text p = Some k" using n by (simp add: octet_text_def)
qed

lemma is_ipv4_iff:
  "is_ipv4 s \<longleftrightarrow> (\<exists>a b c d. a < 256 \<and> b < 256 \<and> c < 256 \<and> d < 256 \<and> s = dotted a b c d)"
proof
  assume i: "is_ipv4 s"
  then obtain p q r t where parts: "split_on CHR ''.'' s = [p, q, r, t]"
    by (auto simp: is_ipv4_def Let_def length_Suc_conv eval_nat_numeral)
  then have "\<exists>a < 256. p = decimal a" "\<exists>b < 256. q = decimal b" "\<exists>c < 256. r = decimal c" "\<exists>d < 256. t = decimal d"
    using i by (simp_all add: is_ipv4_def Let_def ipv4_segment_text)
  moreover have "s = p @ CHR ''.'' # q @ CHR ''.'' # r @ CHR ''.'' # t"
    using join_split_on[of "CHR ''.''" s] parts by simp
  ultimately show "\<exists>a b c d. a < 256 \<and> b < 256 \<and> c < 256 \<and> d < 256 \<and> s = dotted a b c d"
    unfolding dotted_def by metis
qed (auto intro: dotted_is_ipv4)

lemma dotted_link_local: "starts_with ''169.254.'' (dotted a b c d) \<longleftrightarrow> a = 169 \<and> b = 254"
proof
  assume p: "starts_with ''169.254.'' (dotted a b c d)"
  define rest where "rest = drop 8 (dotted a b c d)"
  have "dotted a b c d = ''169'' @ CHR ''.'' # ''254'' @ CHR ''.'' # rest"
  proof -
    have "take 8 (dotted a b c d) = ''169.254.''" using p by (simp add: starts_with_def eval_nat_numeral)
    then have "dotted a b c d = ''169.254.'' @ rest" unfolding rest_def by (metis append_take_drop_id)
    then show ?thesis by simp
  qed
  then have "map decimal [a, b, c, d] = ''169'' # ''254'' # split_on CHR ''.'' rest"
    using split_dotted[of a b c d] by (simp only: split_on_append list.set) (simp add: split_on_append)
  then have "digits_value (decimal a) = digits_value ''169''" "digits_value (decimal b) = digits_value ''254''"
    by simp_all
  then show "a = 169 \<and> b = 254" by (simp_all add: decimal_value) (simp_all add: digits_value_def digit_value_def)
next
  assume "a = 169 \<and> b = 254"
  moreover have "decimal 169 = ''169''" "decimal 254 = ''254''" by code_simp+
  ultimately show "starts_with ''169.254.'' (dotted a b c d)" by (simp add: starts_with_def dotted_def)
qed

text \<open>A host name is taken for a private IPv4 address exactly if it is the canonical text of a private, a loopback
  or a link-local one.\<close>

theorem private_network_ipv4:
  "is_private_network_ipv4 s \<longleftrightarrow>
     is_ipv4 s \<and>
     (classify_upstream_address s = Private_address \<or> classify_upstream_address s = Loopback_address \<or>
      starts_with ''169.254.'' s)"
proof (cases "is_ipv4 s")
  case True
  then obtain a b c d where o: "a < 256" "b < 256" "c < 256" "d < 256" and s: "s = dotted a b c d"
    by (auto simp: is_ipv4_iff)
  have t: "octet_text (decimal n) = Some (int n)" if "n < 256" for n using that by (simp add: octet_text_iff)
  have "is_private_network_ipv4 s \<longleftrightarrow>
      a = 10 \<or> a = 100 \<and> 64 \<le> b \<and> b \<le> 127 \<or> a = 127 \<or> a = 169 \<and> b = 254 \<or>
      a = 172 \<and> 16 \<le> b \<and> b \<le> 31 \<or> a = 192 \<and> b = 168"
    using o by (simp add: is_private_network_ipv4_def s split_dotted t)
  moreover have "classify_upstream_address s = Private_address \<or> classify_upstream_address s = Loopback_address \<longleftrightarrow>
      a = 10 \<or> a = 100 \<and> 64 \<le> b \<and> b \<le> 127 \<or> a = 127 \<or> a = 172 \<and> 16 \<le> b \<and> b \<le> 31 \<or> a = 192 \<and> b = 168"
    unfolding s ipv4_classes[OF o] by (auto simp: ipv4_class_def)
  moreover have "starts_with ''169.254.'' s \<longleftrightarrow> a = 169 \<and> b = 254" unfolding s by (rule dotted_link_local)
  ultimately show ?thesis using True by blast
next
  case False
  have "\<not> is_private_network_ipv4 s"
  proof
    assume "is_private_network_ipv4 s"
    then have l: "length (split_on CHR ''.'' s) = 4" "None \<notin> octet_text ` set (split_on CHR ''.'' s)"
      by (auto simp: is_private_network_ipv4_def Let_def split: if_splits)
    have "ipv4_segment p" if "p \<in> set (split_on CHR ''.'' s)" for p
    proof -
      have "octet_text p \<noteq> None" using l(2) that by (metis image_eqI)
      then obtain k where "octet_text p = Some k" by blast
      then show ?thesis by (auto simp: octet_text_iff ipv4_segment_text)
    qed
    then show False using False l by (auto simp: is_ipv4_def Let_def list_all_iff)
  qed
  then show ?thesis using False by simp
qed

text \<open>The IPv6 form of an IPv4 address.\<close>

lemma dotted_no_colon: "CHR '':'' \<notin> set (dotted a b c d)" "CHR ''%'' \<notin> set (dotted a b c d)"
  using dotted_chars by (force simp: is_digit_def)+

lemma dotted_zone:
  "takeWhile (\<lambda>c. c \<noteq> CHR ''%'') (dotted a b c d) = dotted a b c d"
  "dropWhile (\<lambda>c. c \<noteq> CHR ''%'') (dotted a b c d) = []"
  using dotted_no_colon(2)[of a b c d]
  by (auto simp: takeWhile_eq_all_conv dropWhile_eq_Nil_conv)

lemma ascii_lower_id: "\<forall>c \<in> set s. \<not> is_upper c \<Longrightarrow> ascii_lower s = s"
  by (induction s) (simp_all add: ascii_lower_def)

lemma mapped_lower: "ascii_lower (''::ffff:'' @ dotted a b c d) = ''::ffff:'' @ dotted a b c d"
proof (rule ascii_lower_id)
  have "\<not> is_upper c" if "is_digit c" for c
    using that by (auto simp: is_digit_def is_upper_def less_eq_char_def)
  moreover have "list_all (\<lambda>c. \<not> is_upper c) ''::ffff:.''" by code_simp
  ultimately show "\<forall>c \<in> set (''::ffff:'' @ dotted a b c d). \<not> is_upper c"
    using dotted_chars[of _ a b c d] by (simp add: list_all_iff) metis
qed

lemma mapped_is_ipv6:
  assumes "a < 256" "b < 256" "c < 256" "d < 256"
  shows "is_ip (''::ffff:'' @ dotted a b c d) = 6"
proof -
  have "\<not> is_ipv4 (''::ffff:'' @ dotted a b c d)"
  proof
    assume "is_ipv4 (''::ffff:'' @ dotted a b c d)"
    then obtain x y z t where "''::ffff:'' @ dotted a b c d = dotted x y z t" by (auto simp: is_ipv4_iff)
    then have "CHR '':'' \<in> set (dotted x y z t)" by (metis append_Cons list.set_intros(1))
    then show False by (simp add: dotted_no_colon)
  qed
  moreover have "side_groups True (''ffff:'' @ dotted a b c d) = Some 3"
  proof -
    have "split_on CHR '':'' (''ffff'' @ CHR '':'' # dotted a b c d) = [''ffff'', dotted a b c d]"
      by (subst split_on_append) (simp_all add: split_on_none dotted_no_colon)
    moreover have "ipv6_segment ''ffff''" by code_simp
    moreover have "\<not> ipv6_segment (dotted a b c d)"
    proof
      assume "ipv6_segment (dotted a b c d)"
      moreover have "CHR ''.'' \<in> set (dotted a b c d)" by (simp add: dotted_def)
      ultimately have "is_hex CHR ''.''" by (auto simp: ipv6_segment_def list_all_iff)
      then show False by code_simp
    qed
    ultimately show ?thesis by (simp add: side_groups_def dotted_is_ipv4[OF assms])
  qed
  ultimately show ?thesis
    by (simp add: is_ip_def is_ipv6_def ipv6_body_def dotted_zone Let_def) (simp add: side_groups_def)
qed

lemma mapped_classes:
  assumes "a < 256" "b < 256" "c < 256" "d < 256"
  shows "classify_upstream_address (''::ffff:'' @ dotted a b c d) = ipv4_class a b c"
proof -
  have "first_part CHR ''%'' (''::ffff:'' @ dotted a b c d) = ''::ffff:'' @ dotted a b c d"
    using dotted_no_colon(2)[of a b c d] by (auto simp: first_part_def takeWhile_eq_all_conv)
  then have "classify_ipv6 (''::ffff:'' @ dotted a b c d) = classify_ipv4 (dotted a b c d)"
    
    unfolding classify_ipv6_def mapped_lower Let_def by (simp add: starts_with_def)
  then show ?thesis
    using ipv4_classes[OF assms] dotted_is_ipv4[OF assms] mapped_is_ipv6[OF assms]
    by (simp add: classify_upstream_address_def) (simp add: is_ip_def)
qed

section \<open>What is proved of it\<close>

text \<open>An IPv4 address, in its own text or mapped into IPv6, gets the class its octets give it: loopback,
  reserved, private or public, with every boundary of the blocks.\<close>

theorem address_classes:
  assumes "a < 256" "b < 256" "c < 256" "d < 256"
  shows "classify_upstream_address (dotted a b c d) = ipv4_class a b c \<and>
    classify_upstream_address (''::ffff:'' @ dotted a b c d) = ipv4_class a b c"
  using ipv4_classes[OF assms] mapped_classes[OF assms] by blast

theorem address_classes_witness: "classify_upstream_address (dotted 172 31 255 255) = Private_address"
  using address_classes[of 172 31 255 255] by (simp add: ipv4_class_def)

text \<open>An IPv6 address is classified by its text: other texts of the loopback address, and the deprecated text of an
  IPv4 loopback address, are taken for public.\<close>

theorem long_loopback_is_public:
  "is_ip ''0:0:0:0:0:0:0:1'' = 6" "classify_upstream_address ''0:0:0:0:0:0:0:1'' = Public_address"
  "is_ip ''::7f00:1'' = 6" "classify_upstream_address ''::7f00:1'' = Public_address"
  by code_simp+

end
