(* ===== verification/Secure_Fetch.thy ===== *)
theory Secure_Fetch
  imports Network_Guard Json_Text Step_Machines
begin

text \<open>
  The fetch the local services reach upstreams with, \<^verbatim>\<open>packages/shared/src/secure-upstream-fetch.ts\<close>: it
  looks the host name up, refuses addresses by their class, and connects through a dispatcher that is bound
  to the address it chose. \<open>fetch_step\<close> interleaves the calls, the answers to their lookups, aborts and the
  closing. The URL parser is the source of \<open>upstream_url\<close>s.
\<close>

record upstream_url =
  uu_protocol :: string
  uu_username :: string
  uu_password :: string
  uu_hostname :: string
  uu_origin :: string
  uu_pathname :: string

record resolved_address =
  ra_address :: string
  ra_family :: int

text \<open>\<^verbatim>\<open>assertSecureHttpTransport\<close>\<close>

definition assert_secure_http_transport :: "upstream_url \<Rightarrow> string \<Rightarrow> unit result" where
  "assert_secure_http_transport url label =
     (if uu_protocol url = ''https:'' then Inr ()
      else if uu_protocol url = ''http:'' \<and> is_loopback_hostname (uu_hostname url) then Inr ()
      else Inl (PlainError (label @ '' must use HTTPS unless it targets localhost, 127.0.0.1, or ::1.'')))"

section \<open>Addresses that are allowed\<close>

definition assert_allowed_addresses ::
  "upstream_url \<Rightarrow> resolved_address list \<Rightarrow> bool \<Rightarrow> resolved_address result" where
  "assert_allowed_addresses url addresses allow_private =
     (let classes = (\<lambda>a. classify_upstream_address (ra_address a)) ` set addresses;
          loopback = exact_loopback_hostname (uu_hostname url) in
      ebind (throw_if (addresses = []) (PlainError ''Upstream hostname did not resolve'')) (\<lambda>_.
      ebind (throw_if (Forbidden_address \<in> classes)
               (PlainError ''Upstream URL resolved to a forbidden network target'')) (\<lambda>_.
      ebind (throw_if (Loopback_address \<in> classes \<and> \<not> loopback)
               (PlainError ''Upstream hostname must not resolve indirectly to loopback'')) (\<lambda>_.
      ebind (throw_if (loopback \<and> card classes \<noteq> 1)
               (PlainError ''Loopback upstream resolved outside loopback'')) (\<lambda>_.
      ebind (throw_if (Private_address \<in> classes \<and> \<not> allow_private)
               (PlainError ''Upstream URL resolved to an unapproved private network'')) (\<lambda>_.
      ebind (throw_if (1 < card classes)
               (PlainError ''Upstream hostname resolved across network trust classes'')) (\<lambda>_.
      Inr (addresses ! 0))))))))"

datatype network_profile = Developer | Local_personal | Private_vps | Team_self_hosted | Koed_managed_cloud

record network_target =
  nt_baseUrl :: string
  nt_profile :: "network_profile option"

text \<open>\<^verbatim>\<open>s.replace(/\/+$/, "")\<close>\<close>

definition strip_slashes :: "string \<Rightarrow> string" where
  "strip_slashes s = rev (dropWhile (\<lambda>c. c = CHR ''/'') (rev s))"

definition target_covers :: "upstream_url \<Rightarrow> upstream_url \<Rightarrow> bool" where
  "target_covers base url \<longleftrightarrow>
     (let path = strip_slashes (uu_pathname base) in
      uu_origin base = uu_origin url \<and>
      (uu_pathname url = path \<or> starts_with (path @ ''/'') (uu_pathname url)))"

text \<open>\<open>parse\<close> is \<^verbatim>\<open>new URL\<close>, which throws a \<^verbatim>\<open>TypeError\<close>.\<close>

fun registered_private_network ::
  "(string \<Rightarrow> upstream_url option) \<Rightarrow> network_target list \<Rightarrow> upstream_url \<Rightarrow> bool result" where
  "registered_private_network parse [] url = Inr False"
| "registered_private_network parse (t # ts) url =
     (if nt_profile t \<noteq> Some Private_vps \<and> nt_profile t \<noteq> Some Team_self_hosted
      then registered_private_network parse ts url
      else (case parse (nt_baseUrl t) of
              None \<Rightarrow> Inl (TypeError ''Invalid URL'')
            | Some base \<Rightarrow> if target_covers base url then Inr True else registered_private_network parse ts url))"

section \<open>The fetch\<close>

record dispatch_target =
  dt_hostname :: string
  dt_address :: string
  dt_family :: int

text \<open>\<^verbatim>\<open>hostname.replace(/^\[|\]$/g, "")\<close>\<close>

definition strip_brackets :: "string \<Rightarrow> string" where
  "strip_brackets s =
     (let t = (if s \<noteq> [] \<and> hd s = CHR 0x5B then tl s else s) in
      if t \<noteq> [] \<and> List.last t = CHR 0x5D then butlast t else t)"

definition dispatcher_key :: "dispatch_target \<Rightarrow> string" where
  "dispatcher_key t =
     json_text (\<lambda>_. [])
       (JArr [JStr (ascii_lower (dt_hostname t)), JStr (dt_address t), js_int (dt_family t)])"

text \<open>A signal may have been aborted, with a reason, before the call.\<close>

datatype fetch_signal = No_signal | Signal "js_error option"

record pending_fetch =
  pf_url :: upstream_url
  pf_signal :: bool

text \<open>The last two are ghost: the requests handed to the dispatchers, and the dispatchers that were closed.\<close>

record secure_fetch =
  sf_dispatchers :: "(string \<times> dispatch_target) list"
  sf_closed :: bool
  sf_pending :: "nat \<Rightarrow> pending_fetch option"
  sf_requests :: "(upstream_url \<times> dispatch_target) list"
  sf_ended :: "dispatch_target list"

definition create_secure_fetch :: secure_fetch where
  "create_secure_fetch =
     \<lparr> sf_dispatchers = [], sf_closed = False, sf_pending = (\<lambda>_. None), sf_requests = [], sf_ended = [] \<rparr>"

abbreviation fetch_closed :: "secure_fetch \<Rightarrow> unit result" where
  "fetch_closed s \<equiv> throw_if (sf_closed s) (PlainError ''Secure upstream fetch is closed'')"

text \<open>Up to the lookup: what is looked up.\<close>

definition fetch_hostname :: "secure_fetch \<Rightarrow> upstream_url option \<Rightarrow> fetch_signal \<Rightarrow> string result" where
  "fetch_hostname s target signal =
     ebind (fetch_closed s) (\<lambda>_.
     ebind (case target of None \<Rightarrow> Inl (TypeError ''Invalid URL'') | Some u \<Rightarrow> Inr u) (\<lambda>url.
     ebind (throw_if (uu_protocol url \<noteq> ''http:'' \<and> uu_protocol url \<noteq> ''https:'')
              (PlainError ''Upstream request must use HTTP or HTTPS'')) (\<lambda>_.
     ebind (throw_if (uu_username url \<noteq> [] \<or> uu_password url \<noteq> [])
              (PlainError ''Upstream request must not include credentials'')) (\<lambda>_.
     ebind (throw_if (uu_protocol url = ''http:'' \<and> \<not> exact_loopback_hostname (uu_hostname url))
              (PlainError ''Upstream request must use HTTPS outside loopback'')) (\<lambda>_.
     ebind (case signal of Signal (Some reason) \<Rightarrow> Inl reason | _ \<Rightarrow> Inr ()) (\<lambda>_.
     Inr (strip_brackets (uu_hostname url))))))))"

definition fetch_called :: "nat \<Rightarrow> upstream_url option \<Rightarrow> fetch_signal \<Rightarrow> secure_fetch \<Rightarrow> secure_fetch" where
  "fetch_called n target signal s =
     (case (fetch_hostname s target signal, target) of
        (Inr _, Some url) \<Rightarrow>
          s \<lparr> sf_pending := (sf_pending s)(n \<mapsto> \<lparr> pf_url = url, pf_signal = (signal \<noteq> No_signal) \<rparr>) \<rparr>
      | _ \<Rightarrow> s)"

text \<open>From the answer of the lookup: the target a request goes to.\<close>

definition fetch_target ::
  "(upstream_url \<Rightarrow> bool result) \<Rightarrow> secure_fetch \<Rightarrow> upstream_url \<Rightarrow> resolved_address list \<Rightarrow> dispatch_target result" where
  "fetch_target allow_private s url addresses =
     ebind (allow_private url) (\<lambda>allowed.
     ebind (assert_allowed_addresses url addresses allowed) (\<lambda>selected.
     ebind (fetch_closed s) (\<lambda>_.
     Inr \<lparr> dt_hostname = strip_brackets (uu_hostname url), dt_address = ra_address selected,
           dt_family = ra_family selected \<rparr>)))"

text \<open>The source hands the caller's own input to \<^verbatim>\<open>fetch\<close>, with the dispatcher chosen here; what is recorded is the
  URL parsed from that input at the call. A caller that changes a \<^verbatim>\<open>URL\<close> object while its host is resolved
  is outside the model.\<close>

definition send_request :: "upstream_url \<Rightarrow> dispatch_target \<Rightarrow> secure_fetch \<Rightarrow> secure_fetch" where
  "send_request url target s =
     (case map_of (sf_dispatchers s) (dispatcher_key target) of
        Some existing \<Rightarrow> s \<lparr> sf_requests := sf_requests s @ [(url, existing)] \<rparr>
      | None \<Rightarrow>
          s \<lparr> sf_dispatchers := sf_dispatchers s @ [(dispatcher_key target, target)],
              sf_requests := sf_requests s @ [(url, target)] \<rparr>)"

definition lookup_settled :: "nat \<Rightarrow> secure_fetch \<Rightarrow> secure_fetch" where
  "lookup_settled n s = s \<lparr> sf_pending := (sf_pending s)(n := None) \<rparr>"

definition lookup_resolved ::
  "(upstream_url \<Rightarrow> bool result) \<Rightarrow> nat \<Rightarrow> resolved_address list \<Rightarrow> secure_fetch \<Rightarrow> secure_fetch" where
  "lookup_resolved allow_private n addresses s =
     (case sf_pending s n of
        None \<Rightarrow> s
      | Some p \<Rightarrow>
          (case fetch_target allow_private s (pf_url p) addresses of
             Inl _ \<Rightarrow> lookup_settled n s
           | Inr target \<Rightarrow> send_request (pf_url p) target (lookup_settled n s)))"

definition lookup_rejected :: "nat \<Rightarrow> secure_fetch \<Rightarrow> secure_fetch" where
  "lookup_rejected n s = lookup_settled n s"

text \<open>An abort settles a lookup only if the call came with a signal and the lookup has not been settled.\<close>

definition fetch_aborted :: "nat \<Rightarrow> secure_fetch \<Rightarrow> secure_fetch" where
  "fetch_aborted n s =
     (case sf_pending s n of
        Some p \<Rightarrow> if pf_signal p then lookup_settled n s else s
      | None \<Rightarrow> s)"

definition close_secure_fetch :: "secure_fetch \<Rightarrow> secure_fetch" where
  "close_secure_fetch s =
     (if sf_closed s then s
      else s \<lparr> sf_closed := True, sf_dispatchers := [], sf_ended := map snd (sf_dispatchers s) \<rparr>)"

text \<open>The host of a URL, and the addresses a resolver gives, are ASCII texts.\<close>

definition is_ascii :: "string \<Rightarrow> bool" where
  "is_ascii s \<longleftrightarrow> list_all (\<lambda>c. of_char c < (128 :: nat)) s"

inductive fetch_step :: "(upstream_url \<Rightarrow> bool result) \<Rightarrow> secure_fetch \<Rightarrow> secure_fetch \<Rightarrow> bool" for allow where
  called:
    "sf_pending s n = None \<Longrightarrow> if_present (\<lambda>u. is_ascii (uu_hostname u)) target \<Longrightarrow>
     fetch_step allow s (fetch_called n target signal s)"
| resolved:
    "list_all (\<lambda>a. is_ascii (ra_address a) \<and> (ra_family a = 4 \<or> ra_family a = 6)) addresses \<Longrightarrow>
     fetch_step allow s (lookup_resolved allow n addresses s)"
| rejected: "fetch_step allow s (lookup_rejected n s)"
| aborted: "fetch_step allow s (fetch_aborted n s)"
| closed: "fetch_step allow s (close_secure_fetch s)"

section \<open>What a request goes to\<close>

lemma assert_allowed_facts:
  assumes "assert_allowed_addresses url addresses allow_private = Inr a"
  shows "a \<in> set addresses" "classify_upstream_address (ra_address a) \<noteq> Forbidden_address"
    "classify_upstream_address (ra_address a) = Loopback_address \<Longrightarrow> exact_loopback_hostname (uu_hostname url)"
    "classify_upstream_address (ra_address a) = Private_address \<Longrightarrow> allow_private"
    "b \<in> set addresses \<Longrightarrow> classify_upstream_address (ra_address b) = classify_upstream_address (ra_address a)"
proof -
  let ?c = "\<lambda>a. classify_upstream_address (ra_address a)"
  have n: "addresses \<noteq> []" and a: "a = addresses ! 0"
    and f: "Forbidden_address \<notin> ?c ` set addresses"
    and l: "Loopback_address \<in> ?c ` set addresses \<Longrightarrow> exact_loopback_hostname (uu_hostname url)"
    and p: "Private_address \<in> ?c ` set addresses \<Longrightarrow> allow_private"
    and one: "card (?c ` set addresses) \<le> 1"
    using assms by (auto simp: assert_allowed_addresses_def Let_def result_simps)
  show i: "a \<in> set addresses" using n a by simp
  then have c: "?c a \<in> ?c ` set addresses" by blast
  show "?c a \<noteq> Forbidden_address" using f c by auto
  show "?c a = Loopback_address \<Longrightarrow> exact_loopback_hostname (uu_hostname url)" using l c by auto
  show "?c a = Private_address \<Longrightarrow> allow_private" using p c by auto
  show "?c b = ?c a" if "b \<in> set addresses"
  proof -
    have "?c b \<in> ?c ` set addresses" using that by blast
    moreover have "finite (?c ` set addresses)" by simp
    ultimately show ?thesis using card_le_Suc0_iff_eq one c by (metis One_nat_def)
  qed
qed

lemma ascii_utf8: "is_ascii s \<Longrightarrow> utf8_ok s"
  by (rule utf8_ok_ascii) (simp add: is_ascii_def)

lemma ascii_lower_ascii: "is_ascii s \<Longrightarrow> is_ascii (ascii_lower s)"
proof -
  have "(of_char (char_of (of_char c + 32 :: nat) :: char) :: nat) < 128" if "is_upper c" for c
    using that by (simp add: is_upper_def less_eq_char_def)
  then show "is_ascii s \<Longrightarrow> is_ascii (ascii_lower s)" by (auto simp: is_ascii_def ascii_lower_def list_all_iff)
qed

lemma strip_brackets_ascii: "is_ascii s \<Longrightarrow> is_ascii (strip_brackets s)"
  by (auto simp: is_ascii_def strip_brackets_def Let_def list_all_iff dest: in_set_butlastD list.set_sel(2))

definition target_ok :: "dispatch_target \<Rightarrow> bool" where
  "target_ok t \<longleftrightarrow> is_ascii (dt_hostname t) \<and> is_ascii (dt_address t) \<and> (dt_family t = 4 \<or> dt_family t = 6)"

text \<open>A key says which host, address and family a dispatcher is bound to.\<close>

lemma dispatcher_key_inj:
  assumes "target_ok t" "target_ok u" "dispatcher_key t = dispatcher_key u"
  shows "dt_address t = dt_address u" "dt_family t = dt_family u"
    "ascii_lower (dt_hostname t) = ascii_lower (dt_hostname u)"
proof -
  let ?v = "\<lambda>t. JArr [JStr (ascii_lower (dt_hostname t)), JStr (dt_address t), js_int (dt_family t)]"
  have "json_parse (dispatcher_key t @ []) = Some (?v t)" if "target_ok t" for t
    unfolding dispatcher_key_def
    by (rule json_text_parses)
      (use that in \<open>auto simp: target_ok_def js_int_def max_safe_integer_def ascii_lower_ascii ascii_utf8 skip_ws_def\<close>)
  from this[OF assms(1)] this[OF assms(2)] have "?v t = ?v u" using assms(3) by simp
  then show "dt_address t = dt_address u" "dt_family t = dt_family u"
    "ascii_lower (dt_hostname t) = ascii_lower (dt_hostname u)" by (auto simp: js_int_def)
qed

definition url_ok :: "upstream_url \<Rightarrow> bool" where
  "url_ok u \<longleftrightarrow>
     is_ascii (uu_hostname u) \<and> uu_username u = [] \<and> uu_password u = [] \<and>
     (uu_protocol u = ''https:'' \<or> uu_protocol u = ''http:'' \<and> exact_loopback_hostname (uu_hostname u))"

definition request_ok :: "(upstream_url \<Rightarrow> bool result) \<Rightarrow> upstream_url \<Rightarrow> dispatch_target \<Rightarrow> bool" where
  "request_ok allow u t \<longleftrightarrow>
     url_ok u \<and> ascii_lower (dt_hostname t) = ascii_lower (strip_brackets (uu_hostname u)) \<and>
     (case classify_upstream_address (dt_address t) of
        Public_address \<Rightarrow> True
      | Private_address \<Rightarrow> allow u = Inr True
      | Loopback_address \<Rightarrow> exact_loopback_hostname (uu_hostname u)
      | Forbidden_address \<Rightarrow> False)"

definition fetch_ok :: "(upstream_url \<Rightarrow> bool result) \<Rightarrow> secure_fetch \<Rightarrow> bool" where
  "fetch_ok allow s \<longleftrightarrow>
     (\<forall>n p. sf_pending s n = Some p \<longrightarrow> url_ok (pf_url p)) \<and>
     (\<forall>k t. (k, t) \<in> set (sf_dispatchers s) \<longrightarrow> k = dispatcher_key t \<and> target_ok t) \<and>
     (\<forall>u t. (u, t) \<in> set (sf_requests s) \<longrightarrow>
        request_ok allow u t \<and> t \<in> snd ` set (sf_dispatchers s) \<union> set (sf_ended s)) \<and>
     (if sf_closed s then sf_dispatchers s = [] else sf_ended s = [])"

lemma fetch_target_ok:
  assumes "fetch_target allow s u addresses = Inr t" "url_ok u"
    and "list_all (\<lambda>a. is_ascii (ra_address a) \<and> (ra_family a = 4 \<or> ra_family a = 6)) addresses"
  shows "request_ok allow u t" "target_ok t" "\<not> sf_closed s"
proof -
  obtain allowed a where a: "allow u = Inr allowed" "assert_allowed_addresses u addresses allowed = Inr a"
    "\<not> sf_closed s" and t: "t = \<lparr> dt_hostname = strip_brackets (uu_hostname u), dt_address = ra_address a,
      dt_family = ra_family a \<rparr>"
    using assms(1) by (auto simp: fetch_target_def result_simps)
  note f = assert_allowed_facts[OF a(2)]
  show "request_ok allow u t" using f a t assms(2)
    by (cases "classify_upstream_address (ra_address a)") (auto simp: request_ok_def)
  show "target_ok t" using f(1) t assms(2,3)
    by (auto simp: target_ok_def url_ok_def list_all_iff strip_brackets_ascii)
  show "\<not> sf_closed s" by (rule a(3))
qed

lemma request_ok_same:
  assumes "request_ok allow u t" "dt_address e = dt_address t" "ascii_lower (dt_hostname e) = ascii_lower (dt_hostname t)"
  shows "request_ok allow u e"
  using assms by (simp add: request_ok_def)

lemma send_request_ok:
  assumes "fetch_ok allow s" "request_ok allow u t" "target_ok t" "\<not> sf_closed s"
  shows "fetch_ok allow (send_request u t s)"
proof (cases "map_of (sf_dispatchers s) (dispatcher_key t)")
  case None
  then show ?thesis using assms by (auto simp: fetch_ok_def send_request_def)
next
  case (Some e)
  then have "(dispatcher_key t, e) \<in> set (sf_dispatchers s)" by (rule map_of_SomeD)
  then have e: "dispatcher_key t = dispatcher_key e" "target_ok e" using assms(1) by (auto simp: fetch_ok_def)
  then have "request_ok allow u e"
    using request_ok_same[OF assms(2)] dispatcher_key_inj[OF assms(3) e(2,1)] by simp
  moreover have "e \<in> snd ` set (sf_dispatchers s)"
    using \<open>(dispatcher_key t, e) \<in> set (sf_dispatchers s)\<close> by force
  ultimately show ?thesis using assms(1) Some by (auto simp: fetch_ok_def send_request_def)
qed

lemma lookup_settled_ok: "fetch_ok allow s \<Longrightarrow> fetch_ok allow (lookup_settled n s)"
  by (simp add: fetch_ok_def lookup_settled_def)

lemma fetch_step_ok: "fetch_step allow s u \<Longrightarrow> fetch_ok allow s \<Longrightarrow> fetch_ok allow u"
proof (induction rule: fetch_step.induct)
  case (called s n target signal)
  have "url_ok url" if "fetch_hostname s (Some url) signal = Inr h" "target = Some url" for url h
    using that called(2) by (auto simp: fetch_hostname_def url_ok_def result_simps)
  then show ?case using called(3)
    by (auto simp: fetch_called_def fetch_ok_def split: sum.splits option.splits)
next
  case (resolved addresses s n)
  show ?case
  proof (cases "sf_pending s n")
    case (Some p)
    then have p: "url_ok (pf_url p)" using resolved(2) by (simp add: fetch_ok_def)
    show ?thesis
    proof (cases "fetch_target allow s (pf_url p) addresses")
      case (Inr t)
      show ?thesis
        using send_request_ok[OF lookup_settled_ok[OF resolved(2)], of "pf_url p" t n]
          fetch_target_ok[OF Inr p resolved(1)] Some Inr
        by (simp add: lookup_resolved_def) (simp add: lookup_settled_def)
    qed (use Some resolved lookup_settled_ok in \<open>simp add: lookup_resolved_def\<close>)
  qed (use resolved in \<open>simp add: lookup_resolved_def\<close>)
next
  case (rejected s n)
  then show ?case by (simp add: lookup_rejected_def lookup_settled_ok)
next
  case (aborted s n)
  then show ?case by (auto simp: fetch_aborted_def lookup_settled_ok split: option.splits)
next
  case (closed s)
  then show ?case by (auto simp: close_secure_fetch_def fetch_ok_def)
qed

interpretation fetching: invariant_machine "fetch_step allow" "\<lambda>s. s = create_secure_fetch" "fetch_ok allow" for allow
  by unfold_locales (auto simp: fetch_step_ok, simp add: create_secure_fetch_def fetch_ok_def)

lemma closed_step: "fetch_step allow s u \<Longrightarrow> sf_closed s \<Longrightarrow>
    sf_closed u \<and> sf_requests u = sf_requests s \<and> sf_ended u = sf_ended s"
proof (induction rule: fetch_step.induct)
  case (resolved addresses s n)
  have "fetch_target allow s u addresses \<noteq> Inr t" for u t
    using resolved(2) by (auto simp: fetch_target_def result_simps)
  then show ?case using resolved(2)
    by (auto simp: lookup_resolved_def lookup_settled_def split: option.splits sum.splits)
qed (auto simp: fetch_called_def fetch_hostname_def lookup_rejected_def lookup_settled_def fetch_aborted_def
    close_secure_fetch_def result_simps split: option.splits sum.splits)

lemma closed_steps: "(fetch_step allow)\<^sup>*\<^sup>* s u \<Longrightarrow> sf_closed s \<Longrightarrow>
    sf_closed u \<and> sf_requests u = sf_requests s \<and> sf_ended u = sf_ended s"
  by (induction rule: rtranclp_induct) (auto dest: closed_step)

abbreviation fetch_reach :: "(upstream_url \<Rightarrow> bool result) \<Rightarrow> secure_fetch \<Rightarrow> bool" where
  "fetch_reach allow s \<equiv> (fetch_step allow)\<^sup>*\<^sup>* create_secure_fetch s"

section \<open>What is proved of it\<close>

text \<open>C27. Whatever calls, answers of the resolver, aborts and closings interleave, a request is handed on only
  over HTTPS, or HTTP for a loopback host name, without credentials, and through a dispatcher that is bound to
  the host of its URL and to an address that is not of a forbidden network, that is a loopback address only for a
  loopback host name, and that is private only if the policy allows the URL.\<close>

theorem upstream_requests_are_guarded:
  assumes "fetch_reach allow s" "(u, t) \<in> set (sf_requests s)"
  shows "(uu_protocol u = ''https:'' \<or> uu_protocol u = ''http:'' \<and> exact_loopback_hostname (uu_hostname u)) \<and>
    uu_username u = [] \<and> uu_password u = [] \<and>
    ascii_lower (dt_hostname t) = ascii_lower (strip_brackets (uu_hostname u)) \<and>
    (case classify_upstream_address (dt_address t) of
       Public_address \<Rightarrow> True
     | Private_address \<Rightarrow> allow u = Inr True
     | Loopback_address \<Rightarrow> exact_loopback_hostname (uu_hostname u)
     | Forbidden_address \<Rightarrow> False)"
proof -
  have "request_ok allow u t" using fetching.reach_inv[OF refl assms(1)] assms(2) by (simp add: fetch_ok_def)
  then show ?thesis by (simp add: request_ok_def url_ok_def)
qed

definition example_url :: "string \<Rightarrow> string \<Rightarrow> upstream_url" where
  "example_url protocol hostname =
     \<lparr> uu_protocol = protocol, uu_username = [], uu_password = [], uu_hostname = hostname,
       uu_origin = protocol @ ''//'' @ hostname, uu_pathname = ''/'' \<rparr>"

text \<open>A call for a URL and the answer of the resolver to it.\<close>

definition fetch_once :: "upstream_url \<Rightarrow> string \<Rightarrow> secure_fetch" where
  "fetch_once u address =
     lookup_resolved (\<lambda>_. Inr False) 0 [\<lparr> ra_address = address, ra_family = 4 \<rparr>]
       (fetch_called 0 (Some u) No_signal create_secure_fetch)"

lemma fetch_once_reached:
  "is_ascii (uu_hostname u) \<Longrightarrow> is_ascii address \<Longrightarrow> fetch_reach (\<lambda>_. Inr False) (fetch_once u address)"
proof -
  assume a: "is_ascii (uu_hostname u)" "is_ascii address"
  let ?s = "fetch_called 0 (Some u) No_signal create_secure_fetch"
  have "fetch_step (\<lambda>_. Inr False) create_secure_fetch ?s"
    by (rule fetch_step.called) (simp_all add: create_secure_fetch_def a)
  moreover have "fetch_step (\<lambda>_. Inr False) ?s (fetch_once u address)"
    unfolding fetch_once_def by (rule fetch_step.resolved) (simp add: a)
  ultimately show ?thesis by (meson converse_rtranclp_into_rtranclp rtranclp.rtrancl_refl)
qed

lemma fetch_once_examples:
  "is_ascii ''koed.example''" "is_ascii ''localhost''" "is_ascii ''8.8.8.8''"
  "sf_requests (fetch_once (example_url ''https:'' ''koed.example'') ''8.8.8.8'') =
     [(example_url ''https:'' ''koed.example'', \<lparr> dt_hostname = ''koed.example'', dt_address = ''8.8.8.8'', dt_family = 4 \<rparr>)]"
  "sf_requests (fetch_once (example_url ''http:'' ''localhost'') ''8.8.8.8'') =
     [(example_url ''http:'' ''localhost'', \<lparr> dt_hostname = ''localhost'', dt_address = ''8.8.8.8'', dt_family = 4 \<rparr>)]"
  by code_simp+

theorem upstream_requests_are_guarded_witness:
  "ascii_lower ''koed.example'' = ascii_lower (strip_brackets ''koed.example'')"
proof -
  let ?u = "example_url ''https:'' ''koed.example''"
  have "fetch_reach (\<lambda>_. Inr False) (fetch_once ?u ''8.8.8.8'')"
    by (rule fetch_once_reached) (simp_all add: example_url_def fetch_once_examples)
  from upstream_requests_are_guarded[OF this, of ?u
      "\<lparr> dt_hostname = ''koed.example'', dt_address = ''8.8.8.8'', dt_family = 4 \<rparr>"]
  show ?thesis by (simp add: fetch_once_examples) (simp add: example_url_def)
qed

text \<open>Closing ends every dispatcher a request was handed to, and after it no request is handed on, not even
  one whose lookup was under way.\<close>

theorem closed_fetch_is_over:
  assumes "fetch_reach allow s" "sf_closed s" "(fetch_step allow)\<^sup>*\<^sup>* s v"
  shows "sf_requests v = sf_requests s \<and> snd ` set (sf_requests v) \<subseteq> set (sf_ended v) \<and> sf_dispatchers v = []"
proof -
  have "fetch_ok allow v" using fetching.reach_inv[OF refl] assms(1,3) by (meson rtranclp_trans)
  moreover have "sf_closed v" "sf_requests v = sf_requests s" using closed_steps[OF assms(3,2)] by auto
  ultimately show ?thesis by (auto simp: fetch_ok_def)
qed

theorem closed_fetch_is_over_witness:
  "sf_dispatchers (close_secure_fetch (fetch_once (example_url ''https:'' ''koed.example'') ''8.8.8.8'')) = []"
proof -
  let ?s = "fetch_once (example_url ''https:'' ''koed.example'') ''8.8.8.8''"
  have "fetch_reach (\<lambda>_. Inr False) ?s"
    by (rule fetch_once_reached) (simp_all add: example_url_def fetch_once_examples)
  then have "fetch_reach (\<lambda>_. Inr False) (close_secure_fetch ?s)"
    using fetch_step.closed by (rule rtranclp.rtrancl_into_rtrancl)
  moreover have "sf_closed (close_secure_fetch ?s)" by (simp add: close_secure_fetch_def)
  ultimately show ?thesis using closed_fetch_is_over[OF _ _ rtranclp.rtrancl_refl] by blast
qed

text \<open>A loopback host name for which the resolver gives public addresses only is not refused: the request
  goes to the public address, in clear.\<close>

theorem loopback_name_leaves_loopback:
  "\<exists>s u t. fetch_reach (\<lambda>_. Inr False) s \<and> (u, t) \<in> set (sf_requests s) \<and> uu_protocol u = ''http:'' \<and>
     uu_hostname u = ''localhost'' \<and> classify_upstream_address (dt_address t) = Public_address"
proof -
  let ?u = "example_url ''http:'' ''localhost''"
  have "fetch_reach (\<lambda>_. Inr False) (fetch_once ?u ''8.8.8.8'')"
    by (rule fetch_once_reached) (simp_all add: example_url_def fetch_once_examples)
  moreover have "classify_upstream_address ''8.8.8.8'' = Public_address" by code_simp
  ultimately show ?thesis
    by (intro exI[of _ "fetch_once ?u ''8.8.8.8''"] exI[of _ ?u]
        exI[of _ "\<lparr> dt_hostname = ''localhost'', dt_address = ''8.8.8.8'', dt_family = 4 \<rparr>"])
      (simp add: fetch_once_examples, simp add: example_url_def)
qed

end
