(* ===== verification/Portable_Client.thy ===== *)
theory Portable_Client
  imports Json_Text Protocol_Fields Secure_Fetch "HOL-Library.AList"
begin

text \<open>
  The portable client foundation, \<^verbatim>\<open>packages/shared/src/client-foundation.ts\<close>: its schemas, the registry of
  backends, and the store of drafts. (\<open>View_Cache\<close> has its cache, \<open>Client_Outbox\<close> its outbox.) A schema is
  read as a parser that returns the trimmed value or throws; the URL parser and the schema library's pattern of
  times are parameters. The secure store is a map.
\<close>

section \<open>Schemas\<close>

abbreviation schema_error :: js_error where
  "schema_error \<equiv> PlainError ''ZodError''"

text \<open>\<^verbatim>\<open>z.object({...}).strict()\<close>: no other members.\<close>

definition strict_members :: "string list \<Rightarrow> js_value \<Rightarrow> members option" where
  "strict_members names v =
     (case v of JObj kvs \<Rightarrow> if set (map fst kvs) \<subseteq> set names then Some kvs else None | _ \<Rightarrow> None)"

text \<open>\<^verbatim>\<open>z.string().trim().min(lo).max(hi)\<close> and \<^verbatim>\<open>z.string().min(lo).max(hi)\<close>\<close>

definition trimmed_text :: "nat \<Rightarrow> nat \<Rightarrow> js_value \<Rightarrow> string option" where
  "trimmed_text lo hi v =
     (case v of
        JStr s \<Rightarrow> let t = js_trim s in if lo \<le> js_length t \<and> js_length t \<le> hi then Some t else None
      | _ \<Rightarrow> None)"

definition sized_text :: "nat \<Rightarrow> nat \<Rightarrow> js_value \<Rightarrow> string option" where
  "sized_text lo hi v =
     (case v of JStr s \<Rightarrow> if lo \<le> js_length s \<and> js_length s \<le> hi then Some s else None | _ \<Rightarrow> None)"

definition text_such :: "(string \<Rightarrow> bool) \<Rightarrow> js_value \<Rightarrow> string option" where
  "text_such P v = (case v of JStr s \<Rightarrow> if P s then Some s else None | _ \<Rightarrow> None)"

text \<open>\<^verbatim>\<open>portableClientAuthoritySchema\<close>\<close>

record client_authority =
  ca_backendId :: string
  ca_principalId :: string
  ca_credentialReference :: string
  ca_credentialGeneration :: int
  ca_authorityGeneration :: int

definition parse_authority :: "js_value \<Rightarrow> client_authority result" where
  "parse_authority v =
     (case strict_members [''backendId'', ''principalId'', ''credentialReference'', ''credentialGeneration'',
             ''authorityGeneration''] v of
        None \<Rightarrow> Inl schema_error
      | Some kvs \<Rightarrow>
          (case (trimmed_text 1 160 (fld kvs ''backendId''), trimmed_text 1 160 (fld kvs ''principalId''),
                 trimmed_text 1 240 (fld kvs ''credentialReference''),
                 safe_integer 1 (fld kvs ''credentialGeneration''), safe_integer 1 (fld kvs ''authorityGeneration'')) of
             (Some b, Some p, Some c, Some g, Some a) \<Rightarrow>
               Inr \<lparr> ca_backendId = b, ca_principalId = p, ca_credentialReference = c,
                     ca_credentialGeneration = g, ca_authorityGeneration = a \<rparr>
           | _ \<Rightarrow> Inl schema_error))"

text \<open>\<^verbatim>\<open>encodeURIComponent\<close>, which throws a \<^verbatim>\<open>URIError\<close> for a lone surrogate.\<close>

definition is_unreserved :: "char \<Rightarrow> bool" where
  "is_unreserved c \<longleftrightarrow> is_upper c \<or> is_lower c \<or> is_digit c \<or> c \<in> set ''-_.!~*()'' \<or> c = CHR 0x27"

definition hex_upper :: "nat \<Rightarrow> char" where
  "hex_upper n = char_of (if n < 10 then n + 48 else n + 55)"

definition encode_byte :: "char \<Rightarrow> string" where
  "encode_byte c =
     (if is_unreserved c then [c]
      else [CHR 0x25, hex_upper (of_char c div 16), hex_upper (of_char c mod 16)])"

definition encode_uri_component :: "string \<Rightarrow> string result" where
  "encode_uri_component s = (if surrogate_free s then Inr (concat (map encode_byte s)) else Inl (PlainError ''URI malformed''))"

definition authority_key :: "client_authority \<Rightarrow> string result" where
  "authority_key a =
     ebind (emap encode_uri_component
              [ca_backendId a, ca_principalId a, decimal (nat (ca_credentialGeneration a)),
               decimal (nat (ca_authorityGeneration a))])
       (\<lambda>parts. Inr (join_with CHR '':'' parts))"

section \<open>The registry of backends\<close>

record client_backend =
  cb_id :: string
  cb_displayName :: string
  cb_baseUrl :: string
  cb_profile :: network_profile
  cb_capabilitySchemaVersion :: int
  cb_bindingGeneration :: int

definition profile_of :: "js_value \<Rightarrow> network_profile option" where
  "profile_of v =
     (if v = JStr ''developer'' then Some Developer
      else if v = JStr ''local_personal'' then Some Local_personal
      else if v = JStr ''private_vps'' then Some Private_vps
      else if v = JStr ''team_self_hosted'' then Some Team_self_hosted
      else if v = JStr ''koed_managed_cloud'' then Some Koed_managed_cloud
      else None)"

text \<open>\<open>parse_url\<close> gives a URL, with whether it has a query and whether it has a fragment, if the schema library's
  URL check and \<^verbatim>\<open>new URL\<close> accept the text.\<close>

type_synonym url_parser = "string \<Rightarrow> (upstream_url \<times> bool \<times> bool) option"

definition backend_url_ok :: "url_parser \<Rightarrow> string \<Rightarrow> bool" where
  "backend_url_ok parse_url s =
     (case parse_url s of
        None \<Rightarrow> False
      | Some (url, search, hash) \<Rightarrow>
          uu_username url = [] \<and> uu_password url = [] \<and> \<not> search \<and> \<not> hash \<and>
          (uu_protocol url = ''https:'' \<or>
           uu_protocol url = ''http:'' \<and> uu_hostname url \<in> {''localhost'', ''127.0.0.1'', ''[::1]''}))"

definition parse_backend :: "url_parser \<Rightarrow> js_value \<Rightarrow> client_backend result" where
  "parse_backend parse_url v =
     (case strict_members [''id'', ''displayName'', ''baseUrl'', ''profile'', ''capabilitySchemaVersion'',
             ''bindingGeneration''] v of
        None \<Rightarrow> Inl schema_error
      | Some kvs \<Rightarrow>
          (case (trimmed_text 1 160 (fld kvs ''id''), trimmed_text 1 160 (fld kvs ''displayName''),
                 text_such (backend_url_ok parse_url) (fld kvs ''baseUrl''), profile_of (fld kvs ''profile''),
                 safe_integer 1 (fld kvs ''capabilitySchemaVersion''), safe_integer 1 (fld kvs ''bindingGeneration'')) of
             (Some i, Some d, Some u, Some p, Some c, Some g) \<Rightarrow>
               Inr \<lparr> cb_id = i, cb_displayName = d, cb_baseUrl = u, cb_profile = p,
                     cb_capabilitySchemaVersion = c, cb_bindingGeneration = g \<rparr>
           | _ \<Rightarrow> Inl schema_error))"

record backend_registry =
  br_backends :: "(string \<times> client_backend) list"
  br_activeId :: "string option"

definition new_registry :: backend_registry where
  "new_registry = \<lparr> br_backends = [], br_activeId = None \<rparr>"

definition replace_backends ::
  "url_parser \<Rightarrow> js_value list \<Rightarrow> string option \<Rightarrow> backend_registry result" where
  "replace_backends parse_url backends activeId =
     ebind (emap (parse_backend parse_url) backends) (\<lambda>parsed.
     ebind (throw_if (length (remdups (map cb_id parsed)) \<noteq> length parsed)
              (TypeError ''Portable client backend IDs must be unique'')) (\<lambda>_.
     ebind (throw_if (\<not> if_present (\<lambda>i. i \<in> cb_id ` set parsed) activeId)
              (TypeError ''Portable client active backend is unavailable'')) (\<lambda>_.
     Inr \<lparr> br_backends = map (\<lambda>b. (cb_id b, b)) parsed, br_activeId = activeId \<rparr>)))"

text \<open>A call of \<^verbatim>\<open>replace\<close> that throws leaves the registry.\<close>

definition registry_replace ::
  "url_parser \<Rightarrow> js_value list \<Rightarrow> string option \<Rightarrow> backend_registry \<Rightarrow> backend_registry" where
  "registry_replace parse_url backends activeId r =
     (case replace_backends parse_url backends activeId of Inl _ \<Rightarrow> r | Inr r' \<Rightarrow> r')"

definition active_backend :: "backend_registry \<Rightarrow> client_backend option" where
  "active_backend r =
     (case br_activeId r of
        None \<Rightarrow> None
      | Some i \<Rightarrow> if i = [] then None else map_of (br_backends r) i)"

definition list_backends :: "backend_registry \<Rightarrow> client_backend list" where
  "list_backends r = map snd (br_backends r)"

section \<open>Drafts\<close>

type_synonym secure_store = "string \<Rightarrow> string option"

text \<open>\<open>dp_is_datetime\<close> is the schema library's pattern of \<^verbatim>\<open>z.iso.datetime({ offset: true })\<close>.\<close>

record draft_policy =
  dp_namespace :: string
  dp_maximumUtf8Bytes :: int
  dp_is_datetime :: "string \<Rightarrow> bool"

definition namespace_ok :: "string \<Rightarrow> bool" where
  "namespace_ok s \<longleftrightarrow>
     s \<noteq> [] \<and> length s \<le> 80 \<and>
     list_all (\<lambda>c. is_upper c \<or> is_lower c \<or> is_digit c \<or> c \<in> {CHR ''.'', CHR ''_'', CHR ''-''}) s"

definition draft_policy_of :: "string \<Rightarrow> js_value \<Rightarrow> (string \<Rightarrow> bool) \<Rightarrow> draft_policy result" where
  "draft_policy_of namespace maximum is_datetime =
     (case safe_integer 1 maximum of
        Some n \<Rightarrow>
          if namespace_ok namespace
          then Inr \<lparr> dp_namespace = namespace, dp_maximumUtf8Bytes = n, dp_is_datetime = is_datetime \<rparr>
          else Inl (TypeError ''Portable client draft policy is invalid'')
      | None \<Rightarrow> Inl (TypeError ''Portable client draft policy is invalid''))"

record draft_record =
  dr_authorityKey :: string
  dr_scope :: string
  dr_value :: string
  dr_updatedAt :: string

definition parse_draft :: "draft_policy \<Rightarrow> js_value \<Rightarrow> draft_record result" where
  "parse_draft dp v =
     (case strict_members [''version'', ''authorityKey'', ''scope'', ''value'', ''updatedAt''] v of
        None \<Rightarrow> Inl schema_error
      | Some kvs \<Rightarrow>
          (case (sized_text 1 1024 (fld kvs ''authorityKey''), trimmed_text 1 512 (fld kvs ''scope''),
                 sized_text 0 262144 (fld kvs ''value''), text_such (dp_is_datetime dp) (fld kvs ''updatedAt'')) of
             (Some k, Some s, Some t, Some u) \<Rightarrow>
               if fld kvs ''version'' = js_int 1
               then Inr \<lparr> dr_authorityKey = k, dr_scope = s, dr_value = t, dr_updatedAt = u \<rparr>
               else Inl schema_error
           | _ \<Rightarrow> Inl schema_error))"

definition draft_value :: "draft_record \<Rightarrow> js_value" where
  "draft_value r =
     JObj [(''version'', js_int 1), (''authorityKey'', JStr (dr_authorityKey r)), (''scope'', JStr (dr_scope r)),
       (''value'', JStr (dr_value r)), (''updatedAt'', JStr (dr_updatedAt r))]"

definition draft_key :: "draft_policy \<Rightarrow> client_authority \<Rightarrow> string \<Rightarrow> string result" where
  "draft_key dp a scope =
     ebind (throw_if (js_trim scope = [] \<or> 512 < js_length scope \<or>
                      list_ex (\<lambda>c. c \<in> {CHR 0x0D, CHR 0x0A, CHR 0x00}) scope)
              (TypeError ''Portable client draft scope is invalid'')) (\<lambda>_.
     ebind (authority_key a) (\<lambda>k.
     ebind (encode_uri_component scope) (\<lambda>s.
     Inr (dp_namespace dp @ CHR '':'' # k @ CHR '':'' # s))))"

definition json_parse_or_throw :: "string \<Rightarrow> js_value result" where
  "json_parse_or_throw t = (case json_parse t of None \<Rightarrow> Inl (SyntaxError ''JSON'') | Some v \<Rightarrow> Inr v)"

definition read_draft :: "draft_policy \<Rightarrow> js_value \<Rightarrow> string \<Rightarrow> secure_store \<Rightarrow> string result" where
  "read_draft dp authority scope store =
     ebind (parse_authority authority) (\<lambda>a.
     ebind (draft_key dp a scope) (\<lambda>key.
     (case store key of
        None \<Rightarrow> Inr []
      | Some t \<Rightarrow>
          ebind (json_parse_or_throw t) (\<lambda>v.
          ebind (parse_draft dp v) (\<lambda>r.
          ebind (authority_key a) (\<lambda>k.
          ebind (throw_if (dr_authorityKey r \<noteq> k \<or> dr_scope r \<noteq> scope)
                   (PlainError ''Portable client draft authority is stale'')) (\<lambda>_.
          Inr (dr_value r))))))))"

text \<open>The bytes of a text, where a surrogate of its own counts three.\<close>

definition write_draft ::
  "draft_policy \<Rightarrow> js_value \<Rightarrow> string \<Rightarrow> string \<Rightarrow> string \<Rightarrow> secure_store \<Rightarrow> secure_store result" where
  "write_draft dp authority scope value now store =
     ebind (parse_authority authority) (\<lambda>a.
     ebind (throw_if (dp_maximumUtf8Bytes dp < int (length value)) (TypeError ''Portable client draft is too large'')) (\<lambda>_.
     ebind (draft_key dp a scope) (\<lambda>key.
     if value = [] then Inr (store(key := None))
     else
       ebind (authority_key a) (\<lambda>k.
       ebind (parse_draft dp (draft_value \<lparr> dr_authorityKey = k, dr_scope = scope, dr_value = value, dr_updatedAt = now \<rparr>)) (\<lambda>r.
       Inr (store(key \<mapsto> json_text (\<lambda>_. []) (draft_value r))))))))"

definition delete_draft :: "draft_policy \<Rightarrow> js_value \<Rightarrow> string \<Rightarrow> secure_store \<Rightarrow> secure_store result" where
  "delete_draft dp authority scope store =
     ebind (parse_authority authority) (\<lambda>a.
     ebind (draft_key dp a scope) (\<lambda>key.
     Inr (store(key := None))))"

section \<open>Notifications\<close>

text \<open>\<^verbatim>\<open>portableClientNotificationSchema\<close>\<close>

definition parse_notification :: "(string \<Rightarrow> bool) \<Rightarrow> js_value \<Rightarrow> js_value result" where
  "parse_notification is_datetime v =
     (case strict_members [''version'', ''backendId'', ''principalId'', ''eventId'', ''resourceKind'', ''resourceId'',
             ''badgeDelta'', ''occurredAt''] v of
        None \<Rightarrow> Inl schema_error
      | Some kvs \<Rightarrow>
          (case (trimmed_text 1 160 (fld kvs ''backendId''), trimmed_text 1 160 (fld kvs ''principalId''),
                 trimmed_text 1 240 (fld kvs ''eventId''), trimmed_text 1 240 (fld kvs ''resourceId''),
                 safe_integer 0 (fld kvs ''badgeDelta''), text_such is_datetime (fld kvs ''occurredAt''),
                 text_such (\<lambda>s. s \<in> {''conversation'', ''thread'', ''approval'', ''mention'', ''sync''})
                   (fld kvs ''resourceKind'')) of
             (Some b, Some p, Some e, Some r, Some n, Some t, Some k) \<Rightarrow>
               if fld kvs ''version'' = js_int 1 \<and> n \<le> 1000
               then Inr (JObj [(''version'', js_int 1), (''backendId'', JStr b), (''principalId'', JStr p),
                           (''eventId'', JStr e), (''resourceKind'', JStr k), (''resourceId'', JStr r),
                           (''badgeDelta'', js_int n), (''occurredAt'', JStr t)])
               else Inl schema_error
           | _ \<Rightarrow> Inl schema_error))"

section \<open>Trimming keeps a text valid\<close>

lemma trim_from_keeps:
  assumes "\<And>w t. w \<in> set ws \<Longrightarrow> P (w @ t) \<Longrightarrow> P t"
  shows "P (drop n s) \<Longrightarrow> P (trim_from ws n s)"
  using assms
proof (induction ws n s rule: trim_from.induct)
  case (3 ws c s)
  show ?case
  proof (cases "ws_prefix ws (c # s)")
    case 0
    then show ?thesis using 3 by simp
  next
    case (Suc k)
    then obtain w us where "filter (\<lambda>w. take (length w) (c # s) = w) ws = w # us" "length w = Suc k"
      by (auto simp: ws_prefix_def split: list.splits)
    then have w: "w \<in> set ws" "take (length w) (c # s) = w"
      by (auto simp: filter_eq_Cons_iff)
    then have "c # s = w @ drop k s" using \<open>length w = Suc k\<close> by (metis append_take_drop_id drop_Suc_Cons)
    then have "P (drop k s)" using 3(2) 3(3)[OF w(1)] by (metis drop0)
    then show ?thesis using 3(1)[OF Suc] 3(3) Suc by simp
  qed
qed simp_all

lemma utf8_from_skip: "utf8_from e w \<Longrightarrow> utf8_from e (w @ t) = utf8_from [] t"
  by (induction e w rule: utf8_from.induct) (auto split: option.splits)

lemma utf8_tail_conts: "utf8_tail c = Some e \<Longrightarrow> list_all (\<lambda>p. \<forall>d. p d \<longrightarrow> is_cont d) e"
  by (auto simp: utf8_tail_def byte_in_def split: if_splits)

lemma utf8_from_before:
  "utf8_from e (t @ c # w) \<Longrightarrow> \<not> is_cont c \<Longrightarrow> list_all (\<lambda>p. \<forall>d. p d \<longrightarrow> is_cont d) e \<Longrightarrow> utf8_from e t"
proof (induction e t rule: utf8_from.induct)
  case (1 e)
  then show ?case by (cases e) auto
next
  case (3 d s)
  then show ?case by (auto dest: utf8_tail_conts split: option.splits)
qed auto

lemma ws_chars_utf8: "list_all (\<lambda>w. utf8_ok w \<and> w \<noteq> [] \<and> \<not> is_cont (hd w)) ws_chars"
  by code_simp

lemma utf8_ok_trim: "utf8_ok s \<Longrightarrow> utf8_ok (js_trim s)"
proof -
  assume s: "utf8_ok s"
  have w: "utf8_ok w \<and> (\<exists>c v. w = c # v \<and> \<not> is_cont c)" if "w \<in> set ws_chars" for w
    using ws_chars_utf8 that by (cases w) (auto simp: list_all_iff)
  have front: "utf8_ok t" if "w \<in> set ws_chars" "utf8_ok (w @ t)" for w t
    using w[OF that(1)] that(2) utf8_from_skip by (auto simp: utf8_ok_def)
  have rear: "utf8_ok (rev t)" if "v \<in> set (map rev ws_chars)" "utf8_ok (rev (v @ t))" for v t
    using w that utf8_from_before[of "[]" "rev t"] by (fastforce simp: utf8_ok_def)
  have "utf8_ok (trim_from ws_chars 0 s)"
    by (rule trim_from_keeps[of ws_chars utf8_ok 0 s]) (use front s in auto)
  then have "utf8_ok (rev (trim_from (map rev ws_chars) 0 (rev (trim_from ws_chars 0 s))))"
    using trim_from_keeps[of "map rev ws_chars" "\<lambda>u. utf8_ok (rev u)" 0] rear by auto
  then show ?thesis by (simp add: js_trim_def)
qed

section \<open>Keys\<close>

lemma split_join: "ps \<noteq> [] \<Longrightarrow> \<forall>p \<in> set ps. c \<notin> set p \<Longrightarrow> split_on c (join_with c ps) = ps"
  by (induction c ps rule: join_with.induct) (simp_all add: split_on_append split_on_none)

lemma high_nibble: "(of_char c :: nat) div 16 < 16"
  by (rule less_mult_imp_div_less) simp

lemma encode_byte_no_colon: "CHR '':'' \<notin> set (encode_byte c)"
proof -
  have "hex_upper n \<noteq> CHR '':''" if "n < 16" for n
  proof -
    have "(of_char (hex_upper n) :: nat) \<noteq> 58" using that by (auto simp: hex_upper_def)
    then show ?thesis by auto
  qed
  moreover have "\<not> is_unreserved CHR '':''" by code_simp
  ultimately show ?thesis using high_nibble[of c] by (auto simp: encode_byte_def dest: sym)
qed

lemma encode_byte_prefix:
  assumes "encode_byte c @ s = encode_byte d @ t"
  shows "c = d \<and> s = t"
proof -
  have pct: "\<not> is_unreserved CHR 0x25" by code_simp
  have hex: "m = n" if "hex_upper m = hex_upper n" "m < 16" "n < 16" for m n
  proof -
    have "(of_char (hex_upper m) :: nat) = of_char (hex_upper n)" using that by simp
    then show ?thesis using that(2,3) by (auto simp: hex_upper_def split: if_splits)
  qed
  show ?thesis
  proof (cases "is_unreserved c \<or> is_unreserved d")
    case True
    then show ?thesis using assms pct by (auto simp: encode_byte_def split: if_splits)
  next
    case False
    then have "hex_upper (of_char c div 16) = hex_upper (of_char d div 16)"
      "hex_upper (of_char c mod 16) = hex_upper (of_char d mod 16)" "s = t"
      using assms by (auto simp: encode_byte_def)
    then have "(of_char c :: nat) div 16 = of_char d div 16" "(of_char c :: nat) mod 16 = of_char d mod 16"
      using hex high_nibble by simp_all
    then have "(of_char c :: nat) = of_char d" by (metis div_mult_mod_eq)
    then show ?thesis using \<open>s = t\<close> by simp
  qed
qed

lemma encode_inj: "concat (map encode_byte s) = concat (map encode_byte t) \<Longrightarrow> s = t"
proof (induction s arbitrary: t)
  case Nil
  have "encode_byte c \<noteq> []" for c by (simp add: encode_byte_def)
  then show ?case using Nil by (cases t) auto
next
  case (Cons c s)
  have "encode_byte c \<noteq> []" for c by (simp add: encode_byte_def)
  then obtain d u where t: "t = d # u" using Cons(2) by (cases t) auto
  then have "encode_byte c @ concat (map encode_byte s) = encode_byte d @ concat (map encode_byte u)"
    using Cons(2) by simp
  then show ?case using encode_byte_prefix Cons(1) t by metis
qed

lemma encode_uri_component_inj:
  "encode_uri_component s = Inr k \<Longrightarrow> encode_uri_component t = Inr k \<Longrightarrow> s = t"
  by (auto simp: encode_uri_component_def split: if_splits dest: encode_inj)

lemma encode_uri_component_no_colon: "encode_uri_component s = Inr k \<Longrightarrow> CHR '':'' \<notin> set k"
  using encode_byte_no_colon by (auto simp: encode_uri_component_def split: if_splits)

lemma decimal_inj: "decimal m = decimal n \<Longrightarrow> m = n"
  by (metis decimal_value(1) of_nat_eq_iff)

lemma authority_key_parts:
  assumes "authority_key a = Inr k"
  obtains p q m n where "k = join_with CHR '':'' [p, q, m, n]" "encode_uri_component (ca_backendId a) = Inr p"
    "encode_uri_component (ca_principalId a) = Inr q"
    "encode_uri_component (decimal (nat (ca_credentialGeneration a))) = Inr m"
    "encode_uri_component (decimal (nat (ca_authorityGeneration a))) = Inr n"
  using assms by (auto simp: authority_key_def result_simps)

lemma authority_key_split:
  assumes "authority_key a = Inr k"
  shows "\<exists>p q m n. k = join_with CHR '':'' [p, q, m, n] \<and> split_on CHR '':'' (k @ CHR '':'' # s) = [p, q, m, n] @ split_on CHR '':'' s"
proof -
  obtain p q m n where k: "k = join_with CHR '':'' [p, q, m, n]"
    "CHR '':'' \<notin> set p" "CHR '':'' \<notin> set q" "CHR '':'' \<notin> set m" "CHR '':'' \<notin> set n"
    using authority_key_parts[OF assms] encode_uri_component_no_colon by metis
  then show ?thesis by (intro exI[of _ p] exI[of _ q] exI[of _ m] exI[of _ n]) (simp add: split_on_append)
qed

text \<open>Two authorities that have a key in common are the same backend, principal and generations.\<close>

definition same_authority :: "client_authority \<Rightarrow> client_authority \<Rightarrow> bool" where
  "same_authority a b \<longleftrightarrow>
     ca_backendId a = ca_backendId b \<and> ca_principalId a = ca_principalId b \<and>
     ca_credentialGeneration a = ca_credentialGeneration b \<and> ca_authorityGeneration a = ca_authorityGeneration b"

lemma same_authority_key: "same_authority a b \<Longrightarrow> authority_key a = authority_key b"
  by (simp add: same_authority_def authority_key_def)

definition generations_ok :: "client_authority \<Rightarrow> bool" where
  "generations_ok a \<longleftrightarrow> 0 < ca_credentialGeneration a \<and> 0 < ca_authorityGeneration a"

lemma parsed_generations: "parse_authority v = Inr a \<Longrightarrow> generations_ok a"
  by (auto simp: parse_authority_def generations_ok_def safe_integer_def split: option.splits js_value.splits
      js_number.splits if_splits)

lemma authority_key_inj:
  assumes a: "authority_key a = Inr k" "generations_ok a" and b: "authority_key b = Inr k" "generations_ok b"
  shows "same_authority a b"
proof -
  obtain p q m n where k: "k = join_with CHR '':'' [p, q, m, n]" and e: "encode_uri_component (ca_backendId a) = Inr p"
    "encode_uri_component (ca_principalId a) = Inr q"
    "encode_uri_component (decimal (nat (ca_credentialGeneration a))) = Inr m"
    "encode_uri_component (decimal (nat (ca_authorityGeneration a))) = Inr n"
    using authority_key_parts[OF a(1)] by blast
  obtain p' q' m' n' where k': "k = join_with CHR '':'' [p', q', m', n']" and e': "encode_uri_component (ca_backendId b) = Inr p'"
    "encode_uri_component (ca_principalId b) = Inr q'"
    "encode_uri_component (decimal (nat (ca_credentialGeneration b))) = Inr m'"
    "encode_uri_component (decimal (nat (ca_authorityGeneration b))) = Inr n'"
    using authority_key_parts[OF b(1)] by blast
  have "split_on CHR '':'' k = [p, q, m, n]" "split_on CHR '':'' k = [p', q', m', n']"
    unfolding k by (rule split_join; use e encode_uri_component_no_colon in fastforce)
      (unfold k[symmetric] k', rule split_join; use e' encode_uri_component_no_colon in fastforce)
  then have "p = p'" "q = q'" "m = m'" "n = n'" by simp_all
  then have "ca_backendId a = ca_backendId b" "ca_principalId a = ca_principalId b"
    "nat (ca_credentialGeneration a) = nat (ca_credentialGeneration b)"
    "nat (ca_authorityGeneration a) = nat (ca_authorityGeneration b)"
    using e e' encode_uri_component_inj decimal_inj by metis+
  then show ?thesis using a(2) b(2) by (simp add: same_authority_def generations_ok_def eq_nat_nat_iff)
qed

lemma encode_ascii: "encode_uri_component s = Inr k \<Longrightarrow> is_ascii k"
proof -
  have h: "(of_char (hex_upper n) :: nat) < 128" if "n < 16" for n using that by (auto simp: hex_upper_def)
  have "(of_char c :: nat) < 128" if "is_unreserved c" for c
    using that by (auto simp: is_unreserved_def is_upper_def is_lower_def is_digit_def less_eq_char_def)
  then have "is_ascii (encode_byte c)" for c
    using h high_nibble by (simp add: encode_byte_def is_ascii_def)
  then show "encode_uri_component s = Inr k \<Longrightarrow> is_ascii k"
    by (auto simp: encode_uri_component_def is_ascii_def list_all_iff split: if_splits)
qed

lemma authority_key_ascii: "authority_key a = Inr k \<Longrightarrow> is_ascii k"
proof -
  assume "authority_key a = Inr k"
  then obtain p q m n where "k = join_with CHR '':'' [p, q, m, n]" "is_ascii p" "is_ascii q" "is_ascii m" "is_ascii n"
    using authority_key_parts encode_ascii by metis
  then show ?thesis by (simp add: is_ascii_def)
qed

section \<open>What is proved of drafts\<close>

lemma parse_draft_value:
  assumes "parse_draft dp v = Inr r"
  shows "js_trim (dr_scope r) = dr_scope r" "parse_draft dp (draft_value r) = Inr r"
proof -
  have r: "1 \<le> js_length (dr_authorityKey r)" "js_length (dr_authorityKey r) \<le> 1024" "js_trim (dr_scope r) = dr_scope r"
    "1 \<le> js_length (dr_scope r)" "js_length (dr_scope r) \<le> 512" "js_length (dr_value r) \<le> 262144"
    "dp_is_datetime dp (dr_updatedAt r)"
    using assms by (auto simp: parse_draft_def trimmed_text_def sized_text_def text_such_def Let_def
        split: option.splits js_value.splits if_splits)
  then show "js_trim (dr_scope r) = dr_scope r" by simp
  show "parse_draft dp (draft_value r) = Inr r"
    using r by (simp add: parse_draft_def draft_value_def strict_members_def fld_def trimmed_text_def sized_text_def
        text_such_def Let_def)
qed

lemma draft_keys_utf8:
  "utf8_ok ''version''" "utf8_ok ''authorityKey''" "utf8_ok ''scope''" "utf8_ok ''value''" "utf8_ok ''updatedAt''"
  by (rule utf8_ok_ascii, simp)+

lemma draft_text_parses:
  assumes "utf8_ok (dr_authorityKey r)" "utf8_ok (dr_scope r)" "utf8_ok (dr_value r)" "utf8_ok (dr_updatedAt r)"
  shows "json_parse_or_throw (json_text (\<lambda>_. []) (draft_value r)) = Inr (draft_value r)"
proof -
  have "json_exact (draft_value r)"
    using assms by (simp add: draft_value_def draft_keys_utf8 js_int_def max_safe_integer_def)
  from json_text_parses[OF this, of "[]"] show ?thesis by (simp add: json_parse_or_throw_def skip_ws_def)
qed

text \<open>C28. What a client writes as the draft of a scope it reads back under the same authority, the empty draft
  included; except that the draft of a scope with white space around it is written and cannot be read.\<close>

theorem draft_is_read_back:
  assumes w: "write_draft dp v scope value now store = Inr store'"
    and texts: "utf8_ok scope" "utf8_ok value" "utf8_ok now"
  shows "read_draft dp v scope store' =
    (if value = [] \<or> js_trim scope = scope then Inr value
     else Inl (PlainError ''Portable client draft authority is stale''))"
proof -
  obtain a key where a: "parse_authority v = Inr a" and key: "draft_key dp a scope = Inr key"
    using w by (auto simp: write_draft_def result_simps)
  show ?thesis
  proof (cases "value = []")
    case True
    then have "store' key = None" using w a key by (auto simp: write_draft_def result_simps)
    then show ?thesis using a key True by (simp add: read_draft_def)
  next
    case False
    then obtain k r where k: "authority_key a = Inr k"
      and r: "parse_draft dp (draft_value \<lparr> dr_authorityKey = k, dr_scope = scope, dr_value = value, dr_updatedAt = now \<rparr>) = Inr r"
      and s: "store' key = Some (json_text (\<lambda>_. []) (draft_value r))"
      using w a key by (auto simp: write_draft_def result_simps)
    then have f: "dr_authorityKey r = k" "dr_scope r = js_trim scope" "dr_value r = value" "dr_updatedAt r = now"
      by (auto simp: parse_draft_def draft_value_def strict_members_def fld_def trimmed_text_def sized_text_def
          text_such_def Let_def split: if_splits)
    have "json_parse_or_throw (json_text (\<lambda>_. []) (draft_value r)) = Inr (draft_value r)"
      using f texts authority_key_ascii[OF k] by (intro draft_text_parses) (simp_all add: utf8_ok_trim ascii_utf8)
    then show ?thesis using a key k s f False parse_draft_value(2)[OF r] by (simp add: read_draft_def)
  qed
qed

lemma draft_key_inj:
  assumes "draft_key dp a s = Inr key" "generations_ok a" "draft_key dp b t = Inr key" "generations_ok b"
  shows "same_authority a b \<and> s = t"
proof -
  obtain k e where k: "authority_key a = Inr k" "encode_uri_component s = Inr e"
    "key = dp_namespace dp @ CHR '':'' # k @ CHR '':'' # e"
    using assms(1) by (auto simp: draft_key_def result_simps)
  obtain l f where l: "authority_key b = Inr l" "encode_uri_component t = Inr f"
    "key = dp_namespace dp @ CHR '':'' # l @ CHR '':'' # f"
    using assms(3) by (auto simp: draft_key_def result_simps)
  have "k @ CHR '':'' # e = l @ CHR '':'' # f" using k(3) l(3) by simp
  then have "k = l \<and> split_on CHR '':'' e = split_on CHR '':'' f"
    using authority_key_split[OF k(1), of e] authority_key_split[OF l(1), of f] by auto
  then have "k = l" "e = f" by (auto, metis join_split_on)
  then show ?thesis using authority_key_inj k l assms(2,4) encode_uri_component_inj by metis
qed

definition example_policy :: draft_policy where
  "example_policy = \<lparr> dp_namespace = ''drafts'', dp_maximumUtf8Bytes = 100, dp_is_datetime = (\<lambda>_. True) \<rparr>"

definition example_authority :: "string \<Rightarrow> js_value" where
  "example_authority who =
     JObj [(''backendId'', JStr ''koed''), (''principalId'', JStr who), (''credentialReference'', JStr ''c''),
       (''credentialGeneration'', js_int 1), (''authorityGeneration'', js_int 2)]"

abbreviation example_write :: "secure_store result" where
  "example_write \<equiv> write_draft example_policy (example_authority ''a:b'') ''thread 1'' ''hello''
     ''now'' (\<lambda>_. None)"

lemma example_authority_parsed:
  "parse_authority (example_authority ''a:b'') = Inr \<lparr> ca_backendId = ''koed'', ca_principalId = ''a:b'',
     ca_credentialReference = ''c'', ca_credentialGeneration = 1, ca_authorityGeneration = 2 \<rparr>"
  "authority_key \<lparr> ca_backendId = ''koed'', ca_principalId = ''a:b'', ca_credentialReference = ''c'',
     ca_credentialGeneration = 1, ca_authorityGeneration = 2 \<rparr> = Inr ''koed:a%3Ab:1:2''"
  "encode_uri_component ''thread 1'' = Inr ''thread%201''" "js_trim ''thread 1'' = ''thread 1''"
  "js_length ''thread 1'' = 8" "js_length ''hello'' = 5" "js_length ''koed:a%3Ab:1:2'' = 14"
  by code_simp+

lemma example_write_returns: obtains store' where "example_write = Inr store'"
proof -
  have "\<not> isl example_write"
    by (simp add: write_draft_def example_authority_parsed example_policy_def draft_key_def parse_draft_def
        draft_value_def strict_members_def sized_text_def trimmed_text_def text_such_def fld_def code_units_def)
  then show ?thesis using that by (cases example_write) auto
qed

theorem draft_is_read_back_witness:
  "\<exists>store'. example_write = Inr store' \<and>
     read_draft example_policy (example_authority ''a:b'') ''thread 1'' store' = Inr ''hello''"
proof -
  obtain store' where w: "example_write = Inr store'" by (rule example_write_returns)
  moreover have "utf8_ok ''thread 1''" "utf8_ok ''hello''" "utf8_ok ''now''"
    "js_trim ''thread 1'' = ''thread 1''" by code_simp+
  ultimately show ?thesis using draft_is_read_back[OF w] by simp
qed

text \<open>Writing or deleting a draft does not touch what is read under another backend, principal, credential
  generation, authority generation or scope.\<close>

theorem drafts_are_apart:
  assumes "write_draft dp v s value now store = Inr store' \<or> delete_draft dp v s store = Inr store'"
    and "parse_authority v = Inr a" "parse_authority w = Inr b" "\<not> (same_authority a b \<and> s = t)"
  shows "read_draft dp w t store' = read_draft dp w t store"
proof -
  obtain key where key: "draft_key dp a s = Inr key" and s: "\<And>k. k \<noteq> key \<Longrightarrow> store' k = store k"
    using assms(1,2) by (auto simp: write_draft_def delete_draft_def result_simps split: if_splits)
  have "store' k = store k" if "draft_key dp b t = Inr k" for k
    using draft_key_inj[OF key parsed_generations[OF assms(2)], of b t] parsed_generations[OF assms(3)] that s assms(4)
    by metis
  then show ?thesis using assms(3) by (cases "draft_key dp b t") (simp_all add: read_draft_def)
qed

theorem drafts_are_apart_witness:
  "\<exists>store'. example_write = Inr store' \<and>
     read_draft example_policy (example_authority ''a'') ''thread 1'' store' = Inr []"
proof -
  obtain store' where w: "example_write = Inr store'" by (rule example_write_returns)
  let ?a = "\<lambda>p. \<lparr> ca_backendId = ''koed'', ca_principalId = p, ca_credentialReference = ''c'',
      ca_credentialGeneration = 1, ca_authorityGeneration = 2 \<rparr>"
  have p: "parse_authority (example_authority ''a:b'') = Inr (?a ''a:b'')"
    "parse_authority (example_authority ''a'') = Inr (?a ''a'')"
    "read_draft example_policy (example_authority ''a'') ''thread 1'' (\<lambda>_. None) = Inr []" by code_simp+
  have "read_draft example_policy (example_authority ''a'') ''thread 1'' store' =
      read_draft example_policy (example_authority ''a'') ''thread 1'' (\<lambda>_. None)"
    using w by (intro drafts_are_apart[OF _ p(1,2)]) (auto simp: same_authority_def)
  then show ?thesis using w p(3) by simp
qed

section \<open>What is proved of the registry\<close>

definition registry_ok :: "url_parser \<Rightarrow> backend_registry \<Rightarrow> bool" where
  "registry_ok parse_url r \<longleftrightarrow>
     distinct (map fst (br_backends r)) \<and>
     list_all (\<lambda>(i, b). i = cb_id b \<and> i \<noteq> [] \<and> backend_url_ok parse_url (cb_baseUrl b)) (br_backends r) \<and>
     if_present (\<lambda>i. i \<in> fst ` set (br_backends r)) (br_activeId r)"

lemma parse_backend_facts:
  "parse_backend parse_url v = Inr b \<Longrightarrow> cb_id b \<noteq> [] \<and> backend_url_ok parse_url (cb_baseUrl b)"
  by (auto simp: parse_backend_def trimmed_text_def text_such_def Let_def split: option.splits js_value.splits if_splits)

lemma replace_backends_ok: "replace_backends parse_url vs i = Inr r \<Longrightarrow> registry_ok parse_url r"
proof -
  assume "replace_backends parse_url vs i = Inr r"
  then obtain bs where bs: "emap (parse_backend parse_url) vs = Inr bs"
    "length (remdups (map cb_id bs)) = length bs" "if_present (\<lambda>i. i \<in> cb_id ` set bs) i"
    "r = \<lparr> br_backends = map (\<lambda>b. (cb_id b, b)) bs, br_activeId = i \<rparr>"
    by (auto simp: replace_backends_def result_simps)
  have "distinct (map cb_id bs)" using bs(2) by (metis length_map length_remdups_eq remdups_id_iff_distinct)
  moreover have "cb_id b \<noteq> [] \<and> backend_url_ok parse_url (cb_baseUrl b)" if "b \<in> set bs" for b
    using bs(1) that parse_backend_facts by (fastforce simp: emap_eq_Inr list_all2_conv_all_nth in_set_conv_nth)
  moreover have "(\<lambda>b. (cb_id b, b)) ` set bs = set (br_backends r)" using bs(4) by simp
  ultimately show ?thesis using bs(3,4) by (simp add: registry_ok_def list_all_iff comp_def image_image)
qed

interpretation registering: guarded_machine "\<lambda>(vs, i). registry_replace parse_url vs i" "\<lambda>r. r = new_registry"
  "registry_ok parse_url" for parse_url
proof
  show "registry_ok parse_url r" if "r = new_registry" for r
    using that by (simp add: registry_ok_def new_registry_def)
  show "registry_ok parse_url ((\<lambda>(vs, i). registry_replace parse_url vs i) e r)" if "registry_ok parse_url r" for e r
    using that replace_backends_ok
    by (cases e) (auto simp: registry_replace_def split: sum.splits)
qed

text \<open>After any calls, failed ones included, the active backend is the listed backend of the active id, and its
  URL is a secure one.\<close>

theorem registry_active_is_listed:
  assumes r: "r = fold (\<lambda>(vs, i). registry_replace parse_url vs i) calls new_registry" and i: "br_activeId r = Some i"
  shows "\<exists>b. active_backend r = Some b \<and> b \<in> set (list_backends r) \<and> cb_id b = i \<and> backend_url_ok parse_url (cb_baseUrl b)"
proof -
  have ok: "registry_ok parse_url r" unfolding r by (rule registering.run_inv[OF refl])
  then obtain b where b: "(i, b) \<in> set (br_backends r)" using i by (auto simp: registry_ok_def)
  then have "map_of (br_backends r) i = Some b" using ok by (simp add: registry_ok_def)
  moreover have "i = cb_id b" "i \<noteq> []" "backend_url_ok parse_url (cb_baseUrl b)"
    using b ok by (auto simp: registry_ok_def list_all_iff)
  moreover have "b \<in> set (list_backends r)" using b by (force simp: list_backends_def)
  ultimately show ?thesis using i by (simp add: active_backend_def)
qed

end
