(* ===== verification/Client_Outbox.thy ===== *)
theory Client_Outbox
  imports Portable_Client
begin

text \<open>
  The outbox of the portable client, \<^verbatim>\<open>PortableClientOutbox\<close> in
  \<^verbatim>\<open>packages/shared/src/client-foundation.ts\<close>: commands that wait to be sent, each a text of the secure store
  under the key of its authority and id. It is proved to refine a map from keys to records.
\<close>

section \<open>Records\<close>

datatype outbox_state = Queued | Dispatching | Indeterminate

record outbox_record =
  ob_authorityKey :: string
  ob_id :: string
  ob_idempotencyKey :: string
  ob_requestDigest :: string
  ob_createdAt :: string
  ob_attempt :: int
  ob_state :: outbox_state
  ob_payload :: js_value

text \<open>\<open>oo_is_datetime\<close> is the schema library's pattern of times; \<open>oo_number\<close> writes the numbers of payloads that
  are not safe integers.\<close>

record outbox_options =
  oo_namespace :: string
  oo_parsePayload :: "js_value \<Rightarrow> js_value result"
  oo_is_datetime :: "string \<Rightarrow> bool"
  oo_number :: "js_number \<Rightarrow> string"

definition outbox_options_ok :: "outbox_options \<Rightarrow> unit result" where
  "outbox_options_ok oo =
     throw_if (\<not> namespace_ok (oo_namespace oo)) (TypeError ''Portable client outbox namespace is invalid'')"

definition state_text :: "outbox_state \<Rightarrow> string" where
  "state_text s =
     (case s of Queued \<Rightarrow> ''queued'' | Dispatching \<Rightarrow> ''dispatching'' | Indeterminate \<Rightarrow> ''indeterminate'')"

definition state_of :: "js_value \<Rightarrow> outbox_state option" where
  "state_of v =
     (if v = JStr ''queued'' then Some Queued
      else if v = JStr ''dispatching'' then Some Dispatching
      else if v = JStr ''indeterminate'' then Some Indeterminate
      else None)"

text \<open>\<^verbatim>\<open>#parse\<close>: the schema, then the payload's own parser.\<close>

definition parse_outbox_record :: "outbox_options \<Rightarrow> js_value \<Rightarrow> outbox_record result" where
  "parse_outbox_record oo v =
     (case strict_members [''version'', ''authorityKey'', ''id'', ''idempotencyKey'', ''requestDigest'', ''createdAt'',
             ''attempt'', ''state'', ''payload''] v of
        None \<Rightarrow> Inl schema_error
      | Some kvs \<Rightarrow>
          (case (sized_text 1 1024 (fld kvs ''authorityKey''), trimmed_text 16 160 (fld kvs ''id''),
                 trimmed_text 16 160 (fld kvs ''idempotencyKey''), text_such is_sha256 (fld kvs ''requestDigest''),
                 text_such (oo_is_datetime oo) (fld kvs ''createdAt''), safe_integer 0 (fld kvs ''attempt''),
                 state_of (fld kvs ''state'')) of
             (Some k, Some i, Some q, Some d, Some t, Some n, Some s) \<Rightarrow>
               if fld kvs ''version'' = js_int 1
               then ebind (oo_parsePayload oo (fld kvs ''payload'')) (\<lambda>p.
                 Inr \<lparr> ob_authorityKey = k, ob_id = i, ob_idempotencyKey = q, ob_requestDigest = d, ob_createdAt = t,
                       ob_attempt = n, ob_state = s, ob_payload = p \<rparr>)
               else Inl schema_error
           | _ \<Rightarrow> Inl schema_error))"

definition outbox_value :: "outbox_record \<Rightarrow> js_value" where
  "outbox_value r =
     JObj [(''version'', js_int 1), (''authorityKey'', JStr (ob_authorityKey r)), (''id'', JStr (ob_id r)),
       (''idempotencyKey'', JStr (ob_idempotencyKey r)), (''requestDigest'', JStr (ob_requestDigest r)),
       (''createdAt'', JStr (ob_createdAt r)), (''attempt'', js_int (ob_attempt r)),
       (''state'', JStr (state_text (ob_state r))), (''payload'', ob_payload r)]"

abbreviation outbox_text :: "outbox_options \<Rightarrow> outbox_record \<Rightarrow> string" where
  "outbox_text oo r \<equiv> json_text (oo_number oo) (outbox_value r)"

text \<open>\<^verbatim>\<open>/^[A-Za-z0-9][A-Za-z0-9._:-]{15,159}$/\<close>\<close>

definition outbox_id_ok :: "string \<Rightarrow> bool" where
  "outbox_id_ok s \<longleftrightarrow>
     16 \<le> length s \<and> length s \<le> 160 \<and> (is_upper (hd s) \<or> is_lower (hd s) \<or> is_digit (hd s)) \<and>
     list_all (\<lambda>c. is_upper c \<or> is_lower c \<or> is_digit c \<or> c \<in> {CHR ''.'', CHR ''_'', CHR '':'', CHR ''-''}) (tl s)"

definition item_key :: "outbox_options \<Rightarrow> string \<Rightarrow> string \<Rightarrow> string" where
  "item_key oo k i = oo_namespace oo @ CHR '':'' # k @ CHR '':'' # i"

definition outbox_key :: "outbox_options \<Rightarrow> client_authority \<Rightarrow> string \<Rightarrow> string result" where
  "outbox_key oo a i =
     ebind (throw_if (\<not> outbox_id_ok i) (TypeError ''Portable client outbox ID is invalid'')) (\<lambda>_.
     ebind (authority_key a) (\<lambda>k. Inr (item_key oo k i)))"

definition outbox_read :: "outbox_options \<Rightarrow> string \<Rightarrow> secure_store \<Rightarrow> outbox_record option result" where
  "outbox_read oo key store =
     (case store key of
        None \<Rightarrow> Inr None
      | Some t \<Rightarrow> ebind (json_parse_or_throw t) (\<lambda>v. ebind (parse_outbox_record oo v) (\<lambda>r. Inr (Some r))))"

section \<open>Operations\<close>

record outbox_input =
  oi_id :: string
  oi_idempotencyKey :: string
  oi_requestDigest :: string
  oi_payload :: js_value

definition new_item :: "string \<Rightarrow> outbox_input \<Rightarrow> string \<Rightarrow> outbox_record" where
  "new_item k input now =
     \<lparr> ob_authorityKey = k, ob_id = oi_id input, ob_idempotencyKey = oi_idempotencyKey input,
       ob_requestDigest = oi_requestDigest input, ob_createdAt = now, ob_attempt = 0, ob_state = Queued,
       ob_payload = oi_payload input \<rparr>"

abbreviation outbox_put :: "outbox_options \<Rightarrow> string \<Rightarrow> outbox_record \<Rightarrow> secure_store \<Rightarrow> secure_store" where
  "outbox_put oo key r store \<equiv> store(key \<mapsto> outbox_text oo r)"

definition outbox_enqueue ::
  "outbox_options \<Rightarrow> js_value \<Rightarrow> outbox_input \<Rightarrow> string \<Rightarrow> secure_store \<Rightarrow> (outbox_record option \<times> secure_store) result" where
  "outbox_enqueue oo authority input now store =
     ebind (parse_authority authority) (\<lambda>a.
     ebind (outbox_key oo a (oi_id input)) (\<lambda>key.
     ebind (outbox_read oo key store) (\<lambda>existing.
     (case existing of
        Some r \<Rightarrow>
          ebind (throw_if (ob_idempotencyKey r \<noteq> oi_idempotencyKey input \<or> ob_requestDigest r \<noteq> oi_requestDigest input)
                   (PlainError ''Portable client outbox identity was reused'')) (\<lambda>_.
          Inr (Some r, store))
      | None \<Rightarrow>
          ebind (authority_key a) (\<lambda>k.
          ebind (parse_outbox_record oo (outbox_value (new_item k input now))) (\<lambda>r.
          Inr (Some r, outbox_put oo key r store)))))))"

definition outbox_begin ::
  "outbox_options \<Rightarrow> js_value \<Rightarrow> string \<Rightarrow> secure_store \<Rightarrow> (outbox_record option \<times> secure_store) result" where
  "outbox_begin oo authority i store =
     ebind (parse_authority authority) (\<lambda>a.
     ebind (outbox_key oo a i) (\<lambda>key.
     ebind (outbox_read oo key store) (\<lambda>existing.
     (case existing of
        None \<Rightarrow> Inl (PlainError ''Portable client outbox item is unavailable'')
      | Some r \<Rightarrow>
          ebind (throw_if (ob_state r = Indeterminate)
                   (PlainError ''Portable client outbox outcome is indeterminate'')) (\<lambda>_.
          let d = r \<lparr> ob_attempt := ob_attempt r + 1, ob_state := Dispatching \<rparr> in
          Inr (Some d, outbox_put oo key d store))))))"

definition outbox_retry ::
  "outbox_options \<Rightarrow> js_value \<Rightarrow> string \<Rightarrow> bool \<Rightarrow> secure_store \<Rightarrow> (outbox_record option \<times> secure_store) result" where
  "outbox_retry oo authority i known_absent store =
     ebind (parse_authority authority) (\<lambda>a.
     ebind (outbox_key oo a i) (\<lambda>key.
     ebind (outbox_read oo key store) (\<lambda>existing.
     (case existing of
        None \<Rightarrow> Inr (None, store)
      | Some r \<Rightarrow>
          Inr (None, outbox_put oo key (r \<lparr> ob_state := (if known_absent then Queued else Indeterminate) \<rparr>) store)))))"

definition outbox_complete ::
  "outbox_options \<Rightarrow> js_value \<Rightarrow> string \<Rightarrow> secure_store \<Rightarrow> (outbox_record option \<times> secure_store) result" where
  "outbox_complete oo authority i store =
     ebind (parse_authority authority) (\<lambda>a.
     ebind (outbox_key oo a i) (\<lambda>key.
     Inr (None, store(key := None))))"

text \<open>A call, and what a sequence of them returns and leaves; a call that throws leaves the store.\<close>

datatype outbox_call =
    Enqueue js_value outbox_input string
  | Begin js_value string
  | Retry js_value string bool
  | Complete js_value string

primrec outbox_apply ::
  "outbox_options \<Rightarrow> outbox_call \<Rightarrow> secure_store \<Rightarrow> (outbox_record option \<times> secure_store) result" where
  "outbox_apply oo (Enqueue v input now) store = outbox_enqueue oo v input now store"
| "outbox_apply oo (Begin v i) store = outbox_begin oo v i store"
| "outbox_apply oo (Retry v i b) store = outbox_retry oo v i b store"
| "outbox_apply oo (Complete v i) store = outbox_complete oo v i store"

fun run_calls :: "('c \<Rightarrow> 's \<Rightarrow> ('r \<times> 's) result) \<Rightarrow> 'c list \<Rightarrow> 's \<Rightarrow> 'r result list \<times> 's" where
  "run_calls f [] s = ([], s)"
| "run_calls f (c # cs) s =
     (case f c s of
        Inl e \<Rightarrow> (case run_calls f cs s of (rs, t) \<Rightarrow> (Inl e # rs, t))
      | Inr (r, s') \<Rightarrow> (case run_calls f cs s' of (rs, t) \<Rightarrow> (Inr r # rs, t)))"

section \<open>The abstract outbox\<close>

text \<open>A map from authority keys and ids to records: no texts, no parsing of what was stored.\<close>

type_synonym outbox_items = "string \<times> string \<Rightarrow> outbox_record option"

definition item_at :: "js_value \<Rightarrow> string \<Rightarrow> (string \<times> string) result" where
  "item_at authority i =
     ebind (parse_authority authority) (\<lambda>a.
     ebind (throw_if (\<not> outbox_id_ok i) (TypeError ''Portable client outbox ID is invalid'')) (\<lambda>_.
     ebind (authority_key a) (\<lambda>k. Inr (k, i))))"

primrec item_apply ::
  "outbox_options \<Rightarrow> outbox_call \<Rightarrow> outbox_items \<Rightarrow> (outbox_record option \<times> outbox_items) result" where
  "item_apply oo (Enqueue v input now) m =
     ebind (item_at v (oi_id input)) (\<lambda>q.
     (case m q of
        Some r \<Rightarrow>
          if ob_idempotencyKey r = oi_idempotencyKey input \<and> ob_requestDigest r = oi_requestDigest input
          then Inr (Some r, m) else Inl (PlainError ''Portable client outbox identity was reused'')
      | None \<Rightarrow>
          ebind (parse_outbox_record oo (outbox_value (new_item (fst q) input now))) (\<lambda>r. Inr (Some r, m(q \<mapsto> r)))))"
| "item_apply oo (Begin v i) m =
     ebind (item_at v i) (\<lambda>q.
     (case m q of
        None \<Rightarrow> Inl (PlainError ''Portable client outbox item is unavailable'')
      | Some r \<Rightarrow>
          if ob_state r = Indeterminate then Inl (PlainError ''Portable client outbox outcome is indeterminate'')
          else (let d = r \<lparr> ob_attempt := ob_attempt r + 1, ob_state := Dispatching \<rparr> in Inr (Some d, m(q \<mapsto> d)))))"
| "item_apply oo (Retry v i b) m =
     ebind (item_at v i) (\<lambda>q.
     Inr (None, case m q of
        None \<Rightarrow> m
      | Some r \<Rightarrow> m(q \<mapsto> r \<lparr> ob_state := (if b then Queued else Indeterminate) \<rparr>)))"
| "item_apply oo (Complete v i) m = ebind (item_at v i) (\<lambda>q. Inr (None, m(q := None)))"

text \<open>What is relied on of the payload's parser: it returns values JSON writes exactly, and returns them again;
  and of the texts of a call: they are valid.\<close>

definition payloads_ok :: "outbox_options \<Rightarrow> bool" where
  "payloads_ok oo \<longleftrightarrow>
     (\<forall>v p. oo_parsePayload oo v = Inr p \<longrightarrow> json_exact p \<and> oo_parsePayload oo p = Inr p)"

primrec call_ok :: "outbox_call \<Rightarrow> bool" where
  "call_ok (Enqueue v input now) \<longleftrightarrow> utf8_ok (oi_idempotencyKey input) \<and> utf8_ok now"
| "call_ok (Begin v i) \<longleftrightarrow> True"
| "call_ok (Retry v i b) \<longleftrightarrow> True"
| "call_ok (Complete v i) \<longleftrightarrow> True"

section \<open>Reading records back\<close>

definition record_ok :: "outbox_options \<Rightarrow> int \<Rightarrow> outbox_record \<Rightarrow> bool" where
  "record_ok oo n r \<longleftrightarrow>
     1 \<le> js_length (ob_authorityKey r) \<and> js_length (ob_authorityKey r) \<le> 1024 \<and>
     js_trim (ob_id r) = ob_id r \<and> 16 \<le> js_length (ob_id r) \<and> js_length (ob_id r) \<le> 160 \<and>
     js_trim (ob_idempotencyKey r) = ob_idempotencyKey r \<and>
     16 \<le> js_length (ob_idempotencyKey r) \<and> js_length (ob_idempotencyKey r) \<le> 160 \<and>
     is_sha256 (ob_requestDigest r) \<and> oo_is_datetime oo (ob_createdAt r) \<and>
     0 \<le> ob_attempt r \<and> ob_attempt r \<le> n \<and> oo_parsePayload oo (ob_payload r) = Inr (ob_payload r) \<and>
     json_exact (ob_payload r) \<and>
     utf8_ok (ob_authorityKey r) \<and> utf8_ok (ob_id r) \<and> utf8_ok (ob_idempotencyKey r) \<and> utf8_ok (ob_createdAt r)"

lemma state_of_text [simp]: "state_of (JStr (state_text s)) = Some s"
  by (cases s) (simp_all add: state_of_def state_text_def)

lemma outbox_keys_utf8:
  "utf8_ok ''version''" "utf8_ok ''authorityKey''" "utf8_ok ''id''" "utf8_ok ''idempotencyKey''"
  "utf8_ok ''requestDigest''" "utf8_ok ''createdAt''" "utf8_ok ''attempt''" "utf8_ok ''state''" "utf8_ok ''payload''"
  "utf8_ok (state_text s)"
  by ((rule utf8_ok_ascii, simp)+, cases s, (simp add: state_text_def, rule utf8_ok_ascii, simp)+)

lemma sha256_utf8: "is_sha256 d \<Longrightarrow> utf8_ok d"
  by (rule utf8_ok_ascii)
    (auto simp: is_sha256_iff list_all_iff is_hex_lower_def is_digit_def less_eq_char_def)

lemma record_ok_parses:
  assumes "record_ok oo n r" "n \<le> max_safe_integer"
  shows "parse_outbox_record oo (outbox_value r) = Inr r"
  using assms by (simp add: record_ok_def parse_outbox_record_def outbox_value_def strict_members_def fld_def
      trimmed_text_def sized_text_def text_such_def safe_integer_def js_int_def)

lemma record_ok_text:
  assumes "record_ok oo n r" "n \<le> max_safe_integer"
  shows "json_parse_or_throw (outbox_text oo r) = Inr (outbox_value r)"
proof -
  have "json_exact (outbox_value r)"
    using assms by (simp add: record_ok_def outbox_value_def js_int_def outbox_keys_utf8 sha256_utf8
        max_safe_integer_def)
  from json_text_parses[OF this, of "[]"] show ?thesis by (simp add: json_parse_or_throw_def skip_ws_def)
qed

lemma outbox_id_ascii: "outbox_id_ok i \<Longrightarrow> is_ascii i"
  by (cases i) (auto simp: outbox_id_ok_def is_ascii_def list_all_iff is_upper_def is_lower_def is_digit_def
      less_eq_char_def)

lemma new_item_ok:
  assumes "parse_outbox_record oo (outbox_value (new_item k input now)) = Inr r" "payloads_ok oo"
    and "is_ascii k" "outbox_id_ok (oi_id input)" "utf8_ok (oi_idempotencyKey input)" "utf8_ok now"
  shows "record_ok oo 0 r"
proof -
  obtain p where p: "oo_parsePayload oo (oi_payload input) = Inr p"
    and r: "r = \<lparr> ob_authorityKey = k, ob_id = js_trim (oi_id input), ob_idempotencyKey = js_trim (oi_idempotencyKey input),
        ob_requestDigest = oi_requestDigest input, ob_createdAt = now, ob_attempt = 0, ob_state = Queued,
        ob_payload = p \<rparr>"
    and b: "1 \<le> js_length k" "js_length k \<le> 1024" "16 \<le> js_length (js_trim (oi_id input))"
      "js_length (js_trim (oi_id input)) \<le> 160" "16 \<le> js_length (js_trim (oi_idempotencyKey input))"
      "js_length (js_trim (oi_idempotencyKey input)) \<le> 160" "is_sha256 (oi_requestDigest input)" "oo_is_datetime oo now"
    using assms(1) by (auto simp: parse_outbox_record_def outbox_value_def new_item_def strict_members_def fld_def
        trimmed_text_def sized_text_def text_such_def safe_integer_def js_int_def Let_def result_simps
        split: if_splits option.splits)
  show ?thesis using p r b assms(2-6) outbox_id_ascii
    by (auto simp: record_ok_def payloads_ok_def utf8_ok_trim ascii_utf8)
qed

section \<open>Refinement\<close>

lemma item_key_inj:
  assumes "authority_key a = Inr k" "authority_key b = Inr l" "item_key oo k i = item_key oo l j"
  shows "k = l \<and> i = j"
proof -
  have "k @ CHR '':'' # i = l @ CHR '':'' # j" using assms(3) by (simp add: item_key_def)
  then have "k = l \<and> split_on CHR '':'' i = split_on CHR '':'' j"
    using authority_key_split[OF assms(1), of i] authority_key_split[OF assms(2), of j] by auto
  then show ?thesis by (metis join_split_on)
qed

definition is_authority_key :: "string \<Rightarrow> bool" where
  "is_authority_key k \<longleftrightarrow> (\<exists>a. authority_key a = Inr k)"

definition outbox_rel :: "outbox_options \<Rightarrow> int \<Rightarrow> secure_store \<Rightarrow> outbox_items \<Rightarrow> bool" where
  "outbox_rel oo n store m \<longleftrightarrow>
     (\<forall>k i r. m (k, i) = Some r \<longrightarrow>
        is_authority_key k \<and> record_ok oo n r \<and> store (item_key oo k i) = Some (outbox_text oo r)) \<and>
     (\<forall>key. store key \<noteq> None \<longrightarrow> (\<exists>k i. m (k, i) \<noteq> None \<and> key = item_key oo k i))"

lemma rel_read:
  assumes "outbox_rel oo n store m" "n \<le> max_safe_integer" "is_authority_key k"
  shows "outbox_read oo (item_key oo k i) store = Inr (m (k, i))"
proof (cases "m (k, i)")
  case None
  have "store (item_key oo k i) = None"
  proof (rule ccontr)
    assume "store (item_key oo k i) \<noteq> None"
    then obtain l j where l: "m (l, j) \<noteq> None" "item_key oo k i = item_key oo l j"
      using assms(1) unfolding outbox_rel_def by blast
    then have "is_authority_key l" using assms(1) unfolding outbox_rel_def by blast
    then show False using item_key_inj l assms(3) None unfolding is_authority_key_def by metis
  qed
  then show ?thesis using None by (simp add: outbox_read_def)
next
  case (Some r)
  then have "record_ok oo n r" "store (item_key oo k i) = Some (outbox_text oo r)"
    using assms(1) unfolding outbox_rel_def by blast+
  then show ?thesis using record_ok_parses record_ok_text assms(2) Some by (simp add: outbox_read_def)
qed

lemma record_ok_mono: "record_ok oo n r \<Longrightarrow> n \<le> n' \<Longrightarrow> record_ok oo n' r"
  by (auto simp: record_ok_def)

lemma rel_mono: "outbox_rel oo n store m \<Longrightarrow> n \<le> n' \<Longrightarrow> outbox_rel oo n' store m"
  unfolding outbox_rel_def using record_ok_mono by blast

lemma rel_put:
  assumes "outbox_rel oo n store m" "is_authority_key k" "record_ok oo n r"
  shows "outbox_rel oo n (store(item_key oo k i \<mapsto> outbox_text oo r)) (m((k, i) \<mapsto> r))"
  unfolding outbox_rel_def
proof (intro conjI allI impI)
  fix l j s assume s: "(m((k, i) \<mapsto> r)) (l, j) = Some s"
  show "is_authority_key l" "record_ok oo n s"
    using s assms unfolding outbox_rel_def by (auto split: if_splits)
  then have "item_key oo l j = item_key oo k i \<Longrightarrow> l = k \<and> j = i"
    using assms(2) item_key_inj unfolding is_authority_key_def by metis
  then show "(store(item_key oo k i \<mapsto> outbox_text oo r)) (item_key oo l j) = Some (outbox_text oo s)"
    using s assms(1) unfolding outbox_rel_def by (auto split: if_splits)
next
  fix key assume "(store(item_key oo k i \<mapsto> outbox_text oo r)) key \<noteq> None"
  then show "\<exists>l j. (m((k, i) \<mapsto> r)) (l, j) \<noteq> None \<and> key = item_key oo l j"
    using assms(1) unfolding outbox_rel_def by (cases "key = item_key oo k i") (auto, metis option.distinct(1))
qed

lemma rel_delete:
  assumes "outbox_rel oo n store m" "is_authority_key k"
  shows "outbox_rel oo n (store(item_key oo k i := None)) (m((k, i) := None))"
  unfolding outbox_rel_def
proof (intro conjI allI impI)
  fix l j s assume s: "(m((k, i) := None)) (l, j) = Some s"
  then show "is_authority_key l" "record_ok oo n s"
    using assms unfolding outbox_rel_def by (auto split: if_splits)
  then have "item_key oo l j = item_key oo k i \<Longrightarrow> l = k \<and> j = i"
    using assms(2) item_key_inj unfolding is_authority_key_def by metis
  then show "(store(item_key oo k i := None)) (item_key oo l j) = Some (outbox_text oo s)"
    using s assms(1) unfolding outbox_rel_def by (auto split: if_splits)
next
  fix key assume key: "(store(item_key oo k i := None)) key \<noteq> None"
  then obtain l j where "m (l, j) \<noteq> None" "key = item_key oo l j"
    using assms(1) unfolding outbox_rel_def by (metis fun_upd_apply)
  then show "\<exists>l j. (m((k, i) := None)) (l, j) \<noteq> None \<and> key = item_key oo l j"
    using key by (intro exI[of _ l] exI[of _ j]) auto
qed

lemma at_error:
  "item_at v i = Inl e \<Longrightarrow> ebind (parse_authority v) (\<lambda>a. ebind (outbox_key oo a i) (f a)) = Inl e"
  by (auto simp: item_at_def outbox_key_def ebind_eq_Inl throw_if_eq_Inl throw_if_eq_Inr)

lemma at_key:
  assumes "item_at v i = Inr q"
  obtains a k where "q = (k, i)" "parse_authority v = Inr a" "outbox_key oo a i = Inr (item_key oo k i)"
    "authority_key a = Inr k" "outbox_id_ok i"
  using assms that by (auto simp: item_at_def outbox_key_def result_simps)

definition same_outcome ::
  "outbox_options \<Rightarrow> int \<Rightarrow> (outbox_record option \<times> secure_store) result \<Rightarrow> (outbox_record option \<times> outbox_items) result \<Rightarrow> bool" where
  "same_outcome oo n x y \<longleftrightarrow>
     (\<exists>e. x = Inl e \<and> y = Inl e) \<or> (\<exists>r s m. x = Inr (r, s) \<and> y = Inr (r, m) \<and> outbox_rel oo n s m)"

lemma same_error [simp]: "same_outcome oo n (Inl e) (Inl e)"
  by (simp add: same_outcome_def)

lemma same_return [simp]: "same_outcome oo n (Inr (r, s)) (Inr (r', m)) \<longleftrightarrow> r = r' \<and> outbox_rel oo n s m"
  by (auto simp: same_outcome_def)

lemma enqueue_refines:
  assumes rel: "outbox_rel oo n store m" "0 \<le> n" "n \<le> max_safe_integer" and ok: "payloads_ok oo" "call_ok (Enqueue v input now)"
  shows "same_outcome oo n (outbox_enqueue oo v input now store) (item_apply oo (Enqueue v input now) m)"
proof (cases "item_at v (oi_id input)")
  case (Inl e)
  then show ?thesis by (simp add: outbox_enqueue_def at_error)
next
  case (Inr q)
  obtain a k where q: "q = (k, oi_id input)" "parse_authority v = Inr a"
      "outbox_key oo a (oi_id input) = Inr (item_key oo k (oi_id input))"
    and k: "authority_key a = Inr k" and i: "outbox_id_ok (oi_id input)" using at_key[OF Inr] by metis
  have ik: "is_authority_key k" using k by (auto simp: is_authority_key_def)
  note read = rel_read[OF rel(1,3) ik, of "oi_id input"]
  show ?thesis
  proof (cases "m q")
    case (Some r)
    then show ?thesis using Inr q read rel(1) by (auto simp: outbox_enqueue_def throw_if_def)
  next
    case None
    show ?thesis
    proof (cases "parse_outbox_record oo (outbox_value (new_item k input now))")
      case p: (Inr r)
      have "record_ok oo 0 r" using new_item_ok[OF p ok(1) authority_key_ascii[OF k] i] ok(2) by simp
      then have "record_ok oo n r" using record_ok_mono rel(2) by blast
      then show ?thesis using None Inr q read k p rel_put[OF rel(1) ik] by (simp add: outbox_enqueue_def)
    qed (use None Inr q read k in \<open>simp add: outbox_enqueue_def\<close>)
  qed
qed

lemma update_refines:
  assumes rel: "outbox_rel oo n store m" "n < max_safe_integer"
    and at: "item_at v i = Inr (k, i)" "m (k, i) = Some r" and u: "record_ok oo n r \<Longrightarrow> record_ok oo (n + 1) u"
  shows "outbox_rel oo (n + 1) (store(item_key oo k i \<mapsto> outbox_text oo u)) (m((k, i) \<mapsto> u))"
proof (rule rel_put)
  show "outbox_rel oo (n + 1) store m" using rel_mono[OF rel(1)] by simp
  show "is_authority_key k" using at(1) at_key unfolding is_authority_key_def by (metis prod.inject)
  have "record_ok oo n r" using rel(1) at(2) unfolding outbox_rel_def by blast
  then show "record_ok oo (n + 1) u" by (rule u)
qed

lemma record_ok_next:
  "record_ok oo n r \<Longrightarrow> record_ok oo (n + 1) (r \<lparr> ob_attempt := ob_attempt r + 1, ob_state := s \<rparr>)"
  "record_ok oo n r \<Longrightarrow> record_ok oo (n + 1) (r \<lparr> ob_state := s \<rparr>)"
  by (simp_all add: record_ok_def)

lemma call_refines:
  assumes rel: "outbox_rel oo n store m" "0 \<le> n" "n < max_safe_integer" and ok: "payloads_ok oo" "call_ok c"
  shows "same_outcome oo (n + 1) (outbox_apply oo c store) (item_apply oo c m)"
proof -
  have up: "same_outcome oo (n + 1) x y" if "same_outcome oo n x y" for x y
    using that rel_mono[of oo n _ _ "n + 1"] by (auto simp: same_outcome_def)
  have rel': "outbox_rel oo (n + 1) store m" using rel_mono[OF rel(1)] by simp
  have error: "same_outcome oo (n + 1) (outbox_apply oo c store) (item_apply oo c m)"
    if "item_at v i = Inl e" "c = Begin v i \<or> (\<exists>b. c = Retry v i b) \<or> c = Complete v i" for v i e
    using that by (auto simp: outbox_begin_def outbox_retry_def outbox_complete_def at_error)
  have key: "outbox_read oo (item_key oo k i) store = Inr (m (k, i))" if "authority_key a = Inr k" for a k i
    using rel_read[OF rel(1)] rel(3) that by (auto simp: is_authority_key_def)
  show ?thesis
  proof (cases c)
    case (Enqueue v input now)
    then show ?thesis using up enqueue_refines[OF rel(1,2) _ ok(1)] ok(2) rel(3) by simp
  next
    case (Begin v i)
    show ?thesis
    proof (cases "item_at v i")
      case (Inr q)
      obtain a k where q: "q = (k, i)" "parse_authority v = Inr a" "outbox_key oo a i = Inr (item_key oo k i)"
        "authority_key a = Inr k" using at_key[OF Inr] by metis
      then show ?thesis using Begin Inr key[OF q(4)] update_refines[OF rel(1,3), of v i k] record_ok_next
        by (auto simp: outbox_begin_def throw_if_def Let_def split: option.splits)
    qed (use error Begin in blast)
  next
    case (Retry v i b)
    show ?thesis
    proof (cases "item_at v i")
      case (Inr q)
      obtain a k where q: "q = (k, i)" "parse_authority v = Inr a" "outbox_key oo a i = Inr (item_key oo k i)"
        "authority_key a = Inr k" using at_key[OF Inr] by metis
      then show ?thesis using Retry Inr key[OF q(4)] update_refines[OF rel(1,3), of v i k] record_ok_next rel'
        by (auto simp: outbox_retry_def split: option.splits)
    qed (use error Retry in blast)
  next
    case (Complete v i)
    show ?thesis
    proof (cases "item_at v i")
      case (Inr q)
      obtain a k where q: "q = (k, i)" "parse_authority v = Inr a" "outbox_key oo a i = Inr (item_key oo k i)"
        "authority_key a = Inr k" using at_key[OF Inr] by metis
      then have "is_authority_key k" by (auto simp: is_authority_key_def)
      then show ?thesis using Complete Inr q rel_delete[OF rel'] by (simp add: outbox_complete_def)
    qed (use error Complete in blast)
  qed
qed

lemma run_refines:
  assumes "outbox_rel oo n store m" "0 \<le> n" "n + int (length cs) \<le> max_safe_integer" "payloads_ok oo" "list_all call_ok cs"
  shows "fst (run_calls (outbox_apply oo) cs store) = fst (run_calls (item_apply oo) cs m) \<and>
    outbox_rel oo (n + int (length cs)) (snd (run_calls (outbox_apply oo) cs store)) (snd (run_calls (item_apply oo) cs m))"
  using assms
proof (induction cs arbitrary: n store m)
  case (Cons c cs)
  have "same_outcome oo (n + 1) (outbox_apply oo c store) (item_apply oo c m)"
    using Cons.prems by (intro call_refines) auto
  then consider e where "outbox_apply oo c store = Inl e" "item_apply oo c m = Inl e"
    | r s' m' where "outbox_apply oo c store = Inr (r, s')" "item_apply oo c m = Inr (r, m')" "outbox_rel oo (n + 1) s' m'"
    by (auto simp: same_outcome_def)
  then show ?case
  proof cases
    case 1
    have "outbox_rel oo (n + 1) store m" using rel_mono[OF Cons.prems(1)] by simp
    from Cons.IH[OF this] show ?thesis using 1 Cons.prems by (simp add: case_prod_beta add.assoc)
  next
    case 2
    from Cons.IH[OF 2(3)] show ?thesis using 2 Cons.prems by (simp add: case_prod_beta add.assoc)
  qed
qed simp

section \<open>What is proved of it\<close>

abbreviation outbox_after :: "outbox_options \<Rightarrow> outbox_call list \<Rightarrow> secure_store" where
  "outbox_after oo cs \<equiv> snd (run_calls (outbox_apply oo) cs (\<lambda>_. None))"

abbreviation items_after :: "outbox_options \<Rightarrow> outbox_call list \<Rightarrow> outbox_items" where
  "items_after oo cs \<equiv> snd (run_calls (item_apply oo) cs (\<lambda>_. None))"

lemma empty_rel: "outbox_rel oo 0 (\<lambda>_. None) (\<lambda>_. None)"
  by (simp add: outbox_rel_def)

lemma outbox_after_rel:
  assumes "payloads_ok oo" "list_all call_ok cs" "int (length cs) \<le> max_safe_integer"
  shows "outbox_rel oo (int (length cs)) (outbox_after oo cs) (items_after oo cs)"
  using run_refines[OF empty_rel, of cs] assms by simp

text \<open>C29. The outbox is a map from authorities and ids to records: every sequence of calls on it, on an empty
  secure store, returns and throws what the same calls on the map do, and afterwards reading an item gives what
  the map has. What was written is always read back; no item is taken for another.\<close>

theorem outbox_refines_map:
  assumes "payloads_ok oo" "list_all call_ok cs" "int (length cs) \<le> max_safe_integer" "authority_key a = Inr k"
  shows "fst (run_calls (outbox_apply oo) cs (\<lambda>_. None)) = fst (run_calls (item_apply oo) cs (\<lambda>_. None)) \<and>
    outbox_read oo (item_key oo k i) (outbox_after oo cs) = Inr (items_after oo cs (k, i))"
proof -
  have "is_authority_key k" using assms(4) by (auto simp: is_authority_key_def)
  then show ?thesis
    using run_refines[OF empty_rel, of cs] rel_read[OF outbox_after_rel[OF assms(1-3)] assms(3)] assms by simp
qed

definition example_outbox :: outbox_options where
  "example_outbox = \<lparr> oo_namespace = ''outbox'', oo_parsePayload = (\<lambda>_. Inr JNull), oo_is_datetime = (\<lambda>_. True),
     oo_number = (\<lambda>_. []) \<rparr>"

definition example_input :: outbox_input where
  "example_input = \<lparr> oi_id = ''0123456789abcdef'', oi_idempotencyKey = ''0123456789abcdef'',
     oi_requestDigest = replicate 64 CHR ''0'', oi_payload = JNull \<rparr>"

definition example_calls :: "outbox_call list" where
  "example_calls = [Enqueue (example_authority ''a'') example_input ''now'', Begin (example_authority ''a'') ''0123456789abcdef'',
     Retry (example_authority ''a'') ''0123456789abcdef'' False]"

lemma example_outbox_ok:
  "payloads_ok example_outbox" "list_all call_ok example_calls" "int (length example_calls) \<le> max_safe_integer"
proof -
  have "utf8_ok ''0123456789abcdef''" "utf8_ok ''now''" by code_simp+
  then show "payloads_ok example_outbox" "list_all call_ok example_calls" "int (length example_calls) \<le> max_safe_integer"
    by (simp_all add: payloads_ok_def example_outbox_def example_calls_def example_input_def max_safe_integer_def)
qed

definition example_client :: client_authority where
  "example_client = \<lparr> ca_backendId = ''koed'', ca_principalId = ''a'', ca_credentialReference = ''c'',
     ca_credentialGeneration = 1, ca_authorityGeneration = 2 \<rparr>"

lemma example_client_key:
  "parse_authority (example_authority ''a'') = Inr example_client" "authority_key example_client = Inr ''koed:a:1:2''"
  "outbox_id_ok ''0123456789abcdef''" by code_simp+

lemma example_items:
  "item_at (example_authority ''a'') ''0123456789abcdef'' = Inr (''koed:a:1:2'', ''0123456789abcdef'')"
  "parse_outbox_record example_outbox (outbox_value (new_item ''koed:a:1:2'' example_input ''now'')) =
     Inr (new_item ''koed:a:1:2'' example_input ''now'')"
proof -
  show "item_at (example_authority ''a'') ''0123456789abcdef'' = Inr (''koed:a:1:2'', ''0123456789abcdef'')"
    by (simp add: item_at_def example_client_key)
  have "js_trim ''0123456789abcdef'' = ''0123456789abcdef''" "is_sha256 (replicate 64 CHR ''0'')"
    "js_length ''0123456789abcdef'' = 16" "js_length ''koed:a:1:2'' = 10" by code_simp+
  then have "record_ok example_outbox 0 (new_item ''koed:a:1:2'' example_input ''now'')"
    unfolding record_ok_def
    by (simp add: new_item_def example_input_def example_outbox_def del: js_length_Cons) code_simp
  from record_ok_parses[OF this] show "parse_outbox_record example_outbox (outbox_value (new_item ''koed:a:1:2'' example_input ''now'')) =
     Inr (new_item ''koed:a:1:2'' example_input ''now'')" by (simp add: max_safe_integer_def)
qed

definition example_item :: outbox_record where
  "example_item = (new_item ''koed:a:1:2'' example_input ''now'') \<lparr> ob_attempt := 1, ob_state := Indeterminate \<rparr>"

lemma example_items_after:
  "items_after example_outbox example_calls (''koed:a:1:2'', ''0123456789abcdef'') = Some example_item"
proof -
  have "oi_id example_input = ''0123456789abcdef''" "ob_attempt (new_item k example_input t) = 0"
    "ob_state (new_item k example_input t) = Queued" for k t
    by (simp_all add: example_input_def new_item_def)
  then show ?thesis by (simp add: example_calls_def example_items example_item_def Let_def)
qed

theorem outbox_refines_map_witness:
  "outbox_read example_outbox (item_key example_outbox ''koed:a:1:2'' ''0123456789abcdef'')
     (outbox_after example_outbox example_calls) = Inr (Some example_item)"
  using outbox_refines_map[OF example_outbox_ok example_client_key(2)] example_items_after by simp

text \<open>A call that may make an item sendable again, or removes it.\<close>

primrec settles :: "string \<times> string \<Rightarrow> outbox_call \<Rightarrow> bool" where
  "settles q (Enqueue v input now) \<longleftrightarrow> False"
| "settles q (Begin v i) \<longleftrightarrow> False"
| "settles q (Retry v i b) \<longleftrightarrow> b \<and> item_at v i = Inr q"
| "settles q (Complete v i) \<longleftrightarrow> item_at v i = Inr q"

lemma indeterminate_call:
  assumes "m q = Some r" "ob_state r = Indeterminate" "\<not> settles q c" "item_apply oo c m = Inr (x, m')"
  shows "\<exists>r'. m' q = Some r' \<and> ob_state r' = Indeterminate"
proof (cases c)
  case (Begin v i)
  then obtain q' y where "m q' = Some y" "ob_state y \<noteq> Indeterminate"
    "m' = m(q' \<mapsto> y \<lparr> ob_attempt := ob_attempt y + 1, ob_state := Dispatching \<rparr>)"
    using assms(4) by (auto simp: result_simps Let_def split: option.splits if_splits)
  then show ?thesis using assms(1,2) by auto
qed (use assms in \<open>auto simp: result_simps Let_def split: option.splits if_splits\<close>)

lemma indeterminate_calls:
  assumes "m q = Some r" "ob_state r = Indeterminate" "list_all (\<lambda>c. \<not> settles q c) cs"
  shows "\<exists>r'. snd (run_calls (item_apply oo) cs m) q = Some r' \<and> ob_state r' = Indeterminate"
  using assms
proof (induction cs arbitrary: m r)
  case (Cons c cs)
  show ?case
  proof (cases "item_apply oo c m")
    case (Inl e)
    then show ?thesis using Cons.IH[of m r] Cons.prems by (simp add: case_prod_beta)
  next
    case (Inr p)
    then obtain x m' where p: "item_apply oo c m = Inr (x, m')" by (cases p) simp
    obtain r' where "m' q = Some r'" "ob_state r' = Indeterminate"
      using indeterminate_call[OF Cons.prems(1,2) _ p] Cons.prems(3) by auto
    then show ?thesis using Cons.IH[of m' r'] p Cons.prems(3) by (simp add: case_prod_beta)
  qed
qed simp

lemma run_calls_append:
  "snd (run_calls f (cs @ ds) s) = snd (run_calls f ds (snd (run_calls f cs s)))"
  by (induction cs arbitrary: s) (auto simp: case_prod_beta split: sum.splits)

text \<open>C30. A command whose outcome is not known is not sent again by itself: from when an item is indeterminate, and
  whatever calls follow, beginning it is refused until the item is retried as known to be absent or completed.\<close>

theorem indeterminate_item_is_not_sent:
  assumes ok: "payloads_ok oo" "list_all call_ok (cs @ ds)" "int (length (cs @ ds)) \<le> max_safe_integer"
    and at: "parse_authority v = Inr a" "authority_key a = Inr k" "outbox_id_ok i"
    and r: "outbox_read oo (item_key oo k i) (outbox_after oo cs) = Inr (Some r)" "ob_state r = Indeterminate"
    and "list_all (\<lambda>c. \<not> settles (k, i) c) ds"
  shows "outbox_begin oo v i (outbox_after oo (cs @ ds)) =
    Inl (PlainError ''Portable client outbox outcome is indeterminate'')"
proof -
  have ik: "is_authority_key k" using at(2) by (auto simp: is_authority_key_def)
  have "outbox_rel oo (int (length cs)) (outbox_after oo cs) (items_after oo cs)"
    using ok by (intro outbox_after_rel) auto
  from rel_read[OF this _ ik, of i] have "items_after oo cs (k, i) = Some r" using r(1) ok(3) by simp
  from indeterminate_calls[where m = "items_after oo cs" and q = "(k, i)" and cs = ds and oo = oo, OF this r(2) assms(9)]
  obtain r'
    where r': "items_after oo (cs @ ds) (k, i) = Some r'" "ob_state r' = Indeterminate"
    by (auto simp: run_calls_append)
  have "outbox_rel oo (int (length (cs @ ds))) (outbox_after oo (cs @ ds)) (items_after oo (cs @ ds))"
    by (rule outbox_after_rel[OF ok])
  from rel_read[OF this ok(3) ik, of i] show ?thesis
    using r' at by (simp add: outbox_begin_def outbox_key_def)
qed

theorem indeterminate_item_is_not_sent_witness:
  "outbox_begin example_outbox (example_authority ''a'') ''0123456789abcdef'' (outbox_after example_outbox (example_calls @ [])) =
     Inl (PlainError ''Portable client outbox outcome is indeterminate'')"
proof (rule indeterminate_item_is_not_sent[OF example_outbox_ok(1) _ _ example_client_key(1,2,3)])
  show "list_all call_ok (example_calls @ [])" "int (length (example_calls @ [])) \<le> max_safe_integer"
    using example_outbox_ok by simp_all
  have "is_authority_key ''koed:a:1:2''" using example_client_key(2) by (auto simp: is_authority_key_def)
  from rel_read[OF outbox_after_rel[OF example_outbox_ok] example_outbox_ok(3) this]
  show "outbox_read example_outbox (item_key example_outbox ''koed:a:1:2'' ''0123456789abcdef'')
      (outbox_after example_outbox example_calls) = Inr (Some example_item)"
    using example_items_after by simp
qed (simp_all add: example_item_def)

text \<open>Enqueueing the same command again is answered with the item that is there, whatever became of the clock;
  but if the idempotency key came with white space around it, the same call is refused as a reuse of the id.\<close>

theorem enqueue_again:
  assumes ok: "payloads_ok oo" "call_ok (Enqueue v input now)"
    and first: "outbox_enqueue oo v input now (\<lambda>_. None) = Inr (Some r, store)"
  shows "outbox_enqueue oo v input now' store =
    (if js_trim (oi_idempotencyKey input) = oi_idempotencyKey input then Inr (Some r, store)
     else Inl (PlainError ''Portable client outbox identity was reused''))"
proof -
  obtain a k where a: "parse_authority v = Inr a" "authority_key a = Inr k" "outbox_id_ok (oi_id input)"
    and r: "parse_outbox_record oo (outbox_value (new_item k input now)) = Inr r"
    and s: "store = outbox_put oo (item_key oo k (oi_id input)) r (\<lambda>_. None)"
    using first by (auto simp: outbox_enqueue_def outbox_key_def outbox_read_def result_simps)
  have f: "ob_idempotencyKey r = js_trim (oi_idempotencyKey input)" "ob_requestDigest r = oi_requestDigest input"
    using r by (auto simp: parse_outbox_record_def outbox_value_def new_item_def strict_members_def fld_def
        trimmed_text_def sized_text_def text_such_def Let_def result_simps split: if_splits option.splits)
  have "record_ok oo 0 r" using new_item_ok[OF r ok(1) authority_key_ascii[OF a(2)] a(3)] ok(2) by simp
  then have "outbox_read oo (item_key oo k (oi_id input)) store = Inr (Some r)"
    using s record_ok_parses record_ok_text by (simp add: outbox_read_def max_safe_integer_def)
  then show ?thesis using a f by (auto simp: outbox_enqueue_def outbox_key_def throw_if_def)
qed

theorem enqueue_again_witness:
  "\<exists>store. outbox_enqueue example_outbox (example_authority ''a'') example_input ''later'' store =
     Inr (Some (new_item ''koed:a:1:2'' example_input ''now''), store)"
proof -
  let ?r = "new_item ''koed:a:1:2'' example_input ''now''"
  have i: "oi_id example_input = ''0123456789abcdef''" "oi_idempotencyKey example_input = ''0123456789abcdef''"
    by (simp_all add: example_input_def)
  have first: "outbox_enqueue example_outbox (example_authority ''a'') example_input ''now'' (\<lambda>_. None) =
      Inr (Some ?r, outbox_put example_outbox (item_key example_outbox ''koed:a:1:2'' ''0123456789abcdef'') ?r (\<lambda>_. None))"
    by (simp add: outbox_enqueue_def outbox_key_def outbox_read_def example_client_key example_items i)
  have "js_trim ''0123456789abcdef'' = ''0123456789abcdef''" by code_simp
  moreover have "call_ok (Enqueue (example_authority ''a'') example_input ''now'')"
    using example_outbox_ok(2) by (simp add: example_calls_def)
  ultimately show ?thesis using enqueue_again[OF example_outbox_ok(1) _ first, of "''later''"] i by auto
qed

end
