(* ===== verification/Js_Double.thy ===== *)
theory Js_Double
  imports Js_Json "HOL-Library.Log_Nat"
begin

text \<open>
  JavaScript numbers where a program adds and compares them: IEEE 754 doubles. Every finite double is a
  multiple of \<open>2 ^ -1074\<close>, so it is modelled by that multiple, an integer: the order is the order of the
  integers, and the sum of two doubles is the sum of the integers rounded to 53 significant bits, ties
  to even. The two zeros are one value, which no sum or comparison can tell.
\<close>

section \<open>Doubles, their order and their sum\<close>

datatype double = Finite int | Plus_infinity | Minus_infinity | Not_a_number

text \<open>Rounding a magnitude to 53 significant bits.\<close>

definition round_magnitude :: "int \<Rightarrow> int" where
  "round_magnitude n = (let unit = 2 ^ (floorlog 2 (nat n) - 53) in round_half_even n unit * unit)"

definition round_double :: "int \<Rightarrow> double" where
  "round_double n =
     (let q = round_magnitude \<bar>n\<bar> in
      if q < 2 ^ 2098 then Finite (sgn n * q) else if 0 < n then Plus_infinity else Minus_infinity)"

fun double_add :: "double \<Rightarrow> double \<Rightarrow> double" where
  "double_add (Finite m) (Finite n) = round_double (m + n)"
| "double_add Not_a_number _ = Not_a_number"
| "double_add _ Not_a_number = Not_a_number"
| "double_add Plus_infinity Minus_infinity = Not_a_number"
| "double_add Minus_infinity Plus_infinity = Not_a_number"
| "double_add Plus_infinity _ = Plus_infinity"
| "double_add _ Plus_infinity = Plus_infinity"
| "double_add Minus_infinity _ = Minus_infinity"
| "double_add _ Minus_infinity = Minus_infinity"

text \<open>\<^verbatim>\<open>x < y\<close>, which is false as soon as one side is not a number.\<close>

fun double_less :: "double \<Rightarrow> double \<Rightarrow> bool" where
  "double_less (Finite m) (Finite n) \<longleftrightarrow> m < n"
| "double_less Not_a_number _ \<longleftrightarrow> False"
| "double_less _ Not_a_number \<longleftrightarrow> False"
| "double_less x y \<longleftrightarrow> x \<noteq> y \<and> (x = Minus_infinity \<or> y = Plus_infinity)"

definition double_le :: "double \<Rightarrow> double \<Rightarrow> bool" where
  "double_le x y \<longleftrightarrow> double_less x y \<or> x = y \<and> x \<noteq> Not_a_number"

text \<open>\<^verbatim>\<open>Number.isFinite(x)\<close>.\<close>

fun is_finite :: "double \<Rightarrow> bool" where
  "is_finite (Finite n) \<longleftrightarrow> True"
| "is_finite _ \<longleftrightarrow> False"

text \<open>The double a numeral or a parsed number stands for: a fraction \<open>m / d\<close> of a double has a power of two for \<open>d\<close>.\<close>

definition double_of_int :: "int \<Rightarrow> double" where
  "double_of_int n = round_double (n * 2 ^ 1074)"

fun double_of_number :: "js_number \<Rightarrow> double" where
  "double_of_number (Whole n) = double_of_int n"
| "double_of_number (Fraction m d) = round_double (m * 2 ^ 1074 div d)"
| "double_of_number Not_finite = Not_a_number"

section \<open>Rounding is monotone and keeps short integers\<close>

lemma round_half_even_mono: "0 < d \<Longrightarrow> m \<le> n \<Longrightarrow> round_half_even m d \<le> round_half_even n d"
proof -
  assume d: "0 < d" and mn: "m \<le> n"
  define q r q' r' where "q = m div d" "r = m mod d" "q' = n div d" "r' = n mod d"
  have m: "m = q * d + r" "0 \<le> r" "r < d" and n: "n = q' * d + r'" "0 \<le> r'" "r' < d"
    using d by (simp_all add: q_r_q'_r'_def)
  have qq: "q \<le> q'" unfolding q_r_q'_r'_def using d mn by (simp add: zdiv_mono1)
  show ?thesis
  proof (cases "q = q'")
    case True
    then have "r \<le> r'" using mn m n by simp
    then show ?thesis using True by (auto simp: round_half_even_def Let_def simp flip: q_r_q'_r'_def)
  next
    case False
    then have "q + 1 \<le> q'" using qq by simp
    then show ?thesis by (simp add: round_half_even_def Let_def flip: q_r_q'_r'_def)
  qed
qed

lemma round_half_even_exact: "0 < d \<Longrightarrow> round_half_even (q * d) d = q"
  by (simp add: round_half_even_def Let_def)

lemma power_split: "u \<le> b \<Longrightarrow> (2 :: int) ^ (b - u) * 2 ^ u = 2 ^ b"
  by (simp flip: power_add)

lemma round_magnitude_multiple:
  assumes "0 \<le> k" "k < 2 ^ 53"
  shows "round_magnitude (k * 2 ^ e) = k * 2 ^ e"
proof (cases "k = 0")
  case False
  then have k: "0 < nat k" "nat k < 2 ^ 53" using assms by (simp_all add: nat_less_iff)
  have "nat (k * 2 ^ e) = nat k * 2 ^ e" using assms by (simp add: nat_mult_distrib nat_power_eq)
  then have log: "floorlog 2 (nat (k * 2 ^ e)) = floorlog 2 (nat k) + e" using k by simp
  have "floorlog 2 (nat k) \<le> 53" using k by (intro floorlog_leI) simp_all
  then have le: "floorlog 2 (nat k) + e - 53 \<le> e" by simp
  define u where "u = floorlog 2 (nat k) + e - 53"
  have e: "k * 2 ^ e = (k * 2 ^ (e - u)) * 2 ^ u"
    unfolding mult.assoc power_split[OF le[folded u_def]] ..
  have "round_half_even (k * 2 ^ e) (2 ^ u) = k * 2 ^ (e - u)"
    unfolding e by (rule round_half_even_exact) simp
  then show ?thesis unfolding round_magnitude_def log Let_def u_def[symmetric] by (simp only: e[symmetric])
qed (simp add: round_magnitude_def round_half_even_def Let_def)

lemma round_magnitude_zero [simp]: "round_magnitude 0 = 0"
  using round_magnitude_multiple[of 0 0] by simp

lemma magnitude_bounds:
  assumes "0 < n"
  shows "2 ^ (floorlog 2 (nat n) - 1) \<le> n" "n < 2 ^ floorlog 2 (nat n)" "0 < floorlog 2 (nat n)"
proof -
  have "2 ^ (floorlog 2 (nat n) - 1) \<le> nat n" "nat n < 2 ^ floorlog 2 (nat n)"
    using floorlog_bounds[of "nat n" 2] assms by simp_all
  then show "2 ^ (floorlog 2 (nat n) - 1) \<le> n" "n < 2 ^ floorlog 2 (nat n)"
    using assms by (metis int_nat_eq less_imp_le of_nat_le_iff of_nat_less_iff of_nat_numeral of_nat_power)+
  show "0 < floorlog 2 (nat n)" using assms floorlog_eq_zero_iff[of 2 "nat n"] by simp
qed

text \<open>What is rounded stays between the powers of two around it.\<close>

lemma round_magnitude_below:
  assumes "0 < n" "floorlog 2 (nat n) \<le> b"
  shows "round_magnitude n \<le> 2 ^ b"
proof -
  define u where "u = floorlog 2 (nat n) - 53"
  have u: "u \<le> b" using assms(2) by (simp add: u_def)
  have "(2 :: int) ^ floorlog 2 (nat n) \<le> 2 ^ b" using assms(2) by (rule power_increasing) simp
  then have "n \<le> 2 ^ (b - u) * 2 ^ u" unfolding power_split[OF u] using magnitude_bounds(2)[OF assms(1)] by linarith
  then have "round_half_even n (2 ^ u) \<le> 2 ^ (b - u)"
    using round_half_even_mono[of "2 ^ u" n "2 ^ (b - u) * 2 ^ u"] round_half_even_exact[of "2 ^ u"] by simp
  then have "round_magnitude n \<le> 2 ^ (b - u) * 2 ^ u" by (simp add: round_magnitude_def Let_def u_def)
  then show ?thesis unfolding power_split[OF u] .
qed

lemma round_magnitude_above:
  assumes "0 < n"
  shows "2 ^ (floorlog 2 (nat n) - 1) \<le> round_magnitude n"
proof -
  define b u where "b = floorlog 2 (nat n) - 1" and "u = floorlog 2 (nat n) - 53"
  have u: "u \<le> b" by (simp add: b_def u_def)
  have "2 ^ (b - u) * 2 ^ u \<le> n" unfolding power_split[OF u] unfolding b_def by (rule magnitude_bounds(1)[OF assms])
  then have "2 ^ (b - u) \<le> round_half_even n (2 ^ u)"
    using round_half_even_mono[of "2 ^ u" "2 ^ (b - u) * 2 ^ u" n] round_half_even_exact[of "2 ^ u"] by simp
  then have "2 ^ (b - u) * 2 ^ u \<le> round_magnitude n" by (simp add: round_magnitude_def Let_def u_def)
  then show ?thesis unfolding power_split[OF u] unfolding b_def .
qed

lemma round_magnitude_nonneg: "0 \<le> n \<Longrightarrow> 0 \<le> round_magnitude n"
proof (cases "n = 0")
  case False
  assume "0 \<le> n"
  then have "2 ^ (floorlog 2 (nat n) - 1) \<le> round_magnitude n" using False by (intro round_magnitude_above) simp
  then show ?thesis by (rule order_trans[rotated]) simp
qed simp

lemma round_magnitude_mono:
  assumes "0 \<le> m" "m \<le> n"
  shows "round_magnitude m \<le> round_magnitude n"
proof -
  consider "m = 0" | "floorlog 2 (nat m) = floorlog 2 (nat n)" | "0 < m" "floorlog 2 (nat m) \<noteq> floorlog 2 (nat n)"
    using assms(1) by linarith
  then show ?thesis
  proof cases
    case 1
    then show ?thesis using round_magnitude_nonneg assms by simp
  next
    case 2
    have "round_half_even m (2 ^ (floorlog 2 (nat n) - 53)) \<le> round_half_even n (2 ^ (floorlog 2 (nat n) - 53))"
      by (rule round_half_even_mono) (simp_all add: assms)
    then show ?thesis unfolding round_magnitude_def 2 Let_def by (rule mult_right_mono) simp
  next
    case 3
    have "floorlog 2 (nat m) \<le> floorlog 2 (nat n)" using assms by (intro floorlog_mono) simp
    then have "floorlog 2 (nat m) \<le> floorlog 2 (nat n) - 1" using 3 by simp
    then have "round_magnitude m \<le> 2 ^ (floorlog 2 (nat n) - 1)" by (rule round_magnitude_below[OF 3(1)])
    also have "\<dots> \<le> round_magnitude n" by (rule round_magnitude_above) (use 3(1) assms in simp)
    finally show ?thesis .
  qed
qed

text \<open>The rounded value as a signed integer, before the overflow test.\<close>

definition round_signed :: "int \<Rightarrow> int" where
  "round_signed n = sgn n * round_magnitude \<bar>n\<bar>"

lemma round_signed_neg: "round_signed (- n) = - round_signed n"
  by (simp add: round_signed_def)

lemma round_signed_nonneg: "0 \<le> n \<Longrightarrow> round_signed n = round_magnitude n"
  by (cases "n = 0") (simp_all add: round_signed_def)

lemma round_signed_mono: "m \<le> n \<Longrightarrow> round_signed m \<le> round_signed n"
proof -
  assume mn: "m \<le> n"
  consider "0 \<le> m" | "m \<le> 0" "0 \<le> n" | "n \<le> 0" using mn by linarith
  then show ?thesis
  proof cases
    case 1
    then show ?thesis using mn by (simp add: round_signed_nonneg round_magnitude_mono)
  next
    case 2
    then have "0 \<le> round_signed (- m)" "0 \<le> round_signed n" by (simp_all add: round_signed_nonneg round_magnitude_nonneg)
    then show ?thesis by (simp add: round_signed_neg)
  next
    case 3
    then have "round_signed (- n) \<le> round_signed (- m)" using mn by (simp add: round_signed_nonneg round_magnitude_mono)
    then show ?thesis by (simp add: round_signed_neg)
  qed
qed

lemma round_signed_multiple:
  assumes "\<bar>k\<bar> < 2 ^ 53"
  shows "round_signed (k * 2 ^ e) = k * 2 ^ e"
proof -
  have "\<bar>k * 2 ^ e\<bar> = \<bar>k\<bar> * 2 ^ e" by (simp add: abs_mult)
  then have "round_magnitude \<bar>k * 2 ^ e\<bar> = \<bar>k\<bar> * 2 ^ e" using round_magnitude_multiple[of "\<bar>k\<bar>" e] assms by simp
  then have "round_signed (k * 2 ^ e) = sgn k * (\<bar>k\<bar> * 2 ^ e)" by (simp add: round_signed_def sgn_mult)
  then show ?thesis by (simp add: sgn_mult_abs flip: mult.assoc)
qed

text \<open>A sum whose exact value lies between two representable values does so after rounding.\<close>

lemma round_signed_between:
  assumes "\<bar>j\<bar> < 2 ^ 53" "\<bar>k\<bar> < 2 ^ 53" "j * 2 ^ e \<le> n" "n \<le> k * 2 ^ e"
  shows "j * 2 ^ e \<le> round_signed n" "round_signed n \<le> k * 2 ^ e"
  using round_signed_mono[OF assms(3)] round_signed_mono[OF assms(4)] round_signed_multiple assms(1,2) by simp_all

lemma round_double_finite:
  assumes "\<bar>n\<bar> < 2 ^ 2097"
  shows "round_double n = Finite (round_signed n)"
proof -
  have log: "floorlog 2 (nat \<bar>n\<bar>) \<le> 2097"
  proof (rule floorlog_leI)
    show "nat \<bar>n\<bar> < 2 ^ 2097" using assms by (metis nat_less_iff abs_ge_zero of_nat_numeral of_nat_power)
  qed simp_all
  have "round_magnitude \<bar>n\<bar> \<le> 2 ^ 2097"
  proof (cases "n = 0")
    case False
    then show ?thesis using log by (intro round_magnitude_below) simp_all
  qed (simp only: abs_zero round_magnitude_zero zero_le_power zero_le_numeral)
  also have "(2 :: int) ^ 2097 < 2 ^ 2098" by (rule power_strict_increasing) simp_all
  finally show ?thesis by (simp only: round_double_def round_signed_def Let_def if_True)
qed

end
