(* ===== verification/Privacy_Decoder.thy ===== *)
theory Privacy_Decoder
  imports Js_Double
begin

text \<open>
  The labels of the privacy classifier and the decoder that turns its scores into labels: \<^verbatim>\<open>labels.ts\<close>
  and \<^verbatim>\<open>decoder.ts\<close> of \<^verbatim>\<open>apps/privacy-service\<close>. A token's label is \<open>Outside\<close> or a boundary tag (begin,
  inside, end, single) with a privacy label; the decoder is the Viterbi algorithm over the label
  sequences the tags allow, on scores that are doubles and are added with rounding.

  A \<^verbatim>\<open>ClassificationError\<close> is a \<open>PlainError\<close>: its handlers look at the class only, and no other
  plain error is thrown here.
\<close>

section \<open>Labels\<close>

datatype privacy_label =
    Account_number | Private_address | Private_date | Private_email
  | Private_person | Private_phone | Private_url | Secret

datatype boundary_tag = Begin | Inside | End | Single

datatype token_label = Outside | Tagged boundary_tag privacy_label

primrec label_text :: "privacy_label \<Rightarrow> string" where
  "label_text Account_number = ''account_number''"
| "label_text Private_address = ''private_address''"
| "label_text Private_date = ''private_date''"
| "label_text Private_email = ''private_email''"
| "label_text Private_person = ''private_person''"
| "label_text Private_phone = ''private_phone''"
| "label_text Private_url = ''private_url''"
| "label_text Secret = ''secret''"

primrec tag_text :: "boundary_tag \<Rightarrow> string" where
  "tag_text Begin = ''B''"
| "tag_text Inside = ''I''"
| "tag_text End = ''E''"
| "tag_text Single = ''S''"

primrec token_text :: "token_label \<Rightarrow> string" where
  "token_text Outside = ''O''"
| "token_text (Tagged t l) = tag_text t @ ''-'' @ label_text l"

definition model_labels :: "privacy_label list" where
  "model_labels =
     [Account_number, Private_address, Private_date, Private_email, Private_person, Private_phone, Private_url, Secret]"

definition token_labels :: "token_label list" where
  "token_labels = Outside # concat (map (\<lambda>l. map (\<lambda>t. Tagged t l) [Begin, Inside, End, Single]) model_labels)"

definition upper_char :: "char \<Rightarrow> char" where
  "upper_char c = (if is_lower c then char_of (of_char c - 32 :: nat) else c)"

definition placeholder_for :: "privacy_label \<Rightarrow> string" where
  "placeholder_for l = ''['' @ map upper_char (label_text l) @ '']''"

text \<open>\<^verbatim>\<open>parseTokenLabel\<close> on the text of a label, and on the label itself.\<close>

definition parse_token_text :: "string \<Rightarrow> (string \<times> string) option" where
  "parse_token_text s =
     (if s = ''O'' then None else Some (takeWhile (\<lambda>c. c \<noteq> CHR ''-'') s, drop 1 (dropWhile (\<lambda>c. c \<noteq> CHR ''-'') s)))"

primrec parse_token_label :: "token_label \<Rightarrow> (boundary_tag \<times> privacy_label) option" where
  "parse_token_label Outside = None"
| "parse_token_label (Tagged t l) = Some (t, l)"

lemma parse_token_text_label:
  "parse_token_text (token_text x) = map_option (map_prod tag_text label_text) (parse_token_label x)"
proof (cases x)
  case (Tagged t l)
  then show ?thesis by (cases t) (simp_all add: parse_token_text_def)
qed (simp add: parse_token_text_def)

section \<open>Calibration\<close>

record viterbi_biases =
  background_stay :: double
  background_to_start :: double
  inside_to_continue :: double
  inside_to_end :: double
  end_to_background :: double
  end_to_start :: double

definition zero_viterbi_biases :: viterbi_biases where
  "zero_viterbi_biases =
     \<lparr>background_stay = Finite 0, background_to_start = Finite 0, inside_to_continue = Finite 0,
      inside_to_end = Finite 0, end_to_background = Finite 0, end_to_start = Finite 0\<rparr>"

definition calibration_keys :: "(string \<times> (double \<Rightarrow> viterbi_biases \<Rightarrow> viterbi_biases)) list" where
  "calibration_keys =
     [(''transition_bias_background_stay'', \<lambda>x b. b\<lparr>background_stay := x\<rparr>),
      (''transition_bias_background_to_start'', \<lambda>x b. b\<lparr>background_to_start := x\<rparr>),
      (''transition_bias_inside_to_continue'', \<lambda>x b. b\<lparr>inside_to_continue := x\<rparr>),
      (''transition_bias_inside_to_end'', \<lambda>x b. b\<lparr>inside_to_end := x\<rparr>),
      (''transition_bias_end_to_background'', \<lambda>x b. b\<lparr>end_to_background := x\<rparr>),
      (''transition_bias_end_to_start'', \<lambda>x b. b\<lparr>end_to_start := x\<rparr>)]"

text \<open>\<^verbatim>\<open>requireExactKeys\<close> on a parsed JSON value.\<close>

definition calibration_object :: "js_value \<Rightarrow> string list \<Rightarrow> string \<Rightarrow> members result" where
  "calibration_object value expected path =
     (case value of
        JObj kvs \<Rightarrow> if keys_differ kvs expected then Inl (PlainError (path @ '' has an invalid schema'')) else Inr kvs
      | _ \<Rightarrow> Inl (PlainError (path @ '' must be an object'')))"

definition finite_number :: "js_value \<Rightarrow> double option" where
  "finite_number v = (case v of JNum n \<Rightarrow> if is_finite (double_of_number n) then Some (double_of_number n) else None | _ \<Rightarrow> None)"

fun read_biases :: "members \<Rightarrow> (string \<times> (double \<Rightarrow> viterbi_biases \<Rightarrow> viterbi_biases)) list \<Rightarrow> viterbi_biases \<Rightarrow> viterbi_biases result" where
  "read_biases kvs [] output = Inr output"
| "read_biases kvs ((source, target) # keys) output =
     (case finite_number (fld kvs source) of
        None \<Rightarrow> Inl (PlainError (''calibration bias '' @ source @ '' must be finite''))
      | Some bias \<Rightarrow> read_biases kvs keys (target bias output))"

definition parse_viterbi_calibration :: "js_value \<Rightarrow> viterbi_biases result" where
  "parse_viterbi_calibration value =
     ebind (calibration_object value [''operating_points''] ''calibration'') (\<lambda>artifact.
     ebind (calibration_object (fld artifact ''operating_points'') [''default''] ''calibration.operating_points'') (\<lambda>points.
     ebind (calibration_object (fld points ''default'') [''biases''] ''calibration.operating_points.default'') (\<lambda>entry.
     ebind (calibration_object (fld entry ''biases'') (map fst calibration_keys) ''calibration.operating_points.default.biases'')
       (\<lambda>biases. read_biases biases calibration_keys zero_viterbi_biases))))"

section \<open>Which label may follow which\<close>

definition valid_start :: "token_label \<Rightarrow> bool" where
  "valid_start label = (case parse_token_label label of None \<Rightarrow> True | Some (t, l) \<Rightarrow> t = Begin \<or> t = Single)"

definition valid_end :: "token_label \<Rightarrow> bool" where
  "valid_end label = (case parse_token_label label of None \<Rightarrow> True | Some (t, l) \<Rightarrow> t = End \<or> t = Single)"

definition valid_transition :: "token_label \<Rightarrow> token_label \<Rightarrow> bool" where
  "valid_transition previous following =
     (case (parse_token_label previous, parse_token_label following) of
        (None, None) \<Rightarrow> True
      | (None, Some (t, l)) \<Rightarrow> t = Begin \<or> t = Single
      | (Some (s, k), None) \<Rightarrow> s = End \<or> s = Single
      | (Some (s, k), Some (t, l)) \<Rightarrow>
          if s = End \<or> s = Single then t = Begin \<or> t = Single
          else k = l \<and> (t = Inside \<or> t = End))"

definition transition_bias :: "token_label \<Rightarrow> token_label \<Rightarrow> viterbi_biases \<Rightarrow> double" where
  "transition_bias previous following biases =
     (case parse_token_label previous of
        None \<Rightarrow> if parse_token_label following = None then background_stay biases else background_to_start biases
      | Some (t, l) \<Rightarrow>
          if t = Begin \<or> t = Inside
          then (if map_option fst (parse_token_label following) = Some Inside then inside_to_continue biases
                else inside_to_end biases)
          else (if parse_token_label following = None then end_to_background biases else end_to_start biases))"

section \<open>The decoder\<close>

definition negative_infinity :: double where
  "negative_infinity = double_of_int (- (10 ^ 30))"

definition validate_row :: "double list \<Rightarrow> unit result" where
  "validate_row row =
     ebind (throw_if (length row \<noteq> length token_labels)
       (PlainError (''privacy runtime emitted '' @ decimal (length row) @ '' logits; expected '' @ decimal (length token_labels)))) (\<lambda>_.
     throw_if (list_ex (\<lambda>score. \<not> is_finite score) row) (PlainError ''privacy runtime emitted non-finite logits''))"

definition validate_logits :: "double list list \<Rightarrow> unit result" where
  "validate_logits logits = ebind (emap validate_row logits) (\<lambda>_. Inr ())"

text \<open>The scores of the first token.\<close>

definition first_scores :: "double list \<Rightarrow> double list" where
  "first_scores row = map2 (\<lambda>label score. if valid_start label then score else negative_infinity) token_labels row"

text \<open>The best predecessor of a label: a loop over all labels that keeps the best candidate so far.\<close>

definition consider_previous ::
  "viterbi_biases \<Rightarrow> double list \<Rightarrow> token_label \<Rightarrow> nat \<Rightarrow> double \<times> nat option \<Rightarrow> double \<times> nat option" where
  "consider_previous biases previous_scores following i best =
     (if \<not> valid_transition (token_labels ! i) following then best
      else
        (let candidate = double_add (previous_scores ! i) (transition_bias (token_labels ! i) following biases) in
         if double_less (fst best) candidate then (candidate, Some i) else best))"

definition best_previous :: "viterbi_biases \<Rightarrow> double list \<Rightarrow> token_label \<Rightarrow> double \<times> nat option" where
  "best_previous biases previous_scores following =
     fold (consider_previous biases previous_scores following) [0..<length token_labels] (negative_infinity, None)"

text \<open>The loop over the tokens after the first: the scores of the last token, and for each token the
  best predecessor of every label.\<close>

fun viterbi_forward :: "viterbi_biases \<Rightarrow> double list \<Rightarrow> double list list \<Rightarrow> double list \<times> nat option list list" where
  "viterbi_forward biases scores [] = (scores, [])"
| "viterbi_forward biases scores (row # rows) =
     (let chosen = map (best_previous biases scores) token_labels;
          (final, backpointers) = viterbi_forward biases (map2 (\<lambda>best score. double_add (fst best) score) chosen row) rows
      in (final, map snd chosen # backpointers))"

text \<open>The best label the sequence may end with.\<close>

definition consider_end :: "double list \<Rightarrow> nat \<Rightarrow> double \<times> nat option \<Rightarrow> double \<times> nat option" where
  "consider_end scores i best =
     (if valid_end (token_labels ! i) \<and> double_less (fst best) (scores ! i) then (scores ! i, Some i) else best)"

definition best_end :: "double list \<Rightarrow> double \<times> nat option" where
  "best_end scores = fold (consider_end scores) [0..<length token_labels] (negative_infinity, None)"

text \<open>Following the pointers back from the last token.\<close>

fun backtrace :: "nat option list list \<Rightarrow> nat \<Rightarrow> token_label list \<Rightarrow> token_label list result" where
  "backtrace [] label path = Inr path"
| "backtrace (pointers # earlier) label path =
     (case pointers ! label of
        None \<Rightarrow> Inl (PlainError ''privacy Viterbi backtrace failed'')
      | Some i \<Rightarrow> backtrace earlier i (token_labels ! i # path))"

definition half_negative_infinity :: double where
  "half_negative_infinity = Finite (case negative_infinity of Finite n \<Rightarrow> n div 2 | _ \<Rightarrow> 0)"

definition decode_bioes_viterbi :: "double list list \<Rightarrow> viterbi_biases \<Rightarrow> token_label list result" where
  "decode_bioes_viterbi logits biases =
     ebind (validate_logits logits) (\<lambda>_.
       case logits of
         [] \<Rightarrow> Inr []
       | row # rows \<Rightarrow>
           (let (scores, backpointers) = viterbi_forward biases (first_scores row) rows;
                (best, ending) = best_end scores
            in case ending of
                 None \<Rightarrow> Inl (PlainError ''privacy logits have no valid BIOES path'')
               | Some label \<Rightarrow>
                   if double_le best half_negative_infinity
                   then Inl (PlainError ''privacy logits have no valid BIOES path'')
                   else backtrace (rev backpointers) label [token_labels ! label]))"

end
