(* ===== verification/Js_Buffer.thy ===== *)
theory Js_Buffer
  imports Utf16
begin

text \<open>
  Node buffers of text and the byte offsets of its characters. A span of bytes that begins and ends where
  characters do can be cut out of valid UTF-8, and what is left is valid; the same places are those where
  the UTF-16 code units do not split a surrogate pair.
\<close>

section \<open>Buffers and characters\<close>

text \<open>\<^verbatim>\<open>Buffer.from(text, "utf8")\<close>: a lone surrogate becomes the replacement character, also three bytes.\<close>

definition replacement_char :: string where
  "replacement_char = [CHR 0xEF, CHR 0xBF, CHR 0xBD]"

fun buffer_from :: "string \<Rightarrow> string" where
  "buffer_from (a # b # c # s) =
     (if of_char a = (237 :: nat) \<and> byte_in 160 191 b then replacement_char @ buffer_from s
      else a # buffer_from (b # c # s))"
| "buffer_from s = s"

text \<open>\<^verbatim>\<open>buffer.toString("utf8")\<close>: what is not valid is replaced, as much as could begin a character at a time.\<close>

fun valid_run :: "(char \<Rightarrow> bool) list \<Rightarrow> string \<Rightarrow> nat" where
  "valid_run (p # ps) (c # s) = (if p c then Suc (valid_run ps s) else 0)"
| "valid_run _ _ = 0"

function buffer_to_string :: "string \<Rightarrow> string" where
  "buffer_to_string [] = []"
| "buffer_to_string (c # s) =
     (case utf8_tail c of
        None \<Rightarrow> replacement_char @ buffer_to_string s
      | Some expect \<Rightarrow>
          (let n = valid_run expect s in
           (if n = length expect then c # take n s else replacement_char) @ buffer_to_string (drop n s)))"
  by pat_completeness auto
termination
  by (relation "measure length") (auto simp: Let_def)

text \<open>The characters of a text, and the byte offsets where they begin and end.\<close>

function characters :: "string \<Rightarrow> string list" where
  "characters [] = []"
| "characters (c # s) = (c # takeWhile is_cont s) # characters (dropWhile is_cont s)"
  by pat_completeness auto
termination
  by (relation "measure length") (auto simp: le_imp_less_Suc length_dropWhile_le)

fun boundaries_from :: "nat \<Rightarrow> string list \<Rightarrow> nat list" where
  "boundaries_from n [] = [n]"
| "boundaries_from n (c # cs) = n # boundaries_from (n + length c) cs"

definition utf8_boundaries :: "string \<Rightarrow> nat list" where
  "utf8_boundaries text_value = boundaries_from 0 (characters text_value)"


section \<open>Valid text is made of valid characters\<close>

lemma concat_characters [simp]: "concat (characters s) = s"
  by (induction s rule: characters.induct) simp_all

lemma characters_nonempty: "c \<in> set (characters s) \<Longrightarrow> c \<noteq> []"
  by (induction s rule: characters.induct) auto

lemma cont_no_lead: "is_cont c \<Longrightarrow> utf8_tail c = None"
  by (auto simp: utf8_tail_def byte_in_def)

lemma utf8_from_tail:
  "utf8_from e s \<Longrightarrow> list_all (\<lambda>p. \<forall>d. p d \<longrightarrow> is_cont d) e \<Longrightarrow>
   takeWhile is_cont s = take (length e) s \<and> dropWhile is_cont s = drop (length e) s \<and> length e \<le> length s \<and>
   utf8_from e (take (length e) s) \<and> utf8_from [] (drop (length e) s)"
proof (induction e s rule: utf8_from.induct)
  case (1 e)
  then show ?case by simp
next
  case (2 p e c s)
  then show ?case by simp
next
  case (3 c s)
  then show ?case using cont_no_lead[of c] by (auto split: option.splits)
qed

lemma utf8_characters:
  "utf8_ok (c # s) \<Longrightarrow>
   utf8_ok (c # takeWhile is_cont s) \<and> utf8_ok (dropWhile is_cont s)"
  using utf8_from_tail utf8_tail_cont[of c] unfolding utf8_ok_def by (auto split: option.splits)

lemma utf8_ok_characters: "utf8_ok s \<Longrightarrow> c \<in> set (characters s) \<Longrightarrow> utf8_ok c"
  by (induction s rule: characters.induct) (auto dest: utf8_characters)

lemma utf8_ok_concat: "(\<And>c. c \<in> set cs \<Longrightarrow> utf8_ok c) \<Longrightarrow> utf8_ok (concat cs)"
proof (induction cs)
  case (Cons c cs)
  then show ?case by (simp add: utf8_ok_append)
qed (simp add: utf8_ok_def)

lemma buffer_from_utf8: "surrogate_free s \<Longrightarrow> buffer_from s = s"
  by (induction s rule: buffer_from.induct) auto

lemma valid_run_all: "utf8_from e s \<Longrightarrow> valid_run e s = length e \<and> utf8_from [] (drop (length e) s)"
  by (induction e s rule: utf8_from.induct) auto

lemma buffer_to_string_utf8: "utf8_from [] s \<Longrightarrow> buffer_to_string s = s"
proof (induction s rule: buffer_to_string.induct)
  case (2 c s)
  then obtain e where e: "utf8_tail c = Some e" "utf8_from e s" by (auto split: option.splits)
  then have n: "valid_run e s = length e" "utf8_from [] (drop (length e) s)" using valid_run_all by blast+
  then have "buffer_to_string (drop (length e) s) = drop (length e) s" using 2(2)[OF e(1)] by simp
  then show ?case using e n by simp
qed simp

section \<open>Where characters begin and end\<close>

lemma boundaries_from_iff:
  "k \<in> set (boundaries_from n cs) \<longleftrightarrow> (\<exists>m \<le> length cs. k = n + length (concat (take m cs)))"
proof (induction cs arbitrary: n)
  case (Cons c cs)
  have "(\<exists>m \<le> length (c # cs). k = n + length (concat (take m (c # cs)))) \<longleftrightarrow>
      k = n \<or> (\<exists>m \<le> length cs. k = n + length c + length (concat (take m cs)))"
  proof
    assume "\<exists>m \<le> length (c # cs). k = n + length (concat (take m (c # cs)))"
    then obtain m where "m \<le> length (c # cs)" "k = n + length (concat (take m (c # cs)))" by blast
    then show "k = n \<or> (\<exists>m \<le> length cs. k = n + length c + length (concat (take m cs)))" by (cases m) auto
  next
    assume "k = n \<or> (\<exists>m \<le> length cs. k = n + length c + length (concat (take m cs)))"
    then show "\<exists>m \<le> length (c # cs). k = n + length (concat (take m (c # cs)))"
    proof
      assume "\<exists>m \<le> length cs. k = n + length c + length (concat (take m cs))"
      then obtain m where "m \<le> length cs" "k = n + length c + length (concat (take m cs))" by blast
      then show ?thesis by (intro exI[of _ "Suc m"]) simp
    qed (rule exI[of _ 0], simp)
  qed
  then show ?case using Cons by auto
qed simp

lemma utf8_boundary_iff:
  "k \<in> set (utf8_boundaries s) \<longleftrightarrow> (\<exists>m \<le> length (characters s). k = length (concat (take m (characters s))))"
  by (simp add: utf8_boundaries_def boundaries_from_iff)

lemma concat_take_drop: "concat (take m cs) @ concat (drop m cs) = concat cs"
  by (metis append_take_drop_id concat_append)

lemma utf8_boundary_cut:
  assumes "utf8_ok s" "k \<in> set (utf8_boundaries s)"
  shows "utf8_ok (take k s)" "utf8_ok (drop k s)" "k \<le> length s"
proof -
  obtain m where m: "k = length (concat (take m (characters s)))" using assms(2) by (auto simp: utf8_boundary_iff)
  have "s = concat (take m (characters s)) @ concat (drop m (characters s))" by (simp add: concat_take_drop)
  then have s: "take k s = concat (take m (characters s))" "drop k s = concat (drop m (characters s))"
    unfolding m by (metis append_eq_conv_conj)+
  show "utf8_ok (take k s)" "utf8_ok (drop k s)"
    unfolding s by (rule utf8_ok_concat, use utf8_ok_characters[OF assms(1)] in \<open>meson in_set_takeD in_set_dropD\<close>)+
  show "k \<le> length s" using \<open>s = _\<close> unfolding m by (metis le_add1 length_append)
qed

text \<open>The offsets on one side of an offset: boundaries of a cut text.\<close>

lemma concat_take_mono: "m \<le> n \<Longrightarrow> length (concat (take m cs)) \<le> length (concat (take n cs))"
  by (metis concat_append le_add1 le_add_diff_inverse length_append take_add)

lemma concat_take_less:
  assumes "m < n" "n \<le> length cs" "[] \<notin> set cs"
  shows "length (concat (take m cs)) < length (concat (take n cs))"
proof -
  have "take (Suc m) cs = take m cs @ [cs ! m]" using assms by (simp add: take_Suc_conv_app_nth)
  moreover have "cs ! m \<noteq> []" using assms by (metis less_le_trans nth_mem)
  ultimately have "length (concat (take m cs)) < length (concat (take (Suc m) cs))" by simp
  also have "\<dots> \<le> length (concat (take n cs))" using assms(1) by (intro concat_take_mono) simp
  finally show ?thesis .
qed

lemma slice_utf8:
  assumes "utf8_ok s" "i \<in> set (utf8_boundaries s)" "j \<in> set (utf8_boundaries s)"
  shows "utf8_ok (take (j - i) (drop i s))"
proof (cases "i \<le> j")
  case True
  obtain m n where m: "i = length (concat (take m (characters s)))" and n: "j = length (concat (take n (characters s)))"
      "m \<le> length (characters s)" "n \<le> length (characters s)"
    using assms(2,3) by (auto simp: utf8_boundary_iff)
  show ?thesis
  proof (cases "m \<le> n")
    case True
    have "take n (characters s) = take m (characters s) @ take (n - m) (drop m (characters s))"
      using True by (metis le_add_diff_inverse take_add)
    then have j: "concat (take n (characters s)) = concat (take m (characters s)) @ concat (take (n - m) (drop m (characters s)))"
      by (metis concat_append)
    have "s = concat (take n (characters s)) @ concat (drop n (characters s))" by (simp add: concat_take_drop)
    then have "s = concat (take m (characters s)) @ concat (take (n - m) (drop m (characters s))) @ concat (drop n (characters s))"
      unfolding j by simp
    then have "drop i s = concat (take (n - m) (drop m (characters s))) @ concat (drop n (characters s))"
      unfolding m by (metis append_eq_conv_conj)
    moreover have "j - i = length (concat (take (n - m) (drop m (characters s))))" unfolding m n(1) j by simp
    ultimately have "take (j - i) (drop i s) = concat (take (n - m) (drop m (characters s)))" by simp
    then show ?thesis
      using utf8_ok_concat[of "take (n - m) (drop m (characters s))"] utf8_ok_characters[OF assms(1)]
      by (metis in_set_dropD in_set_takeD)
  next
    case False
    then have "j \<le> i" unfolding m n(1) by (intro concat_take_mono) simp
    then show ?thesis by (simp add: utf8_ok_def)
  qed
qed (simp add: utf8_ok_def)

section \<open>Code units of characters\<close>

definition high_surrogate :: "nat \<Rightarrow> bool" where
  "high_surrogate x \<longleftrightarrow> 55296 \<le> x \<and> x < 56320"

definition low_surrogate :: "nat \<Rightarrow> bool" where
  "low_surrogate x \<longleftrightarrow> 56320 \<le> x \<and> x < 57344"

definition splits_pair :: "nat list \<Rightarrow> nat \<Rightarrow> bool" where
  "splits_pair u i \<longleftrightarrow> 0 < i \<and> i < length u \<and> high_surrogate (u ! (i - 1)) \<and> low_surrogate (u ! i)"

lemma character_units:
  assumes "utf8_tail a = Some e" "utf8_from e ks" "length ks = length e"
  shows "(\<exists>u. utf16_units (a # ks) = [u]) \<or> (\<exists>h l. utf16_units (a # ks) = [h, l] \<and> high_surrogate h \<and> low_surrogate l)"
    and "utf16_units (a # ks @ t) = utf16_units (a # ks) @ utf16_units t"
proof -
  define n :: nat where "n = of_char a"
  consider (one) "n < 128" "e = []" | (two) "194 \<le> n" "n < 224" "e = [is_cont]"
    | (three) P where "224 \<le> n" "n < 240" "e = [P, is_cont]"
    | (four) P where "240 \<le> n" "n \<le> 244" "e = [P, is_cont, is_cont]" "\<forall>b. P b \<longrightarrow> is_cont b"
        "n = 240 \<longrightarrow> (\<forall>b. P b \<longrightarrow> 144 \<le> (of_char b :: nat))" "n = 244 \<longrightarrow> (\<forall>b. P b \<longrightarrow> (of_char b :: nat) < 144)"
    using assms(1) by (auto simp: utf8_tail_def n_def byte_in_def split: if_splits)
  then have "((\<exists>u. utf16_units (a # ks) = [u]) \<or> (\<exists>h l. utf16_units (a # ks) = [h, l] \<and> high_surrogate h \<and> low_surrogate l)) \<and>
      utf16_units (a # ks @ t) = utf16_units (a # ks) @ utf16_units t"
  proof cases
    case one
    then show ?thesis using assms(3) by (simp add: n_def Let_def)
  next
    case two
    then obtain b where "ks = [b]" using assms(3) by (auto simp: length_Suc_conv)
    then show ?thesis using two by (simp add: n_def Let_def)
  next
    case three
    then obtain b c where "ks = [b, c]" using assms(3) by (auto simp: length_Suc_conv)
    then show ?thesis using three by (simp add: n_def Let_def)
  next
    case four
    then obtain b c d where ks: "ks = [b, c, d]" using assms(3) by (auto simp: length_Suc_conv)
    then have "P b" "is_cont b" "is_cont c" "is_cont d" using four assms(2) by auto
    then have "(of_char a mod 8 * 262144 + of_char b mod 64 * 4096 + of_char c mod 64 * 64 + of_char d mod 64 - (65536 :: nat)) div 1024 < 1024"
      using four_bytes(2)[of a b c d] four by (simp add: n_def)
    then show ?thesis using ks four
      by (simp add: n_def Let_def high_surrogate_def low_surrogate_def)
  qed
  then show "(\<exists>u. utf16_units (a # ks) = [u]) \<or> (\<exists>h l. utf16_units (a # ks) = [h, l] \<and> high_surrogate h \<and> low_surrogate l)"
    and "utf16_units (a # ks @ t) = utf16_units (a # ks) @ utf16_units t" by blast+
qed

lemma utf16_units_append: "utf8_ok s \<Longrightarrow> utf16_units (s @ t) = utf16_units s @ utf16_units t"
proof (induction s rule: characters.induct)
  case (2 a s)
  obtain e where e: "utf8_tail a = Some e" "utf8_from e s" using 2(2) by (auto simp: utf8_ok_def split: option.splits)
  define ks rest where "ks = takeWhile is_cont s" and "rest = dropWhile is_cont s"
  have s: "s = ks @ rest" by (simp add: ks_def rest_def)
  have tail: "ks = take (length e) s" "length e \<le> length s" "utf8_from e (take (length e) s)" "utf8_ok rest"
    using utf8_from_tail[OF e(2) utf8_tail_cont[OF e(1)]] by (simp_all add: ks_def rest_def utf8_ok_def)
  then have len: "length ks = length e" "utf8_from e ks" by simp_all
  note unit = character_units(2)[OF e(1) len(2,1)]
  have "utf16_units (a # s @ t) = utf16_units (a # ks) @ utf16_units (rest @ t)" unfolding s append_assoc by (rule unit)
  also have "utf16_units (rest @ t) = utf16_units rest @ utf16_units t" using 2(1)[folded rest_def] tail(4) .
  also have "utf16_units (a # ks) @ utf16_units rest @ utf16_units t = utf16_units (a # s) @ utf16_units t"
    unfolding s using unit[of rest] by (simp del: utf16_units.simps)
  finally show ?case by (simp del: utf16_units.simps)
qed simp

text \<open>Offsets in code units that split no pair are offsets of characters.\<close>

lemma unit_cut:
  assumes "utf8_ok s" "i \<le> length (utf16_units s)" "\<not> splits_pair (utf16_units s) i"
  shows "\<exists>m \<le> length (characters s). take i (utf16_units s) = utf16_units (concat (take m (characters s))) \<and>
    units_text (take i (utf16_units s)) = concat (take m (characters s))"
proof -
  have "\<exists>m \<le> length (characters s). take i (utf16_units s) = utf16_units (concat (take m (characters s)))"
    using assms
  proof (induction s arbitrary: i rule: characters.induct)
    case (2 a s)
    obtain e where e: "utf8_tail a = Some e" "utf8_from e s" using 2(2) by (auto simp: utf8_ok_def split: option.splits)
    define ks rest where "ks = takeWhile is_cont s" and "rest = dropWhile is_cont s"
    have s: "s = ks @ rest" by (simp add: ks_def rest_def)
    have tail: "ks = take (length e) s" "length e \<le> length s" "utf8_from e (take (length e) s)" "utf8_ok rest"
      using utf8_from_tail[OF e(2) utf8_tail_cont[OF e(1)]] by (simp_all add: ks_def rest_def utf8_ok_def)
    then have len: "length ks = length e" "utf8_from e ks" by simp_all
    have units: "utf16_units (a # s) = utf16_units (a # ks) @ utf16_units rest"
      using character_units(2)[OF e(1) len(2,1), of rest] s by simp
    let ?c = "utf16_units (a # ks)"
    have chars: "characters (a # s) = (a # ks) # characters rest" by (simp add: ks_def rest_def)
    consider "i = 0" | "0 < i" "i < length ?c" | "length ?c \<le> i" by linarith
    then show ?case
    proof cases
      case 1
      then show ?thesis by (intro exI[of _ 0]) simp
    next
      case 2
      then obtain h l where hl: "?c = [h, l]" "high_surrogate h" "low_surrogate l"
        using character_units(1)[OF e(1) len(2,1)] by auto
      then have "i = 1" using 2 by simp
      then have "splits_pair (utf16_units (a # s)) i" using hl unfolding units splits_pair_def by simp
      then show ?thesis using "2.prems"(3) by blast
    next
      case 3
      define i' where "i' = i - length ?c"
      have i: "i = length ?c + i'" using 3 by (simp add: i'_def)
      have bound: "i' \<le> length (utf16_units rest)" using "2.prems"(2) unfolding units i by simp
      have "\<not> splits_pair (utf16_units rest) i'"
      proof
        assume sp: "splits_pair (utf16_units rest) i'"
        then obtain i'' where i'': "i' = Suc i''" unfolding splits_pair_def by (cases i') auto
        have "splits_pair (utf16_units (a # s)) i" using sp unfolding units i i'' splits_pair_def
          by (simp add: nth_append)
        then show False using "2.prems"(3) by blast
      qed
      from "2.IH"[folded rest_def, OF tail(4) bound this] obtain m where
        m: "m \<le> length (characters rest)" "take i' (utf16_units rest) = utf16_units (concat (take m (characters rest)))"
        by blast
      have "take i (utf16_units (a # s)) = ?c @ take i' (utf16_units rest)" unfolding units i by simp
      also have "\<dots> = utf16_units (a # ks @ concat (take m (characters rest)))"
        unfolding m(2) by (rule character_units(2)[OF e(1) len(2,1), symmetric])
      finally show ?thesis using m(1) chars by (intro exI[of _ "Suc m"]) simp
    qed
  qed (intro exI[of _ 0], simp)
  then obtain m where m: "m \<le> length (characters s)" "take i (utf16_units s) = utf16_units (concat (take m (characters s)))"
    by blast
  have "utf8_ok (concat (take m (characters s)))"
    by (rule utf8_ok_concat, use utf8_ok_characters[OF assms(1)] in \<open>meson in_set_takeD\<close>)
  then show ?thesis using m units_text_inverse unfolding utf8_ok_def by metis
qed

end
