(* ===== verification/Privacy_Secrets.thy ===== *)
theory Privacy_Secrets
  imports Js_Buffer "HOL-Library.Product_Lexorder"
begin

text \<open>
  The deterministic detector of credentials, \<^verbatim>\<open>secrets.ts\<close> of \<^verbatim>\<open>apps/privacy-service\<close>: six regular
  expressions run over the text, as JavaScript runs them. A text is the list of its UTF-16 code units
  (the expressions have no \<^verbatim>\<open>u\<close> flag), and a position an index into it. A matcher returns the ways an
  expression can match from a position in the order the engine tries them, so the first one is the match.
\<close>

section \<open>Regular expressions\<close>

text \<open>The constructs the patterns use: a class of code units, a class repeated (greedily with bounds, or
  as few times as possible), sequence, alternative, \<^verbatim>\<open>\b\<close>, lookahead and the capture group.\<close>

datatype regex =
    Class "nat \<Rightarrow> bool"
  | Repeat "nat \<Rightarrow> bool" nat "nat option"
  | Repeat_lazy "nat \<Rightarrow> bool"
  | Empty
  | Then regex regex
  | Or regex regex
  | Word_boundary
  | Ahead regex
  | Group regex

definition unit_between :: "char \<Rightarrow> char \<Rightarrow> nat \<Rightarrow> bool" where
  "unit_between lo hi x \<longleftrightarrow> of_char lo \<le> x \<and> x \<le> of_char hi"

definition unit_in :: "string \<Rightarrow> nat \<Rightarrow> bool" where
  "unit_in cs x \<longleftrightarrow> x \<in> of_char ` set cs"

definition word_unit :: "nat \<Rightarrow> bool" where
  "word_unit x \<longleftrightarrow>
     unit_between CHR ''a'' CHR ''z'' x \<or> unit_between CHR ''A'' CHR ''Z'' x \<or> unit_between CHR ''0'' CHR ''9'' x \<or> x = 95"

text \<open>\<^verbatim>\<open>\s\<close>: white space and line terminators.\<close>

definition space_unit :: "nat \<Rightarrow> bool" where
  "space_unit x \<longleftrightarrow>
     9 \<le> x \<and> x \<le> 13 \<or> x = 32 \<or> x = 160 \<or> x = 5760 \<or> 8192 \<le> x \<and> x \<le> 8202 \<or> x = 8232 \<or> x = 8233 \<or> x = 8239 \<or>
     x = 8287 \<or> x = 12288 \<or> x = 65279"

definition word_at :: "nat list \<Rightarrow> nat \<Rightarrow> bool" where
  "word_at u i \<longleftrightarrow> i < length u \<and> word_unit (u ! i)"

definition boundary_at :: "nat list \<Rightarrow> nat \<Rightarrow> bool" where
  "boundary_at u i \<longleftrightarrow> (0 < i \<and> word_at u (i - 1)) \<noteq> word_at u i"

definition run_length :: "(nat \<Rightarrow> bool) \<Rightarrow> nat list \<Rightarrow> nat \<Rightarrow> nat" where
  "run_length P u i = length (takeWhile P (drop i u))"

type_synonym match_state = "nat \<times> (nat \<times> nat) option"

text \<open>\<open>matches_at u r (i, c)\<close>: the ends of the matches of \<open>r\<close> from \<open>i\<close>, with the capture, in the engine's order.\<close>

primrec matches_at :: "nat list \<Rightarrow> regex \<Rightarrow> match_state \<Rightarrow> match_state list" where
  "matches_at u (Class P) = (\<lambda>(i, c). if i < length u \<and> P (u ! i) then [(Suc i, c)] else [])"
| "matches_at u (Repeat P lo hi) =
     (\<lambda>(i, c). let n = run_length P u i; most = (case hi of None \<Rightarrow> n | Some h \<Rightarrow> min h n) in
       map (\<lambda>k. (i + k, c)) (rev [lo..<Suc most]))"
| "matches_at u (Repeat_lazy P) = (\<lambda>(i, c). map (\<lambda>k. (i + k, c)) [0..<Suc (run_length P u i)])"
| "matches_at u Empty = (\<lambda>s. [s])"
| "matches_at u (Then r q) = (\<lambda>s. concat (map (matches_at u q) (matches_at u r s)))"
| "matches_at u (Or r q) = (\<lambda>s. matches_at u r s @ matches_at u q s)"
| "matches_at u Word_boundary = (\<lambda>(i, c). if boundary_at u i then [(i, c)] else [])"
| "matches_at u (Ahead r) = (\<lambda>(i, c). case matches_at u r (i, c) of [] \<Rightarrow> [] | (j, d) # _ \<Rightarrow> [(i, d)])"
| "matches_at u (Group r) = (\<lambda>(i, c). map (\<lambda>(j, d). (j, Some (i, j))) (matches_at u r (i, c)))"

text \<open>The first match at or after a position, and \<^verbatim>\<open>matchAll\<close>: after a match the search goes on from its
  end, one further after an empty match.\<close>

record regex_match =
  match_start :: nat
  match_end :: nat
  match_group :: "(nat \<times> nat) option"

definition first_match :: "nat list \<Rightarrow> regex \<Rightarrow> nat \<Rightarrow> regex_match option" where
  "first_match u r i =
     (case List.find (\<lambda>k. matches_at u r (k, None) \<noteq> []) [i..<Suc (length u)] of
        None \<Rightarrow> None
      | Some k \<Rightarrow>
          (case hd (matches_at u r (k, None)) of
             (j, c) \<Rightarrow> Some \<lparr>match_start = k, match_end = j, match_group = c\<rparr>))"

lemma first_match_Some:
  assumes "first_match u r i = Some m"
  obtains k where "i \<le> k" "k \<le> length u" "matches_at u r (k, None) \<noteq> []"
    "m = (case hd (matches_at u r (k, None)) of (j, c) \<Rightarrow> \<lparr>match_start = k, match_end = j, match_group = c\<rparr>)"
proof -
  obtain k where k: "List.find (\<lambda>k. matches_at u r (k, None) \<noteq> []) [i..<Suc (length u)] = Some k"
    using assms by (cases "List.find (\<lambda>k. matches_at u r (k, None) \<noteq> []) [i..<Suc (length u)]")
      (simp_all add: first_match_def del: upt_Suc)
  then have "k \<in> set [i..<Suc (length u)]" and some: "matches_at u r (k, None) \<noteq> []" using find_SomeD by fastforce+
  then have "i \<le> k" "k \<le> length u" by auto
  moreover have "m = (case hd (matches_at u r (k, None)) of (j, c) \<Rightarrow> \<lparr>match_start = k, match_end = j, match_group = c\<rparr>)"
    using assms k by (simp add: first_match_def del: upt_Suc split: prod.splits)
  ultimately show ?thesis using some by (intro that)
qed

lemma first_match_start: "first_match u r i = Some m \<Longrightarrow> i \<le> match_start m \<and> match_start m \<le> length u"
  by (auto elim!: first_match_Some split: prod.splits)

function match_all :: "nat list \<Rightarrow> regex \<Rightarrow> nat \<Rightarrow> regex_match list" where
  "match_all u r i =
     (case first_match u r i of
        None \<Rightarrow> []
      | Some m \<Rightarrow> m # match_all u r (max (Suc (match_start m)) (match_end m)))"
  by pat_completeness auto
termination
  by (relation "measure (\<lambda>(u, r, i). Suc (length u) - i)") (auto dest!: first_match_start)

declare match_all.simps [simp del]

section \<open>The patterns\<close>

definition literal :: "string \<Rightarrow> regex" where
  "literal cs = foldr (\<lambda>c r. Then (Class (\<lambda>x. x = of_char c)) r) cs Empty"

text \<open>A letter under the flag \<^verbatim>\<open>i\<close>; every literal of the flagged patterns is lower case.\<close>

definition literal_any_case :: "string \<Rightarrow> regex" where
  "literal_any_case cs = foldr (\<lambda>c r. Then (Class (\<lambda>x. x = of_char c \<or> is_lower c \<and> x + 32 = of_char c)) r) cs Empty"

fun any_of :: "regex list \<Rightarrow> regex" where
  "any_of [] = Empty"
| "any_of [r] = r"
| "any_of (r # q # rs) = Or r (any_of (q # rs))"

fun in_sequence :: "regex list \<Rightarrow> regex" where
  "in_sequence [] = Empty"
| "in_sequence (r # rs) = Then r (in_sequence rs)"

abbreviation optional_quote :: regex where
  "optional_quote \<equiv> Repeat (unit_in [CHR 0x22, CHR 0x27]) 0 (Some 1)"

abbreviation dash_or_underscore :: regex where
  "dash_or_underscore \<equiv> Repeat (unit_in ''_-'') 0 (Some 1)"

definition alnum_unit :: "nat \<Rightarrow> bool" where
  "alnum_unit x \<longleftrightarrow>
     unit_between CHR ''a'' CHR ''z'' x \<or> unit_between CHR ''A'' CHR ''Z'' x \<or> unit_between CHR ''0'' CHR ''9'' x"

text \<open>\<^verbatim>\<open>[^\s"']\<close>, and the punctuation of the last pattern.\<close>

definition plain_unit :: "nat \<Rightarrow> bool" where
  "plain_unit x \<longleftrightarrow> \<not> space_unit x \<and> x \<noteq> 34 \<and> x \<noteq> 39"

definition mark_unit :: "nat \<Rightarrow> bool" where
  "mark_unit = unit_in ''_~!@#$%^&*()+={}[]|;:?<>./-''"

definition key_header :: "string \<Rightarrow> regex" where
  "key_header word =
     in_sequence
       [literal (''-----'' @ word @ '' ''), Or (any_of [literal ''RSA '', literal ''EC '', literal ''OPENSSH '']) Empty,
        literal ''PRIVATE KEY-----'']"

definition aws_key :: regex where
  "aws_key =
     in_sequence
       [Word_boundary, literal ''AKIA'',
        Repeat (\<lambda>x. unit_between CHR ''0'' CHR ''9'' x \<or> unit_between CHR ''A'' CHR ''Z'' x) 16 (Some 16), Word_boundary]"

definition github_token :: regex where
  "github_token =
     in_sequence
       [Word_boundary, any_of [literal ''ghp'', literal ''github_pat''], literal ''_'',
        Repeat (\<lambda>x. alnum_unit x \<or> x = 95) 20 (Some 255), Word_boundary]"

definition sk_key :: regex where
  "sk_key =
     in_sequence
       [Word_boundary, literal ''sk-'', Repeat (\<lambda>x. alnum_unit x \<or> x = 95 \<or> x = 45) 20 None, Word_boundary]"

definition private_key :: regex where
  "private_key = in_sequence [key_header ''BEGIN'', Repeat_lazy (\<lambda>x. True), key_header ''END'']"

definition assigned_secret :: regex where
  "assigned_secret =
     in_sequence
       ([Word_boundary,
         any_of
           [in_sequence [literal_any_case ''api'', dash_or_underscore, literal_any_case ''key''],
            in_sequence [literal_any_case ''access'', dash_or_underscore, literal_any_case ''token''],
            in_sequence [literal_any_case ''client'', dash_or_underscore, literal_any_case ''secret''],
            literal_any_case ''password'', literal_any_case ''passphrase'', literal_any_case ''passcode''],
         Repeat space_unit 0 None, Class (unit_in '':=''), Repeat space_unit 0 None, optional_quote] @
        [Group (Repeat plain_unit 8 None)])"

definition stated_secret :: regex where
  "stated_secret =
     in_sequence
       ([Word_boundary, any_of [literal_any_case ''password'', literal_any_case ''passphrase'', literal_any_case ''passcode''],
         Repeat space_unit 1 None, any_of [literal_any_case ''is'', literal_any_case ''was''],
         Repeat space_unit 1 None, optional_quote] @
        [Group
           (in_sequence
              [Ahead (Repeat plain_unit 8 None),
               Ahead (Then (Repeat plain_unit 0 None) (Class (\<lambda>x. unit_between CHR ''0'' CHR ''9'' x \<or> mark_unit x))),
               Repeat (\<lambda>x. alnum_unit x \<or> mark_unit x) 7 None, Class alnum_unit])])"

definition secret_patterns :: "regex list" where
  "secret_patterns = [aws_key, github_token, sk_key, private_key, assigned_secret, stated_secret]"

section \<open>The detector\<close>

text \<open>\<^verbatim>\<open>whole.lastIndexOf(captured)\<close>, -1 if it does not occur.\<close>

definition last_index_of :: "nat list \<Rightarrow> nat list \<Rightarrow> int" where
  "last_index_of whole part =
     (case filter (\<lambda>j. take (length part) (drop j whole) = part) [0..<Suc (length whole)] of
        [] \<Rightarrow> - 1
      | js \<Rightarrow> int (last js))"

definition slice_of :: "'a list \<Rightarrow> nat \<Rightarrow> nat \<Rightarrow> 'a list" where
  "slice_of xs i j = take (j - i) (drop i xs)"

definition secret_span :: "nat list \<Rightarrow> regex_match \<Rightarrow> int \<times> int" where
  "secret_span u m =
     (let whole = slice_of u (match_start m) (match_end m);
          captured = map_option (\<lambda>(i, j). slice_of u i j) (match_group m);
          relative_start = (case captured of None \<Rightarrow> 0 | Some part \<Rightarrow> if part = [] then 0 else last_index_of whole part);
          start = int (match_start m) + relative_start
      in (start, start + int (length (case captured of None \<Rightarrow> whole | Some part \<Rightarrow> part))))"

definition detect_deterministic_secrets :: "nat list \<Rightarrow> (int \<times> int) list" where
  "detect_deterministic_secrets u =
     sort_key (\<lambda>(start, end_at). (start, - end_at))
       (concat (map (\<lambda>pattern. map (secret_span u) (match_all u pattern 0)) secret_patterns))"

section \<open>Where a match can lie\<close>

lemma run_length_le: "i \<le> length u \<Longrightarrow> i + run_length P u i \<le> length u"
  unfolding run_length_def using length_takeWhile_le[of P "drop i u"] by simp

lemma run_length_holds: "k < run_length P u i \<Longrightarrow> P (u ! (i + k))"
  unfolding run_length_def
  by (metis length_takeWhile_le less_imp_le less_le_trans nth_drop nth_mem set_takeWhileD takeWhile_nth nth_take
      length_drop le_cases drop_all list.size(3) not_less_zero takeWhile.simps(1))

lemma run_length_stops: "i + run_length P u i < length u \<Longrightarrow> \<not> P (u ! (i + run_length P u i))"
  unfolding run_length_def using nth_length_takeWhile[of P "drop i u"] by simp

lemma matches_range:
  "(j, d) \<in> set (matches_at u r (i, c)) \<Longrightarrow> i \<le> length u \<Longrightarrow> i \<le> j \<and> j \<le> length u"
proof (induction r arbitrary: i c j d)
  case (Repeat P lo hi)
  then have "j \<le> i + run_length P u i" "i \<le> j" by (auto simp: Let_def simp del: upt_Suc split: option.splits)
  then show ?case using run_length_le[OF Repeat(2), of P] by simp
next
  case (Repeat_lazy P)
  then have "j \<le> i + run_length P u i" "i \<le> j" by (auto simp del: upt_Suc)
  then show ?case using run_length_le[OF Repeat_lazy(2), of P] by simp
next
  case (Then r q)
  then obtain k e where "(k, e) \<in> set (matches_at u r (i, c))" "(j, d) \<in> set (matches_at u q (k, e))" by auto
  then show ?case using Then(1)[of k e i c] Then(2)[of j d k e] Then(4) by fastforce
next
  case (Or r q)
  then show ?case by auto
next
  case (Group r)
  then show ?case by fastforce
qed (auto split: if_splits list.splits)

primrec no_group :: "regex \<Rightarrow> bool" where
  "no_group (Class P) \<longleftrightarrow> True"
| "no_group (Repeat P lo hi) \<longleftrightarrow> True"
| "no_group (Repeat_lazy P) \<longleftrightarrow> True"
| "no_group Empty \<longleftrightarrow> True"
| "no_group (Then r q) \<longleftrightarrow> no_group r \<and> no_group q"
| "no_group (Or r q) \<longleftrightarrow> no_group r \<and> no_group q"
| "no_group Word_boundary \<longleftrightarrow> True"
| "no_group (Ahead r) \<longleftrightarrow> no_group r"
| "no_group (Group r) \<longleftrightarrow> False"

lemma no_group_capture: "no_group r \<Longrightarrow> (j, d) \<in> set (matches_at u r (i, c)) \<Longrightarrow> d = c"
proof (induction r arbitrary: i c j d)
  case (Then r q)
  then obtain k e where "(k, e) \<in> set (matches_at u r (i, c))" "(j, d) \<in> set (matches_at u q (k, e))" by auto
  then show ?case using Then by fastforce
next
  case (Ahead r)
  then have "\<exists>k. (k, d) \<in> set (matches_at u r (i, c))" by (cases "matches_at u r (i, c)") (auto split: prod.splits)
  then show ?case using Ahead by fastforce
qed (auto simp: Let_def simp del: upt_Suc split: if_splits)

text \<open>\<open>opens Q r\<close>: the first unit a match takes satisfies \<open>Q\<close>; \<open>closes Q r\<close>: the last one does;
  \<open>keeps Q r\<close>: the unit before the end does if the one before the start did.\<close>

definition opens :: "(nat \<Rightarrow> bool) \<Rightarrow> regex \<Rightarrow> bool" where
  "opens Q r \<longleftrightarrow> (\<forall>u i c j d. (j, d) \<in> set (matches_at u r (i, c)) \<longrightarrow> i < j \<and> i < length u \<and> Q (u ! i))"

definition closes :: "(nat \<Rightarrow> bool) \<Rightarrow> regex \<Rightarrow> bool" where
  "closes Q r \<longleftrightarrow>
     (\<forall>u i c j d. i \<le> length u \<longrightarrow> (j, d) \<in> set (matches_at u r (i, c)) \<longrightarrow> 0 < j \<and> Q (u ! (j - 1)))"

definition keeps :: "(nat \<Rightarrow> bool) \<Rightarrow> regex \<Rightarrow> bool" where
  "keeps Q r \<longleftrightarrow>
     (\<forall>u i c j d. i \<le> length u \<longrightarrow> 0 < i \<and> Q (u ! (i - 1)) \<longrightarrow> (j, d) \<in> set (matches_at u r (i, c)) \<longrightarrow>
        0 < j \<and> Q (u ! (j - 1)))"

named_theorems ends_intro \<open>where the matches of a pattern begin and end\<close>

lemma opens_Class [ends_intro]: "(\<And>x. P x \<Longrightarrow> Q x) \<Longrightarrow> opens Q (Class P)"
  by (auto simp: opens_def)

lemma opens_Then [ends_intro]:
  assumes "opens Q r"
  shows "opens Q (Then r q)"
  unfolding opens_def
proof (intro allI impI)
  fix u i c j d assume "(j, d) \<in> set (matches_at u (Then r q) (i, c))"
  then obtain k e where k: "(k, e) \<in> set (matches_at u r (i, c))" "(j, d) \<in> set (matches_at u q (k, e))" by auto
  have i: "i < k" "i < length u" "Q (u ! i)" using assms k(1) unfolding opens_def by blast+
  then have "k \<le> length u" using matches_range[OF k(1)] by simp
  then show "i < j \<and> i < length u \<and> Q (u ! i)" using matches_range[OF k(2)] i by simp
qed

lemma opens_boundary [ends_intro]: "opens Q q \<Longrightarrow> opens Q (Then Word_boundary q)"
  unfolding opens_def by (auto split: if_splits) blast+

lemma opens_Ahead: "opens Q q \<Longrightarrow> opens Q (Then (Ahead r) q)"
  unfolding opens_def by (auto split: list.splits) blast+

lemma opens_Repeat: "0 < lo \<Longrightarrow> (\<And>x. P x \<Longrightarrow> Q x) \<Longrightarrow> opens Q (Repeat P lo hi)"
  unfolding opens_def
proof (intro allI impI)
  fix u i c j d assume lo: "0 < lo" and PQ: "\<And>x. P x \<Longrightarrow> Q x" and m: "(j, d) \<in> set (matches_at u (Repeat P lo hi) (i, c))"
  then obtain k where k: "j = i + k" "lo \<le> k" "k \<le> run_length P u i"
    by (auto simp: Let_def simp del: upt_Suc split: option.splits)
  then have "0 < run_length P u i" using lo by simp
  moreover from this have "i < length u" by (rule contrapos_pp) (simp add: run_length_def)
  ultimately show "i < j \<and> i < length u \<and> Q (u ! i)" using run_length_holds[of 0 P u i] k lo PQ by simp
qed

lemma opens_Or [ends_intro]: "opens Q r \<Longrightarrow> opens Q q \<Longrightarrow> opens Q (Or r q)"
  unfolding opens_def by (auto; blast)

lemma closes_Class [ends_intro]: "(\<And>x. P x \<Longrightarrow> Q x) \<Longrightarrow> closes Q (Class P)"
  by (auto simp: closes_def)

lemma repeat_end:
  assumes "(j, d) \<in> set (matches_at u (Repeat P lo hi) (i, c))"
  shows "j = i \<and> lo = 0 \<or> i < j \<and> P (u ! (j - 1))"
proof -
  obtain k where k: "j = i + k" "lo \<le> k" "k \<le> run_length P u i"
    using assms by (auto simp: Let_def simp del: upt_Suc split: option.splits)
  show ?thesis
  proof (cases k)
    case (Suc m)
    then show ?thesis using k run_length_holds[of m P u i] by simp
  qed (use k in simp)
qed

lemma closes_Repeat [ends_intro]: "0 < lo \<Longrightarrow> (\<And>x. P x \<Longrightarrow> Q x) \<Longrightarrow> closes Q (Repeat P lo hi)"
  unfolding closes_def using repeat_end by fastforce

lemma keeps_Repeat [ends_intro]: "(\<And>x. P x \<Longrightarrow> Q x) \<Longrightarrow> keeps Q (Repeat P lo hi)"
  unfolding keeps_def using repeat_end by fastforce

lemma closes_Then:
  assumes "closes Q q"
  shows "closes Q (Then r q)"
  unfolding closes_def
proof (intro allI impI)
  fix u i c j d assume i: "i \<le> length u" and m: "(j, d) \<in> set (matches_at u (Then r q) (i, c))"
  then obtain k e where k: "(k, e) \<in> set (matches_at u r (i, c))" "(j, d) \<in> set (matches_at u q (k, e))" by auto
  then have "k \<le> length u" using matches_range[OF k(1) i] by simp
  then show "0 < j \<and> Q (u ! (j - 1))" using assms k(2) unfolding closes_def by blast
qed

lemma closes_keeps:
  assumes "closes Q r" "keeps Q q"
  shows "closes Q (Then r q)"
  unfolding closes_def
proof (intro allI impI)
  fix u i c j d assume i: "i \<le> length u" and m: "(j, d) \<in> set (matches_at u (Then r q) (i, c))"
  then obtain k e where k: "(k, e) \<in> set (matches_at u r (i, c))" "(j, d) \<in> set (matches_at u q (k, e))" by auto
  have "k \<le> length u" using matches_range[OF k(1) i] by simp
  moreover have "0 < k \<and> Q (u ! (k - 1))" using assms(1) i k(1) unfolding closes_def by blast
  ultimately show "0 < j \<and> Q (u ! (j - 1))" using assms(2) k(2) unfolding keeps_def by blast
qed

lemma keeps_width [ends_intro]: "keeps Q Empty" "keeps Q Word_boundary"
  unfolding keeps_def by (auto split: if_splits)

lemma keeps_Then [ends_intro]:
  assumes "keeps Q r" "keeps Q q"
  shows "keeps Q (Then r q)"
  unfolding keeps_def
proof (intro allI impI)
  fix u i c j d assume i: "i \<le> length u" "0 < i \<and> Q (u ! (i - 1))" and m: "(j, d) \<in> set (matches_at u (Then r q) (i, c))"
  then obtain k e where k: "(k, e) \<in> set (matches_at u r (i, c))" "(j, d) \<in> set (matches_at u q (k, e))" by auto
  have "k \<le> length u" using matches_range[OF k(1) i(1)] by simp
  moreover have "0 < k \<and> Q (u ! (k - 1))" using assms(1) i k(1) unfolding keeps_def by blast
  ultimately show "0 < j \<and> Q (u ! (j - 1))" using assms(2) k(2) unfolding keeps_def by blast
qed

lemma closes_Or [ends_intro]: "closes Q r \<Longrightarrow> closes Q q \<Longrightarrow> closes Q (Or r q)"
  unfolding closes_def by (auto; blast)

lemma opens_Group [ends_intro]: "opens Q r \<Longrightarrow> opens Q (Group r)"
  unfolding opens_def by (auto, blast+)

abbreviation ascii_unit :: "nat \<Rightarrow> bool" where
  "ascii_unit x \<equiv> x < 128"

lemma ascii_classes:
  "unit_between lo hi x \<Longrightarrow> x < of_char hi + 1" "unit_in cs x \<Longrightarrow> x \<in> of_char ` set cs"
  by (simp_all add: unit_between_def unit_in_def)

lemma literal_ends [ends_intro]:
  "list_all (\<lambda>c. of_char c < (128 :: nat)) (c # cs) \<Longrightarrow> opens ascii_unit (literal (c # cs))"
  "list_all (\<lambda>c. of_char c < (128 :: nat)) (c # cs) \<Longrightarrow> closes ascii_unit (literal (c # cs))"
proof -
  assume ascii: "list_all (\<lambda>c. of_char c < (128 :: nat)) (c # cs)"
  show "opens ascii_unit (literal (c # cs))" using ascii by (auto simp: literal_def intro!: ends_intro)
  show "closes ascii_unit (literal (c # cs))" using ascii
  proof (induction cs arbitrary: c)
    case Nil
    then show ?case by (auto simp: literal_def intro!: closes_keeps ends_intro)
  next
    case (Cons d cs)
    then have "closes ascii_unit (literal (d # cs))" by simp
    then show ?case unfolding literal_def by (auto intro!: closes_Then)
  qed
qed

lemma literal_any_case_opens [ends_intro]:
  "of_char c < (128 :: nat) \<Longrightarrow> opens ascii_unit (literal_any_case (c # cs))"
  by (auto simp: literal_any_case_def intro!: ends_intro)

text \<open>A surrogate is neither ASCII nor white space, so no position next to such a unit splits a pair.\<close>

lemma not_surrogate:
  "ascii_unit x \<Longrightarrow> \<not> high_surrogate x" "ascii_unit x \<Longrightarrow> \<not> low_surrogate x"
  "space_unit x \<Longrightarrow> \<not> high_surrogate x" "low_surrogate x \<Longrightarrow> plain_unit x"
  by (auto simp: high_surrogate_def low_surrogate_def space_unit_def plain_unit_def)

text \<open>A pattern that ends with its group: what comes before it and what the group matches.\<close>

lemma concat_map_concat: "concat (map f (concat xss)) = concat (map (\<lambda>xs. concat (map f xs)) xss)"
  by (induction xss) simp_all

lemma in_sequence_append:
  "matches_at u (in_sequence (rs @ qs)) s = concat (map (matches_at u (in_sequence qs)) (matches_at u (in_sequence rs) s))"
proof (induction rs arbitrary: s)
  case (Cons r rs)
  have "matches_at u (in_sequence (rs @ qs)) =
      (\<lambda>s. concat (map (matches_at u (in_sequence qs)) (matches_at u (in_sequence rs) s)))"
    by (rule ext) (rule Cons)
  then show ?case by (simp add: concat_map_concat comp_def)
qed simp

lemma group_last:
  "matches_at u (in_sequence (rs @ [Group body])) s = concat (map (matches_at u (Group body)) (matches_at u (in_sequence rs) s))"
  unfolding in_sequence_append by (simp add: concat_map_singleton)

lemma hd_concat_map: "concat (map f xs) \<noteq> [] \<Longrightarrow> \<exists>x \<in> set xs. f x \<noteq> [] \<and> hd (concat (map f xs)) = hd (f x)"
proof (induction xs)
  case (Cons x xs)
  then show ?case by (cases "f x") auto
qed simp

text \<open>The first way to match is not empty and does not stop inside a surrogate pair.\<close>

definition whole_end :: "regex \<Rightarrow> bool" where
  "whole_end r \<longleftrightarrow>
     (\<forall>u i c. i \<le> length u \<longrightarrow> matches_at u r (i, c) \<noteq> [] \<longrightarrow>
        i < fst (hd (matches_at u r (i, c))) \<and> \<not> splits_pair u (fst (hd (matches_at u r (i, c)))))"

lemma whole_end_closes: "opens (\<lambda>x. True) r \<Longrightarrow> closes (\<lambda>x. \<not> high_surrogate x) r \<Longrightarrow> whole_end r"
  unfolding whole_end_def
proof (intro allI impI)
  fix u i c assume r: "opens (\<lambda>x. True) r" "closes (\<lambda>x. \<not> high_surrogate x) r" and i: "i \<le> length u"
    and some: "matches_at u r (i, c) \<noteq> []"
  obtain j d where jd: "hd (matches_at u r (i, c)) = (j, d)" by fastforce
  then have "(j, d) \<in> set (matches_at u r (i, c))" using some by (metis hd_in_set)
  then have "i < j" "\<not> high_surrogate (u ! (j - 1))" using r i unfolding opens_def closes_def by blast+
  then show "i < fst (hd (matches_at u r (i, c))) \<and> \<not> splits_pair u (fst (hd (matches_at u r (i, c))))"
    using jd by (simp add: splits_pair_def)
qed

lemma whole_end_repeat: "0 < lo \<Longrightarrow> (\<And>x. low_surrogate x \<Longrightarrow> P x) \<Longrightarrow> whole_end (Repeat P lo None)"
  unfolding whole_end_def
proof (intro allI impI)
  fix u i c assume lo: "0 < lo" and P: "\<And>x. low_surrogate x \<Longrightarrow> P x" and i: "i \<le> length u"
    and some: "matches_at u (Repeat P lo None) (i, c) \<noteq> []"
  define n where "n = run_length P u i"
  have "[lo..<Suc n] \<noteq> []" using some by (simp add: n_def Let_def del: upt_Suc)
  then have "lo \<le> n" by (simp split: if_splits)
  then have hd: "hd (matches_at u (Repeat P lo None) (i, c)) = (i + n, c)" by (simp add: n_def Let_def)
  have "\<not> splits_pair u (i + n)"
    using run_length_stops[of i P u] P unfolding splits_pair_def n_def by blast
  then show "i < fst (hd (matches_at u (Repeat P lo None) (i, c))) \<and>
      \<not> splits_pair u (fst (hd (matches_at u (Repeat P lo None) (i, c))))"
    using hd lo \<open>lo \<le> n\<close> by simp
qed

text \<open>Where a capture sits in its match: \<^verbatim>\<open>lastIndexOf\<close> finds the end of the match, not an earlier copy.\<close>

lemma last_index_suffix:
  assumes "part \<noteq> []"
  shows "last_index_of (front @ part) part = int (length front)"
proof -
  let ?P = "\<lambda>j. take (length part) (drop j (front @ part)) = part"
  let ?n = "length front" and ?whole = "front @ part"
  have "\<not> ?P j" if "?n < j" for j
  proof
    assume "?P j"
    then have "length (take (length part) (drop j ?whole)) = length part" by simp
    then have "min (length front + length part - j) (length part) = length part" by simp
    moreover have "0 < length part" using assms by simp
    ultimately show False using that by linarith
  qed
  then have none: "filter ?P [Suc ?n..<Suc (length ?whole)] = []" by (auto simp: filter_empty_conv)
  have "[0..<?n + Suc (length part)] = [0..<?n] @ [?n..<?n + Suc (length part)]" by (rule upt_add_eq_append) simp
  then have split: "[0..<Suc (length ?whole)] = [0..<?n] @ ?n # [Suc ?n..<Suc (length ?whole)]"
    by (simp add: upt_conv_Cons del: upt_Suc)
  have "filter ?P [0..<Suc (length ?whole)] = filter ?P [0..<?n] @ [?n]"
    unfolding split filter_append using none by (simp del: upt_Suc)
  moreover obtain y ys where "filter ?P [0..<?n] @ [?n] = y # ys" "last (y # ys) = ?n"
    by (cases "filter ?P [0..<?n]") auto
  ultimately show ?thesis unfolding last_index_of_def by (simp only: list.case)
qed

section \<open>The spans of the detector\<close>

text \<open>What every match of a pattern must give: a span that is not empty, in range, and cuts no character.\<close>

definition span_ok :: "nat list \<Rightarrow> int \<times> int \<Rightarrow> bool" where
  "span_ok u = (\<lambda>(i, j). 0 \<le> i \<and> i < j \<and> j \<le> int (length u) \<and> \<not> splits_pair u (nat i) \<and> \<not> splits_pair u (nat j))"

text \<open>The credential of a match, and that the detector marks just it.\<close>

definition credential_of :: "regex_match \<Rightarrow> nat \<times> nat" where
  "credential_of m = (case match_group m of None \<Rightarrow> (match_start m, match_end m) | Some g \<Rightarrow> g)"

definition match_ok :: "nat list \<Rightarrow> regex_match \<Rightarrow> bool" where
  "match_ok u m \<longleftrightarrow>
     span_ok u (secret_span u m) \<and> secret_span u m = map_prod int int (credential_of m) \<and>
     match_start m \<le> fst (credential_of m) \<and> fst (credential_of m) < snd (credential_of m) \<and>
     snd (credential_of m) \<le> match_end m"

definition pattern_ok :: "regex \<Rightarrow> bool" where
  "pattern_ok r \<longleftrightarrow>
     (\<forall>u k. k \<le> length u \<longrightarrow> matches_at u r (k, None) \<noteq> [] \<longrightarrow>
        match_ok u (case hd (matches_at u r (k, None)) of
          (j, c) \<Rightarrow> \<lparr>match_start = k, match_end = j, match_group = c\<rparr>))"

lemma pattern_ok_plain:
  assumes "no_group r" "opens ascii_unit r" "closes ascii_unit r"
  shows "pattern_ok r"
  unfolding pattern_ok_def
proof (intro allI impI)
  fix u k assume k: "k \<le> length u" and some: "matches_at u r (k, None) \<noteq> []"
  obtain j d where jd: "hd (matches_at u r (k, None)) = (j, d)" by fastforce
  then have mem: "(j, d) \<in> set (matches_at u r (k, None))" using some by (metis hd_in_set)
  have d: "d = None" using no_group_capture[OF assms(1) mem] .
  have "k < j" "k < length u" "u ! k < 128" "u ! (j - 1) < 128"
    using assms(2,3) mem k unfolding opens_def closes_def by blast+
  moreover have "j \<le> length u" using matches_range[OF mem k] by simp
  ultimately show "match_ok u (case hd (matches_at u r (k, None)) of
      (j, c) \<Rightarrow> \<lparr>match_start = k, match_end = j, match_group = c\<rparr>)"
    using not_surrogate(1)[of "u ! (j - 1)"] not_surrogate(2)[of "u ! k"]
    by (simp add: jd d secret_span_def slice_of_def match_ok_def credential_of_def span_ok_def splits_pair_def Let_def)
qed

lemma secret_span_suffix:
  assumes "k \<le> a" "a < j" "j \<le> length u"
  shows "secret_span u \<lparr>match_start = k, match_end = j, match_group = Some (a, j)\<rparr> = (int a, int j)"
proof -
  define part front where "part = slice_of u a j" and "front = slice_of u k a"
  have "j - k = (a - k) + (j - a)" "drop (a - k) (drop k u) = drop a u" using assms by simp_all
  then have "slice_of u k j = front @ part" by (simp only: part_def front_def slice_of_def take_add)
  moreover have "length part = j - a" "length front = a - k" using assms by (simp_all add: part_def front_def slice_of_def)
  moreover have "part \<noteq> []" using \<open>length part = j - a\<close> assms(2) by auto
  ultimately show ?thesis
    using assms by (simp add: secret_span_def Let_def last_index_suffix flip: part_def)
qed

lemma pattern_ok_group:
  assumes "closes (\<lambda>x. \<not> high_surrogate x) (in_sequence rs)" "whole_end body"
  shows "pattern_ok (in_sequence (rs @ [Group body]))"
  unfolding pattern_ok_def
proof (intro allI impI)
  fix u k assume k: "k \<le> length u" and some: "matches_at u (in_sequence (rs @ [Group body])) (k, None) \<noteq> []"
  let ?f = "matches_at u (Group body)"
  obtain x where x: "x \<in> set (matches_at u (in_sequence rs) (k, None))" "?f x \<noteq> []"
      "hd (matches_at u (in_sequence (rs @ [Group body])) (k, None)) = hd (?f x)"
    using hd_concat_map[of ?f] some unfolding group_last by blast
  obtain a e where ae: "x = (a, e)" by fastforce
  have a: "k \<le> a" "a \<le> length u" using matches_range[OF x(1)[unfolded ae] k] by simp_all
  have low: "0 < a" "\<not> high_surrogate (u ! (a - 1))" using assms(1) x(1) k unfolding closes_def ae by blast+
  have inner: "matches_at u body (a, e) \<noteq> []" using x(2) ae by simp
  obtain j d where jd: "hd (matches_at u body (a, e)) = (j, d)" by fastforce
  then have "(j, d) \<in> set (matches_at u body (a, e))" using inner by (metis hd_in_set)
  then have j: "j \<le> length u" using matches_range a(2) by blast
  have "a < j" "\<not> splits_pair u j" using assms(2) a(2) inner jd unfolding whole_end_def by fastforce+
  moreover have "hd (?f x) = (j, Some (a, j))" using inner jd ae by (simp add: hd_map)
  moreover have "\<not> splits_pair u a" using low by (simp add: splits_pair_def)
  ultimately show "match_ok u (case hd (matches_at u (in_sequence (rs @ [Group body])) (k, None)) of
      (j, c) \<Rightarrow> \<lparr>match_start = k, match_end = j, match_group = c\<rparr>)"
    using secret_span_suffix[OF a(1) _ j] j x(3) a(1) by (simp add: span_ok_def match_ok_def credential_of_def)
qed

text \<open>Each of the six patterns is one of the two kinds.\<close>

lemma ascii_between: "of_char hi < (128 :: nat) \<Longrightarrow> unit_between lo hi x \<Longrightarrow> ascii_unit x"
  by (simp add: unit_between_def)

lemma ascii_in: "list_all (\<lambda>c. of_char c < (128 :: nat)) cs \<Longrightarrow> unit_in cs x \<Longrightarrow> ascii_unit x"
  by (auto simp: unit_in_def list_all_iff)

lemma ascii_alnum: "alnum_unit x \<Longrightarrow> ascii_unit x"
  by (auto simp: alnum_unit_def unit_between_def)

lemma any_of_opens [ends_intro]: "rs \<noteq> [] \<Longrightarrow> list_all (opens Q) rs \<Longrightarrow> opens Q (any_of rs)"
  by (induction rs rule: any_of.induct) (auto intro: ends_intro)

lemma in_sequence_opens [ends_intro]:
  "opens Q r \<Longrightarrow> opens Q (in_sequence (r # rs))" "opens Q q \<Longrightarrow> opens Q (in_sequence (Word_boundary # q # rs))"
  by (simp_all add: ends_intro)

lemma in_sequence_closes:
  assumes "closes Q r" "list_all (keeps Q) rs"
  shows "closes Q (in_sequence (r # rs))"
proof -
  have "keeps Q (in_sequence rs)" using assms(2) by (induction rs) (auto intro: ends_intro)
  then show ?thesis using assms(1) by (simp add: closes_keeps)
qed

lemma in_sequence_closes_skip: "closes Q (in_sequence (q # rs)) \<Longrightarrow> closes Q (in_sequence (r # q # rs))"
  by (simp add: closes_Then)

lemma aws_key_ok: "pattern_ok aws_key"
proof (rule pattern_ok_plain)
  show "no_group aws_key" by (simp add: aws_key_def literal_def)
  show "opens ascii_unit aws_key" unfolding aws_key_def by (intro ends_intro) (simp_all add: list_all_iff)
  show "closes ascii_unit aws_key" unfolding aws_key_def
    by (rule in_sequence_closes_skip, rule in_sequence_closes_skip, rule in_sequence_closes, rule closes_Repeat)
      (auto simp: unit_between_def intro: keeps_width)
qed

lemma github_token_ok: "pattern_ok github_token"
proof (rule pattern_ok_plain)
  show "no_group github_token" by (simp add: github_token_def literal_def)
  show "opens ascii_unit github_token" unfolding github_token_def
    by (rule in_sequence_opens(2), rule any_of_opens) (auto simp: list_all_iff intro!: literal_ends)
  show "closes ascii_unit github_token" unfolding github_token_def
    by (rule in_sequence_closes_skip, rule in_sequence_closes_skip, rule in_sequence_closes_skip,
        rule in_sequence_closes, rule closes_Repeat)
      (auto intro: ascii_alnum keeps_width)
qed

lemma sk_key_ok: "pattern_ok sk_key"
proof (rule pattern_ok_plain)
  show "no_group sk_key" by (simp add: sk_key_def literal_def)
  show "opens ascii_unit sk_key" unfolding sk_key_def by (intro ends_intro) (simp_all add: list_all_iff)
  show "closes ascii_unit sk_key" unfolding sk_key_def
    by (rule in_sequence_closes_skip, rule in_sequence_closes_skip, rule in_sequence_closes, rule closes_Repeat)
      (auto intro: ascii_alnum keeps_width)
qed

lemma key_header_ends:
  assumes "list_all (\<lambda>c. of_char c < (128 :: nat)) word"
  shows "opens ascii_unit (key_header word)" "closes ascii_unit (key_header word)" "no_group (key_header word)"
proof -
  show "opens ascii_unit (key_header word)" unfolding key_header_def
    by (rule in_sequence_opens(1)) (use assms in \<open>auto simp: list_all_iff intro!: literal_ends\<close>)
  show "closes ascii_unit (key_header word)" unfolding key_header_def
    by (rule in_sequence_closes_skip, rule in_sequence_closes_skip, rule in_sequence_closes, rule literal_ends) simp_all
  have "no_group (literal cs)" for cs by (induction cs) (simp_all add: literal_def)
  then show "no_group (key_header word)" by (simp add: key_header_def)
qed

lemma private_key_ok: "pattern_ok private_key"
proof (rule pattern_ok_plain)
  show "no_group private_key" by (simp add: private_key_def key_header_ends)
  show "opens ascii_unit private_key" unfolding private_key_def
    by (rule in_sequence_opens(1), rule key_header_ends) simp
  show "closes ascii_unit private_key" unfolding private_key_def
    by (rule in_sequence_closes_skip, rule in_sequence_closes_skip, rule in_sequence_closes, rule key_header_ends) simp_all
qed

lemma not_high_classes:
  "unit_in '':='' x \<Longrightarrow> \<not> high_surrogate x" "unit_in [CHR 0x22, CHR 0x27] x \<Longrightarrow> \<not> high_surrogate x"
  by (auto simp: unit_in_def high_surrogate_def)

lemma assigned_secret_ok: "pattern_ok assigned_secret"
  unfolding assigned_secret_def
proof (rule pattern_ok_group)
  show "closes (\<lambda>x. \<not> high_surrogate x)
     (in_sequence
       [Word_boundary,
         any_of
           [in_sequence [literal_any_case ''api'', dash_or_underscore, literal_any_case ''key''],
            in_sequence [literal_any_case ''access'', dash_or_underscore, literal_any_case ''token''],
            in_sequence [literal_any_case ''client'', dash_or_underscore, literal_any_case ''secret''],
            literal_any_case ''password'', literal_any_case ''passphrase'', literal_any_case ''passcode''],
         Repeat space_unit 0 None, Class (unit_in '':=''), Repeat space_unit 0 None, optional_quote])"
    by (rule in_sequence_closes_skip, rule in_sequence_closes_skip, rule in_sequence_closes_skip,
        rule in_sequence_closes, rule closes_Class, rule not_high_classes)
      (auto intro!: keeps_Repeat dest: not_high_classes not_surrogate(3))
  show "whole_end (Repeat plain_unit 8 None)" by (rule whole_end_repeat) (simp_all add: not_surrogate)
qed

lemma stated_secret_ok: "pattern_ok stated_secret"
  unfolding stated_secret_def
proof (rule pattern_ok_group)
  show "closes (\<lambda>x. \<not> high_surrogate x)
     (in_sequence
       [Word_boundary, any_of [literal_any_case ''password'', literal_any_case ''passphrase'', literal_any_case ''passcode''],
         Repeat space_unit 1 None, any_of [literal_any_case ''is'', literal_any_case ''was''],
         Repeat space_unit 1 None, optional_quote])"
    by (rule in_sequence_closes_skip, rule in_sequence_closes_skip, rule in_sequence_closes_skip, rule in_sequence_closes_skip,
        rule in_sequence_closes, rule closes_Repeat)
      (auto intro!: keeps_Repeat dest: not_high_classes not_surrogate(3))
  let ?body = "in_sequence
              [Ahead (Repeat plain_unit 8 None),
               Ahead (Then (Repeat plain_unit 0 None) (Class (\<lambda>x. unit_between CHR ''0'' CHR ''9'' x \<or> mark_unit x))),
               Repeat (\<lambda>x. alnum_unit x \<or> mark_unit x) 7 None, Class alnum_unit]"
  show "whole_end ?body"
  proof (rule whole_end_closes)
    show "closes (\<lambda>x. \<not> high_surrogate x) ?body"
      by (rule in_sequence_closes_skip, rule in_sequence_closes_skip, rule in_sequence_closes_skip, rule in_sequence_closes,
          rule closes_Class) (auto dest: ascii_alnum not_surrogate(1))
    show "opens (\<lambda>x. True) ?body" unfolding in_sequence.simps
      by (rule opens_Ahead, rule opens_Ahead, rule opens_Then, rule opens_Repeat) simp_all
  qed
qed

lemma secret_patterns_ok: "r \<in> set secret_patterns \<Longrightarrow> pattern_ok r"
  by (auto simp: secret_patterns_def aws_key_ok github_token_ok sk_key_ok private_key_ok assigned_secret_ok stated_secret_ok)

lemma match_all_cases:
  assumes "first_match u r n = Some m'" "m \<in> set (match_all u r n)"
  shows "m = m' \<or> m \<in> set (match_all u r (max (Suc (match_start m')) (match_end m')))"
  using assms(2) by (simp add: match_all.simps[of u r n] assms(1))

lemma match_all_none: "m \<in> set (match_all u r n) \<Longrightarrow> \<exists>m'. first_match u r n = Some m'"
  by (cases "first_match u r n") (simp_all add: match_all.simps[of u r n])

lemma match_all_first:
  "m \<in> set (match_all u r n) \<Longrightarrow> (match_end m, match_group m) = hd (matches_at u r (match_start m, None))"
proof (induction u r n rule: match_all.induct)
  case (1 u r n)
  obtain m' where m': "first_match u r n = Some m'" using match_all_none[OF 1(2)] by blast
  from match_all_cases[OF this 1(2)] show ?case
  proof
    assume "m = m'"
    then show ?thesis using m' by (auto elim!: first_match_Some split: prod.splits)
  qed (use 1(1) m' in blast)
qed

lemma match_all_complete:
  assumes "pattern_ok r" "matches_at u r (k, None) \<noteq> []" "n \<le> k" "k \<le> length u"
  shows "\<exists>m \<in> set (match_all u r n). match_start m \<le> k \<and> k < match_end m"
  using assms
proof (induction u r n rule: match_all.induct)
  case (1 u r n)
  let ?hit = "\<lambda>k. matches_at u r (k, None) \<noteq> []"
  have "List.find ?hit [n..<Suc (length u)] \<noteq> None"
    using 1(3-5) by (auto simp: find_None_iff less_Suc_eq_le simp del: upt_Suc)
  then obtain i where i: "List.find ?hit [n..<Suc (length u)] = Some i" by blast
  then obtain q where q: "q < length [n..<Suc (length u)]" "?hit i" "i = [n..<Suc (length u)] ! q"
      "\<And>p. p < q \<Longrightarrow> \<not> ?hit ([n..<Suc (length u)] ! p)" unfolding find_Some_iff by blast
  then have "i = n + q" by (simp del: upt_Suc)
  then have "i \<le> k" using q(1) q(4)[of "k - n"] 1(3,4) by (cases "k - n < q") (auto simp del: upt_Suc)
  obtain m where m: "first_match u r n = Some m" "match_start m = i"
    using i by (cases "hd (matches_at u r (i, None))") (simp add: first_match_def del: upt_Suc)
  then have all: "match_all u r n = m # match_all u r (max (Suc (match_start m)) (match_end m))"
    by (subst match_all.simps) simp
  then have "match_ok u m"
    using 1(2) m(1) unfolding pattern_ok_def by (auto elim!: first_match_Some)
  then have wide: "match_start m < match_end m" by (simp add: match_ok_def)
  show ?case
  proof (cases "k < match_end m")
    case True
    then show ?thesis using all m(2) \<open>i \<le> k\<close> by auto
  next
    case False
    then have "max (Suc (match_start m)) (match_end m) \<le> k" using wide by simp
    from 1(1)[OF m(1) 1(2,3) this 1(5)] show ?thesis using all by auto
  qed
qed

lemma detect_by_match:
  assumes "r \<in> set secret_patterns" "m \<in> set (match_all u r 0)"
  shows "secret_span u m \<in> set (detect_deterministic_secrets u)"
  using assms by (auto simp: detect_deterministic_secrets_def)

lemma match_all_ok: "pattern_ok r \<Longrightarrow> m \<in> set (match_all u r n) \<Longrightarrow> match_ok u m"
proof (induction u r n rule: match_all.induct)
  case (1 u r n)
  have mem: "m \<in> set (case first_match u r n of None \<Rightarrow> []
      | Some m \<Rightarrow> m # match_all u r (max (Suc (match_start m)) (match_end m)))"
    using 1(3) by (subst (asm) match_all.simps)
  then obtain m' where m': "first_match u r n = Some m'" by (cases "first_match u r n") simp_all
  then have "m = m' \<or> m \<in> set (match_all u r (max (Suc (match_start m')) (match_end m')))"
    using mem by simp
  then show ?case
  proof
    assume m: "m = m'"
    obtain k where "k \<le> length u" "matches_at u r (k, None) \<noteq> []"
        "m' = (case hd (matches_at u r (k, None)) of (j, c) \<Rightarrow> \<lparr>match_start = k, match_end = j, match_group = c\<rparr>)"
      using m' by (rule first_match_Some)
    then show ?thesis using 1(2) m unfolding pattern_ok_def by blast
  qed (use 1 m' in blast)
qed

theorem detected_secrets_in_text:
  assumes "(i, j) \<in> set (detect_deterministic_secrets u)"
  shows "0 \<le> i \<and> i < j \<and> j \<le> int (length u) \<and> \<not> splits_pair u (nat i) \<and> \<not> splits_pair u (nat j)"
proof -
  obtain r m where r: "r \<in> set secret_patterns" "m \<in> set (match_all u r 0)" "(i, j) = secret_span u m"
    using assms by (auto simp: detect_deterministic_secrets_def)
  then have "span_ok u (i, j)" using match_all_ok[OF secret_patterns_ok[OF r(1)] r(2)] unfolding match_ok_def r(3) by blast
  then show ?thesis by (simp add: span_ok_def)
qed

end
