(* ===== verification/Privacy_Masking.thy ===== *)
theory Privacy_Masking
  imports Privacy_Decoder Privacy_Secrets
begin

text \<open>
  From token labels to a masked text: \<^verbatim>\<open>offsets.ts\<close> and \<^verbatim>\<open>masking.ts\<close> of \<^verbatim>\<open>apps/privacy-service\<close>. The labels
  give spans of bytes, widened to whole characters; they are united with the spans of the credential
  detector; and every united span is replaced by the placeholder of its label.
\<close>

section \<open>Token offsets\<close>

record token_offset =
  start_byte :: int
  end_byte :: int

definition assert_valid_byte_range :: "string \<Rightarrow> int \<Rightarrow> int \<Rightarrow> unit result" where
  "assert_valid_byte_range text_value i j =
     throw_if
       (\<bar>i\<bar> > max_safe_integer \<or> \<bar>j\<bar> > max_safe_integer \<or> i < 0 \<or> j \<le> i \<or> j > int (length (buffer_from text_value)))
       (PlainError ''privacy runtime emitted an invalid token byte offset'')"

definition expand_to_utf8_boundaries :: "string \<Rightarrow> int \<Rightarrow> int \<Rightarrow> (nat \<times> nat) result" where
  "expand_to_utf8_boundaries text_value i j =
     ebind (assert_valid_byte_range text_value i j) (\<lambda>_.
       let boundaries = utf8_boundaries text_value;
           before = takeWhile (\<lambda>b. int b \<le> i) boundaries
       in case (if before = [] then None else Some (last before), List.find (\<lambda>b. j \<le> int b) boundaries) of
            (Some s, Some e) \<Rightarrow> Inr (s, e)
          | _ \<Rightarrow> Inl (PlainError ''privacy runtime emitted an invalid UTF-8 byte range''))"

section \<open>The spans of the labels\<close>

record candidate_span =
  span_label :: privacy_label
  span_start :: nat
  span_end :: nat
  from_model :: bool
  from_rules :: bool

record raw_classification =
  decoded_text :: string
  token_offsets :: "token_offset list"
  token_logits :: "double list list"
  classifier_biases :: viterbi_biases

text \<open>The inner loop: how many labels after a begin its end is, if it is reached.\<close>

fun entity_end_after :: "privacy_label \<Rightarrow> token_label list \<Rightarrow> nat option" where
  "entity_end_after label [] = None"
| "entity_end_after label (x # xs) =
     (case parse_token_label x of
        None \<Rightarrow> None
      | Some (t, l) \<Rightarrow>
          if l \<noteq> label then None else if t = End then Some 0 else map_option Suc (entity_end_after label xs))"

definition offset_at :: "token_offset list \<Rightarrow> nat \<Rightarrow> token_offset result" where
  "offset_at offsets i =
     (if i < length offsets then Inr (offsets ! i) else Inl (PlainError ''privacy token offset is missing''))"

definition model_span :: "string \<Rightarrow> token_offset list \<Rightarrow> privacy_label \<Rightarrow> nat \<Rightarrow> nat \<Rightarrow> (privacy_label \<times> int \<times> int) result" where
  "model_span text_value offsets label i j =
     ebind (offset_at offsets i) (\<lambda>first.
     ebind (offset_at offsets j) (\<lambda>final.
     ebind (assert_valid_byte_range text_value (start_byte first) (end_byte final)) (\<lambda>_.
       Inr (label, start_byte first, end_byte final))))"

function model_spans_from ::
  "string \<Rightarrow> token_offset list \<Rightarrow> nat \<Rightarrow> token_label list \<Rightarrow> (privacy_label \<times> int \<times> int) list result" where
  "model_spans_from text_value offsets i [] = Inr []"
| "model_spans_from text_value offsets i (x # xs) =
     (case parse_token_label x of
        Some (Single, label) \<Rightarrow>
          ebind (model_span text_value offsets label i i) (\<lambda>found.
          ebind (model_spans_from text_value offsets (Suc i) xs) (\<lambda>spans. Inr (found # spans)))
      | Some (Begin, label) \<Rightarrow>
          (case entity_end_after label xs of
             None \<Rightarrow> model_spans_from text_value offsets (Suc i) xs
           | Some n \<Rightarrow>
               ebind (model_span text_value offsets label i (i + n + 1)) (\<lambda>found.
               ebind (model_spans_from text_value offsets (i + n + 2) (drop (Suc n) xs)) (\<lambda>spans. Inr (found # spans))))
      | _ \<Rightarrow> model_spans_from text_value offsets (Suc i) xs)"
  by pat_completeness auto
termination
  by (relation "measure (\<lambda>(text_value, offsets, i, xs). length xs)") auto

definition model_spans ::
  "string \<Rightarrow> token_label list \<Rightarrow> token_offset list \<Rightarrow> (privacy_label \<times> int \<times> int) list result" where
  "model_spans text_value labels offsets = model_spans_from text_value offsets 0 labels"

section \<open>The union of spans\<close>

definition join_spans :: "candidate_span \<Rightarrow> candidate_span \<Rightarrow> candidate_span" where
  "join_spans previous candidate =
     previous\<lparr>span_end := max (span_end previous) (span_end candidate),
       span_label := (if span_label candidate = Secret then Secret else span_label previous),
       from_model := from_model previous \<or> from_model candidate,
       from_rules := from_rules previous \<or> from_rules candidate\<rparr>"

fun union_from :: "candidate_span \<Rightarrow> candidate_span list \<Rightarrow> candidate_span list" where
  "union_from previous [] = [previous]"
| "union_from previous (candidate # rest) =
     (if span_end previous \<le> span_start candidate then previous # union_from candidate rest
      else union_from (join_spans previous candidate) rest)"

definition union_spans :: "candidate_span list \<Rightarrow> candidate_span list" where
  "union_spans candidates =
     (case sort_key (\<lambda>c. (span_start c, span_end c)) candidates of [] \<Rightarrow> [] | c # cs \<Rightarrow> union_from c cs)"

section \<open>Masking\<close>

record detected_span =
  detected_label :: privacy_label
  detected_by :: "string list"
  detected_start :: nat
  detected_end :: nat

definition detector_names :: "candidate_span \<Rightarrow> string list" where
  "detector_names c = (if from_model c then [''privacy_filter''] else []) @ (if from_rules c then [''deterministic''] else [])"

text \<open>The token offsets cover the text without gap or overlap.\<close>

fun check_cover :: "string \<Rightarrow> int \<Rightarrow> token_offset list \<Rightarrow> int result" where
  "check_cover text_value previous_end [] = Inr previous_end"
| "check_cover text_value previous_end (offset # offsets) =
     ebind (assert_valid_byte_range text_value (start_byte offset) (end_byte offset)) (\<lambda>_.
     ebind (throw_if (start_byte offset \<noteq> previous_end)
       (PlainError ''privacy runtime token offsets do not exactly cover the request'')) (\<lambda>_.
     check_cover text_value (end_byte offset) offsets))"

definition model_candidate :: "string \<Rightarrow> privacy_label \<times> int \<times> int \<Rightarrow> candidate_span result" where
  "model_candidate text_value = (\<lambda>(label, i, j).
     ebind (expand_to_utf8_boundaries text_value i j) (\<lambda>(s, e).
       Inr \<lparr>span_label = label, span_start = s, span_end = e, from_model = True, from_rules = False\<rparr>))"

text \<open>\<^verbatim>\<open>Buffer.byteLength(text.slice(0, n), "utf8")\<close>\<close>

definition slice_bytes :: "nat list \<Rightarrow> int \<Rightarrow> nat" where
  "slice_bytes units n = length (buffer_from (units_text (take (nat n) units)))"

definition secret_candidate :: "string \<Rightarrow> int \<times> int \<Rightarrow> candidate_span result" where
  "secret_candidate text_value = (\<lambda>(i, j).
     let units = utf16_units text_value; s = slice_bytes units i; e = slice_bytes units j in
     ebind (throw_if (e > length (buffer_from text_value))
       (PlainError ''deterministic privacy detector emitted an invalid byte range'')) (\<lambda>_.
       Inr \<lparr>span_label = Secret, span_start = s, span_end = e, from_model = False, from_rules = True\<rparr>))"

fun render_masked :: "string \<Rightarrow> nat \<Rightarrow> candidate_span list \<Rightarrow> string" where
  "render_masked source cursor [] = drop cursor source"
| "render_masked source cursor (c # cs) =
     slice_of source cursor (span_start c) @ placeholder_for (span_label c) @ render_masked source (span_end c) cs"

definition detected_span_of :: "candidate_span \<Rightarrow> detected_span" where
  "detected_span_of c =
     \<lparr>detected_label = span_label c, detected_by = detector_names c, detected_start = span_start c,
      detected_end = span_end c\<rparr>"

definition mask_classification :: "string \<Rightarrow> raw_classification \<Rightarrow> (string \<times> detected_span list) result" where
  "mask_classification text_value raw =
     ebind (throw_if (decoded_text raw \<noteq> text_value)
       (PlainError ''privacy tokenizer decoded text does not exactly match the request'')) (\<lambda>_.
     ebind (throw_if (length (token_logits raw) \<noteq> length (token_offsets raw))
       (PlainError ''privacy runtime token, offset, and logits lengths do not match'')) (\<lambda>_.
     ebind (check_cover text_value 0 (token_offsets raw)) (\<lambda>previous_end.
     ebind (throw_if (previous_end \<noteq> int (length (buffer_from text_value)))
       (PlainError ''privacy runtime token offsets do not exactly cover the request'')) (\<lambda>_.
     ebind (decode_bioes_viterbi (token_logits raw) (classifier_biases raw)) (\<lambda>labels.
     ebind (ebind (model_spans text_value labels (token_offsets raw)) (emap (model_candidate text_value))) (\<lambda>from_labels.
     ebind (emap (secret_candidate text_value) (detect_deterministic_secrets (utf16_units text_value))) (\<lambda>from_patterns.
       let spans = union_spans (from_labels @ from_patterns) in
       Inr (buffer_to_string (render_masked (buffer_from text_value) 0 spans), map detected_span_of spans))))))))"

end
