(* ===== verification/Privacy_Viterbi.thy ===== *)
theory Privacy_Viterbi
  imports Privacy_Decoder
begin

text \<open>
  The decoder is right: on scores of ordinary size it always returns, the labels it returns are a
  sequence of whole entities, and no other such sequence has a better score, where a score is added up
  token by token with the rounding of the machine. Rounding is monotone, so the best predecessor is the
  best one after every later sum too; the sentinel \<^verbatim>\<open>-1e30\<close> stays out of the way because the sums of
  fewer than \<open>2 ^ 33\<close> scores of at most \<open>2 ^ 64\<close> never come near it.
\<close>

section \<open>Entity sequences and their scores\<close>

text \<open>A sequence of whole entities: an entity of one token, or one with a begin, any number of insides
  and an end, all of one label; other tokens are outside.\<close>

inductive bioes :: "token_label list \<Rightarrow> bool" where
  "bioes []"
| "bioes xs \<Longrightarrow> bioes (Outside # xs)"
| "bioes xs \<Longrightarrow> bioes (Tagged Single l # xs)"
| "bioes xs \<Longrightarrow> bioes (Tagged Begin l # replicate k (Tagged Inside l) @ Tagged End l # xs)"

definition label_index :: "token_label \<Rightarrow> nat" where
  "label_index l = length (takeWhile (\<lambda>m. m \<noteq> l) token_labels)"

definition label_score :: "double list \<Rightarrow> token_label \<Rightarrow> double" where
  "label_score row l = row ! label_index l"

text \<open>The score of a sequence, both lists from the last token back to the first.\<close>

fun score_back :: "viterbi_biases \<Rightarrow> double list list \<Rightarrow> token_label list \<Rightarrow> double" where
  "score_back biases (row # rows) [l] = label_score row l"
| "score_back biases (row # rows) (l # m # ls) =
     double_add (double_add (score_back biases rows (m # ls)) (transition_bias m l biases)) (label_score row l)"
| "score_back biases _ _ = Finite 0"

definition path_score :: "viterbi_biases \<Rightarrow> double list list \<Rightarrow> token_label list \<Rightarrow> double" where
  "path_score biases rows path = score_back biases (rev rows) (rev path)"

text \<open>Scores of ordinary size, in multiples of \<open>2 ^ -1074\<close>: at most \<open>2 ^ 64\<close>.\<close>

definition score_unit :: int where
  "score_unit = 2 ^ 1138"

definition bounded_by :: "int \<Rightarrow> double \<Rightarrow> bool" where
  "bounded_by k x \<longleftrightarrow> (\<exists>n. x = Finite n \<and> \<bar>n\<bar> \<le> k * score_unit)"

definition biases_bounded :: "viterbi_biases \<Rightarrow> bool" where
  "biases_bounded b \<longleftrightarrow>
     bounded_by 1 (background_stay b) \<and> bounded_by 1 (background_to_start b) \<and> bounded_by 1 (inside_to_continue b) \<and>
     bounded_by 1 (inside_to_end b) \<and> bounded_by 1 (end_to_background b) \<and> bounded_by 1 (end_to_start b)"

definition logits_bounded :: "double list list \<Rightarrow> bool" where
  "logits_bounded logits \<longleftrightarrow>
     list_all (\<lambda>row. length row = length token_labels \<and> list_all (bounded_by 1) row) logits \<and> length logits < 2 ^ 32"

section \<open>Labels by index\<close>

lemma length_token_labels: "length token_labels = 33"
  by (simp add: token_labels_def model_labels_def)

lemma distinct_token_labels: "distinct token_labels"
  by code_simp

lemma set_token_labels: "x \<in> set token_labels"
proof (cases x)
  case (Tagged t l)
  then show ?thesis by (cases t; cases l) (simp_all add: token_labels_def model_labels_def)
qed (simp add: token_labels_def)

lemma takeWhile_stops: "x \<in> set xs \<Longrightarrow> length (takeWhile (\<lambda>m. m \<noteq> x) xs) < length xs"
  by (induction xs) auto

lemma label_index_less: "label_index l < length token_labels"
  unfolding label_index_def by (rule takeWhile_stops[OF set_token_labels])

lemma token_label_at [simp]: "token_labels ! label_index l = l"
  unfolding label_index_def using set_token_labels[of l]
  by (metis (mono_tags, lifting) label_index_def label_index_less nth_length_takeWhile)

lemma label_index_nth: "i < length token_labels \<Longrightarrow> label_index (token_labels ! i) = i"
  using distinct_token_labels label_index_less nth_eq_iff_index_eq token_label_at by blast

text \<open>Every label has a predecessor among the labels a sequence may start with.\<close>

lemma starting_predecessor: "\<exists>m. valid_start m \<and> valid_transition m l"
proof (cases l)
  case Outside
  then have "valid_start Outside \<and> valid_transition Outside l" by (simp add: valid_start_def valid_transition_def)
  then show ?thesis by blast
next
  case (Tagged t k)
  show ?thesis
  proof (cases "t = Begin \<or> t = Single")
    case True
    then have "valid_start Outside \<and> valid_transition Outside l"
      using Tagged by (auto simp: valid_start_def valid_transition_def)
    then show ?thesis by blast
  next
    case False
    then have "valid_start (Tagged Begin k) \<and> valid_transition (Tagged Begin k) l"
      using Tagged by (cases t) (auto simp: valid_start_def valid_transition_def)
    then show ?thesis by blast
  qed
qed

section \<open>Sums of bounded scores\<close>

lemma bounded_add:
  assumes "\<bar>m\<bar> \<le> k * score_unit" "\<bar>n\<bar> \<le> score_unit" "0 \<le> k" "k < 2 ^ 34"
  shows "double_add (Finite m) (Finite n) = Finite (round_signed (m + n))"
    "\<bar>round_signed (m + n)\<bar> \<le> (k + 1) * score_unit"
proof -
  have k: "\<bar>- (k + 1)\<bar> < 2 ^ 53" "\<bar>k + 1\<bar> < 2 ^ 53" using assms(3,4) by simp_all
  have sum: "- (k + 1) * score_unit \<le> m + n" "m + n \<le> (k + 1) * score_unit"
    using assms(1,2) by (simp_all add: algebra_simps)
  have "(k + 1) * score_unit < 2 ^ 53 * 2 ^ 1138"
    using k(2) assms(3) by (simp add: score_unit_def)
  also have "\<dots> \<le> (2 :: int) ^ 2097" by (simp flip: power_add)
  finally have "\<bar>m + n\<bar> < 2 ^ 2097" using sum by linarith
  then show "double_add (Finite m) (Finite n) = Finite (round_signed (m + n))" by (simp add: round_double_finite)
  have "- (k + 1) * score_unit \<le> round_signed (m + n)" "round_signed (m + n) \<le> (k + 1) * score_unit"
    using round_signed_between[OF k, of 1138 "m + n"] sum by (simp_all only: score_unit_def)
  then show "\<bar>round_signed (m + n)\<bar> \<le> (k + 1) * score_unit" unfolding abs_le_iff mult_minus_left by linarith
qed

text \<open>The sentinel lies far below every bounded score, and a bounded score added to it does not change that.\<close>

definition sentinel :: int where
  "sentinel = round_signed (- (10 ^ 30) * 2 ^ 1074)"

lemma sentinel_low: "sentinel \<le> - (2 ^ 35) * score_unit" "- (2 ^ 40) * score_unit \<le> sentinel"
proof -
  have low: "- (10 ^ 30) * 2 ^ 1074 \<le> - (2 ^ 35) * (2 :: int) ^ 1138"
    and high: "- (2 ^ 40) * (2 :: int) ^ 1138 \<le> - (10 ^ 30) * 2 ^ 1074" by simp_all
  have "sentinel \<le> round_signed (- (2 ^ 35) * 2 ^ 1138)" unfolding sentinel_def by (rule round_signed_mono[OF low])
  also have "\<dots> = - (2 ^ 35) * 2 ^ 1138" by (rule round_signed_multiple) simp
  finally show "sentinel \<le> - (2 ^ 35) * score_unit" by (simp only: score_unit_def)
  have "- (2 ^ 40) * 2 ^ 1138 = round_signed (- (2 ^ 40) * 2 ^ 1138)" by (rule round_signed_multiple[symmetric]) simp
  also have "\<dots> \<le> sentinel" unfolding sentinel_def by (rule round_signed_mono[OF high])
  finally show "- (2 ^ 40) * score_unit \<le> sentinel" by (simp only: score_unit_def)
qed

lemma negative_infinity: "negative_infinity = Finite sentinel"
  unfolding negative_infinity_def double_of_int_def sentinel_def by (rule round_double_finite) simp

lemma sentinel_add:
  assumes "\<bar>n\<bar> \<le> score_unit"
  shows "\<exists>v. double_add (Finite sentinel) (Finite n) = Finite v \<and> v \<le> - (2 ^ 34) * score_unit"
proof -
  have unit: "0 < score_unit" by (simp add: score_unit_def)
  have "\<bar>sentinel + n\<bar> \<le> (2 ^ 40 + 1) * score_unit" using sentinel_low assms unit by (simp add: algebra_simps)
  also have "\<dots> < 2 ^ 2097" by (simp add: score_unit_def)
  finally have add: "double_add (Finite sentinel) (Finite n) = Finite (round_signed (sentinel + n))"
    by (simp add: round_double_finite)
  have "sentinel + n \<le> - (2 ^ 34) * score_unit" using sentinel_low assms unit by simp
  then have "round_signed (sentinel + n) \<le> round_signed (- (2 ^ 34) * 2 ^ 1138)"
    unfolding score_unit_def by (rule round_signed_mono)
  also have "\<dots> = - (2 ^ 34) * 2 ^ 1138" by (rule round_signed_multiple) simp
  finally show ?thesis using add by (simp only: score_unit_def double.inject) blast
qed

section \<open>The loops that keep the best candidate\<close>

text \<open>Both loops of the decoder replace the best candidate by a strictly better one.\<close>

definition keep_best :: "(nat \<Rightarrow> bool) \<Rightarrow> (nat \<Rightarrow> double) \<Rightarrow> nat \<Rightarrow> double \<times> nat option \<Rightarrow> double \<times> nat option" where
  "keep_best P f i best = (if P i \<and> double_less (fst best) (f i) then (f i, Some i) else best)"

lemma consider_previous_keeps:
  "consider_previous biases scores l =
     keep_best (\<lambda>i. valid_transition (token_labels ! i) l)
       (\<lambda>i. double_add (scores ! i) (transition_bias (token_labels ! i) l biases))"
  by (intro ext) (simp add: consider_previous_def keep_best_def Let_def)

lemma consider_end_keeps: "consider_end scores = keep_best (\<lambda>i. valid_end (token_labels ! i)) ((!) scores)"
  by (intro ext) (simp add: consider_end_def keep_best_def)

lemma keep_best_fold:
  assumes "\<And>i. i \<in> set xs \<Longrightarrow> P i \<Longrightarrow> f i = Finite (c i)"
  shows "\<exists>v b. fold (keep_best P f) xs (Finite v0, b0) = (Finite v, b) \<and> v0 \<le> v \<and>
           (\<forall>i \<in> set xs. P i \<longrightarrow> c i \<le> v) \<and> (b = b0 \<and> v = v0 \<or> (\<exists>i \<in> set xs. P i \<and> b = Some i \<and> c i = v))"
  using assms
proof (induction xs arbitrary: v0 b0)
  case (Cons x xs)
  have later: "f i = Finite (c i)" if "i \<in> set xs" "P i" for i using Cons.prems that by simp
  show ?case
  proof (cases "P x \<and> v0 < c x")
    case True
    then have "keep_best P f x (Finite v0, b0) = (Finite (c x), Some x)" using Cons.prems by (simp add: keep_best_def)
    moreover obtain v b where "fold (keep_best P f) xs (Finite (c x), Some x) = (Finite v, b)" "c x \<le> v"
        "\<forall>i \<in> set xs. P i \<longrightarrow> c i \<le> v" "b = Some x \<and> v = c x \<or> (\<exists>i \<in> set xs. P i \<and> b = Some i \<and> c i = v)"
      using Cons.IH[OF later, of "c x" "Some x"] by blast
    ultimately show ?thesis using True by (intro exI[of _ v] exI[of _ b]) auto
  next
    case False
    then have "keep_best P f x (Finite v0, b0) = (Finite v0, b0)" using Cons.prems by (auto simp: keep_best_def)
    moreover obtain v b where "fold (keep_best P f) xs (Finite v0, b0) = (Finite v, b)" "v0 \<le> v"
        "\<forall>i \<in> set xs. P i \<longrightarrow> c i \<le> v" "b = b0 \<and> v = v0 \<or> (\<exists>i \<in> set xs. P i \<and> b = Some i \<and> c i = v)"
      using Cons.IH[OF later, of v0 b0] by blast
    ultimately show ?thesis using False by (intro exI[of _ v] exI[of _ b]) auto
  qed
qed simp

section \<open>The invariant of the loop over the tokens\<close>

text \<open>A sequence, from its last label back, that starts properly and moves properly.\<close>

fun prefix_ok :: "token_label list \<Rightarrow> bool" where
  "prefix_ok [] \<longleftrightarrow> False"
| "prefix_ok [l] \<longleftrightarrow> valid_start l"
| "prefix_ok (l # m # ls) \<longleftrightarrow> valid_transition m l \<and> prefix_ok (m # ls)"

text \<open>After the first token only some labels can end a sequence, later all can.\<close>

definition reachable :: "nat \<Rightarrow> nat \<Rightarrow> bool" where
  "reachable n i \<longleftrightarrow> 1 < n \<or> valid_start (token_labels ! i)"

definition best_to :: "viterbi_biases \<Rightarrow> double list list \<Rightarrow> double \<Rightarrow> nat option list list \<Rightarrow> nat \<Rightarrow> int \<Rightarrow> bool" where
  "best_to biases rows score pointers i k \<longleftrightarrow>
     (\<exists>x ls. score = Finite x \<and> \<bar>x\<bar> \<le> k * score_unit \<and>
        prefix_ok (token_labels ! i # ls) \<and> Suc (length ls) = length rows \<and>
        score_back biases rows (token_labels ! i # ls) = Finite x \<and>
        (\<forall>suffix. backtrace pointers i (token_labels ! i # suffix) = Inr (rev (token_labels ! i # ls) @ suffix)) \<and>
        (\<forall>ms. prefix_ok (token_labels ! i # ms) \<longrightarrow> Suc (length ms) = length rows \<longrightarrow>
           (\<exists>y. score_back biases rows (token_labels ! i # ms) = Finite y \<and> \<bar>y\<bar> \<le> k * score_unit \<and> y \<le> x)))"

definition decoder_inv :: "viterbi_biases \<Rightarrow> double list list \<Rightarrow> double list \<Rightarrow> nat option list list \<Rightarrow> bool" where
  "decoder_inv biases rows scores pointers \<longleftrightarrow>
     rows \<noteq> [] \<and> length scores = length token_labels \<and>
     (\<forall>i < length token_labels.
        if reachable (length rows) i then best_to biases rows (scores ! i) pointers i (2 * int (length rows) - 1)
        else scores ! i = negative_infinity)"

definition row_ok :: "double list \<Rightarrow> bool" where
  "row_ok row \<longleftrightarrow> length row = length token_labels \<and> list_all (bounded_by 1) row"

lemma row_ok_score: "row_ok row \<Longrightarrow> \<exists>n. label_score row l = Finite n \<and> \<bar>n\<bar> \<le> score_unit"
  using label_index_less[of l] unfolding row_ok_def label_score_def list_all_length bounded_by_def by auto

lemma row_ok_nth:
  "row_ok row \<Longrightarrow> i < length token_labels \<Longrightarrow> \<exists>n. row ! i = Finite n \<and> \<bar>n\<bar> \<le> score_unit"
  unfolding row_ok_def list_all_length bounded_by_def by auto

lemma label_score_nth: "i < length token_labels \<Longrightarrow> label_score row (token_labels ! i) = row ! i"
  by (simp add: label_score_def label_index_nth)

lemma biases_bounded_transition:
  "biases_bounded b \<Longrightarrow> \<exists>n. transition_bias m l b = Finite n \<and> \<bar>n\<bar> \<le> score_unit"
  unfolding biases_bounded_def bounded_by_def transition_bias_def by (auto split: option.splits)

lemma first_inv:
  assumes "row_ok row"
  shows "decoder_inv biases [row] (first_scores row) []"
proof -
  have len: "length row = length token_labels" using assms by (simp add: row_ok_def)
  have nth: "first_scores row ! i = (if valid_start (token_labels ! i) then row ! i else negative_infinity)"
    if "i < length token_labels" for i
    using that len by (simp add: first_scores_def)
  have "best_to biases [row] (row ! i) [] i 1" if i: "i < length token_labels" "valid_start (token_labels ! i)" for i
  proof -
    obtain n where n: "row ! i = Finite n" "\<bar>n\<bar> \<le> score_unit" using row_ok_nth[OF assms i(1)] by blast
    show ?thesis unfolding best_to_def using i n by (simp add: label_score_nth)
  qed
  then show ?thesis using len nth by (simp add: decoder_inv_def reachable_def first_scores_def)
qed

text \<open>What a valid sequence to a label consists of before that label.\<close>

lemma prefix_before:
  assumes "prefix_ok (l # ms)" "Suc (length ms) = Suc n" "1 \<le> n"
  obtains i ls where "ms = token_labels ! i # ls" "i < length token_labels" "reachable n i"
    "valid_transition (token_labels ! i) l" "prefix_ok (token_labels ! i # ls)" "Suc (length ls) = n"
proof -
  obtain m ls where ms: "ms = m # ls" using assms(2,3) by (cases ms) auto
  have "reachable n (label_index m)"
    using assms(1,2) ms by (cases ls) (auto simp: reachable_def)
  then show ?thesis using that[of "label_index m" ls] assms ms label_index_less[of m] by simp
qed

text \<open>One candidate of the inner loop.\<close>

lemma candidate:
  assumes inv: "decoder_inv biases rows scores pointers" and biases: "biases_bounded biases"
    and i: "i < length token_labels" and n: "length rows < 2 ^ 32"
  shows "\<exists>c. double_add (scores ! i) (transition_bias (token_labels ! i) l biases) = Finite c \<and>
    (if reachable (length rows) i then \<bar>c\<bar> \<le> 2 * int (length rows) * score_unit else c \<le> - (2 ^ 34) * score_unit)"
proof -
  obtain b where b: "transition_bias (token_labels ! i) l biases = Finite b" "\<bar>b\<bar> \<le> score_unit"
    using biases_bounded_transition[OF biases] by blast
  show ?thesis
  proof (cases "reachable (length rows) i")
    case True
    then have "best_to biases rows (scores ! i) pointers i (2 * int (length rows) - 1)"
      using inv i by (simp add: decoder_inv_def)
    then obtain x where x: "scores ! i = Finite x" "\<bar>x\<bar> \<le> (2 * int (length rows) - 1) * score_unit"
      unfolding best_to_def by blast
    have "rows \<noteq> []" using inv by (simp add: decoder_inv_def)
    then have "0 \<le> 2 * int (length rows) - 1" by (cases rows) simp_all
    then show ?thesis using bounded_add[OF x(2) b(2)] n True x(1) b(1) by simp
  next
    case False
    then show ?thesis using inv i sentinel_add[OF b(2)] b(1) by (simp add: decoder_inv_def negative_infinity)
  qed
qed

lemma best_previous_spec:
  assumes inv: "decoder_inv biases rows scores pointers" and biases: "biases_bounded biases"
    and n: "length rows < 2 ^ 32"
  obtains i v where "best_previous biases scores l = (Finite v, Some i)" "i < length token_labels"
    "reachable (length rows) i" "valid_transition (token_labels ! i) l" "\<bar>v\<bar> \<le> 2 * int (length rows) * score_unit"
    "double_add (scores ! i) (transition_bias (token_labels ! i) l biases) = Finite v"
    "\<And>j c. j < length token_labels \<Longrightarrow> valid_transition (token_labels ! j) l \<Longrightarrow>
       double_add (scores ! j) (transition_bias (token_labels ! j) l biases) = Finite c \<Longrightarrow> c \<le> v"
proof -
  let ?f = "\<lambda>i. double_add (scores ! i) (transition_bias (token_labels ! i) l biases)"
  let ?P = "\<lambda>i. valid_transition (token_labels ! i) l"
  have cand: "\<exists>c. ?f i = Finite c \<and> (if reachable (length rows) i then \<bar>c\<bar> \<le> 2 * int (length rows) * score_unit
      else c \<le> - (2 ^ 34) * score_unit)" if "i < length token_labels" for i
    using candidate[OF inv biases that n] .
  define c where "c i = (case ?f i of Finite c \<Rightarrow> c | _ \<Rightarrow> 0)" for i
  have c: "?f i = Finite (c i)"
    "if reachable (length rows) i then \<bar>c i\<bar> \<le> 2 * int (length rows) * score_unit else c i \<le> - (2 ^ 34) * score_unit"
    if "i < length token_labels" for i
    using cand[OF that] by (auto simp: c_def)
  obtain v b where fold: "best_previous biases scores l = (Finite v, b)" "sentinel \<le> v"
      "\<forall>i \<in> set [0..<length token_labels]. ?P i \<longrightarrow> c i \<le> v"
      "b = None \<and> v = sentinel \<or> (\<exists>i \<in> set [0..<length token_labels]. ?P i \<and> b = Some i \<and> c i = v)"
    using keep_best_fold[of "[0..<length token_labels]" ?P ?f c sentinel None] c(1)
    unfolding best_previous_def consider_previous_keeps negative_infinity by auto
  obtain m where m: "valid_start m" "valid_transition m l" using starting_predecessor by blast
  have unit: "0 < score_unit" by (simp add: score_unit_def)
  have "\<bar>c (label_index m)\<bar> \<le> 2 * int (length rows) * score_unit"
    using c(2)[OF label_index_less[of m]] m(1) by (simp add: reachable_def)
  moreover have "2 * int (length rows) * score_unit \<le> 2 ^ 33 * score_unit"
    by (rule mult_right_mono) (use n unit in simp_all)
  moreover have "c (label_index m) \<le> v" using fold(3) label_index_less[of m] m(2) by simp
  ultimately have "- (2 ^ 33) * score_unit \<le> v" unfolding abs_le_iff mult_minus_left by linarith
  then have v: "- (2 ^ 34) * score_unit < v" using unit by simp
  then have "v \<noteq> sentinel" using sentinel_low(1) unit by simp
  then obtain i where i: "i < length token_labels" "?P i" "b = Some i" "c i = v" using fold(4) by auto
  have reach: "reachable (length rows) i" using c(2)[OF i(1)] v i(4) by (auto split: if_splits)
  then have "\<bar>v\<bar> \<le> 2 * int (length rows) * score_unit" using c(2)[OF i(1)] i(4) by simp
  then show ?thesis using that[OF _ i(1) reach i(2)] fold(1,3) c(1) i by fastforce
qed

lemma step_best:
  assumes inv: "decoder_inv biases rows scores pointers" and biases: "biases_bounded biases"
    and row: "row_ok row" and n: "length rows < 2 ^ 32" and j: "j < length token_labels"
  defines "chosen \<equiv> map (best_previous biases scores) token_labels"
  shows "best_to biases (row # rows) (double_add (fst (chosen ! j)) (row ! j)) (map snd chosen # pointers) j
    (2 * int (length (row # rows)) - 1)"
proof -
  let ?l = "token_labels ! j"
  obtain i v where best: "best_previous biases scores ?l = (Finite v, Some i)" "i < length token_labels"
    "reachable (length rows) i" "valid_transition (token_labels ! i) ?l" "\<bar>v\<bar> \<le> 2 * int (length rows) * score_unit"
    "double_add (scores ! i) (transition_bias (token_labels ! i) ?l biases) = Finite v"
    and most: "\<And>j' c. j' < length token_labels \<Longrightarrow> valid_transition (token_labels ! j') ?l \<Longrightarrow>
       double_add (scores ! j') (transition_bias (token_labels ! j') ?l biases) = Finite c \<Longrightarrow> c \<le> v"
    by (rule best_previous_spec[OF inv biases n, of ?l]) blast
  have chosen: "chosen ! j = (Finite v, Some i)" using j best(1) by (simp add: chosen_def)
  have "length chosen = length token_labels" by (simp add: chosen_def)
  then have pointer: "map snd chosen ! j = Some i" using chosen j by simp
  obtain r where r: "row ! j = Finite r" "\<bar>r\<bar> \<le> score_unit" using row_ok_nth[OF row j] by blast
  have "double_add (Finite v) (Finite r) = Finite (round_signed (v + r)) \<and>
      \<bar>round_signed (v + r)\<bar> \<le> (2 * int (length rows) + 1) * score_unit"
    using bounded_add[OF best(5) r(2)] n by simp
  then have sum: "double_add (Finite v) (Finite r) = Finite (round_signed (v + r))"
    "\<bar>round_signed (v + r)\<bar> \<le> (2 * int (length (row # rows)) - 1) * score_unit" by (simp_all add: algebra_simps)
  have some: "rows \<noteq> []" using inv by (simp add: decoder_inv_def)
  have to_i: "best_to biases rows (scores ! k) pointers k (2 * int (length rows) - 1)"
    if "k < length token_labels" "reachable (length rows) k" for k
    using inv that by (simp add: decoder_inv_def)
  obtain x ls where x: "scores ! i = Finite x" "prefix_ok (token_labels ! i # ls)" "Suc (length ls) = length rows"
      "score_back biases rows (token_labels ! i # ls) = Finite x"
      "\<forall>suffix. backtrace pointers i (token_labels ! i # suffix) = Inr (rev (token_labels ! i # ls) @ suffix)"
    using to_i[OF best(2,3)] unfolding best_to_def by blast
  have rest: "\<exists>y. score_back biases (row # rows) (?l # ms) = Finite y \<and>
      \<bar>y\<bar> \<le> (2 * int (length (row # rows)) - 1) * score_unit \<and> y \<le> round_signed (v + r)"
    if ms: "prefix_ok (?l # ms)" "Suc (length ms) = length (row # rows)" for ms
  proof -
    have "Suc (length ms) = Suc (length rows)" "1 \<le> length rows" using ms(2) some by (simp_all add: Suc_leI)
    from prefix_before[OF ms(1) this] obtain k ls' where k: "ms = token_labels ! k # ls'" "k < length token_labels"
      "reachable (length rows) k" "valid_transition (token_labels ! k) ?l" "prefix_ok (token_labels ! k # ls')"
      "Suc (length ls') = length rows" by metis
    obtain z y where zy: "scores ! k = Finite z" "\<bar>z\<bar> \<le> (2 * int (length rows) - 1) * score_unit"
      "score_back biases rows (token_labels ! k # ls') = Finite y"
      "\<bar>y\<bar> \<le> (2 * int (length rows) - 1) * score_unit" "y \<le> z"
      using to_i[OF k(2,3)] k(5,6) unfolding best_to_def by blast
    obtain b where b: "transition_bias (token_labels ! k) ?l biases = Finite b" "\<bar>b\<bar> \<le> score_unit"
      using biases_bounded_transition[OF biases] by blast
    have k0: "0 \<le> 2 * int (length rows) - 1" "2 * int (length rows) - 1 < 2 ^ 34" using some n by (cases rows; simp)+
    have "round_signed (z + b) \<le> v" using most[OF k(2,4)] bounded_add(1)[OF zy(2) b(2) k0] zy(1) b(1) by simp
    moreover have "round_signed (y + b) \<le> round_signed (z + b)" using zy(5) by (intro round_signed_mono) simp
    ultimately have le: "round_signed (round_signed (y + b) + r) \<le> round_signed (v + r)" by (intro round_signed_mono) simp
    have y: "double_add (Finite y) (Finite b) = Finite (round_signed (y + b))"
      "\<bar>round_signed (y + b)\<bar> \<le> 2 * int (length rows) * score_unit"
      using bounded_add[OF zy(4) b(2) k0] by simp_all
    have "double_add (Finite (round_signed (y + b))) (Finite r) = Finite (round_signed (round_signed (y + b) + r)) \<and>
        \<bar>round_signed (round_signed (y + b) + r)\<bar> \<le> (1 + 2 * int (length rows)) * score_unit"
      using bounded_add[OF y(2) r(2)] n by (simp add: add.commute[of 1])
    then show ?thesis using k(1) zy(3) b(1) y(1) r(1) j le by (simp add: label_score_nth)
  qed
  show ?thesis
    unfolding best_to_def chosen fst_conv r sum(1)
    using sum x rest best(4) chosen pointer j r by (intro exI[of _ "round_signed (v + r)"] exI[of _ "token_labels ! i # ls"])
      (simp_all add: label_score_nth best(6)[unfolded x(1)] chosen_def[symmetric])
qed

lemma forward_inv:
  assumes "decoder_inv biases rows scores pointers" "biases_bounded biases" "list_all row_ok later"
    "length rows + length later \<le> 2 ^ 32"
    and "viterbi_forward biases scores later = (final, chosen)"
  shows "decoder_inv biases (rev later @ rows) final (rev chosen @ pointers)"
  using assms
proof (induction later arbitrary: rows scores pointers final chosen)
  case (Cons row later)
  define best where "best = map (best_previous biases scores) token_labels"
  define scores' where "scores' = map2 (\<lambda>b score. double_add (fst b) score) best row"
  obtain chosen' where forward: "viterbi_forward biases scores' later = (final, chosen')" "chosen = map snd best # chosen'"
    using Cons.prems(5) by (auto simp: best_def[symmetric] scores'_def[symmetric] Let_def split: prod.splits)
  have row: "row_ok row" "list_all row_ok later" and n: "length rows < 2 ^ 32" using Cons.prems(3,4) by simp_all
  have "length best = length token_labels" "length row = length token_labels"
    using row(1) by (simp_all add: best_def row_ok_def)
  then have "scores' ! j = double_add (fst (best ! j)) (row ! j)" if "j < length token_labels" for j
    using that by (simp add: scores'_def)
  moreover have "best_to biases (row # rows) (double_add (fst (best ! j)) (row ! j)) (map snd best # pointers) j
      (2 * int (length (row # rows)) - 1)" if "j < length token_labels" for j
    using step_best[OF Cons.prems(1,2) row(1) n that] by (simp only: best_def)
  moreover have "1 < length (row # rows)" using Cons.prems(1) by (cases rows) (simp_all add: decoder_inv_def)
  moreover have "length scores' = length token_labels"
    using \<open>length best = _\<close> \<open>length row = _\<close> by (simp add: scores'_def)
  ultimately have "decoder_inv biases (row # rows) scores' (map snd best # pointers)"
    by (simp add: decoder_inv_def reachable_def)
  from Cons.IH[OF this Cons.prems(2) row(2) _ forward(1)] show ?case using Cons.prems(4) forward(2) by simp
qed simp

section \<open>The tags allow the entity sequences and no others\<close>

definition moves_ok :: "token_label list \<Rightarrow> bool" where
  "moves_ok p \<longleftrightarrow> successively valid_transition p \<and> (p \<noteq> [] \<longrightarrow> valid_start (hd p) \<and> valid_end (last p))"

lemma prefix_ok_successively:
  "prefix_ok q \<longleftrightarrow> q \<noteq> [] \<and> valid_start (last q) \<and> successively (\<lambda>l m. valid_transition m l) q"
  by (induction q rule: prefix_ok.induct) auto

lemma prefix_ok_rev: "prefix_ok (rev p) \<longleftrightarrow> p \<noteq> [] \<and> valid_start (hd p) \<and> successively valid_transition p"
  by (simp add: prefix_ok_successively last_rev)

lemma transition_simps [simp]:
  "valid_transition Outside x \<longleftrightarrow> valid_start x" "valid_transition (Tagged Single l) x \<longleftrightarrow> valid_start x"
  "valid_transition (Tagged End l) x \<longleftrightarrow> valid_start x"
  "valid_transition (Tagged Begin l) x \<longleftrightarrow> x = Tagged Inside l \<or> x = Tagged End l"
  "valid_transition (Tagged Inside l) x \<longleftrightarrow> x = Tagged Inside l \<or> x = Tagged End l"
  by (cases x; auto simp: valid_transition_def valid_start_def)+

lemma boundary_simps [simp]:
  "valid_start Outside" "valid_start (Tagged Single l)" "valid_start (Tagged Begin l)"
  "\<not> valid_start (Tagged Inside l)" "\<not> valid_start (Tagged End l)"
  "valid_end Outside" "valid_end (Tagged Single l)" "valid_end (Tagged End l)"
  "\<not> valid_end (Tagged Inside l)" "\<not> valid_end (Tagged Begin l)"
  by (simp_all add: valid_start_def valid_end_def)

lemma entity_moves:
  "moves_ok xs \<Longrightarrow> successively valid_transition (replicate k (Tagged Inside l) @ Tagged End l # xs)"
proof (induction k)
  case 0
  then show ?case by (cases xs) (simp_all add: moves_ok_def)
next
  case (Suc k)
  then show ?case by (cases k) simp_all
qed

lemma bioes_moves: "bioes p \<Longrightarrow> moves_ok p"
proof (induction rule: bioes.induct)
  case (4 xs l k)
  then have "successively valid_transition (replicate k (Tagged Inside l) @ Tagged End l # xs)" by (intro entity_moves)
  then have "successively valid_transition (Tagged Begin l # replicate k (Tagged Inside l) @ Tagged End l # xs)"
    by (cases k) simp_all
  then show ?case using 4 by (simp add: moves_ok_def)
qed (auto simp: moves_ok_def successively_Cons)

lemma entity_end:
  assumes "successively valid_transition (Tagged t l # rest)" "t = Begin \<or> t = Inside" "valid_end (last (Tagged t l # rest))"
  shows "\<exists>k xs. rest = replicate k (Tagged Inside l) @ Tagged End l # xs \<and> moves_ok xs"
  using assms
proof (induction rest arbitrary: t)
  case Nil
  then show ?case by auto
next
  case (Cons y rest)
  then consider "y = Tagged Inside l" | "y = Tagged End l" by auto
  then show ?case
  proof cases
    case 1
    then obtain k xs where "rest = replicate k (Tagged Inside l) @ Tagged End l # xs" "moves_ok xs"
      using Cons.IH[of Inside] Cons.prems by auto
    then show ?thesis using 1 by (intro exI[of _ "Suc k"] exI[of _ xs]) simp
  next
    case 2
    then have "moves_ok rest" using Cons.prems by (cases rest) (simp_all add: moves_ok_def)
    then show ?thesis using 2 by (intro exI[of _ 0] exI[of _ rest]) simp
  qed
qed

lemma moves_bioes: "moves_ok p \<Longrightarrow> bioes p"
proof (induction p rule: length_induct)
  case (1 p)
  show ?case
  proof (cases p)
    case (Cons x xs)
    show ?thesis
    proof (cases "x = Outside \<or> (\<exists>l. x = Tagged Single l)")
      case True
      then have "moves_ok xs" using 1(2) Cons by (cases xs) (auto simp: moves_ok_def)
      then have "bioes xs" using 1(1) Cons by simp
      then show ?thesis using True Cons by (auto intro: bioes.intros)
    next
      case False
      then obtain l where x: "x = Tagged Begin l" using 1(2) Cons by (cases x; cases "case x of Tagged t l \<Rightarrow> t" )
        (auto simp: moves_ok_def valid_start_def split: token_label.splits)
      then obtain k ys where "xs = replicate k (Tagged Inside l) @ Tagged End l # ys" "moves_ok ys"
        using entity_end[of Begin l xs] 1(2) Cons by (auto simp: moves_ok_def)
      then show ?thesis using 1(1) Cons x by (auto intro: bioes.intros)
    qed
  qed (simp add: bioes.intros)
qed

lemma bioes_iff: "bioes p \<longleftrightarrow> moves_ok p"
  using bioes_moves moves_bioes by blast

section \<open>The decoded path is a best entity sequence\<close>

lemma decoder_returns:
  assumes logits: "logits_bounded (row # rows)" and biases: "biases_bounded biases"
  obtains q x where "decode_bioes_viterbi (row # rows) biases = Inr (rev q)" "prefix_ok q" "valid_end (hd q)"
    "length q = length (row # rows)" "score_back biases (rev (row # rows)) q = Finite x"
    "\<And>p. prefix_ok p \<Longrightarrow> valid_end (hd p) \<Longrightarrow> length p = length (row # rows) \<Longrightarrow>
       \<exists>y. score_back biases (rev (row # rows)) p = Finite y \<and> y \<le> x"
proof -
  have ok: "row_ok row" "list_all row_ok rows" and n: "Suc (length rows) < 2 ^ 32"
    using logits by (simp_all add: logits_bounded_def row_ok_def list_all_iff)
  obtain final chosen where forward: "viterbi_forward biases (first_scores row) rows = (final, chosen)" by fastforce
  have inv: "decoder_inv biases (rev (row # rows)) final (rev chosen)"
    using forward_inv[OF first_inv[OF ok(1)] biases ok(2) _ forward] n by simp
  let ?n = "length (row # rows)" and ?R = "rev (row # rows)"
  have to: "best_to biases ?R (final ! i) (rev chosen) i (2 * int ?n - 1)"
    if "i < length token_labels" "reachable ?n i" for i
    using inv that unfolding decoder_inv_def length_rev by (auto simp del: length_Cons rev.simps)
  have low: "final ! i = Finite sentinel" if "i < length token_labels" "\<not> reachable ?n i" for i
    using inv that by (simp add: decoder_inv_def negative_infinity)
  define c where "c i = (case final ! i of Finite x \<Rightarrow> x | _ \<Rightarrow> 0)" for i
  have c: "final ! i = Finite (c i)" if "i < length token_labels" for i
  proof (cases "reachable ?n i")
    case True
    then show ?thesis using to[OF that True] unfolding best_to_def c_def by auto
  qed (simp add: low that c_def)
  obtain v b where best: "best_end final = (Finite v, b)" "sentinel \<le> v"
      "\<forall>i \<in> set [0..<length token_labels]. valid_end (token_labels ! i) \<longrightarrow> c i \<le> v"
      "b = None \<and> v = sentinel \<or> (\<exists>i \<in> set [0..<length token_labels]. valid_end (token_labels ! i) \<and> b = Some i \<and> c i = v)"
    using keep_best_fold[of "[0..<length token_labels]" "\<lambda>i. valid_end (token_labels ! i)" "(!) final" c sentinel None] c
    unfolding best_end_def consider_end_keeps negative_infinity by auto
  have unit: "0 < score_unit" by (simp add: score_unit_def)
  have "reachable ?n (label_index Outside)" by (simp add: reachable_def)
  then obtain x0 where "final ! label_index Outside = Finite x0" "\<bar>x0\<bar> \<le> (2 * int ?n - 1) * score_unit"
    using to[OF label_index_less[of Outside]] unfolding best_to_def by blast
  moreover have "(2 * int ?n - 1) * score_unit \<le> 2 ^ 33 * score_unit" by (rule mult_right_mono) (use n unit in simp_all)
  moreover have "c (label_index Outside) \<le> v" using best(3) label_index_less[of Outside] by simp
  ultimately have high: "- (2 ^ 33) * score_unit \<le> v"
    using c[OF label_index_less[of Outside]] unfolding abs_le_iff mult_minus_left by simp
  then have "v \<noteq> sentinel" using sentinel_low(1) unit by simp
  then obtain i where i: "i < length token_labels" "valid_end (token_labels ! i)" "b = Some i" "c i = v"
    using best(4) by auto
  have "reachable ?n i" using low[OF i(1)] c[OF i(1)] i(4) \<open>v \<noteq> sentinel\<close> by auto
  from to[OF i(1) this] obtain x ls where x: "final ! i = Finite x" "prefix_ok (token_labels ! i # ls)"
      "Suc (length ls) = length ?R" "score_back biases ?R (token_labels ! i # ls) = Finite x"
      "backtrace (rev chosen) i [token_labels ! i] = Inr (rev (token_labels ! i # ls))"
    unfolding best_to_def by (metis append_Nil2)
  have xv: "x = v" using x(1) c[OF i(1)] i(4) by simp
  have "sentinel div 2 < v" using sentinel_low(1) high unit by simp
  then have above: "\<not> double_le (Finite v) half_negative_infinity"
    by (simp add: double_le_def half_negative_infinity_def negative_infinity)
  have "emap validate_row (row # rows) = Inr (map (\<lambda>_. ()) (row # rows))"
  proof -
    have "validate_row r = Inr ()" if "row_ok r" for r
      using that by (auto simp: validate_row_def row_ok_def list_all_iff list_ex_iff bounded_by_def throw_if_def)
    then show ?thesis using ok unfolding emap_eq_Inr by (simp add: list_all2_conv_all_nth list_all_length All_less_Suc2)
  qed
  then have "decode_bioes_viterbi (row # rows) biases = Inr (rev (token_labels ! i # ls))"
    using above best(1) i(3) x(5) forward by (simp add: decode_bioes_viterbi_def validate_logits_def)
  moreover have "\<exists>y. score_back biases ?R p = Finite y \<and> y \<le> x"
    if p: "prefix_ok p" "valid_end (hd p)" "length p = length (row # rows)" for p
  proof -
    obtain m ms where ms: "p = m # ms" using p(1) by (cases p) auto
    let ?j = "label_index m"
    have "reachable ?n ?j" using p(1,3) ms by (cases ms) (auto simp: reachable_def)
    then obtain z where "final ! ?j = Finite z" "\<exists>y. score_back biases ?R p = Finite y \<and> y \<le> z"
      using to[OF label_index_less[of m]] p(1,3) ms unfolding best_to_def by (auto simp: token_label_at)
    moreover have "c ?j \<le> v" using best(3) label_index_less[of m] p(2) ms by simp
    ultimately show ?thesis using c[OF label_index_less[of m]] xv by auto
  qed
  ultimately show ?thesis using that[of "token_labels ! i # ls" x] x(2,3,4) i(2) by simp
qed

lemma decoder_path:
  assumes "logits_bounded logits" "biases_bounded biases" "logits \<noteq> []"
  obtains q x where "decode_bioes_viterbi logits biases = Inr (rev q)" "bioes (rev q)" "length q = length logits"
    "score_back biases (rev logits) q = Finite x"
    "\<And>p. prefix_ok p \<Longrightarrow> valid_end (hd p) \<Longrightarrow> length p = length logits \<Longrightarrow>
       \<exists>y. score_back biases (rev logits) p = Finite y \<and> y \<le> x"
proof -
  obtain row rows where logits: "logits = row # rows" using assms(3) by (cases logits) auto
  obtain q x where q: "decode_bioes_viterbi logits biases = Inr (rev q)" "prefix_ok q" "valid_end (hd q)"
      "length q = length logits" "score_back biases (rev logits) q = Finite x"
      "\<And>p. prefix_ok p \<Longrightarrow> valid_end (hd p) \<Longrightarrow> length p = length logits \<Longrightarrow>
         \<exists>y. score_back biases (rev logits) p = Finite y \<and> y \<le> x"
    using decoder_returns[OF assms(1)[unfolded logits] assms(2)] unfolding logits by metis
  have "bioes (rev q)" unfolding bioes_iff moves_ok_def using q(2,3) prefix_ok_rev[of "rev q"] by (simp add: last_rev)
  then show ?thesis using that q by blast
qed

lemma decoder_path_bioes:
  assumes "logits_bounded logits" "biases_bounded biases" "decode_bioes_viterbi logits biases = Inr labels"
  shows "bioes labels"
proof (cases "logits = []")
  case True
  then show ?thesis using assms(3) by (auto simp: decode_bioes_viterbi_def validate_logits_def intro: bioes.intros)
next
  case False
  obtain q where "decode_bioes_viterbi logits biases = Inr (rev q)" "bioes (rev q)"
    using decoder_path[OF assms(1,2) False] by metis
  then show ?thesis using assms(3) by simp
qed

text \<open>C34. On scores and biases of at most \<open>2 ^ 64\<close> in size and fewer than \<open>2 ^ 32\<close> tokens, the decoder
  returns one label per token, the labels are a sequence of whole entities, and no other such sequence has
  a better score, where a score is added up from the first token with the rounding of doubles.\<close>

theorem viterbi_path_is_best:
  assumes "logits_bounded logits" and "biases_bounded biases"
  shows "\<exists>path. decode_bioes_viterbi logits biases = Inr path \<and> length path = length logits \<and> bioes path \<and>
    (\<forall>p. bioes p \<longrightarrow> length p = length logits \<longrightarrow> double_le (path_score biases logits p) (path_score biases logits path))"
proof (cases "logits = []")
  case True
  then show ?thesis
    by (auto simp: decode_bioes_viterbi_def validate_logits_def path_score_def double_le_def intro: bioes.intros)
next
  case False
  obtain q x where q: "decode_bioes_viterbi logits biases = Inr (rev q)" "bioes (rev q)" "length q = length logits"
      "score_back biases (rev logits) q = Finite x"
      "\<And>p. prefix_ok p \<Longrightarrow> valid_end (hd p) \<Longrightarrow> length p = length logits \<Longrightarrow>
         \<exists>y. score_back biases (rev logits) p = Finite y \<and> y \<le> x"
    by (rule decoder_path[OF assms False]) blast
  have "double_le (path_score biases logits p) (path_score biases logits (rev q))"
    if p: "bioes p" "length p = length logits" for p
  proof -
    have "p \<noteq> []" using p(2) False by auto
    then have "prefix_ok (rev p)" "valid_end (hd (rev p))"
      using p(1) unfolding bioes_iff moves_ok_def prefix_ok_rev by (simp_all add: hd_rev)
    then obtain y where "score_back biases (rev logits) (rev p) = Finite y" "y \<le> x" using q(5) p(2) by fastforce
    then show ?thesis using q(4) by (auto simp: path_score_def double_le_def)
  qed
  then show ?thesis using q(1-3) by auto
qed

lemma viterbi_path_is_best_witness:
  "\<exists>path. decode_bioes_viterbi (replicate 3 (replicate 33 (Finite 7))) zero_viterbi_biases = Inr path \<and>
    length path = 3 \<and> bioes path"
proof -
  have "logits_bounded (replicate 3 (replicate 33 (Finite 7)))"
    by (simp add: logits_bounded_def length_token_labels bounded_by_def score_unit_def list_all_iff)
  moreover have "biases_bounded zero_viterbi_biases"
    by (simp add: biases_bounded_def zero_viterbi_biases_def bounded_by_def score_unit_def)
  ultimately show ?thesis using viterbi_path_is_best by fastforce
qed

end
