(* ===== verification/Privacy_Spans.thy ===== *)
theory Privacy_Spans
  imports Privacy_Masking Privacy_Viterbi
begin

text \<open>
  What masking guarantees. The union of spans is sorted, without overlap, and covers exactly what its
  candidates cover, each with the label of a candidate it holds; the masked text is the slices between the spans
  with one placeholder per span; with the decoder's guarantee every token that is not labelled as outside lies in
  a span, and so does the credential of every place where one of the patterns matches; and only characters with
  a labelled byte and credentials lie in spans.
\<close>

section \<open>The union\<close>

definition span_proper :: "candidate_span \<Rightarrow> bool" where
  "span_proper c \<longleftrightarrow> span_start c < span_end c \<and> (from_model c \<or> from_rules c)"

text \<open>What a span of the union keeps of a candidate.\<close>

definition holds_span :: "candidate_span \<Rightarrow> candidate_span \<Rightarrow> bool" where
  "holds_span u c \<longleftrightarrow>
     span_start u \<le> span_start c \<and> span_end c \<le> span_end u \<and> (span_label c = Secret \<longrightarrow> span_label u = Secret) \<and>
     (from_model c \<longrightarrow> from_model u) \<and> (from_rules c \<longrightarrow> from_rules u)"

definition covered_bytes :: "candidate_span list \<Rightarrow> nat \<Rightarrow> bool" where
  "covered_bytes cs k \<longleftrightarrow> list_ex (\<lambda>c. span_start c \<le> k \<and> k < span_end c) cs"

definition apart :: "candidate_span list \<Rightarrow> bool" where
  "apart cs \<longleftrightarrow> sorted_wrt (\<lambda>c d. span_end c \<le> span_start d) cs"

lemma covered_Cons: "covered_bytes (c # cs) k \<longleftrightarrow> span_start c \<le> k \<and> k < span_end c \<or> covered_bytes cs k"
  by (simp add: covered_bytes_def)

lemma holds_span_trans: "holds_span u v \<Longrightarrow> holds_span v c \<Longrightarrow> holds_span u c"
  unfolding holds_span_def by linarith

lemma join_spans_holds:
  assumes "span_start p \<le> span_start c"
  shows "holds_span (join_spans p c) p" "holds_span (join_spans p c) c"
  using assms by (auto simp: holds_span_def join_spans_def)

lemma union_from_correct:
  assumes "sorted_wrt (\<lambda>c d. span_start c \<le> span_start d) (p # cs)" "list_all span_proper (p # cs)"
  shows "apart (union_from p cs) \<and> list_all span_proper (union_from p cs) \<and>
    (\<forall>u \<in> set (union_from p cs). span_start p \<le> span_start u) \<and>
    (\<forall>k. covered_bytes (union_from p cs) k \<longleftrightarrow> covered_bytes (p # cs) k) \<and>
    (\<forall>c \<in> set (p # cs). \<exists>u \<in> set (union_from p cs). holds_span u c) \<and>
    span_start ` set (union_from p cs) \<subseteq> span_start ` set (p # cs) \<and>
    span_end ` set (union_from p cs) \<subseteq> span_end ` set (p # cs)"
  using assms
proof (induction p cs rule: union_from.induct)
  case (1 p)
  then show ?case by (simp add: apart_def holds_span_def)
next
  case (2 p c cs)
  have cs: "sorted_wrt (\<lambda>c d. span_start c \<le> span_start d) (c # cs)" "list_all span_proper (c # cs)"
    using "2.prems" by simp_all
  show ?case
  proof (cases "span_end p \<le> span_start c")
    case True
    note IH = "2.IH"(1)[OF True cs]
    have "span_proper p" using "2.prems" by simp
    then have "span_start p \<le> span_start u \<and> span_end p \<le> span_start u" if "u \<in> set (union_from c cs)" for u
      using IH that True unfolding span_proper_def by fastforce
    then have "apart (union_from p (c # cs))" using IH True by (simp add: apart_def)
    moreover have "holds_span p p" by (simp add: holds_span_def)
    ultimately show ?thesis
      using IH True \<open>span_proper p\<close> \<open>\<And>u. u \<in> set (union_from c cs) \<Longrightarrow> _\<close> by (auto simp: covered_Cons)
  next
    case False
    let ?j = "join_spans p c"
    have start: "span_start ?j = span_start p" "span_end ?j = max (span_end p) (span_end c)" by (simp_all add: join_spans_def)
    have pc: "span_proper p" "span_proper c" "span_start p \<le> span_start c" using "2.prems" by simp_all
    have "span_proper ?j" using pc by (auto simp: span_proper_def join_spans_def)
    then have "list_all span_proper (?j # cs)" using cs by simp
    moreover have "sorted_wrt (\<lambda>c d. span_start c \<le> span_start d) (?j # cs)"
      using "2.prems" start(1) by simp
    ultimately have IH: "apart (union_from ?j cs) \<and> list_all span_proper (union_from ?j cs) \<and>
        (\<forall>u \<in> set (union_from ?j cs). span_start ?j \<le> span_start u) \<and>
        (\<forall>k. covered_bytes (union_from ?j cs) k \<longleftrightarrow> covered_bytes (?j # cs) k) \<and>
        (\<forall>c \<in> set (?j # cs). \<exists>u \<in> set (union_from ?j cs). holds_span u c) \<and>
        span_start ` set (union_from ?j cs) \<subseteq> span_start ` set (?j # cs) \<and>
        span_end ` set (union_from ?j cs) \<subseteq> span_end ` set (?j # cs)"
      by (rule "2.IH"(2)[OF False, rotated])
    have "span_start c < span_end p" using False by simp
    then have "covered_bytes (?j # cs) k \<longleftrightarrow> covered_bytes (p # c # cs) k" for k
      using pc unfolding covered_Cons start span_proper_def by auto
    moreover obtain u where u: "u \<in> set (union_from ?j cs)" "holds_span u ?j" using IH by auto
    moreover have "holds_span u p" "holds_span u c" using u(2) join_spans_holds[OF pc(3)] holds_span_trans by blast+
    moreover have "span_end ?j \<in> {span_end p, span_end c}" unfolding start by (simp add: max_def)
    ultimately show ?thesis using IH False start(1) by (simp add: image_subset_iff) (intro conjI ballI; metis)
  qed
qed

lemma union_spans_correct:
  assumes "list_all span_proper cs"
  shows "apart (union_spans cs)" "list_all span_proper (union_spans cs)"
    "covered_bytes (union_spans cs) k \<longleftrightarrow> covered_bytes cs k" "c \<in> set cs \<Longrightarrow> \<exists>u \<in> set (union_spans cs). holds_span u c"
    "span_start ` set (union_spans cs) \<subseteq> span_start ` set cs" "span_end ` set (union_spans cs) \<subseteq> span_end ` set cs"
proof -
  define xs where "xs = sort_key (\<lambda>c. (span_start c, span_end c)) cs"
  have set: "set xs = set cs" by (simp add: xs_def)
  have cov: "covered_bytes cs k \<longleftrightarrow> covered_bytes xs k" for k by (simp add: covered_bytes_def list_ex_iff set)
  have "sorted (map (\<lambda>c. (span_start c, span_end c)) xs)" by (simp add: xs_def)
  then have order: "sorted_wrt (\<lambda>c d. span_start c \<le> span_start d) xs"
    unfolding sorted_map by (rule sorted_wrt_mono_rel[rotated]) (auto simp: less_eq_prod_def)
  have proper: "list_all span_proper xs" using assms set by (simp add: list_all_iff)
  have "apart (union_spans cs) \<and> list_all span_proper (union_spans cs) \<and>
    (\<forall>k. covered_bytes (union_spans cs) k \<longleftrightarrow> covered_bytes cs k) \<and>
    (\<forall>c \<in> set cs. \<exists>u \<in> set (union_spans cs). holds_span u c) \<and>
    span_start ` set (union_spans cs) \<subseteq> span_start ` set cs \<and> span_end ` set (union_spans cs) \<subseteq> span_end ` set cs"
  proof (cases xs)
    case Nil
    then show ?thesis using set by (simp add: union_spans_def xs_def[symmetric] apart_def)
  next
    case (Cons p ps)
    then have "union_spans cs = union_from p ps" by (simp add: union_spans_def xs_def[symmetric])
    moreover have "set cs = set (p # ps)" "\<And>k. covered_bytes cs k \<longleftrightarrow> covered_bytes (p # ps) k" using set cov Cons by simp_all
    ultimately show ?thesis using union_from_correct[OF order[unfolded Cons] proper[unfolded Cons]] by simp
  qed
  then show "apart (union_spans cs)" "list_all span_proper (union_spans cs)"
    "covered_bytes (union_spans cs) k \<longleftrightarrow> covered_bytes cs k" "c \<in> set cs \<Longrightarrow> \<exists>u \<in> set (union_spans cs). holds_span u c"
    "span_start ` set (union_spans cs) \<subseteq> span_start ` set cs" "span_end ` set (union_spans cs) \<subseteq> span_end ` set cs"
    by blast+
qed

text \<open>The label of a span is that of a candidate it holds.\<close>

lemma union_from_label:
  assumes "sorted_wrt (\<lambda>c d. span_start c \<le> span_start d) (p # cs)" "u \<in> set (union_from p cs)"
  shows "\<exists>c \<in> set (p # cs). holds_span u c \<and> span_label u = span_label c"
  using assms
proof (induction p cs rule: union_from.induct)
  case (1 p)
  then show ?case by (simp add: holds_span_def)
next
  case (2 p c cs)
  show ?case
  proof (cases "span_end p \<le> span_start c")
    case True
    then show ?thesis using "2.IH"(1) "2.prems" by (cases "u = p") (auto simp: holds_span_def)
  next
    case False
    let ?j = "join_spans p c"
    have "span_start ?j = span_start p" by (simp add: join_spans_def)
    then have "sorted_wrt (\<lambda>c d. span_start c \<le> span_start d) (?j # cs)" using "2.prems"(1) by simp
    then obtain d where d: "d \<in> set (?j # cs)" "holds_span u d" "span_label u = span_label d"
      using "2.IH"(2)[OF False] "2.prems"(2) False by auto
    show ?thesis
    proof (cases "d = ?j")
      case True
      have "span_start p \<le> span_start c" using "2.prems"(1) by simp
      then have "holds_span u p" "holds_span u c" using d(2) True join_spans_holds holds_span_trans by blast+
      then show ?thesis using d(3) True by (auto simp: join_spans_def)
    qed (use d in auto)
  qed
qed

lemma union_spans_label:
  assumes "u \<in> set (union_spans cs)"
  shows "\<exists>c \<in> set cs. holds_span u c \<and> span_label u = span_label c"
proof -
  define xs where "xs = sort_key (\<lambda>c. (span_start c, span_end c)) cs"
  have set: "set xs = set cs" by (simp add: xs_def)
  have "sorted (map (\<lambda>c. (span_start c, span_end c)) xs)" by (simp add: xs_def)
  then have order: "sorted_wrt (\<lambda>c d. span_start c \<le> span_start d) xs"
    unfolding sorted_map by (rule sorted_wrt_mono_rel[rotated]) (auto simp: less_eq_prod_def)
  obtain p ps where ps: "xs = p # ps" using assms by (cases xs) (simp_all add: union_spans_def flip: xs_def)
  then have "u \<in> set (union_from p ps)" using assms by (simp add: union_spans_def flip: xs_def)
  from union_from_label[OF order[unfolded ps] this] show ?thesis using set ps by auto
qed

section \<open>The rendered text\<close>

text \<open>The bytes no span marks, in order; and pieces of text joined by placeholders.\<close>

definition unmarked_bytes :: "string \<Rightarrow> (nat \<times> nat) list \<Rightarrow> string" where
  "unmarked_bytes source spans =
     map ((!) source) (filter (\<lambda>k. \<not> list_ex (\<lambda>(i, j). i \<le> k \<and> k < j) spans) [0..<length source])"

fun weave :: "string list \<Rightarrow> string list \<Rightarrow> string" where
  "weave (piece # pieces) (mark # marks) = piece @ mark @ weave pieces marks"
| "weave pieces [] = concat pieces"
| "weave [] marks = concat marks"

fun kept_pieces :: "string \<Rightarrow> nat \<Rightarrow> candidate_span list \<Rightarrow> string list" where
  "kept_pieces source cursor [] = [drop cursor source]"
| "kept_pieces source cursor (c # cs) = slice_of source cursor (span_start c) # kept_pieces source (span_end c) cs"

lemma render_weave:
  "render_masked source cursor cs = weave (kept_pieces source cursor cs) (map (\<lambda>c. placeholder_for (span_label c)) cs)"
  by (induction source cursor cs rule: render_masked.induct) simp_all

text \<open>The pieces are the slices between the spans.\<close>

definition kept_slices :: "string \<Rightarrow> detected_span list \<Rightarrow> string list" where
  "kept_slices s spans = map2 (slice_of s) (0 # map detected_end spans) (map detected_start spans @ [length s])"

lemma kept_pieces_slices:
  "kept_pieces source cursor cs = map2 (slice_of source) (cursor # map span_end cs) (map span_start cs @ [length source])"
  by (induction source cursor cs rule: kept_pieces.induct) (simp_all add: slice_of_def)

lemma length_kept_pieces: "length (kept_pieces source cursor cs) = Suc (length cs)"
  by (induction source cursor cs rule: kept_pieces.induct) simp_all

lemma upt_split: "a \<le> b \<Longrightarrow> b \<le> c \<Longrightarrow> [a..<c] = [a..<b] @ [b..<c]"
  by (metis le_add_diff_inverse upt_add_eq_append)

lemma slice_nth: "i \<le> j \<Longrightarrow> j \<le> length xs \<Longrightarrow> slice_of xs i j = map ((!) xs) [i..<j]"
  by (rule nth_equalityI) (simp_all add: slice_of_def)

lemma concat_kept_pieces:
  assumes "apart cs" "list_all span_proper cs" "\<forall>c \<in> set cs. cursor \<le> span_start c \<and> span_end c \<le> length source"
    "cursor \<le> length source"
  shows "concat (kept_pieces source cursor cs) =
    map ((!) source) (filter (\<lambda>k. \<not> covered_bytes cs k) [cursor..<length source])"
  using assms
proof (induction cs arbitrary: cursor)
  case Nil
  then show ?case using slice_nth[of cursor "length source" source] by (simp add: covered_bytes_def slice_of_def)
next
  case (Cons c cs)
  have c: "cursor \<le> span_start c" "span_start c < span_end c" "span_end c \<le> length source"
    using Cons.prems by (simp_all add: span_proper_def)
  have after: "\<forall>d \<in> set cs. span_end c \<le> span_start d \<and> span_end d \<le> length source" using Cons.prems by (simp add: apart_def)
  have rest: "concat (kept_pieces source (span_end c) cs) =
      map ((!) source) (filter (\<lambda>k. \<not> covered_bytes cs k) [span_end c..<length source])"
    by (rule Cons.IH) (use Cons.prems after c in \<open>simp_all add: apart_def\<close>)
  have late: "\<not> covered_bytes cs k" if "k < span_end c" for k using after that by (fastforce simp: covered_bytes_def list_ex_iff)
  have "[cursor..<length source] = [cursor..<span_start c] @ [span_start c..<span_end c] @ [span_end c..<length source]"
    using upt_split[of cursor "span_start c" "length source"] upt_split[of "span_start c" "span_end c" "length source"] c by simp
  moreover have "filter (\<lambda>k. \<not> covered_bytes (c # cs) k) [cursor..<span_start c] = [cursor..<span_start c]"
    using late c by (intro filter_True) (auto simp: covered_Cons)
  moreover have "filter (\<lambda>k. \<not> covered_bytes (c # cs) k) [span_start c..<span_end c] = []"
    by (auto simp: covered_Cons filter_empty_conv)
  moreover have "filter (\<lambda>k. \<not> covered_bytes (c # cs) k) [span_end c..<length source] =
      filter (\<lambda>k. \<not> covered_bytes cs k) [span_end c..<length source]"
    by (intro filter_cong) (auto simp: covered_Cons)
  ultimately show ?case using rest c by (simp add: slice_nth)
qed

lemma unmarked_covered:
  "unmarked_bytes source (map (\<lambda>c. (span_start c, span_end c)) cs) =
   map ((!) source) (filter (\<lambda>k. \<not> covered_bytes cs k) [0..<length source])"
  by (simp add: unmarked_bytes_def covered_bytes_def list_ex_iff Bex_def)

text \<open>Cut at the boundaries of characters, the rendered text is valid.\<close>

lemma placeholder_ascii: "list_all (\<lambda>c. of_char c < (128 :: nat)) (placeholder_for l)"
  by (induction l; code_simp)

lemma utf8_ok_render:
  assumes "utf8_ok source" "cursor \<in> set (utf8_boundaries source)"
    "\<forall>c \<in> set cs. span_start c \<in> set (utf8_boundaries source) \<and> span_end c \<in> set (utf8_boundaries source)"
  shows "utf8_ok (render_masked source cursor cs)"
  using assms(2,3)
proof (induction cs arbitrary: cursor)
  case Nil
  then show ?case using utf8_boundary_cut(2)[OF assms(1)] by simp
next
  case (Cons c cs)
  then have "utf8_ok (slice_of source cursor (span_start c))"
    unfolding slice_of_def by (intro slice_utf8[OF assms(1)]) simp_all
  moreover have "utf8_ok (placeholder_for (span_label c))" by (rule utf8_ok_ascii[OF placeholder_ascii])
  moreover have "utf8_ok (render_masked source (span_end c) cs)" using Cons by simp
  ultimately show ?case by (simp add: utf8_ok_append)
qed

section \<open>The candidates\<close>

text \<open>A candidate is a proper span between boundaries of characters.\<close>

definition candidate_ok :: "string \<Rightarrow> candidate_span \<Rightarrow> bool" where
  "candidate_ok s c \<longleftrightarrow>
     span_proper c \<and> span_start c \<in> set (utf8_boundaries s) \<and> span_end c \<in> set (utf8_boundaries s)"

lemma utf8_ok_buffer: "utf8_ok s \<Longrightarrow> buffer_from s = s"
  unfolding utf8_ok_def by (rule buffer_from_utf8, rule utf8_surrogate_free[of "[]"]) simp_all

lemma expand_covers:
  assumes "expand_to_utf8_boundaries s i j = Inr (a, b)"
  shows "int a \<le> i" "j \<le> int b" "i < j" "a \<in> set (utf8_boundaries s)" "b \<in> set (utf8_boundaries s)"
proof -
  let ?before = "takeWhile (\<lambda>x. int x \<le> i) (utf8_boundaries s)"
  have valid: "i < j" and some: "?before \<noteq> []" "last ?before = a" "List.find (\<lambda>x. j \<le> int x) (utf8_boundaries s) = Some b"
    using assms
    by (auto simp: expand_to_utf8_boundaries_def assert_valid_byte_range_def result_simps Let_def split: option.splits if_splits)
  have "a \<in> set ?before" using some by (metis last_in_set)
  then show "int a \<le> i" "a \<in> set (utf8_boundaries s)" by (auto dest: set_takeWhileD)
  show "j \<le> int b" "b \<in> set (utf8_boundaries s)" using find_SomeD[OF some(3)] by simp_all
  show "i < j" by (rule valid)
qed

lemma model_candidate_ok:
  assumes "model_candidate s (l, i, j) = Inr c"
  shows "candidate_ok s c \<and> int (span_start c) \<le> i \<and> j \<le> int (span_end c) \<and> span_label c = l \<and> from_model c"
proof -
  obtain a b where ab: "expand_to_utf8_boundaries s i j = Inr (a, b)"
      "c = \<lparr>span_label = l, span_start = a, span_end = b, from_model = True, from_rules = False\<rparr>"
    using assms by (auto simp: model_candidate_def result_simps)
  from expand_covers[OF ab(1)] show ?thesis using ab(2) by (simp add: candidate_ok_def span_proper_def)
qed

lemma slice_bytes_cut:
  assumes "utf8_ok s" "0 \<le> i" "i \<le> int (length (utf16_units s))" "\<not> splits_pair (utf16_units s) (nat i)"
  shows "\<exists>m \<le> length (characters s). slice_bytes (utf16_units s) i = length (concat (take m (characters s))) \<and>
    nat i = length (utf16_units (concat (take m (characters s))))"
proof -
  have i: "nat i \<le> length (utf16_units s)" using assms(3) by simp
  from unit_cut[OF assms(1) this assms(4)] obtain m where m: "m \<le> length (characters s)"
      "take (nat i) (utf16_units s) = utf16_units (concat (take m (characters s)))"
      "units_text (take (nat i) (utf16_units s)) = concat (take m (characters s))" by blast
  have "utf8_ok (concat (take m (characters s)))"
    by (rule utf8_ok_concat, use utf8_ok_characters[OF assms(1)] in \<open>meson in_set_takeD\<close>)
  moreover have "nat i = length (take (nat i) (utf16_units s))" using i by simp
  ultimately show ?thesis using m by (intro exI[of _ m]) (simp add: slice_bytes_def utf8_ok_buffer)
qed

lemma secret_candidate_ok:
  assumes "utf8_ok s" "secret_candidate s (i, j) = Inr c" "(i, j) \<in> set (detect_deterministic_secrets (utf16_units s))"
  shows "candidate_ok s c \<and> span_start c = slice_bytes (utf16_units s) i \<and> span_end c = slice_bytes (utf16_units s) j \<and>
    span_label c = Secret \<and> from_rules c"
proof -
  let ?u = "utf16_units s"
  have ij: "0 \<le> i" "i < j" "j \<le> int (length ?u)" "\<not> splits_pair ?u (nat i)" "\<not> splits_pair ?u (nat j)"
    using detected_secrets_in_text[OF assms(3)] by simp_all
  obtain m where m: "m \<le> length (characters s)" "slice_bytes ?u i = length (concat (take m (characters s)))"
      "nat i = length (utf16_units (concat (take m (characters s))))"
    using slice_bytes_cut[OF assms(1) ij(1) _ ij(4)] ij by auto
  obtain n where n: "n \<le> length (characters s)" "slice_bytes ?u j = length (concat (take n (characters s)))"
      "nat j = length (utf16_units (concat (take n (characters s))))"
    using slice_bytes_cut[OF assms(1) _ ij(3,5)] ij by auto
  have "m < n"
  proof (rule ccontr)
    assume "\<not> m < n"
    then have "take m (characters s) = take n (characters s) @ take (m - n) (drop n (characters s))"
      by (metis le_add_diff_inverse not_less take_add)
    then have split: "concat (take m (characters s)) = concat (take n (characters s)) @ concat (take (m - n) (drop n (characters s)))"
      by (metis concat_append)
    have "utf8_ok (concat (take n (characters s)))"
      by (rule utf8_ok_concat, use utf8_ok_characters[OF assms(1)] in \<open>meson in_set_takeD\<close>)
    then have "nat j \<le> nat i" unfolding m(3) n(3) split by (simp add: utf16_units_append)
    then show False using ij by simp
  qed
  then have "slice_bytes ?u i < slice_bytes ?u j"
    unfolding m(2) n(2) using n(1) characters_nonempty[of "[]" s] by (intro concat_take_less) auto
  then show ?thesis
    using assms(2) m n by (auto simp: secret_candidate_def result_simps Let_def candidate_ok_def span_proper_def utf8_boundary_iff)
qed

section \<open>Every labelled token lies in an entity\<close>

lemma entity_end_replicate:
  "entity_end_after l (replicate k (Tagged Inside l) @ Tagged End l # xs) = Some k"
  by (induction k) simp_all

text \<open>The entity of a token, by the tokens it begins and ends with.\<close>

definition in_entity :: "token_offset list \<Rightarrow> (privacy_label \<times> int \<times> int) list \<Rightarrow> nat \<Rightarrow> bool" where
  "in_entity offsets spans k \<longleftrightarrow>
     (\<exists>l f g. (l, start_byte (offsets ! f), end_byte (offsets ! g)) \<in> set spans \<and> f \<le> k \<and> k \<le> g \<and> g < length offsets)"

lemma in_entity_Cons: "in_entity offsets spans k \<Longrightarrow> in_entity offsets (x # spans) k"
  by (auto simp: in_entity_def)

lemma model_span_offsets:
  "model_span s offsets l i j = Inr x \<Longrightarrow> x = (l, start_byte (offsets ! i), end_byte (offsets ! j)) \<and> j < length offsets"
  by (auto simp: model_span_def offset_at_def result_simps split: if_splits)

lemma model_spans_hold:
  assumes "bioes xs" "model_spans_from s offsets i xs = Inr spans" "k < length xs" "xs ! k \<noteq> Outside"
  shows "in_entity offsets spans (i + k)"
  using assms
proof (induction arbitrary: i k spans rule: bioes.induct)
  case (2 xs)
  then show ?case by (cases k) fastforce+
next
  case (3 xs l)
  then obtain x rest where x: "model_span s offsets l i i = Inr x" "model_spans_from s offsets (Suc i) xs = Inr rest"
      "spans = x # rest" by (auto simp: result_simps)
  show ?case
  proof (cases k)
    case 0
    then show ?thesis using x(3) model_span_offsets[OF x(1)] by (auto simp: in_entity_def)
  next
    case (Suc k')
    then show ?thesis using "3.IH"[OF x(2), of k'] "3.prems" x(3) in_entity_Cons by simp
  qed
next
  case (4 xs l n)
  let ?body = "replicate n (Tagged Inside l) @ Tagged End l # xs"
  obtain x rest where x: "model_span s offsets l i (i + n + 1) = Inr x" "spans = x # rest"
      "model_spans_from s offsets (i + n + 2) xs = Inr rest"
    using "4.prems"(1) by (auto simp: entity_end_replicate result_simps)
  show ?case
  proof (cases "k \<le> Suc n")
    case True
    then show ?thesis using x(2) model_span_offsets[OF x(1)] unfolding in_entity_def
      by (intro exI[of _ l] exI[of _ i] exI[of _ "i + n + 1"]) simp
  next
    case False
    define k' where "k' = k - (n + 2)"
    have k: "k = n + 2 + k'" using False by (simp add: k'_def)
    then have "(Tagged Begin l # ?body) ! k = xs ! k'" by (simp add: nth_append)
    then show ?thesis using "4.IH"[OF x(3), of k'] "4.prems" x(2) k in_entity_Cons by (simp add: add.assoc)
  qed
qed simp

text \<open>Whatever the labels are, an entity is a run of tokens with its label.\<close>

lemma entity_end_labels:
  "entity_end_after l xs = Some n \<Longrightarrow> n < length xs \<and> (\<forall>t \<le> n. \<exists>tag. xs ! t = Tagged tag l)"
proof (induction l xs arbitrary: n rule: entity_end_after.induct)
  case (2 l x xs)
  obtain tag where x: "x = Tagged tag l" using "2.prems" by (cases x) (auto split: if_splits)
  show ?case
  proof (cases "tag = End")
    case False
    then obtain m where m: "n = Suc m" "entity_end_after l xs = Some m" using "2.prems" x by auto
    from "2.IH"[of "(tag, l)" tag l] m(2) x False
    have "m < length xs \<and> (\<forall>t \<le> m. \<exists>tag. xs ! t = Tagged tag l)" by simp
    then show ?thesis using m(1) x by (auto simp: nth_Cons split: nat.split)
  qed (use "2.prems" x in auto)
qed simp

definition entity_of :: "token_label list \<Rightarrow> token_offset list \<Rightarrow> privacy_label \<times> int \<times> int \<Rightarrow> bool" where
  "entity_of labels offsets = (\<lambda>(l, a, b).
     \<exists>f g. f \<le> g \<and> g < length labels \<and> g < length offsets \<and> a = start_byte (offsets ! f) \<and> b = end_byte (offsets ! g) \<and>
       (\<forall>t. f \<le> t \<longrightarrow> t \<le> g \<longrightarrow> (\<exists>tag. labels ! t = Tagged tag l)))"

lemma entity_ofI:
  assumes "model_span s offsets l (i + f) (i + g) = Inr x" "f \<le> g" "labels = front @ xs" "length front = i" "g < length xs"
    "\<And>t. f \<le> t \<Longrightarrow> t \<le> g \<Longrightarrow> \<exists>tag. xs ! t = Tagged tag l"
  shows "entity_of labels offsets x"
proof -
  have "\<exists>tag. labels ! t = Tagged tag l" if "i + f \<le> t" "t \<le> i + g" for t
    using assms(6)[of "t - i"] that assms(3,4) by (simp add: nth_append)
  moreover have "x = (l, start_byte (offsets ! (i + f)), end_byte (offsets ! (i + g)))" "i + g < length offsets"
    using model_span_offsets[OF assms(1)] by simp_all
  ultimately show ?thesis using assms(2-5) unfolding entity_of_def
    by (simp only: prod.case) (intro exI[of _ "i + f"] exI[of _ "i + g"], simp)
qed

lemma model_spans_entities:
  assumes "model_spans_from s offsets i xs = Inr spans" "labels = front @ xs" "length front = i" "x \<in> set spans"
  shows "entity_of labels offsets x"
  using assms
proof (induction s offsets i xs arbitrary: front spans rule: model_spans_from.induct)
  case (2 s offsets i y ys)
  have skip: "labels = (front @ [y]) @ ys" "length (front @ [y]) = Suc i" using "2.prems" by simp_all
  show ?case
  proof (cases "parse_token_label y")
    case None
    then show ?thesis using "2.IH"(1)[OF None _ skip] "2.prems" by simp
  next
    case (Some tl)
    obtain tag l where tl: "tl = (tag, l)" by fastforce
    note parsed = Some[unfolded tl]
    then have y: "y = Tagged tag l" by (cases y) simp_all
    show ?thesis
    proof (cases tag)
      case Single
      then obtain found rest where f: "model_span s offsets l i i = Inr found" "model_spans_from s offsets (Suc i) ys = Inr rest"
          "spans = found # rest" using "2.prems"(1) parsed by (auto simp: result_simps)
      have "entity_of labels offsets found"
        by (rule entity_ofI[of s offsets l i 0 0]) (use f(1) "2.prems" y in auto)
      moreover have "entity_of labels offsets x" if "x \<in> set rest"
        using "2.IH"(6)[OF parsed refl _ f(1,2) skip that] Single by simp
      ultimately show ?thesis using "2.prems"(4) f(3) by auto
    next
      case Begin
      show ?thesis
      proof (cases "entity_end_after l ys")
        case None
        then show ?thesis using "2.IH"(2)[OF parsed refl _ None _ skip] Begin "2.prems" parsed by simp
      next
        case e: (Some n)
        then obtain found rest where f: "model_span s offsets l i (i + n + 1) = Inr found"
            "model_spans_from s offsets (i + n + 2) (drop (Suc n) ys) = Inr rest" "spans = found # rest"
          using "2.prems"(1) parsed Begin by (auto simp: result_simps)
        note inside = entity_end_labels[OF e]
        have "entity_of labels offsets found"
          by (rule entity_ofI[of s offsets l i 0 "Suc n"])
            (use f(1) "2.prems" y inside in \<open>auto simp: nth_Cons split: nat.split\<close>)
        moreover have "labels = (front @ y # take (Suc n) ys) @ drop (Suc n) ys"
          "length (front @ y # take (Suc n) ys) = i + n + 2" using "2.prems"(2,3) inside by simp_all
        then have "entity_of labels offsets x" if "x \<in> set rest"
          using "2.IH"(3)[OF parsed refl _ e f(1,2) _ _ that] Begin by blast
        ultimately show ?thesis using "2.prems"(4) f(3) by auto
      qed
    next
      case Inside
      then show ?thesis using "2.IH"(4)[OF parsed refl _ _ skip] "2.prems" parsed by simp
    next
      case End
      then show ?thesis using "2.IH"(5)[OF parsed refl _ _ skip] "2.prems" parsed by simp
    qed
  qed
qed simp

text \<open>The token offsets follow each other, so an entity spans the bytes of every token in it.\<close>

lemma check_cover_offsets:
  assumes "check_cover s e offsets = Inr final" "k < length offsets"
  shows "e \<le> start_byte (offsets ! k) \<and> start_byte (offsets ! k) < end_byte (offsets ! k) \<and>
    (\<forall>m < k. end_byte (offsets ! m) \<le> start_byte (offsets ! k))"
  using assms
proof (induction s e offsets arbitrary: k rule: check_cover.induct)
  case (2 s e o1 offs)
  have head: "start_byte o1 = e" "start_byte o1 < end_byte o1" "check_cover s (end_byte o1) offs = Inr final"
    using "2.prems"(1) by (auto simp: result_simps assert_valid_byte_range_def)
  show ?case
  proof (cases k)
    case 0
    then show ?thesis using head by simp
  next
    case (Suc k')
    have "end_byte o1 \<le> start_byte (offs ! k') \<and> start_byte (offs ! k') < end_byte (offs ! k') \<and>
        (\<forall>m < k'. end_byte (offs ! m) \<le> start_byte (offs ! k'))"
      using "2.IH"[OF _ _ head(3), of "()" "()" k'] "2.prems" head Suc
      by (auto simp: result_simps assert_valid_byte_range_def)
    then show ?thesis using head(1,2) Suc by (auto simp: less_Suc_eq_0_disj)
  qed
qed simp

lemma in_entity_bytes:
  assumes "in_entity offsets spans k" "check_cover s e offsets = Inr final"
  shows "\<exists>l a b. (l, a, b) \<in> set spans \<and> a \<le> start_byte (offsets ! k) \<and> end_byte (offsets ! k) \<le> b"
proof -
  obtain l f g where fg: "(l, start_byte (offsets ! f), end_byte (offsets ! g)) \<in> set spans" "f \<le> k" "k \<le> g" "g < length offsets"
    using assms(1) by (auto simp: in_entity_def)
  note cover = check_cover_offsets[OF assms(2)]
  have "start_byte (offsets ! f) \<le> start_byte (offsets ! k)"
  proof (cases "f = k")
    case False
    then have "end_byte (offsets ! f) \<le> start_byte (offsets ! k)" using cover[of k] fg by simp
    then show ?thesis using cover[of f] fg by simp
  qed simp
  moreover have "end_byte (offsets ! k) \<le> end_byte (offsets ! g)"
  proof (cases "g = k")
    case False
    then have "end_byte (offsets ! k) \<le> start_byte (offsets ! g)" using cover[of g] fg by simp
    then show ?thesis using cover[of g] fg by simp
  qed simp
  ultimately show ?thesis using fg(1) by blast
qed

section \<open>A masked text\<close>

lemma mask_parts:
  assumes "mask_classification s raw = Inr (masked, spans)" "utf8_ok s"
  obtains labels entities from_labels from_patterns where
    "decode_bioes_viterbi (token_logits raw) (classifier_biases raw) = Inr labels"
    "length (token_logits raw) = length (token_offsets raw)"
    "check_cover s 0 (token_offsets raw) = Inr (int (length s))"
    "model_spans_from s (token_offsets raw) 0 labels = Inr entities"
    "list_all2 (\<lambda>x c. model_candidate s x = Inr c) entities from_labels"
    "list_all2 (\<lambda>x c. secret_candidate s x = Inr c) (detect_deterministic_secrets (utf16_units s)) from_patterns"
    "spans = map detected_span_of (union_spans (from_labels @ from_patterns))"
    "masked = buffer_to_string (render_masked s 0 (union_spans (from_labels @ from_patterns)))"
  using assms(1) utf8_ok_buffer[OF assms(2)]
  by (auto simp: mask_classification_def result_simps emap_eq_Inr model_spans_def Let_def)

lemma list_all2_from: "list_all2 P xs ys \<Longrightarrow> y \<in> set ys \<Longrightarrow> \<exists>x \<in> set xs. P x y"
  by (induction rule: list_all2_induct) auto

lemma list_all2_to: "list_all2 P xs ys \<Longrightarrow> x \<in> set xs \<Longrightarrow> \<exists>y \<in> set ys. P x y"
  by (induction rule: list_all2_induct) auto

lemma candidates_ok:
  assumes "utf8_ok s" "list_all2 (\<lambda>x c. model_candidate s x = Inr c) entities from_labels"
    "list_all2 (\<lambda>x c. secret_candidate s x = Inr c) (detect_deterministic_secrets (utf16_units s)) from_patterns"
  shows "list_all (candidate_ok s) (from_labels @ from_patterns)"
proof -
  have "candidate_ok s c" if c: "c \<in> set from_labels" for c
  proof -
    obtain l i j where "model_candidate s (l, i, j) = Inr c" using list_all2_from[OF assms(2) c] by auto
    then show ?thesis using model_candidate_ok by blast
  qed
  moreover have "candidate_ok s c" if c: "c \<in> set from_patterns" for c
  proof -
    obtain i j where "(i, j) \<in> set (detect_deterministic_secrets (utf16_units s))" "secret_candidate s (i, j) = Inr c"
      using list_all2_from[OF assms(3) c] by auto
    then show ?thesis using secret_candidate_ok[OF assms(1)] by blast
  qed
  ultimately show ?thesis by (auto simp: list_all_iff)
qed

section \<open>When masking succeeds\<close>

lemma boundaries_ends: "0 \<in> set (utf8_boundaries s)" "length s \<in> set (utf8_boundaries s)"
proof -
  show "0 \<in> set (utf8_boundaries s)" unfolding utf8_boundary_iff by (rule exI[of _ 0]) simp
  show "length s \<in> set (utf8_boundaries s)" unfolding utf8_boundary_iff by (rule exI[of _ "length (characters s)"]) simp
qed

lemma boundaries_head: "\<exists>bs. utf8_boundaries s = 0 # bs"
  unfolding utf8_boundaries_def by (cases "characters s") simp_all

lemma expand_returns:
  assumes "utf8_ok s" "assert_valid_byte_range s i j = Inr ()"
  shows "\<exists>c. model_candidate s (l, i, j) = Inr c"
proof -
  have ij: "0 \<le> i" "j \<le> int (length s)"
    using assms by (auto simp: assert_valid_byte_range_def result_simps utf8_ok_buffer)
  obtain bs where bs: "utf8_boundaries s = 0 # bs" using boundaries_head by blast
  have "List.find (\<lambda>b. j \<le> int b) (utf8_boundaries s) \<noteq> None"
    using boundaries_ends(2) ij(2) by (auto simp: find_None_iff)
  then obtain b where "List.find (\<lambda>b. j \<le> int b) (utf8_boundaries s) = Some b" by blast
  moreover have "takeWhile (\<lambda>b. int b \<le> i) (utf8_boundaries s) \<noteq> []" using bs ij(1) by simp
  ultimately show ?thesis using assms(2) by (simp add: model_candidate_def expand_to_utf8_boundaries_def Let_def)
qed

lemma secret_candidate_returns:
  assumes "utf8_ok s" "x \<in> set (detect_deterministic_secrets (utf16_units s))"
  shows "\<exists>c. secret_candidate s x = Inr c"
proof -
  obtain i j where x: "x = (i, j)" by fastforce
  then have ij: "0 \<le> i" "i < j" "j \<le> int (length (utf16_units s))" "\<not> splits_pair (utf16_units s) (nat j)"
    using detected_secrets_in_text assms(2) by blast+
  obtain m where "slice_bytes (utf16_units s) j = length (concat (take m (characters s)))"
    using slice_bytes_cut[OF assms(1) _ ij(3,4)] ij by auto
  moreover have "length (concat (take m (characters s))) \<le> length s"
    by (metis concat_characters concat_take_drop le_add1 length_append)
  ultimately show ?thesis using assms(1) by (simp add: x secret_candidate_def Let_def throw_if_def utf8_ok_buffer)
qed

lemma emap_all_return: "(\<And>x. x \<in> set xs \<Longrightarrow> \<exists>y. f x = Inr y) \<Longrightarrow> \<exists>ys. emap f xs = Inr ys"
  by (induction xs) (simp, fastforce)

text \<open>The token offsets tile the text: each begins where the one before it ends.\<close>

definition offsets_tile :: "string \<Rightarrow> token_offset list \<Rightarrow> bool" where
  "offsets_tile s offsets \<longleftrightarrow>
     0 # map end_byte offsets = map start_byte offsets @ [int (length s)] \<and>
     list_all (\<lambda>x. 0 \<le> start_byte x \<and> start_byte x < end_byte x \<and> end_byte x \<le> int (length s) \<and> end_byte x \<le> max_safe_integer)
       offsets"

lemma check_cover_iff:
  assumes "buffer_from s = s"
  shows "check_cover s e offsets = Inr final \<longleftrightarrow>
    e # map end_byte offsets = map start_byte offsets @ [final] \<and>
    list_all (\<lambda>x. 0 \<le> start_byte x \<and> start_byte x < end_byte x \<and> end_byte x \<le> int (length s) \<and> end_byte x \<le> max_safe_integer)
      offsets"
  by (induction offsets arbitrary: e)
    (auto simp: result_simps assert_valid_byte_range_def assms abs_le_iff max_safe_integer_def)

lemma tiles_range:
  assumes "utf8_ok s" "offsets_tile s offsets" "f \<le> g" "g < length offsets"
  shows "assert_valid_byte_range s (start_byte (offsets ! f)) (end_byte (offsets ! g)) = Inr ()"
proof -
  have cover: "check_cover s 0 offsets = Inr (int (length s))"
    using assms(2) check_cover_iff[OF utf8_ok_buffer[OF assms(1)]] by (simp add: offsets_tile_def)
  have f: "0 \<le> start_byte (offsets ! f)" "start_byte (offsets ! f) < end_byte (offsets ! f)" "end_byte (offsets ! f) \<le> max_safe_integer"
    and g: "end_byte (offsets ! g) \<le> int (length s)" "start_byte (offsets ! g) < end_byte (offsets ! g)"
      "end_byte (offsets ! g) \<le> max_safe_integer"
    using assms(2-4) by (auto simp: offsets_tile_def list_all_length)
  have "start_byte (offsets ! f) < end_byte (offsets ! g)"
  proof (cases "f = g")
    case False
    then have "end_byte (offsets ! f) \<le> start_byte (offsets ! g)" using check_cover_offsets[OF cover assms(4)] assms(3) by simp
    then show ?thesis using f g by simp
  qed (use f in simp)
  then show ?thesis using f g by (simp add: assert_valid_byte_range_def throw_if_def utf8_ok_buffer[OF assms(1)])
qed

lemma model_spans_return:
  assumes "bioes xs" "utf8_ok s" "offsets_tile s offsets" "i + length xs = length offsets"
  shows "\<exists>spans. model_spans_from s offsets i xs = Inr spans \<and>
    list_all (\<lambda>(l, a, b). assert_valid_byte_range s a b = Inr ()) spans"
  using assms(1,4)
proof (induction arbitrary: i rule: bioes.induct)
  case (3 xs l)
  obtain rest where rest: "model_spans_from s offsets (Suc i) xs = Inr rest"
      "list_all (\<lambda>(l, a, b). assert_valid_byte_range s a b = Inr ()) rest"
    using "3.IH"[of "Suc i"] "3.prems" by auto
  have "assert_valid_byte_range s (start_byte (offsets ! i)) (end_byte (offsets ! i)) = Inr ()"
    using "3.prems" by (intro tiles_range[OF assms(2,3)]) simp_all
  then show ?case using rest "3.prems" by (simp add: model_span_def offset_at_def)
next
  case (4 xs l k)
  obtain rest where rest: "model_spans_from s offsets (i + k + 2) xs = Inr rest"
      "list_all (\<lambda>(l, a, b). assert_valid_byte_range s a b = Inr ()) rest"
    using "4.IH"[of "i + k + 2"] "4.prems" by auto
  have "assert_valid_byte_range s (start_byte (offsets ! i)) (end_byte (offsets ! (i + k + 1))) = Inr ()"
    using "4.prems" by (intro tiles_range[OF assms(2,3)]) simp_all
  then show ?case using rest "4.prems" by (simp add: model_span_def offset_at_def entity_end_replicate)
qed simp_all

lemma decode_length:
  assumes "logits_bounded logits" "biases_bounded biases"
  obtains labels where "decode_bioes_viterbi logits biases = Inr labels" "length labels = length logits" "bioes labels"
proof (cases "logits = []")
  case True
  then show ?thesis using that[of "[]"] by (simp add: decode_bioes_viterbi_def validate_logits_def bioes.intros)
next
  case False
  then show ?thesis using decoder_path[OF assms False] that by (metis length_rev)
qed

lemma mask_returns:
  assumes "utf8_ok s" "logits_bounded (token_logits raw)" "biases_bounded (classifier_biases raw)"
    and "decoded_text raw = s" "length (token_logits raw) = length (token_offsets raw)" "offsets_tile s (token_offsets raw)"
  shows "\<exists>masked spans. mask_classification s raw = Inr (masked, spans)"
proof -
  obtain labels where labels: "decode_bioes_viterbi (token_logits raw) (classifier_biases raw) = Inr labels"
      "length labels = length (token_logits raw)" "bioes labels"
    using decode_length[OF assms(2,3)] by blast
  obtain entities where entities: "model_spans s labels (token_offsets raw) = Inr entities"
      "list_all (\<lambda>(l, a, b). assert_valid_byte_range s a b = Inr ()) entities"
    using model_spans_return[OF labels(3) assms(1,6), of 0] labels(2) assms(5) by (auto simp: model_spans_def)
  have "\<exists>c. model_candidate s x = Inr c" if "x \<in> set entities" for x
    using expand_returns[OF assms(1)] entities(2) that by (cases x) (fastforce simp: list_all_iff)
  then obtain from_labels where "emap (model_candidate s) entities = Inr from_labels" using emap_all_return by metis
  moreover obtain from_patterns where
    "emap (secret_candidate s) (detect_deterministic_secrets (utf16_units s)) = Inr from_patterns"
    using emap_all_return secret_candidate_returns[OF assms(1)] by metis
  moreover have "check_cover s 0 (token_offsets raw) = Inr (int (length s))"
    using assms(6) check_cover_iff[OF utf8_ok_buffer[OF assms(1)]] by (simp add: offsets_tile_def)
  ultimately show ?thesis using assms(4,5) labels(1) entities(1)
    by (simp add: mask_classification_def throw_if_def utf8_ok_buffer[OF assms(1)] Let_def)
qed

text \<open>Masking decides: on valid text and scores of ordinary size it returns exactly when the classifier
  read back the same text, gave one row of scores per token, and its token offsets tile the text.\<close>

theorem masking_returns_iff:
  assumes "utf8_ok s" "logits_bounded (token_logits raw)" "biases_bounded (classifier_biases raw)"
  shows "(\<exists>masked spans. mask_classification s raw = Inr (masked, spans)) \<longleftrightarrow>
    decoded_text raw = s \<and> length (token_logits raw) = length (token_offsets raw) \<and> offsets_tile s (token_offsets raw)"
proof
  assume "\<exists>masked spans. mask_classification s raw = Inr (masked, spans)"
  then obtain masked spans where "mask_classification s raw = Inr (masked, spans)" by blast
  then show "decoded_text raw = s \<and> length (token_logits raw) = length (token_offsets raw) \<and> offsets_tile s (token_offsets raw)"
    by (auto simp: mask_classification_def result_simps offsets_tile_def check_cover_iff utf8_ok_buffer[OF assms(1)])
qed (use mask_returns[OF assms] in blast)

text \<open>The rendered text of the union of good candidates.\<close>

lemma masked_render:
  assumes "utf8_ok s" "list_all (candidate_ok s) cs"
  shows "buffer_to_string (render_masked s 0 (union_spans cs)) = render_masked s 0 (union_spans cs) \<and>
    utf8_ok (render_masked s 0 (union_spans cs)) \<and>
    concat (kept_pieces s 0 (union_spans cs)) = map ((!) s) (filter (\<lambda>k. \<not> covered_bytes (union_spans cs) k) [0..<length s])"
proof -
  let ?us = "union_spans cs"
  have proper: "list_all span_proper cs" using assms(2) by (auto simp: list_all_iff candidate_ok_def)
  have ends: "span_start c \<in> set (utf8_boundaries s)" "span_end c \<in> set (utf8_boundaries s)" if "c \<in> set ?us" for c
    using union_spans_correct(5,6)[OF proper] that assms(2) by (fastforce simp: list_all_iff candidate_ok_def)+
  have bound: "span_end c \<le> length s" if "c \<in> set ?us" for c by (rule utf8_boundary_cut(3)[OF assms(1) ends(2)[OF that]])
  have "concat (kept_pieces s 0 ?us) = map ((!) s) (filter (\<lambda>k. \<not> covered_bytes ?us k) [0..<length s])"
    by (rule concat_kept_pieces) (use union_spans_correct(1,2)[OF proper] bound in auto)
  moreover have "utf8_ok (render_masked s 0 ?us)"
    using ends boundaries_ends(1) by (intro utf8_ok_render[OF assms(1)]) blast+
  ultimately show ?thesis using buffer_to_string_utf8 unfolding utf8_ok_def by simp
qed

text \<open>No boundary of characters lies between two bytes of one character; a byte of a token that is labelled.\<close>

definition same_character :: "string \<Rightarrow> nat \<Rightarrow> nat \<Rightarrow> bool" where
  "same_character s j k \<longleftrightarrow> (\<forall>b \<in> set (utf8_boundaries s). b \<le> j \<longleftrightarrow> b \<le> k)"

definition labelled_byte :: "token_label list \<Rightarrow> token_offset list \<Rightarrow> nat \<Rightarrow> bool" where
  "labelled_byte labels offsets k \<longleftrightarrow>
     (\<exists>t < length labels. labels ! t \<noteq> Outside \<and> start_byte (offsets ! t) \<le> int k \<and> int k < end_byte (offsets ! t))"

lemma sorted_boundaries: "sorted (utf8_boundaries s)"
proof -
  have "sorted (boundaries_from n cs) \<and> (\<forall>b \<in> set (boundaries_from n cs). n \<le> b)" for n cs
    by (induction n cs rule: boundaries_from.induct) force+
  then show ?thesis by (simp add: utf8_boundaries_def)
qed

lemma expand_touches:
  assumes "expand_to_utf8_boundaries s i j = Inr (a, b)" "a \<le> k" "k < b"
  shows "\<exists>k'. i \<le> int k' \<and> int k' < j \<and> same_character s k' k"
proof -
  let ?bs = "utf8_boundaries s"
  let ?before = "takeWhile (\<lambda>x. int x \<le> i) ?bs"
  have valid: "0 \<le> i" "i < j" and some: "?before \<noteq> []" "last ?before = a" "List.find (\<lambda>x. j \<le> int x) ?bs = Some b"
    using assms(1)
    by (auto simp: expand_to_utf8_boundaries_def assert_valid_byte_range_def result_simps Let_def split: option.splits if_splits)
  have low: "x \<le> a" if x: "x \<in> set ?bs" "int x \<le> i" for x
  proof -
    have "x \<in> set ?before"
    proof (rule ccontr)
      assume "x \<notin> set ?before"
      then have "x \<in> set (dropWhile (\<lambda>x. int x \<le> i) ?bs)"
        using x(1) by (metis Un_iff set_append takeWhile_dropWhile_id)
      moreover from this obtain y ys where y: "dropWhile (\<lambda>x. int x \<le> i) ?bs = y # ys" by (cases "dropWhile (\<lambda>x. int x \<le> i) ?bs") auto
      moreover have "\<not> int y \<le> i" using y by (meson hd_dropWhile list.sel(1) list.distinct(1) dropWhile_eq_Cons_conv)
      moreover have "sorted (y # ys)" using sorted_boundaries[of s] y by (metis sorted_dropWhile)
      ultimately show False using x(2) by auto
    qed
    moreover have "sorted ?before" using sorted_boundaries by (rule sorted_takeWhile)
    ultimately show ?thesis using some(1,2) by (metis append_butlast_last_id in_set_conv_decomp sorted_append set_append
        Un_iff list.set_intros(1) order_refl set_ConsD empty_iff list.set(1) insert_iff list.simps(15))
  qed
  have high: "b \<le> x" if x: "x \<in> set ?bs" "j \<le> int x" for x
  proof -
    obtain front rest where split: "?bs = front @ b # rest" "\<And>y. y \<in> set front \<Longrightarrow> \<not> j \<le> int y"
      using some(3) unfolding find_Some_iff by (metis id_take_nth_drop in_set_conv_nth length_take less_or_eq_imp_le min.absorb2 nth_take)
    moreover have "sorted (b # rest)" using sorted_boundaries[of s] unfolding split(1) sorted_append by simp
    ultimately show ?thesis using x by auto
  qed
  consider "int k < i" | "i \<le> int k" "int k < j" | "j \<le> int k" by linarith
  then show ?thesis
  proof cases
    case 1
    have "same_character s (nat i) k" unfolding same_character_def
    proof
      fix x assume "x \<in> set ?bs"
      then show "(x \<le> nat i) = (x \<le> k)" using low[of x] assms(2) 1 by (auto simp: le_nat_iff valid(1))
    qed
    then show ?thesis using valid by (intro exI[of _ "nat i"]) simp
  next
    case 2
    then show ?thesis by (intro exI[of _ k]) (simp add: same_character_def)
  next
    case 3
    have "same_character s (nat (j - 1)) k" unfolding same_character_def
    proof
      fix x assume "x \<in> set ?bs"
      then show "(x \<le> nat (j - 1)) = (x \<le> k)" using high[of x] assms(3) 3 valid by (cases "j \<le> int x") auto
    qed
    then show ?thesis using valid by (intro exI[of _ "nat (j - 1)"]) simp
  qed
qed

lemma between_tokens:
  assumes "f \<le> g" "\<And>t. f \<le> t \<Longrightarrow> t < g \<Longrightarrow> start_byte (offsets ! Suc t) = end_byte (offsets ! t)"
    and "start_byte (offsets ! f) \<le> k" "k < end_byte (offsets ! g)"
  shows "\<exists>t. f \<le> t \<and> t \<le> g \<and> start_byte (offsets ! t) \<le> k \<and> k < end_byte (offsets ! t)"
  using assms
proof (induction g rule: dec_induct)
  case (step g)
  show ?case
  proof (cases "k < end_byte (offsets ! g)")
    case True
    then show ?thesis using step.IH step.prems by (meson le_SucI less_SucI)
  next
    case False
    then have "start_byte (offsets ! Suc g) \<le> k" using step.prems(1)[of g] step.hyps by simp
    then show ?thesis using step.prems(3) step.hyps by (meson le_SucI order_refl)
  qed
qed blast

lemma cover_adjacent:
  assumes "check_cover s e offsets = Inr final" "Suc t < length offsets"
  shows "start_byte (offsets ! Suc t) = end_byte (offsets ! t)"
  using assms
proof (induction s e offsets arbitrary: t rule: check_cover.induct)
  case (2 s e x xs)
  then have "check_cover s (end_byte x) xs = Inr final" by (auto simp: result_simps)
  then show ?case using 2
    by (cases t; cases xs) (auto simp: result_simps)
qed simp

lemma entity_bytes_labelled:
  assumes "entity_of labels offsets (l, a, b)" "check_cover s e offsets = Inr final" "a \<le> int k" "int k < b"
  shows "labelled_byte labels offsets k"
proof -
  obtain f g where fg: "f \<le> g" "g < length labels" "g < length offsets" "a = start_byte (offsets ! f)" "b = end_byte (offsets ! g)"
      "\<And>t. f \<le> t \<Longrightarrow> t \<le> g \<Longrightarrow> \<exists>tag. labels ! t = Tagged tag l"
    using assms(1) by (auto simp: entity_of_def)
  then obtain t where "f \<le> t" "t \<le> g" "start_byte (offsets ! t) \<le> int k" "int k < end_byte (offsets ! t)"
    using between_tokens[of f g offsets "int k"] cover_adjacent[OF assms(2)] assms(3,4) by auto
  then show ?thesis using fg(2,6) unfolding labelled_byte_def by (metis le_less_trans token_label.distinct(1))
qed

text \<open>C31. What is masked and what is kept. The masked text is the slices of the input between the spans, in
  order, with the placeholder of the span's label for each; it is valid text. A byte lies in a span only if its
  character has a byte of a token the best path labels, or it belongs to a credential the patterns find; and
  the label of a span is that of a labelled token in it, or it is secret and a credential is in it.\<close>

theorem masked_text_keeps_unmarked:
  assumes "mask_classification s raw = Inr (masked, spans)" "utf8_ok s"
    and "decode_bioes_viterbi (token_logits raw) (classifier_biases raw) = Inr labels"
  shows "masked = weave (kept_slices s spans) (map (\<lambda>d. placeholder_for (detected_label d)) spans) \<and> utf8_ok masked \<and>
    concat (kept_slices s spans) = unmarked_bytes s (map (\<lambda>d. (detected_start d, detected_end d)) spans) \<and>
    (\<forall>d \<in> set spans. \<forall>k \<in> {detected_start d ..< detected_end d}.
       (\<exists>k'. labelled_byte labels (token_offsets raw) k' \<and> same_character s k' k) \<or>
       (\<exists>(i, j) \<in> set (detect_deterministic_secrets (utf16_units s)).
          slice_bytes (utf16_units s) i \<le> k \<and> k < slice_bytes (utf16_units s) j)) \<and>
    (\<forall>d \<in> set spans.
       (\<exists>t < length labels. \<exists>tag. labels ! t = Tagged tag (detected_label d) \<and>
          int (detected_start d) \<le> start_byte (token_offsets raw ! t) \<and> end_byte (token_offsets raw ! t) \<le> int (detected_end d)) \<or>
       detected_label d = Secret \<and>
         (\<exists>(i, j) \<in> set (detect_deterministic_secrets (utf16_units s)).
            detected_start d \<le> slice_bytes (utf16_units s) i \<and> slice_bytes (utf16_units s) j \<le> detected_end d))"
proof -
  obtain labels' entities from_labels from_patterns where parts:
    "decode_bioes_viterbi (token_logits raw) (classifier_biases raw) = Inr labels'"
    "check_cover s 0 (token_offsets raw) = Inr (int (length s))"
    "model_spans_from s (token_offsets raw) 0 labels' = Inr entities"
    "list_all2 (\<lambda>x c. model_candidate s x = Inr c) entities from_labels"
    "list_all2 (\<lambda>x c. secret_candidate s x = Inr c) (detect_deterministic_secrets (utf16_units s)) from_patterns"
    "spans = map detected_span_of (union_spans (from_labels @ from_patterns))"
    "masked = buffer_to_string (render_masked s 0 (union_spans (from_labels @ from_patterns)))"
    by (rule mask_parts[OF assms(1,2)])
  have labels: "labels' = labels" using parts(1) assms(3) by simp
  let ?cs = "from_labels @ from_patterns" and ?us = "union_spans (from_labels @ from_patterns)"
  have ok: "list_all (candidate_ok s) ?cs" by (rule candidates_ok[OF assms(2) parts(4,5)])
  have proper: "list_all span_proper ?cs" using ok by (auto simp: list_all_iff candidate_ok_def)
  note kept = masked_render[OF assms(2) ok]
  have slices: "kept_slices s spans = kept_pieces s 0 ?us"
    by (simp add: kept_slices_def kept_pieces_slices parts(6) detected_span_of_def comp_def)
  have rendered: "masked = weave (kept_slices s spans) (map (\<lambda>d. placeholder_for (detected_label d)) spans) \<and> utf8_ok masked \<and>
      concat (kept_slices s spans) = unmarked_bytes s (map (\<lambda>d. (detected_start d, detected_end d)) spans)"
    using kept unfolding slices
    by (simp add: parts(6,7) render_weave detected_span_of_def comp_def flip: unmarked_covered)
  have candidate: "(\<exists>l a b. entity_of labels (token_offsets raw) (l, a, b) \<and> model_candidate s (l, a, b) = Inr c) \<or>
      (\<exists>(i, j) \<in> set (detect_deterministic_secrets (utf16_units s)). secret_candidate s (i, j) = Inr c)"
    if c: "c \<in> set ?cs" for c
  proof -
    consider "c \<in> set from_labels" | "c \<in> set from_patterns" using c by auto
    then show ?thesis
    proof cases
      case 1
      then obtain l a b where x: "(l, a, b) \<in> set entities" "model_candidate s (l, a, b) = Inr c"
        using list_all2_from[OF parts(4) 1] by (metis prod_cases3)
      have "entity_of labels (token_offsets raw) (l, a, b)"
        by (rule model_spans_entities[OF parts(3) _ _ x(1), of labels "[]"]) (simp_all add: labels)
      then show ?thesis using x(2) by blast
    next
      case 2
      then show ?thesis using list_all2_from[OF parts(5)] by fastforce
    qed
  qed
  have marked: "(\<exists>k'. labelled_byte labels (token_offsets raw) k' \<and> same_character s k' k) \<or>
      (\<exists>(i, j) \<in> set (detect_deterministic_secrets (utf16_units s)).
         slice_bytes (utf16_units s) i \<le> k \<and> k < slice_bytes (utf16_units s) j)"
    if d: "d \<in> set spans" and k: "k \<in> {detected_start d ..< detected_end d}" for d k
  proof -
    have "covered_bytes ?us k" using d k by (auto simp: parts(6) covered_bytes_def list_ex_iff detected_span_of_def)
    then obtain c where c: "c \<in> set ?cs" "span_start c \<le> k" "k < span_end c"
      using union_spans_correct(3)[OF proper] by (auto simp: covered_bytes_def list_ex_iff)
    from candidate[OF c(1)] show ?thesis
    proof (elim disjE exE conjE)
      fix l a b assume e: "entity_of labels (token_offsets raw) (l, a, b)" "model_candidate s (l, a, b) = Inr c"
      then have "expand_to_utf8_boundaries s a b = Inr (span_start c, span_end c)"
        by (auto simp: model_candidate_def result_simps)
      from expand_touches[OF this c(2,3)] show ?thesis using entity_bytes_labelled[OF e(1) parts(2)] by blast
    next
      assume "\<exists>(i, j) \<in> set (detect_deterministic_secrets (utf16_units s)). secret_candidate s (i, j) = Inr c"
      then show ?thesis using secret_candidate_ok[OF assms(2)] c(2,3) by fastforce
    qed
  qed
  have labelled: "(\<exists>t < length labels. \<exists>tag. labels ! t = Tagged tag (detected_label d) \<and>
          int (detected_start d) \<le> start_byte (token_offsets raw ! t) \<and> end_byte (token_offsets raw ! t) \<le> int (detected_end d)) \<or>
       detected_label d = Secret \<and>
         (\<exists>(i, j) \<in> set (detect_deterministic_secrets (utf16_units s)).
            detected_start d \<le> slice_bytes (utf16_units s) i \<and> slice_bytes (utf16_units s) j \<le> detected_end d)"
    if d: "d \<in> set spans" for d
  proof -
    obtain u where u: "u \<in> set ?us" "d = detected_span_of u" using d by (auto simp: parts(6))
    obtain c where c: "c \<in> set ?cs" "holds_span u c" "span_label u = span_label c" using union_spans_label[OF u(1)] by blast
    have range: "detected_start d \<le> span_start c" "span_end c \<le> detected_end d" "detected_label d = span_label c"
      using c(2,3) by (simp_all add: u(2) detected_span_of_def holds_span_def)
    from candidate[OF c(1)] show ?thesis
    proof (elim disjE exE conjE)
      fix l a b assume e: "entity_of labels (token_offsets raw) (l, a, b)" "model_candidate s (l, a, b) = Inr c"
      obtain f g where fg: "f \<le> g" "g < length labels" "g < length (token_offsets raw)" "a = start_byte (token_offsets raw ! f)"
          "b = end_byte (token_offsets raw ! g)" "\<exists>tag. labels ! f = Tagged tag l"
        using e(1) by (auto simp: entity_of_def)
      have m: "int (span_start c) \<le> a" "b \<le> int (span_end c)" "span_label c = l" using model_candidate_ok[OF e(2)] by simp_all
      have "end_byte (token_offsets raw ! f) \<le> b"
      proof (cases "f = g")
        case False
        then have "f < g" using fg(1) by simp
        then show ?thesis using check_cover_offsets[OF parts(2) fg(3)] fg(5) by fastforce
      qed (use fg(5) in simp)
      then show ?thesis using fg m range by (intro disjI1 exI[of _ f]) auto
    next
      assume "\<exists>(i, j) \<in> set (detect_deterministic_secrets (utf16_units s)). secret_candidate s (i, j) = Inr c"
      then show ?thesis using secret_candidate_ok[OF assms(2)] range by fastforce
    qed
  qed
  show ?thesis using rendered marked labelled by blast
qed

text \<open>The spans are in order, do not overlap, are not empty and cut no character; each names who found it.\<close>

theorem masked_spans_are_apart:
  assumes "mask_classification s raw = Inr (masked, spans)" "utf8_ok s"
  shows "sorted_wrt (\<lambda>d e. detected_end d \<le> detected_start e) spans \<and>
    list_all (\<lambda>d. detected_start d < detected_end d \<and> detected_end d \<le> length s \<and> detected_by d \<noteq> [] \<and>
      distinct (detected_by d) \<and> detected_start d \<in> set (utf8_boundaries s) \<and> detected_end d \<in> set (utf8_boundaries s)) spans"
proof -
  obtain entities from_labels from_patterns where parts:
    "list_all2 (\<lambda>x c. model_candidate s x = Inr c) entities from_labels"
    "list_all2 (\<lambda>x c. secret_candidate s x = Inr c) (detect_deterministic_secrets (utf16_units s)) from_patterns"
    "spans = map detected_span_of (union_spans (from_labels @ from_patterns))"
    by (rule mask_parts[OF assms])
  let ?cs = "from_labels @ from_patterns" and ?us = "union_spans (from_labels @ from_patterns)"
  have ok: "list_all (candidate_ok s) ?cs" by (rule candidates_ok[OF assms(2) parts(1,2)])
  have proper: "list_all span_proper ?cs" using ok by (auto simp: list_all_iff candidate_ok_def)
  have ends: "span_start c \<in> set (utf8_boundaries s)" "span_end c \<in> set (utf8_boundaries s)" if "c \<in> set ?us" for c
    using union_spans_correct(5,6)[OF proper] that ok by (fastforce simp: list_all_iff candidate_ok_def)+
  have bound: "span_end c \<le> length s" if "c \<in> set ?us" for c by (rule utf8_boundary_cut(3)[OF assms(2) ends(2)[OF that]])
  have "sorted_wrt (\<lambda>d e. detected_end d \<le> detected_start e) spans"
    using union_spans_correct(1)[OF proper] by (simp add: parts(3) sorted_wrt_map detected_span_of_def apart_def)
  moreover have "span_proper c" if "c \<in> set ?us" for c using union_spans_correct(2)[OF proper] that by (simp add: list_all_iff)
  ultimately show ?thesis
    using ends bound by (auto simp: parts(3) list_all_iff detected_span_of_def detector_names_def span_proper_def)
qed

text \<open>C32. No labelled token is shown: with scores of ordinary size, the bytes of every token that is not
  labelled as outside lie in a span.\<close>

theorem labelled_tokens_are_masked:
  assumes "mask_classification s raw = Inr (masked, spans)" "utf8_ok s"
    and "logits_bounded (token_logits raw)" "biases_bounded (classifier_biases raw)"
    and "decode_bioes_viterbi (token_logits raw) (classifier_biases raw) = Inr labels"
    and "k < length labels" "labels ! k \<noteq> Outside"
  shows "\<exists>d \<in> set spans. int (detected_start d) \<le> start_byte (token_offsets raw ! k) \<and>
    end_byte (token_offsets raw ! k) \<le> int (detected_end d)"
proof -
  obtain labels' entities from_labels from_patterns where parts:
    "check_cover s 0 (token_offsets raw) = Inr (int (length s))"
    "model_spans_from s (token_offsets raw) 0 labels' = Inr entities"
    "list_all2 (\<lambda>x c. model_candidate s x = Inr c) entities from_labels"
    "list_all2 (\<lambda>x c. secret_candidate s x = Inr c) (detect_deterministic_secrets (utf16_units s)) from_patterns"
    "spans = map detected_span_of (union_spans (from_labels @ from_patterns))"
    "decode_bioes_viterbi (token_logits raw) (classifier_biases raw) = Inr labels'"
    by (rule mask_parts[OF assms(1,2)])
  have same: "labels' = labels" using parts(6) assms(5) by simp
  have "bioes labels" using decoder_path_bioes[OF assms(3-5)] .
  then have "in_entity (token_offsets raw) entities (0 + k)"
    by (rule model_spans_hold[OF _ parts(2)[unfolded same] assms(6,7)])
  then obtain l a b where e: "(l, a, b) \<in> set entities" "a \<le> start_byte (token_offsets raw ! k)"
      "end_byte (token_offsets raw ! k) \<le> b" using in_entity_bytes[OF _ parts(1)] by fastforce
  obtain c where c: "c \<in> set from_labels" "model_candidate s (l, a, b) = Inr c" using list_all2_to[OF parts(3) e(1)] by auto
  have "list_all span_proper (from_labels @ from_patterns)"
    using candidates_ok[OF assms(2) parts(3,4)] by (auto simp: list_all_iff candidate_ok_def)
  from union_spans_correct(4)[OF this, of c] obtain u where
    u: "u \<in> set (union_spans (from_labels @ from_patterns))" "holds_span u c" using c(1) by auto
  have "int (span_start c) \<le> a" "b \<le> int (span_end c)" using model_candidate_ok[OF c(2)] by simp_all
  moreover have "detected_span_of u \<in> set spans" using u(1) by (simp add: parts(5))
  ultimately show ?thesis
    using u(2) e(2,3) by (intro bexI[of _ "detected_span_of u"]) (simp_all add: detected_span_of_def holds_span_def)
qed

text \<open>C33. No credential is shown. Wherever one of the six patterns matches the text lies a match the search
  finds, the first the pattern allows where it begins, and its credential, the captured value of the two
  patterns of passwords and the whole match of the others, lies in a span that is labelled secret and names the
  deterministic detector.\<close>

theorem credentials_are_masked:
  assumes "mask_classification s raw = Inr (masked, spans)" "utf8_ok s" "u = utf16_units s"
    and "pattern \<in> {aws_key, github_token, sk_key, private_key, assigned_secret, stated_secret}"
    and "k < length u" "matches_at u pattern (k, None) \<noteq> []"
  shows "\<exists>(m :: regex_match) d i j. match_start m \<le> k \<and> k < match_end m \<and>
    (match_end m, match_group m) = hd (matches_at u pattern (match_start m, None)) \<and>
    (i, j) = (case match_group m of None \<Rightarrow> (match_start m, match_end m) | Some g \<Rightarrow> g) \<and>
    match_start m \<le> i \<and> i < j \<and> j \<le> match_end m \<and>
    d \<in> set spans \<and> detected_start d \<le> slice_bytes u (int i) \<and> slice_bytes u (int j) \<le> detected_end d \<and>
    slice_bytes u (int i) < slice_bytes u (int j) \<and> detected_label d = Secret \<and> ''deterministic'' \<in> set (detected_by d)"
proof -
  obtain entities from_labels from_patterns where parts:
    "list_all2 (\<lambda>x c. model_candidate s x = Inr c) entities from_labels"
    "list_all2 (\<lambda>x c. secret_candidate s x = Inr c) (detect_deterministic_secrets (utf16_units s)) from_patterns"
    "spans = map detected_span_of (union_spans (from_labels @ from_patterns))"
    by (rule mask_parts[OF assms(1,2)])
  have pattern: "pattern \<in> set secret_patterns" using assms(4) by (auto simp: secret_patterns_def)
  obtain m where m: "m \<in> set (match_all u pattern 0)" "match_start m \<le> k" "k < match_end m"
    using match_all_complete[OF secret_patterns_ok[OF pattern] assms(6)] assms(5) by auto
  obtain i j where ij: "credential_of m = (i, j)" by fastforce
  note found = match_all_ok[OF secret_patterns_ok[OF pattern] m(1)]
  have range: "match_start m \<le> i" "i < j" "j \<le> match_end m"
    using found ij by (simp_all add: match_ok_def)
  have "secret_span u m = (int i, int j)" using found ij by (simp add: match_ok_def)
  then have mem: "(int i, int j) \<in> set (detect_deterministic_secrets (utf16_units s))"
    using detect_by_match[OF pattern m(1)] assms(3) by simp
  obtain c where c: "c \<in> set from_patterns" "secret_candidate s (int i, int j) = Inr c" using list_all2_to[OF parts(2) mem] by auto
  have ok: "candidate_ok s c" "span_start c = slice_bytes u (int i)" "span_end c = slice_bytes u (int j)"
    "span_label c = Secret" "from_rules c" using secret_candidate_ok[OF assms(2) c(2) mem] assms(3) by simp_all
  have "list_all span_proper (from_labels @ from_patterns)"
    using candidates_ok[OF assms(2) parts(1,2)] by (auto simp: list_all_iff candidate_ok_def)
  from union_spans_correct(4)[OF this, of c] obtain w where
    w: "w \<in> set (union_spans (from_labels @ from_patterns))" "holds_span w c" using c(1) by auto
  have "detected_span_of w \<in> set spans" using w(1) by (simp add: parts(3))
  moreover have "(i, j) = (case match_group m of None \<Rightarrow> (match_start m, match_end m) | Some g \<Rightarrow> g)"
    using ij by (simp add: credential_of_def)
  ultimately show ?thesis
    using ok w(2) m(2,3) range match_all_first[OF m(1)]
    by (intro exI[of _ m] exI[of _ "detected_span_of w"] exI[of _ i] exI[of _ j])
      (simp add: detected_span_of_def detector_names_def holds_span_def candidate_ok_def span_proper_def)
qed

section \<open>Concrete classifications\<close>

text \<open>One token that scores best as a person; and the text of a key with a token that scores as nothing.\<close>

definition example_row :: "nat \<Rightarrow> double list" where
  "example_row best = map (\<lambda>i. Finite (if i = best then 5 else 0)) [0..<33]"

definition example_raw :: "string \<Rightarrow> raw_classification" where
  "example_raw s =
     \<lparr>decoded_text = s, token_offsets = [\<lparr>start_byte = 0, end_byte = int (length s)\<rparr>],
      token_logits = [example_row 20], classifier_biases = zero_viterbi_biases\<rparr>"

definition example_person :: string where
  "example_person = ''Ada''"

definition example_key :: string where
  "example_key = ''sk-01234567890123456789''"

lemma example_bounded: "logits_bounded (token_logits (example_raw s))" "biases_bounded (classifier_biases (example_raw s))"
  by (simp_all add: example_raw_def logits_bounded_def length_token_labels bounded_by_def score_unit_def list_all_iff
      example_row_def biases_bounded_def zero_viterbi_biases_def)

lemma sentinel_negative: "sentinel < 0"
  using sentinel_low(1) by (simp add: score_unit_def)

lemma count33: "[0..<33] = [0,1,2,3,4,5,6,7,8,9,10,11,12,13,14,15,16,17,18,19,20,21,22,23,24,25,26,27,28,29,30,31,32::nat]"
  by code_simp

lemma first20: "first_scores (example_row 20) =
    map (\<lambda>i. if valid_start (token_labels ! i) then Finite (if i = 20 then 5 else 0) else Finite sentinel) [0..<33]"
  unfolding first_scores_def negative_infinity by (rule nth_equalityI) (simp_all add: example_row_def length_token_labels)

lemma best20: "best_end (first_scores (example_row 20)) = (Finite 5, Some 20)"
  unfolding first20 best_end_def length_token_labels negative_infinity consider_end_def token_labels_def model_labels_def
  using sentinel_negative by (simp add: count33 numeral_eq_Suc)

lemma utf8_ok_example: "utf8_ok example_person" "utf8_ok example_key" "utf8_ok ''Eve''"
  by code_simp+

lemma example_labels:
  "decode_bioes_viterbi (token_logits (example_raw s)) (classifier_biases (example_raw s)) = Inr [Tagged Single Private_person]"
proof -
  have "validate_row (example_row 20) = Inr ()"
    by (simp add: validate_row_def example_row_def length_token_labels throw_if_def list_ex_iff)
  moreover have "\<not> double_le (Finite 5) half_negative_infinity"
  proof -
    have "sentinel div 2 < 5" using sentinel_negative by presburger
    then show ?thesis by (auto simp: double_le_def half_negative_infinity_def negative_infinity)
  qed
  moreover have "token_labels ! 20 = Tagged Single Private_person" by code_simp
  ultimately show ?thesis using best20
    by (simp add: example_raw_def decode_bioes_viterbi_def validate_logits_def)
qed

lemma example_name:
  "mask_classification example_person (example_raw example_person) =
   Inr (''[PRIVATE_PERSON]'',
     [\<lparr>detected_label = Private_person, detected_by = [''privacy_filter''], detected_start = 0, detected_end = 3\<rparr>])"
proof -
  have parts: "detect_deterministic_secrets (utf16_units example_person) = []" "length example_person = 3"
    "check_cover example_person 0 [\<lparr>start_byte = 0, end_byte = 3\<rparr>] = Inr 3"
    "model_spans example_person [Tagged Single Private_person] [\<lparr>start_byte = 0, end_byte = 3\<rparr>] = Inr [(Private_person, 0, 3)]"
    "model_candidate example_person (Private_person, 0, 3) =
       Inr \<lparr>span_label = Private_person, span_start = 0, span_end = 3, from_model = True, from_rules = False\<rparr>"
    "buffer_from example_person = example_person" "placeholder_for Private_person = ''[PRIVATE_PERSON]''"
    "buffer_to_string ''[PRIVATE_PERSON]'' = ''[PRIVATE_PERSON]''"
    by code_simp+
  then show ?thesis using example_labels[of example_person]
    by (simp add: mask_classification_def example_raw_def throw_if_def union_spans_def slice_of_def
        detected_span_of_def detector_names_def del: check_cover.simps buffer_to_string.simps)
qed

lemma example_key_masked: "\<exists>masked spans. mask_classification example_key (example_raw example_key) = Inr (masked, spans)"
proof (rule mask_returns)
  show "utf8_ok example_key" by (rule utf8_ok_example)
  show "offsets_tile example_key (token_offsets (example_raw example_key))"
    by (simp add: offsets_tile_def example_raw_def example_key_def max_safe_integer_def)
qed (simp_all add: example_bounded, simp_all add: example_raw_def)

lemma example_key_matches: "matches_at (utf16_units example_key) sk_key (0, None) \<noteq> []" "length (utf16_units example_key) = 23"
  by code_simp+

lemma masked_text_keeps_unmarked_witness:
  "''[PRIVATE_PERSON]'' = weave ['''', ''''] [placeholder_for Private_person] \<and>
   unmarked_bytes example_person [(0, 3)] = ''''"
  using masked_text_keeps_unmarked[OF example_name utf8_ok_example(1) example_labels]
  by (simp add: kept_slices_def slice_of_def example_person_def)

lemma masked_spans_are_apart_witness:
  "\<exists>spans. mask_classification example_key (example_raw example_key) = Inr (fst spans, snd spans) \<and>
    sorted_wrt (\<lambda>d e. detected_end d \<le> detected_start e) (snd spans)"
  using masked_spans_are_apart[OF _ utf8_ok_example(2)] example_key_masked by fastforce

lemma labelled_tokens_are_masked_witness:
  "list_ex (\<lambda>d. detected_start d = 0 \<and> 3 \<le> detected_end d)
     [\<lparr>detected_label = Private_person, detected_by = [''privacy_filter''], detected_start = 0, detected_end = 3\<rparr>]"
  using labelled_tokens_are_masked[OF example_name utf8_ok_example(1) example_bounded example_labels, of 0]
  by (simp add: example_raw_def example_person_def)

lemma credentials_are_masked_witness:
  "\<exists>masked spans. mask_classification example_key (example_raw example_key) = Inr (masked, spans) \<and>
    list_ex (\<lambda>d. detected_label d = Secret) spans"
proof -
  obtain masked spans where m: "mask_classification example_key (example_raw example_key) = Inr (masked, spans)"
    using example_key_masked by blast
  show ?thesis
    using credentials_are_masked[OF m utf8_ok_example(2) refl, of sk_key 0] m example_key_matches by (auto simp: list_ex_iff)
qed

lemma masking_returns_iff_witness:
  "\<not> (\<exists>masked spans. mask_classification ''Eve'' (example_raw example_person) = Inr (masked, spans))"
  using masking_returns_iff[of "''Eve''" "example_raw example_person"] utf8_ok_example(3) example_bounded
  by (simp add: example_raw_def example_person_def)

end
