(* ===== verification/Privacy_Tokens.thy ===== *)
theory Privacy_Tokens
  imports Privacy_Spans
begin

text \<open>
  How a text becomes a classification: the token offsets of \<^verbatim>\<open>offsets.ts\<close>, and the preparation and the
  windows of \<^verbatim>\<open>runtime.ts\<close> of \<^verbatim>\<open>apps/privacy-service\<close>. The tokenizer and the model, third-party packages,
  are parameters; the calls modelled are those that are not aborted.
\<close>

section \<open>Offsets in code units\<close>

definition assert_valid_js_range :: "string \<Rightarrow> int \<Rightarrow> int \<Rightarrow> unit result" where
  "assert_valid_js_range text_value i j =
     (let units = utf16_units text_value in
      ebind (throw_if
        (\<bar>i\<bar> > max_safe_integer \<or> \<bar>j\<bar> > max_safe_integer \<or> i < 0 \<or> j \<le> i \<or> j > int (length units))
        (PlainError ''privacy runtime emitted an invalid token offset'')) (\<lambda>_.
      throw_if (splits_pair units (nat i) \<or> splits_pair units (nat j))
        (PlainError ''privacy runtime split a Unicode surrogate pair'')))"

definition utf8_offsets :: "string \<Rightarrow> int \<Rightarrow> int \<Rightarrow> token_offset result" where
  "utf8_offsets text_value i j =
     ebind (assert_valid_js_range text_value i j) (\<lambda>_.
       let units = utf16_units text_value in
       Inr \<lparr>start_byte = int (slice_bytes units i), end_byte = int (slice_bytes units j)\<rparr>)"

text \<open>\<^verbatim>\<open>createUtf8OffsetLookup\<close>: the byte offset of every offset in code units where a character ends.\<close>

fun offset_table :: "nat \<Rightarrow> nat \<Rightarrow> string list \<Rightarrow> (nat \<times> nat) list" where
  "offset_table units bytes [] = []"
| "offset_table units bytes (c # cs) =
     (let units' = units + length (utf16_units c); bytes' = bytes + length (buffer_from c) in
      (units', bytes') # offset_table units' bytes' cs)"

definition byte_offsets :: "string \<Rightarrow> (nat \<times> nat) list" where
  "byte_offsets text_value = (0, 0) # offset_table 0 0 (characters text_value)"

definition utf8_offset_lookup :: "string \<Rightarrow> int \<Rightarrow> int \<Rightarrow> token_offset result" where
  "utf8_offset_lookup text_value i j =
     ebind (assert_valid_js_range text_value i j) (\<lambda>_.
       case (map_of (byte_offsets text_value) (nat i), map_of (byte_offsets text_value) (nat j)) of
         (Some s, Some e) \<Rightarrow> Inr \<lparr>start_byte = int s, end_byte = int e\<rparr>
       | _ \<Rightarrow> Inl (PlainError ''privacy runtime emitted an invalid token offset''))"

lemma utf16_units_nonempty: "s \<noteq> [] \<Longrightarrow> utf16_units s \<noteq> []"
  by (cases s) (auto simp: Let_def split: list.splits)

lemma offset_table_at:
  assumes "\<And>c. c \<in> set cs \<Longrightarrow> utf8_ok c \<and> c \<noteq> []" "m \<le> length cs"
  shows "map_of ((n, b) # offset_table n b cs) (n + length (utf16_units (concat (take m cs)))) =
    Some (b + length (concat (take m cs)))"
  using assms
proof (induction cs arbitrary: m n b)
  case (Cons c cs)
  show ?case
  proof (cases m)
    case (Suc k)
    have c: "utf8_ok c" "c \<noteq> []" using Cons.prems(1) by simp_all
    have "utf16_units (concat (take m (c # cs))) = utf16_units c @ utf16_units (concat (take k cs))"
      using Suc utf16_units_append[OF c(1)] by simp
    then show ?thesis
      using Cons.IH[of k "n + length (utf16_units c)" "b + length c"] Cons.prems Suc utf16_units_nonempty[OF c(2)] utf8_ok_buffer[OF c(1)]
      by (simp add: add.assoc Let_def)
  qed simp
qed simp

text \<open>The table of offsets gives what counting the bytes of a prefix gives, its errors included.\<close>

theorem offset_lookup_is_exact:
  assumes "utf8_ok text_value"
  shows "utf8_offset_lookup text_value i j = utf8_offsets text_value i j"
proof (cases "assert_valid_js_range text_value i j")
  case (Inr x)
  let ?u = "utf16_units text_value"
  have ij: "0 \<le> i" "i < j" "j \<le> int (length ?u)" "\<not> splits_pair ?u (nat i)" "\<not> splits_pair ?u (nat j)"
    using Inr by (auto simp: assert_valid_js_range_def result_simps Let_def)
  have at: "map_of (byte_offsets text_value) (nat k) = Some (slice_bytes ?u k)"
    if k: "0 \<le> k" "k \<le> int (length ?u)" "\<not> splits_pair ?u (nat k)" for k
  proof -
    obtain m where m: "m \<le> length (characters text_value)"
        "slice_bytes ?u k = length (concat (take m (characters text_value)))"
        "nat k = length (utf16_units (concat (take m (characters text_value))))"
      using slice_bytes_cut[OF assms k] by blast
    show ?thesis
      using offset_table_at[of "characters text_value" m 0 0] utf8_ok_characters[OF assms] characters_nonempty m
      unfolding byte_offsets_def by (metis add_0)
  qed
  show ?thesis using Inr at[of i] at[of j] ij by (simp add: utf8_offset_lookup_def utf8_offsets_def Let_def)
qed (simp add: utf8_offset_lookup_def utf8_offsets_def)

lemma offset_lookup_is_exact_witness:
  "utf8_offset_lookup [CHR 0xC3, CHR 0xA9, CHR ''a''] 1 2 = Inr \<lparr>start_byte = 2, end_byte = 3\<rparr>"
proof -
  have parts: "utf8_ok [CHR 0xC3, CHR 0xA9, CHR ''a'']" "utf16_units [CHR 0xC3, CHR 0xA9, CHR ''a''] = [233, 97]"
    "slice_bytes [233, 97] 1 = 2" "slice_bytes [233, 97] 2 = 3"
    by (simp_all add: utf8_ok_def utf8_tail_def byte_in_def slice_bytes_def unit_bytes_def numeral_2_eq_2)
  then have "utf8_offsets [CHR 0xC3, CHR 0xA9, CHR ''a''] 1 2 = Inr \<lparr>start_byte = 2, end_byte = 3\<rparr>"
    by (simp add: utf8_offsets_def assert_valid_js_range_def splits_pair_def high_surrogate_def max_safe_integer_def
        del: utf16_units.simps)
  then show ?thesis using offset_lookup_is_exact[OF parts(1)] by metis
qed

section \<open>Tokens spelled in bytes\<close>

text \<open>\<^verbatim>\<open>byteDecoder\<close>: the characters that stand for bytes, the visible ones for themselves and the others
  for the code points from 256 on.\<close>

definition visible_bytes :: "nat list" where
  "visible_bytes = [33..<127] @ [161..<173] @ [174..<256]"

definition other_bytes :: "nat list" where
  "other_bytes = filter (\<lambda>b. b \<notin> set visible_bytes) [0..<256]"

definition byte_alphabet :: "(string \<times> char) list" where
  "byte_alphabet =
     zip (map unit_bytes (visible_bytes @ map (\<lambda>k. 256 + k) [0..<length other_bytes]))
       (map char_of (visible_bytes @ other_bytes))"

definition byte_decoder :: "string \<Rightarrow> char option" where
  "byte_decoder = map_of byte_alphabet"

definition token_bytes :: "string \<Rightarrow> string result" where
  "token_bytes token =
     (let values = map byte_decoder (characters token) in
      ebind (throw_if (None \<in> set values) (PlainError ''privacy tokenizer emitted an unsupported byte-level token'')) (\<lambda>_.
      ebind (throw_if (values = []) (PlainError ''privacy tokenizer emitted an empty token'')) (\<lambda>_.
      Inr (map the values))))"

fun vocabulary_offsets_from ::
  "(int \<Rightarrow> string option) \<Rightarrow> nat \<Rightarrow> int list \<Rightarrow> (string list \<times> token_offset list) result" where
  "vocabulary_offsets_from id_to_token cursor [] = Inr ([], [])"
| "vocabulary_offsets_from id_to_token cursor (i # ids) =
     (case id_to_token i of
        None \<Rightarrow> Inl (PlainError ''privacy tokenizer omitted a token value'')
      | Some token \<Rightarrow>
          ebind (token_bytes token) (\<lambda>bytes.
          ebind (vocabulary_offsets_from id_to_token (cursor + length bytes) ids) (\<lambda>(decoded, offsets).
            Inr (bytes # decoded,
              \<lparr>start_byte = int cursor, end_byte = int (cursor + length bytes)\<rparr> # offsets))))"

definition vocabulary_token_offsets :: "(int \<Rightarrow> string option) option \<Rightarrow> int list \<Rightarrow> string \<Rightarrow> token_offset list result" where
  "vocabulary_token_offsets vocabulary token_ids text_value =
     (case vocabulary of
        None \<Rightarrow> Inl (PlainError ''privacy tokenizer omitted both offsets and token vocabulary access'')
      | Some id_to_token \<Rightarrow>
          ebind (vocabulary_offsets_from id_to_token 0 token_ids) (\<lambda>(decoded, offsets).
          ebind (throw_if (concat decoded \<noteq> buffer_from text_value)
            (PlainError ''privacy tokenizer byte tokens do not exactly match the request'')) (\<lambda>_. Inr offsets)))"

section \<open>Preparation and windows\<close>

text \<open>What the runtime uses of a tokenizer, its tensors read as lists of integers.\<close>

record tokenizer =
  input_ids :: "string \<Rightarrow> int list"
  offset_mapping :: "string \<Rightarrow> int list list option"
  decode_ids :: "int list \<Rightarrow> string"
  id_to_token :: "(int \<Rightarrow> string option) option"

record prepared_field =
  field_ids :: "int list"
  field_text :: string
  field_offsets :: "token_offset list"
  field_biases :: viterbi_biases

definition max_field_tokens :: nat where
  "max_field_tokens = 256 * 1024"

definition window_context :: nat where
  "window_context = 128"

definition window_core :: nat where
  "window_core = 256"

definition mapped_offset :: "string \<Rightarrow> int list \<Rightarrow> token_offset result" where
  "mapped_offset text_value offset =
     (case offset of
        [i, j] \<Rightarrow> utf8_offset_lookup text_value i j
      | _ \<Rightarrow> Inl (PlainError ''privacy runtime emitted invalid offset_mapping''))"

definition prepare_field :: "tokenizer \<Rightarrow> viterbi_biases \<Rightarrow> string \<Rightarrow> prepared_field result" where
  "prepare_field t biases text_value =
     (let ids = input_ids t text_value in
      ebind (throw_if (length ids > max_field_tokens)
        (PlainError (''privacy field exceeds '' @ decimal max_field_tokens @ '' tokens''))) (\<lambda>_.
      ebind (case offset_mapping t text_value of
               Some rows \<Rightarrow> emap (mapped_offset text_value) rows
             | None \<Rightarrow> vocabulary_token_offsets (id_to_token t) ids text_value) (\<lambda>offsets.
      Inr \<lparr>field_ids = ids, field_text = decode_ids t ids, field_offsets = offsets, field_biases = biases\<rparr>)))"

text \<open>The loop of \<^verbatim>\<open>classifyPrepared\<close>: a window of context around every core; of its scores the core's are kept.\<close>

function window_logits :: "(int list \<Rightarrow> double list list result) \<Rightarrow> int list \<Rightarrow> nat \<Rightarrow> double list list result" where
  "window_logits infer ids core_start =
     (if length ids \<le> core_start then Inr []
      else
        (let core_end = min (length ids) (core_start + window_core);
             window_start = core_start - window_context;
             window_end = min (length ids) (core_end + window_context);
             window_ids = slice_of ids window_start window_end;
             retained_start = core_start - window_start
         in ebind (infer window_ids) (\<lambda>rows.
            ebind (throw_if (length rows \<noteq> length window_ids)
              (PlainError ''privacy runtime window logits do not match input tokens'')) (\<lambda>_.
            ebind (window_logits infer ids (core_start + window_core)) (\<lambda>later.
            Inr (slice_of rows retained_start (retained_start + (core_end - core_start)) @ later))))))"
  by pat_completeness auto
termination
  by (relation "measure (\<lambda>(infer, ids, core_start). length ids - core_start)") (auto simp: window_core_def)

declare window_logits.simps [simp del]

definition classify_prepared :: "(int list \<Rightarrow> double list list result) \<Rightarrow> prepared_field \<Rightarrow> raw_classification result" where
  "classify_prepared infer prepared =
     ebind (window_logits infer (field_ids prepared) 0) (\<lambda>logits.
       Inr \<lparr>decoded_text = field_text prepared, token_offsets = field_offsets prepared, token_logits = logits,
            classifier_biases = field_biases prepared\<rparr>)"

text \<open>\<^verbatim>\<open>classify\<close> once the runtime is loaded.\<close>

definition classify_text ::
  "tokenizer \<Rightarrow> (int list \<Rightarrow> double list list result) \<Rightarrow> viterbi_biases \<Rightarrow> string \<Rightarrow> raw_classification result" where
  "classify_text t infer biases text_value =
     (if text_value = []
      then Inr \<lparr>decoded_text = [], token_offsets = [], token_logits = [], classifier_biases = biases\<rparr>
      else ebind (prepare_field t biases text_value) (classify_prepared infer))"

section \<open>Every token is scored in its context\<close>

text \<open>The window a token's scores come from.\<close>

definition window_around :: "nat \<Rightarrow> nat \<Rightarrow> nat \<times> nat \<Rightarrow> bool" where
  "window_around n k = (\<lambda>(a, b).
     a \<le> k \<and> k < b \<and> b \<le> n \<and> b - a \<le> window_core + 2 * window_context \<and>
     (a = 0 \<or> a + window_context \<le> k) \<and> (b = n \<or> k + window_context < b))"

lemma slice_length: "j \<le> length xs \<Longrightarrow> length (slice_of xs i j) = j - i"
  by (simp add: slice_of_def)

lemma slice_at: "i + k < j \<Longrightarrow> j \<le> length xs \<Longrightarrow> slice_of xs i j ! k = xs ! (i + k)"
  by (simp add: slice_of_def)

lemma window_logits_return:
  assumes "\<And>w. w \<noteq> [] \<Longrightarrow> length w \<le> window_core + 2 * window_context \<Longrightarrow> length (rows w) = length w"
  shows "\<exists>logits. window_logits (\<lambda>w. Inr (rows w)) ids core_start = Inr logits \<and> length logits = length ids - core_start \<and>
    (\<forall>k. core_start \<le> k \<longrightarrow> k < length ids \<longrightarrow>
      (\<exists>a b. window_around (length ids) k (a, b) \<and> logits ! (k - core_start) = rows (slice_of ids a b) ! (k - a)))"
proof (induction "\<lambda>w. Inr (rows w) :: double list list result" ids core_start rule: window_logits.induct)
  case (1 ids core_start)
  show ?case
  proof (cases "length ids \<le> core_start")
    case True
    then show ?thesis by (subst window_logits.simps) simp
  next
    case False
    define core_end a b where "core_end = min (length ids) (core_start + window_core)"
      and "a = core_start - window_context" and "b = min (length ids) (core_end + window_context)"
    define window kept where "window = slice_of ids a b"
      and "kept = slice_of (rows window) (core_start - a) (core_start - a + (core_end - core_start))"
    have ends: "a \<le> core_start" "core_start < core_end" "core_end \<le> b" "b \<le> length ids"
      using False by (auto simp: core_end_def a_def b_def window_core_def)
    have size: "b - a \<le> window_core + 2 * window_context" by (auto simp: core_end_def a_def b_def)
    have window: "length window = b - a" "window \<noteq> []" using ends slice_length[of b ids a] unfolding window_def by auto
    then have rows: "length (rows window) = b - a" using assms[of window] size by simp
    obtain later where later: "window_logits (\<lambda>w. Inr (rows w)) ids (core_start + window_core) = Inr later"
        "length later = length ids - (core_start + window_core)"
        "\<And>k. core_start + window_core \<le> k \<Longrightarrow> k < length ids \<Longrightarrow>
          \<exists>a b. window_around (length ids) k (a, b) \<and> later ! (k - (core_start + window_core)) = rows (slice_of ids a b) ! (k - a)"
      using 1[OF False core_end_def a_def b_def window_def, of "core_start - a" "rows window" "()"] rows window(1)
      by (auto simp: Let_def)
    have kept: "length kept = core_end - core_start" using rows ends unfolding kept_def by (simp add: slice_length)
    have "window_logits (\<lambda>w. Inr (rows w)) ids core_start = Inr (kept @ later)"
      using False later(1) rows window(1)
      by (subst window_logits.simps) (simp add: Let_def kept_def throw_if_def flip: core_end_def a_def b_def window_def)
    moreover have "length (kept @ later) = length ids - core_start"
      using kept later(2) ends False by (auto simp: core_end_def)
    moreover have "\<exists>a b. window_around (length ids) k (a, b) \<and> (kept @ later) ! (k - core_start) = rows (slice_of ids a b) ! (k - a)"
      if k: "core_start \<le> k" "k < length ids" for k
    proof (cases "k < core_end")
      case True
      then have "kept ! (k - core_start) = rows window ! (k - a)"
        using k rows ends unfolding kept_def by (subst slice_at) simp_all
      moreover have "window_around (length ids) k (a, b)"
        using True k ends size unfolding window_around_def by (auto simp: a_def b_def)
      moreover have "(kept @ later) ! (k - core_start) = kept ! (k - core_start)" using kept k True by (simp add: nth_append diff_less_mono)
      ultimately show ?thesis unfolding window_def by metis
    next
      case out: False
      then have end_at: "core_end = core_start + window_core" using k by (auto simp: core_end_def)
      then have index: "k - core_start = length kept + (k - (core_start + window_core))" using kept out by simp
      have "(kept @ later) ! (k - core_start) = later ! (k - (core_start + window_core))"
        unfolding index by (rule nth_append_length_plus)
      then show ?thesis using later(3)[of k] k out end_at by simp
    qed
    ultimately show ?thesis by blast
  qed
qed

section \<open>Spelling bytes\<close>

text \<open>The inverse of the decoder: how a byte-level tokenizer writes a byte.\<close>

definition byte_character :: "char \<Rightarrow> string" where
  "byte_character b = (case List.find (\<lambda>(key, value). value = b) byte_alphabet of None \<Rightarrow> [] | Some (key, value) \<Rightarrow> key)"

lemma unit_bytes_shape:
  assumes "u < 2048"
  shows "unit_bytes u \<noteq> []" "\<not> is_cont (hd (unit_bytes u))" "list_all is_cont (tl (unit_bytes u))"
    "utf16_units (unit_bytes u) = [u]"
proof -
  have low: "u div 64 < 32" using assms by simp
  have "(192 + u div 64) mod 32 = u div 64" by (rule mod_part[of _ 6]) (use low in simp_all)
  moreover have "(128 + u mod 64) mod 64 = u mod 64" by (rule mod_part[of _ 2]) simp_all
  ultimately have two: "(192 + u div 64) mod 32 * 64 + (128 + u mod 64) mod 64 = u" by simp
  show "unit_bytes u \<noteq> []" by (simp add: unit_bytes_def)
  show "\<not> is_cont (hd (unit_bytes u))" "list_all is_cont (tl (unit_bytes u))" "utf16_units (unit_bytes u) = [u]"
    using assms low two by (auto simp: unit_bytes_def byte_in_def Let_def)
qed

lemma unit_bytes_inj: "inj_on unit_bytes {..<2048}"
  by (rule inj_onI) (metis list.inject lessThan_iff unit_bytes_shape(4))

lemma byte_codes:
  "distinct (visible_bytes @ map (\<lambda>k. 256 + k) [0..<length other_bytes])"
  "set (visible_bytes @ map (\<lambda>k. 256 + k) [0..<length other_bytes]) \<subseteq> {..<2048}"
  "set (visible_bytes @ other_bytes) = {0..<256}"
proof -
  have "length other_bytes \<le> 256" unfolding other_bytes_def by (metis diff_zero length_filter_le length_upt)
  then show "set (visible_bytes @ map (\<lambda>k. 256 + k) [0..<length other_bytes]) \<subseteq> {..<2048}"
    by (auto simp: visible_bytes_def simp del: upt_rec_numeral)
  show "distinct (visible_bytes @ map (\<lambda>k. 256 + k) [0..<length other_bytes])"
    by (auto simp: visible_bytes_def distinct_map inj_on_def simp del: upt_rec_numeral)
  show "set (visible_bytes @ other_bytes) = {0..<256}" by (auto simp: visible_bytes_def other_bytes_def simp del: upt_rec_numeral)
qed

lemma length_byte_codes:
  "length (visible_bytes @ map (\<lambda>k. 256 + k) [0..<length other_bytes]) = length (visible_bytes @ other_bytes)"
  by simp

lemma byte_alphabet_keys:
  "distinct (map fst byte_alphabet)" "key \<in> fst ` set byte_alphabet \<Longrightarrow> \<exists>u < 2048. key = unit_bytes u"
  "snd ` set byte_alphabet = UNIV"
proof -
  have keys: "map fst byte_alphabet = map unit_bytes (visible_bytes @ map (\<lambda>k. 256 + k) [0..<length other_bytes])"
    unfolding byte_alphabet_def by (rule map_fst_zip) simp
  have bytes: "map snd byte_alphabet = map char_of (visible_bytes @ other_bytes)"
    unfolding byte_alphabet_def by (rule map_snd_zip) simp
  show "distinct (map fst byte_alphabet)" unfolding keys distinct_map
    using byte_codes(1) inj_on_subset[OF unit_bytes_inj byte_codes(2)] by blast
  show "key \<in> fst ` set byte_alphabet \<Longrightarrow> \<exists>u < 2048. key = unit_bytes u"
    using byte_codes(2) unfolding set_map[symmetric] keys unfolding set_map by blast
  have "snd ` set byte_alphabet = char_of ` {0..<(256 :: nat)}"
    unfolding set_map[symmetric] bytes unfolding set_map byte_codes(3) ..
  also have "\<dots> = UNIV"
  proof -
    have "b \<in> char_of ` {0..<(256 :: nat)}" for b by (rule image_eqI[of _ _ "of_char b"]) simp_all
    then show ?thesis by blast
  qed
  finally show "snd ` set byte_alphabet = UNIV" .
qed

lemma byte_character:
  "byte_decoder (byte_character b) = Some b" "byte_character b \<noteq> []" "\<not> is_cont (hd (byte_character b))"
  "list_all is_cont (tl (byte_character b))"
proof -
  obtain key where "(key, b) \<in> set byte_alphabet" using byte_alphabet_keys(3) by (metis UNIV_I imageE prod.collapse)
  then have "List.find (\<lambda>(key, value). value = b) byte_alphabet \<noteq> None" by (auto simp: find_None_iff)
  then obtain x where x: "List.find (\<lambda>(key, value). value = b) byte_alphabet = Some x" by blast
  then obtain k where k: "x = (k, b)" "(k, b) \<in> set byte_alphabet"
    by (auto simp: find_Some_iff case_prod_beta) (metis nth_mem prod.collapse)
  have spelled: "byte_character b = k" using x k by (simp add: byte_character_def)
  show "byte_decoder (byte_character b) = Some b"
    unfolding spelled byte_decoder_def by (rule map_of_is_SomeI[OF byte_alphabet_keys(1) k(2)])
  obtain u where "u < 2048" "k = unit_bytes u" using byte_alphabet_keys(2)[of k] k(2) by force
  then show "byte_character b \<noteq> []" "\<not> is_cont (hd (byte_character b))" "list_all is_cont (tl (byte_character b))"
    using unit_bytes_shape[of u] by (simp_all add: spelled)
qed

lemma characters_step:
  assumes "c \<noteq> []" "list_all is_cont (tl c)" "s = [] \<or> \<not> is_cont (hd s)"
  shows "characters (c @ s) = c # characters s"
proof -
  obtain x xs where c: "c = x # xs" using assms(1) by (cases c) auto
  have "takeWhile is_cont (xs @ s) = xs" "dropWhile is_cont (xs @ s) = s"
    using assms(2,3) by (cases s; simp add: c list_all_iff takeWhile_append2 dropWhile_append2)+
  then show ?thesis by (simp add: c)
qed

lemma token_bytes_spelled: "bytes \<noteq> [] \<Longrightarrow> token_bytes (concat (map byte_character bytes)) = Inr bytes"
proof -
  have "characters (concat (map byte_character bs)) = map byte_character bs \<and>
      (bs = [] \<or> concat (map byte_character bs) \<noteq> [] \<and> \<not> is_cont (hd (concat (map byte_character bs))))" for bs
  proof (induction bs)
    case (Cons b bs)
    then show ?case
      using characters_step[OF byte_character(2,4), of "concat (map byte_character bs)" b] byte_character(2,3)[of b]
      by (cases "bs = []") (simp_all add: hd_append)
  qed simp
  then show "bytes \<noteq> [] \<Longrightarrow> token_bytes (concat (map byte_character bytes)) = Inr bytes"
    by (simp add: token_bytes_def byte_character(1) throw_if_def Let_def image_iff comp_def)
qed

text \<open>A byte-level tokenizer: its ids stand for pieces of the text in order, each a run of bytes spelled byte by
  byte, and decoding the ids gives the text back.\<close>

definition byte_level :: "tokenizer \<Rightarrow> string \<Rightarrow> bool" where
  "byte_level t s \<longleftrightarrow>
     offset_mapping t s = None \<and> decode_ids t (input_ids t s) = s \<and>
     (\<exists>vocabulary pieces. id_to_token t = Some vocabulary \<and> [] \<notin> set pieces \<and> concat pieces = s \<and>
        map vocabulary (input_ids t s) = map (\<lambda>piece. Some (concat (map byte_character piece))) pieces)"

lemma vocabulary_offsets_spelled:
  assumes "map vocabulary ids = map (\<lambda>piece. Some (concat (map byte_character piece))) pieces" "[] \<notin> set pieces"
  shows "\<exists>offsets. vocabulary_offsets_from vocabulary cursor ids = Inr (pieces, offsets) \<and>
    int cursor # map end_byte offsets = map start_byte offsets @ [int (cursor + length (concat pieces))] \<and>
    length offsets = length ids \<and>
    list_all (\<lambda>x. int cursor \<le> start_byte x \<and> start_byte x < end_byte x \<and>
      end_byte x \<le> int (cursor + length (concat pieces))) offsets"
  using assms
proof (induction ids arbitrary: pieces cursor)
  case (Cons i ids)
  then obtain piece rest where pieces: "pieces = piece # rest" by (cases pieces) auto
  have piece: "vocabulary i = Some (concat (map byte_character piece))" "piece \<noteq> []" using Cons.prems pieces by auto
  obtain offsets where offsets: "vocabulary_offsets_from vocabulary (cursor + length piece) ids = Inr (rest, offsets)"
      "int (cursor + length piece) # map end_byte offsets =
        map start_byte offsets @ [int (cursor + length piece + length (concat rest))]"
      "length offsets = length ids"
      "list_all (\<lambda>x. int (cursor + length piece) \<le> start_byte x \<and> start_byte x < end_byte x \<and>
        end_byte x \<le> int (cursor + length piece + length (concat rest))) offsets"
    using Cons.IH[of rest "cursor + length piece"] Cons.prems pieces by auto
  have bounds: "list_all (\<lambda>x. int cursor \<le> start_byte x \<and> start_byte x < end_byte x \<and>
      end_byte x \<le> int (cursor + length (concat pieces))) offsets"
    using offsets(4) by (auto simp: list_all_iff pieces)
  show ?case
    using offsets(1-3) bounds piece
    by (simp add: pieces token_bytes_spelled add.assoc)
qed simp

lemma length_concat_pieces: "[] \<notin> set pieces \<Longrightarrow> length pieces \<le> length (concat pieces)"
proof (induction pieces)
  case (Cons piece pieces)
  then show ?case by (cases piece) auto
qed simp

lemma byte_level_length: "byte_level t s \<Longrightarrow> length (input_ids t s) \<le> length s"
  unfolding byte_level_def by (metis length_concat_pieces length_map)

lemma byte_level_prepared:
  assumes "byte_level t s" "utf8_ok s" "length s \<le> max_field_tokens"
  shows "\<exists>offsets. prepare_field t biases s =
      Inr \<lparr>field_ids = input_ids t s, field_text = s, field_offsets = offsets, field_biases = biases\<rparr> \<and>
    length offsets = length (input_ids t s) \<and> offsets_tile s offsets"
proof -
  obtain vocabulary pieces where v: "offset_mapping t s = None" "decode_ids t (input_ids t s) = s"
      "id_to_token t = Some vocabulary" "[] \<notin> set pieces" "concat pieces = s"
      "map vocabulary (input_ids t s) = map (\<lambda>piece. Some (concat (map byte_character piece))) pieces"
    using assms(1) by (auto simp: byte_level_def)
  obtain offsets where offsets: "vocabulary_offsets_from vocabulary 0 (input_ids t s) = Inr (pieces, offsets)"
      "0 # map end_byte offsets = map start_byte offsets @ [int (length s)]" "length offsets = length (input_ids t s)"
      "list_all (\<lambda>x. 0 \<le> start_byte x \<and> start_byte x < end_byte x \<and> end_byte x \<le> int (length s)) offsets"
    using vocabulary_offsets_spelled[OF v(6,4), of 0] v(5) by auto
  have "length (input_ids t s) \<le> max_field_tokens" using byte_level_length[OF assms(1)] assms(3) by simp
  moreover have "offsets_tile s offsets"
    using offsets(2,4) assms(3) by (auto simp: offsets_tile_def list_all_iff max_safe_integer_def max_field_tokens_def)
  ultimately show ?thesis
    using offsets(1,3) v utf8_ok_buffer[OF assms(2)]
    by (simp add: prepare_field_def vocabulary_token_offsets_def throw_if_def Let_def)
qed

section \<open>From a text to its masked form\<close>

text \<open>Every token is scored in its context: when the model gives one row of scores per token of a window,
  a field gets one row per token, taken from a window of at most 512 tokens that holds the token and, on
  either side of it, 128 more or all there are.\<close>

theorem every_token_has_context:
  assumes "\<And>w. w \<noteq> [] \<Longrightarrow> length w \<le> window_core + 2 * window_context \<Longrightarrow> length (rows w) = length w"
  shows "\<exists>raw. classify_prepared (\<lambda>w. Inr (rows w)) f = Inr raw \<and> length (token_logits raw) = length (field_ids f) \<and>
    (\<forall>k < length (field_ids f). \<exists>a b. window_around (length (field_ids f)) k (a, b) \<and>
      token_logits raw ! k = rows (slice_of (field_ids f) a b) ! (k - a))"
  using window_logits_return[of rows "field_ids f" 0, OF assms] by (auto simp: classify_prepared_def)

text \<open>C35. A text is always masked: for a byte-level tokenizer, a text of at most 256 KiB and a model that gives
  one row of scores of ordinary size per token of a window, classifying and masking return.\<close>

theorem byte_level_text_is_masked:
  assumes "utf8_ok s" "length s \<le> max_field_tokens" "byte_level t s" "biases_bounded biases"
    and model: "\<And>w. w \<noteq> [] \<Longrightarrow> length w \<le> window_core + 2 * window_context \<Longrightarrow>
      length (rows w) = length w \<and> logits_bounded (rows w)"
  shows "\<exists>raw masked spans. classify_text t (\<lambda>w. Inr (rows w)) biases s = Inr raw \<and>
    mask_classification s raw = Inr (masked, spans)"
proof (cases "s = []")
  case True
  let ?raw = "\<lparr>decoded_text = [], token_offsets = [], token_logits = [], classifier_biases = biases\<rparr>"
  have "\<exists>masked spans. mask_classification s ?raw = Inr (masked, spans)"
    by (rule mask_returns) (use assms(1,4) True in \<open>simp_all add: logits_bounded_def offsets_tile_def\<close>)
  then show ?thesis using True by (simp add: classify_text_def)
next
  case False
  obtain offsets where prepared: "prepare_field t biases s =
        Inr \<lparr>field_ids = input_ids t s, field_text = s, field_offsets = offsets, field_biases = biases\<rparr>"
      "length offsets = length (input_ids t s)" "offsets_tile s offsets"
    using byte_level_prepared[OF assms(3,1,2)] by blast
  let ?ids = "input_ids t s"
  obtain logits where logits: "window_logits (\<lambda>w. Inr (rows w)) ?ids 0 = Inr logits" "length logits = length ?ids"
      "\<And>k. k < length ?ids \<Longrightarrow> \<exists>a b. window_around (length ?ids) k (a, b) \<and> logits ! k = rows (slice_of ?ids a b) ! (k - a)"
    using window_logits_return[of rows ?ids 0] model by auto
  have "row_ok (logits ! k)" if k: "k < length ?ids" for k
  proof -
    obtain a b where ab: "window_around (length ?ids) k (a, b)" "logits ! k = rows (slice_of ?ids a b) ! (k - a)"
      using logits(3)[OF k] by blast
    then have size: "length (slice_of ?ids a b) = b - a" "k - a < b - a" "b - a \<le> window_core + 2 * window_context"
      by (auto simp: window_around_def slice_length)
    then have "slice_of ?ids a b \<noteq> []" by auto
    from model[OF this] have "length (rows (slice_of ?ids a b)) = b - a" "logits_bounded (rows (slice_of ?ids a b))"
      using size by simp_all
    then show ?thesis using ab(2) size(2) by (simp add: logits_bounded_def row_ok_def list_all_length)
  qed
  moreover have "length ?ids < 2 ^ 32"
    using byte_level_length[OF assms(3)] assms(2) by (simp add: max_field_tokens_def)
  ultimately have "logits_bounded logits" using logits(2) by (simp add: logits_bounded_def row_ok_def list_all_length)
  then have "\<exists>masked spans. mask_classification s
      \<lparr>decoded_text = s, token_offsets = offsets, token_logits = logits, classifier_biases = biases\<rparr> = Inr (masked, spans)"
    using assms(1,4) prepared(2,3) logits(2) by (intro mask_returns) simp_all
  then show ?thesis using False prepared(1) logits(1) by (simp add: classify_text_def classify_prepared_def)
qed

text \<open>A tokenizer whose tokens are the bytes.\<close>

definition byte_tokenizer :: tokenizer where
  "byte_tokenizer =
     \<lparr>input_ids = map (\<lambda>c. int (of_char c)), offset_mapping = (\<lambda>_. None), decode_ids = map (\<lambda>i. char_of (nat i)),
      id_to_token = Some (\<lambda>i. Some (byte_character (char_of (nat i))))\<rparr>"

lemma nat_int_of_char: "char_of (nat (int (of_char c))) = (c :: char)"
proof -
  have "nat (int (of_char c)) = (of_char c :: nat)" by (rule nat_int)
  then show ?thesis by (metis char_of_char)
qed

lemma byte_tokenizer_level: "byte_level byte_tokenizer s"
proof -
  have "[] \<notin> set (map (\<lambda>c. [c]) s)" "concat (map (\<lambda>c. [c]) s) = s" by (induction s) auto
  moreover have "map (\<lambda>i. Some (byte_character (char_of (nat i)))) (input_ids byte_tokenizer s) =
      map (\<lambda>piece. Some (concat (map byte_character piece))) (map (\<lambda>c. [c]) s)"
    unfolding byte_tokenizer_def by (simp add: nat_int_of_char del: nat_int)
  moreover have "decode_ids byte_tokenizer (input_ids byte_tokenizer s) = s"
    unfolding byte_tokenizer_def by (simp add: comp_def nat_int_of_char del: nat_int)
  ultimately show ?thesis unfolding byte_level_def
    by (intro conjI exI[of _ "\<lambda>i. Some (byte_character (char_of (nat i)))"] exI[of _ "map (\<lambda>c. [c]) s"])
      (simp_all add: byte_tokenizer_def)
qed

lemma every_token_has_context_witness:
  "\<exists>raw. classify_prepared (\<lambda>w. Inr (map (\<lambda>_. []) w))
      \<lparr>field_ids = [1, 2], field_text = ''ab'', field_offsets = [], field_biases = zero_viterbi_biases\<rparr> = Inr raw \<and>
    length (token_logits raw) = 2"
  using every_token_has_context[of "map (\<lambda>_. [])"
      "\<lparr>field_ids = [1, 2], field_text = ''ab'', field_offsets = [], field_biases = zero_viterbi_biases\<rparr>"] by auto

lemma byte_level_text_is_masked_witness:
  "\<exists>raw masked spans. classify_text byte_tokenizer (\<lambda>w. Inr (map (\<lambda>_. example_row 20) w)) zero_viterbi_biases example_key = Inr raw \<and>
    mask_classification example_key raw = Inr (masked, spans)"
proof (rule byte_level_text_is_masked)
  show "length example_key \<le> max_field_tokens" by (simp add: example_key_def max_field_tokens_def)
  show "length (map (\<lambda>_. example_row 20) w) = length w \<and> logits_bounded (map (\<lambda>_. example_row 20) w)"
    if "length w \<le> window_core + 2 * window_context" for w :: "int list"
    using example_bounded(1) that
    by (simp add: example_raw_def logits_bounded_def list_all_iff window_core_def window_context_def)
qed (use example_bounded(2) in \<open>simp_all add: utf8_ok_example byte_tokenizer_level example_raw_def\<close>)

end
