(* ===== verification/Privacy_Batches.thy ===== *)
theory Privacy_Batches
  imports Privacy_Tokens
begin

text \<open>
  Classifying the fields of a request together: \<^verbatim>\<open>inference-contract.ts\<close> and \<^verbatim>\<open>field-classification.ts\<close> of
  \<^verbatim>\<open>apps/privacy-service\<close>. Fields are prepared in rounds; long fields are classified one by one, short ones
  in batches of similar length; every result is published at the index of its field. The callbacks are
  parameters, and so is the order in which the tasks of a round finish.
\<close>

section \<open>Batches\<close>

record batch_input =
  batch_id :: string
  batch_ids :: "int list"

definition short_batch_fields :: nat where
  "short_batch_fields = 8"

definition short_batch_tokens :: nat where
  "short_batch_tokens = 256"

definition short_batch_positions :: nat where
  "short_batch_positions = 2048"

definition batch_id_ok :: "string \<Rightarrow> bool" where
  "batch_id_ok s \<longleftrightarrow> length s = 36 \<and> list_all (\<lambda>c. CHR ''a'' \<le> c \<and> c \<le> CHR ''f'' \<or> CHR ''0'' \<le> c \<and> c \<le> CHR ''9'' \<or> c = CHR ''-'') s"

definition batch_row_ok :: "batch_input \<Rightarrow> bool" where
  "batch_row_ok row \<longleftrightarrow>
     batch_id_ok (batch_id row) \<and> 1 \<le> length (batch_ids row) \<and> length (batch_ids row) \<le> short_batch_tokens \<and>
     list_all (\<lambda>i. 0 \<le> i \<and> i \<le> max_safe_integer) (batch_ids row)"

definition longest_row :: "batch_input list \<Rightarrow> nat" where
  "longest_row rows = fold (\<lambda>row n. max n (length (batch_ids row))) rows 0"

definition validate_batch_input :: "batch_input list \<Rightarrow> nat result" where
  "validate_batch_input rows =
     (let longest = longest_row rows in
      if length rows < 1 \<or> short_batch_fields < length rows \<or> short_batch_positions < longest * length rows \<or>
         \<not> distinct (map batch_id rows) \<or> list_ex (\<lambda>row. \<not> batch_row_ok row) rows
      then Inl (PlainError ''invalid privacy short-field batch'')
      else Inr longest)"

text \<open>\<^verbatim>\<open>validLogits\<close>, with the scores it accepts.\<close>

definition logits_row :: "js_value \<Rightarrow> double list option" where
  "logits_row v =
     (case v of
        JArr items \<Rightarrow>
          if length items = length token_labels \<and> list_all (\<lambda>i. finite_number i \<noteq> None) items
          then Some (map (\<lambda>i. the (finite_number i)) items) else None
      | _ \<Rightarrow> None)"

definition valid_logits :: "js_value \<Rightarrow> nat \<Rightarrow> double list list option" where
  "valid_logits v tokens =
     (case v of
        JArr rows \<Rightarrow>
          if length rows = tokens \<and> list_all (\<lambda>r. logits_row r \<noteq> None) rows
          then Some (map (\<lambda>r. the (logits_row r)) rows) else None
      | _ \<Rightarrow> None)"

text \<open>One row of the output: its id and scores, if it answers an input. The output comes from the worker process,
  where every object that is sent is a plain one.\<close>

definition output_row :: "batch_input list \<Rightarrow> js_value \<Rightarrow> (string \<times> double list list) option" where
  "output_row inputs v =
     (case v of
        JObj kvs \<Rightarrow>
          (case fld kvs ''id'' of
             JStr i \<Rightarrow>
               (case map_of (map (\<lambda>row. (batch_id row, row)) inputs) i of
                  None \<Rightarrow> None
                | Some row \<Rightarrow> map_option (Pair i) (valid_logits (fld kvs ''logits'') (length (batch_ids row))))
           | _ \<Rightarrow> None)
      | _ \<Rightarrow> None)"

fun collect_output :: "batch_input list \<Rightarrow> (string \<times> double list list) list \<Rightarrow> js_value list \<Rightarrow> (string \<times> double list list) list result" where
  "collect_output inputs output [] = Inr output"
| "collect_output inputs output (v # vs) =
     (case output_row inputs v of
        None \<Rightarrow> Inl (PlainError ''invalid privacy batch output'')
      | Some (i, logits) \<Rightarrow>
          if map_of output i \<noteq> None then Inl (PlainError ''invalid privacy batch output'')
          else collect_output inputs ((i, logits) # output) vs)"

definition validate_batch_output :: "batch_input list \<Rightarrow> js_value \<Rightarrow> (string \<times> double list list) list result" where
  "validate_batch_output inputs v =
     (case v of
        JArr vs \<Rightarrow>
          if length vs \<noteq> length inputs then Inl (PlainError ''invalid privacy batch output'')
          else ebind (collect_output inputs [] vs) (\<lambda>output.
            Inr (map (\<lambda>row. (batch_id row, the (map_of output (batch_id row)))) inputs))
      | _ \<Rightarrow> Inl (PlainError ''invalid privacy batch output''))"

section \<open>Rounds\<close>

type_synonym field_work = "nat \<times> prepared_field"

text \<open>The callbacks of \<^verbatim>\<open>classifyRequestFields\<close> and the ids it draws, one per field of a batch.\<close>

record field_callbacks =
  prepare_call :: "string \<Rightarrow> prepared_field result"
  classify_call :: "prepared_field \<Rightarrow> raw_classification result"
  batch_call :: "batch_input list \<Rightarrow> js_value result"
  fresh_id :: "nat \<Rightarrow> string"

definition is_long :: "prepared_field \<Rightarrow> bool" where
  "is_long p \<longleftrightarrow> length (field_ids p) > short_batch_tokens"

definition token_budget :: nat where
  "token_budget = 2 * max_field_tokens + short_batch_fields * short_batch_tokens"

text \<open>The fields of a round, and the texts left for later ones.\<close>

fun prepare_round ::
  "field_callbacks \<Rightarrow> nat \<Rightarrow> field_work list \<Rightarrow> nat \<Rightarrow> nat \<Rightarrow> string list \<Rightarrow> (field_work list \<times> string list) result" where
  "prepare_round calls index ready long tokens [] = Inr (ready, [])"
| "prepare_round calls index ready long tokens (t # ts) =
     (if \<not> (length ready < short_batch_fields \<and> long < 2) then Inr (ready, t # ts)
      else
        ebind (prepare_call calls t) (\<lambda>prepared.
          let tokens' = tokens + length (field_ids prepared);
              long' = (if is_long prepared then Suc long else long) in
          ebind (throw_if (tokens' > token_budget) (PlainError ''privacy prepared token budget exceeded'')) (\<lambda>_.
          prepare_round calls (Suc index) (ready @ [(index, prepared)]) long' tokens' ts)))"

section \<open>The tasks of a round\<close>

text \<open>\<open>2 ** Math.ceil(Math.log2(Math.max(32, n)))\<close> for a short field.\<close>

definition bucket_of :: "nat \<Rightarrow> nat" where
  "bucket_of n = (if n \<le> 32 then 32 else if n \<le> 64 then 64 else if n \<le> 128 then 128 else 256)"

fun add_to_bucket :: "nat \<Rightarrow> 'a \<Rightarrow> (nat \<times> 'a list) list \<Rightarrow> (nat \<times> 'a list) list" where
  "add_to_bucket b x [] = [(b, [x])]"
| "add_to_bucket b x ((c, xs) # buckets) = (if b = c then (c, xs @ [x]) # buckets else (c, xs) # add_to_bucket b x buckets)"

datatype field_task =
    Classify_long field_work
  | Classify_batch "field_work list"

definition round_tasks :: "field_work list \<Rightarrow> field_task list" where
  "round_tasks ready =
     (let waiting = filter (\<lambda>(i, p). field_ids p \<noteq> []) ready;
          long = filter (\<lambda>(i, p). is_long p) waiting;
          buckets = fold (\<lambda>w. add_to_bucket (bucket_of (length (field_ids (snd w)))) w)
            (filter (\<lambda>(i, p). \<not> is_long p) waiting) []
      in map Classify_long long @
         map (\<lambda>(b, works). Classify_batch (sort_key (\<lambda>w. length (field_ids (snd w))) works)) buckets)"

definition raw_of_field :: "prepared_field \<Rightarrow> double list list \<Rightarrow> raw_classification" where
  "raw_of_field p logits =
     \<lparr>decoded_text = field_text p, token_offsets = field_offsets p, token_logits = logits, classifier_biases = field_biases p\<rparr>"

text \<open>What a task publishes, in order.\<close>

primrec task_results :: "field_callbacks \<Rightarrow> field_task \<Rightarrow> (nat \<times> raw_classification) list result" where
  "task_results calls (Classify_long w) = ebind (classify_call calls (snd w)) (\<lambda>raw. Inr [(fst w, raw)])"
| "task_results calls (Classify_batch works) =
     (let inputs = map (\<lambda>(i, p). \<lparr>batch_id = fresh_id calls i, batch_ids = field_ids p\<rparr>) works in
      ebind (batch_call calls inputs) (\<lambda>v.
      ebind (validate_batch_output inputs v) (\<lambda>rows.
      Inr (map2 (\<lambda>(i, p) (_, logits). (i, raw_of_field p logits)) works rows))))"

text \<open>\<^verbatim>\<open>publish\<close> into the array of results; the fields without tokens are published first.\<close>

fun publish_all :: "nat \<Rightarrow> (nat \<times> raw_classification) list \<Rightarrow> raw_classification option list \<Rightarrow> raw_classification option list result" where
  "publish_all n [] output = Inr output"
| "publish_all n ((i, raw) # rest) output =
     (if n \<le> i \<or> output ! i \<noteq> None then Inl (PlainError ''duplicate privacy field result'')
      else publish_all n rest (output[i := Some raw]))"

fun run_tasks :: "field_callbacks \<Rightarrow> nat \<Rightarrow> field_task list \<Rightarrow> raw_classification option list \<Rightarrow> raw_classification option list result" where
  "run_tasks calls n [] output = Inr output"
| "run_tasks calls n (task # tasks) output =
     ebind (task_results calls task) (\<lambda>results. ebind (publish_all n results output) (run_tasks calls n tasks))"

definition run_field_round ::
  "field_callbacks \<Rightarrow> (field_task list \<Rightarrow> field_task list) \<Rightarrow> nat \<Rightarrow> field_work list \<Rightarrow> raw_classification option list \<Rightarrow>
    raw_classification option list result" where
  "run_field_round calls schedule n ready output =
     ebind (publish_all n (map (\<lambda>(i, p). (i, raw_of_field p [])) (filter (\<lambda>(i, p). field_ids p = []) ready)) output)
       (run_tasks calls n (schedule (round_tasks ready)))"

text \<open>The outer loop. \<open>schedule\<close> says in which order the tasks of a round finish.\<close>

lemma prepare_round_shorter:
  "prepare_round calls index ready long tokens ts = Inr (ready', rest) \<Longrightarrow> length rest \<le> length ts"
  by (induction calls index ready long tokens ts rule: prepare_round.induct)
    (auto simp: result_simps Let_def split: if_splits intro: le_SucI)

lemma prepare_round_takes:
  "prepare_round calls index [] 0 0 (t # ts) = Inr (ready', rest) \<Longrightarrow> length rest < length (t # ts)"
  by (auto simp: result_simps Let_def short_batch_fields_def dest!: prepare_round_shorter)

function classify_rounds ::
  "field_callbacks \<Rightarrow> (field_task list \<Rightarrow> field_task list) \<Rightarrow> nat \<Rightarrow> nat \<Rightarrow> string list \<Rightarrow> raw_classification option list \<Rightarrow>
    raw_classification option list result" where
  "classify_rounds calls schedule n index ts output =
     (if ts = [] then Inr output
      else
        (case prepare_round calls index [] 0 0 ts of
           Inl e \<Rightarrow> Inl e
         | Inr (ready, rest) \<Rightarrow>
             ebind (run_field_round calls schedule n ready output)
               (classify_rounds calls schedule n (index + length ready) rest)))"
  by pat_completeness auto
termination
proof (relation "measure (\<lambda>(calls, schedule, n, index, ts, output). length ts)", simp)
  fix calls schedule n index ts outs x ready rest y
  assume "ts \<noteq> []" "prepare_round calls index [] 0 0 ts = Inr x" "(ready, rest) = x"
  then show "((calls, schedule, n, index + length ready, rest, y), calls, schedule, n, index, ts, outs)
      \<in> measure (\<lambda>(calls, schedule, n, index, ts, output). length ts)"
    using prepare_round_takes by (cases ts) auto
qed

declare classify_rounds.simps [simp del]

definition classify_request_fields ::
  "field_callbacks \<Rightarrow> (field_task list \<Rightarrow> field_task list) \<Rightarrow> string list \<Rightarrow> raw_classification list result" where
  "classify_request_fields calls schedule texts =
     ebind (classify_rounds calls schedule (length texts) 0 texts (replicate (length texts) None)) (\<lambda>output.
     ebind (throw_if (None \<in> set output) (PlainError ''incomplete privacy field results'')) (\<lambda>_.
     Inr (map the output)))"

section \<open>Batches are answered in order\<close>

lemma collect_output_Inr:
  "collect_output inputs found vs = Inr result \<Longrightarrow>
   \<exists>rows. list_all2 (\<lambda>v row. output_row inputs v = Some row) vs rows \<and> result = rev rows @ found \<and>
     (distinct (map fst found) \<longrightarrow> distinct (map fst result))"
proof (induction inputs found vs rule: collect_output.induct)
  case (2 inputs found v vs)
  then obtain i logits where v: "output_row inputs v = Some (i, logits)" "map_of found i = None"
      "collect_output inputs ((i, logits) # found) vs = Inr result"
    by (auto split: option.splits if_splits prod.splits)
  obtain rows where rows: "list_all2 (\<lambda>v row. output_row inputs v = Some row) vs rows"
      "result = rev rows @ (i, logits) # found"
      "distinct (map fst ((i, logits) # found)) \<longrightarrow> distinct (map fst result)"
    using "2.IH"[OF v(1) refl _ v(3)] v(2) by auto
  then show ?case using v(1,2) by (intro exI[of _ "(i, logits) # rows"]) (auto simp: map_of_eq_None_iff)
qed simp

text \<open>Scores as the decoder wants them.\<close>

definition scores_for :: "nat \<Rightarrow> double list list \<Rightarrow> bool" where
  "scores_for n logits \<longleftrightarrow>
     length logits = n \<and> list_all (\<lambda>row. length row = length token_labels \<and> list_all is_finite row) logits"

lemma finite_number_finite: "finite_number v = Some x \<Longrightarrow> is_finite x"
  by (auto simp: finite_number_def split: js_value.splits if_splits)

lemma logits_row_finite: "logits_row v = Some row \<Longrightarrow> length row = length token_labels \<and> list_all is_finite row"
  by (auto simp: logits_row_def list_all_iff finite_number_finite split: js_value.splits if_splits)

lemma valid_logits_scores:
  assumes "valid_logits v n = Some logits"
  shows "scores_for n logits"
proof -
  obtain rows where rows: "length rows = n" "list_all (\<lambda>r. logits_row r \<noteq> None) rows"
      "logits = map (\<lambda>r. the (logits_row r)) rows"
    using assms by (auto simp: valid_logits_def split: js_value.splits if_splits)
  have "length (the (logits_row r)) = length token_labels \<and> list_all is_finite (the (logits_row r))"
    if "r \<in> set rows" for r
    using rows(2) that logits_row_finite by (auto simp: list_all_iff)
  then show ?thesis using rows(1,3) by (simp add: scores_for_def list_all_iff)
qed

lemma map_of_inputs:
  "map_of (map (\<lambda>row. (batch_id row, row)) inputs) i = Some row \<Longrightarrow> row \<in> set inputs \<and> batch_id row = i"
  by (induction inputs) (auto split: if_splits)

lemma output_row_Some:
  "output_row inputs v = Some (i, logits) \<Longrightarrow>
   \<exists>row \<in> set inputs. batch_id row = i \<and> scores_for (length (batch_ids row)) logits"
  by (auto simp: output_row_def dest!: map_of_inputs valid_logits_scores split: js_value.splits option.splits)

lemma batch_output_sound:
  assumes "validate_batch_output inputs v = Inr rows" "distinct (map batch_id inputs)"
  shows "list_all2 (\<lambda>input (i, logits). i = batch_id input \<and> scores_for (length (batch_ids input)) logits \<and>
    (\<exists>w vs. v = JArr vs \<and> w \<in> set vs \<and> output_row inputs w = Some (i, logits))) inputs rows"
proof -
  obtain vs result where parts: "v = JArr vs" "length vs = length inputs" "collect_output inputs [] vs = Inr result"
      "rows = map (\<lambda>row. (batch_id row, the (map_of result (batch_id row)))) inputs"
    using assms(1) by (auto simp: validate_batch_output_def result_simps split: js_value.splits if_splits)
  obtain found where found: "list_all2 (\<lambda>v row. output_row inputs v = Some row) vs found" "result = rev found"
      "distinct (map fst result)"
    using collect_output_Inr[OF parts(3)] by auto
  have from_vs: "\<exists>w \<in> set vs. output_row inputs w = Some x" if "x \<in> set result" for x
    using found(1) that unfolding found(2) by (induction rule: list_all2_induct) auto
  have ids: "fst ` set result \<subseteq> batch_id ` set inputs"
  proof (rule image_subsetI)
    fix x assume "x \<in> set result"
    then obtain w where "output_row inputs w = Some (fst x, snd x)" using from_vs by (metis prod.collapse)
    from output_row_Some[OF this] show "fst x \<in> batch_id ` set inputs" by (metis imageI)
  qed
  have "card (fst ` set result) = length inputs"
    using distinct_card[OF found(3)] list_all2_lengthD[OF found(1)] parts(2) by (simp add: found(2))
  moreover have "card (batch_id ` set inputs) = length inputs" using distinct_card[OF assms(2)] by simp
  ultimately have all: "fst ` set result = batch_id ` set inputs" by (intro card_subset_eq ids) simp_all
  have "\<exists>logits. map_of result (batch_id row) = Some logits \<and> scores_for (length (batch_ids row)) logits \<and>
      (\<exists>w \<in> set vs. output_row inputs w = Some (batch_id row, logits))" if row: "row \<in> set inputs" for row
  proof -
    have "batch_id row \<in> fst ` set result" unfolding all using row by simp
    then obtain logits where l: "map_of result (batch_id row) = Some logits" using map_of_eq_None_iff by force
    then obtain w where w: "w \<in> set vs" "output_row inputs w = Some (batch_id row, logits)"
      using from_vs[OF map_of_SomeD] by blast
    obtain row' where "row' \<in> set inputs" "batch_id row' = batch_id row" "scores_for (length (batch_ids row')) logits"
      using output_row_Some[OF w(2)] by blast
    moreover have "row' = row" using calculation(1,2) row assms(2) by (meson distinct_map inj_onD)
    ultimately show ?thesis using l w by blast
  qed
  note answered = this
  show ?thesis unfolding parts(4) list_all2_map2 list_all2_same
  proof
    fix row assume "row \<in> set inputs"
    from answered[OF this] obtain logits where "map_of result (batch_id row) = Some logits"
        "scores_for (length (batch_ids row)) logits" "\<exists>w \<in> set vs. output_row inputs w = Some (batch_id row, logits)" by blast
    then show "case (batch_id row, the (map_of result (batch_id row))) of (i, logits) \<Rightarrow>
        i = batch_id row \<and> scores_for (length (batch_ids row)) logits \<and>
        (\<exists>w vs. v = JArr vs \<and> w \<in> set vs \<and> output_row inputs w = Some (i, logits))"
      by (auto simp: parts(1))
  qed
qed

lemma batch_output_ids:
  "validate_batch_output inputs v = Inr rows \<Longrightarrow> distinct (map batch_id inputs) \<Longrightarrow> map fst rows = map batch_id inputs"
proof -
  assume "validate_batch_output inputs v = Inr rows" "distinct (map batch_id inputs)"
  from batch_output_sound[OF this] show ?thesis by (induction rule: list_all2_induct) auto
qed

section \<open>Publishing\<close>

definition published :: "(nat \<times> raw_classification) list \<Rightarrow> raw_classification option list \<Rightarrow> raw_classification option list \<Rightarrow> bool" where
  "published rs before now \<longleftrightarrow>
     length now = length before \<and>
     (\<forall>k < length before. now ! k = (case map_of rs k of Some raw \<Rightarrow> Some raw | None \<Rightarrow> before ! k))"

definition unpublished :: "(nat \<times> raw_classification) list \<Rightarrow> raw_classification option list \<Rightarrow> bool" where
  "unpublished rs before \<longleftrightarrow> distinct (map fst rs) \<and> (\<forall>(i, raw) \<in> set rs. i < length before \<and> before ! i = None)"

lemma publish_all_ok:
  "unpublished rs before \<Longrightarrow> \<exists>now. publish_all (length before) rs before = Inr now \<and> published rs before now"
proof (induction rs arbitrary: before)
  case (Cons x rs)
  obtain i raw where x: "x = (i, raw)" by fastforce
  have i: "i < length before" "before ! i = None" "i \<notin> fst ` set rs"
    using Cons.prems by (auto simp: unpublished_def x image_iff)
  have "unpublished rs (before[i := Some raw])"
    using Cons.prems i(3) by (fastforce simp: unpublished_def x nth_list_update image_iff)
  from Cons.IH[OF this] obtain now where
    now: "publish_all (length before) rs (before[i := Some raw]) = Inr now" "published rs (before[i := Some raw]) now" by auto
  have "map_of rs i = None" using i(3) by (simp add: map_of_eq_None_iff)
  then have "published (x # rs) before now"
    using now(2) i(1) by (auto simp: published_def x nth_list_update split: option.splits)
  then show ?case using now(1) i(1,2) by (simp add: x)
qed (simp add: published_def)

lemma published_append:
  assumes "published rs before mid" "published qs mid now" "unpublished (rs @ qs) before"
  shows "published (rs @ qs) before now"
proof -
  have "now ! k = (case map_of (rs @ qs) k of Some raw \<Rightarrow> Some raw | None \<Rightarrow> before ! k)" if k: "k < length before" for k
  proof (cases "map_of qs k")
    case (Some raw)
    then have "k \<in> fst ` set qs" by (metis domI dom_map_of_conv_image_fst)
    then have "map_of rs k = None" using assms(3) unfolding map_of_eq_None_iff unpublished_def by auto
    then show ?thesis using assms(1,2) k Some by (simp add: published_def map_add_def)
  next
    case None
    then show ?thesis using assms(1,2) k by (auto simp: published_def map_add_def split: option.splits)
  qed
  then show ?thesis using assms(1,2) by (simp add: published_def)
qed

lemma unpublished_after:
  assumes "published rs before mid" "unpublished (rs @ qs) before"
  shows "unpublished qs mid"
proof -
  have "map_of rs i = None" if "i \<in> fst ` set qs" for i
    using assms(2) that unfolding map_of_eq_None_iff unpublished_def by auto
  note fresh = this
  have "i < length mid \<and> mid ! i = None" if q: "(i, raw) \<in> set qs" for i raw
  proof -
    have "i < length before" "before ! i = None" using assms(2) q by (auto simp: unpublished_def)
    moreover have "map_of rs i = None" using fresh[of i] q by force
    ultimately show ?thesis using assms(1) by (simp add: published_def)
  qed
  then show ?thesis using assms(2) by (auto simp: unpublished_def)
qed

section \<open>Tasks\<close>

primrec task_works :: "field_task \<Rightarrow> field_work list" where
  "task_works (Classify_long w) = [w]"
| "task_works (Classify_batch works) = works"

lemma add_to_bucket_works:
  "mset (concat (map snd (add_to_bucket b x buckets))) = add_mset x (mset (concat (map snd buckets)))"
  by (induction b x buckets rule: add_to_bucket.induct) simp_all

lemma bucket_works:
  "mset (concat (map snd (fold (\<lambda>w. add_to_bucket (f w) w) ws buckets))) = mset ws + mset (concat (map snd buckets))"
  by (induction ws arbitrary: buckets) (simp_all add: add_to_bucket_works)

lemma bucket_nonempty: "[] \<notin> snd ` set buckets \<Longrightarrow> [] \<notin> snd ` set (fold (\<lambda>w. add_to_bucket (f w) w) ws buckets)"
proof (induction ws arbitrary: buckets)
  case (Cons w ws)
  have "[] \<notin> snd ` set (add_to_bucket b x buckets)" if "[] \<notin> snd ` set buckets" for b :: nat and x and buckets :: "(nat \<times> 'a list) list"
    using that by (induction b x buckets rule: add_to_bucket.induct) auto
  then show ?case using Cons by simp
qed simp

lemma bucket_keys:
  assumes "\<forall>(b, xs) \<in> set buckets. \<forall>x \<in> set xs. f x = b"
  shows "\<forall>(b, xs) \<in> set (fold (\<lambda>w. add_to_bucket (f w) w) ws buckets). \<forall>x \<in> set xs. f x = b"
  using assms
proof (induction ws arbitrary: buckets)
  case (Cons w ws)
  have step: "\<forall>(b, xs) \<in> set (add_to_bucket (f w) w buckets). \<forall>x \<in> set xs. f x = b"
    if "\<forall>(b, xs) \<in> set buckets. \<forall>x \<in> set xs. f x = b" for buckets
    using that by (induction "f w" w buckets rule: add_to_bucket.induct) (auto split: if_splits)
  show ?case using Cons.IH[OF step[OF Cons.prems]] by simp
qed simp

text \<open>The tasks of a round share out its fields.\<close>

definition task_ok :: "field_work list \<Rightarrow> field_task \<Rightarrow> bool" where
  "task_ok ready task \<longleftrightarrow>
     (case task of
        Classify_long w \<Rightarrow> w \<in> set ready \<and> is_long (snd w)
      | Classify_batch works \<Rightarrow>
          works \<noteq> [] \<and> mset works \<subseteq># mset ready \<and> list_all (\<lambda>w. field_ids (snd w) \<noteq> [] \<and> \<not> is_long (snd w)) works \<and>
          (\<exists>b. list_all (\<lambda>w. bucket_of (length (field_ids (snd w))) = b) works))"

lemma round_tasks_share:
  "mset (concat (map task_works (round_tasks ready))) = mset (filter (\<lambda>(i, p). field_ids p \<noteq> []) ready)"
proof -
  define waiting where "waiting = filter (\<lambda>(i, p). field_ids p \<noteq> []) ready"
  define buckets where "buckets = fold (\<lambda>w. add_to_bucket (bucket_of (length (field_ids (snd w)))) w)
    (filter (\<lambda>(i, p). \<not> is_long p) waiting) []"
  let ?g = "\<lambda>w :: field_work. length (field_ids (snd w))"
  have "concat (map task_works (map (\<lambda>(b, works). Classify_batch (sort_key ?g works)) bs)) =
      concat (map (\<lambda>(b, works). sort_key ?g works) bs)" for bs :: "(nat \<times> field_work list) list"
    by (induction bs) auto
  moreover have "concat (map task_works (map Classify_long ws)) = ws" for ws by (induction ws) simp_all
  ultimately have "concat (map task_works (round_tasks ready)) =
      filter (\<lambda>(i, p). is_long p) waiting @ concat (map (\<lambda>(b, works). sort_key ?g works) buckets)"
    unfolding round_tasks_def Let_def waiting_def[symmetric] buckets_def[symmetric] map_append concat_append by simp
  moreover have "mset (concat (map (\<lambda>(b, works). sort_key ?g works) bs)) = mset (concat (map snd bs))"
    for bs :: "(nat \<times> field_work list) list" by (induction bs) auto
  moreover have "mset (concat (map snd buckets)) = mset (filter (\<lambda>(i, p). \<not> is_long p) waiting)"
    unfolding buckets_def bucket_works by simp
  moreover have "mset (filter P waiting) + mset (filter (\<lambda>x. \<not> P x) waiting) = mset waiting" for P
    by simp
  ultimately show ?thesis by (simp add: case_prod_beta flip: waiting_def)
qed

lemma round_tasks_ok:
  assumes "task \<in> set (round_tasks ready)"
  shows "task_ok ready task"
proof -
  define short where "short = filter (\<lambda>(i, p). \<not> is_long p) (filter (\<lambda>(i, p). field_ids p \<noteq> []) ready)"
  define buckets where "buckets = fold (\<lambda>w. add_to_bucket (bucket_of (length (field_ids (snd w)))) w) short []"
  have shared: "mset (concat (map snd buckets)) = mset short" unfolding buckets_def bucket_works by simp
  have "[] \<notin> snd ` set buckets" unfolding buckets_def by (rule bucket_nonempty) simp
  consider w where "task = Classify_long w" "w \<in> set ready" "is_long (snd w)"
    | b works where "task = Classify_batch (sort_key (\<lambda>w. length (field_ids (snd w))) works)" "(b, works) \<in> set buckets"
    using assms unfolding round_tasks_def Let_def short_def[symmetric] buckets_def[symmetric] by auto
  then show ?thesis
  proof cases
    case (2 b works)
    then have "works \<noteq> []" using \<open>[] \<notin> snd ` set buckets\<close> by force
    have "\<forall>(b, xs) \<in> set buckets. \<forall>x \<in> set xs. bucket_of (length (field_ids (snd x))) = b"
      unfolding buckets_def by (rule bucket_keys) simp
    then have bucket: "\<forall>x \<in> set works. bucket_of (length (field_ids (snd x))) = b" using 2(2) by fastforce
    have "works \<in> set (map snd buckets)" using 2(2) by force
    then obtain xs ys where "map snd buckets = xs @ works # ys" using split_list by fastforce
    then have "mset works \<subseteq># mset (concat (map snd buckets))" by simp
    then have sub: "mset works \<subseteq># mset short" unfolding shared .
    then have "set works \<subseteq> set short" using set_mset_mono by fastforce
    moreover have "mset short \<subseteq># mset ready" unfolding short_def mset_filter by (meson multiset_filter_subset subset_mset.order_trans)
    moreover have "sort_key f works \<noteq> []" for f :: "field_work \<Rightarrow> nat"
      using \<open>works \<noteq> []\<close> by (metis length_0_conv length_sort)
    ultimately show ?thesis using 2(1) sub bucket
      by (auto simp: task_ok_def short_def list_all_iff intro: subset_mset.order_trans)
  qed (simp add: task_ok_def)
qed

section \<open>A service that answers\<close>

text \<open>What is asked of the callbacks: every text is prepared within the limit of tokens, a long field is classified,
  and a batch that is well formed is answered with output that is accepted, whatever its scores are.\<close>

definition serves :: "field_callbacks \<Rightarrow> (string \<Rightarrow> prepared_field) \<Rightarrow> string list \<Rightarrow> bool" where
  "serves calls prepared texts \<longleftrightarrow>
     (\<forall>t \<in> set texts. prepare_call calls t = Inr (prepared t) \<and> length (field_ids (prepared t)) \<le> max_field_tokens \<and>
        list_all (\<lambda>i. 0 \<le> i \<and> i \<le> max_safe_integer) (field_ids (prepared t))) \<and>
     (\<forall>p. is_long p \<longrightarrow> (\<exists>raw. classify_call calls p = Inr raw)) \<and>
     (\<forall>inputs n. validate_batch_input inputs = Inr n \<longrightarrow>
        (\<exists>v rows. batch_call calls inputs = Inr v \<and> validate_batch_output inputs v = Inr rows)) \<and>
     inj_on (fresh_id calls) {..<length texts} \<and> (\<forall>i < length texts. batch_id_ok (fresh_id calls i))"

text \<open>The fields of a request, what a batch asks for its fields, and the shape of a task.\<close>

definition request_works :: "(string \<Rightarrow> prepared_field) \<Rightarrow> nat \<Rightarrow> string list \<Rightarrow> field_work list" where
  "request_works prepared index ts = map (\<lambda>j. (index + j, prepared (ts ! j))) [0..<length ts]"

definition batch_inputs :: "field_callbacks \<Rightarrow> field_work list \<Rightarrow> batch_input list" where
  "batch_inputs calls works = map (\<lambda>(i, p). \<lparr>batch_id = fresh_id calls i, batch_ids = field_ids p\<rparr>) works"

primrec task_shaped :: "field_callbacks \<Rightarrow> field_task \<Rightarrow> bool" where
  "task_shaped calls (Classify_long w) \<longleftrightarrow> is_long (snd w)"
| "task_shaped calls (Classify_batch works) \<longleftrightarrow>
     works \<noteq> [] \<and> length works \<le> short_batch_fields \<and> list_all (\<lambda>w. \<not> is_long (snd w)) works \<and>
     (\<exists>b. list_all (\<lambda>w. bucket_of (length (field_ids (snd w))) = b) works) \<and>
     (\<exists>n. validate_batch_input (batch_inputs calls works) = Inr n)"

text \<open>What a task gives for the field \<open>i\<close>: the classification of a long field; and the row of the answer that
  carries the id drawn for the field, with the text, the offsets and the biases of that field.\<close>

primrec task_gives :: "field_callbacks \<Rightarrow> field_task \<Rightarrow> nat \<Rightarrow> raw_classification \<Rightarrow> bool" where
  "task_gives calls (Classify_long w) i raw \<longleftrightarrow> i = fst w \<and> classify_call calls (snd w) = Inr raw"
| "task_gives calls (Classify_batch works) i raw \<longleftrightarrow>
     (\<exists>v rows p logits. batch_call calls (batch_inputs calls works) = Inr v \<and>
        validate_batch_output (batch_inputs calls works) v = Inr rows \<and>
        (i, p) \<in> set works \<and> map_of rows (fresh_id calls i) = Some logits \<and> raw = raw_of_field p logits)"

definition results_of :: "field_callbacks \<Rightarrow> field_task \<Rightarrow> (nat \<times> raw_classification) list" where
  "results_of calls task = (case task_results calls task of Inl e \<Rightarrow> [] | Inr rs \<Rightarrow> rs)"

definition task_answered :: "field_callbacks \<Rightarrow> field_task \<Rightarrow> bool" where
  "task_answered calls task \<longleftrightarrow>
     task_results calls task = Inr (results_of calls task) \<and> task_shaped calls task \<and>
     map fst (results_of calls task) = map fst (task_works task) \<and>
     (\<forall>(i, raw) \<in> set (results_of calls task). task_gives calls task i raw)"

text \<open>All results of some fields whose tasks are given: those without tokens first.\<close>

definition empty_results :: "field_work list \<Rightarrow> (nat \<times> raw_classification) list" where
  "empty_results works = map (\<lambda>(i, p). (i, raw_of_field p [])) (filter (\<lambda>(i, p). field_ids p = []) works)"

definition all_results :: "field_callbacks \<Rightarrow> field_work list \<Rightarrow> field_task list \<Rightarrow> (nat \<times> raw_classification) list" where
  "all_results calls works tasks = empty_results works @ concat (map (results_of calls) tasks)"

definition shared_out :: "field_work list \<Rightarrow> field_task list \<Rightarrow> bool" where
  "shared_out works tasks \<longleftrightarrow>
     mset (concat (map task_works tasks)) = mset (filter (\<lambda>(i, p). field_ids p \<noteq> []) works)"

text \<open>The fields of a round: distinct indexes in range, at most eight.\<close>

definition round_ok :: "nat \<Rightarrow> field_work list \<Rightarrow> bool" where
  "round_ok n ready \<longleftrightarrow>
     distinct (map fst ready) \<and> length ready \<le> short_batch_fields \<and>
     list_all (\<lambda>(i, p). i < n \<and> list_all (\<lambda>i. 0 \<le> i \<and> i \<le> max_safe_integer) (field_ids p)) ready"

lemma longest_row_le: "(\<And>row. row \<in> set rows \<Longrightarrow> length (batch_ids row) \<le> k) \<Longrightarrow> longest_row rows \<le> k"
proof -
  have "fold (\<lambda>row n. max n (length (batch_ids row))) rows m \<le> k"
    if "\<And>row. row \<in> set rows \<Longrightarrow> length (batch_ids row) \<le> k" "m \<le> k" for m
    using that by (induction rows arbitrary: m) auto
  then show "(\<And>row. row \<in> set rows \<Longrightarrow> length (batch_ids row) \<le> k) \<Longrightarrow> longest_row rows \<le> k"
    by (simp add: longest_row_def)
qed

lemma task_answered_ok:
  assumes "serves calls prepared texts" "round_ok (length texts) ready" "task_ok ready task"
  shows "task_answered calls task"
proof (cases task)
  case (Classify_long w)
  then have "is_long (snd w)" using assms(3) by (simp add: task_ok_def)
  then show ?thesis using assms(1) Classify_long
    by (fastforce simp: serves_def task_answered_def results_of_def)
next
  case (Classify_batch works)
  have works: "works \<noteq> []" "mset works \<subseteq># mset ready" "\<And>w. w \<in> set works \<Longrightarrow> field_ids (snd w) \<noteq> [] \<and> \<not> is_long (snd w)"
    using assms(3) Classify_batch by (auto simp: task_ok_def list_all_iff)
  have sub: "set works \<subseteq> set ready" using set_mset_mono[OF works(2)] by simp
  have bucket: "\<exists>b. list_all (\<lambda>w. bucket_of (length (field_ids (snd w))) = b) works"
    using assms(3) Classify_batch by (simp add: task_ok_def)
  have len: "length works \<le> short_batch_fields"
    using size_mset_mono[OF works(2)] assms(2) by (simp add: round_ok_def)
  obtain others where "mset ready = mset (works @ others)"
    using works(2) by (metis ex_mset mset_append subset_mset.add_diff_inverse)
  then have "mset (map fst ready) = mset (map fst (works @ others))" unfolding mset_map by simp
  moreover have "distinct (map fst ready)" using assms(2) by (simp add: round_ok_def)
  ultimately have "distinct (map fst (works @ others))" using mset_eq_imp_distinct_iff by blast
  then have distinct: "distinct (map fst works)" by simp
  have index: "i < length texts" if "i \<in> fst ` set works" for i
    using that sub assms(2) by (fastforce simp: round_ok_def list_all_iff)
  define inputs where "inputs = batch_inputs calls works"
  note inputs_map = inputs_def[unfolded batch_inputs_def]
  have fresh: "inj_on (fresh_id calls) {..<length texts}" "\<And>i. i < length texts \<Longrightarrow> batch_id_ok (fresh_id calls i)"
    using assms(1) by (simp_all add: serves_def)
  have ids: "map batch_id inputs = map (fresh_id calls) (map fst works)" by (simp add: inputs_map case_prod_beta)
  have different: "distinct (map batch_id inputs)" unfolding ids distinct_map
    using distinct inj_on_subset[OF fresh(1)] index by (auto simp: distinct_map)
  have row: "batch_row_ok row" if r: "row \<in> set inputs" for row
  proof -
    obtain i p where ip: "(i, p) \<in> set works" "row = \<lparr>batch_id = fresh_id calls i, batch_ids = field_ids p\<rparr>"
      using r by (auto simp: inputs_map)
    then have "(i, p) \<in> set ready" using sub by blast
    then have "i < length texts" "list_all (\<lambda>i. 0 \<le> i \<and> i \<le> max_safe_integer) (field_ids p)"
      using assms(2) by (auto simp: round_ok_def list_all_iff)
    then show ?thesis using works(3)[OF ip(1)] fresh(2) ip(2) by (simp add: batch_row_ok_def is_long_def Suc_le_eq)
  qed
  have "longest_row inputs \<le> short_batch_tokens" using row by (intro longest_row_le) (simp add: batch_row_ok_def)
  then have "longest_row inputs * length inputs \<le> short_batch_tokens * short_batch_fields"
    using len by (intro mult_le_mono) (simp_all add: inputs_map)
  then have valid: "validate_batch_input inputs = Inr (longest_row inputs)"
    using works(1) len row different
    by (auto simp: validate_batch_input_def Let_def inputs_map list_ex_iff short_batch_positions_def short_batch_tokens_def
        short_batch_fields_def Suc_le_eq)
  then obtain v rows where v: "batch_call calls inputs = Inr v" "validate_batch_output inputs v = Inr rows"
    using assms(1) unfolding serves_def by blast
  have rows: "map fst rows = map (fresh_id calls) (map fst works)"
    using batch_output_ids[OF v(2) different] ids by simp
  then have length: "length rows = length works" by (metis length_map)
  let ?rs = "map2 (\<lambda>(i, p) (_, logits). (i, raw_of_field p logits)) works rows"
  have results: "task_results calls task = Inr ?rs" using v Classify_batch by (simp add: Let_def flip: inputs_map)
  then have rs: "results_of calls task = ?rs" by (simp add: results_of_def)
  have "map fst ?rs = map fst (task_works task)"
    using length Classify_batch by (intro nth_equalityI) (simp_all add: case_prod_beta)
  moreover have gives: "task_gives calls task i raw" if mem: "(i, raw) \<in> set ?rs" for i raw
  proof -
    obtain k where k: "k < length works" "?rs ! k = (i, raw)"
      using mem length by (auto simp: in_set_conv_nth)
    obtain p where p: "works ! k = (i, p)" using k length by (cases "works ! k") (auto split: prod.splits)
    obtain q logits where l: "rows ! k = (q, logits)" by fastforce
    have "raw = raw_of_field p logits" using k p l length by simp
    moreover have "q = fresh_id calls i" using arg_cong[OF rows, of "\<lambda>xs. xs ! k"] k(1) length p l by simp
    moreover have "distinct (map fst rows)" using different unfolding rows ids .
    then have "map_of rows q = Some logits" using k(1) l length by (metis map_of_is_SomeI nth_mem)
    moreover have "(i, p) \<in> set works" using k(1) p by (metis nth_mem)
    ultimately show ?thesis using v Classify_batch by (auto simp flip: inputs_def)
  qed
  moreover have "task_shaped calls task"
    using Classify_batch works(1,3) len bucket valid by (auto simp: list_all_iff simp flip: inputs_def)
  ultimately show ?thesis unfolding task_answered_def rs using results by blast
qed

section \<open>Rounds\<close>

lemma run_tasks_ok:
  assumes "\<And>task. task \<in> set tasks \<Longrightarrow> task_answered calls task"
    and "unpublished (concat (map (results_of calls) tasks)) before" "length before = n"
  shows "\<exists>now. run_tasks calls n tasks before = Inr now \<and> published (concat (map (results_of calls) tasks)) before now"
  using assms
proof (induction tasks arbitrary: before)
  case (Cons task tasks)
  let ?rs = "results_of calls task" and ?qs = "concat (map (results_of calls) tasks)"
  have results: "task_results calls task = Inr ?rs" using Cons.prems(1)[of task] by (simp add: task_answered_def)
  have "unpublished ?rs before" using Cons.prems(2) by (simp add: unpublished_def)
  from publish_all_ok[OF this] obtain mid where mid: "publish_all n ?rs before = Inr mid" "published ?rs before mid"
    unfolding Cons.prems(3) by blast
  have "unpublished ?qs mid" by (rule unpublished_after[OF mid(2)]) (use Cons.prems(2) in simp)
  then obtain now where now: "run_tasks calls n tasks mid = Inr now" "published ?qs mid now"
    using Cons.IH[of mid] Cons.prems mid(2) by (auto simp: published_def)
  have "published (?rs @ ?qs) before now" by (rule published_append[OF mid(2) now(2)]) (use Cons.prems(2) in simp)
  then show ?case using results mid(1) now(1) by simp
qed (simp add: published_def)

lemma published_mset:
  assumes "published rs before now" "mset rs = mset qs" "distinct (map fst rs)"
  shows "published qs before now"
proof -
  have "distinct (map fst qs)" using assms(2,3) by (metis mset_eq_imp_distinct_iff mset_map)
  then have "map_of rs = map_of qs" using map_of_inject_set[OF assms(3)] mset_eq_setD[OF assms(2)] by blast
  then show ?thesis using assms(1) by (simp add: published_def)
qed

lemma unpublished_mset:
  assumes "unpublished rs before" "mset qs = mset rs"
  shows "unpublished qs before"
proof -
  have "mset (map fst qs) = mset (map fst rs)" using assms(2) by simp
  then have "distinct (map fst qs) \<longleftrightarrow> distinct (map fst rs)" by (rule mset_eq_imp_distinct_iff)
  then show ?thesis using assms mset_eq_setD[OF assms(2)] by (simp add: unpublished_def)
qed

lemma run_field_round_ok:
  assumes "\<And>task. task \<in> set (round_tasks ready) \<Longrightarrow> task_answered calls task"
    and "\<And>tasks. mset (schedule tasks) = mset tasks"
    and "unpublished (all_results calls ready (round_tasks ready)) before" "length before = n"
  shows "\<exists>now. run_field_round calls schedule n ready before = Inr now \<and>
    published (all_results calls ready (round_tasks ready)) before now"
proof -
  let ?tasks = "schedule (round_tasks ready)"
  let ?empty = "empty_results ready" and ?results = "\<lambda>tasks. concat (map (results_of calls) tasks)"
  have "mset (?results ?tasks) = mset (?results (round_tasks ready))"
    unfolding mset_concat sum_mset_sum_list[symmetric] mset_map assms(2) ..
  then have mset: "mset (?empty @ ?results ?tasks) = mset (all_results calls ready (round_tasks ready))"
    by (simp add: all_results_def)
  have un: "unpublished (?empty @ ?results ?tasks) before" by (rule unpublished_mset[OF assms(3) mset])
  then have "unpublished ?empty before" by (simp add: unpublished_def)
  from publish_all_ok[OF this] obtain mid where mid: "publish_all n ?empty before = Inr mid" "published ?empty before mid"
    unfolding assms(4) by blast
  have "unpublished (?results ?tasks) mid" by (rule unpublished_after[OF mid(2) un])
  moreover have "task_answered calls task" if "task \<in> set ?tasks" for task
    using that assms(1,2) by (metis mset_eq_setD)
  moreover have "length mid = n" using mid(2) assms(4) by (simp add: published_def)
  ultimately obtain now where now: "run_tasks calls n ?tasks mid = Inr now" "published (?results ?tasks) mid now"
    using run_tasks_ok by blast
  have "published (?empty @ ?results ?tasks) before now" by (rule published_append[OF mid(2) now(2) un])
  then have "published (all_results calls ready (round_tasks ready)) before now"
    by (rule published_mset[OF _ mset]) (use un in \<open>simp add: unpublished_def\<close>)
  then show ?thesis using mid(1) now(1) by (simp add: run_field_round_def empty_results_def)
qed

text \<open>The fields a round prepares, and that the budget of tokens cannot be exceeded.\<close>

lemma prepare_round_ok:
  assumes "\<And>t. t \<in> set ts \<Longrightarrow> prepare_call calls t = Inr (prepared t) \<and> length (field_ids (prepared t)) \<le> max_field_tokens"
    and "long \<le> 2" "tokens \<le> long * max_field_tokens + length ready * short_batch_tokens" "length ready \<le> short_batch_fields"
  shows "\<exists>m \<le> length ts. prepare_round calls index ready long tokens ts =
      Inr (ready @ map (\<lambda>j. (index + j, prepared (ts ! j))) [0..<m], drop m ts) \<and>
    length ready + m \<le> short_batch_fields"
  using assms
proof (induction calls index ready long tokens ts rule: prepare_round.induct)
  case (2 calls index ready long tokens t ts)
  show ?case
  proof (cases "length ready < short_batch_fields \<and> long < 2")
    case True
    let ?p = "prepared t"
    define tokens' long' where "tokens' = tokens + length (field_ids ?p)"
      and "long' = (if is_long ?p then Suc long else long)"
    have call: "prepare_call calls t = Inr ?p" "length (field_ids ?p) \<le> max_field_tokens" using "2.prems"(1) by simp_all
    have tokens: "tokens' \<le> long' * max_field_tokens + length (ready @ [(index, ?p)]) * short_batch_tokens"
      using "2.prems"(3) call(2) by (auto simp: tokens'_def long'_def is_long_def)
    have "long' \<le> 2" using True by (simp add: long'_def)
    moreover have "length (ready @ [(index, ?p)]) \<le> short_batch_fields" using True by simp
    ultimately have "long' * max_field_tokens + length (ready @ [(index, ?p)]) * short_batch_tokens \<le> token_budget"
      unfolding token_budget_def by (intro add_mono mult_right_mono) simp_all
    then have budget: "\<not> tokens' > token_budget" using tokens by simp
    from "2.IH"[OF _ call(1) tokens'_def long'_def, of "()"] True budget "2.prems"(1) \<open>long' \<le> 2\<close> tokens
      \<open>length (ready @ [(index, ?p)]) \<le> short_batch_fields\<close>
    obtain m where m: "m \<le> length ts" "prepare_round calls (Suc index) (ready @ [(index, ?p)]) long' tokens' ts =
          Inr ((ready @ [(index, ?p)]) @ map (\<lambda>j. (Suc index + j, prepared (ts ! j))) [0..<m], drop m ts)"
        "length (ready @ [(index, ?p)]) + m \<le> short_batch_fields"
      by (auto simp: throw_if_def)
    have "map (\<lambda>j. (index + j, prepared ((t # ts) ! j))) [0..<Suc m] =
        (index, ?p) # map (\<lambda>j. (Suc index + j, prepared (ts ! j))) [0..<m]"
      by (subst upt_conv_Cons, simp, subst map_Suc_upt[symmetric]) simp
    then show ?thesis using m True call(1) budget
      by (intro exI[of _ "Suc m"]) (simp add: Let_def flip: tokens'_def long'_def)
  qed (rule exI[of _ 0], use "2.prems" in simp)
qed (rule exI[of _ 0], simp)

section \<open>All fields\<close>

lemma request_works_split:
  assumes "m \<le> length ts"
  shows "request_works prepared index ts =
    map (\<lambda>j. (index + j, prepared (ts ! j))) [0..<m] @ request_works prepared (index + m) (drop m ts)"
proof -
  have "[m..<length ts] = map (\<lambda>j. m + j) [0..<length ts - m]" by (rule nth_equalityI) simp_all
  then have "[0..<length ts] = [0..<m] @ map (\<lambda>j. m + j) [0..<length ts - m]"
    using assms upt_add_eq_append[of 0 m "length ts - m"] by simp
  then show ?thesis by (simp add: request_works_def comp_def add.assoc)
qed

lemma all_results_append:
  "mset (all_results calls (works @ ws) (tasks @ ts)) = mset (all_results calls works tasks @ all_results calls ws ts)"
  by (simp add: all_results_def empty_results_def)

text \<open>Once shared out, every field has one result.\<close>

lemma all_results_indexes:
  assumes "shared_out works tasks" "\<And>task. task \<in> set tasks \<Longrightarrow> task_answered calls task"
  shows "mset (map fst (all_results calls works tasks)) = mset (map fst works)"
proof -
  have "map fst (concat (map (results_of calls) tasks)) = map fst (concat (map task_works tasks))"
    using assms(2)
  proof (induction tasks)
    case (Cons task tasks)
    have "task_answered calls task" using Cons.prems by (meson list.set_intros(1))
    then have "map fst (results_of calls task) = map fst (task_works task)" unfolding task_answered_def by blast
    moreover have "map fst (concat (map (results_of calls) tasks)) = map fst (concat (map task_works tasks))"
      using Cons.IH Cons.prems by (meson list.set_intros(2))
    ultimately show ?case by (simp only: list.map concat.simps map_append)
  qed simp
  then have tokens: "mset (map fst (concat (map (results_of calls) tasks))) =
      image_mset fst (mset (filter (\<lambda>(i, p). field_ids p \<noteq> []) works))"
    using assms(1) by (simp only: mset_map shared_out_def)
  have "map fst (empty_results works) = map fst (filter (\<lambda>(i, p). field_ids p = []) works)"
    by (simp add: empty_results_def case_prod_beta comp_def)
  then have none: "mset (map fst (empty_results works)) = image_mset fst (mset (filter (\<lambda>(i, p). field_ids p = []) works))"
    by (simp only: mset_map)
  have "mset (map fst (all_results calls works tasks)) =
      image_mset fst (mset (filter (\<lambda>(i, p). field_ids p = []) works) + mset (filter (\<lambda>(i, p). field_ids p \<noteq> []) works))"
    by (simp only: all_results_def map_append mset_append tokens none image_mset_union)
  also have "\<dots> = mset (map fst works)" by (simp add: case_prod_beta)
  finally show ?thesis .
qed

lemma request_works_indexes: "map fst (request_works prepared index ts) = [index..<index + length ts]"
  by (rule nth_equalityI) (simp_all add: request_works_def)

lemma all_results_unpublished:
  assumes "shared_out (request_works prepared index ts) tasks" "\<And>task. task \<in> set tasks \<Longrightarrow> task_answered calls task"
    and "\<And>k. index \<le> k \<Longrightarrow> k < index + length ts \<Longrightarrow> k < length outs \<and> outs ! k = None"
  shows "unpublished (all_results calls (request_works prepared index ts) tasks) outs"
proof -
  have mset: "mset (map fst (all_results calls (request_works prepared index ts) tasks)) = mset [index..<index + length ts]"
    using all_results_indexes[OF assms(1,2)] by (simp only: request_works_indexes)
  then have "distinct (map fst (all_results calls (request_works prepared index ts) tasks))"
    by (metis distinct_upt mset_eq_imp_distinct_iff)
  moreover have "i \<in> {index..<index + length ts}" if "(i, raw) \<in> set (all_results calls (request_works prepared index ts) tasks)" for i raw
    using mset_eq_setD[OF mset] that by (force simp flip: set_upt)
  ultimately show ?thesis using assms(3) by (fastforce simp: unpublished_def)
qed

lemma classify_rounds_ok:
  assumes "serves calls prepared texts" "ts = drop index texts" "index \<le> length texts"
  shows "\<exists>tasks. list_all (task_answered calls) tasks \<and> shared_out (request_works prepared index ts) tasks \<and>
    (\<forall>schedule outs. (\<forall>xs. mset (schedule xs) = mset xs) \<longrightarrow> length outs = length texts \<longrightarrow>
       (\<forall>k. index \<le> k \<longrightarrow> k < length texts \<longrightarrow> outs ! k = None) \<longrightarrow>
       (\<exists>now. classify_rounds calls schedule (length texts) index ts outs = Inr now \<and>
          published (all_results calls (request_works prepared index ts) tasks) outs now))"
  using assms(2,3)
proof (induction "length ts" arbitrary: index ts rule: less_induct)
  case less
  show ?case
  proof (cases "ts = []")
    case True
    then show ?thesis
      by (intro exI[of _ "[]"], subst classify_rounds.simps)
        (simp add: shared_out_def request_works_def all_results_def empty_results_def published_def)
  next
    case False
    have serve: "prepare_call calls t = Inr (prepared t) \<and> length (field_ids (prepared t)) \<le> max_field_tokens"
      "list_all (\<lambda>i. 0 \<le> i \<and> i \<le> max_safe_integer) (field_ids (prepared t))" if "t \<in> set ts" for t
      using assms(1) that less.prems(1) by (auto simp: serves_def dest: in_set_dropD)
    obtain m where m: "m \<le> length ts" "m \<le> short_batch_fields" "prepare_round calls index [] 0 0 ts =
        Inr (map (\<lambda>j. (index + j, prepared (ts ! j))) [0..<m], drop m ts)"
      using prepare_round_ok[of ts calls prepared 0 0 "[]" index] serve by auto
    define ready where "ready = map (\<lambda>j. (index + j, prepared (ts ! j))) [0..<m]"
    obtain t rest where t: "ts = t # rest" using False by (cases ts) auto
    have shorter: "length (drop m ts) < length ts" using prepare_round_takes[OF m(3)[unfolded t]] unfolding t by simp
    have len: "index + m \<le> length texts" "length texts = index + length ts" using m(1) less.prems by simp_all
    have "list_all (\<lambda>i. 0 \<le> i \<and> i \<le> max_safe_integer) (field_ids (prepared (ts ! j)))" if "j < m" for j
      using serve(2) m(1) that by simp
    then have "round_ok (length texts) ready"
      using m len by (auto simp: round_ok_def ready_def distinct_map inj_on_def list_all_iff comp_def)
    then have now: "task_answered calls task" if "task \<in> set (round_tasks ready)" for task
      using task_answered_ok[OF assms(1)] round_tasks_ok that by blast
    have after: "drop m ts = drop (index + m) texts" using less.prems(1) by (simp add: add.commute)
    obtain later where later: "list_all (task_answered calls) later"
        "shared_out (request_works prepared (index + m) (drop m ts)) later"
        "\<And>schedule outs. \<forall>xs. mset (schedule xs) = mset xs \<Longrightarrow> length outs = length texts \<Longrightarrow>
           \<forall>k. index + m \<le> k \<longrightarrow> k < length texts \<longrightarrow> outs ! k = None \<Longrightarrow>
           \<exists>now. classify_rounds calls schedule (length texts) (index + m) (drop m ts) outs = Inr now \<and>
             published (all_results calls (request_works prepared (index + m) (drop m ts)) later) outs now"
      using less.hyps[OF shorter after len(1)] by blast
    let ?tasks = "round_tasks ready @ later" and ?works = "request_works prepared index ts"
    have works: "?works = ready @ request_works prepared (index + m) (drop m ts)"
      using request_works_split[OF m(1)] by (simp add: ready_def)
    have answered: "task_answered calls task" if "task \<in> set ?tasks" for task
      using that now later(1) by (auto simp: list_all_iff)
    have shared: "shared_out ?works ?tasks"
      using later(2) round_tasks_share[of ready] by (simp add: shared_out_def works)
    have mset: "mset (all_results calls ready (round_tasks ready) @
        all_results calls (request_works prepared (index + m) (drop m ts)) later) = mset (all_results calls ?works ?tasks)"
      unfolding works by (rule all_results_append[symmetric])
    have "\<exists>end_outs. classify_rounds calls schedule (length texts) index ts outs = Inr end_outs \<and>
        published (all_results calls ?works ?tasks) outs end_outs"
      if schedule: "\<forall>xs. mset (schedule xs) = mset xs" and outs: "length outs = length texts"
        "\<forall>k. index \<le> k \<longrightarrow> k < length texts \<longrightarrow> outs ! k = None" for schedule outs
    proof -
      let ?rs = "all_results calls ready (round_tasks ready)"
        and ?qs = "all_results calls (request_works prepared (index + m) (drop m ts)) later"
      have "unpublished (all_results calls ?works ?tasks) outs"
        by (rule all_results_unpublished[OF shared answered]) (use outs len in auto)
      then have un: "unpublished (?rs @ ?qs) outs" by (rule unpublished_mset[OF _ mset])
      then have "unpublished ?rs outs" by (simp add: unpublished_def)
      then obtain mid where mid: "run_field_round calls schedule (length texts) ready outs = Inr mid" "published ?rs outs mid"
        using run_field_round_ok[OF now _ _ outs(1)] schedule by blast
      have "unpublished ?qs mid" by (rule unpublished_after[OF mid(2) un])
      have "length mid = length texts" using mid(2) outs(1) by (simp add: published_def)
      moreover have "mid ! k = None" if "index + m \<le> k" "k < length texts" for k
      proof -
        have "k \<in> set (map fst (request_works prepared (index + m) (drop m ts)))"
          unfolding request_works_indexes using that len m(1) by simp
        then have "k \<in> fst ` set ?qs"
          using mset_eq_setD[OF all_results_indexes[OF later(2)]] later(1) by (auto simp: list_all_iff)
        then show ?thesis using \<open>unpublished ?qs mid\<close> by (auto simp: unpublished_def)
      qed
      ultimately obtain fin where fin: "classify_rounds calls schedule (length texts) (index + m) (drop m ts) mid = Inr fin"
          "published ?qs mid fin" using later(3)[OF schedule, of mid] by blast
      have "published (?rs @ ?qs) outs fin" by (rule published_append[OF mid(2) fin(2) un])
      then have "published (all_results calls ?works ?tasks) outs fin"
        by (rule published_mset[OF _ mset]) (use un in \<open>simp add: unpublished_def\<close>)
      moreover have "length ready = m" by (simp add: ready_def)
      then have "classify_rounds calls schedule (length texts) index ts outs = Inr fin"
        using False m(3) mid(1) fin(1) by (subst classify_rounds.simps) (simp flip: ready_def)
      ultimately show ?thesis by blast
    qed
    then show ?thesis using answered shared by (intro exI[of _ ?tasks]) (auto simp: list_all_iff)
  qed
qed

text \<open>C36. Every field gets its own result. The fields that have tokens are shared out among tasks, each field in one
  task: a long field alone, short fields in batches of at most eight of similar length, each a batch the worker
  accepts. In whatever order the tasks of a round finish, the result at the index of a field is what its task
  gives for it: the classification of a long field, and the row that answers the id drawn for a short field,
  with that field's text, offsets and biases; a field without tokens gets no scores. Neither the budget of tokens
  nor the checks for duplicate and missing results are ever hit.\<close>

theorem fields_get_their_results:
  assumes "serves calls prepared texts"
  shows "\<exists>outs tasks. length outs = length texts \<and>
    (\<forall>schedule. (\<forall>xs. mset (schedule xs) = mset xs) \<longrightarrow> classify_request_fields calls schedule texts = Inr outs) \<and>
    mset (concat (map task_works tasks)) =
      mset (filter (\<lambda>(i, p). field_ids p \<noteq> []) (map (\<lambda>i. (i, prepared (texts ! i))) [0..<length texts])) \<and>
    (\<forall>task \<in> set tasks. task_shaped calls task \<and> (\<forall>(i, p) \<in> set (task_works task). task_gives calls task i (outs ! i))) \<and>
    (\<forall>i < length texts. field_ids (prepared (texts ! i)) = [] \<longrightarrow> outs ! i = raw_of_field (prepared (texts ! i)) [])"
proof -
  let ?works = "request_works prepared 0 texts" and ?start = "replicate (length texts) None"
  obtain tasks where tasks: "list_all (task_answered calls) tasks" "shared_out ?works tasks"
      "\<And>schedule. \<forall>xs. mset (schedule xs) = mset xs \<Longrightarrow>
         \<exists>now. classify_rounds calls schedule (length texts) 0 texts ?start = Inr now \<and>
           published (all_results calls ?works tasks) ?start now"
    using classify_rounds_ok[OF assms, of texts 0] by (auto simp: drop_0)
  let ?all = "all_results calls ?works tasks"
  define outs where "outs = map (\<lambda>k. the (map_of ?all k)) [0..<length texts]"
  have answered: "task_answered calls task" if "task \<in> set tasks" for task using tasks(1) that by (simp add: list_all_iff)
  have indexes: "mset (map fst ?all) = mset [0..<length texts]"
    using all_results_indexes[OF tasks(2), of calls] answered by (simp only: request_works_indexes add_0)
  have distinct: "distinct (map fst ?all)" using indexes by (metis distinct_upt mset_eq_imp_distinct_iff)
  have some: "map_of ?all k \<noteq> None" if "k < length texts" for k
    using mset_eq_setD[OF indexes] that by (auto simp: map_of_eq_None_iff)
  have result: "outs ! i = raw" if "(i, raw) \<in> set ?all" for i raw
  proof -
    have "i \<in> set (map fst ?all)" using that by force
    then have "i < length texts" unfolding mset_eq_setD[OF indexes] by simp
    then show ?thesis using map_of_is_SomeI[OF distinct that] by (simp add: outs_def)
  qed
  have returns: "classify_request_fields calls schedule texts = Inr outs" if schedule: "\<forall>xs. mset (schedule xs) = mset xs" for schedule
  proof -
    obtain now where now: "classify_rounds calls schedule (length texts) 0 texts ?start = Inr now" "published ?all ?start now"
      using tasks(3)[OF schedule] by blast
    have "now ! k = map_of ?all k" if "k < length texts" for k
      using now(2) that some[OF that] by (auto simp: published_def)
    then have "now = map (\<lambda>k. map_of ?all k) [0..<length texts]"
      using now(2) by (intro nth_equalityI) (simp_all add: published_def)
    moreover have "None \<notin> set (map (\<lambda>k. map_of ?all k) [0..<length texts])" using some by (metis (no_types, lifting) atLeastLessThan_iff imageE set_map set_upt)
    ultimately show ?thesis using now(1) by (simp add: classify_request_fields_def throw_if_def outs_def comp_def)
  qed
  have gives: "task_gives calls task i (outs ! i)" if task: "task \<in> set tasks" and i: "(i, p) \<in> set (task_works task)" for task i p
  proof -
    have "i \<in> fst ` set (task_works task)" using i by force
    then have "i \<in> fst ` set (results_of calls task)"
      using answered[OF task] unfolding task_answered_def by (metis set_map)
    then obtain raw where raw: "(i, raw) \<in> set (results_of calls task)" by auto
    then have "(i, raw) \<in> set ?all" using task by (auto simp: all_results_def)
    then show ?thesis using result raw answered[OF task] by (auto simp: task_answered_def)
  qed
  have empty: "outs ! i = raw_of_field (prepared (texts ! i)) []" if "i < length texts" "field_ids (prepared (texts ! i)) = []" for i
    by (rule result) (use that in \<open>force simp: all_results_def empty_results_def request_works_def\<close>)
  have "task_shaped calls task" if "task \<in> set tasks" for task using answered[OF that] by (simp add: task_answered_def)
  then show ?thesis
    using returns gives empty tasks(2)
    by (intro exI[of _ outs] exI[of _ tasks]) (auto simp: shared_out_def request_works_def outs_def)
qed

text \<open>C37. A batch is answered row by row: accepted output has the ids of the inputs in their order, each with one row
  of 33 finite scores per token of that input, taken from an object of the output with that id.\<close>

theorem batch_output_matches_inputs:
  assumes "validate_batch_output inputs v = Inr rows" "distinct (map batch_id inputs)"
  shows "map fst rows = map batch_id inputs \<and>
    list_all2 (\<lambda>input (i, logits). scores_for (length (batch_ids input)) logits) inputs rows \<and>
    (\<exists>vs. v = JArr vs \<and> length vs = length inputs \<and> list_all (\<lambda>row. list_ex (\<lambda>w. output_row inputs w = Some row) vs) rows)"
proof -
  note sound = batch_output_sound[OF assms]
  obtain vs where vs: "v = JArr vs" "length vs = length inputs"
    using assms(1) by (auto simp: validate_batch_output_def split: js_value.splits if_splits)
  have "map fst rows = map batch_id inputs" by (rule batch_output_ids[OF assms])
  moreover have "list_all2 (\<lambda>input (i, logits). scores_for (length (batch_ids input)) logits) inputs rows"
    using sound by (rule list_all2_mono) auto
  moreover have "list_all (\<lambda>row. list_ex (\<lambda>w. output_row inputs w = Some row) vs) rows"
    using list_all2_from[OF sound] by (fastforce simp: vs(1) list_all_iff list_ex_iff)
  ultimately show ?thesis using vs by blast
qed

section \<open>A concrete service\<close>

text \<open>Callbacks over the byte tokenizer and a model that scores every token as outside.\<close>

definition flat_scores :: "int list \<Rightarrow> double list list" where
  "flat_scores ids = map (\<lambda>_. replicate 33 (Finite 0)) ids"

definition flat_output :: "batch_input list \<Rightarrow> js_value" where
  "flat_output inputs =
     JArr (map (\<lambda>row. JObj [(''id'', JStr (batch_id row)),
       (''logits'', JArr (map (\<lambda>_. JArr (replicate 33 (JNum (Whole 0)))) (batch_ids row)))]) inputs)"

definition byte_field :: "string \<Rightarrow> prepared_field" where
  "byte_field s = \<lparr>field_ids = map (\<lambda>c. int (of_char c)) s, field_text = s, field_offsets = [], field_biases = zero_viterbi_biases\<rparr>"

definition example_callbacks :: field_callbacks where
  "example_callbacks =
     \<lparr>prepare_call = (\<lambda>s. Inr (byte_field s)),
      classify_call = classify_prepared (\<lambda>w. Inr (flat_scores w)),
      batch_call = (\<lambda>inputs. Inr (flat_output inputs)),
      fresh_id = (\<lambda>i. replicate 35 CHR ''a'' @ [if i = 0 then CHR ''0'' else if i = 1 then CHR ''1'' else CHR ''2''])\<rparr>"

lemma flat_row: "logits_row (JArr (replicate 33 (JNum (Whole 0)))) = Some (replicate 33 (Finite 0))"
proof -
  have "double_of_int 0 = Finite 0" using round_double_finite[of 0] by (simp add: double_of_int_def round_signed_def)
  then have "finite_number (JNum (Whole 0)) = Some (Finite 0)" by (simp add: finite_number_def)
  then show ?thesis by (simp add: logits_row_def length_token_labels list_all_iff)
qed

lemma flat_row_output:
  assumes "distinct (map batch_id inputs)" "row \<in> set inputs"
  shows "output_row inputs (JObj [(''id'', JStr (batch_id row)),
      (''logits'', JArr (map (\<lambda>_. JArr (replicate 33 (JNum (Whole 0)))) (batch_ids row)))]) =
    Some (batch_id row, flat_scores (batch_ids row))"
proof -
  have "map_of (map (\<lambda>row. (batch_id row, row)) inputs) (batch_id row) = Some row"
    using assms by (intro map_of_is_SomeI) (auto simp: comp_def)
  then show ?thesis
    by (simp add: output_row_def valid_logits_def flat_row list_all_iff flat_scores_def comp_def fld_def)
qed

lemma flat_collect:
  assumes "distinct (map batch_id inputs)" "set rows \<subseteq> set inputs" "distinct (map batch_id rows)"
    "batch_id ` set rows \<inter> fst ` set found = {}"
  shows "collect_output inputs found (map (\<lambda>row. JObj [(''id'', JStr (batch_id row)),
      (''logits'', JArr (map (\<lambda>_. JArr (replicate 33 (JNum (Whole 0)))) (batch_ids row)))]) rows) =
    Inr (rev (map (\<lambda>row. (batch_id row, flat_scores (batch_ids row))) rows) @ found)"
  using assms(2-4)
proof (induction rows arbitrary: found)
  case (Cons row rows)
  have "map_of found (batch_id row) = None" using Cons.prems by (auto simp: map_of_eq_None_iff)
  moreover have "collect_output inputs ((batch_id row, flat_scores (batch_ids row)) # found)
      (map (\<lambda>row. JObj [(''id'', JStr (batch_id row)),
        (''logits'', JArr (map (\<lambda>_. JArr (replicate 33 (JNum (Whole 0)))) (batch_ids row)))]) rows) =
      Inr (rev (map (\<lambda>row. (batch_id row, flat_scores (batch_ids row))) rows) @ (batch_id row, flat_scores (batch_ids row)) # found)"
    by (rule Cons.IH) (use Cons.prems in auto)
  ultimately show ?case using flat_row_output[OF assms(1)] Cons.prems by simp
qed simp

lemma flat_output_valid:
  assumes "distinct (map batch_id inputs)"
  shows "validate_batch_output inputs (flat_output inputs) =
    Inr (map (\<lambda>row. (batch_id row, flat_scores (batch_ids row))) inputs)"
proof -
  let ?found = "rev (map (\<lambda>row. (batch_id row, flat_scores (batch_ids row))) inputs)"
  have "map_of ?found (batch_id row) = Some (flat_scores (batch_ids row))" if "row \<in> set inputs" for row
    using assms that by (intro map_of_is_SomeI) (auto simp: comp_def simp flip: rev_map)
  then show ?thesis
    using flat_collect[OF assms order_refl assms, of "[]"] by (simp add: validate_batch_output_def flat_output_def)
qed

lemma flat_windows: "window_logits (\<lambda>w. Inr (flat_scores w)) ids 0 = Inr (flat_scores ids)"
proof -
  have "\<exists>logits. window_logits (\<lambda>w. Inr (flat_scores w)) ids 0 = Inr logits \<and> length logits = length ids - 0 \<and>
    (\<forall>k. 0 \<le> k \<longrightarrow> k < length ids \<longrightarrow>
      (\<exists>a b. window_around (length ids) k (a, b) \<and> logits ! (k - 0) = flat_scores (slice_of ids a b) ! (k - a)))"
    by (rule window_logits_return) (simp add: flat_scores_def)
  then obtain logits where logits: "window_logits (\<lambda>w. Inr (flat_scores w)) ids 0 = Inr logits" "length logits = length ids"
      "\<And>k. k < length ids \<Longrightarrow> \<exists>a b. window_around (length ids) k (a, b) \<and> logits ! k = flat_scores (slice_of ids a b) ! (k - a)"
    by auto
  have "logits = flat_scores ids"
  proof (rule nth_equalityI)
    fix k assume "k < length logits"
    then obtain a b where "window_around (length ids) k (a, b)" "logits ! k = flat_scores (slice_of ids a b) ! (k - a)" "k < length ids"
      using logits(3)[of k] logits(2) by auto
    then show "logits ! k = flat_scores ids ! k" by (auto simp: window_around_def flat_scores_def slice_length)
  qed (simp add: logits(2) flat_scores_def)
  then show ?thesis using logits(1) by simp
qed

lemma example_serves: "serves example_callbacks byte_field [''ab'', ''c'', '''']"
  unfolding serves_def
proof (intro conjI allI impI ballI)
  fix inputs n assume "validate_batch_input inputs = Inr n"
  then have "distinct (map batch_id inputs)" by (auto simp: validate_batch_input_def Let_def split: if_splits)
  then show "\<exists>v rows. batch_call example_callbacks inputs = Inr v \<and> validate_batch_output inputs v = Inr rows"
    by (simp add: example_callbacks_def flat_output_valid)
next
  fix p show "\<exists>raw. classify_call example_callbacks p = Inr raw"
    by (simp add: example_callbacks_def classify_prepared_def flat_windows raw_of_field_def)
next
  have "{..<length [''ab'', ''c'', '''']} = {0, 1, 2}" by auto
  then show "inj_on (fresh_id example_callbacks) {..<length [''ab'', ''c'', '''']}" by (simp add: example_callbacks_def inj_on_def)
  fix i show "batch_id_ok (fresh_id example_callbacks i)"
    by (simp add: example_callbacks_def batch_id_ok_def less_eq_char_def list_all_iff)
qed (auto simp: example_callbacks_def byte_field_def max_field_tokens_def max_safe_integer_def)

lemma fields_get_their_results_witness:
  "\<exists>outs. length outs = 3 \<and> classify_request_fields example_callbacks rev [''ab'', ''c'', ''''] = Inr outs \<and>
    outs ! 2 = raw_of_field (byte_field '''') []"
proof -
  have "\<forall>xs :: field_task list. mset (rev xs) = mset xs" by simp
  moreover have "field_ids (byte_field '''') = []" by (simp add: byte_field_def)
  ultimately show ?thesis
    using fields_get_their_results[OF example_serves] by (fastforce simp: numeral_eq_Suc)
qed

lemma batch_output_matches_inputs_witness:
  "map fst [(''x'', flat_scores [7])] = [''x''] \<and> scores_for 1 (flat_scores [7])"
proof -
  let ?inputs = "[\<lparr>batch_id = ''x'', batch_ids = [7]\<rparr>]"
  have "validate_batch_output ?inputs (flat_output ?inputs) = Inr [(''x'', flat_scores [7])]"
    using flat_output_valid[of ?inputs] by simp
  from batch_output_matches_inputs[OF this] show ?thesis by simp
qed

end
