(* ===== verification/Privacy_Pool.thy ===== *)
theory Privacy_Pool
  imports Privacy_Batches Step_Machines "HOL-Library.AList"
begin

text \<open>
  The pool of two inference processes, \<^verbatim>\<open>onnx-pool.ts\<close> of \<^verbatim>\<open>apps/privacy-service\<close>: bounded queues, one per
  request signal, served in turn as workers become free. The workers are the environment: they become
  ready or not, answer, fail, or throw before they answer (\<open>throws\<close>, by slot and job); signals abort, and
  microtasks run later. A job is its id, its positions and its group; \<open>None\<close> is the internal group.
\<close>

section \<open>State\<close>

record pool_job =
  job_id :: nat
  job_positions :: nat
  job_group :: "nat option"

datatype job_state = Job_queued | Job_running | Job_finished

record pool_slot =
  slot_ready :: bool
  slot_job :: "pool_job option"

datatype pool_load = Not_loading | Loading_worker nat | Load_over

text \<open>The last two are ghost: the jobs started and the promises settled, with whether they were resolved.\<close>

record pool =
  pool_slots :: "pool_slot list"
  pool_queues :: "(nat option \<times> pool_job list) list"
  pool_outstanding :: int
  pool_active :: int
  pool_loaded :: bool
  pool_stopping :: bool
  pool_failed :: bool
  pool_load_phase :: pool_load
  pool_aborted :: "nat list"
  pool_microtasks :: nat
  pool_jobs :: "job_state list"
  pool_started :: "nat list"
  pool_settled :: "(nat \<times> bool) list"

definition new_pool :: pool where
  "new_pool =
     \<lparr>pool_slots = replicate 2 \<lparr>slot_ready = False, slot_job = None\<rparr>, pool_queues = [], pool_outstanding = 0,
      pool_active = 0, pool_loaded = False, pool_stopping = False, pool_failed = False, pool_load_phase = Not_loading,
      pool_aborted = [], pool_microtasks = 0, pool_jobs = [], pool_started = [], pool_settled = []\<rparr>"

definition pool_is_ready :: "pool \<Rightarrow> bool" where
  "pool_is_ready p \<longleftrightarrow> pool_loaded p \<and> \<not> pool_stopping p \<and> list_ex slot_ready (pool_slots p)"

definition maximum_requests :: "pool \<Rightarrow> nat" where
  "maximum_requests p = (if length (filter slot_ready (pool_slots p)) = 2 then 2 else 1)"

section \<open>Dispatch\<close>

text \<open>The queue that is served goes to the end, if it is not empty then.\<close>

definition start_job :: "nat \<Rightarrow> nat option \<Rightarrow> pool_job \<Rightarrow> pool_job list \<Rightarrow> pool \<Rightarrow> pool" where
  "start_job i g job jobs p =
     (let others = AList.delete g (pool_queues p) in
      p\<lparr>pool_queues := (if jobs = [] then others else AList.update g jobs others),
        pool_jobs := (pool_jobs p)[job_id job := Job_running],
        pool_slots := (pool_slots p)[i := (pool_slots p ! i)\<lparr>slot_job := Some job\<rparr>],
        pool_active := pool_active p + int (job_positions job),
        pool_started := pool_started p @ [job_id job]\<rparr>)"

definition release_slot :: "nat \<Rightarrow> pool_job \<Rightarrow> pool \<Rightarrow> pool" where
  "release_slot i job p =
     p\<lparr>pool_jobs := (pool_jobs p)[job_id job := Job_finished],
       pool_slots := (pool_slots p)[i := (pool_slots p ! i)\<lparr>slot_job := None\<rparr>],
       pool_outstanding := pool_outstanding p - 1,
       pool_active := pool_active p - int (job_positions job)\<rparr>"

definition settle :: "pool_job \<Rightarrow> bool \<Rightarrow> pool \<Rightarrow> pool" where
  "settle job ok p = p\<lparr>pool_settled := pool_settled p @ [(job_id job, ok)]\<rparr>"

text \<open>The loop of \<^verbatim>\<open>pump\<close> over the slots from a list. A worker that throws at once is finished with an error
  inside the loop, which pumps again before the loop goes on.\<close>

definition queued_count :: "pool \<Rightarrow> nat" where
  "queued_count p = sum_list (map (length \<circ> snd) (pool_queues p))"

function pump_slots :: "(nat \<Rightarrow> pool_job \<Rightarrow> bool) \<Rightarrow> nat list \<Rightarrow> pool \<Rightarrow> pool" where
  "pump_slots throws [] p = p"
| "pump_slots throws (i # is) p =
     (let slot = pool_slots p ! i in
      if slot_job slot \<noteq> None \<or> \<not> slot_ready slot then pump_slots throws is p
      else
        (case pool_queues p of
           (g, job # jobs) # queues \<Rightarrow>
             if pool_active p + int (job_positions job) > int short_batch_positions then p
             else
               (let p' = start_job i g job jobs p in
                if throws i job
                then
                  (let q = release_slot i job p' in
                   pump_slots throws is
                     (settle job False (if pool_loaded q \<and> \<not> pool_stopping q then pump_slots throws [0, 1] q else q)))
                else pump_slots throws is p')
         | _ \<Rightarrow> p))"
  by pat_completeness auto

lemma update_fresh: "k \<notin> fst ` set xs \<Longrightarrow> AList.update k v xs = xs @ [(k, v)]"
  by (induction xs) auto

lemma start_job_queues:
  "pool_queues (start_job i g job jobs p) =
   AList.delete g (pool_queues p) @ (if jobs = [] then [] else [(g, jobs)])"
proof -
  have "g \<notin> fst ` set (AList.delete g (pool_queues p))" by (auto simp: AList.delete_eq)
  then show ?thesis by (simp add: start_job_def Let_def update_fresh)
qed

lemma delete_count: "sum_list (map (length \<circ> snd) (AList.delete g queues)) \<le> sum_list (map (length \<circ> snd) queues)"
  by (induction queues) (auto simp: AList.delete_eq)

lemma start_job_count:
  assumes "pool_queues p = (g, job # jobs) # queues"
  shows "queued_count (start_job i g job jobs p) < queued_count p"
  using delete_count[of g queues] by (simp add: queued_count_def start_job_queues assms)

lemma other_counts [simp]:
  "queued_count (release_slot i job p) = queued_count p" "queued_count (settle job ok p) = queued_count p"
  by (simp_all add: release_slot_def settle_def queued_count_def)

lemma pump_slots_count:
  "pump_slots_dom (throws, is, p) \<Longrightarrow> queued_count (pump_slots throws is p) \<le> queued_count p"
proof (induction throws "is" p rule: pump_slots.pinduct)
  case (2 throws i "is" p)
  show ?case
  proof (cases "slot_job (pool_slots p ! i) \<noteq> None \<or> \<not> slot_ready (pool_slots p ! i)")
    case True
    then show ?thesis using 2 by (simp add: pump_slots.psimps Let_def)
  next
    case idle: False
    show ?thesis
    proof (cases "pool_queues p")
      case Nil
      then show ?thesis using 2 idle by (simp add: pump_slots.psimps Let_def)
    next
      case (Cons entry queues)
      obtain g queue where entry: "entry = (g, queue)" by fastforce
      show ?thesis
      proof (cases queue)
        case Nil
        then show ?thesis using 2 idle Cons entry by (simp add: pump_slots.psimps Let_def)
      next
        case jobs: (Cons job jobs)
        note shape = Cons[unfolded entry jobs]
        note less = start_job_count[OF shape, of i]
        show ?thesis
        proof (cases "pool_active p + int (job_positions job) > int short_batch_positions")
          case True
          then show ?thesis using 2 idle shape by (simp add: pump_slots.psimps Let_def)
        next
          case fits: False
          show ?thesis
          proof (cases "throws i job")
            case False
            have "queued_count (pump_slots throws is (start_job i g job jobs p)) \<le> queued_count (start_job i g job jobs p)"
              using "2.IH"(4)[OF refl _ shape refl refl] idle fits False by blast
            then show ?thesis using "2.hyps" idle shape fits False less by (simp add: pump_slots.psimps Let_def)
          next
            case True
            let ?q = "release_slot i job (start_job i g job jobs p)"
            let ?r = "if pool_loaded ?q \<and> \<not> pool_stopping ?q then pump_slots throws [0, 1] ?q else ?q"
            have inner: "queued_count ?r \<le> queued_count ?q"
              using "2.IH"(2)[OF refl _ shape refl refl] idle fits True by (cases "pool_loaded ?q \<and> \<not> pool_stopping ?q") auto
            have "queued_count (pump_slots throws is (settle job False ?r)) \<le> queued_count (settle job False ?r)"
              using "2.IH"(3)[OF refl _ shape refl refl] idle fits True by blast
            then show ?thesis using inner "2.hyps" idle shape fits True less by (simp add: pump_slots.psimps Let_def)
          qed
        qed
      qed
    qed
  qed
qed (simp add: pump_slots.psimps)

lemma pump_inside_count:
  assumes "pump_slots_dom (throws, is, release_slot i job (start_job i g job jobs p))" "pool_queues p = (g, job # jobs) # queues"
  shows "queued_count (pump_slots throws is (release_slot i job (start_job i g job jobs p))) < queued_count p"
  using pump_slots_count[OF assms(1)] start_job_count[OF assms(2), of i] by simp

termination pump_slots
  by (relation "measures [\<lambda>(throws, is, p). queued_count p, \<lambda>(throws, is, p). length is]")
    (auto simp: start_job_count pump_inside_count)

declare pump_slots.simps [simp del]

definition pump :: "(nat \<Rightarrow> pool_job \<Rightarrow> bool) \<Rightarrow> pool \<Rightarrow> pool" where
  "pump throws p = (if pool_loaded p \<and> \<not> pool_stopping p then pump_slots throws [0, 1] p else p)"

text \<open>\<^verbatim>\<open>finish\<close>: what waits is dispatched before the promise of the job is settled.\<close>

definition finish_job :: "(nat \<Rightarrow> pool_job \<Rightarrow> bool) \<Rightarrow> nat \<Rightarrow> pool_job \<Rightarrow> bool \<Rightarrow> pool \<Rightarrow> pool" where
  "finish_job throws i job ok p = settle job ok (pump throws (release_slot i job p))"

lemma pump_slots_Cons:
  "pump_slots throws (i # is) p =
     (if slot_job (pool_slots p ! i) \<noteq> None \<or> \<not> slot_ready (pool_slots p ! i) then pump_slots throws is p
      else
        (case pool_queues p of
           (g, job # jobs) # queues \<Rightarrow>
             if pool_active p + int (job_positions job) > int short_batch_positions then p
             else if throws i job then pump_slots throws is (finish_job throws i job False (start_job i g job jobs p))
             else pump_slots throws is (start_job i g job jobs p)
         | _ \<Rightarrow> p))"
  by (simp add: pump_slots.simps Let_def finish_job_def pump_def split: list.splits prod.splits)

section \<open>Requests\<close>

datatype pool_answer = Pool_throws | Pool_rejects | Pool_accepts nat

definition add_job :: "pool_job \<Rightarrow> pool \<Rightarrow> pool" where
  "add_job job p =
     (let queue = (case map_of (pool_queues p) (job_group job) of None \<Rightarrow> [] | Some q \<Rightarrow> q) in
      p\<lparr>pool_outstanding := pool_outstanding p + 1,
        pool_queues := AList.update (job_group job) (queue @ [job]) (pool_queues p),
        pool_jobs := pool_jobs p @ [Job_queued]\<rparr>)"

definition enqueue_job :: "(nat \<Rightarrow> pool_job \<Rightarrow> bool) \<Rightarrow> nat \<Rightarrow> nat option \<Rightarrow> pool \<Rightarrow> pool_answer \<times> pool" where
  "enqueue_job throws positions signal p =
     (if (case signal of None \<Rightarrow> False | Some g \<Rightarrow> g \<in> set (pool_aborted p)) then (Pool_throws, p)
      else if \<not> pool_is_ready p \<or> pool_outstanding p \<ge> 4 \<or> positions < 1 \<or> positions > short_batch_positions
      then (Pool_rejects, p)
      else
        (let k = length (pool_jobs p) in
         (Pool_accepts k,
          pump throws (add_job \<lparr>job_id = k, job_positions = positions, job_group = signal\<rparr> p))))"

definition pool_infer :: "(nat \<Rightarrow> pool_job \<Rightarrow> bool) \<Rightarrow> int list \<Rightarrow> nat option \<Rightarrow> pool \<Rightarrow> pool_answer \<times> pool" where
  "pool_infer throws ids signal p =
     (if length ids < 1 \<or> window_core + 2 * window_context < length ids \<or> list_ex (\<lambda>i. i < 0 \<or> max_safe_integer < i) ids
      then (Pool_rejects, p)
      else enqueue_job throws (length ids) signal p)"

definition pool_infer_batch :: "(nat \<Rightarrow> pool_job \<Rightarrow> bool) \<Rightarrow> batch_input list \<Rightarrow> nat option \<Rightarrow> pool \<Rightarrow> pool_answer \<times> pool" where
  "pool_infer_batch throws rows signal p =
     (case validate_batch_input rows of
        Inl e \<Rightarrow> (Pool_throws, p)
      | Inr n \<Rightarrow> enqueue_job throws (n * length rows) signal p)"

section \<open>Aborts, loading and unloading\<close>

text \<open>\<^verbatim>\<open>onAbort\<close> of a job: only a job that is still queued is taken out of its queue.\<close>

definition abort_job :: "pool \<Rightarrow> pool_job \<Rightarrow> pool" where
  "abort_job p job =
     (if pool_jobs p ! job_id job \<noteq> Job_queued then p
      else
        p\<lparr>pool_queues :=
            (case map_of (pool_queues p) (job_group job) of
               None \<Rightarrow> pool_queues p
             | Some queue \<Rightarrow>
                 (if remove1 job queue = [] then AList.delete (job_group job) (pool_queues p)
                  else AList.update (job_group job) (remove1 job queue) (pool_queues p))),
          pool_jobs := (pool_jobs p)[job_id job := Job_finished],
          pool_outstanding := pool_outstanding p - 1,
          pool_microtasks := Suc (pool_microtasks p),
          pool_settled := pool_settled p @ [(job_id job, False)]\<rparr>)"

text \<open>The listeners an abort reaches: those of the queued jobs of the signal, or of all for the shutdown.\<close>

definition abort_group :: "nat \<Rightarrow> pool \<Rightarrow> pool" where
  "abort_group g p =
     (let jobs = (case map_of (pool_queues p) (Some g) of None \<Rightarrow> [] | Some queue \<Rightarrow> queue) in
      foldl abort_job (p\<lparr>pool_aborted := g # pool_aborted p\<rparr>) jobs)"

definition unload_pool :: "pool \<Rightarrow> pool" where
  "unload_pool p = foldl abort_job (p\<lparr>pool_stopping := True\<rparr>) (concat (map snd (pool_queues p)))"

text \<open>\<^verbatim>\<open>load\<close>, with the path already compared, and the outcomes of the workers it loads one after the other.\<close>

definition load_failed :: "pool \<Rightarrow> pool" where
  "load_failed p = unload_pool (p\<lparr>pool_failed := True, pool_load_phase := Load_over\<rparr>)"

definition load_pool :: "bool \<Rightarrow> pool \<Rightarrow> pool" where
  "load_pool same_path p =
     (if \<not> same_path \<or> pool_stopping p \<or> pool_failed p then p
      else if pool_loaded p then p
      else if pool_load_phase p = Not_loading then p\<lparr>pool_load_phase := Loading_worker 0\<rparr>
      else p)"

definition worker_loaded :: "pool \<Rightarrow> pool" where
  "worker_loaded p =
     (case pool_load_phase p of
        Loading_worker i \<Rightarrow>
          if Suc i < length (pool_slots p)
          then (if pool_stopping p then load_failed p else p\<lparr>pool_load_phase := Loading_worker (Suc i)\<rparr>)
          else if pool_stopping p \<or> list_ex (\<lambda>slot. \<not> slot_ready slot) (pool_slots p) then load_failed p
          else p\<lparr>pool_loaded := True, pool_load_phase := Load_over\<rparr>
      | _ \<Rightarrow> p)"

definition worker_failed :: "pool \<Rightarrow> pool" where
  "worker_failed p = (case pool_load_phase p of Loading_worker i \<Rightarrow> load_failed p | _ \<Rightarrow> p)"

datatype runtime_availability = Pool_loading | Pool_ready | Pool_recovering | Pool_unavailable | Pool_stops

definition pool_availability :: "(nat \<Rightarrow> bool) \<Rightarrow> pool \<Rightarrow> runtime_availability" where
  "pool_availability recovering p =
     (if pool_stopping p then Pool_stops
      else if pool_is_ready p then Pool_ready
      else if list_ex recovering [0..<length (pool_slots p)] then Pool_recovering
      else if \<not> pool_loaded p \<and> \<not> pool_failed p then Pool_loading
      else Pool_unavailable)"

section \<open>What can happen\<close>

text \<open>A worker that becomes ready calls \<^verbatim>\<open>pump\<close>; one that stops being ready does not.\<close>

definition set_ready :: "nat \<Rightarrow> bool \<Rightarrow> pool \<Rightarrow> pool" where
  "set_ready i ready p = p\<lparr>pool_slots := (pool_slots p)[i := (pool_slots p ! i)\<lparr>slot_ready := ready\<rparr>]\<rparr>"

inductive pool_step :: "(nat \<Rightarrow> pool_job \<Rightarrow> bool) \<Rightarrow> pool \<Rightarrow> pool \<Rightarrow> bool" for throws where
  infer: "pool_step throws p (snd (pool_infer throws ids signal p))"
| infer_batch: "pool_step throws p (snd (pool_infer_batch throws rows signal p))"
| answered: "i < length (pool_slots p) \<Longrightarrow> slot_job (pool_slots p ! i) = Some job \<Longrightarrow>
    pool_step throws p (finish_job throws i job ok p)"
| aborted: "pool_step throws p (abort_group g p)"
| microtask: "0 < pool_microtasks p \<Longrightarrow>
    pool_step throws p (pump throws (p\<lparr>pool_microtasks := pool_microtasks p - 1\<rparr>))"
| becomes_ready: "i < length (pool_slots p) \<Longrightarrow> pool_step throws p (pump throws (set_ready i True p))"
| stops_being_ready: "i < length (pool_slots p) \<Longrightarrow> pool_step throws p (set_ready i False p)"
| load_called: "pool_step throws p (load_pool same_path p)"
| load_answered: "pool_step throws p (worker_loaded p)"
| load_rejected: "pool_step throws p (worker_failed p)"
| unload_called: "pool_step throws p (unload_pool p)"

definition pool_reach :: "(nat \<Rightarrow> pool_job \<Rightarrow> bool) \<Rightarrow> pool \<Rightarrow> bool" where
  "pool_reach throws p \<longleftrightarrow> (pool_step throws)\<^sup>*\<^sup>* new_pool p"

section \<open>The books of the pool\<close>

definition waiting_jobs :: "pool \<Rightarrow> pool_job list" where
  "waiting_jobs p = concat (map snd (pool_queues p))"

definition running_jobs :: "pool \<Rightarrow> pool_job list" where
  "running_jobs p = List.map_filter slot_job (pool_slots p)"

definition job_ids :: "pool_job list \<Rightarrow> nat set" where
  "job_ids js = job_id ` set js"

text \<open>The state of every job, by where it is.\<close>

definition state_of_id :: "pool \<Rightarrow> nat \<Rightarrow> job_state" where
  "state_of_id p k =
     (if k \<in> job_ids (waiting_jobs p) then Job_queued
      else if k \<in> job_ids (running_jobs p) then Job_running else Job_finished)"

definition queues_ok :: "(nat option \<times> pool_job list) list \<Rightarrow> bool" where
  "queues_ok qs \<longleftrightarrow> distinct (map fst qs) \<and> (\<forall>(g, q) \<in> set qs. q \<noteq> [] \<and> (\<forall>j \<in> set q. job_group j = g))"

text \<open>The jobs in the books, the counters, and the states of the jobs with the promises settled; \<open>d\<close> are the
  jobs that are finished and whose promise is about to be settled.\<close>

definition jobs_ok :: "pool \<Rightarrow> bool" where
  "jobs_ok p \<longleftrightarrow>
     length (pool_slots p) = 2 \<and> queues_ok (pool_queues p) \<and>
     distinct (map job_id (waiting_jobs p @ running_jobs p)) \<and>
     (\<forall>j \<in> set (waiting_jobs p @ running_jobs p).
        job_id j < length (pool_jobs p) \<and> 1 \<le> job_positions j \<and> job_positions j \<le> short_batch_positions)"

definition counts_ok :: "pool \<Rightarrow> bool" where
  "counts_ok p \<longleftrightarrow>
     pool_outstanding p = int (length (waiting_jobs p @ running_jobs p)) \<and> pool_outstanding p \<le> 4 \<and>
     pool_active p = int (sum_list (map job_positions (running_jobs p))) \<and>
     pool_active p \<le> int short_batch_positions"

definition states_ok :: "nat set \<Rightarrow> pool \<Rightarrow> bool" where
  "states_ok d p \<longleftrightarrow>
     (\<forall>k < length (pool_jobs p). pool_jobs p ! k = state_of_id p k) \<and>
     distinct (map fst (pool_settled p)) \<and> fst ` set (pool_settled p) \<inter> d = {} \<and>
     fst ` set (pool_settled p) \<union> d = {k. k < length (pool_jobs p) \<and> pool_jobs p ! k = Job_finished}"

definition books_ok :: "nat set \<Rightarrow> pool \<Rightarrow> bool" where
  "books_ok d p \<longleftrightarrow> jobs_ok p \<and> counts_ok p \<and> states_ok d p"

lemma two_slots: "length xs = 2 \<Longrightarrow> \<exists>a b. xs = [a, b]"
  by (cases xs; cases "tl xs") auto

lemma less_two: "i < 2 \<Longrightarrow> i = 0 \<or> i = (1 :: nat)"
  by auto

lemma delete_other: "g \<notin> fst ` set qs \<Longrightarrow> AList.delete g qs = qs"
  by (induction qs) auto

text \<open>A job moves from the queues to a slot.\<close>

lemma start_job_moves:
  assumes "jobs_ok p" "pool_queues p = (g, job # jobs) # qs" "i < 2" "slot_job (pool_slots p ! i) = None"
  defines "q \<equiv> start_job i g job jobs p"
  shows "pool_queues q = qs @ (if jobs = [] then [] else [(g, jobs)])" "queues_ok (pool_queues q)"
    "waiting_jobs p = job # jobs @ concat (map snd qs)" "waiting_jobs q = concat (map snd qs) @ jobs"
    "mset (running_jobs q) = add_mset job (mset (running_jobs p))"
    "mset (waiting_jobs q @ running_jobs q) = mset (waiting_jobs p @ running_jobs p)"
    "length (pool_slots q) = 2"
proof -
  obtain a b where ab: "pool_slots p = [a, b]" using assms(1) two_slots unfolding jobs_ok_def by blast
  have g: "g \<notin> fst ` set qs" using assms(1) by (auto simp: jobs_ok_def queues_ok_def assms(2))
  show queues: "pool_queues q = qs @ (if jobs = [] then [] else [(g, jobs)])"
    unfolding q_def start_job_queues by (simp add: assms(2) delete_other[OF g])
  show "queues_ok (pool_queues q)" unfolding queues using assms(1) g by (auto simp: jobs_ok_def queues_ok_def assms(2))
  show w: "waiting_jobs p = job # jobs @ concat (map snd qs)" "waiting_jobs q = concat (map snd qs) @ jobs"
    unfolding waiting_jobs_def queues by (simp_all add: assms(2))
  show r: "mset (running_jobs q) = add_mset job (mset (running_jobs p))"
    using less_two[OF assms(3)] assms(4) by (auto simp: q_def running_jobs_def start_job_def Let_def ab List.map_filter_def)
  show "mset (waiting_jobs q @ running_jobs q) = mset (waiting_jobs p @ running_jobs p)" using r by (simp add: w)
  show "length (pool_slots q) = 2" using assms(1) by (simp add: q_def start_job_def Let_def jobs_ok_def)
qed

lemma start_job_books:
  assumes "books_ok d p" "pool_queues p = (g, job # jobs) # qs" "i < 2" "slot_job (pool_slots p ! i) = None"
    "pool_active p + int (job_positions job) \<le> int short_batch_positions"
  shows "books_ok d (start_job i g job jobs p)"
proof -
  define q where "q = start_job i g job jobs p"
  have ok: "jobs_ok p" "counts_ok p" "states_ok d p" using assms(1) by (simp_all add: books_ok_def)
  note moves = start_job_moves[OF ok(1) assms(2-4), folded q_def]
  have ids: "mset (map job_id (waiting_jobs q @ running_jobs q)) = mset (map job_id (waiting_jobs p @ running_jobs p))"
    unfolding mset_map moves(6) ..
  have set: "set (waiting_jobs q @ running_jobs q) = set (waiting_jobs p @ running_jobs p)" by (rule mset_eq_setD[OF moves(6)])
  have len: "length (waiting_jobs q @ running_jobs q) = length (waiting_jobs p @ running_jobs p)"
    by (rule mset_eq_length[OF moves(6)])
  have same: "pool_outstanding q = pool_outstanding p" "pool_settled q = pool_settled p"
    "pool_active q = pool_active p + int (job_positions job)" "pool_loaded q = pool_loaded p"
    "pool_stopping q = pool_stopping p" "pool_jobs q = (pool_jobs p)[job_id job := Job_running]"
    by (simp_all add: q_def start_job_def Let_def)
  have dist: "distinct (map job_id (waiting_jobs p @ running_jobs p))" using ok(1) by (simp add: jobs_ok_def)
  have "jobs_ok q"
    using ok(1) moves(2,7) mset_eq_imp_distinct_iff[OF ids] set unfolding jobs_ok_def same by simp
  moreover have "sum_list (map job_positions (running_jobs q)) = job_positions job + sum_list (map job_positions (running_jobs p))"
    unfolding sum_mset_sum_list[symmetric] mset_map moves(5) by simp
  then have "counts_ok q" using ok(2) assms(5) len unfolding counts_ok_def same by simp
  moreover have "states_ok d q"
  proof -
    have rset: "set (running_jobs q) = insert job (set (running_jobs p))" using arg_cong[OF moves(5), of set_mset] by simp
    have at: "job_id job \<notin> job_ids (waiting_jobs q)" "job_id job \<in> job_ids (waiting_jobs p)" "job_id job \<in> job_ids (running_jobs q)"
      using dist rset by (auto simp: job_ids_def moves(3,4))
    have other: "k \<in> job_ids (waiting_jobs q) \<longleftrightarrow> k \<in> job_ids (waiting_jobs p)"
      "k \<in> job_ids (running_jobs q) \<longleftrightarrow> k \<in> job_ids (running_jobs p)" if "k \<noteq> job_id job" for k
      using that rset by (auto simp: job_ids_def moves(3,4))
    have range: "job_id job < length (pool_jobs p)" using ok(1) by (simp add: jobs_ok_def moves(3))
    then have st: "pool_jobs p ! job_id job = Job_queued" using ok(3) at(2) by (simp add: states_ok_def state_of_id_def)
    have "pool_jobs q ! k = state_of_id q k" if "k < length (pool_jobs q)" for k
      using ok(3) that at other[of k] range by (cases "k = job_id job") (auto simp: same states_ok_def state_of_id_def)
    moreover have "{k. k < length (pool_jobs q) \<and> pool_jobs q ! k = Job_finished} =
        {k. k < length (pool_jobs p) \<and> pool_jobs p ! k = Job_finished}"
      using st range by (auto simp: same nth_list_update)
    ultimately show ?thesis using ok(3) by (simp add: states_ok_def same(2))
  qed
  ultimately show ?thesis by (simp add: books_ok_def q_def)
qed

lemma release_slot_books:
  assumes "books_ok d p" "i < 2" "slot_job (pool_slots p ! i) = Some job"
  shows "books_ok (insert (job_id job) d) (release_slot i job p)" "job_id job \<notin> d"
proof -
  define q where "q = release_slot i job p"
  have ok: "jobs_ok p" "counts_ok p" "states_ok d p" using assms(1) by (simp_all add: books_ok_def)
  obtain a b where ab: "pool_slots p = [a, b]" using ok(1) two_slots unfolding jobs_ok_def by blast
  have same: "pool_queues q = pool_queues p" "waiting_jobs q = waiting_jobs p" "pool_settled q = pool_settled p"
    "pool_outstanding q = pool_outstanding p - 1" "pool_active q = pool_active p - int (job_positions job)"
    "pool_loaded q = pool_loaded p" "pool_stopping q = pool_stopping p" "length (pool_slots q) = 2"
    "pool_jobs q = (pool_jobs p)[job_id job := Job_finished]"
    using ok(1) by (simp_all add: q_def release_slot_def waiting_jobs_def jobs_ok_def)
  have r: "mset (running_jobs p) = add_mset job (mset (running_jobs q))"
    using less_two[OF assms(2)] assms(3) by (auto simp: q_def running_jobs_def release_slot_def ab List.map_filter_def)
  have all: "mset (waiting_jobs p @ running_jobs p) = mset (job # waiting_jobs q @ running_jobs q)" using r by (simp add: same)
  have ids: "mset (map job_id (waiting_jobs p @ running_jobs p)) = mset (map job_id (job # waiting_jobs q @ running_jobs q))"
    unfolding mset_map all ..
  have set: "set (waiting_jobs p @ running_jobs p) = insert job (set (waiting_jobs q @ running_jobs q))"
    using mset_eq_setD[OF all] by simp
  have len: "length (waiting_jobs p @ running_jobs p) = Suc (length (waiting_jobs q @ running_jobs q))"
    using mset_eq_length[OF all] by simp
  have dist: "distinct (map job_id (job # waiting_jobs q @ running_jobs q))"
    using ok(1) mset_eq_imp_distinct_iff[OF ids] by (simp add: jobs_ok_def)
  have "jobs_ok q" using ok(1) dist set unfolding jobs_ok_def same(1,6-9) by auto
  moreover have "sum_list (map job_positions (running_jobs p)) = job_positions job + sum_list (map job_positions (running_jobs q))"
    unfolding sum_mset_sum_list[symmetric] mset_map r by simp
  then have "counts_ok q" using ok(2) len unfolding counts_ok_def same(4,5) by simp
  moreover have rset: "set (running_jobs p) = insert job (set (running_jobs q))" using arg_cong[OF r, of set_mset] by simp
  have gone: "job_id job \<notin> job_ids (waiting_jobs q)" "job_id job \<notin> job_ids (running_jobs q)" "job_id job \<in> job_ids (running_jobs p)"
    using dist rset by (auto simp: job_ids_def)
  have other: "k \<in> job_ids (running_jobs q) \<longleftrightarrow> k \<in> job_ids (running_jobs p)" if "k \<noteq> job_id job" for k
    using that rset by (auto simp: job_ids_def)
  have range: "job_id job < length (pool_jobs p)" using ok(1) rset by (auto simp: jobs_ok_def)
  then have st: "pool_jobs p ! job_id job = Job_running"
    using ok(3) gone same(2) by (simp add: states_ok_def state_of_id_def)
  have fresh: "job_id job \<notin> fst ` set (pool_settled p) \<union> d" using ok(3) st by (simp add: states_ok_def)
  have "states_ok (insert (job_id job) d) q"
  proof -
    have "pool_jobs q ! k = state_of_id q k" if "k < length (pool_jobs q)" for k
      using ok(3) that gone other[of k] range same(2)
      by (cases "k = job_id job") (auto simp: same(9) states_ok_def state_of_id_def)
    moreover have "{k. k < length (pool_jobs q) \<and> pool_jobs q ! k = Job_finished} =
        insert (job_id job) {k. k < length (pool_jobs p) \<and> pool_jobs p ! k = Job_finished}"
      using range by (auto simp: same nth_list_update)
    moreover have "job_id job \<notin> fst ` set (pool_settled p)" using fresh by blast
    ultimately show ?thesis using ok(3) by (auto simp: states_ok_def same(3))
  qed
  ultimately show "books_ok (insert (job_id job) d) (release_slot i job p)" by (simp add: books_ok_def q_def)
  show "job_id job \<notin> d" using fresh by blast
qed

lemma settle_books:
  assumes "books_ok (insert (job_id job) d) p" "job_id job \<notin> d"
  shows "books_ok d (settle job ok p)"
proof -
  let ?q = "settle job ok p"
  have same: "jobs_ok ?q = jobs_ok p" "counts_ok ?q = counts_ok p" "state_of_id ?q = state_of_id p" "pool_jobs ?q = pool_jobs p"
    "pool_settled ?q = pool_settled p @ [(job_id job, ok)]"
    by (auto simp: settle_def jobs_ok_def counts_ok_def waiting_jobs_def running_jobs_def state_of_id_def fun_eq_iff)
  have s: "states_ok (insert (job_id job) d) p" using assms(1) by (simp add: books_ok_def)
  then have "job_id job \<notin> fst ` set (pool_settled p)" by (simp add: states_ok_def)
  then have "states_ok d ?q" using s assms(2) unfolding states_ok_def same by simp
  then show ?thesis using assms(1) by (simp add: books_ok_def same(1,2))
qed

lemma books_slots: "books_ok d p \<Longrightarrow> length (pool_slots p) = 2"
  by (simp add: books_ok_def jobs_ok_def)

section \<open>What dispatch keeps\<close>

text \<open>A property of the pool, with the jobs whose promise is about to be settled, that the three moves of a
  dispatch keep.\<close>

locale dispatch_invariant =
  fixes inv :: "nat set \<Rightarrow> pool \<Rightarrow> bool"
  assumes starts: "inv d p \<Longrightarrow> pool_queues p = (g, job # jobs) # qs \<Longrightarrow> i < 2 \<Longrightarrow> slot_job (pool_slots p ! i) = None \<Longrightarrow>
      pool_active p + int (job_positions job) \<le> int short_batch_positions \<Longrightarrow> inv d (start_job i g job jobs p)"
    and releases: "inv d p \<Longrightarrow> i < 2 \<Longrightarrow> slot_job (pool_slots p ! i) = Some job \<Longrightarrow>
      inv (insert (job_id job) d) (release_slot i job p) \<and> job_id job \<notin> d"
    and settles: "inv (insert (job_id job) d) p \<Longrightarrow> job_id job \<notin> d \<Longrightarrow> inv d (settle job ok p)"
    and slots: "inv d p \<Longrightarrow> length (pool_slots p) = 2"
begin

lemma keeps_slots: "inv d p \<Longrightarrow> set is \<subseteq> {..<2} \<Longrightarrow> inv d (pump_slots throws is p)"
proof (induction throws "is" p arbitrary: d rule: pump_slots.induct)
  case (2 throws i "is" p)
  have i: "i < 2" "set is \<subseteq> {..<2}" using 2(6) by simp_all
  show ?case
  proof (cases "slot_job (pool_slots p ! i) \<noteq> None \<or> \<not> slot_ready (pool_slots p ! i)")
    case True
    then show ?thesis using "2.IH"(1)[OF refl True "2.prems"(1) i(2)] by (simp add: pump_slots_Cons)
  next
    case idle: False
    show ?thesis
    proof (cases "\<exists>g job jobs qs. pool_queues p = (g, job # jobs) # qs \<and>
        \<not> pool_active p + int (job_positions job) > int short_batch_positions")
      case False
      then show ?thesis using "2.prems"(1) idle by (auto simp: pump_slots_Cons split: list.splits)
    next
      case True
      then obtain g job jobs qs where shape: "pool_queues p = (g, job # jobs) # qs"
        and fits: "\<not> pool_active p + int (job_positions job) > int short_batch_positions" by blast
      have started: "inv d (start_job i g job jobs p)"
        using starts[OF "2.prems"(1) shape i(1)] idle fits by simp
      show ?thesis
      proof (cases "throws i job")
        case False
        then show ?thesis
          using "2.IH"(4)[OF refl idle shape refl refl fits refl False started i(2)] idle shape fits
          by (simp add: pump_slots_Cons)
      next
        case True
        let ?q = "release_slot i job (start_job i g job jobs p)"
        have "i < length (pool_slots p)" using slots[OF "2.prems"(1)] i(1) by simp
        then have "slot_job (pool_slots (start_job i g job jobs p) ! i) = Some job" by (simp add: start_job_def Let_def)
        from releases[OF started i(1) this] have free: "inv (insert (job_id job) d) ?q" "job_id job \<notin> d" by simp_all
        have "inv (insert (job_id job) d) (pump throws ?q)"
          using "2.IH"(2)[OF refl idle shape refl refl fits refl True refl _ free(1)] free(1) by (simp add: pump_def)
        then have over: "inv d (finish_job throws i job False (start_job i g job jobs p))"
          unfolding finish_job_def by (rule settles) (rule free(2))
        show ?thesis
          using "2.IH"(3)[OF refl idle shape refl refl fits refl True refl, unfolded pump_def[symmetric] finish_job_def[symmetric],
              OF over i(2)] idle shape fits True
          by (simp add: pump_slots_Cons)
      qed
    qed
  qed
qed (simp add: pump_slots.simps)

lemma keeps_pump: "inv d p \<Longrightarrow> inv d (pump throws p)"
  using keeps_slots[of d p "[0, 1]"] by (simp add: pump_def)

lemma keeps_finish: "inv d p \<Longrightarrow> i < 2 \<Longrightarrow> slot_job (pool_slots p ! i) = Some job \<Longrightarrow> inv d (finish_job throws i job ok p)"
  using settles keeps_pump releases unfolding finish_job_def by blast

end

interpretation books: dispatch_invariant books_ok
proof unfold_locales
  show "books_ok d (start_job i g job jobs p)"
    if "books_ok d p" "pool_queues p = (g, job # jobs) # qs" "i < 2" "slot_job (pool_slots p ! i) = None"
      "pool_active p + int (job_positions job) \<le> int short_batch_positions" for d p g job jobs qs i
    by (rule start_job_books[OF that])
  show "books_ok (insert (job_id job) d) (release_slot i job p) \<and> job_id job \<notin> d"
    if "books_ok d p" "i < 2" "slot_job (pool_slots p ! i) = Some job" for d p i job
    using release_slot_books[OF that] by (rule conjI)
  show "books_ok d (settle job ok p)" if "books_ok (insert (job_id job) d) p" "job_id job \<notin> d" for d p job ok
    by (rule settle_books[OF that])
qed (rule books_slots)

section \<open>Requests and aborts keep the books\<close>

lemma concat_update:
  "distinct (map fst qs) \<Longrightarrow> map_of qs g = Some q \<Longrightarrow>
   mset (concat (map snd (AList.update g q' qs))) + mset q = mset (concat (map snd qs)) + mset q'"
proof (induction qs)
  case (Cons x qs)
  then show ?case by (cases x) (auto split: if_splits)
qed simp

lemma concat_delete:
  "distinct (map fst qs) \<Longrightarrow> map_of qs g = Some q \<Longrightarrow>
   mset (concat (map snd (AList.delete g qs))) + mset q = mset (concat (map snd qs))"
proof (induction qs)
  case (Cons x qs)
  then show ?case by (cases x) (auto simp: delete_other split: if_splits)
qed simp

lemma update_set: "distinct (map fst qs) \<Longrightarrow> set (AList.update g q qs) = insert (g, q) {x \<in> set qs. fst x \<noteq> g}"
proof (induction qs)
  case (Cons x qs)
  then show ?case by (cases x) (auto simp: image_iff)
qed simp

lemma queues_ok_update:
  "queues_ok qs \<Longrightarrow> q \<noteq> [] \<Longrightarrow> (\<And>j. j \<in> set q \<Longrightarrow> job_group j = g) \<Longrightarrow> queues_ok (AList.update g q qs)"
  unfolding queues_ok_def by (auto simp: update_set distinct_update)

lemma queues_ok_delete: "queues_ok qs \<Longrightarrow> queues_ok (AList.delete g qs)"
  unfolding queues_ok_def by (auto simp: AList.delete_eq distinct_map_filter)

text \<open>A new job at the end of the queue of its signal.\<close>

lemma add_job_moves:
  assumes "jobs_ok p"
  shows "queues_ok (pool_queues (add_job job p))"
    "mset (waiting_jobs (add_job job p)) = add_mset job (mset (waiting_jobs p))"
proof -
  have ok: "queues_ok (pool_queues p)" "distinct (map fst (pool_queues p))" using assms by (simp_all add: jobs_ok_def queues_ok_def)
  define q where "q = (case map_of (pool_queues p) (job_group job) of None \<Rightarrow> [] | Some q \<Rightarrow> q)"
  have "job_group j = job_group job" if "j \<in> set (q @ [job])" for j
  proof (cases "map_of (pool_queues p) (job_group job)")
    case (Some q')
    then have "(job_group job, q') \<in> set (pool_queues p)" by (rule map_of_SomeD)
    then show ?thesis using ok(1) that Some unfolding queues_ok_def q_def by auto
  qed (use that in \<open>simp add: q_def\<close>)
  note grouped = this
  have "queues_ok (AList.update (job_group job) (q @ [job]) (pool_queues p))"
    by (rule queues_ok_update[OF ok(1) _ grouped]) simp
  then show "queues_ok (pool_queues (add_job job p))" by (simp add: add_job_def q_def)
  show "mset (waiting_jobs (add_job job p)) = add_mset job (mset (waiting_jobs p))"
  proof (cases "map_of (pool_queues p) (job_group job)")
    case None
    then have "job_group job \<notin> fst ` set (pool_queues p)" by (simp add: map_of_eq_None_iff)
    then show ?thesis by (simp add: waiting_jobs_def add_job_def update_fresh None)
  next
    case (Some q)
    then show ?thesis using concat_update[OF ok(2) Some, of "q @ [job]"] by (simp add: waiting_jobs_def add_job_def)
  qed
qed

lemma add_job_books:
  assumes "books_ok {} p" "pool_outstanding p < 4" "1 \<le> job_positions job" "job_positions job \<le> short_batch_positions"
    "job_id job = length (pool_jobs p)"
  shows "books_ok {} (add_job job p)"
proof -
  define q where "q = add_job job p"
  have ok: "jobs_ok p" "counts_ok p" "states_ok {} p" using assms(1) by (simp_all add: books_ok_def)
  note moves = add_job_moves[OF ok(1), of job, folded q_def]
  have same: "running_jobs q = running_jobs p" "pool_slots q = pool_slots p" "pool_active q = pool_active p"
    "pool_outstanding q = pool_outstanding p + 1" "pool_jobs q = pool_jobs p @ [Job_queued]" "pool_settled q = pool_settled p"
    by (simp_all add: q_def add_job_def running_jobs_def)
  have all: "mset (waiting_jobs q @ running_jobs q) = mset (job # waiting_jobs p @ running_jobs p)" using moves(2) by (simp add: same)
  have ids: "mset (map job_id (waiting_jobs q @ running_jobs q)) = mset (map job_id (job # waiting_jobs p @ running_jobs p))"
    unfolding mset_map all ..
  have wset: "set (waiting_jobs q) = insert job (set (waiting_jobs p))" using arg_cong[OF moves(2), of set_mset] by simp
  have known: "job_id j < length (pool_jobs p)" if "j \<in> set (waiting_jobs p @ running_jobs p)" for j
    using ok(1) that by (simp add: jobs_ok_def)
  then have fresh: "job_id job \<notin> job_id ` set (waiting_jobs p @ running_jobs p)" unfolding assms(5) by fastforce
  then have "distinct (map job_id (job # waiting_jobs p @ running_jobs p))" using ok(1) by (auto simp: jobs_ok_def)
  then have "distinct (map job_id (waiting_jobs q @ running_jobs q))" using mset_eq_imp_distinct_iff[OF ids] by simp
  then have "jobs_ok q" using ok(1) assms(3-5) known wset moves(1) unfolding jobs_ok_def same by (auto simp: less_Suc_eq)
  moreover have "counts_ok q" using ok(2) assms(2) mset_eq_length[OF all] unfolding counts_ok_def same by simp
  moreover have "states_ok {} q"
  proof -
    have "pool_jobs q ! k = state_of_id q k" if k: "k < length (pool_jobs q)" for k
    proof (cases "k = job_id job")
      case True
      then show ?thesis using wset assms(5) by (simp add: state_of_id_def job_ids_def same)
    next
      case False
      then have less: "k < length (pool_jobs p)" using k assms(5) by (simp add: same less_Suc_eq)
      have "k \<in> job_ids (waiting_jobs q) \<longleftrightarrow> k \<in> job_ids (waiting_jobs p)" using False wset by (auto simp: job_ids_def)
      then show ?thesis using less ok(3) by (simp add: states_ok_def state_of_id_def same nth_append)
    qed
    moreover have "{k. k < length (pool_jobs q) \<and> pool_jobs q ! k = Job_finished} =
        {k. k < length (pool_jobs p) \<and> pool_jobs p ! k = Job_finished}"
      by (auto simp: same nth_append less_Suc_eq)
    ultimately show ?thesis using ok(3) by (simp add: states_ok_def same(6))
  qed
  ultimately show ?thesis by (simp add: books_ok_def q_def)
qed

text \<open>A job that leaves its queue.\<close>

lemma abort_job_queues:
  assumes "jobs_ok p" "job \<in> set (waiting_jobs p)" "pool_jobs p ! job_id job = Job_queued"
  shows "queues_ok (pool_queues (abort_job p job))"
    "mset (waiting_jobs p) = add_mset job (mset (waiting_jobs (abort_job p job)))"
proof -
  obtain g q where gq: "(g, q) \<in> set (pool_queues p)" "job \<in> set q" using assms(2) by (auto simp: waiting_jobs_def)
  have keys: "distinct (map fst (pool_queues p))" and g: "g = job_group job" "\<And>j. j \<in> set q \<Longrightarrow> job_group j = g"
    using assms(1) gq by (auto simp: jobs_ok_def queues_ok_def)
  have at: "map_of (pool_queues p) (job_group job) = Some q" using gq(1) keys g(1) by simp
  let ?q = "remove1 job q"
  have queues: "pool_queues (abort_job p job) =
      (if ?q = [] then AList.delete (job_group job) (pool_queues p) else AList.update (job_group job) ?q (pool_queues p))"
    using assms(3) at by (simp add: abort_job_def)
  have "job_group j = job_group job" if "j \<in> set ?q" for j
    using set_remove1_subset[of job q] g that by blast
  note left = this
  have before: "queues_ok (pool_queues p)" using assms(1) by (simp add: jobs_ok_def)
  show "queues_ok (pool_queues (abort_job p job))"
  proof (cases "?q = []")
    case True
    show ?thesis unfolding queues if_P[OF True] by (rule queues_ok_delete[OF before])
  next
    case False
    show ?thesis unfolding queues if_not_P[OF False] by (rule queues_ok_update[OF before False left])
  qed
  have q: "mset q = add_mset job (mset ?q)" using gq(2) by simp
  show "mset (waiting_jobs p) = add_mset job (mset (waiting_jobs (abort_job p job)))"
  proof (cases "?q = []")
    case True
    then have "mset q = {#job#}" using q by simp
    then show ?thesis using concat_delete[OF keys at] True by (simp add: waiting_jobs_def queues)
  next
    case False
    have "mset (concat (map snd (AList.update (job_group job) ?q (pool_queues p)))) + add_mset job (mset ?q) =
        mset (concat (map snd (pool_queues p))) + mset ?q"
      using concat_update[OF keys at, of ?q] unfolding q[symmetric] .
    then have "add_mset job (mset (concat (map snd (AList.update (job_group job) ?q (pool_queues p))))) =
        mset (concat (map snd (pool_queues p)))"
      unfolding union_mset_add_mset_right union_mset_add_mset_left[symmetric] by (rule add_right_imp_eq)
    then show ?thesis unfolding waiting_jobs_def queues if_not_P[OF False] by (rule sym)
  qed
qed

lemma abort_job_books:
  assumes "books_ok {} p" "job_id job \<in> job_ids (waiting_jobs p) \<Longrightarrow> job \<in> set (waiting_jobs p)" "job_id job < length (pool_jobs p)"
  shows "books_ok {} (abort_job p job)" "set (waiting_jobs (abort_job p job)) = set (waiting_jobs p) - {job}"
proof -
  have ok: "jobs_ok p" "counts_ok p" "states_ok {} p" using assms(1) by (simp_all add: books_ok_def)
  have "books_ok {} (abort_job p job) \<and> set (waiting_jobs (abort_job p job)) = set (waiting_jobs p) - {job}"
  proof (cases "pool_jobs p ! job_id job = Job_queued")
    case False
    moreover have "pool_jobs p ! job_id job = state_of_id p (job_id job)" using ok(3) assms(3) by (simp add: states_ok_def)
    ultimately have "job_id job \<notin> job_ids (waiting_jobs p)" by (auto simp: state_of_id_def)
    then have "job \<notin> set (waiting_jobs p)" by (auto simp: job_ids_def)
    then show ?thesis using False assms(1) by (simp add: abort_job_def)
  next
    case True
    let ?q = "abort_job p job"
    have "job_id job \<in> job_ids (waiting_jobs p)"
      using True ok(3) assms(3) by (auto simp: states_ok_def state_of_id_def split: if_splits)
    then have job: "job \<in> set (waiting_jobs p)" by (rule assms(2))
    note moves = abort_job_queues[OF ok(1) job True]
    have same: "running_jobs ?q = running_jobs p" "pool_slots ?q = pool_slots p" "pool_active ?q = pool_active p"
      "pool_outstanding ?q = pool_outstanding p - 1" "pool_jobs ?q = (pool_jobs p)[job_id job := Job_finished]"
      "pool_settled ?q = pool_settled p @ [(job_id job, False)]"
      using True by (simp_all add: abort_job_def running_jobs_def)
    have all: "mset (waiting_jobs p @ running_jobs p) = mset (job # waiting_jobs ?q @ running_jobs ?q)"
      using moves(2) by (simp add: same)
    have ids: "mset (map job_id (waiting_jobs p @ running_jobs p)) = mset (map job_id (job # waiting_jobs ?q @ running_jobs ?q))"
      unfolding mset_map all ..
    have dist: "distinct (map job_id (job # waiting_jobs ?q @ running_jobs ?q))"
      using ok(1) mset_eq_imp_distinct_iff[OF ids] by (simp add: jobs_ok_def)
    have wset: "set (waiting_jobs p) = insert job (set (waiting_jobs ?q))" using arg_cong[OF moves(2), of set_mset] by simp
    have "jobs_ok ?q" using ok(1) moves(1) dist wset by (auto simp: jobs_ok_def same)
    moreover have "counts_ok ?q" using ok(2) mset_eq_length[OF all] by (simp add: counts_ok_def same)
    moreover have "states_ok {} ?q"
    proof -
      have gone: "job_id job \<notin> job_ids (waiting_jobs ?q)" "job_id job \<notin> job_ids (running_jobs ?q)"
        using dist by (auto simp: job_ids_def)
      have other: "k \<in> job_ids (waiting_jobs ?q) \<longleftrightarrow> k \<in> job_ids (waiting_jobs p)" if "k \<noteq> job_id job" for k
        using that wset by (auto simp: job_ids_def)
      have "pool_jobs ?q ! k = state_of_id ?q k" if "k < length (pool_jobs ?q)" for k
        using ok(3) that gone other[of k] assms(3)
        by (cases "k = job_id job") (auto simp: same states_ok_def state_of_id_def)
      moreover have "{k. k < length (pool_jobs ?q) \<and> pool_jobs ?q ! k = Job_finished} =
          insert (job_id job) {k. k < length (pool_jobs p) \<and> pool_jobs p ! k = Job_finished}"
        using assms(3) by (auto simp: same nth_list_update)
      moreover have "job_id job \<notin> fst ` set (pool_settled p)" using ok(3) True by (simp add: states_ok_def)
      ultimately show ?thesis using ok(3) by (simp add: states_ok_def same)
    qed
    moreover have "set (waiting_jobs ?q) = set (waiting_jobs p) - {job}" using wset dist by (auto simp: image_iff)
    ultimately show ?thesis by (simp add: books_ok_def)
  qed
  then show "books_ok {} (abort_job p job)" "set (waiting_jobs (abort_job p job)) = set (waiting_jobs p) - {job}" by blast+
qed

lemma abort_jobs_books:
  assumes "books_ok {} p" "set jobs \<subseteq> set js" "set (waiting_jobs p) \<subseteq> set js" "distinct (map job_id js)"
    "\<forall>j \<in> set js. job_id j < length (pool_jobs p)"
  shows "books_ok {} (foldl abort_job p jobs) \<and> set (waiting_jobs (foldl abort_job p jobs)) = set (waiting_jobs p) - set jobs"
  using assms(1-3,5)
proof (induction jobs arbitrary: p)
  case (Cons job jobs)
  have job: "job \<in> set js" using Cons.prems(2) by simp
  have same: "job \<in> set (waiting_jobs p)" if c: "job_id job \<in> job_ids (waiting_jobs p)"
  proof -
    obtain j where j: "j \<in> set (waiting_jobs p)" "job_id j = job_id job" using c by (auto simp: job_ids_def)
    then have "j = job" using assms(4) job Cons.prems(3) by (meson distinct_map inj_onD subsetD)
    then show ?thesis using j(1) by simp
  qed
  have step: "books_ok {} (abort_job p job)" "set (waiting_jobs (abort_job p job)) = set (waiting_jobs p) - {job}"
    using abort_job_books[OF Cons.prems(1) same] Cons.prems(4) job by blast+
  have "length (pool_jobs (abort_job p job)) = length (pool_jobs p)" by (simp add: abort_job_def)
  then have "books_ok {} (foldl abort_job (abort_job p job) jobs) \<and>
      set (waiting_jobs (foldl abort_job (abort_job p job) jobs)) = set (waiting_jobs (abort_job p job)) - set jobs"
    using step Cons.prems by (intro Cons.IH) auto
  then show ?case using step(2) by auto
qed simp

section \<open>No free worker waits\<close>

interpretation flags: dispatch_invariant
  "\<lambda>d p. books_ok d p \<and> pool_loaded p = loaded \<and> pool_stopping p = stopping" for loaded stopping
proof unfold_locales
  show "books_ok d (start_job i g job jobs p) \<and> pool_loaded (start_job i g job jobs p) = loaded \<and>
      pool_stopping (start_job i g job jobs p) = stopping"
    if "books_ok d p \<and> pool_loaded p = loaded \<and> pool_stopping p = stopping" "pool_queues p = (g, job # jobs) # qs" "i < 2"
      "slot_job (pool_slots p ! i) = None" "pool_active p + int (job_positions job) \<le> int short_batch_positions" for d p g job jobs qs i
    using that start_job_books[OF _ that(2-5)] by (simp add: start_job_def Let_def)
  show "(books_ok (insert (job_id job) d) (release_slot i job p) \<and> pool_loaded (release_slot i job p) = loaded \<and>
      pool_stopping (release_slot i job p) = stopping) \<and> job_id job \<notin> d"
    if "books_ok d p \<and> pool_loaded p = loaded \<and> pool_stopping p = stopping" "i < 2" "slot_job (pool_slots p ! i) = Some job"
    for d p i job
    using that release_slot_books[OF _ that(2,3)] by (simp add: release_slot_def)
  show "books_ok d (settle job ok p) \<and> pool_loaded (settle job ok p) = loaded \<and> pool_stopping (settle job ok p) = stopping"
    if "books_ok (insert (job_id job) d) p \<and> pool_loaded p = loaded \<and> pool_stopping p = stopping" "job_id job \<notin> d" for d p job ok
    using that settle_books[of job d p ok] by (simp add: settle_def)
qed (rule books_slots, rule conjunct1)

fun no_room :: "int \<Rightarrow> (nat option \<times> pool_job list) list \<Rightarrow> bool" where
  "no_room active ((g, job # jobs) # qs) \<longleftrightarrow> active + int (job_positions job) > int short_batch_positions"
| "no_room active _ \<longleftrightarrow> True"

definition head_blocked :: "pool \<Rightarrow> bool" where
  "head_blocked p \<longleftrightarrow> no_room (pool_active p) (pool_queues p)"

lemma head_blocked_iff:
  "head_blocked p \<longleftrightarrow> \<not> (\<exists>g job jobs qs. pool_queues p = (g, job # jobs) # qs \<and>
     \<not> pool_active p + int (job_positions job) > int short_batch_positions)"
  unfolding head_blocked_def by (cases "(pool_active p, pool_queues p)" rule: no_room.cases) auto

definition slot_free :: "pool \<Rightarrow> nat \<Rightarrow> bool" where
  "slot_free p i \<longleftrightarrow> slot_job (pool_slots p ! i) = None \<and> slot_ready (pool_slots p ! i)"

definition served :: "pool \<Rightarrow> bool" where
  "served p \<longleftrightarrow> (\<forall>i < 2. slot_free p i \<longrightarrow> head_blocked p)"

definition open_ok :: "pool \<Rightarrow> bool" where
  "open_ok p \<longleftrightarrow> (pool_queues p \<noteq> [] \<longrightarrow> pool_loaded p \<and> \<not> pool_stopping p)"

lemma settle_served [simp]:
  "slot_free (settle job ok p) i = slot_free p i" "head_blocked (settle job ok p) = head_blocked p"
  by (simp_all add: slot_free_def head_blocked_def settle_def)

lemma pump_slots_served:
  assumes "books_ok d p" "set is \<subseteq> {..<2}" "pool_loaded p" "\<not> pool_stopping p"
    "\<And>j. j < 2 \<Longrightarrow> j \<notin> set is \<Longrightarrow> slot_free p j \<Longrightarrow> head_blocked p"
  shows "served (pump_slots throws is p)"
  using assms
proof (induction throws "is" p arbitrary: d rule: pump_slots.induct)
  case (1 throws p)
  then show ?case by (simp add: pump_slots.simps served_def)
next
  case (2 throws i "is" p)
  have i: "i < 2" "set is \<subseteq> {..<2}" using "2.prems"(2) by simp_all
  show ?case
  proof (cases "slot_job (pool_slots p ! i) \<noteq> None \<or> \<not> slot_ready (pool_slots p ! i)")
    case True
    have "served (pump_slots throws is p)"
    proof (rule "2.IH"(1)[OF refl True "2.prems"(1) i(2) "2.prems"(3,4)])
      fix j assume j: "j < 2" "j \<notin> set is" "slot_free p j"
      then have "j \<noteq> i" using True by (auto simp: slot_free_def)
      then show "head_blocked p" using "2.prems"(5)[of j] j by simp
    qed
    then show ?thesis using True by (simp add: pump_slots_Cons)
  next
    case idle: False
    show ?thesis
    proof (cases "\<exists>g job jobs qs. pool_queues p = (g, job # jobs) # qs \<and>
        \<not> pool_active p + int (job_positions job) > int short_batch_positions")
      case False
      then have "head_blocked p" unfolding head_blocked_iff .
      moreover have "pump_slots throws (i # is) p = p" using False idle by (auto simp: pump_slots_Cons split: list.splits)
      ultimately show ?thesis by (simp add: served_def)
    next
      case True
      then obtain g job jobs qs where shape: "pool_queues p = (g, job # jobs) # qs"
        and fits: "\<not> pool_active p + int (job_positions job) > int short_batch_positions" by blast
      let ?s = "start_job i g job jobs p"
      have started: "books_ok d ?s" using start_job_books[OF "2.prems"(1) shape i(1)] idle fits by simp
      have flags: "pool_loaded ?s" "\<not> pool_stopping ?s" using "2.prems"(3,4) by (simp_all add: start_job_def Let_def)
      have len: "i < length (pool_slots p)" using books_slots[OF "2.prems"(1)] i(1) by simp
      show ?thesis
      proof (cases "throws i job")
        case False
        have "served (pump_slots throws is ?s)"
        proof (rule "2.IH"(4)[OF refl idle shape refl refl fits refl False started i(2) flags])
          fix j assume j: "j < 2" "j \<notin> set is" "slot_free ?s j"
          have "j \<noteq> i" using j(3) len by (auto simp: slot_free_def start_job_def Let_def)
          then have "slot_free p j" using j(3) by (simp add: slot_free_def start_job_def Let_def)
          then have "head_blocked p" using "2.prems"(5)[of j] j \<open>j \<noteq> i\<close> by simp
          then show "head_blocked ?s" using shape fits by (simp add: head_blocked_def)
        qed
        then show ?thesis using idle shape fits False by (simp add: pump_slots_Cons)
      next
        case True
        let ?q = "release_slot i job ?s"
        have "slot_job (pool_slots ?s ! i) = Some job" using len by (simp add: start_job_def Let_def)
        from release_slot_books[OF started i(1) this] have free: "books_ok (insert (job_id job) d) ?q" "job_id job \<notin> d" by simp_all
        have flags': "pool_loaded ?q" "\<not> pool_stopping ?q" using flags by (simp_all add: release_slot_def)
        have inner: "served (pump throws ?q)"
          using "2.IH"(2)[OF refl idle shape refl refl fits refl True refl _ free(1)] flags'
          by (auto simp: pump_def less_Suc_eq numeral_2_eq_2)
        have "books_ok (insert (job_id job) d) (pump throws ?q) \<and> pool_loaded (pump throws ?q) = True \<and>
            pool_stopping (pump throws ?q) = False"
          by (rule flags.keeps_pump) (use free flags' in simp)
        then have over: "books_ok d (finish_job throws i job False ?s)" "pool_loaded (finish_job throws i job False ?s)"
            "\<not> pool_stopping (finish_job throws i job False ?s)"
          using settle_books[OF _ free(2)] by (simp_all add: finish_job_def settle_def)
        have "served (pump_slots throws is (finish_job throws i job False ?s))"
        proof (rule "2.IH"(3)[OF refl idle shape refl refl fits refl True refl, unfolded pump_def[symmetric] finish_job_def[symmetric],
              OF over(1) i(2) over(2,3)])
          show "head_blocked (finish_job throws i job False ?s)" if "j < 2" "slot_free (finish_job throws i job False ?s) j" for j
            using inner that by (simp add: finish_job_def served_def)
        qed
        then show ?thesis using idle shape fits True by (simp add: pump_slots_Cons)
      qed
    qed
  qed
qed

lemma pump_served:
  assumes "books_ok d p" "open_ok p"
  shows "served (pump throws p)" "open_ok (pump throws p)"
proof -
  show "served (pump throws p)"
  proof (cases "pool_loaded p \<and> \<not> pool_stopping p")
    case True
    then have "served (pump_slots throws [0, 1] p)" by (intro pump_slots_served[OF assms(1)]) (auto simp: less_Suc_eq numeral_2_eq_2)
    then show ?thesis using True by (simp add: pump_def)
  next
    case False
    then have "pool_queues p = []" using assms(2) by (auto simp: open_ok_def)
    moreover have "pump throws p = p" using False by (auto simp: pump_def)
    ultimately show ?thesis by (simp add: served_def head_blocked_def)
  qed
  have "books_ok d (pump throws p) \<and> pool_loaded (pump throws p) = pool_loaded p \<and> pool_stopping (pump throws p) = pool_stopping p"
    by (rule flags.keeps_pump) (simp add: assms(1))
  moreover have "pump throws p = p" if "\<not> (pool_loaded p \<and> \<not> pool_stopping p)" using that by (auto simp: pump_def)
  ultimately show "open_ok (pump throws p)" using assms(2) by (metis open_ok_def)
qed

section \<open>The invariant of the pool\<close>

definition pool_inv :: "pool \<Rightarrow> bool" where
  "pool_inv p \<longleftrightarrow> books_ok {} p \<and> open_ok p \<and> (pool_microtasks p = 0 \<longrightarrow> served p)"

lemma new_pool_inv: "pool_inv new_pool"
  by (auto simp: pool_inv_def new_pool_def books_ok_def jobs_ok_def counts_ok_def states_ok_def queues_ok_def waiting_jobs_def
      running_jobs_def open_ok_def served_def head_blocked_def List.map_filter_def short_batch_positions_def)

lemma pump_inv: "books_ok {} p \<Longrightarrow> open_ok p \<Longrightarrow> pool_inv (pump throws p)"
  unfolding pool_inv_def using books.keeps_pump pump_served by blast

text \<open>Fields the books do not look at.\<close>

lemma books_flags [simp]:
  "books_ok d (p\<lparr>pool_microtasks := n\<rparr>) = books_ok d p" "books_ok d (p\<lparr>pool_aborted := gs\<rparr>) = books_ok d p"
  "books_ok d (p\<lparr>pool_stopping := b\<rparr>) = books_ok d p" "books_ok d (p\<lparr>pool_loaded := b\<rparr>) = books_ok d p"
  "books_ok d (p\<lparr>pool_failed := b\<rparr>) = books_ok d p" "books_ok d (p\<lparr>pool_load_phase := l\<rparr>) = books_ok d p"
  by (simp_all add: books_ok_def jobs_ok_def counts_ok_def states_ok_def waiting_jobs_def running_jobs_def state_of_id_def)

lemma enqueue_inv:
  assumes "pool_inv p"
  shows "pool_inv (snd (enqueue_job throws positions signal p))"
proof -
  have "pool_inv (pump throws (add_job \<lparr>job_id = length (pool_jobs p), job_positions = positions, job_group = signal\<rparr> p))"
    if "pool_is_ready p" "pool_outstanding p < 4" "1 \<le> positions" "positions \<le> short_batch_positions"
  proof (rule pump_inv)
    show "books_ok {} (add_job \<lparr>job_id = length (pool_jobs p), job_positions = positions, job_group = signal\<rparr> p)"
      by (rule add_job_books) (use assms that in \<open>simp_all add: pool_inv_def\<close>)
    show "open_ok (add_job \<lparr>job_id = length (pool_jobs p), job_positions = positions, job_group = signal\<rparr> p)"
      using that(1) by (simp add: open_ok_def add_job_def pool_is_ready_def)
  qed
  then show ?thesis using assms by (auto simp: enqueue_job_def Let_def not_le not_less)
qed

lemma finish_inv:
  assumes "pool_inv p" "i < 2" "slot_job (pool_slots p ! i) = Some job"
  shows "pool_inv (finish_job throws i job ok p)"
proof -
  have books: "books_ok {} p" "open_ok p" using assms(1) by (simp_all add: pool_inv_def)
  have free: "books_ok {job_id job} (release_slot i job p)" using release_slot_books(1)[OF books(1) assms(2,3)] by simp
  have "open_ok (release_slot i job p)" using books(2) by (simp add: open_ok_def release_slot_def)
  from pump_served[OF free this] have "served (finish_job throws i job ok p)" "open_ok (finish_job throws i job ok p)"
    by (simp_all add: finish_job_def served_def) (simp add: open_ok_def settle_def)
  then show ?thesis using books.keeps_finish[OF books(1) assms(2,3)] by (simp add: pool_inv_def)
qed

lemma abort_jobs_same: "foldl abort_job p jobs = p \<or> pool_microtasks p < pool_microtasks (foldl abort_job p jobs)"
proof (induction jobs arbitrary: p)
  case (Cons job jobs)
  have "abort_job p job = p \<or> pool_microtasks (abort_job p job) = Suc (pool_microtasks p)" by (simp add: abort_job_def)
  then show ?case using Cons[of "abort_job p job"] by auto
qed simp

lemma abort_jobs_flags:
  "pool_loaded (foldl abort_job p jobs) = pool_loaded p" "pool_stopping (foldl abort_job p jobs) = pool_stopping p"
  by (induction jobs arbitrary: p) (simp_all add: abort_job_def)

lemma waiting_empty: "jobs_ok p \<Longrightarrow> set (waiting_jobs p) = {} \<Longrightarrow> pool_queues p = []"
  by (cases "pool_queues p") (auto simp: jobs_ok_def queues_ok_def waiting_jobs_def)

lemma abort_waiting_books:
  assumes "books_ok {} p" "set jobs \<subseteq> set (waiting_jobs p)"
  shows "books_ok {} (foldl abort_job p jobs)" "set (waiting_jobs (foldl abort_job p jobs)) = set (waiting_jobs p) - set jobs"
proof -
  have "distinct (map job_id (waiting_jobs p))" "\<forall>j \<in> set (waiting_jobs p). job_id j < length (pool_jobs p)"
    using assms(1) by (simp_all add: books_ok_def jobs_ok_def)
  from abort_jobs_books[OF assms order_refl this]
  show "books_ok {} (foldl abort_job p jobs)" "set (waiting_jobs (foldl abort_job p jobs)) = set (waiting_jobs p) - set jobs"
    by (rule conjunct1, rule conjunct2)
qed

lemma queue_empty_of_waiting:
  assumes "books_ok {} q" "set (waiting_jobs q) \<subseteq> set (waiting_jobs p)" "pool_queues p = []"
  shows "pool_queues q = []"
  using waiting_empty[of q] assms by (simp add: books_ok_def waiting_jobs_def)

lemma abort_group_inv:
  assumes "pool_inv p"
  shows "pool_inv (abort_group g p)"
proof -
  let ?p = "p\<lparr>pool_aborted := g # pool_aborted p\<rparr>"
  define jobs where "jobs = (case map_of (pool_queues ?p) (Some g) of None \<Rightarrow> [] | Some queue \<Rightarrow> queue)"
  have inv: "pool_inv ?p"
    using assms by (simp add: pool_inv_def open_ok_def served_def slot_free_def head_blocked_def)
  have sub: "set jobs \<subseteq> set (waiting_jobs ?p)"
    by (cases "map_of (pool_queues p) (Some g)") (force simp: jobs_def waiting_jobs_def dest: map_of_SomeD)+
  have books: "books_ok {} (foldl abort_job ?p jobs)" "set (waiting_jobs (foldl abort_job ?p jobs)) \<subseteq> set (waiting_jobs ?p)"
    using abort_waiting_books[OF _ sub] inv by (auto simp: pool_inv_def)
  have "open_ok (foldl abort_job ?p jobs)"
    using inv queue_empty_of_waiting[OF books] by (auto simp: pool_inv_def open_ok_def abort_jobs_flags)
  moreover have "pool_microtasks (foldl abort_job ?p jobs) = 0 \<longrightarrow> served (foldl abort_job ?p jobs)"
    using abort_jobs_same[of ?p jobs] inv by (auto simp: pool_inv_def)
  ultimately show ?thesis using books(1) by (simp add: pool_inv_def abort_group_def Let_def jobs_def)
qed

lemma unload_pool_inv:
  assumes "books_ok {} p"
  shows "pool_inv (unload_pool p)" "pool_queues (unload_pool p) = []" "pool_stopping (unload_pool p)"
proof -
  let ?p = "p\<lparr>pool_stopping := True\<rparr>"
  have unload: "unload_pool p = foldl abort_job ?p (waiting_jobs ?p)" by (simp add: unload_pool_def waiting_jobs_def)
  have books: "books_ok {} (unload_pool p)" "set (waiting_jobs (unload_pool p)) = {}"
    using abort_waiting_books[of ?p "waiting_jobs ?p"] assms by (simp_all add: unload)
  then show queues: "pool_queues (unload_pool p) = []" by (intro waiting_empty) (simp_all add: books_ok_def)
  then show "pool_inv (unload_pool p)" using books(1) by (simp add: pool_inv_def open_ok_def served_def head_blocked_def)
  show "pool_stopping (unload_pool p)" by (simp add: unload abort_jobs_flags)
qed

lemma set_ready_books: "books_ok d p \<Longrightarrow> i < 2 \<Longrightarrow> books_ok d (set_ready i b p)"
proof -
  assume p: "books_ok d p" "i < 2"
  then obtain x y where "pool_slots p = [x, y]" using two_slots books_slots by blast
  then have "running_jobs (set_ready i b p) = running_jobs p" "length (pool_slots (set_ready i b p)) = 2"
    using less_two[OF p(2)] by (auto simp: set_ready_def running_jobs_def List.map_filter_def)
  moreover have "waiting_jobs (set_ready i b p) = waiting_jobs p" by (simp add: set_ready_def waiting_jobs_def)
  ultimately show ?thesis using p(1)
    by (simp add: books_ok_def jobs_ok_def counts_ok_def states_ok_def state_of_id_def) (simp add: set_ready_def)
qed

lemma pool_step_inv:
  assumes "pool_step throws p q" "pool_inv p"
  shows "pool_inv q"
  using assms(1)
proof cases
  have books: "books_ok {} p" "open_ok p" using assms(2) by (simp_all add: pool_inv_def)
  note two = books_slots[OF books(1)]
  have flags: "pool_inv (p\<lparr>pool_load_phase := l\<rparr>)" for l
    using assms(2) by (simp add: pool_inv_def open_ok_def served_def slot_free_def head_blocked_def)
  have failed: "pool_inv (load_failed p)" unfolding load_failed_def by (rule unload_pool_inv) (simp add: books(1))
  {
    case (infer ids signal)
    then show ?thesis using assms(2) enqueue_inv by (simp add: pool_infer_def)
  next
    case (infer_batch rows signal)
    then show ?thesis using assms(2) enqueue_inv by (simp add: pool_infer_batch_def split: sum.splits)
  next
    case (answered i job ok)
    then show ?thesis using finish_inv[OF assms(2)] two by simp
  next
    case (aborted g)
    then show ?thesis using abort_group_inv[OF assms(2)] by simp
  next
    case microtask
    then show ?thesis using books by (auto intro!: pump_inv simp: open_ok_def)
  next
    case (becomes_ready i)
    have "open_ok (set_ready i True p)" using books(2) by (simp add: open_ok_def set_ready_def)
    then show ?thesis using set_ready_books[OF books(1), of i True] two becomes_ready by (simp add: pump_inv)
  next
    case (stops_being_ready i)
    have "slot_free p j" if "slot_free q j" "j < 2" for j
      using that stops_being_ready two by (cases "i = j") (auto simp: slot_free_def set_ready_def)
    moreover have "head_blocked q = head_blocked p" "open_ok q = open_ok p" "pool_microtasks q = pool_microtasks p"
      by (simp_all add: stops_being_ready(1) set_ready_def head_blocked_def open_ok_def)
    ultimately show ?thesis
      using assms(2) set_ready_books[OF books(1), of i False] stops_being_ready two by (auto simp: pool_inv_def served_def)
  next
    case (load_called same_path)
    then show ?thesis using flags assms(2) by (simp add: load_pool_def)
  next
    case load_answered
    have "pool_inv (p\<lparr>pool_loaded := True, pool_load_phase := Load_over\<rparr>)" if "\<not> pool_stopping p"
      using assms(2) that by (simp add: pool_inv_def open_ok_def served_def slot_free_def head_blocked_def)
    then show ?thesis using load_answered flags failed assms(2) by (auto simp: worker_loaded_def split: pool_load.splits)
  next
    case load_rejected
    then show ?thesis using failed assms(2) by (simp add: worker_failed_def split: pool_load.splits)
  next
    case unload_called
    then show ?thesis using unload_pool_inv[OF books(1)] by simp
  }
qed

section \<open>Turns\<close>

text \<open>A job at the head of its queue, with a bound on the jobs started before it: what was started so far and the
  queues ahead of its own.\<close>

definition ahead_at_most :: "nat \<Rightarrow> pool_job \<Rightarrow> pool \<Rightarrow> bool" where
  "ahead_at_most c j p \<longleftrightarrow>
     (\<exists>ahead js behind. pool_queues p = ahead @ (job_group j, j # js) # behind \<and>
        length (pool_started p) + length ahead \<le> c)"

definition waits_its_turn :: "nat \<Rightarrow> pool_job \<Rightarrow> pool \<Rightarrow> bool" where
  "waits_its_turn c j p \<longleftrightarrow>
     job_id j < length (pool_jobs p) \<and> (pool_jobs p ! job_id j = Job_queued \<longrightarrow> ahead_at_most c j p)"

lemma books_keys: "books_ok d p \<Longrightarrow> distinct (map fst (pool_queues p))"
  by (simp add: books_ok_def jobs_ok_def queues_ok_def)

lemma running_state:
  assumes "books_ok d p" "i < 2" "slot_job (pool_slots p ! i) = Some job"
  shows "pool_jobs p ! job_id job = Job_running" "job_id job < length (pool_jobs p)"
proof -
  obtain x y where "pool_slots p = [x, y]" using two_slots books_slots[OF assms(1)] by blast
  then have job: "job \<in> set (running_jobs p)" using less_two[OF assms(2)] assms(3)
    by (auto simp: running_jobs_def List.map_filter_def)
  then show "job_id job < length (pool_jobs p)" using assms(1) by (simp add: books_ok_def jobs_ok_def)
  moreover have "job_id job \<notin> job_ids (waiting_jobs p)" using assms(1) job by (auto simp: books_ok_def jobs_ok_def job_ids_def)
  ultimately show "pool_jobs p ! job_id job = Job_running"
    using assms(1) job by (auto simp: books_ok_def states_ok_def state_of_id_def job_ids_def)
qed

lemma unchanged_entry: "xs[i := y] ! k = z \<Longrightarrow> k < length xs \<Longrightarrow> z \<noteq> y \<Longrightarrow> xs ! k = z \<and> k \<noteq> i"
  by (cases "i = k") auto

interpretation turns: dispatch_invariant "\<lambda>d p. books_ok d p \<and> waits_its_turn c j p" for c j
proof unfold_locales
  show "books_ok d (start_job i g job jobs p) \<and> waits_its_turn c j (start_job i g job jobs p)"
    if inv: "books_ok d p \<and> waits_its_turn c j p" and shape: "pool_queues p = (g, job # jobs) # qs" and "i < 2"
      and "slot_job (pool_slots p ! i) = None" "pool_active p + int (job_positions job) \<le> int short_batch_positions"
    for d p g job jobs qs i
  proof -
    let ?q = "start_job i g job jobs p"
    have jobs: "pool_jobs ?q = (pool_jobs p)[job_id job := Job_running]" and started: "pool_started ?q = pool_started p @ [job_id job]"
      by (simp_all add: start_job_def Let_def)
    have g: "g \<notin> fst ` set qs" using books_keys[of d p] inv shape by simp
    have queues: "pool_queues ?q = qs @ (if jobs = [] then [] else [(g, jobs)])"
      unfolding start_job_queues by (simp add: shape delete_other[OF g])
    have "ahead_at_most c j ?q" if still: "pool_jobs ?q ! job_id j = Job_queued"
    proof -
      have range: "job_id j < length (pool_jobs p)" using inv by (simp add: waits_its_turn_def)
      then have other: "job_id j \<noteq> job_id job" and "pool_jobs p ! job_id j = Job_queued"
        using unchanged_entry[OF still[unfolded jobs]] by simp_all
      then obtain ahead js behind where at: "pool_queues p = ahead @ (job_group j, j # js) # behind"
          "length (pool_started p) + length ahead \<le> c"
        using inv by (auto simp: waits_its_turn_def ahead_at_most_def)
      then obtain rest where "ahead = (g, job # jobs) # rest" using shape other by (cases ahead) auto
      then show ?thesis using at shape unfolding ahead_at_most_def queues started
        by (intro exI[of _ rest] exI[of _ js] exI[of _ "behind @ (if jobs = [] then [] else [(g, jobs)])"]) simp
    qed
    moreover have "job_id j < length (pool_jobs ?q)" using inv by (simp add: waits_its_turn_def jobs)
    ultimately show ?thesis using start_job_books[OF _ that(2-5)] inv by (simp add: waits_its_turn_def)
  qed
  show "(books_ok (insert (job_id job) d) (release_slot i job p) \<and> waits_its_turn c j (release_slot i job p)) \<and> job_id job \<notin> d"
    if "books_ok d p \<and> waits_its_turn c j p" "i < 2" "slot_job (pool_slots p ! i) = Some job" for d p i job
  proof -
    have "pool_jobs p ! job_id job = Job_running" using running_state that by blast
    moreover have "pool_jobs p ! job_id j = Job_queued"
      if "(pool_jobs p)[job_id job := Job_finished] ! job_id j = Job_queued" "job_id j < length (pool_jobs p)"
      using unchanged_entry[OF that] by simp
    ultimately have "waits_its_turn c j (release_slot i job p)"
      using that(1) by (simp add: waits_its_turn_def ahead_at_most_def release_slot_def)
    then show ?thesis using release_slot_books[OF _ that(2,3)] that(1) by blast
  qed
  show "books_ok d (settle job ok p) \<and> waits_its_turn c j (settle job ok p)"
    if "books_ok (insert (job_id job) d) p \<and> waits_its_turn c j p" "job_id job \<notin> d" for d p job ok
    using that settle_books[of job d p ok] by (simp add: waits_its_turn_def ahead_at_most_def settle_def)
  show "length (pool_slots p) = 2" if "books_ok d p \<and> waits_its_turn c j p" for d p
    using that books_slots by blast
qed

lemma update_split:
  "g \<notin> fst ` set ahead \<Longrightarrow> AList.update g q (ahead @ (g, q') # behind) = ahead @ (g, q) # behind"
  by (induction ahead) auto

lemma update_elsewhere:
  "h \<noteq> g \<Longrightarrow> \<exists>ahead' behind'. AList.update g q (ahead @ (h, x) # behind) = ahead' @ (h, x) # behind' \<and> length ahead' = length ahead"
proof (induction ahead)
  case Nil
  then show ?case by (intro exI[of _ "[]"] exI[of _ "AList.update g q behind"]) simp
next
  case (Cons y ahead)
  then obtain ahead' behind' where "AList.update g q (ahead @ (h, x) # behind) = ahead' @ (h, x) # behind'"
      "length ahead' = length ahead" by blast
  then show ?case
    by (cases y; cases "fst y = g") (intro exI[of _ "(g, q) # ahead"] exI[of _ behind], simp,
        intro exI[of _ "y # ahead'"] exI[of _ behind'], simp)
qed

lemma delete_elsewhere:
  "h \<noteq> g \<Longrightarrow> \<exists>ahead' behind'. AList.delete g (ahead @ (h, x) # behind) = ahead' @ (h, x) # behind' \<and> length ahead' \<le> length ahead"
  by (intro exI[of _ "AList.delete g ahead"] exI[of _ "AList.delete g behind"]) (simp add: AList.delete_eq)

lemma add_job_turn:
  assumes "books_ok d p" "waits_its_turn c j p" "job_id job = length (pool_jobs p)"
  shows "waits_its_turn c j (add_job job p)"
proof -
  let ?q = "add_job job p"
  have range: "job_id j < length (pool_jobs p)" using assms(2) by (simp add: waits_its_turn_def)
  have "ahead_at_most c j ?q" if "pool_jobs ?q ! job_id j = Job_queued"
  proof -
    have "pool_jobs p ! job_id j = Job_queued" using that range by (simp add: add_job_def Let_def nth_append)
    then obtain ahead js behind where at: "pool_queues p = ahead @ (job_group j, j # js) # behind"
        "length (pool_started p) + length ahead \<le> c"
      using assms(2) by (auto simp: waits_its_turn_def ahead_at_most_def)
    have fresh: "job_group j \<notin> fst ` set ahead" using books_keys[OF assms(1)] by (simp add: at(1))
    show ?thesis
    proof (cases "job_group job = job_group j")
      case True
      then have "map_of (pool_queues p) (job_group job) = Some (j # js)"
        using fresh by (simp add: at(1) map_add_def map_of_eq_None_iff[THEN iffD2])
      then have "pool_queues ?q = ahead @ (job_group j, (j # js) @ [job]) # behind"
        using update_split[OF fresh] True by (simp add: add_job_def at(1))
      then show ?thesis using at(2) unfolding ahead_at_most_def
        by (intro exI[of _ ahead] exI[of _ "js @ [job]"] exI[of _ behind]) (simp add: add_job_def Let_def)
    next
      case False
      then show ?thesis
        using update_elsewhere[of "job_group j" "job_group job" _ ahead "j # js" behind] at unfolding ahead_at_most_def add_job_def Let_def
        by simp metis
    qed
  qed
  then show ?thesis using range by (simp add: waits_its_turn_def add_job_def Let_def)
qed

lemma abort_job_turn:
  assumes "books_ok d p" "waits_its_turn c j p"
  shows "waits_its_turn c j (abort_job p job)"
proof (cases "pool_jobs p ! job_id job = Job_queued")
  case True
  let ?q = "abort_job p job"
  have range: "job_id j < length (pool_jobs p)" using assms(2) by (simp add: waits_its_turn_def)
  have jobs: "pool_jobs ?q = (pool_jobs p)[job_id job := Job_finished]" "pool_started ?q = pool_started p"
    using True by (simp_all add: abort_job_def)
  have "ahead_at_most c j ?q" if "pool_jobs ?q ! job_id j = Job_queued"
  proof -
    have still: "pool_jobs p ! job_id j = Job_queued" "job_id job \<noteq> job_id j"
      using unchanged_entry[OF that[unfolded jobs(1)] range] by simp_all
    then obtain ahead js behind where at: "pool_queues p = ahead @ (job_group j, j # js) # behind"
        "length (pool_started p) + length ahead \<le> c"
      using assms(2) by (auto simp: waits_its_turn_def ahead_at_most_def)
    have fresh: "job_group j \<notin> fst ` set ahead" using books_keys[OF assms(1)] by (simp add: at(1))
    show ?thesis
    proof (cases "job_group job = job_group j")
      case same: True
      then have "map_of (pool_queues p) (job_group job) = Some (j # js)"
        using fresh by (simp add: at(1) map_add_def map_of_eq_None_iff[THEN iffD2])
      moreover have "remove1 job (j # js) = j # remove1 job js" using still(2) by auto
      ultimately have "pool_queues ?q = ahead @ (job_group j, j # remove1 job js) # behind"
        using update_split[OF fresh] same True by (simp add: abort_job_def at(1))
      then show ?thesis using at(2) unfolding ahead_at_most_def jobs(2) by blast
    next
      case False
      show ?thesis
      proof (cases "map_of (pool_queues p) (job_group job)")
        case None
        then have "pool_queues ?q = pool_queues p" by (simp add: abort_job_def None)
        then show ?thesis using at unfolding ahead_at_most_def jobs(2)
          by (intro exI[of _ ahead] exI[of _ js] exI[of _ behind]) simp
      next
        case (Some q)
        note other = not_sym[OF False]
        have "\<exists>ahead' behind'. pool_queues ?q = ahead' @ (job_group j, j # js) # behind' \<and> length ahead' \<le> length ahead"
        proof (cases "remove1 job q = []")
          case empty: True
          have "pool_queues ?q = AList.delete (job_group job) (pool_queues p)" using True empty by (simp add: abort_job_def Some)
          then show ?thesis unfolding at(1) using delete_elsewhere[OF other] by simp
        next
          case left: False
          have "pool_queues ?q = AList.update (job_group job) (remove1 job q) (pool_queues p)"
            using True left by (simp add: abort_job_def Some)
          then show ?thesis unfolding at(1)
            using update_elsewhere[OF other, of "remove1 job q" ahead "j # js" behind] by (metis order_refl)
        qed
        then obtain ahead' behind' where "pool_queues ?q = ahead' @ (job_group j, j # js) # behind'" "length ahead' \<le> length ahead"
          by blast
        then show ?thesis using at(2) unfolding ahead_at_most_def jobs(2)
          by (intro exI[of _ ahead'] exI[of _ js] exI[of _ behind']) simp
      qed
    qed
  qed
  then show ?thesis using range by (simp add: waits_its_turn_def jobs(1))
qed (use assms(2) in \<open>simp add: abort_job_def\<close>)

lemma abort_jobs_turn:
  assumes "books_ok {} p" "set jobs \<subseteq> set js" "set (waiting_jobs p) \<subseteq> set js" "distinct (map job_id js)"
    "\<forall>j \<in> set js. job_id j < length (pool_jobs p)" "waits_its_turn c j p"
  shows "waits_its_turn c j (foldl abort_job p jobs)"
  using assms(1-3,5,6)
proof (induction jobs rule: rev_induct)
  case (snoc job jobs)
  have "books_ok {} (foldl abort_job p jobs)" using abort_jobs_books[of p jobs js] snoc.prems assms(4) by simp
  then show ?case using snoc abort_job_turn by simp
qed simp

lemma pool_step_turn:
  assumes "pool_step throws p q" "pool_inv p" "waits_its_turn c j p"
  shows "waits_its_turn c j q"
  using assms(1)
proof cases
  have books: "books_ok {} p" using assms(2) by (simp add: pool_inv_def)
  note two = books_slots[OF books]
  have js: "distinct (map job_id (waiting_jobs p))" "\<forall>j \<in> set (waiting_jobs p). job_id j < length (pool_jobs p)"
    using books by (simp_all add: books_ok_def jobs_ok_def)
  have aborts: "waits_its_turn c j (foldl abort_job p' jobs)"
    if "books_ok {} p'" "waits_its_turn c j p'" "set jobs \<subseteq> set (waiting_jobs p')" for p' jobs
    by (rule abort_jobs_turn[of p' jobs "waiting_jobs p'"])
      (use that in \<open>simp_all add: books_ok_def jobs_ok_def\<close>)
  have unload: "waits_its_turn c j (unload_pool p')" if "books_ok {} p'" "waits_its_turn c j p'" for p'
  proof -
    have "waits_its_turn c j (p'\<lparr>pool_stopping := True\<rparr>)" using that(2) by (simp add: waits_its_turn_def ahead_at_most_def)
    then show ?thesis unfolding unload_pool_def using that(1) by (intro aborts) (simp_all add: waiting_jobs_def)
  qed
  have enqueue: "waits_its_turn c j (snd (enqueue_job throws positions signal p))" for positions signal
  proof -
    let ?job = "\<lparr>job_id = length (pool_jobs p), job_positions = positions, job_group = signal\<rparr>"
    have "books_ok {} (pump throws (add_job ?job p)) \<and> waits_its_turn c j (pump throws (add_job ?job p))"
      if "pool_outstanding p < 4" "1 \<le> positions" "positions \<le> short_batch_positions"
      using add_job_books[OF books that(1), of ?job] that add_job_turn[OF books assms(3), of ?job]
      by (intro turns.keeps_pump) simp
    then show ?thesis using assms(3) by (auto simp: enqueue_job_def Let_def not_le not_less)
  qed
  have failed: "waits_its_turn c j (load_failed p)"
    unfolding load_failed_def using books assms(3) by (intro unload) (simp_all add: waits_its_turn_def ahead_at_most_def)
  {
    case (infer ids signal)
    then show ?thesis using assms(3) enqueue by (simp add: pool_infer_def)
  next
    case (infer_batch rows signal)
    then show ?thesis using assms(3) enqueue by (simp add: pool_infer_batch_def split: sum.splits)
  next
    case (answered i job ok)
    then show ?thesis using turns.keeps_finish[of "{}" p c j i job throws ok] books assms(3) two by simp
  next
    case (aborted g)
    have "set (case map_of (pool_queues p) (Some g) of None \<Rightarrow> [] | Some queue \<Rightarrow> queue) \<subseteq> set (waiting_jobs p)"
      by (cases "map_of (pool_queues p) (Some g)") (force simp: waiting_jobs_def dest: map_of_SomeD)+
    moreover have "waits_its_turn c j (p\<lparr>pool_aborted := g # pool_aborted p\<rparr>)"
      using assms(3) by (simp add: waits_its_turn_def ahead_at_most_def)
    ultimately show ?thesis using aborts[of "p\<lparr>pool_aborted := g # pool_aborted p\<rparr>"] books
      by (simp add: aborted abort_group_def Let_def waiting_jobs_def)
  next
    case microtask
    then show ?thesis
      using turns.keeps_pump[of "{}" "p\<lparr>pool_microtasks := pool_microtasks p - 1\<rparr>" c j throws] books assms(3)
      by (simp add: waits_its_turn_def ahead_at_most_def)
  next
    case (becomes_ready i)
    have "waits_its_turn c j (set_ready i True p)" using assms(3) by (simp add: waits_its_turn_def ahead_at_most_def set_ready_def)
    then show ?thesis
      using turns.keeps_pump[of "{}" "set_ready i True p" c j throws] set_ready_books[OF books] becomes_ready two by simp
  next
    case (stops_being_ready i)
    then show ?thesis using assms(3) by (simp add: waits_its_turn_def ahead_at_most_def set_ready_def)
  next
    case (load_called same_path)
    then show ?thesis using assms(3) by (simp add: load_pool_def waits_its_turn_def ahead_at_most_def)
  next
    case load_answered
    then show ?thesis using failed assms(3)
      by (auto simp: worker_loaded_def waits_its_turn_def ahead_at_most_def split: pool_load.splits)
  next
    case load_rejected
    then show ?thesis using failed assms(3) by (simp add: worker_failed_def split: pool_load.splits)
  next
    case unload_called
    then show ?thesis using unload[OF books assms(3)] by simp
  }
qed

section \<open>The pool's properties\<close>

interpretation pool_machine: invariant_machine "pool_step throws" "\<lambda>p. p = new_pool" pool_inv for throws
  by unfold_locales (use new_pool_inv pool_step_inv in blast)+

interpretation turn_machine: invariant_machine "pool_step throws" "\<lambda>p. False" "\<lambda>p. pool_inv p \<and> waits_its_turn c j p" for throws c j
  by unfold_locales (use pool_step_inv pool_step_turn in blast)+

lemma pool_reach_inv: "pool_reach throws p \<Longrightarrow> pool_inv p"
  unfolding pool_reach_def by (rule pool_machine.reach_inv) (rule refl)

text \<open>C38. The books of the pool balance: at any time at most four jobs are waiting or running, the positions of
  those that run add up to what is counted and to at most 2048, no job is in two places, and the promises
  settled are those of the jobs that are finished, each settled once.\<close>

theorem pool_books_balance:
  assumes "pool_reach throws p"
  shows "pool_outstanding p = int (length (waiting_jobs p) + length (running_jobs p)) \<and> pool_outstanding p \<le> 4 \<and>
    pool_active p = int (sum_list (map job_positions (running_jobs p))) \<and> pool_active p \<le> 2048 \<and>
    distinct (map job_id (waiting_jobs p @ running_jobs p)) \<and>
    pool_jobs p = map (state_of_id p) [0..<length (pool_jobs p)] \<and>
    distinct (map fst (pool_settled p)) \<and>
    fst ` set (pool_settled p) = {k. k < length (pool_jobs p) \<and> pool_jobs p ! k = Job_finished}"
proof -
  have "books_ok {} p" using pool_reach_inv[OF assms] by (simp add: pool_inv_def)
  moreover have "pool_jobs p = map (state_of_id p) [0..<length (pool_jobs p)]"
    by (rule nth_equalityI) (use calculation in \<open>simp_all add: books_ok_def states_ok_def\<close>)
  ultimately show ?thesis by (simp add: books_ok_def jobs_ok_def counts_ok_def states_ok_def short_batch_positions_def)
qed

text \<open>C39. No free worker waits: when no microtask is pending and a ready worker is free, nothing waits, or the next
  job does not fit into the positions left beside the job that runs on the other worker.\<close>

theorem pool_never_idles:
  assumes "pool_reach throws p" "pool_microtasks p = 0" "i < 2" "slot_free p i"
  shows "pool_queues p = [] \<or>
    (\<exists>g job jobs qs. pool_queues p = (g, job # jobs) # qs \<and> pool_active p + int (job_positions job) > 2048 \<and>
       running_jobs p \<noteq> [])"
proof -
  have inv: "books_ok {} p" "served p" using pool_reach_inv[OF assms(1)] assms(2) by (simp_all add: pool_inv_def)
  have blocked: "head_blocked p" using inv(2) assms(3,4) by (simp add: served_def)
  have ok: "queues_ok (pool_queues p)" "pool_active p = int (sum_list (map job_positions (running_jobs p)))"
    using inv(1) by (simp_all add: books_ok_def jobs_ok_def counts_ok_def)
  show ?thesis
  proof (cases "pool_queues p")
    case (Cons entry qs)
    obtain g job jobs where entry: "entry = (g, job # jobs)"
      using ok(1) Cons by (cases entry; cases "snd entry") (auto simp: queues_ok_def)
    have full: "pool_active p + int (job_positions job) > int short_batch_positions"
      using blocked Cons entry by (auto simp: head_blocked_def)
    have "job_positions job \<le> short_batch_positions"
      using inv(1) Cons entry by (auto simp: books_ok_def jobs_ok_def waiting_jobs_def)
    then have "running_jobs p \<noteq> []" using full ok(2) by auto
    then show ?thesis using Cons entry full by (simp add: short_batch_positions_def)
  qed simp
qed

text \<open>C40. Every request gets its turn: from when a job is first in its queue, no more other jobs are started before
  it than there are queues ahead of it, and these are at most three, whatever arrives, ends or is aborted.\<close>

theorem pool_turns_are_bounded:
  assumes "pool_reach throws p" "pool_queues p = ahead @ (g, j # js) # behind" "(pool_step throws)\<^sup>*\<^sup>* p q"
    "pool_jobs q ! job_id j = Job_queued"
  shows "length (pool_started q) \<le> length (pool_started p) + length ahead \<and> length ahead \<le> 3"
proof -
  have inv: "pool_inv p" by (rule pool_reach_inv[OF assms(1)])
  then have ok: "jobs_ok p" "counts_ok p" by (simp_all add: pool_inv_def books_ok_def)
  have g: "job_group j = g" using ok(1) assms(2) by (simp add: jobs_ok_def queues_ok_def)
  have "job_id j < length (pool_jobs p)" using ok(1) assms(2) by (simp add: jobs_ok_def waiting_jobs_def)
  then have "waits_its_turn (length (pool_started p) + length ahead) j p"
    using assms(2) g by (auto simp: waits_its_turn_def ahead_at_most_def)
  then have "waits_its_turn (length (pool_started p) + length ahead) j q"
    using turn_machine.steps_inv[OF assms(3)] inv by blast
  then have "length (pool_started q) \<le> length (pool_started p) + length ahead"
    using assms(4) by (auto simp: waits_its_turn_def ahead_at_most_def)
  moreover have "length ahead \<le> length (concat (map snd ahead))"
  proof (rule order_trans[of _ "length (map snd ahead)"])
    have "[] \<notin> set (map snd ahead)" using ok(1) assms(2) by (auto simp: jobs_ok_def queues_ok_def)
    then show "length (map snd ahead) \<le> length (concat (map snd ahead))" by (rule length_concat_pieces)
  qed simp
  moreover have "length (concat (map snd ahead)) < length (waiting_jobs p)" by (simp add: waiting_jobs_def assms(2))
  ultimately show ?thesis using ok(2) by (simp add: counts_ok_def)
qed

section \<open>A run of the pool\<close>

text \<open>Two workers are loaded; the signal 1 asks for three windows and the signal 2 for one, and the first ends.\<close>

definition demo_job :: "nat \<Rightarrow> nat \<Rightarrow> pool_job" where
  "demo_job k g = \<lparr>job_id = k, job_positions = 1, job_group = Some g\<rparr>"

abbreviation no_throw :: "nat \<Rightarrow> pool_job \<Rightarrow> bool" where
  "no_throw \<equiv> \<lambda>i job. False"

definition pool_after_load :: pool where
  "pool_after_load =
     worker_loaded (worker_loaded (pump no_throw (set_ready 1 True (pump no_throw (set_ready 0 True (load_pool True new_pool))))))"

definition ask :: "nat \<Rightarrow> pool \<Rightarrow> pool" where
  "ask g p = snd (pool_infer no_throw [7] (Some g) p)"

lemma pool_after_load_value:
  "pool_after_load = new_pool\<lparr>pool_slots := replicate 2 \<lparr>slot_ready = True, slot_job = None\<rparr>, pool_loaded := True,
     pool_load_phase := Load_over\<rparr>"
  by (simp add: pool_after_load_def new_pool_def load_pool_def set_ready_def pump_def worker_loaded_def numeral_2_eq_2)

lemma pool_reach_step: "pool_reach throws p \<Longrightarrow> pool_step throws p q \<Longrightarrow> pool_reach throws q"
  unfolding pool_reach_def by (rule rtranclp.rtrancl_into_rtrancl)

lemma pool_after_load_reach: "pool_reach no_throw pool_after_load"
proof -
  have "pool_reach no_throw new_pool" by (simp add: pool_reach_def)
  then have "pool_reach no_throw (load_pool True new_pool)" by (rule pool_reach_step) (rule pool_step.load_called)
  then have "pool_reach no_throw (pump no_throw (set_ready 0 True (load_pool True new_pool)))"
    by (rule pool_reach_step) (rule pool_step.becomes_ready, simp add: load_pool_def new_pool_def)
  then have "pool_reach no_throw (pump no_throw (set_ready 1 True (pump no_throw (set_ready 0 True (load_pool True new_pool)))))"
    by (rule pool_reach_step) (rule pool_step.becomes_ready, simp add: load_pool_def new_pool_def pump_def set_ready_def)
  then show ?thesis unfolding pool_after_load_def
    by (intro pool_reach_step[OF _ pool_step.load_answered])
qed

lemma ask_reach: "pool_reach no_throw p \<Longrightarrow> pool_reach no_throw (ask g p)"
  unfolding ask_def by (erule pool_reach_step) (rule pool_step.infer)

lemmas pool_run = ask_def pool_infer_def enqueue_job_def add_job_def pump_def pump_slots_Cons pump_slots.simps(1) start_job_def
  pool_is_ready_def Let_def short_batch_positions_def window_core_def window_context_def max_safe_integer_def demo_job_def

definition busy_pool :: pool where
  "busy_pool = ask 2 (ask 1 (ask 1 (ask 1 pool_after_load)))"

lemma busy_pool_value:
  "busy_pool = pool_after_load\<lparr>pool_slots := [\<lparr>slot_ready = True, slot_job = Some (demo_job 0 1)\<rparr>, \<lparr>slot_ready = True, slot_job = Some (demo_job 1 1)\<rparr>],
     pool_queues := [(Some 1, [demo_job 2 1]), (Some 2, [demo_job 3 2])], pool_outstanding := 4, pool_active := 2,
     pool_jobs := [Job_running, Job_running, Job_queued, Job_queued], pool_started := [0, 1]\<rparr>"
proof -
  have one: "ask 1 pool_after_load = pool_after_load\<lparr>pool_slots := [\<lparr>slot_ready = True, slot_job = Some (demo_job 0 1)\<rparr>, \<lparr>slot_ready = True, slot_job = None\<rparr>],
      pool_outstanding := 1, pool_active := 1, pool_jobs := [Job_running], pool_started := [0]\<rparr>"
    unfolding pool_after_load_value new_pool_def by (simp add: pool_run numeral_2_eq_2)
  have two: "ask 1 (ask 1 pool_after_load) = pool_after_load\<lparr>pool_slots := [\<lparr>slot_ready = True, slot_job = Some (demo_job 0 1)\<rparr>, \<lparr>slot_ready = True, slot_job = Some (demo_job 1 1)\<rparr>],
      pool_outstanding := 2, pool_active := 2, pool_jobs := [Job_running, Job_running], pool_started := [0, 1]\<rparr>"
    unfolding one unfolding pool_after_load_value new_pool_def by (simp add: pool_run numeral_2_eq_2)
  show ?thesis unfolding busy_pool_def two unfolding pool_after_load_value new_pool_def by (simp add: pool_run numeral_2_eq_2 numeral_3_eq_3)
qed

lemma busy_pool_reach: "pool_reach no_throw busy_pool"
  unfolding busy_pool_def by (intro ask_reach pool_after_load_reach)

lemma pool_books_balance_witness: "pool_outstanding busy_pool = 4 \<and> pool_active busy_pool = 2"
  using pool_books_balance[OF busy_pool_reach] by (simp add: busy_pool_value)

lemma pool_never_idles_witness: "slot_free (ask 1 pool_after_load) 1 \<and> pool_queues (ask 1 pool_after_load) = []"
proof -
  have one: "pool_slots (ask 1 pool_after_load) = [\<lparr>slot_ready = True, slot_job = Some (demo_job 0 1)\<rparr>, \<lparr>slot_ready = True, slot_job = None\<rparr>]"
    "pool_queues (ask 1 pool_after_load) = []" "pool_microtasks (ask 1 pool_after_load) = 0"
    unfolding pool_after_load_value new_pool_def by (simp_all add: pool_run numeral_2_eq_2)
  then have free: "slot_free (ask 1 pool_after_load) 1" by (simp add: slot_free_def)
  have "pool_queues (ask 1 pool_after_load) = [] \<or>
      (\<exists>g job jobs qs. pool_queues (ask 1 pool_after_load) = (g, job # jobs) # qs \<and>
        pool_active (ask 1 pool_after_load) + int (job_positions job) > 2048 \<and> running_jobs (ask 1 pool_after_load) \<noteq> [])"
    by (rule pool_never_idles[OF ask_reach[OF pool_after_load_reach] one(3) _ free]) simp
  then show ?thesis using free one(2) by simp
qed

lemma pool_turns_are_bounded_witness:
  "length (pool_started (finish_job no_throw 0 (demo_job 0 1) True busy_pool)) \<le> 3 \<and>
   pool_jobs (finish_job no_throw 0 (demo_job 0 1) True busy_pool) ! 3 = Job_queued"
proof -
  let ?q = "finish_job no_throw 0 (demo_job 0 1) True busy_pool"
  have "pool_step no_throw busy_pool ?q" by (rule pool_step.answered) (simp_all add: busy_pool_value)
  then have step: "(pool_step no_throw)\<^sup>*\<^sup>* busy_pool ?q" by simp
  have queue: "pool_queues busy_pool = [(Some 1, [demo_job 2 1])] @ (Some 2, demo_job 3 2 # []) # []" by (simp add: busy_pool_value)
  have waits: "pool_jobs ?q ! 3 = Job_queued"
    unfolding busy_pool_value pool_after_load_value new_pool_def
    by (simp add: finish_job_def release_slot_def settle_def pool_run numeral_2_eq_2 numeral_3_eq_3)
  then have "pool_jobs ?q ! job_id (demo_job 3 2) = Job_queued" by (simp add: demo_job_def)
  from pool_turns_are_bounded[OF busy_pool_reach queue step this] waits show ?thesis by (simp add: busy_pool_value)
qed

end
