(* ===== verification/Spec2Isabelle.thy ===== *)
theory Spec2Isabelle
  imports Handoff_Properties Replication_Properties Realtime_Properties Team_Access Project_Properties
    Client_Properties Drain_Properties Enrollment Canonical_Json Store_Lock Secure_Fetch Client_Outbox Privacy_Pool
begin

text \<open>
  Koed keeps the memory and the conversations of coding agents on a person's devices and in teams. This
  development verifies the protocol and client logic of its shared packages, \<^verbatim>\<open>packages/shared\<close> and
  \<^verbatim>\<open>packages/core\<close>, which its desktop application, its servers and its workers all import, the enrollment
  protocol of its local server, and the classification of its privacy service: the code that decides what is
  accepted, in which state a protocol is, what is stored under which lock, what is connected to, what is masked
  before a text is shared, and what a client shows.

  \<^bold>\<open>The parts and how they interact.\<close> A managed conversation runs on one device at a time. An exclusive
  handoff (\<^verbatim>\<open>managed-conversation-transfer.ts\<close>) moves it to another device under a certificate of two
  signatures, after the target has proved itself ready; a fork (\<^verbatim>\<open>managed-conversation-fork.ts\<close>) copies it.
  Its source text travels as signed segments (\<^verbatim>\<open>conversation-source-replication.ts\<close>) that a receiver
  accepts under the registration of the origin's key. Which folder or repository a project means on a
  person's devices is a replicated selection (\<^verbatim>\<open>personal-project-selection.ts\<close>), a causal graph of signed
  revisions. Events reach a client over a realtime transport (\<^verbatim>\<open>durable-realtime.ts\<close>), and workers are woken
  by a drain controller on PostgreSQL notifications (\<^verbatim>\<open>notification-drain-controller.ts\<close>). The collaboration
  client (\<^verbatim>\<open>collaboration-client-runtime.ts\<close>, \<^verbatim>\<open>client-foundation.ts\<close>) keeps subscriptions and cached views, drafts, and
  an outbox of commands. The local server is enrolled with an upstream by a transaction
  (\<^verbatim>\<open>upstream-enrollment-transaction.ts\<close>) that survives crashes, and reaches it by a fetch that guards against
  addresses of other networks (\<^verbatim>\<open>secure-upstream-fetch.ts\<close>); its credentials lie in encrypted stores that are
  changed under a lock file (\<^verbatim>\<open>encrypted-state-transaction-core.ts\<close>). Before a text is shared the privacy
  service (\<^verbatim>\<open>apps/privacy-service\<close>) masks it: a tokenizer splits the text, a model scores every token in windows
  that a pool of two workers runs, a Viterbi decoder turns the scores into labels, and what they and the patterns
  of credentials mark is replaced by placeholders. Identities of values are digests of
  their canonical text (\<^verbatim>\<open>canonical-json.ts\<close>). Who
  may see a team's memory is decided by \<^verbatim>\<open>team-workspace-authorization.ts\<close> and \<^verbatim>\<open>team-source-boundary.ts\<close>, and
  \<^verbatim>\<open>team-presence.ts\<close> derives what a team sees of its members.

  \<^bold>\<open>How JavaScript is modelled.\<close> \<open>Prelude\<close> has the errors and the result type, \<open>js_error + 'a\<close>: every
  \<^verbatim>\<open>throw\<close> is a value \<open>Inl\<close>, statements are sequenced with \<open>ebind\<close>, and the collection \<open>result_simps\<close> says
  when a sequence returns. \<open>Js_Value\<close> has the values of type \<^verbatim>\<open>unknown\<close>: \<^verbatim>\<open>undefined\<close>, \<^verbatim>\<open>null\<close>, booleans,
  numbers, strings, arrays, plain objects (own members in order) and everything else (\<open>JOther\<close>). A number
  is an integer (negative zero is 0), another finite number, or not finite. A \<open>string\<close> is the UTF-8 of the text, lone surrogates
  included as their three bytes; \<open>js_length\<close> counts UTF-16 code units and \<open>utf16_units\<close> gives the order of \<^verbatim>\<open>sort\<close>.
  \<open>Js_Text\<close> models the text functions, base64url, decimal numbers and ISO dates, \<open>Js_Json\<close> the fatal UTF-8
  decoder, \<^verbatim>\<open>JSON.parse\<close> with numbers rounded to doubles, and quoted strings, \<open>Json_Text\<close> \<^verbatim>\<open>JSON.stringify\<close> and that
  what it wrote is parsed back, \<open>Utf16\<close> that the code units determine a text. Objects that are mutated are
  records passed along. \<^verbatim>\<open>async\<close> functions are steps between their awaits. Clocks, random values, the
  streams and what callbacks answer are inputs.

  \<^bold>\<open>Theories and code.\<close>
  \<open>Protocol_Fields\<close>: the patterns, integers, key material and cryptography record shared by the protocols.
  The locales of \<open>Js_Value\<close> are the contracts of a field validator, \<open>field_codec\<close>, and of an object parser,
  \<open>normalizing_codec\<close> and \<open>object_codec\<close>, interpreted for the validators and parsers of each protocol.
  \<open>Handoff\<close>, \<open>Handoff_Certificate\<close>, \<open>Handoff_State\<close>, \<open>Handoff_Readiness\<close>: the parts of
  \<^verbatim>\<open>managed-conversation-transfer.ts\<close> in its order; \<open>Fork\<close>: \<^verbatim>\<open>managed-conversation-fork.ts\<close>; properties of both in
  \<open>Handoff_Properties\<close>.
  \<open>Replication\<close>, \<open>Replication_Set\<close>, \<open>Replication_Keys\<close>, \<open>Replication_Accept\<close>, \<open>Replication_Source\<close>:
  \<^verbatim>\<open>conversation-source-replication.ts\<close>, its segment and closure manifests, set closures, signatures, origin key
  registry with acceptance and envelopes, and source descriptors; properties in \<open>Replication_Properties\<close>.
  \<open>Realtime_Frames\<close>, \<open>Realtime_Sse\<close>, \<open>Realtime_Retry\<close>: \<^verbatim>\<open>durable-realtime.ts\<close>, the framed stream, the reader of
  server-sent events, and transport fallback with the retrying runtime; properties in \<open>Realtime_Properties\<close>.
  \<open>Team_Access\<close>: the authorization, source boundary and presence modules with their properties.
  \<open>Causal_Graph\<close>, \<open>Project_Selection\<close>: \<^verbatim>\<open>personal-project-selection.ts\<close>, the depth-first walk of its resolver
  first; properties in \<open>Project_Properties\<close>.
  \<open>View_Cache\<close>, \<open>Client_Runtime\<close>, \<open>Client_Subscriptions\<close>: the bounded caches of \<^verbatim>\<open>client-foundation.ts\<close> and the
  collaboration client, its operations and their interleavings; properties in \<open>Client_Properties\<close>.
  \<open>Notification_Drain\<close>: the drain controller; properties in \<open>Drain_Properties\<close>.
  \<open>Enrollment\<close>: the enrollment transaction, its decision function and its properties.
  \<open>Canonical_Json\<close>: \<^verbatim>\<open>canonical-json.ts\<close> and \<^verbatim>\<open>canonical-json-digest.ts\<close>.
  \<open>Store_Lock\<close>: the lock file of \<^verbatim>\<open>encrypted-state-transaction-core.ts\<close> and the mutation under it, as an inductive
  step relation of processes at the granularity of file system calls.
  \<open>Network_Guard\<close>, \<open>Secure_Fetch\<close>: \<^verbatim>\<open>private-network.ts\<close>, \<^verbatim>\<open>http-transport-security.ts\<close> and
  \<^verbatim>\<open>secure-upstream-fetch.ts\<close>, first the address classes on 32-bit words, then the fetch as a step relation.
  \<open>Privacy_Decoder\<close>, \<open>Privacy_Viterbi\<close>: \<^verbatim>\<open>labels.ts\<close> and \<^verbatim>\<open>decoder.ts\<close> of the privacy service, on the doubles of
  \<open>Js_Double\<close>, and that the decoder finds a best path. \<open>Privacy_Secrets\<close>: \<^verbatim>\<open>secrets.ts\<close> with its regular expressions.
  \<open>Privacy_Masking\<close>, \<open>Privacy_Spans\<close>: \<^verbatim>\<open>masking.ts\<close> over the byte offsets of \<^verbatim>\<open>offsets.ts\<close> and the buffers of
  \<open>Js_Buffer\<close>, and what is masked and kept. \<open>Privacy_Tokens\<close>: offsets in code units, and the preparation and windows
  of a field in \<^verbatim>\<open>runtime.ts\<close>. \<open>Privacy_Batches\<close>: \<^verbatim>\<open>inference-contract.ts\<close> and \<^verbatim>\<open>field-classification.ts\<close>.
  \<open>Privacy_Pool\<close>: \<^verbatim>\<open>onnx-pool.ts\<close> as a step relation.
  \<open>Portable_Client\<close>, \<open>Client_Outbox\<close>: the rest of \<^verbatim>\<open>client-foundation.ts\<close>, its schemas, registry and drafts, and its
  outbox with the abstract map it refines.
  \<open>Step_Machines\<close>: the locales of state machines with an invariant or a measure, interpreted for the handoff
  states, the realtime runtime, the client, the drain controller, the enrollment transaction, the store lock,
  the fetch, the registry of backends and the inference pool.

  \<^bold>\<open>What the lemmas show.\<close> A parser is characterised exactly: it returns a record if and only if the value is
  a plain object with that record's members and the record is well formed, and parsing what it returned
  gives it again. Signing then verifying succeeds and verification is decided by the stated conditions only.
  State machines keep their invariants in every interleaving: the realtime runtime, the client's
  subscriptions, the drain controller, the enrollment transaction, the processes at the store lock, the
  requests of the fetch, and the jobs of the inference pool, whose \<open>dispatch_invariant\<close> says once what starting,
  ending and pumping must keep for the books, the states and the turns of its jobs. The snapshots an enrollment can
  reach are exactly those of a table, and a failed effect is dispatched again. Of every subscription and every
  notification client the development says where it went: which are live, given back, or lost, and by what.
  Masking is followed from the scores to the text: the path of labels is best; every labelled token and the
  credential of every place a pattern matches is in a span, and no character without a labelled byte or a
  credential is; the slices between the spans are kept, with a placeholder for each span; and a text always gets
  through. The fields of a request each get what their own task answers, whatever the scores are and in
  whatever order tasks end. Readers give the same frames however the bytes are chunked. Replicated resolution does
  not depend on order, and canonical texts decide equality of values whose texts and numbers read back. The outbox refines a map, and the locked store the
  serial application of its mutations. Where the code does not do what it means to, the behaviour is stated as it
  is: the byte limit of the event reader depends on the chunks, a subscription attempt of an older
  authority is joined, a subscription recorded over a live one loses it, a pooled client given out again is never
  released again, a failed compensation is never completed, the recovery of a stale lock can remove a fresh
  one, a loopback name may lead to public addresses, other texts of the IPv6 loopback address count as public,
  and drafts and commands whose names have white space around them are not found again.

  \<^bold>\<open>Bounds and fuel.\<close> \<open>json_parse\<close> gives \<open>json_value\<close> twice the length of the text and two as fuel: a value
  calls for at most two levels per character. \<open>decimal_digits\<close> and \<open>pad_digits\<close> recurse on the
  number of digits asked for. All other loops are structural or have a termination proof: the ancestry
  walk by the members not yet visited, the causal walk by the revisions not yet entered and the stack,
  the drain of buffered frames by the length of the buffer, the canonical text by the size of the value. The
  refinement of the outbox is stated for at most \<open>2 ^ 53 - 1\<close> calls, after which the count of attempts
  would no longer be a safe integer. The decoder's path is best for scores and biases of at most \<open>2 ^ 64\<close> in size and
  fewer than \<open>2 ^ 32\<close> tokens, so that no sum comes near the \<open>-1e30\<close> that stands for impossible; the code bounds
  tokens by the 262144 of a field, and the scores are 32-bit floats of a classifier.

  \<^bold>\<open>Parameters.\<close> Code outside the repository is an argument: the record \<open>crypto\<close> for \<^verbatim>\<open>node:crypto\<close> and the
  canonicalisation package, \<^verbatim>\<open>Date.parse\<close> where non-ISO input can reach it, the zod schemas of a revision, the
  URL parser, the schema library's pattern of times, what the operating system says of processes, the text of
  numbers that are not safe integers, the tokenizer, the model, the order in which the tasks of a request end and which
  worker calls throw. Theorems name what they need of them as hypotheses, and
  each has a witness with concrete functions.

  \<^bold>\<open>Not modelled.\<close> The SQL repositories, HTTP routes, workers, desktop windows and command-line tools: their
  meaning lies in PostgreSQL, Fastify, Electron and the operating system. The declarative zod contracts.
  Of the privacy service its server, configuration and caches, the supervision and loading of the runtime, the
  conversion of tensors, and calls that are aborted while a field is classified.
  Envelope encryption, encrypted custody and key files; of the encrypted stores everything but the lock. Of
  \<^verbatim>\<open>personal-device-sync-jcs.ts\<close> the strict scanner. Getters, proxies, symbols and cyclic values, which no JSON
  input has.
\<close>

end
